(* ===== verification/Prelude.thy ===== *)
theory Prelude
  imports Main "HOL-Library.Word" "HOL-Library.Multiset"
begin

section \<open>Prelude: words, intrusive chains and shared loops\<close>

text \<open>
  What every component of the library shares:
  \<^item> the atomic pointer word (\<open>std::uintptr_t\<close>) that the strand, the one shot event, the
    result cores and the coroutine mutex all keep: zero, the maximal value, or the address of a
    node;
  \<^item> singly linked chains of nodes threaded through the \<open>next\<close> pointers of
    \<open>include/yaclib/util/detail/node.hpp\<close>, with their frame lemmas;
  \<^item> the in-place reversal loop that \<open>Strand::Call\<close> and \<open>MutexImpl::GetHead\<close> contain, with its
    total correctness.
\<close>

named_theorems chain_simps "rewrite rules for chains of intrusive nodes"

type_synonym u32 = "32 word"
type_synonym u64 = "64 word"

subsection \<open>The atomic pointer word\<close>

text \<open>
  \<open>UZero\<close> is the value 0 (\<open>nullptr\<close>, \<open>kEmpty\<close>, \<open>kLockedNoWaiters\<close>), \<open>UMax\<close> is the reserved
  non-pointer value (\<open>Strand::Mark()\<close>, \<open>kAllDone\<close>, \<open>kResult\<close>, \<open>kNotLocked\<close>) and \<open>UAt a\<close> is
  the address of the node \<open>a\<close>. The three are pairwise different, as the assertions at the head
  of \<open>BaseCore::SetCallbackImpl\<close> require of a callback's address.
\<close>

datatype 'a uptr = UZero | UMax | UAt 'a

text \<open>The pointer such a word is converted to when it becomes some node's \<open>next\<close>.\<close>

fun ptr_of :: "'a uptr \<Rightarrow> 'a option" where
  "ptr_of UZero = None"
| "ptr_of UMax = None"
| "ptr_of (UAt a) = Some a"

lemma ptr_of_Some [simp]: "ptr_of u = Some a \<longleftrightarrow> u = UAt a"
  by (cases u) auto

primrec chain :: "('a \<Rightarrow> 'a option) \<Rightarrow> 'a option \<Rightarrow> 'a list \<Rightarrow> 'a option \<Rightarrow> bool" where
  "chain h p [] q = (p = q)"
| "chain h p (x # xs) q = (p = Some x \<and> chain h (h x) xs q)"

abbreviation nlist :: "('a \<Rightarrow> 'a option) \<Rightarrow> 'a option \<Rightarrow> 'a list \<Rightarrow> bool" where
  "nlist h p xs \<equiv> chain h p xs None"

lemma chain_append [simp, chain_simps]:
  "chain h p (xs @ ys) q \<longleftrightarrow> (\<exists>r. chain h p xs r \<and> chain h r ys q)"
  by (induction xs arbitrary: p) auto

lemma chain_frame [simp, chain_simps]:
  "x \<notin> set xs \<Longrightarrow> chain (h(x := v)) p xs q = chain h p xs q"
proof (induction xs arbitrary: p)
  case (Cons y ys)
  then have "(h(x := v)) y = h y" by auto
  with Cons show ?case by auto
qed simp

lemma chain_agree:
  "chain h p xs q \<Longrightarrow> (\<And>x. x \<in> set xs \<Longrightarrow> h' x = h x) \<Longrightarrow> chain h' p xs q"
  by (induction xs arbitrary: p) auto

lemma nlist_None [simp, chain_simps]: "nlist h None xs \<longleftrightarrow> xs = []"
  by (cases xs) auto

lemma nlist_Some [chain_simps]:
  "nlist h (Some a) xs \<longleftrightarrow> (\<exists>ys. xs = a # ys \<and> nlist h (h a) ys)"
  by (cases xs) auto

lemma nlist_functional: "nlist h p xs \<Longrightarrow> nlist h p ys \<Longrightarrow> xs = ys"
proof (induction xs arbitrary: p ys)
  case Nil
  then show ?case by simp
next
  case (Cons x xs)
  then show ?case by (cases ys) auto
qed

lemma nlist_suffix_eq:
  assumes "nlist h p (as @ x # bs)" and "nlist h (Some x) cs"
  shows "cs = x # bs"
  using assms by (auto intro: nlist_functional)

lemma nlist_distinct [simp]: "nlist h p xs \<Longrightarrow> distinct xs"
proof (induction xs arbitrary: p)
  case (Cons x xs)
  have "x \<notin> set xs"
  proof
    assume "x \<in> set xs"
    then obtain as bs where xs: "xs = as @ x # bs" by (auto simp: in_set_conv_decomp)
    with Cons.prems have "nlist h (Some x) (x # as @ x # bs)" and "nlist h (Some x) (x # bs)"
      by auto
    then have "x # as @ x # bs = x # bs" by (rule nlist_functional)
    then have "length (x # as @ x # bs) = length (x # bs)" by metis
    then show False by simp
  qed
  with Cons show ?case by auto
qed simp

lemma nlist_push:
  "nlist h p xs \<Longrightarrow> x \<notin> set xs \<Longrightarrow> nlist (h(x := p)) (Some x) (x # xs)"
  by simp

subsection \<open>Reversal in place\<close>

text \<open>
  The loop
  \<^verbatim>\<open>
    do { next = node->next; node->next = prev; prev = node; node = next; } while (node != nullptr)
  \<close>
  started with \<open>node \<noteq> nullptr\<close>. It returns the memory and the last \<open>prev\<close>; a chain that never
  ends is the value None.
\<close>

partial_function (option) reverse_loop ::
    "('a \<Rightarrow> 'a option) \<Rightarrow> 'a \<Rightarrow> 'a option \<Rightarrow> (('a \<Rightarrow> 'a option) \<times> 'a) option" where
  "reverse_loop h node prev =
     (case h node of
        None \<Rightarrow> Some (h(node := prev), node)
      | Some nx \<Rightarrow> reverse_loop (h(node := prev)) nx (Some node))"

lemma reverse_loop_total:
  assumes "nlist h (Some a) (a # xs)" and "nlist h prev ys" and "set (a # xs) \<inter> set ys = {}"
  shows "\<exists>h' r. reverse_loop h a prev = Some (h', r) \<and> nlist h' (Some r) (rev (a # xs) @ ys)
           \<and> (\<forall>z. z \<notin> set (a # xs) \<longrightarrow> h' z = h z)"
  using assms
proof (induction xs arbitrary: h a prev ys)
  case Nil
  then have "reverse_loop h a prev = Some (h(a := prev), a)"
    by (subst reverse_loop.simps) simp
  with Nil show ?case by auto
next
  case (Cons b bs)
  let ?h = "h(a := prev)"
  have d: "distinct (a # b # bs)" using Cons.prems(1) by (rule nlist_distinct)
  have step: "reverse_loop h a prev = reverse_loop ?h b (Some a)"
    using Cons.prems(1) by (subst reverse_loop.simps) simp
  have "nlist h (h b) bs" using Cons.prems(1) by simp
  with d have "nlist ?h (Some b) (b # bs)" by auto
  moreover have "nlist ?h (Some a) (a # ys)" using Cons.prems by auto
  moreover have "set (b # bs) \<inter> set (a # ys) = {}" using d Cons.prems(3) by auto
  ultimately obtain h' r where
    "reverse_loop ?h b (Some a) = Some (h', r)"
    "nlist h' (Some r) (rev (b # bs) @ a # ys)"
    "\<forall>z. z \<notin> set (b # bs) \<longrightarrow> h' z = ?h z"
    using Cons.IH by blast
  with step show ?case by (intro exI [of _ h'] exI [of _ r]) auto
qed

subsection \<open>Walking a chain\<close>

text \<open>
  The loop that visits every node of a chain, reading \<open>next\<close> before it uses the node
  (\<open>SetImpl\<close> of the one shot event, \<open>Strand::Drop\<close>): the nodes in the order of the visits.
\<close>

partial_function (option) walk_chain :: "('a \<Rightarrow> 'a option) \<Rightarrow> 'a option \<Rightarrow> 'a list option" where
  "walk_chain h p =
     (case p of
        None \<Rightarrow> Some []
      | Some a \<Rightarrow> Option.bind (walk_chain h (h a)) (\<lambda>as. Some (a # as)))"

lemma walk_chain_total: "nlist h p xs \<Longrightarrow> walk_chain h p = Some xs"
proof (induction xs arbitrary: p)
  case Nil
  then show ?case by (subst walk_chain.simps) simp
next
  case (Cons x xs)
  then have "walk_chain h (h x) = Some xs" by simp
  with Cons.prems show ?case by (subst walk_chain.simps) simp
qed

subsection \<open>Small facts on lists and options\<close>

lemma filter_notin_id: "(\<And>x. x \<in> set xs \<Longrightarrow> x \<notin> S) \<Longrightarrow> filter (\<lambda>x. x \<notin> S) xs = xs"
  by (induction xs) auto

lemma filter_notin_none: "set xs \<subseteq> S \<Longrightarrow> filter (\<lambda>x. x \<notin> S) xs = []"
  by (induction xs) auto

lemma map_option_Some_iff: "map_option f x = Some y \<longleftrightarrow> (\<exists>z. x = Some z \<and> f z = y)"
  by (cases x) auto

subsection \<open>Sums over a table of threads\<close>

text \<open>
  The program counters of a fixed number of threads are a list; a step updates one entry. The
  lemma holds for numbers and for multisets alike.
\<close>

lemma sum_list_step:
  fixes f :: "'a \<Rightarrow> 'b::comm_monoid_add"
  assumes "i < length xs"
  shows "sum_list (map f (xs[i := x])) + f (xs ! i) = sum_list (map f xs) + f x"
  using assms
proof (induction xs arbitrary: i)
  case (Cons y ys)
  show ?case
  proof (cases i)
    case (Suc k)
    then have "sum_list (map f (ys[k := x])) + f (ys ! k) = sum_list (map f ys) + f x"
      using Cons by simp
    then show ?thesis using Suc by (simp add: add.assoc)
  qed (simp add: ac_simps)
qed simp

lemma sum_list_step_nat:
  fixes f :: "'a \<Rightarrow> nat"
  assumes "i < length xs"
  shows "sum_list (map f (xs[i := x])) = sum_list (map f xs) + f x - f (xs ! i)"
  using sum_list_step [OF assms, of f x] by simp

lemma sum_list_step_mset:
  fixes f :: "'a \<Rightarrow> 'b multiset"
  assumes "i < length xs"
  shows "sum_list (map f (xs[i := x])) = sum_list (map f xs) + f x - f (xs ! i)"
  using sum_list_step [OF assms, of f x] by (metis add_diff_cancel_right')

lemma sum_list_member_le_mset:
  fixes f :: "'a \<Rightarrow> 'b multiset"
  shows "i < length xs \<Longrightarrow> f (xs ! i) \<subseteq># sum_list (map f xs)"
proof (induction xs arbitrary: i)
  case (Cons x xs)
  show ?case
  proof (cases i)
    case (Suc k)
    then have "f (xs ! k) \<subseteq># sum_list (map f xs)" using Cons by simp
    then show ?thesis using Suc by (simp add: subset_mset.add_increasing)
  qed simp
qed simp

lemma balance_shift:
  fixes x :: "'a::cancel_comm_monoid_add"
  assumes "d' + x = d + y" "s' + y = s + x"
  shows "d' + s' = d + s"
proof -
  have "(d' + s') + (x + y) = (d' + x) + (s' + y)" by (simp add: ac_simps)
  also have "\<dots> = (d + s) + (x + y)" unfolding assms by (simp add: ac_simps)
  finally show ?thesis by simp
qed

lemma sum_list_entry_le:
  fixes f :: "'a \<Rightarrow> nat"
  shows "i < length xs \<Longrightarrow> f (xs ! i) \<le> sum_list (map f xs)"
  by (metis elem_le_sum_list length_map nth_map)

lemma sum_list_replicate_zero:
  fixes f :: "'a \<Rightarrow> 'b::comm_monoid_add"
  shows "f x = 0 \<Longrightarrow> sum_list (map f (replicate k x)) = 0"
  by (induction k) auto

lemma sum_list_all_zero:
  fixes f :: "'a \<Rightarrow> 'b::comm_monoid_add"
  shows "(\<And>x. x \<in> set xs \<Longrightarrow> f x = 0) \<Longrightarrow> sum_list (map f xs) = 0"
  by (induction xs) auto

lemma sum_list_replicate_empty [simp]: "sum_list (replicate k {#}) = {#}"
  by (induction k) auto

lemma mem_updateD: "y \<in> set (xs[i := x]) \<Longrightarrow> y = x \<or> y \<in> set xs"
  using set_update_subset_insert [of xs i x] by blast

lemma ball_updateI:
  assumes "\<forall>y \<in> set xs. P y" "P x"
  shows "\<forall>y \<in> set (xs[i := x]). P y"
  using assms mem_updateD by metis

lemma ex_update_new: "i < length xs \<Longrightarrow> P x \<Longrightarrow> \<exists>y \<in> set (xs[i := x]). P y"
  by (rule bexI [of _ x]) (simp_all add: set_update_memI)

lemma ex_update_keep:
  assumes "\<exists>y \<in> set xs. P y" "P (xs ! i) \<Longrightarrow> P x" "i < length xs"
  shows "\<exists>y \<in> set (xs[i := x]). P y"
proof -
  obtain k where k: "k < length xs" "P (xs ! k)" using assms(1) by (auto simp: in_set_conv_nth)
  show ?thesis
  proof (cases "k = i")
    case True
    then show ?thesis using k assms by (intro ex_update_new) auto
  next
    case False
    then have "xs[i := x] ! k = xs ! k" by simp
    then show ?thesis using k by (metis length_list_update nth_mem)
  qed
qed

subsection \<open>Flags in the low bits of a counter\<close>

text \<open>
  A counter in steps of four with two flag bits below it, as \<open>_jobs_count\<close> of the thread pool.
\<close>

lemma flag_bits:
  fixes w :: u64
  assumes "unat w = 4 * n + 2 * of_bool a + of_bool b"
  shows "and w 1 \<noteq> 0 \<longleftrightarrow> b" and "and w 2 \<noteq> 0 \<longleftrightarrow> a" and "drop_bit 2 w = 0 \<longleftrightarrow> n = 0"
    and "unat (or w 1) = 4 * n + 2 * of_bool a + 1"
    and "unat (or w 2) = 4 * n + 2 + of_bool b"
proof -
  have u: "unat (and w 1) = and (unat w) 1" "unat (and w 2) = and (unat w) 2"
      "unat (drop_bit 2 w) = unat w div 4" "unat (or w 1) = or (unat w) 1" "unat (or w 2) = or (unat w) 2"
    by (simp_all add: unsigned_and_eq unsigned_or_eq unat_div_distrib drop_bit_eq_div)
  have n1: "and (unat w) 1 = of_bool b" unfolding assms by (cases a; cases b) (simp_all add: and_one_eq, presburger+)
  have n2: "and (unat w) 2 = 2 * of_bool a"
    unfolding assms by (cases a; cases b) (simp_all add: and_rec [of _ "2::nat"] and_one_eq)
  have n4: "or (unat w) 1 = 4 * n + 2 * of_bool a + 1"
    unfolding assms by (cases a; cases b) (simp_all add: or_Suc_0_eq)
  have n5: "or (unat w) 2 = 4 * n + 2 + of_bool b"
    unfolding assms by (cases a; cases b) (simp_all add: or_rec [of _ "2::nat"] or_Suc_0_eq)
  show "and w 1 \<noteq> 0 \<longleftrightarrow> b" using u(1) n1 by (metis of_bool_eq_0_iff unsigned_eq_0_iff)
  show "and w 2 \<noteq> 0 \<longleftrightarrow> a" using u(2) n2 by (metis mult_eq_0_iff of_bool_eq_0_iff unsigned_eq_0_iff zero_neq_numeral)
  show "drop_bit 2 w = 0 \<longleftrightarrow> n = 0"
  proof -
    have "drop_bit 2 w = 0 \<longleftrightarrow> unat w div 4 = 0" using u(3) by (metis unsigned_eq_0_iff)
    then show ?thesis unfolding assms by (cases a; cases b) auto
  qed
  show "unat (or w 1) = 4 * n + 2 * of_bool a + 1" using u(4) n4 by simp
  show "unat (or w 2) = 4 * n + 2 + of_bool b" using u(5) n5 by simp
qed

end
