(* ===== verification/Intrusive.thy ===== *)
theory Intrusive
  imports Prelude
begin

section \<open>Intrusive containers: List and Stack\<close>

text \<open>
  The pointer level model of \<open>include/yaclib/util/detail/intrusive_list.hpp\<close>,
  \<open>src/util/intrusive_list.cpp\<close> and \<open>include/yaclib/util/detail/intrusive_stack.hpp\<close>. A list
  owns a sentinel node \<open>_head\<close> and a pointer \<open>_tail\<close> to its last node or to the sentinel; a stack
  owns only a head pointer. Both thread their elements through \<open>Node::next\<close>. The contract they
  share is the locale \<open>node_container\<close>; its clients (the thread pool's \<open>HardStop\<close>, the manual
  executor, the shared mutex, which picks one of the two by a template flag) empty a container
  with the same loop, whose total correctness is proved once in the locale.
\<close>

subsection \<open>Nodes\<close>

text \<open>A node is the sentinel \<open>_head\<close> of the list with that number, or an element.\<close>

datatype 'a node = Sentinel nat | Elem 'a

record 'a nodes =
  nxt :: "'a node \<Rightarrow> 'a node option"
  tail_of :: "nat \<Rightarrow> 'a node"
  top_of :: "nat \<Rightarrow> 'a node option"

subsection \<open>List: first in, first out\<close>

definition list_init :: "nat \<Rightarrow> 'a nodes \<Rightarrow> 'a nodes" where
  "list_init l s = s\<lparr>nxt := (nxt s)(Sentinel l := None), tail_of := (tail_of s)(l := Sentinel l)\<rparr>"

definition list_empty :: "nat \<Rightarrow> 'a nodes \<Rightarrow> bool" where
  "list_empty l s \<longleftrightarrow> nxt s (Sentinel l) = None"

definition list_push_front :: "nat \<Rightarrow> 'a nodes \<Rightarrow> 'a \<Rightarrow> 'a nodes" where
  "list_push_front l s x =
     (let s1 = (if list_empty l s then s\<lparr>tail_of := (tail_of s)(l := Elem x)\<rparr> else s);
          s2 = s1\<lparr>nxt := (nxt s1)(Elem x := nxt s1 (Sentinel l))\<rparr>
      in s2\<lparr>nxt := (nxt s2)(Sentinel l := Some (Elem x))\<rparr>)"

definition list_push_back :: "nat \<Rightarrow> 'a nodes \<Rightarrow> 'a \<Rightarrow> 'a nodes" where
  "list_push_back l s x =
     (let s1 = s\<lparr>nxt := (nxt s)(Elem x := None)\<rparr>;
          s2 = s1\<lparr>nxt := (nxt s1)(tail_of s1 l := Some (Elem x))\<rparr>
      in s2\<lparr>tail_of := (tail_of s2)(l := Elem x)\<rparr>)"

text \<open>
  \<open>PopFront\<close> requires a non-empty list: on an empty one it would dereference a null pointer, and
  on a sentinel it would hand out something that is no job, both the value None here.
\<close>

definition list_pop_front :: "nat \<Rightarrow> 'a nodes \<Rightarrow> ('a \<times> 'a nodes) option" where
  "list_pop_front l s =
     (case nxt s (Sentinel l) of
        Some (Elem x) \<Rightarrow>
          let s1 = s\<lparr>nxt := (nxt s)(Sentinel l := nxt s (Elem x))\<rparr>;
              s2 = (if nxt s1 (Sentinel l) = None
                    then s1\<lparr>tail_of := (tail_of s1)(l := Sentinel l)\<rparr> else s1)
          in Some (x, s2)
      | _ \<Rightarrow> None)"

text \<open>The move constructor \<open>List(List&& other)\<close>, run on the fresh list \<open>l\<close>.\<close>

definition list_move :: "nat \<Rightarrow> nat \<Rightarrow> 'a nodes \<Rightarrow> 'a nodes" where
  "list_move l other s =
     (let s0 = list_init l s
      in if l = other \<or> list_empty other s0 then s0
         else let s1 = s0\<lparr>nxt := (nxt s0)(Sentinel l := nxt s0 (Sentinel other),
                                          Sentinel other := None)\<rparr>
              in s1\<lparr>tail_of := (tail_of s1)(l := tail_of s1 other, other := Sentinel other)\<rparr>)"

text \<open>
  What a list with elements \<open>xs\<close> looks like in memory; its second conjunct is the invariant that
  \<open>List::Empty\<close> checks in debug builds.
\<close>

definition list_rep :: "nat \<Rightarrow> 'a nodes \<Rightarrow> 'a list \<Rightarrow> bool" where
  "list_rep l s xs \<longleftrightarrow>
     nlist (nxt s) (nxt s (Sentinel l)) (map Elem xs) \<and>
     tail_of s l = (if xs = [] then Sentinel l else Elem (last xs))"

lemma list_rep_distinct: "list_rep l s xs \<Longrightarrow> distinct xs"
  by (auto simp: list_rep_def distinct_map dest: nlist_distinct)

lemma sentinel_notin [simp]: "Sentinel l \<notin> set (map Elem xs)"
  by auto

lemma elem_notin: "x \<notin> set xs \<Longrightarrow> Elem x \<notin> set (map Elem xs)"
  by auto

lemma list_init_rep: "list_rep l (list_init l s) []"
  by (simp add: list_rep_def list_init_def)

lemma list_empty_rep: "list_rep l s xs \<Longrightarrow> list_empty l s \<longleftrightarrow> xs = []"
  by (cases xs) (auto simp: list_rep_def list_empty_def)

lemma list_push_front_rep:
  assumes "list_rep l s xs" and "x \<notin> set xs"
  shows "list_rep l (list_push_front l s x) (x # xs)"
proof -
  have emp: "list_empty l s \<longleftrightarrow> xs = []" using assms(1) by (rule list_empty_rep)
  have "nlist (nxt s) (nxt s (Sentinel l)) (map Elem xs)"
    using assms(1) by (simp add: list_rep_def)
  then have "nlist ((nxt s)(Elem x := nxt s (Sentinel l), Sentinel l := Some (Elem x)))
      (nxt s (Sentinel l)) (map Elem xs)"
    using elem_notin [OF assms(2)] by (simp add: chain_frame del: set_map)
  then show ?thesis
    using assms(1) emp by (auto simp: list_rep_def list_push_front_def Let_def)
qed

lemma chain_snoc_link:
  assumes "nlist h p (map Elem xs @ [Elem y])" and "x \<notin> set (xs @ [y])"
  shows "nlist (h(Elem x := None, Elem y := Some (Elem x))) p (map Elem (xs @ [y, x]))"
proof -
  have d: "distinct (map Elem xs @ [Elem y])" using assms(1) by (rule nlist_distinct)
  have "chain h p (map Elem xs) (Some (Elem y))" using assms(1) by auto
  then have "chain (h(Elem x := None, Elem y := Some (Elem x))) p (map Elem xs) (Some (Elem y))"
    using d assms(2) by (subst chain_frame, force)+
  then show ?thesis using assms(2) by auto
qed

lemma list_push_back_rep:
  assumes "list_rep l s xs" and "x \<notin> set xs"
  shows "list_rep l (list_push_back l s x) (xs @ [x])"
proof (cases xs rule: rev_cases)
  case Nil
  with assms show ?thesis by (simp add: list_rep_def list_push_back_def Let_def)
next
  case (snoc ys y)
  with assms have "nlist (nxt s) (nxt s (Sentinel l)) (map Elem ys @ [Elem y])"
    and tl: "tail_of s l = Elem y" and "x \<notin> set (ys @ [y])"
    by (auto simp: list_rep_def)
  then have "nlist ((nxt s)(Elem x := None, Elem y := Some (Elem x))) (nxt s (Sentinel l))
      (map Elem (ys @ [y, x]))"
    by (intro chain_snoc_link)
  with snoc tl show ?thesis by (simp add: list_rep_def list_push_back_def Let_def)
qed

lemma list_pop_front_rep:
  assumes "list_rep l s (x # xs)"
  shows "\<exists>s'. list_pop_front l s = Some (x, s') \<and> list_rep l s' xs"
proof -
  from assms have nx: "nxt s (Sentinel l) = Some (Elem x)"
    and ch: "nlist (nxt s) (nxt s (Elem x)) (map Elem xs)"
    and tl: "tail_of s l = Elem (last (x # xs))"
    by (auto simp: list_rep_def)
  have fr: "nlist ((nxt s)(Sentinel l := nxt s (Elem x))) (nxt s (Elem x)) (map Elem xs)"
    using ch by (simp add: chain_frame del: set_map)
  show ?thesis
  proof (cases xs)
    case Nil
    with ch nx show ?thesis by (auto simp: list_pop_front_def list_rep_def Let_def)
  next
    case (Cons y ys)
    with ch have "nxt s (Elem x) = Some (Elem y)" by simp
    with fr Cons nx tl show ?thesis by (auto simp: list_pop_front_def list_rep_def Let_def)
  qed
qed

text \<open>Moving a list: the new list has the elements, the old one is empty.\<close>

lemma list_move_rep:
  assumes "list_rep other s xs" and "l \<noteq> other"
  shows "list_rep l (list_move l other s) xs \<and> list_rep other (list_move l other s) []"
proof -
  let ?h = "(nxt s)(Sentinel l := None)"
  have ch: "nlist (nxt s) (nxt s (Sentinel other)) (map Elem xs)"
    using assms(1) by (simp add: list_rep_def)
  then have ch': "nlist (?h(Sentinel l := nxt s (Sentinel other), Sentinel other := None))
      (nxt s (Sentinel other)) (map Elem xs)"
    by (simp add: chain_frame del: set_map)
  have emp: "list_empty other (list_init l s) \<longleftrightarrow> xs = []"
    using list_empty_rep [OF assms(1)] assms(2) by (simp add: list_empty_def list_init_def)
  show ?thesis
  proof (cases "xs = []")
    case True
    with assms emp show ?thesis
      by (auto simp: list_move_def list_rep_def list_init_def list_empty_def)
  next
    case False
    with assms emp ch' show ?thesis
      by (auto simp: list_move_def list_rep_def Let_def list_init_def)
  qed
qed

subsection \<open>Stack: last in, first out\<close>

definition stack_push_front :: "nat \<Rightarrow> 'a nodes \<Rightarrow> 'a \<Rightarrow> 'a nodes" where
  "stack_push_front k s x =
     s\<lparr>nxt := (nxt s)(Elem x := top_of s k), top_of := (top_of s)(k := Some (Elem x))\<rparr>"

text \<open>\<open>Stack::PushBack\<close> is a helper that makes the stack a drop-in for the list.\<close>

definition stack_push_back :: "nat \<Rightarrow> 'a nodes \<Rightarrow> 'a \<Rightarrow> 'a nodes" where
  "stack_push_back k s x = stack_push_front k s x"

definition stack_empty :: "nat \<Rightarrow> 'a nodes \<Rightarrow> bool" where
  "stack_empty k s \<longleftrightarrow> top_of s k = None"

definition stack_pop_front :: "nat \<Rightarrow> 'a nodes \<Rightarrow> ('a \<times> 'a nodes) option" where
  "stack_pop_front k s =
     (case top_of s k of
        Some (Elem x) \<Rightarrow> Some (x, s\<lparr>top_of := (top_of s)(k := nxt s (Elem x))\<rparr>)
      | _ \<Rightarrow> None)"

definition stack_move :: "nat \<Rightarrow> nat \<Rightarrow> 'a nodes \<Rightarrow> 'a nodes" where
  "stack_move k other s = s\<lparr>top_of := (top_of s)(k := top_of s other, other := None)\<rparr>"

definition stack_rep :: "nat \<Rightarrow> 'a nodes \<Rightarrow> 'a list \<Rightarrow> bool" where
  "stack_rep k s xs \<longleftrightarrow> nlist (nxt s) (top_of s k) (map Elem xs)"

lemma stack_push_rep:
  assumes "stack_rep k s xs" and "x \<notin> set xs"
  shows "stack_rep k (stack_push_back k s x) (x # xs)"
proof -
  have "nlist ((nxt s)(Elem x := top_of s k)) (top_of s k) (map Elem xs)"
    using assms elem_notin [OF assms(2)]
    by (simp add: stack_rep_def chain_frame del: set_map)
  then show ?thesis by (simp add: stack_rep_def stack_push_back_def stack_push_front_def)
qed

lemma stack_pop_rep:
  "stack_rep k s (x # xs) \<Longrightarrow> \<exists>s'. stack_pop_front k s = Some (x, s') \<and> stack_rep k s' xs"
  by (auto simp: stack_rep_def stack_pop_front_def)

lemma stack_empty_rep: "stack_rep k s xs \<Longrightarrow> stack_empty k s \<longleftrightarrow> xs = []"
  by (cases xs) (auto simp: stack_rep_def stack_empty_def)

lemma stack_move_rep:
  "stack_rep other s xs \<Longrightarrow> l \<noteq> other \<Longrightarrow>
     stack_rep l (stack_move l other s) xs \<and> stack_rep other (stack_move l other s) []"
  by (simp add: stack_rep_def stack_move_def)

subsection \<open>The contract of a container and the loop that empties one\<close>

text \<open>
  The loop \<open>while (!c.Empty()) { use(c.PopFront()); }\<close>: the elements in the order it pops them.
\<close>

partial_function (option) drain_loop ::
    "('s \<Rightarrow> bool) \<Rightarrow> ('s \<Rightarrow> ('a \<times> 's) option) \<Rightarrow> 's \<Rightarrow> ('a list \<times> 's) option" where
  "drain_loop emp pop s =
     (if emp s then Some ([], s)
      else Option.bind (pop s) (\<lambda>(x, s1).
             Option.bind (drain_loop emp pop s1) (\<lambda>(xs, s2). Some (x # xs, s2))))"

text \<open>The pushes of a list of elements, one after the other.\<close>

fun push_all :: "('s \<Rightarrow> 'a \<Rightarrow> 's) \<Rightarrow> 's \<Rightarrow> 'a list \<Rightarrow> 's" where
  "push_all push s [] = s"
| "push_all push s (x # xs) = push_all push (push s x) xs"

locale node_container =
  fixes push :: "'s \<Rightarrow> 'a \<Rightarrow> 's"
    and pop :: "'s \<Rightarrow> ('a \<times> 's) option"
    and emp :: "'s \<Rightarrow> bool"
    and rep :: "'s \<Rightarrow> 'a list \<Rightarrow> bool"
    and ins :: "'a list \<Rightarrow> 'a \<Rightarrow> 'a list"
  assumes push_rep: "rep s xs \<Longrightarrow> x \<notin> set xs \<Longrightarrow> rep (push s x) (ins xs x)"
    and pop_rep: "rep s (x # xs) \<Longrightarrow> \<exists>s'. pop s = Some (x, s') \<and> rep s' xs"
    and emp_rep: "rep s xs \<Longrightarrow> emp s \<longleftrightarrow> xs = []"
    and set_ins: "set (ins xs x) = insert x (set xs)"
begin

lemma drain_total:
  "rep s xs \<Longrightarrow> \<exists>s'. drain_loop emp pop s = Some (xs, s') \<and> rep s' []"
proof (induction xs arbitrary: s)
  case Nil
  then have "emp s" by (simp add: emp_rep)
  with Nil show ?case by (subst drain_loop.simps) simp
next
  case (Cons x xs)
  then have ne: "\<not> emp s" by (simp add: emp_rep)
  obtain s1 where s1: "pop s = Some (x, s1)" "rep s1 xs" using pop_rep [OF Cons.prems] by blast
  obtain s2 where "drain_loop emp pop s1 = Some (xs, s2)" "rep s2 []" using Cons.IH s1(2) by blast
  with ne s1(1) show ?case by (subst drain_loop.simps) simp
qed

lemma push_all_rep:
  "rep s ys \<Longrightarrow> distinct xs \<Longrightarrow> set xs \<inter> set ys = {} \<Longrightarrow>
     rep (push_all push s xs) (foldl ins ys xs)"
  by (induction xs arbitrary: s ys) (auto simp: push_rep set_ins)

lemma push_all_drain:
  assumes "rep s []" and "distinct xs"
  shows "\<exists>s'. drain_loop emp pop (push_all push s xs) = Some (foldl ins [] xs, s') \<and> rep s' []"
  using assms by (intro drain_total push_all_rep) auto

end

lemma foldl_append_snoc: "foldl (\<lambda>xs x. xs @ [x]) ys zs = ys @ zs"
  by (induction zs arbitrary: ys) auto

lemma foldl_Cons_rev: "foldl (\<lambda>xs x. x # xs) ys zs = rev zs @ ys"
  by (induction zs arbitrary: ys) auto

interpretation ilist: node_container "list_push_back l" "list_pop_front l" "list_empty l"
    "list_rep l" "\<lambda>xs x. xs @ [x]" for l
  by unfold_locales
    (auto simp: list_push_back_rep list_pop_front_rep list_empty_rep)

interpretation istack: node_container "stack_push_back k" "stack_pop_front k" "stack_empty k"
    "stack_rep k" "\<lambda>xs x. x # xs" for k
  by unfold_locales
    (auto simp: stack_push_rep stack_pop_rep stack_empty_rep)

text \<open>
  a list gives its elements back in the order they were pushed: pushing any distinct nodes to
  the back of an empty list and popping until \<open>Empty()\<close> answers true visits exactly those nodes,
  in that order, dereferences no null pointer and leaves an empty list.
\<close>

lemma list_fifo:
  assumes "list_rep l s []" and "distinct xs"
  shows "\<exists>s'. drain_loop (list_empty l) (list_pop_front l) (push_all (list_push_back l) s xs)
            = Some (xs, s') \<and> list_rep l s' []"
  using ilist.push_all_drain [OF assms] by (simp add: foldl_append_snoc)

text \<open>
  a stack gives its elements back in the opposite order.
\<close>

lemma stack_lifo:
  assumes "stack_rep k s []" and "distinct xs"
  shows "\<exists>s'. drain_loop (stack_empty k) (stack_pop_front k) (push_all (stack_push_back k) s xs)
            = Some (rev xs, s') \<and> stack_rep k s' []"
  using istack.push_all_drain [OF assms] by (simp add: foldl_Cons_rev)

definition no_nodes :: "'a nodes" where
  "no_nodes = \<lparr>nxt = (\<lambda>_. None), tail_of = Sentinel, top_of = (\<lambda>_. None)\<rparr>"


end
