(* ===== verification/Results.thy ===== *)
theory Results
  imports Prelude
begin

section \<open>Result: a value or an exception pointer\<close>

text \<open>
  \<open>include/yaclib/util/result.hpp\<close> and \<open>src/util/result.cpp\<close>. A \<open>Result\<close> is an exception
  pointer, which is also the discriminant, and a union whose value member is alive or not. The
  model keeps both, so that every constructor, assignment and destructor says what it does to the
  lifetime of the value: an operation that reads a dead value, destroys it twice or constructs
  over a live one is the value None. The abstract type is the sum of errors and values, and the
  section ends with the refinement: no program over results breaks a lifetime, and each computes
  what the sums compute.
\<close>

subsection \<open>Exception pointers\<close>

text \<open>
  The dynamic type of an exception object is \<open>StopException\<close> (or derived from it) or another
  one; exception pointers are compared by the address of the object they share.
\<close>

datatype 'e exn_obj = StopException | UserException 'e

datatype 'e exn = Exn (exn_addr: nat) (exn_obj: "'e exn_obj")

type_synonym 'e exception_ptr = "'e exn option"

text \<open>The cached pointer that \<open>StopPtr()\<close> returns.\<close>

definition StopPtr :: "'e exception_ptr" where
  "StopPtr = Some (Exn 0 StopException)"

fun IsStop :: "'e exception_ptr \<Rightarrow> bool" where
  "IsStop None = False"
| "IsStop (Some e) =
     (if Some e = StopPtr then True
      else (case exn_obj e of StopException \<Rightarrow> True | UserException _ \<Rightarrow> False))"

lemma IsStop_iff: "IsStop p \<longleftrightarrow> (\<exists>a. p = Some (Exn a StopException))"
proof (cases p)
  case (Some e)
  then show ?thesis by (cases e) (auto simp: StopPtr_def split: exn_obj.splits)
qed simp

subsection \<open>The object and its constructors\<close>

record ('v, 'e) result =
  err :: "'e exception_ptr"
  val :: "'v option"

definition result_wf :: "('v, 'e) result \<Rightarrow> bool" where
  "result_wf r \<longleftrightarrow> (err r = None \<longleftrightarrow> val r \<noteq> None)"

definition Result_default :: "('v, 'e) result" where
  "Result_default = \<lparr>err = StopPtr, val = None\<rparr>"

definition Result_stop :: "('v, 'e) result" where
  "Result_stop = \<lparr>err = StopPtr, val = None\<rparr>"

definition Result_error :: "'e exception_ptr \<Rightarrow> ('v, 'e) result" where
  "Result_error e =
     (let r = \<lparr>err = e, val = None\<rparr> in if err r = None then r\<lparr>err := StopPtr\<rparr> else r)"

definition Result_in_place :: "'v \<Rightarrow> ('v, 'e) result" where
  "Result_in_place v = \<lparr>err = None, val = Some v\<rparr>"

text \<open>The value member: placement new, destruction, and reading it.\<close>

definition construct :: "'v \<Rightarrow> ('v, 'e) result \<Rightarrow> ('v, 'e) result option" where
  "construct v r = (if val r = None then Some (r\<lparr>val := Some v\<rparr>) else None)"

definition destroy :: "('v, 'e) result \<Rightarrow> ('v, 'e) result option" where
  "destroy r = (if val r = None then None else Some (r\<lparr>val := None\<rparr>))"

definition Result_copy :: "('v, 'e) result \<Rightarrow> ('v, 'e) result option" where
  "Result_copy other =
     (let r = \<lparr>err = err other, val = None\<rparr>
      in if err r = None then Option.bind (val other) (\<lambda>v. construct v r) else Some r)"

text \<open>
  A move leaves the source's value alive in the state \<open>mv v\<close> that the value type's move
  constructor leaves behind; the error is copied, because it is the discriminant.
\<close>

definition Result_move ::
    "('v \<Rightarrow> 'v) \<Rightarrow> ('v, 'e) result \<Rightarrow> (('v, 'e) result \<times> ('v, 'e) result) option" where
  "Result_move mv other =
     (let r = \<lparr>err = err other, val = None\<rparr>
      in if err r = None
         then Option.bind (val other) (\<lambda>v.
                Option.bind (construct v r) (\<lambda>r'. Some (r', other\<lparr>val := Some (mv v)\<rparr>)))
         else Some (r, other))"

subsection \<open>Assignment, destruction and access\<close>

text \<open>Copy assignment; self assignment is the caller's \<open>this != &other\<close> test.\<close>

definition Result_assign_copy ::
    "('v, 'e) result \<Rightarrow> ('v, 'e) result \<Rightarrow> ('v, 'e) result option" where
  "Result_assign_copy self other =
     (if err other = None then
        Option.bind (val other) (\<lambda>v.
          if err self = None then
            (if val self = None then None else Some (self\<lparr>val := Some v\<rparr>))
          else Option.bind (construct v self) (\<lambda>r. Some (r\<lparr>err := None\<rparr>)))
      else
        Option.bind (if err self = None then destroy self else Some self)
          (\<lambda>r. Some (r\<lparr>err := err other\<rparr>)))"

definition Result_assign_move ::
    "('v \<Rightarrow> 'v) \<Rightarrow> ('v, 'e) result \<Rightarrow> ('v, 'e) result \<Rightarrow>
       (('v, 'e) result \<times> ('v, 'e) result) option" where
  "Result_assign_move mv self other =
     (if err other = None then
        Option.bind (val other) (\<lambda>v.
          Option.bind
            (if err self = None then
               (if val self = None then None else Some (self\<lparr>val := Some v\<rparr>))
             else Option.bind (construct v self) (\<lambda>r. Some (r\<lparr>err := None\<rparr>)))
            (\<lambda>r. Some (r, other\<lparr>val := Some (mv v)\<rparr>)))
      else
        Option.bind (if err self = None then destroy self else Some self)
          (\<lambda>r. Some (r\<lparr>err := err other\<rparr>, other)))"

definition Result_dtor :: "('v, 'e) result \<Rightarrow> ('v, 'e) result option" where
  "Result_dtor r = (if err r = None then destroy r else Some r)"

definition Result_bool :: "('v, 'e) result \<Rightarrow> bool" where
  "Result_bool r \<longleftrightarrow> err r = None"

text \<open>
  \<open>Ok()\<close> rethrows the stored exception (\<open>Inl\<close>) or gives the value (\<open>Inr\<close>); \<open>Value()\<close> and
  \<open>Error()\<close> do not check: \<open>Value()\<close> of a result without a value is undefined.
\<close>

definition Result_Ok :: "('v, 'e) result \<Rightarrow> ('e exn + 'v) option" where
  "Result_Ok r = (case err r of Some e \<Rightarrow> Some (Inl e) | None \<Rightarrow> map_option Inr (val r))"

definition Result_Value :: "('v, 'e) result \<Rightarrow> 'v option" where
  "Result_Value r = val r"

definition Result_Error :: "('v, 'e) result \<Rightarrow> 'e exception_ptr" where
  "Result_Error r = err r"

text \<open>
  \<open>ResultTrait::MakeResult\<close> dispatches on the decayed type of its first argument; \<open>unit_v\<close> is
  the value that the in-place constructor makes out of no arguments.
\<close>

datatype ('v, 'e) make_arg =
    UnitArg | StopArg | ExnArg "'e exception_ptr" | ResultArg "('v, 'e) result" | InPlaceArgs 'v
  | ValueArgs 'v

fun MakeResult :: "('v \<Rightarrow> 'v) \<Rightarrow> 'v \<Rightarrow> ('v, 'e) make_arg \<Rightarrow> ('v, 'e) result option" where
  "MakeResult mv unit_v UnitArg = Some (Result_in_place unit_v)"
| "MakeResult mv unit_v StopArg = Some Result_stop"
| "MakeResult mv unit_v (ExnArg e) = Some (Result_error e)"
| "MakeResult mv unit_v (ResultArg r) = map_option fst (Result_move mv r)"
| "MakeResult mv unit_v (InPlaceArgs v) = Some (Result_in_place v)"
| "MakeResult mv unit_v (ValueArgs v) = Some (Result_in_place v)"

subsection \<open>The abstract type\<close>

definition result_abs :: "('v, 'e) result \<Rightarrow> 'e exn + 'v" where
  "result_abs r = (case err r of Some e \<Rightarrow> Inl e | None \<Rightarrow> Inr (the (val r)))"

lemmas result_defs = result_wf_def result_abs_def construct_def destroy_def Let_def

lemma Result_ctor_wf [simp]:
  "result_wf Result_default" "result_wf Result_stop" "result_wf (Result_error e)"
  "result_wf (Result_in_place v)"
  by (simp_all add: result_defs Result_default_def Result_stop_def Result_error_def
      Result_in_place_def StopPtr_def)

lemma Result_ctor_abs [simp]:
  "result_abs Result_default = Inl (the StopPtr)" "result_abs Result_stop = Inl (the StopPtr)"
  "result_abs (Result_error e) = Inl (the (if e = None then StopPtr else e))"
  "result_abs (Result_in_place v) = Inr v"
  by (auto simp: result_defs Result_default_def Result_stop_def Result_error_def
      Result_in_place_def StopPtr_def split: option.splits)

lemma Result_copy_abs:
  "result_wf r \<Longrightarrow> \<exists>q. Result_copy r = Some q \<and> result_wf q \<and> result_abs q = result_abs r"
  by (auto simp: result_defs Result_copy_def split: option.splits)

lemma Result_move_abs:
  "result_wf r \<Longrightarrow> \<exists>q r'. Result_move mv r = Some (q, r') \<and> result_wf q \<and> result_wf r'
     \<and> result_abs q = result_abs r \<and> result_abs r' = map_sum id mv (result_abs r)"
  by (cases "err r"; cases "val r") (auto simp: result_defs Result_move_def)

lemma Result_assign_copy_abs:
  "result_wf a \<Longrightarrow> result_wf b \<Longrightarrow>
     \<exists>q. Result_assign_copy a b = Some q \<and> result_wf q \<and> result_abs q = result_abs b"
  by (auto simp: result_defs Result_assign_copy_def split: option.splits)

lemma Result_assign_move_abs:
  "result_wf a \<Longrightarrow> result_wf b \<Longrightarrow>
     \<exists>q b'. Result_assign_move mv a b = Some (q, b') \<and> result_wf q \<and> result_wf b'
       \<and> result_abs q = result_abs b \<and> result_abs b' = map_sum id mv (result_abs b)"
  by (cases "err a"; cases "val a"; cases "err b"; cases "val b")
    (auto simp: result_defs Result_assign_move_def)

lemma Result_dtor_abs:
  "result_wf r \<Longrightarrow> \<exists>q. Result_dtor r = Some q \<and> val q = None"
  by (auto simp: result_defs Result_dtor_def)

lemma Result_Ok_abs: "result_wf r \<Longrightarrow> Result_Ok r = Some (result_abs r)"
  by (auto simp: result_defs Result_Ok_def split: option.splits)

lemma Result_bool_abs: "result_wf r \<Longrightarrow> Result_bool r \<longleftrightarrow> isl (result_abs r) = False"
  by (auto simp: result_defs Result_bool_def split: option.splits)

subsection \<open>Programs over results\<close>

text \<open>
  A program declares, copies, moves, assigns and destroys result variables. \<open>run\<close> executes the
  C++ operations; None is a broken lifetime. \<open>spec_run\<close> executes the same program on sums.
  Both agree on when a program is well scoped (it declares a variable before its use and once),
  and answer \<open>Inl ()\<close> when it is not.
\<close>

datatype ('v, 'e) rop =
    Make nat "('v, 'e) make_arg"
  | CopyTo nat nat
  | MoveTo nat nat
  | AssignCopy nat nat
  | AssignMove nat nat
  | Destroy nat

type_synonym ('v, 'e) rstore = "nat \<rightharpoonup> ('v, 'e) result"

fun rstep :: "('v \<Rightarrow> 'v) \<Rightarrow> 'v \<Rightarrow> ('v, 'e) rop \<Rightarrow> ('v, 'e) rstore \<Rightarrow> ('v, 'e) rstore option" where
  "rstep mv u (Make x a) s = Option.bind (MakeResult mv u a) (\<lambda>r. Some (s(x \<mapsto> r)))"
| "rstep mv u (CopyTo x y) s =
     Option.bind (s y) (\<lambda>b. Option.bind (Result_copy b) (\<lambda>r. Some (s(x \<mapsto> r))))"
| "rstep mv u (MoveTo x y) s =
     Option.bind (s y) (\<lambda>b. Option.bind (Result_move mv b) (\<lambda>(r, b'). Some (s(x \<mapsto> r, y \<mapsto> b'))))"
| "rstep mv u (AssignCopy x y) s =
     Option.bind (s x) (\<lambda>a. Option.bind (s y) (\<lambda>b.
       if x = y then Some s
       else Option.bind (Result_assign_copy a b) (\<lambda>r. Some (s(x \<mapsto> r)))))"
| "rstep mv u (AssignMove x y) s =
     Option.bind (s x) (\<lambda>a. Option.bind (s y) (\<lambda>b.
       if x = y then Some s
       else Option.bind (Result_assign_move mv a b) (\<lambda>(r, b'). Some (s(x \<mapsto> r, y \<mapsto> b')))))"
| "rstep mv u (Destroy x) s =
     Option.bind (s x) (\<lambda>a. Option.bind (Result_dtor a) (\<lambda>q.
       if val q = None then Some (s(x := None)) else None))"

fun rscope :: "nat set \<Rightarrow> ('v, 'e) rop \<Rightarrow> nat set option" where
  "rscope V (Make x a) =
     (if x \<notin> V \<and> (case a of ResultArg r \<Rightarrow> result_wf r | _ \<Rightarrow> True) then Some (insert x V) else None)"
| "rscope V (CopyTo x y) = (if x \<notin> V \<and> y \<in> V then Some (insert x V) else None)"
| "rscope V (MoveTo x y) = (if x \<notin> V \<and> y \<in> V then Some (insert x V) else None)"
| "rscope V (AssignCopy x y) = (if x \<in> V \<and> y \<in> V then Some V else None)"
| "rscope V (AssignMove x y) = (if x \<in> V \<and> y \<in> V then Some V else None)"
| "rscope V (Destroy x) = (if x \<in> V then Some (V - {x}) else None)"

fun make_spec :: "'v \<Rightarrow> ('v, 'e) make_arg \<Rightarrow> 'e exn + 'v" where
  "make_spec u UnitArg = Inr u"
| "make_spec u StopArg = Inl (the StopPtr)"
| "make_spec u (ExnArg e) = Inl (case e of None \<Rightarrow> the StopPtr | Some x \<Rightarrow> x)"
| "make_spec u (ResultArg r) = result_abs r"
| "make_spec u (InPlaceArgs v) = Inr v"
| "make_spec u (ValueArgs v) = Inr v"

fun spec_step ::
    "('v \<Rightarrow> 'v) \<Rightarrow> 'v \<Rightarrow> ('v, 'e) rop \<Rightarrow> (nat \<rightharpoonup> 'e exn + 'v) \<Rightarrow> (nat \<rightharpoonup> 'e exn + 'v)" where
  "spec_step mv u (Make x a) m = m(x \<mapsto> make_spec u a)"
| "spec_step mv u (CopyTo x y) m = m(x := m y)"
| "spec_step mv u (MoveTo x y) m = m(x := m y, y := map_option (map_sum id mv) (m y))"
| "spec_step mv u (AssignCopy x y) m = m(x := m y)"
| "spec_step mv u (AssignMove x y) m =
     (if x = y then m else m(x := m y, y := map_option (map_sum id mv) (m y)))"
| "spec_step mv u (Destroy x) m = m(x := None)"

fun run :: "('v \<Rightarrow> 'v) \<Rightarrow> 'v \<Rightarrow> ('v, 'e) rop list \<Rightarrow> ('v, 'e) rstore \<Rightarrow> ('v, 'e) rstore option" where
  "run mv u [] s = Some s"
| "run mv u (c # cs) s = Option.bind (rstep mv u c s) (run mv u cs)"

fun scoped :: "nat set \<Rightarrow> ('v, 'e) rop list \<Rightarrow> nat set option" where
  "scoped V [] = Some V"
| "scoped V (c # cs) = Option.bind (rscope V c) (\<lambda>V'. scoped V' cs)"

fun spec_run ::
    "('v \<Rightarrow> 'v) \<Rightarrow> 'v \<Rightarrow> ('v, 'e) rop list \<Rightarrow> (nat \<rightharpoonup> 'e exn + 'v) \<Rightarrow> (nat \<rightharpoonup> 'e exn + 'v)" where
  "spec_run mv u [] m = m"
| "spec_run mv u (c # cs) m = spec_run mv u cs (spec_step mv u c m)"

definition store_ok :: "nat set \<Rightarrow> ('v, 'e) rstore \<Rightarrow> bool" where
  "store_ok V s \<longleftrightarrow> dom s = V \<and> (\<forall>x r. s x = Some r \<longrightarrow> result_wf r)"

definition store_abs :: "('v, 'e) rstore \<Rightarrow> (nat \<rightharpoonup> 'e exn + 'v)" where
  "store_abs s = (\<lambda>x. map_option result_abs (s x))"

lemma store_ok_get: "store_ok V s \<Longrightarrow> x \<in> V \<Longrightarrow> \<exists>r. s x = Some r \<and> result_wf r"
  by (auto simp: store_ok_def)

lemma store_ok_upd: "store_ok V s \<Longrightarrow> result_wf r \<Longrightarrow> store_ok (insert x V) (s(x \<mapsto> r))"
  by (auto simp: store_ok_def)

lemma store_ok_upd_old: "store_ok V s \<Longrightarrow> result_wf r \<Longrightarrow> x \<in> V \<Longrightarrow> store_ok V (s(x \<mapsto> r))"
  by (auto simp: store_ok_def)

lemma store_abs_upd [simp]: "store_abs (s(x \<mapsto> r)) = (store_abs s)(x \<mapsto> result_abs r)"
  by (auto simp: store_abs_def)

lemma store_abs_del [simp]: "store_abs (s(x := None)) = (store_abs s)(x := None)"
  by (auto simp: store_abs_def)

lemma MakeResult_abs:
  assumes "case a of ResultArg r \<Rightarrow> result_wf r | _ \<Rightarrow> True"
  shows "\<exists>r. MakeResult mv u a = Some r \<and> result_wf r \<and> result_abs r = make_spec u a"
proof (cases a)
  case (ResultArg r)
  with assms obtain q r' where "Result_move mv r = Some (q, r')" "result_wf q"
    "result_abs q = result_abs r"
    using Result_move_abs [of r mv] by auto
  with ResultArg show ?thesis by auto
qed (auto split: option.splits)

lemma rstep_refines:
  assumes ok: "store_ok V s" and sc: "rscope V c = Some V'"
  shows "\<exists>s'. rstep mv u c s = Some s' \<and> store_ok V' s' \<and> store_abs s' = spec_step mv u c (store_abs s)"
proof (cases c)
  case (Make x a)
  with sc have wf: "case a of ResultArg r \<Rightarrow> result_wf r | _ \<Rightarrow> True" and V': "V' = insert x V"
    by (simp_all split: if_splits)
  from MakeResult_abs [OF wf, of mv u] obtain r
    where "MakeResult mv u a = Some r" "result_wf r" "result_abs r = make_spec u a" by auto
  with Make ok V' show ?thesis by (auto simp: store_ok_upd)
next
  case (CopyTo x y)
  with sc ok obtain b where "s y = Some b" "result_wf b" "V' = insert x V"
    by (auto split: if_splits dest: store_ok_get)
  moreover from this obtain q where "Result_copy b = Some q" "result_wf q" "result_abs q = result_abs b"
    using Result_copy_abs by blast
  ultimately show ?thesis using CopyTo ok by (auto simp: store_ok_upd store_abs_def)
next
  case (MoveTo x y)
  with sc ok obtain b where b: "s y = Some b" "result_wf b" "V' = insert x V" "x \<noteq> y" "y \<in> V"
    by (auto split: if_splits dest: store_ok_get)
  then obtain q b' where q: "Result_move mv b = Some (q, b')" "result_wf q" "result_wf b'"
    "result_abs q = result_abs b" "result_abs b' = map_sum id mv (result_abs b)"
    using Result_move_abs by blast
  have "store_ok V' (s(x \<mapsto> q, y \<mapsto> b'))"
    using store_ok_upd_old [OF store_ok_upd [OF ok q(2)] q(3)] b by simp
  moreover have "rstep mv u c s = Some (s(x \<mapsto> q, y \<mapsto> b'))" using MoveTo b q by simp
  ultimately show ?thesis using MoveTo b q
    by (intro exI [of _ "s(x \<mapsto> q, y \<mapsto> b')"] conjI) (auto simp: store_abs_def fun_eq_iff)
next
  case (AssignCopy x y)
  with sc have V: "V' = V" "x \<in> V" "y \<in> V" by (auto split: if_splits)
  from store_ok_get [OF ok V(2)] store_ok_get [OF ok V(3)] V obtain a b
    where b: "s x = Some a" "s y = Some b" "result_wf a" "result_wf b" "V' = V" "x \<in> V" by auto
  then obtain q where "Result_assign_copy a b = Some q" "result_wf q" "result_abs q = result_abs b"
    using Result_assign_copy_abs by blast
  then have "rstep mv u c s = Some (if x = y then s else s(x \<mapsto> q))" "result_wf q"
    "result_abs q = result_abs b" using AssignCopy b by auto
  with AssignCopy b ok show ?thesis
    by (intro exI [of _ "if x = y then s else s(x \<mapsto> q)"] conjI)
      (auto simp: store_ok_upd_old store_abs_def fun_eq_iff)
next
  case (AssignMove x y)
  with sc have V: "V' = V" "x \<in> V" "y \<in> V" by (auto split: if_splits)
  from store_ok_get [OF ok V(2)] store_ok_get [OF ok V(3)] V obtain a b
    where b: "s x = Some a" "s y = Some b" "result_wf a" "result_wf b" "V' = V" "x \<in> V" "y \<in> V"
    by auto
  then obtain q b' where q: "Result_assign_move mv a b = Some (q, b')" "result_wf q" "result_wf b'"
    "result_abs q = result_abs b" "result_abs b' = map_sum id mv (result_abs b)"
    using Result_assign_move_abs by blast
  have "store_ok V (s(x \<mapsto> q, y \<mapsto> b'))"
    using store_ok_upd_old [OF store_ok_upd_old [OF ok q(2)] q(3)] b by simp
  moreover have "rstep mv u c s = Some (if x = y then s else s(x \<mapsto> q, y \<mapsto> b'))"
    using AssignMove b q by simp
  ultimately show ?thesis using AssignMove b q ok
    by (intro exI [of _ "if x = y then s else s(x \<mapsto> q, y \<mapsto> b')"] conjI)
      (auto simp: store_abs_def fun_eq_iff)
next
  case (Destroy x)
  with sc ok obtain a where "s x = Some a" "result_wf a" "V' = V - {x}"
    by (auto split: if_splits dest!: store_ok_get)
  moreover from this obtain q where "Result_dtor a = Some q" "val q = None"
    using Result_dtor_abs by blast
  ultimately show ?thesis using Destroy ok by (auto simp: store_ok_def)
qed

lemma run_refines:
  "store_ok V s \<Longrightarrow> scoped V cs = Some V' \<Longrightarrow>
     \<exists>s'. run mv u cs s = Some s' \<and> store_ok V' s' \<and> store_abs s' = spec_run mv u cs (store_abs s)"
proof (induction cs arbitrary: V s)
  case Nil
  then show ?case by simp
next
  case (Cons c cs)
  then obtain W where W: "rscope V c = Some W" "scoped W cs = Some V'"
    by (auto simp: bind_eq_Some_conv)
  then obtain s1 where "rstep mv u c s = Some s1" "store_ok W s1"
    "store_abs s1 = spec_step mv u c (store_abs s)"
    using rstep_refines [OF Cons.prems(1)] by blast
  with Cons.IH W(2) show ?case by fastforce
qed

text \<open>
  C14: no well scoped program over results breaks the lifetime of a value (none is read or
  destroyed when it is not alive, none is constructed over a live one, destructors leave none
  behind), and the values and errors it computes are those of the same program over the sum type
  of errors and values.
\<close>

theorem result_programs_refine_sums:
  assumes "scoped {} cs = Some V"
  shows "\<exists>s. run mv u cs Map.empty = Some s \<and> dom s = V \<and> (\<forall>x r. s x = Some r \<longrightarrow> result_wf r)
           \<and> store_abs s = spec_run mv u cs Map.empty"
proof -
  have "store_ok {} (Map.empty :: ('v, 'e) rstore)" by (simp add: store_ok_def)
  from run_refines [OF this assms, of mv u] show ?thesis
    by (auto simp: store_ok_def store_abs_def)
qed

definition demo_program :: "(int, string) rop list" where
  "demo_program = [Make 0 (ValueArgs 7), Make 1 StopArg, CopyTo 2 0, AssignMove 2 1,
     AssignCopy 1 0, MoveTo 3 0, Destroy 0]"

theorem result_programs_refine_sums_witness:
  "\<exists>s. run (\<lambda>_. 0) 0 demo_program Map.empty = Some s \<and> dom s = {1, 2, 3}
     \<and> (\<forall>x r. s x = Some r \<longrightarrow> result_wf r)
     \<and> store_abs s = spec_run (\<lambda>_. 0) 0 demo_program Map.empty"
proof -
  have "scoped {} demo_program = Some {1, 2, 3}" by (auto simp: demo_program_def)
  then show ?thesis by (rule result_programs_refine_sums)
qed

text \<open>
  \<open>IsStop\<close> answers true exactly for the pointers to a stop exception, the shortcut through
  the cached pointer included, and every way to build a result without a value gives one that
  \<open>Ok()\<close> rethrows: the stop error for the default, the stop tag and a null exception pointer,
  the given exception otherwise.
\<close>

lemma make_result_errors:
  "(IsStop p \<longleftrightarrow> (\<exists>a. p = Some (Exn a StopException)))
   \<and> Result_Ok (Result_default :: ('v, 'e) result) = Some (Inl (the StopPtr))
   \<and> map_option Result_Ok (MakeResult mv u StopArg) = Some (Some (Inl (the StopPtr) :: 'e exn + 'v))
   \<and> map_option Result_Ok (MakeResult mv u (ExnArg None)) = Some (Some (Inl (the StopPtr) :: 'e exn + 'v))
   \<and> map_option Result_Ok (MakeResult mv u (ExnArg (Some e))) = Some (Some (Inl e))
   \<and> map_option Result_Ok (MakeResult mv u UnitArg) = Some (Some (Inr u :: 'e exn + 'v))"
  by (simp add: IsStop_iff Result_Ok_abs)

end
