(* ===== verification/Refcount.thy ===== *)
theory Refcount
  imports Prelude
begin

section \<open>Reference counters and intrusive pointers\<close>

text \<open>
  \<open>include/yaclib/util/detail/atomic_counter.hpp\<close>, \<open>unique_counter.hpp\<close>, \<open>util/helper.hpp\<close> and
  \<open>util/intrusive_ptr.hpp\<close> with its implementation file. An object carries an
  \<open>AtomicCounter\<close> (\<open>MakeShared\<close>) or a \<open>OneCounter\<close> (\<open>MakeUnique\<close>); owners are intrusive
  pointers and the raw owned pointers that \<open>Release\<close> hands out and \<open>NoRefTag\<close> takes back. The
  section proves that counting is exact for every program over them.
\<close>

subsection \<open>Counters\<close>

record rc =
  shared :: "nat \<Rightarrow> bool"
  cnt :: "nat \<Rightarrow> u64"
  alive :: "nat set"
  own :: "nat \<rightharpoonup> nat option"

text \<open>\<open>SubEqual(n)\<close> answers whether the value before the subtraction was \<open>n\<close>.\<close>

definition sub_equal :: "u64 \<Rightarrow> u64 \<Rightarrow> bool \<times> u64" where
  "sub_equal n c = (c = n, c - n)"

definition delete :: "nat \<Rightarrow> rc \<Rightarrow> rc" where
  "delete ob s = s\<lparr>alive := alive s - {ob}\<rparr>"

text \<open>
  \<open>AtomicCounter::Add\<close> and \<open>Sub\<close>; \<open>OneCounter::Add\<close> does nothing and \<open>Sub\<close> always deletes.
  \<open>IncRef\<close> and \<open>DecRef\<close> of \<open>Helper\<close> pass 1. Touching a deleted object is the value None.
\<close>

definition atomic_Add :: "nat \<Rightarrow> u64 \<Rightarrow> rc \<Rightarrow> rc" where
  "atomic_Add ob delta s = s\<lparr>cnt := (cnt s)(ob := cnt s ob + delta)\<rparr>"

definition atomic_Sub :: "nat \<Rightarrow> u64 \<Rightarrow> rc \<Rightarrow> rc" where
  "atomic_Sub ob delta s =
     (let (eq, c) = sub_equal delta (cnt s ob); s' = s\<lparr>cnt := (cnt s)(ob := c)\<rparr>
      in if eq then delete ob s' else s')"

definition one_Add :: "nat \<Rightarrow> u64 \<Rightarrow> rc \<Rightarrow> rc" where
  "one_Add ob delta s = s"

definition one_Sub :: "nat \<Rightarrow> u64 \<Rightarrow> rc \<Rightarrow> rc" where
  "one_Sub ob delta s = delete ob s"

definition IncRef :: "nat \<Rightarrow> rc \<Rightarrow> rc option" where
  "IncRef ob s =
     (if ob \<notin> alive s then None else Some ((if shared s ob then atomic_Add else one_Add) ob 1 s))"

definition DecRef :: "nat \<Rightarrow> rc \<Rightarrow> rc option" where
  "DecRef ob s =
     (if ob \<notin> alive s then None else Some ((if shared s ob then atomic_Sub else one_Sub) ob 1 s))"

definition GetRef :: "nat \<Rightarrow> rc \<Rightarrow> u64 option" where
  "GetRef ob s = (if ob \<notin> alive s then None else Some (if shared s ob then cnt s ob else 1))"

subsection \<open>Intrusive pointers\<close>

definition set_ptr :: "nat \<Rightarrow> nat option \<Rightarrow> rc \<Rightarrow> rc" where
  "set_ptr x p s = s\<lparr>own := (own s)(x \<mapsto> p)\<rparr>"

definition end_ptr :: "nat \<Rightarrow> rc \<Rightarrow> rc" where
  "end_ptr x s = s\<lparr>own := (own s)(x := None)\<rparr>"

definition ptr_null :: "nat \<Rightarrow> rc \<Rightarrow> rc option" where
  "ptr_null x s = Some (set_ptr x None s)"

definition ptr_raw :: "nat \<Rightarrow> nat option \<Rightarrow> rc \<Rightarrow> rc option" where
  "ptr_raw x other s =
     (let s' = set_ptr x other s
      in case other of None \<Rightarrow> Some s' | Some ob \<Rightarrow> IncRef ob s')"

definition ptr_move :: "nat \<Rightarrow> nat \<Rightarrow> rc \<Rightarrow> rc option" where
  "ptr_move x y s = Option.bind (own s y) (\<lambda>p. Some (set_ptr y None (set_ptr x p s)))"

definition ptr_copy :: "nat \<Rightarrow> nat \<Rightarrow> rc \<Rightarrow> rc option" where
  "ptr_copy x y s = Option.bind (own s y) (\<lambda>p. ptr_raw x p s)"

definition ptr_swap :: "nat \<Rightarrow> nat \<Rightarrow> rc \<Rightarrow> rc option" where
  "ptr_swap x y s =
     Option.bind (own s x) (\<lambda>p. Option.bind (own s y) (\<lambda>q. Some (set_ptr y p (set_ptr x q s))))"

definition ptr_dtor :: "nat \<Rightarrow> rc \<Rightarrow> rc option" where
  "ptr_dtor x s =
     Option.bind (own s x) (\<lambda>p. map_option (end_ptr x)
       (case p of None \<Rightarrow> Some s | Some ob \<Rightarrow> DecRef ob s))"

text \<open>
  Assignments; the slot 0 is the temporary that \<open>IntrusivePtr{other}.Swap(*this)\<close> creates and
  destroys at the end of the statement.
\<close>

definition ptr_assign_raw :: "nat \<Rightarrow> nat option \<Rightarrow> rc \<Rightarrow> rc option" where
  "ptr_assign_raw x other s =
     (if own s x = Some other then Some s
      else Option.bind (ptr_raw 0 other s) (\<lambda>s. Option.bind (ptr_swap 0 x s) (ptr_dtor 0)))"

definition ptr_assign_copy :: "nat \<Rightarrow> nat \<Rightarrow> rc \<Rightarrow> rc option" where
  "ptr_assign_copy x y s = Option.bind (own s y) (\<lambda>p. ptr_assign_raw x p s)"

definition ptr_assign_move :: "nat \<Rightarrow> nat \<Rightarrow> rc \<Rightarrow> rc option" where
  "ptr_assign_move x y s = ptr_swap x y s"

definition ptr_assign_conv :: "nat \<Rightarrow> nat \<Rightarrow> rc \<Rightarrow> rc option" where
  "ptr_assign_conv x y s =
     Option.bind (ptr_move 0 y s) (\<lambda>s. Option.bind (ptr_swap 0 x s) (ptr_dtor 0))"

text \<open>
  \<open>Release\<close> gives the pointer to a raw owner \<open>z\<close>, the \<open>NoRefTag\<close> constructor takes it from
  there, \<open>MakeShared(n)\<close> creates an object with \<open>n\<close> owners: the pointer \<open>x\<close> and \<open>n - 1\<close> raw
  ones, \<open>MakeUnique\<close> one with a single owner.
\<close>

definition ptr_Release :: "nat \<Rightarrow> nat \<Rightarrow> rc \<Rightarrow> rc option" where
  "ptr_Release x z s = Option.bind (own s x) (\<lambda>p. Some (set_ptr x None (set_ptr z p s)))"

definition ptr_NoRef :: "nat \<Rightarrow> nat \<Rightarrow> rc \<Rightarrow> rc option" where
  "ptr_NoRef x z s = Option.bind (own s z) (\<lambda>p. Some (set_ptr x p (end_ptr z s)))"

definition MakeShared :: "nat \<Rightarrow> nat \<Rightarrow> nat list \<Rightarrow> rc \<Rightarrow> rc option" where
  "MakeShared ob x zs s =
     Some (s\<lparr>shared := (shared s)(ob := True), cnt := (cnt s)(ob := of_nat (length (x # zs))),
            alive := insert ob (alive s), own := (\<lambda>y. if y \<in> set (x # zs) then Some (Some ob) else own s y)\<rparr>)"

definition MakeUnique :: "nat \<Rightarrow> nat \<Rightarrow> rc \<Rightarrow> rc option" where
  "MakeUnique ob x s =
     Some (set_ptr x (Some ob) (s\<lparr>shared := (shared s)(ob := False), alive := insert ob (alive s)\<rparr>))"

subsection \<open>Counting owners\<close>

definition nref :: "(nat \<rightharpoonup> nat option) \<Rightarrow> nat \<Rightarrow> nat" where
  "nref m ob = card {x. m x = Some (Some ob)}"

lemma owners_finite: "finite (dom m) \<Longrightarrow> finite {x. m x = Some (Some ob)}"
  by (rule finite_subset [of _ "dom m"]) auto

lemma nref_upd:
  assumes "finite (dom m)"
  shows "nref (m(x := v)) ob =
    nref m ob - of_bool (m x = Some (Some ob)) + of_bool (v = Some (Some ob))"
proof -
  let ?A = "{y. m y = Some (Some ob)}"
  have eq: "{y. (m(x := v)) y = Some (Some ob)} =
      (if v = Some (Some ob) then insert x (?A - {x}) else ?A - {x})"
    by auto
  have fin: "finite ?A" using assms by (rule owners_finite)
  have c1: "card (?A - {x}) = card ?A - of_bool (m x = Some (Some ob))"
    by (simp add: card_Diff_singleton_if)
  have c2: "card (insert x (?A - {x})) = card (?A - {x}) + 1"
    using fin by (subst card_insert_disjoint) auto
  show ?thesis
    unfolding nref_def eq
    by (cases "v = Some (Some ob)")
      (simp_all only: c1 c2 if_True if_False of_bool_eq add_0_right refl simp_thms)
qed

lemma nref_pos: "finite (dom m) \<Longrightarrow> m x = Some (Some ob) \<Longrightarrow> 0 < nref m ob"
  using owners_finite [of m ob] by (auto simp: nref_def card_gt_0_iff)

lemma nref_le:
  assumes "dom m \<subseteq> {..<N}"
  shows "nref m ob \<le> N"
proof -
  have "{x. m x = Some (Some ob)} \<subseteq> {..<N}" using assms by auto
  then have "card {x. m x = Some (Some ob)} \<le> card {..<N}" by (intro card_mono) auto
  then show ?thesis by (simp add: nref_def)
qed

text \<open>
  The invariant. A pointer variable occupies at least eight bytes, so fewer than \<open>2 ^ 61\<close> exist
  and no counter wraps.
\<close>

definition max_slots :: nat where
  "max_slots = 2 ^ 61"

definition counted :: "rc \<Rightarrow> nat \<Rightarrow> bool" where
  "counted s ob \<longleftrightarrow>
     (if ob \<in> alive s
      then 0 < nref (own s) ob \<and>
           (if shared s ob then unat (cnt s ob) = nref (own s) ob else nref (own s) ob = 1)
      else nref (own s) ob = 0)"

definition rc_inv :: "rc \<Rightarrow> bool" where
  "rc_inv s \<longleftrightarrow> dom (own s) \<subseteq> {..<max_slots} \<and> (\<forall>ob. counted s ob)"

lemma rc_inv_finite: "rc_inv s \<Longrightarrow> finite (dom (own s))"
  by (auto simp: rc_inv_def intro: finite_subset)

lemma rc_inv_alive: "rc_inv s \<Longrightarrow> own s x = Some (Some ob) \<Longrightarrow> ob \<in> alive s"
  using nref_pos [of "own s" x ob] rc_inv_finite [of s]
  by (auto simp: rc_inv_def counted_def split: if_splits)

lemma unat_Suc_small: "unat (c :: u64) \<le> max_slots \<Longrightarrow> unat (c + 1) = Suc (unat c)"
  by (simp add: max_slots_def unat_word_ariths)

lemma unat_pred: "c \<noteq> 0 \<Longrightarrow> unat (c - 1 :: u64) = unat c - 1"
  by (simp add: unat_minus_one)

text \<open>
  Every operation reduces to four changes of the owners: a new owner that increments, an owner
  that goes and decrements, one that moves, and one that is null.
\<close>

lemma raw_inv:
  assumes inv: "rc_inv s" and x: "own s x = None" "x < max_slots"
    and p: "\<And>ob. other = Some ob \<Longrightarrow> ob \<in> alive s \<and> shared s ob"
  shows "\<exists>s'. ptr_raw x other s = Some s' \<and> rc_inv s' \<and> own s' = (own s)(x \<mapsto> other)
           \<and> alive s' = alive s \<and> shared s' = shared s"
proof (cases other)
  case None
  have "counted (set_ptr x None s) ob" for ob
    using inv x rc_inv_finite [OF inv]
    by (auto simp: rc_inv_def counted_def set_ptr_def nref_upd)
  with inv x None show ?thesis
    by (auto simp: ptr_raw_def rc_inv_def set_ptr_def)
next
  case (Some ob)
  with p have al: "ob \<in> alive s" "shared s ob" by auto
  let ?s = "(set_ptr x other s)\<lparr>cnt := (cnt s)(ob := cnt s ob + 1)\<rparr>"
  have c: "unat (cnt s ob) = nref (own s) ob" "nref (own s) ob \<le> max_slots"
    using inv al nref_le by (auto simp: rc_inv_def counted_def)
  have "counted ?s b" for b
    using inv x al c rc_inv_finite [OF inv] Some unat_Suc_small [of "cnt s ob"]
    by (auto simp: rc_inv_def counted_def set_ptr_def nref_upd)
  with inv x Some have "rc_inv ?s" by (auto simp: rc_inv_def set_ptr_def)
  with Some al show ?thesis
    by (auto simp: ptr_raw_def IncRef_def atomic_Add_def set_ptr_def)
qed

lemma dtor_inv:
  assumes inv: "rc_inv s" and x: "own s x = Some p"
  shows "\<exists>s'. ptr_dtor x s = Some s' \<and> rc_inv s' \<and> own s' = (own s)(x := None)
           \<and> shared s' = shared s \<and> alive s' \<subseteq> alive s"
proof (cases p)
  case None
  have "counted (end_ptr x s) ob" for ob
    using inv x None rc_inv_finite [OF inv]
    by (auto simp: rc_inv_def counted_def end_ptr_def nref_upd)
  with inv x None show ?thesis by (auto simp: ptr_dtor_def rc_inv_def end_ptr_def)
next
  case (Some ob)
  have fin: "finite (dom (own s))" using inv by (rule rc_inv_finite)
  have al: "ob \<in> alive s" using rc_inv_alive [OF inv] x Some by simp
  have pos: "0 < nref (own s) ob" using nref_pos [OF fin] x Some by simp
  have one: "shared s ob \<Longrightarrow> cnt s ob = 1 \<longleftrightarrow> nref (own s) ob = 1"
    and uniq: "\<not> shared s ob \<Longrightarrow> nref (own s) ob = 1"
    using inv al by (auto simp: rc_inv_def counted_def) (metis One_nat_def unat_1 word_unat_eq_iff)+
  define s' where "s' = (if shared s ob then atomic_Sub ob 1 s else one_Sub ob 1 s)"
  have s': "DecRef ob s = Some s'" "own s' = own s" "shared s' = shared s"
    "alive s' = (if nref (own s) ob = 1 then alive s - {ob} else alive s)"
    "cnt s' = (if shared s ob then (cnt s)(ob := cnt s ob - 1) else cnt s)"
    using al one uniq
    by (auto simp: s'_def DecRef_def atomic_Sub_def one_Sub_def sub_equal_def delete_def Let_def)
  have c: "unat (cnt s ob - 1) = nref (own s) ob - 1" if "shared s ob"
  proof -
    have u: "unat (cnt s ob) = nref (own s) ob"
      using inv al that by (auto simp: rc_inv_def counted_def)
    with pos have "cnt s ob \<noteq> 0" by auto
    with u show ?thesis by (simp add: unat_pred)
  qed
  have "counted (end_ptr x s') b" for b
  proof (cases "b = ob")
    case True
    then show ?thesis
      using inv x Some s' c al pos
      by (auto simp: rc_inv_def counted_def end_ptr_def nref_upd [OF fin])
        (use pos in linarith)
  next
    case False
    with inv x Some s' show ?thesis
      by (auto simp: rc_inv_def counted_def end_ptr_def nref_upd [OF fin] split: if_splits)
  qed
  then have "rc_inv (end_ptr x s')" using inv s' by (auto simp: rc_inv_def end_ptr_def)
  with s' x Some show ?thesis by (auto simp: ptr_dtor_def end_ptr_def split: if_splits)
qed

text \<open>An exchange of owners that keeps each object's number of owners keeps the invariant.\<close>

lemma own_perm_inv:
  assumes "rc_inv s" and "dom m \<subseteq> {..<max_slots}" and "\<And>ob. nref m ob = nref (own s) ob"
  shows "rc_inv (s\<lparr>own := m\<rparr>)"
  using assms by (auto simp: rc_inv_def counted_def)

lemma swap_inv:
  assumes inv: "rc_inv s" and xy: "own s x = Some p" "own s y = Some q"
  shows "\<exists>s'. ptr_swap x y s = Some s' \<and> rc_inv s' \<and> own s' = (own s)(x \<mapsto> q, y \<mapsto> p)
           \<and> alive s' = alive s \<and> shared s' = shared s"
proof -
  let ?m = "(own s)(x \<mapsto> q, y \<mapsto> p)"
  have fin: "finite (dom (own s))" "finite (dom ((own s)(x \<mapsto> q)))"
    using rc_inv_finite [OF inv] by auto
  have "nref ?m ob = nref (own s) ob" for ob
    using nref_pos [OF fin(1), of x ob] nref_pos [OF fin(1), of y ob] xy
    by (auto simp: nref_upd [OF fin(1)] nref_upd [OF fin(2)])
  moreover have "dom ?m \<subseteq> {..<max_slots}" using inv xy by (auto simp: rc_inv_def)
  ultimately have "rc_inv (s\<lparr>own := ?m\<rparr>)" using inv by (intro own_perm_inv)
  with xy show ?thesis by (auto simp: ptr_swap_def set_ptr_def)
qed

lemma move_own_inv:
  assumes inv: "rc_inv s" and xy: "own s x = None" "x < max_slots" "own s y = Some p"
  shows "rc_inv (s\<lparr>own := (own s)(x \<mapsto> p, y \<mapsto> None)\<rparr>)"
    and "rc_inv (s\<lparr>own := (own s)(y := None, x \<mapsto> p)\<rparr>)"
proof -
  have fin: "finite (dom (own s))" "finite (dom ((own s)(x \<mapsto> p)))"
    "finite (dom ((own s)(y := None)))"
    using rc_inv_finite [OF inv] by auto
  have "nref ((own s)(x \<mapsto> p, y \<mapsto> None)) ob = nref (own s) ob"
    and "nref ((own s)(y := None, x \<mapsto> p)) ob = nref (own s) ob" for ob
    using nref_pos [OF fin(1), of y ob] xy
    by (auto simp: nref_upd [OF fin(1)] nref_upd [OF fin(2)] nref_upd [OF fin(3)])
  moreover have "dom ((own s)(x \<mapsto> p, y \<mapsto> None)) \<subseteq> {..<max_slots}"
    and "dom ((own s)(y := None, x \<mapsto> p)) \<subseteq> {..<max_slots}"
    using inv xy by (auto simp: rc_inv_def)
  ultimately show "rc_inv (s\<lparr>own := (own s)(x \<mapsto> p, y \<mapsto> None)\<rparr>)"
    and "rc_inv (s\<lparr>own := (own s)(y := None, x \<mapsto> p)\<rparr>)"
    using own_perm_inv [OF inv] by blast+
qed

lemma new_inv:
  assumes inv: "rc_inv s" and ob: "ob \<notin> alive s"
    and L: "distinct L" "L \<noteq> []" "\<And>y. y \<in> set L \<Longrightarrow> own s y = None \<and> y < max_slots"
    and sh: "sh \<or> length L = 1"
  shows "rc_inv (s\<lparr>shared := (shared s)(ob := sh), cnt := (cnt s)(ob := of_nat (length L)),
      alive := insert ob (alive s), own := (\<lambda>y. if y \<in> set L then Some (Some ob) else own s y)\<rparr>)"
    (is "rc_inv ?s")
proof -
  have fin: "finite (dom (own s))" using inv by (rule rc_inv_finite)
  have none: "own s y \<noteq> Some (Some ob)" for y
    using inv ob nref_pos [OF fin, of y ob] by (auto simp: rc_inv_def counted_def)
  then have "{y. own ?s y = Some (Some ob)} = set L" by auto
  then have n: "nref (own ?s) ob = length L" using L(1) by (simp add: nref_def distinct_card)
  have "set L \<subseteq> {..<max_slots}" using L(3) by auto
  then have "card (set L) \<le> card {..<max_slots}" by (intro card_mono) auto
  then have len: "length L \<le> max_slots" using L(1) by (simp add: distinct_card)
  have others: "nref (own ?s) b = nref (own s) b" if "b \<noteq> ob" for b
  proof -
    have "{y. own ?s y = Some (Some b)} = {y. own s y = Some (Some b)}" using that L(3) by auto
    then show ?thesis by (simp add: nref_def)
  qed
  have "counted ?s b" for b
  proof (cases "b = ob")
    case True
    with n L sh len show ?thesis
      by (auto simp: counted_def unat_of_nat max_slots_def)
  next
    case False
    with others [OF False] inv show ?thesis by (auto simp: rc_inv_def counted_def)
  qed
  moreover have D: "dom (own ?s) \<subseteq> dom (own s) \<union> set L" by (auto split: if_splits)
  have "dom (own ?s) \<subseteq> {..<max_slots}"
    using inv \<open>set L \<subseteq> {..<max_slots}\<close> by (intro subset_trans [OF D]) (simp add: rc_inv_def)
  ultimately show ?thesis unfolding rc_inv_def by blast
qed

lemma rc_inv_cong:
  assumes "rc_inv s" and "own s' = own s" and "alive s' = alive s" and "shared s' = shared s"
    and "\<And>ob. shared s ob \<Longrightarrow> cnt s' ob = cnt s ob"
  shows "rc_inv s'"
  using assms by (auto simp: rc_inv_def counted_def)

subsection \<open>Programs over intrusive pointers\<close>

datatype pop =
    NewShared nat nat "nat list" | NewUnique nat nat | PNull nat | PRaw nat "nat option"
  | PCopy nat nat | PMove nat nat | PAssignRaw nat "nat option" | PAssignCopy nat nat
  | PAssignMove nat nat | PAssignConv nat nat | PSwap nat nat | PRelease nat nat | PNoRef nat nat
  | PDtor nat

fun pstep :: "pop \<Rightarrow> rc \<Rightarrow> rc option" where
  "pstep (NewShared ob x zs) s = MakeShared ob x zs s"
| "pstep (NewUnique ob x) s = MakeUnique ob x s"
| "pstep (PNull x) s = ptr_null x s"
| "pstep (PRaw x p) s = ptr_raw x p s"
| "pstep (PCopy x y) s = ptr_copy x y s"
| "pstep (PMove x y) s = ptr_move x y s"
| "pstep (PAssignRaw x p) s = ptr_assign_raw x p s"
| "pstep (PAssignCopy x y) s = ptr_assign_copy x y s"
| "pstep (PAssignMove x y) s = ptr_assign_move x y s"
| "pstep (PAssignConv x y) s = ptr_assign_conv x y s"
| "pstep (PSwap x y) s = ptr_swap x y s"
| "pstep (PRelease x z) s = ptr_Release x z s"
| "pstep (PNoRef x z) s = ptr_NoRef x z s"
| "pstep (PDtor x) s = ptr_dtor x s"

text \<open>
  The rules of the language and the library's contract: a variable is declared before its use and
  once; an object has a fresh address; a raw pointer to take a new reference from points to a
  living object, and only objects with an atomic counter get a second owner.
\<close>

definition fresh :: "rc \<Rightarrow> nat \<Rightarrow> bool" where
  "fresh s x \<longleftrightarrow> 0 < x \<and> x < max_slots \<and> own s x = None"

definition declared :: "rc \<Rightarrow> nat \<Rightarrow> bool" where
  "declared s x \<longleftrightarrow> 0 < x \<and> own s x \<noteq> None"

fun shareable :: "rc \<Rightarrow> nat option \<Rightarrow> bool" where
  "shareable s None = True"
| "shareable s (Some ob) = (ob \<in> alive s \<and> shared s ob)"

fun plegal :: "rc \<Rightarrow> pop \<Rightarrow> bool" where
  "plegal s (NewShared ob x zs) = (ob \<notin> alive s \<and> distinct (x # zs) \<and> list_all (fresh s) (x # zs))"
| "plegal s (NewUnique ob x) = (ob \<notin> alive s \<and> fresh s x)"
| "plegal s (PNull x) = fresh s x"
| "plegal s (PRaw x p) = (fresh s x \<and> shareable s p)"
| "plegal s (PCopy x y) = (fresh s x \<and> declared s y \<and> shareable s (the (own s y)))"
| "plegal s (PMove x y) = (fresh s x \<and> declared s y)"
| "plegal s (PAssignRaw x p) = (declared s x \<and> (own s x = Some p \<or> shareable s p))"
| "plegal s (PAssignCopy x y) =
     (declared s x \<and> declared s y \<and> (own s x = own s y \<or> shareable s (the (own s y))))"
| "plegal s (PAssignMove x y) = (declared s x \<and> declared s y)"
| "plegal s (PAssignConv x y) = (declared s x \<and> declared s y)"
| "plegal s (PSwap x y) = (declared s x \<and> declared s y)"
| "plegal s (PRelease x z) = (declared s x \<and> fresh s z)"
| "plegal s (PNoRef x z) = (fresh s x \<and> declared s z)"
| "plegal s (PDtor x) = declared s x"

definition rc_ok :: "rc \<Rightarrow> bool" where
  "rc_ok s \<longleftrightarrow> rc_inv s \<and> own s 0 = None"

lemma swap_temp_dtor:
  assumes "rc_inv s" and "own s 0 = Some p" and "own s x = Some q" and "0 < x"
  shows "\<exists>s'. Option.bind (ptr_swap 0 x s) (ptr_dtor 0) = Some s' \<and> rc_ok s'"
proof -
  from swap_inv [OF assms(1-3)] obtain s1 where s1: "ptr_swap 0 x s = Some s1" "rc_inv s1"
    "own s1 = (own s)(0 \<mapsto> q, x \<mapsto> p)" by blast
  with assms(4) have "own s1 0 = Some q" by simp
  from dtor_inv [OF s1(2) this] s1(1) show ?thesis by (auto simp: rc_ok_def)
qed

lemma assign_raw_ok:
  assumes "rc_ok s" and "declared s x" and "own s x = Some p \<or> shareable s p"
  shows "\<exists>s'. ptr_assign_raw x p s = Some s' \<and> rc_ok s'"
proof (cases "own s x = Some p")
  case True
  with assms show ?thesis by (auto simp: ptr_assign_raw_def)
next
  case False
  from assms False have "\<And>ob. p = Some ob \<Longrightarrow> ob \<in> alive s \<and> shared s ob" by auto
  from raw_inv [of s 0 p, OF _ _ _ this] assms obtain s1 where
    s1: "ptr_raw 0 p s = Some s1" "rc_inv s1" "own s1 = (own s)(0 \<mapsto> p)"
    by (auto simp: rc_ok_def max_slots_def)
  moreover obtain q where "own s1 x = Some q" using s1(3) assms(2) by (auto simp: declared_def)
  ultimately show ?thesis
    using swap_temp_dtor [of s1 p x q] assms(2) False
    by (auto simp: ptr_assign_raw_def declared_def)
qed

lemma assign_conv_ok:
  assumes "rc_ok s" and "declared s x" and "declared s y"
  shows "\<exists>s'. ptr_assign_conv x y s = Some s' \<and> rc_ok s'"
proof -
  from assms(3) obtain p where p: "own s y = Some p" by (auto simp: declared_def)
  let ?s = "s\<lparr>own := (own s)(0 \<mapsto> p, y \<mapsto> None)\<rparr>"
  have "ptr_move 0 y s = Some ?s" using p by (simp add: ptr_move_def set_ptr_def)
  moreover have "rc_inv ?s"
    using move_own_inv(1) [of s 0 y p] p assms by (simp add: rc_ok_def max_slots_def)
  moreover have "own ?s 0 = Some p" using assms(3) by (simp add: declared_def)
  moreover obtain q where "own ?s x = Some q"
    using assms by (cases "x = y") (fastforce simp: declared_def)+
  ultimately show ?thesis
    using swap_temp_dtor [of ?s p x q] assms(2) by (auto simp: ptr_assign_conv_def declared_def)
qed

lemma raw_ok: "rc_ok s \<Longrightarrow> fresh s x \<Longrightarrow> shareable s p \<Longrightarrow> \<exists>s'. ptr_raw x p s = Some s' \<and> rc_ok s'"
  using raw_inv [of s x p] by (cases p) (auto simp: rc_ok_def fresh_def)

lemma dtor_ok: "rc_ok s \<Longrightarrow> declared s x \<Longrightarrow> \<exists>s'. ptr_dtor x s = Some s' \<and> rc_ok s'"
  using dtor_inv [of s x "the (own s x)"] by (auto simp: rc_ok_def declared_def)

lemma swap_ok:
  "rc_ok s \<Longrightarrow> declared s x \<Longrightarrow> declared s y \<Longrightarrow> \<exists>s'. ptr_swap x y s = Some s' \<and> rc_ok s'"
  using swap_inv [of s x "the (own s x)" y "the (own s y)"] by (auto simp: rc_ok_def declared_def)

lemma move_ok:
  assumes "rc_ok s" and "fresh s x" and "declared s y"
  shows "\<exists>s'. ptr_move x y s = Some s' \<and> rc_ok s'" and "\<exists>s'. ptr_Release y x s = Some s' \<and> rc_ok s'"
    and "\<exists>s'. ptr_NoRef x y s = Some s' \<and> rc_ok s'"
proof -
  from assms obtain p where p: "own s y = Some p" "own s x = None" "x < max_slots"
    "0 < x" "0 < y" "rc_inv s" "own s 0 = None"
    by (auto simp: rc_ok_def fresh_def declared_def)
  then have "rc_ok (s\<lparr>own := (own s)(x \<mapsto> p, y \<mapsto> None)\<rparr>)"
    and "rc_ok (s\<lparr>own := (own s)(y := None, x \<mapsto> p)\<rparr>)"
    using move_own_inv [of s x y p] by (simp_all add: rc_ok_def)
  with p show "\<exists>s'. ptr_move x y s = Some s' \<and> rc_ok s'"
    and "\<exists>s'. ptr_Release y x s = Some s' \<and> rc_ok s'"
    and "\<exists>s'. ptr_NoRef x y s = Some s' \<and> rc_ok s'"
    by (simp_all add: ptr_move_def ptr_Release_def ptr_NoRef_def set_ptr_def end_ptr_def)
qed

lemma new_ok:
  assumes "rc_ok s" and "plegal s (NewShared ob x zs)"
  shows "\<exists>s'. MakeShared ob x zs s = Some s' \<and> rc_ok s'"
proof -
  have "rc_inv s" "ob \<notin> alive s" "distinct (x # zs)" "own s 0 = None"
    and fr: "\<And>y. y \<in> set (x # zs) \<Longrightarrow> fresh s y"
    using assms by (auto simp: rc_ok_def list_all_iff)
  then show ?thesis
    using new_inv [of s ob "x # zs" True]
    by (auto simp: MakeShared_def rc_ok_def fresh_def)
qed

lemma new_unique_ok:
  assumes "rc_ok s" and "plegal s (NewUnique ob x)"
  shows "\<exists>s'. MakeUnique ob x s = Some s' \<and> rc_ok s'"
proof -
  let ?s = "set_ptr x (Some ob) (s\<lparr>shared := (shared s)(ob := False), alive := insert ob (alive s)\<rparr>)"
  have "rc_inv ?s"
    by (rule rc_inv_cong [OF new_inv [of s ob "[x]" False]])
      (use assms in \<open>auto simp: rc_ok_def fresh_def set_ptr_def fun_eq_iff\<close>)
  with assms show ?thesis by (auto simp: MakeUnique_def rc_ok_def fresh_def set_ptr_def)
qed

lemma null_ok: "rc_ok s \<Longrightarrow> fresh s x \<Longrightarrow> \<exists>s'. ptr_null x s = Some s' \<and> rc_ok s'"
  using raw_ok [of s x None] by (auto simp: ptr_raw_def ptr_null_def)

lemma pstep_ok: "rc_ok s \<Longrightarrow> plegal s c \<Longrightarrow> \<exists>s'. pstep c s = Some s' \<and> rc_ok s'"
proof (cases c)
  case (PCopy x y)
  assume "rc_ok s" "plegal s c"
  with PCopy show ?thesis
    using raw_ok [of s x "the (own s y)"] by (auto simp: ptr_copy_def declared_def)
next
  case (PAssignCopy x y)
  assume "rc_ok s" "plegal s c"
  with PAssignCopy show ?thesis
    using assign_raw_ok [of s x "the (own s y)"] by (auto simp: ptr_assign_copy_def declared_def)
qed (auto intro: new_ok new_unique_ok null_ok raw_ok move_ok assign_raw_ok assign_conv_ok swap_ok
    dtor_ok simp: ptr_assign_move_def simp del: plegal.simps(1,2))

definition rc_start :: rc where
  "rc_start = \<lparr>shared = (\<lambda>_. False), cnt = (\<lambda>_. 0), alive = {}, own = Map.empty\<rparr>"

inductive prun :: "pop list \<Rightarrow> rc \<Rightarrow> bool" where
  prun_start: "prun [] rc_start"
| prun_step: "prun cs s \<Longrightarrow> plegal s c \<Longrightarrow> pstep c s = Some s' \<Longrightarrow> prun (cs @ [c]) s'"

lemma prun_ok: "prun cs s \<Longrightarrow> rc_ok s"
proof (induction rule: prun.induct)
  case prun_start
  show ?case by (auto simp: rc_ok_def rc_inv_def counted_def rc_start_def nref_def)
next
  case (prun_step cs s c s')
  then show ?case using pstep_ok by fastforce
qed

text \<open>
  C13: reference counting is exact. After any program over intrusive pointers (constructions,
  copies, moves, the four assignments, swaps, releases, adoptions, destructions) an object is
  alive exactly as long as some owner points to it, its atomic counter is the number of its
  owners, and the next legal operation never touches a deleted object.
\<close>

theorem refcount_exact:
  assumes "prun cs s"
  shows "(ob \<in> alive s \<longleftrightarrow> (\<exists>x. own s x = Some (Some ob)))
    \<and> (ob \<in> alive s \<longrightarrow> GetRef ob s = Some (of_nat (card {x. own s x = Some (Some ob)})))
    \<and> (plegal s c \<longrightarrow> (\<exists>s'. pstep c s = Some s'))"
proof -
  have ok: "rc_ok s" using assms by (rule prun_ok)
  then have inv: "counted s ob" and fin: "finite (dom (own s))"
    using rc_inv_finite by (auto simp: rc_ok_def rc_inv_def)
  have "0 < nref (own s) ob \<longleftrightarrow> (\<exists>x. own s x = Some (Some ob))"
    using owners_finite [OF fin, of ob] by (auto simp: nref_def card_gt_0_iff)
  moreover have "cnt s ob = of_nat (nref (own s) ob)" if "ob \<in> alive s" "shared s ob"
  proof -
    have "unat (cnt s ob) = nref (own s) ob" using inv that by (simp add: counted_def)
    then have "(of_nat (unat (cnt s ob)) :: u64) = of_nat (nref (own s) ob)" by (rule arg_cong)
    then show ?thesis by simp
  qed
  ultimately show ?thesis
    using inv pstep_ok [OF ok] by (auto simp: counted_def GetRef_def nref_def split: if_splits)
qed

definition demo_ptrs :: "pop list" where
  "demo_ptrs = [NewShared 7 1 [], PCopy 2 1, PDtor 1]"

lemma demo_ptrs_run: "\<exists>s. prun demo_ptrs s \<and> own s = [2 \<mapsto> Some 7] \<and> 7 \<in> alive s"
proof -
  let ?s1 = "\<lparr>shared = (\<lambda>_. False)(7 := True), cnt = (\<lambda>_. 0)(7 := 1), alive = {7},
     own = (\<lambda>y. if y \<in> {1} then Some (Some 7) else None)\<rparr>"
  have 1: "prun ([] @ [NewShared 7 1 []]) ?s1"
    by (rule prun_step [OF prun_start])
      (auto simp: rc_start_def fresh_def max_slots_def MakeShared_def)
  let ?s2 = "?s1\<lparr>cnt := (cnt ?s1)(7 := 2), own := (own ?s1)(2 \<mapsto> Some 7)\<rparr>"
  have 2: "prun (([] @ [NewShared 7 1 []]) @ [PCopy 2 1]) ?s2"
    by (rule prun_step [OF 1])
      (auto simp: fresh_def declared_def max_slots_def ptr_copy_def ptr_raw_def set_ptr_def
        IncRef_def atomic_Add_def)
  let ?s3 = "?s2\<lparr>cnt := (cnt ?s2)(7 := 1), own := (own ?s2)(1 := None)\<rparr>"
  have 3: "prun ((([] @ [NewShared 7 1 []]) @ [PCopy 2 1]) @ [PDtor 1]) ?s3"
    by (rule prun_step [OF 2])
      (auto simp: declared_def ptr_dtor_def DecRef_def atomic_Sub_def sub_equal_def end_ptr_def)
  then show ?thesis by (intro exI [of _ ?s3]) (auto simp: demo_ptrs_def)
qed

theorem refcount_exact_witness:
  "\<exists>s. prun demo_ptrs s \<and> own s = [2 \<mapsto> Some 7]
     \<and> (7 \<in> alive s \<longleftrightarrow> (\<exists>x. own s x = Some (Some 7)))
     \<and> GetRef 7 s = Some 1 \<and> (\<exists>s'. pstep (PDtor 2) s = Some s')"
proof -
  obtain s where s: "prun demo_ptrs s" "own s = [2 \<mapsto> Some 7]" "7 \<in> alive s"
    using demo_ptrs_run by blast
  moreover have "{x. own s x = Some (Some 7)} = {2}" using s(2) by auto
  moreover have "plegal s (PDtor 2)" using s(2) by (simp add: declared_def)
  ultimately show ?thesis using refcount_exact [OF s(1), of 7 "PDtor 2"] by auto
qed

end
