(* ===== verification/Strand.thy ===== *)
theory Strand
  imports Prelude
begin

section \<open>Strand: the asynchronous mutex\<close>

text \<open>
  \<open>src/exe/strand.cpp\<close> with \<open>include/yaclib/exe/strand.hpp\<close>. Any number of threads submit jobs
  by pushing them on the lock-free stack \<open>_jobs\<close>; whoever finds the strand idle (the word holds
  \<open>Mark()\<close>) submits the strand itself to the inner executor, which later calls or drops it on
  any of its workers. The steps are the atomic operations of the code: each load, exchange and
  compare-exchange is one rule, with the writes to memory that no other thread can see (the new
  job's \<open>next\<close> before it is published, the reversal of the detached stack) in the rule of the
  operation that follows or precedes them. The inner executor is the environment: it runs a
  pending submission whenever it likes, by \<open>Call\<close> or by \<open>Drop\<close>.
\<close>

subsection \<open>State and steps\<close>

text \<open>
  Where a submitting thread is: before the compare-exchange with its expected value, after it won
  an idle strand (about to call \<open>IncRef\<close>), and about to call \<open>_executor->Submit(*this)\<close>.
\<close>

datatype sub_pc = SubIdle | SubCas nat "nat uptr" | SubWin | SubRef

text \<open>
  Where a worker of the inner executor is: in the second loop of \<open>Call\<close> with \<open>prev\<close>, before the
  final load, between load and compare-exchange, about to resubmit, about to \<open>DecRef\<close>; in the
  loop of \<open>Drop\<close> with \<open>node\<close>, and after it.
\<close>

datatype work_pc = WIdle | WRun nat | WEnd | WCas | WResub | WRel | WDrop nat | WDropEnd

text \<open>
  \<open>jobs\<close> is the atomic word, \<open>jnext\<close> the \<open>next\<close> pointers of the jobs, \<open>refs\<close> the strand's
  reference count, \<open>ext\<close> how many of its references belong to outside owners, \<open>pend\<close> how often
  the strand is submitted and not yet run. \<open>submitted\<close>, \<open>called\<close> and \<open>dropped\<close> record history:
  the jobs in the order in which they were published, called and dropped.
\<close>

record strand =
  jobs :: "nat uptr"
  jnext :: "nat \<Rightarrow> nat option"
  refs :: nat
  ext :: nat
  pend :: nat
  subs :: "nat \<Rightarrow> sub_pc"
  work :: "nat \<Rightarrow> work_pc"
  submitted :: "nat list"
  called :: "nat list"
  dropped :: "nat list"

definition strand_new :: "nat \<Rightarrow> strand" where
  "strand_new n = \<lparr>jobs = UMax, jnext = (\<lambda>_. None), refs = n, ext = n, pend = 0,
     subs = (\<lambda>_. SubIdle), work = (\<lambda>_. WIdle), submitted = [], called = [], dropped = []\<rparr>"

text \<open>The value \<open>Submit\<close> writes into \<open>job.next\<close>: null over the mark, else the expected head.\<close>

definition next_over :: "nat uptr \<Rightarrow> nat option" where
  "next_over e = (if e = UMax then None else ptr_of e)"

inductive strand_step :: "strand \<Rightarrow> strand \<Rightarrow> bool" where
  own_copy: "0 < ext s \<Longrightarrow> strand_step s (s\<lparr>refs := refs s + 1, ext := ext s + 1\<rparr>)"
| own_drop: "0 < ext s \<Longrightarrow> (ext s = 1 \<Longrightarrow> \<forall>t. subs s t = SubIdle) \<Longrightarrow>
     strand_step s (s\<lparr>refs := refs s - 1, ext := ext s - 1\<rparr>)"
| sub_load: "subs s t = SubIdle \<Longrightarrow> 0 < ext s \<Longrightarrow> j \<notin> set (submitted s) \<Longrightarrow>
     (\<forall>u e. subs s u \<noteq> SubCas j e) \<Longrightarrow>
     strand_step s (s\<lparr>subs := (subs s)(t := SubCas j (jobs s))\<rparr>)"
| sub_retry: "subs s t = SubCas j e \<Longrightarrow>
     strand_step s (s\<lparr>jnext := (jnext s)(j := next_over e), subs := (subs s)(t := SubCas j (jobs s))\<rparr>)"
| sub_publish: "subs s t = SubCas j e \<Longrightarrow> jobs s = e \<Longrightarrow>
     strand_step s (s\<lparr>jnext := (jnext s)(j := next_over e), jobs := UAt j,
       submitted := submitted s @ [j],
       subs := (subs s)(t := if e = UMax then SubWin else SubIdle)\<rparr>)"
| sub_incref: "subs s t = SubWin \<Longrightarrow>
     strand_step s (s\<lparr>refs := refs s + 1, subs := (subs s)(t := SubRef)\<rparr>)"
| sub_submit: "subs s t = SubRef \<Longrightarrow>
     strand_step s (s\<lparr>pend := pend s + 1, subs := (subs s)(t := SubIdle)\<rparr>)"
| call_take: "work s w = WIdle \<Longrightarrow> 0 < pend s \<Longrightarrow> jobs s = UAt a \<Longrightarrow>
     reverse_loop (jnext s) a None = Some (h, r) \<Longrightarrow>
     strand_step s (s\<lparr>pend := pend s - 1, jobs := UZero, jnext := h, work := (work s)(w := WRun r)\<rparr>)"
| call_job: "work s w = WRun p \<Longrightarrow>
     strand_step s (s\<lparr>called := called s @ [p],
       work := (work s)(w := case jnext s p of Some q \<Rightarrow> WRun q | None \<Rightarrow> WEnd)\<rparr>)"
| call_load: "work s w = WEnd \<Longrightarrow>
     strand_step s (s\<lparr>work := (work s)(w := if jobs s = UZero then WCas else WResub)\<rparr>)"
| call_idle: "work s w = WCas \<Longrightarrow> jobs s = UZero \<Longrightarrow>
     strand_step s (s\<lparr>jobs := UMax, work := (work s)(w := WRel)\<rparr>)"
| call_busy: "work s w = WCas \<Longrightarrow> jobs s \<noteq> UZero \<Longrightarrow>
     strand_step s (s\<lparr>work := (work s)(w := WResub)\<rparr>)"
| call_resubmit: "work s w = WResub \<Longrightarrow>
     strand_step s (s\<lparr>pend := pend s + 1, work := (work s)(w := WIdle)\<rparr>)"
| call_decref: "work s w = WRel \<Longrightarrow>
     strand_step s (s\<lparr>refs := refs s - 1, work := (work s)(w := WIdle)\<rparr>)"
| drop_take: "work s w = WIdle \<Longrightarrow> 0 < pend s \<Longrightarrow> jobs s = UAt a \<Longrightarrow>
     strand_step s (s\<lparr>pend := pend s - 1, jobs := UMax, work := (work s)(w := WDrop a)\<rparr>)"
| drop_job: "work s w = WDrop p \<Longrightarrow>
     strand_step s (s\<lparr>dropped := dropped s @ [p],
       work := (work s)(w := case jnext s p of Some q \<Rightarrow> WDrop q | None \<Rightarrow> WDropEnd)\<rparr>)"
| drop_decref: "work s w = WDropEnd \<Longrightarrow>
     strand_step s (s\<lparr>refs := refs s - 1, work := (work s)(w := WIdle)\<rparr>)"

inductive strand_reach :: "strand \<Rightarrow> bool" where
  strand_init: "0 < n \<Longrightarrow> strand_reach (strand_new n)"
| strand_next: "strand_reach s \<Longrightarrow> strand_step s s' \<Longrightarrow> strand_reach s'"

subsection \<open>The invariant\<close>

text \<open>
  One token goes round: nobody has it while the word is the mark; the thread that replaced the
  mark has it, then the inner executor's queue, then the worker that runs \<open>Call\<close>.
\<close>

datatype token = Nobody | Winning nat | Submitting nat | Queued | RunBy nat

fun running :: "work_pc \<Rightarrow> bool" where
  "running (WRun p) = True"
| "running WEnd = True"
| "running WCas = True"
| "running WResub = True"
| "running _ = False"

fun releasing :: "work_pc \<Rightarrow> bool" where
  "releasing WRel = True"
| "releasing (WDrop p) = True"
| "releasing WDropEnd = True"
| "releasing _ = False"

definition token_at :: "strand \<Rightarrow> token \<Rightarrow> bool" where
  "token_at s ow \<longleftrightarrow> (jobs s = UMax \<longleftrightarrow> ow = Nobody)
     \<and> (\<forall>t. subs s t = SubWin \<longleftrightarrow> ow = Winning t)
     \<and> (\<forall>t. subs s t = SubRef \<longleftrightarrow> ow = Submitting t)
     \<and> pend s = of_bool (ow = Queued)
     \<and> (\<forall>w. running (work s w) \<longleftrightarrow> ow = RunBy w)"

text \<open>The token may only wait where the stack is not empty.\<close>

definition token_full :: "strand \<Rightarrow> token \<Rightarrow> bool" where
  "token_full s ow \<longleftrightarrow>
     (case ow of Winning t \<Rightarrow> True | Submitting t \<Rightarrow> True | Queued \<Rightarrow> True
      | RunBy w \<Rightarrow> work s w = WResub | Nobody \<Rightarrow> False) \<longrightarrow> (\<exists>a. jobs s = UAt a)"

definition refs_at :: "strand \<Rightarrow> token \<Rightarrow> bool" where
  "refs_at s ow \<longleftrightarrow> finite {w. work s w \<noteq> WIdle}
     \<and> refs s = ext s + of_bool (case ow of Submitting t \<Rightarrow> True | Queued \<Rightarrow> True | RunBy w \<Rightarrow> True | _ \<Rightarrow> False)
         + card {w. releasing (work s w)}
     \<and> (ext s = 0 \<longrightarrow> (\<forall>t. subs s t = SubIdle))"

text \<open>
  \<open>st\<close> is the stack behind the word, \<open>b\<close> what the running batch has left, \<open>d w\<close> what the dropping
  worker \<open>w\<close> has left.
\<close>

fun run_ptr :: "work_pc \<Rightarrow> nat option" where
  "run_ptr (WRun p) = Some p"
| "run_ptr _ = None"

fun drop_ptr :: "work_pc \<Rightarrow> nat option" where
  "drop_ptr (WDrop p) = Some p"
| "drop_ptr _ = None"

fun batch_ptr :: "strand \<Rightarrow> token \<Rightarrow> nat option" where
  "batch_ptr s (RunBy w) = run_ptr (work s w)"
| "batch_ptr s _ = None"

definition chains_at :: "strand \<Rightarrow> token \<Rightarrow> nat list \<Rightarrow> nat list \<Rightarrow> (nat \<Rightarrow> nat list) \<Rightarrow> bool" where
  "chains_at s ow st b d \<longleftrightarrow> nlist (jnext s) (ptr_of (jobs s)) st
     \<and> nlist (jnext s) (batch_ptr s ow) b \<and> (\<forall>w. nlist (jnext s) (drop_ptr (work s w)) (d w))"

definition gone :: "strand \<Rightarrow> (nat \<Rightarrow> nat list) \<Rightarrow> nat set" where
  "gone s d = set (dropped s) \<union> (\<Union>w. set (d w))"

definition order_at :: "strand \<Rightarrow> nat list \<Rightarrow> nat list \<Rightarrow> (nat \<Rightarrow> nat list) \<Rightarrow> bool" where
  "order_at s st b d \<longleftrightarrow> distinct (submitted s) \<and> distinct (dropped s)
     \<and> filter (\<lambda>j. j \<notin> gone s d) (submitted s) = called s @ b @ rev st
     \<and> gone s d \<subseteq> set (submitted s)
     \<and> (\<forall>w. set (d w) \<inter> set (dropped s) = {})
     \<and> (\<forall>w v. w \<noteq> v \<longrightarrow> set (d w) \<inter> set (d v) = {})"

definition fresh_at :: "strand \<Rightarrow> bool" where
  "fresh_at s \<longleftrightarrow> (\<forall>t j e. subs s t = SubCas j e \<longrightarrow> j \<notin> set (submitted s))
     \<and> (\<forall>t u j e f. subs s t = SubCas j e \<longrightarrow> subs s u = SubCas j f \<longrightarrow> t = u)"

definition strand_inv_at :: "strand \<Rightarrow> token \<Rightarrow> nat list \<Rightarrow> nat list \<Rightarrow> (nat \<Rightarrow> nat list) \<Rightarrow> bool" where
  "strand_inv_at s ow st b d \<longleftrightarrow> token_at s ow \<and> token_full s ow \<and> refs_at s ow
     \<and> chains_at s ow st b d \<and> order_at s st b d \<and> fresh_at s"

definition strand_inv :: "strand \<Rightarrow> bool" where
  "strand_inv s \<longleftrightarrow> (\<exists>ow st b d. strand_inv_at s ow st b d)"

lemmas strand_inv_defs = strand_inv_at_def token_at_def token_full_def refs_at_def chains_at_def
  order_at_def fresh_at_def gone_def

lemma strand_inv_new: "strand_inv (strand_new n)"
  unfolding strand_inv_def
  by (rule exI [of _ Nobody], rule exI [of _ "[]"], rule exI [of _ "[]"], rule exI [of _ "\<lambda>_. []"])
    (simp add: strand_inv_defs strand_new_def)

text \<open>Facts every step uses: what is on a chain has been submitted, and the chains are disjoint.\<close>

lemma chain_members:
  assumes "order_at s st b d"
  shows "set st \<subseteq> set (submitted s)" "set b \<subseteq> set (submitted s)" "\<And>w. set (d w) \<subseteq> set (submitted s)"
    "distinct (called s @ b @ rev st)" "\<And>w. set (d w) \<inter> set st = {}" "\<And>w. set (d w) \<inter> set b = {}"
    "set st \<inter> set (dropped s) = {}"
proof -
  have eq: "filter (\<lambda>j. j \<notin> gone s d) (submitted s) = called s @ b @ rev st"
    using assms by (simp add: order_at_def)
  then have s: "set (called s @ b @ rev st) = {j \<in> set (submitted s). j \<notin> gone s d}"
    by (metis set_filter)
  then show "set st \<subseteq> set (submitted s)" "set b \<subseteq> set (submitted s)" by auto
  show "\<And>w. set (d w) \<subseteq> set (submitted s)" using assms by (auto simp: order_at_def gone_def)
  show "distinct (called s @ b @ rev st)"
    using assms eq by (metis distinct_filter order_at_def)
  show "\<And>w. set (d w) \<inter> set st = {}" "\<And>w. set (d w) \<inter> set b = {}"
    "set st \<inter> set (dropped s) = {}"
    using s by (auto simp: gone_def)
qed

lemma gone_upd:
  "gone s (d(w := l)) = set (dropped s) \<union> set l \<union> (\<Union>v\<in>-{w}. set (d v))"
  by (auto simp: gone_def split: if_splits)

lemma gone_split: "gone s d = set (dropped s) \<union> set (d w) \<union> (\<Union>v\<in>-{w}. set (d v))"
  using gone_upd [of s d w "d w"] by simp

lemma batch_ptr_cong: "work s' = work s \<Longrightarrow> batch_ptr s' ow = batch_ptr s ow"
  by (cases ow) auto

lemma chains_agree:
  assumes "chains_at s ow st b d" and "jobs s' = jobs s" and "work s' = work s"
    and agree: "\<And>x. x \<in> set st \<Longrightarrow> jnext s' x = jnext s x"
      "\<And>x. x \<in> set b \<Longrightarrow> jnext s' x = jnext s x"
      "\<And>x w. x \<in> set (d w) \<Longrightarrow> jnext s' x = jnext s x"
  shows "chains_at s' ow st b d"
  unfolding chains_at_def
proof (intro conjI allI)
  have c: "nlist (jnext s) (ptr_of (jobs s)) st" "nlist (jnext s) (batch_ptr s ow) b"
      "nlist (jnext s) (drop_ptr (work s w)) (d w)" for w
    using assms(1) unfolding chains_at_def by iprover+
  show "nlist (jnext s') (ptr_of (jobs s')) st"
    unfolding assms(2) by (rule chain_agree [OF c(1) agree(1)])
  show "nlist (jnext s') (batch_ptr s' ow) b"
    unfolding batch_ptr_cong [OF assms(3)] by (rule chain_agree [OF c(2) agree(2)])
  show "nlist (jnext s') (drop_ptr (work s' w)) (d w)" for w
    unfolding assms(3) by (rule chain_agree [OF c(3) agree(3)])
qed

lemma releasing_card:
  assumes "finite {w. work s w \<noteq> WIdle}"
  shows "card {v. releasing (((work s)(w := p)) v)} =
    card {v. releasing (work s v)} - of_bool (releasing (work s w)) + of_bool (releasing p)"
proof -
  let ?A = "{v. releasing (work s v)}"
  have eq: "{v. releasing (((work s)(w := p)) v)} =
      (if releasing p then insert w (?A - {w}) else ?A - {w})" by auto
  have fin: "finite ?A" by (rule finite_subset [OF _ assms]) auto
  have c1: "card (?A - {w}) = card ?A - of_bool (releasing (work s w))"
    by (simp add: card_Diff_singleton_if)
  have c2: "card (insert w (?A - {w})) = card (?A - {w}) + 1"
    using fin by (subst card_insert_disjoint) auto
  show ?thesis unfolding eq
    by (cases "releasing p") (simp_all only: c1 c2 if_True if_False of_bool_eq add_0_right simp_thms)
qed

lemma work_finite:
  "finite {w. work s w \<noteq> WIdle} \<Longrightarrow> finite {v. ((work s)(w := p)) v \<noteq> WIdle}"
  by (rule finite_subset [of _ "insert w {w. work s w \<noteq> WIdle}"]) auto

lemma releasing_pos:
  assumes "finite {w. work s w \<noteq> WIdle}" and "releasing (work s w)"
  shows "0 < card {v. releasing (work s v)}"
proof -
  have "finite {v. releasing (work s v)}" by (rule finite_subset [OF _ assms(1)]) auto
  with assms(2) show ?thesis by (auto simp: card_gt_0_iff)
qed

subsection \<open>Every step preserves the invariant\<close>

text \<open>
  Each part of the invariant with the fields it reads, and how it moves when these change. The
  state after the step is \<open>s'\<close>; the equations on its fields are discharged by \<open>simp\<close>.
\<close>

lemma order_same:
  "order_at s st b d \<Longrightarrow> submitted s' = submitted s \<Longrightarrow> called s' = called s \<Longrightarrow>
     dropped s' = dropped s \<Longrightarrow> order_at s' st b d"
  by (simp add: order_at_def gone_def)

lemma fresh_same:
  "fresh_at s \<Longrightarrow> submitted s' = submitted s \<Longrightarrow> subs s' = subs s \<Longrightarrow> fresh_at s'"
  by (simp add: fresh_at_def)

lemma full_same:
  "token_full s ow \<Longrightarrow> jobs s' = jobs s \<Longrightarrow> work s' = work s \<Longrightarrow> token_full s' ow"
  by (cases ow) (simp_all add: token_full_def)

lemma token_same:
  "token_at s ow \<Longrightarrow> jobs s' = jobs s \<Longrightarrow> work s' = work s \<Longrightarrow> subs s' = subs s \<Longrightarrow>
     pend s' = pend s \<Longrightarrow> token_at s' ow"
  by (simp add: token_at_def)

lemma chains_same:
  "chains_at s ow st b d \<Longrightarrow> jobs s' = jobs s \<Longrightarrow> work s' = work s \<Longrightarrow> jnext s' = jnext s \<Longrightarrow>
     chains_at s' ow st b d"
  by (rule chains_agree) simp_all

lemma chains_write:
  assumes "chains_at s ow st b d" "j \<notin> set st" "j \<notin> set b" "\<And>w. j \<notin> set (d w)"
    "jobs s' = jobs s" "work s' = work s" "jnext s' = (jnext s)(j := v)"
  shows "chains_at s' ow st b d"
  using assms(2-4) by (intro chains_agree [OF assms(1,5,6)]) (auto simp: assms(7))

lemma token_sub:
  "token_at s ow \<Longrightarrow> subs s t \<noteq> SubWin \<Longrightarrow> subs s t \<noteq> SubRef \<Longrightarrow> p \<noteq> SubWin \<Longrightarrow> p \<noteq> SubRef \<Longrightarrow>
     jobs s' = jobs s \<Longrightarrow> work s' = work s \<Longrightarrow> subs s' = (subs s)(t := p) \<Longrightarrow> pend s' = pend s \<Longrightarrow>
     token_at s' ow"
  unfolding token_at_def by (simp; metis)

lemma refs_sub:
  "refs_at s ow \<Longrightarrow> 0 < ext s \<or> subs s t \<noteq> SubIdle \<or> p = SubIdle \<Longrightarrow> refs s' = refs s \<Longrightarrow> ext s' = ext s \<Longrightarrow>
     work s' = work s \<Longrightarrow> subs s' = (subs s)(t := p) \<Longrightarrow> refs_at s' ow"
  unfolding refs_at_def by auto

lemma fresh_sub:
  "fresh_at s \<Longrightarrow> j \<notin> set (submitted s) \<Longrightarrow> (\<forall>u e. u \<noteq> t \<longrightarrow> subs s u \<noteq> SubCas j e) \<Longrightarrow>
     submitted s' = submitted s \<Longrightarrow> subs s' = (subs s)(t := SubCas j e) \<Longrightarrow> fresh_at s'"
  unfolding fresh_at_def by (simp; metis)

lemma inv_parts:
  assumes "strand_inv_at s ow st b d"
  shows "token_at s ow" "token_full s ow" "refs_at s ow" "chains_at s ow st b d"
    "order_at s st b d" "fresh_at s"
  using assms unfolding strand_inv_at_def by simp_all

lemma inv_own_copy:
  assumes "strand_inv_at s ow st b d" "0 < ext s"
  shows "strand_inv_at (s\<lparr>refs := refs s + 1, ext := ext s + 1\<rparr>) ow st b d"
  unfolding strand_inv_at_def
  by (intro conjI token_same [OF inv_parts(1) [OF assms(1)]] full_same [OF inv_parts(2) [OF assms(1)]]
      chains_same [OF inv_parts(4) [OF assms(1)]] order_same [OF inv_parts(5) [OF assms(1)]]
      fresh_same [OF inv_parts(6) [OF assms(1)]])
    (use inv_parts(3) [OF assms(1)] assms(2) in \<open>simp_all add: refs_at_def\<close>)

lemma inv_own_drop:
  assumes "strand_inv_at s ow st b d" "0 < ext s" "ext s = 1 \<Longrightarrow> \<forall>t. subs s t = SubIdle"
  shows "strand_inv_at (s\<lparr>refs := refs s - 1, ext := ext s - 1\<rparr>) ow st b d"
  unfolding strand_inv_at_def
  by (intro conjI token_same [OF inv_parts(1) [OF assms(1)]] full_same [OF inv_parts(2) [OF assms(1)]]
      chains_same [OF inv_parts(4) [OF assms(1)]] order_same [OF inv_parts(5) [OF assms(1)]]
      fresh_same [OF inv_parts(6) [OF assms(1)]])
    (use inv_parts(3) [OF assms(1)] assms(2,3) in \<open>auto simp: refs_at_def\<close>)

lemma inv_sub_load:
  assumes inv: "strand_inv_at s ow st b d" and pc: "subs s t = SubIdle" "0 < ext s"
    and j: "j \<notin> set (submitted s)" "\<forall>u e. subs s u \<noteq> SubCas j e"
  shows "strand_inv_at (s\<lparr>subs := (subs s)(t := SubCas j e)\<rparr>) ow st b d"
  unfolding strand_inv_at_def
  by (intro conjI token_sub [OF inv_parts(1) [OF inv], where t = t and p = "SubCas j e"]
      refs_sub [OF inv_parts(3) [OF inv], where t = t and p = "SubCas j e"]
      fresh_sub [OF inv_parts(6) [OF inv], where t = t and j = j and e = e]
      full_same [OF inv_parts(2) [OF inv]] chains_same [OF inv_parts(4) [OF inv]]
      order_same [OF inv_parts(5) [OF inv]])
    (simp_all add: pc j)

lemma fresh_job:
  assumes "strand_inv_at s ow st b d" "subs s t = SubCas j e"
  shows "j \<notin> set (submitted s)" "\<forall>u f. u \<noteq> t \<longrightarrow> subs s u \<noteq> SubCas j f"
    "j \<notin> set st" "j \<notin> set b" "j \<notin> set (d w)"
proof -
  have o: "order_at s st b d" and f: "fresh_at s"
    using assms(1) by (simp_all add: strand_inv_at_def)
  show j: "j \<notin> set (submitted s)" "\<forall>u f. u \<noteq> t \<longrightarrow> subs s u \<noteq> SubCas j f"
    using f assms(2) unfolding fresh_at_def by metis+
  show "j \<notin> set st" "j \<notin> set b" "j \<notin> set (d w)" using j(1) chain_members(1-3) [OF o] by auto
qed

lemma inv_sub_retry:
  assumes inv: "strand_inv_at s ow st b d" and pc: "subs s t = SubCas j e"
  shows "strand_inv_at (s\<lparr>jnext := (jnext s)(j := v), subs := (subs s)(t := SubCas j f)\<rparr>) ow st b d"
  unfolding strand_inv_at_def
  by (intro conjI token_sub [OF inv_parts(1) [OF inv], where t = t and p = "SubCas j f"]
      refs_sub [OF inv_parts(3) [OF inv], where t = t and p = "SubCas j f"]
      fresh_sub [OF inv_parts(6) [OF inv], where t = t and j = j and e = f]
      full_same [OF inv_parts(2) [OF inv]] chains_write [OF inv_parts(4) [OF inv]]
      order_same [OF inv_parts(5) [OF inv]])
    (use fresh_job [OF inv pc] in \<open>simp_all add: pc\<close>)

lemma next_over_eq [simp]: "next_over e = ptr_of e"
  by (cases e) (simp_all add: next_over_def)

lemma order_publish:
  assumes "order_at s st b d" "j \<notin> set (submitted s)" "submitted s' = submitted s @ [j]"
    "called s' = called s" "dropped s' = dropped s"
  shows "order_at s' (j # st) b d"
proof -
  have "gone s' d = gone s d" by (simp add: gone_def assms(5))
  moreover have "j \<notin> gone s d" using assms(1,2) by (auto simp: order_at_def)
  ultimately show ?thesis using assms by (auto simp: order_at_def)
qed

lemma fresh_publish:
  assumes inv: "strand_inv_at s ow st b d" and pc: "subs s t = SubCas j e"
    and s': "submitted s' = submitted s @ [j]" "subs s' = (subs s)(t := p)" "\<forall>k f. p \<noteq> SubCas k f"
  shows "fresh_at s'"
proof -
  have "fresh_at s" using inv by (rule inv_parts)
  with fresh_job [OF inv pc] s' show ?thesis unfolding fresh_at_def by (auto split: if_splits)
qed

lemma chains_publish:
  assumes "chains_at s ow st b d" "j \<notin> set st" "j \<notin> set b" "\<And>w. j \<notin> set (d w)"
    "batch_ptr s' ow' = batch_ptr s ow" "work s' = work s" "jobs s' = UAt j"
    "jnext s' = (jnext s)(j := ptr_of (jobs s))"
  shows "chains_at s' ow' (j # st) b d"
  using assms unfolding chains_at_def by auto

lemma inv_sub_publish:
  assumes inv: "strand_inv_at s ow st b d" and pc: "subs s t = SubCas j (jobs s)"
    and s': "s' = s\<lparr>jnext := (jnext s)(j := next_over (jobs s)), jobs := UAt j,
       submitted := submitted s @ [j],
       subs := (subs s)(t := if jobs s = UMax then SubWin else SubIdle)\<rparr>"
  shows "\<exists>ow'. strand_inv_at s' ow' (j # st) b d"
proof -
  let ?ow = "if jobs s = UMax then Winning t else ow"
  have tok: "token_at s ow" using inv by (rule inv_parts)
  have "ow = Nobody" if "jobs s = UMax" using tok that by (simp add: token_at_def)
  then have own: "batch_ptr s' ?ow = batch_ptr s ow" unfolding s' by (cases ow) auto
  have "token_at s' ?ow"
    using tok pc unfolding token_at_def s' by (auto; metis sub_pc.distinct)
  moreover have "token_full s' ?ow" unfolding token_full_def s' by simp
  moreover have "refs_at s' ?ow"
    using inv_parts(3) [OF inv] tok pc unfolding token_at_def refs_at_def s' by (cases ow) auto
  moreover have "chains_at s' ?ow (j # st) b d"
    by (rule chains_publish [OF inv_parts(4) [OF inv] _ _ _ own])
      (use fresh_job [OF inv pc] in \<open>simp_all add: s'\<close>)
  moreover have "order_at s' (j # st) b d"
    by (rule order_publish [OF inv_parts(5) [OF inv]])
      (use fresh_job [OF inv pc] in \<open>simp_all add: s'\<close>)
  moreover have "fresh_at s'"
    by (rule fresh_publish [OF inv pc, where p = "if jobs s = UMax then SubWin else SubIdle"])
      (simp_all add: s')
  ultimately show ?thesis unfolding strand_inv_at_def by blast
qed

lemma inv_sub_incref:
  assumes inv: "strand_inv_at s ow st b d" and pc: "subs s t = SubWin"
  shows "strand_inv_at (s\<lparr>refs := refs s + 1, subs := (subs s)(t := SubRef)\<rparr>) (Submitting t) st b d"
proof -
  have ow: "ow = Winning t" using inv_parts(1) [OF inv] pc by (simp add: token_at_def)
  then show ?thesis using inv pc unfolding strand_inv_defs by auto
qed

lemma inv_sub_submit:
  assumes inv: "strand_inv_at s ow st b d" and pc: "subs s t = SubRef"
  shows "strand_inv_at (s\<lparr>pend := pend s + 1, subs := (subs s)(t := SubIdle)\<rparr>) Queued st b d"
proof -
  have ow: "ow = Submitting t" using inv_parts(1) [OF inv] pc by (simp add: token_at_def)
  then show ?thesis using inv pc unfolding strand_inv_defs by auto
qed

text \<open>
  The detached stack: there is one, its reversal returns, and what it returns is the batch in the
  order of submission.
\<close>

lemma take_queued:
  assumes inv: "strand_inv_at s ow st b d" and pc: "0 < pend s"
  shows "ow = Queued" "\<exists>a rest. jobs s = UAt a \<and> st = a # rest" "b = []"
proof -
  show ow: "ow = Queued" using inv_parts(1) [OF inv] pc by (auto simp: token_at_def split: if_splits)
  then obtain a where "jobs s = UAt a" using inv_parts(2) [OF inv] by (auto simp: token_full_def)
  then show "\<exists>a rest. jobs s = UAt a \<and> st = a # rest"
    using inv_parts(4) [OF inv] by (auto simp: chains_at_def nlist_Some)
  show "b = []" using inv_parts(4) [OF inv] ow by (auto simp: chains_at_def)
qed

lemma take_reverse:
  assumes inv: "strand_inv_at s ow st b d" and a: "jobs s = UAt a"
  shows "\<exists>h r. reverse_loop (jnext s) a None = Some (h, r) \<and> nlist h (Some r) (rev st)
    \<and> (\<forall>z. z \<notin> set st \<longrightarrow> h z = jnext s z)"
proof -
  have "nlist (jnext s) (Some a) st" using inv_parts(4) [OF inv] a by (auto simp: chains_at_def)
  moreover from this obtain rest where "st = a # rest" by (auto simp: nlist_Some)
  ultimately show ?thesis using reverse_loop_total [of "jnext s" a rest None "[]"] by auto
qed

lemma inv_call_take:
  assumes inv: "strand_inv_at s ow st b d" and pc: "work s w = WIdle" "0 < pend s" "jobs s = UAt a"
    and rl: "reverse_loop (jnext s) a None = Some (h, r)"
  shows "strand_inv_at (s\<lparr>pend := pend s - 1, jobs := UZero, jnext := h, work := (work s)(w := WRun r)\<rparr>)
    (RunBy w) [] (rev st) d"
proof -
  let ?s = "s\<lparr>pend := pend s - 1, jobs := UZero, jnext := h, work := (work s)(w := WRun r)\<rparr>"
  note I = inv_parts [OF inv] and ow = take_queued(1) [OF inv pc(2)] and b = take_queued(3) [OF inv pc(2)]
  have h: "nlist h (Some r) (rev st)" "\<forall>z. z \<notin> set st \<longrightarrow> h z = jnext s z"
    using take_reverse [OF inv pc(3)] rl by auto
  have "token_at ?s (RunBy w)" using I(1) pc(1) unfolding ow token_at_def by auto
  moreover have "token_full ?s (RunBy w)" by (simp add: token_full_def)
  moreover have "refs_at ?s (RunBy w)"
    using I(3) pc(1) releasing_card [of s w "WRun r"] work_finite [of s w "WRun r"]
    unfolding ow refs_at_def by simp
  moreover have "chains_at ?s (RunBy w) [] (rev st) d"
  proof -
    have d: "nlist (jnext s) (drop_ptr (work s v)) (d v)" for v using I(4) by (simp add: chains_at_def)
    have "nlist h (drop_ptr (((work s)(w := WRun r)) v)) (d v)" for v
    proof (cases "v = w")
      case True
      then show ?thesis using d [of w] pc(1) by simp
    next
      case False
      have "nlist h (drop_ptr (work s v)) (d v)"
        using h(2) chain_members(5) [OF I(5), of v] by (intro chain_agree [OF d]) auto
      with False show ?thesis by simp
    qed
    with h(1) show ?thesis by (simp add: chains_at_def)
  qed
  moreover have "order_at ?s [] (rev st) d" using I(5) unfolding b by (simp add: order_at_def gone_def)
  moreover have "fresh_at ?s" using I(6) by (simp add: fresh_at_def)
  ultimately show ?thesis unfolding strand_inv_at_def by blast
qed

lemma inv_call_job:
  assumes inv: "strand_inv_at s ow st b d" and pc: "work s w = WRun p"
  shows "strand_inv_at (s\<lparr>called := called s @ [p],
       work := (work s)(w := case jnext s p of Some q \<Rightarrow> WRun q | None \<Rightarrow> WEnd)\<rparr>)
    (RunBy w) st (tl b) d" and "ow = RunBy w" and "\<exists>b'. b = p # b'"
proof -
  let ?q = "case jnext s p of Some q \<Rightarrow> WRun q | None \<Rightarrow> WEnd"
  let ?s = "s\<lparr>called := called s @ [p], work := (work s)(w := ?q)\<rparr>"
  note I = inv_parts [OF inv]
  have "running (work s w)" using pc by simp
  then show ow: "ow = RunBy w" using I(1) by (simp add: token_at_def)
  have "nlist (jnext s) (Some p) b" using I(4) unfolding ow chains_at_def by (simp add: pc)
  then obtain b' where b: "b = p # b'" and b': "nlist (jnext s) (jnext s p) b'"
    by (auto simp: nlist_Some)
  then show "\<exists>b'. b = p # b'" by blast
  have q: "running ?q" "\<not> releasing ?q" "run_ptr ?q = jnext s p" "drop_ptr ?q = None" "?q \<noteq> WResub"
    by (auto split: option.split)
  have "token_at ?s (RunBy w)" using I(1) q(1) unfolding ow token_at_def by auto
  moreover have "token_full ?s (RunBy w)" using q(5) by (simp add: token_full_def)
  moreover have "refs_at ?s (RunBy w)"
    using I(3) pc q(2) releasing_card [of s w ?q] work_finite [of s w ?q] unfolding ow refs_at_def by simp
  moreover have "chains_at ?s (RunBy w) st (tl b) d"
  proof -
    have d: "nlist (jnext s) (drop_ptr (work s v)) (d v)" for v using I(4) by (simp add: chains_at_def)
    then have "nlist (jnext s) (drop_ptr (((work s)(w := ?q)) v)) (d v)" for v
      using d [of w] q(4) pc by auto
    then show ?thesis using I(4) b b' q(3) by (simp add: chains_at_def)
  qed
  moreover have "order_at ?s st (tl b) d" using I(5) b by (simp add: order_at_def gone_def)
  moreover have "fresh_at ?s" using I(6) by (simp add: fresh_at_def)
  ultimately show "strand_inv_at ?s (RunBy w) st (tl b) d" unfolding strand_inv_at_def by blast
qed

text \<open>A worker that moves without touching the chains.\<close>

lemma chains_move:
  assumes "chains_at s ow st b d" "drop_ptr (work s w) = None" "drop_ptr p = None"
    "batch_ptr s' ow' = batch_ptr s ow" "ptr_of (jobs s') = ptr_of (jobs s)" "jnext s' = jnext s"
    "work s' = (work s)(w := p)"
  shows "chains_at s' ow' st b d"
  using assms unfolding chains_at_def by (metis fun_upd_apply)

lemma refs_move:
  assumes "refs_at s ow" "work s' = (work s)(w := p)" "ext s' = ext s" "subs s' = subs s"
    "refs s' + of_bool (releasing (work s w)) +
       of_bool (case ow of Submitting t \<Rightarrow> True | Queued \<Rightarrow> True | RunBy w \<Rightarrow> True | _ \<Rightarrow> False)
     = refs s + of_bool (releasing p) +
       of_bool (case ow' of Submitting t \<Rightarrow> True | Queued \<Rightarrow> True | RunBy w \<Rightarrow> True | _ \<Rightarrow> False)"
  shows "refs_at s' ow'"
proof -
  have fin: "finite {v. work s v \<noteq> WIdle}" using assms(1) by (simp add: refs_at_def)
  have c: "card {v. releasing (work s' v)} =
      card {v. releasing (work s v)} - of_bool (releasing (work s w)) + of_bool (releasing p)"
    unfolding assms(2) by (rule releasing_card [OF fin])
  have le: "of_bool (releasing (work s w)) \<le> card {v. releasing (work s v)}"
    using releasing_pos [OF fin, of w] by (cases "releasing (work s w)") auto
  have "finite {v. work s' v \<noteq> WIdle}" unfolding assms(2) by (rule work_finite [OF fin])
  moreover have "refs s' = ext s' + of_bool (case ow' of Submitting t \<Rightarrow> True | Queued \<Rightarrow> True
      | RunBy w \<Rightarrow> True | _ \<Rightarrow> False) + card {w. releasing (work s' w)}"
    using assms(1,3,5) c le unfolding refs_at_def by linarith
  ultimately show ?thesis using assms(1,3,4) unfolding refs_at_def by simp
qed

lemma inv_call_load:
  assumes inv: "strand_inv_at s ow st b d" and pc: "work s w = WEnd"
  shows "strand_inv_at (s\<lparr>work := (work s)(w := if jobs s = UZero then WCas else WResub)\<rparr>)
    (RunBy w) st b d" (is "strand_inv_at ?s _ _ _ _")
proof -
  note I = inv_parts [OF inv]
  have ow: "ow = RunBy w" using I(1) pc by (metis running.simps(2) token_at_def)
  have "token_at ?s (RunBy w)" using I(1) unfolding ow token_at_def by auto
  moreover have "token_full ?s (RunBy w)"
    using I(1) unfolding ow token_full_def token_at_def by (cases "jobs s") auto
  moreover have "refs_at ?s (RunBy w)"
    by (rule refs_move [OF I(3), where w = w and p = "if jobs s = UZero then WCas else WResub"])
      (simp_all add: ow pc)
  moreover have "chains_at ?s (RunBy w) st b d"
    by (rule chains_move [OF I(4), where w = w and p = "if jobs s = UZero then WCas else WResub"])
      (simp_all add: ow pc)
  moreover have "order_at ?s st b d" "fresh_at ?s"
    by (rule order_same [OF I(5)] fresh_same [OF I(6)]; simp)+
  ultimately show ?thesis unfolding strand_inv_at_def by blast
qed

lemma inv_call_idle:
  assumes inv: "strand_inv_at s ow st b d" and pc: "work s w = WCas" and z: "jobs s = UZero"
  shows "strand_inv_at (s\<lparr>jobs := UMax, work := (work s)(w := WRel)\<rparr>) Nobody st b d"
    (is "strand_inv_at ?s _ _ _ _")
proof -
  note I = inv_parts [OF inv]
  have ow: "ow = RunBy w" using I(1) pc by (metis running.simps(3) token_at_def)
  have "token_at ?s Nobody" using I(1) unfolding ow token_at_def by auto
  moreover have "token_full ?s Nobody" by (simp add: token_full_def)
  moreover have "refs_at ?s Nobody"
    by (rule refs_move [OF I(3), where w = w and p = WRel]) (simp_all add: ow pc)
  moreover have "chains_at ?s Nobody st b d"
    by (rule chains_move [OF I(4), where w = w and p = WRel]) (simp_all add: ow pc z)
  moreover have "order_at ?s st b d" "fresh_at ?s"
    by (rule order_same [OF I(5)] fresh_same [OF I(6)]; simp)+
  ultimately show ?thesis unfolding strand_inv_at_def by blast
qed

lemma inv_call_busy:
  assumes inv: "strand_inv_at s ow st b d" and pc: "work s w = WCas" and z: "jobs s \<noteq> UZero"
  shows "strand_inv_at (s\<lparr>work := (work s)(w := WResub)\<rparr>) (RunBy w) st b d"
    (is "strand_inv_at ?s _ _ _ _")
proof -
  note I = inv_parts [OF inv]
  have ow: "ow = RunBy w" using I(1) pc by (metis running.simps(3) token_at_def)
  have "token_at ?s (RunBy w)" using I(1) unfolding ow token_at_def by auto
  moreover have "token_full ?s (RunBy w)"
    using I(1) z unfolding ow token_full_def token_at_def by (cases "jobs s") auto
  moreover have "refs_at ?s (RunBy w)"
    by (rule refs_move [OF I(3), where w = w and p = WResub]) (simp_all add: ow pc)
  moreover have "chains_at ?s (RunBy w) st b d"
    by (rule chains_move [OF I(4), where w = w and p = WResub]) (simp_all add: ow pc)
  moreover have "order_at ?s st b d" "fresh_at ?s"
    by (rule order_same [OF I(5)] fresh_same [OF I(6)]; simp)+
  ultimately show ?thesis unfolding strand_inv_at_def by blast
qed

lemma inv_call_resubmit:
  assumes inv: "strand_inv_at s ow st b d" and pc: "work s w = WResub"
  shows "strand_inv_at (s\<lparr>pend := pend s + 1, work := (work s)(w := WIdle)\<rparr>) Queued st b d"
    (is "strand_inv_at ?s _ _ _ _")
proof -
  note I = inv_parts [OF inv]
  have ow: "ow = RunBy w" using I(1) pc by (metis running.simps(4) token_at_def)
  have "token_at ?s Queued" using I(1) unfolding ow token_at_def by auto
  moreover have "token_full ?s Queued" using I(2) pc unfolding ow token_full_def by simp
  moreover have "refs_at ?s Queued"
    by (rule refs_move [OF I(3), where w = w and p = WIdle]) (simp_all add: ow pc)
  moreover have "chains_at ?s Queued st b d"
    by (rule chains_move [OF I(4), where w = w and p = WIdle]) (simp_all add: ow pc)
  moreover have "order_at ?s st b d" "fresh_at ?s"
    by (rule order_same [OF I(5)] fresh_same [OF I(6)]; simp)+
  ultimately show ?thesis unfolding strand_inv_at_def by blast
qed

lemma inv_decref:
  assumes inv: "strand_inv_at s ow st b d" and pc: "work s w = WRel \<or> work s w = WDropEnd"
  shows "strand_inv_at (s\<lparr>refs := refs s - 1, work := (work s)(w := WIdle)\<rparr>) ow st b d"
    (is "strand_inv_at ?s _ _ _ _")
proof -
  note I = inv_parts [OF inv]
  have r: "releasing (work s w)" "\<not> running (work s w)" "drop_ptr (work s w) = None" "work s w \<noteq> WResub"
    using pc by auto
  have ow: "ow \<noteq> RunBy w" using I(1) r(2) by (auto simp: token_at_def)
  have "finite {v. work s v \<noteq> WIdle}" using I(3) by (simp add: refs_at_def)
  from releasing_pos [OF this r(1)] have "0 < refs s" using I(3) by (simp add: refs_at_def)
  have "token_at ?s ow" using I(1) r(2) ow unfolding token_at_def by auto
  moreover have "token_full ?s ow" using I(2) ow unfolding token_full_def by (cases ow) auto
  moreover have "refs_at ?s ow"
    by (rule refs_move [OF I(3), where w = w and p = WIdle])
      (use r \<open>0 < refs s\<close> in simp_all)
  moreover have "batch_ptr ?s ow = batch_ptr s ow" using ow by (cases ow) auto
  then have "chains_at ?s ow st b d"
    by (intro chains_move [OF I(4), where w = w and p = WIdle]) (simp_all add: r)
  moreover have "order_at ?s st b d" "fresh_at ?s"
    by (rule order_same [OF I(5)] fresh_same [OF I(6)]; simp)+
  ultimately show ?thesis unfolding strand_inv_at_def by blast
qed

lemma inv_drop_take:
  assumes inv: "strand_inv_at s ow st b d" and pc: "work s w = WIdle" "0 < pend s" "jobs s = UAt a"
  shows "strand_inv_at (s\<lparr>pend := pend s - 1, jobs := UMax, work := (work s)(w := WDrop a)\<rparr>)
    Nobody [] b (d(w := st))" (is "strand_inv_at ?s _ _ _ _")
proof -
  note I = inv_parts [OF inv] and ow = take_queued(1) [OF inv pc(2)] and b = take_queued(3) [OF inv pc(2)]
  have dw: "d w = []" using I(4) pc(1) by (metis chains_at_def drop_ptr.simps(2) nlist_None)
  have st: "set st \<subseteq> set (submitted s)" "distinct st" "\<And>v. set (d v) \<inter> set st = {}"
      "set st \<inter> set (called s) = {}"
    using chain_members [OF I(5)] by auto
  have "token_at ?s Nobody" using I(1) pc unfolding ow token_at_def by auto
  moreover have "token_full ?s Nobody" by (simp add: token_full_def)
  moreover have "refs_at ?s Nobody"
    by (rule refs_move [OF I(3), where w = w and p = "WDrop a"]) (simp_all add: ow pc)
  moreover have "chains_at ?s Nobody [] b (d(w := st))"
    using I(4) pc(3) by (simp add: chains_at_def b)
  moreover have "order_at ?s [] b (d(w := st))"
  proof -
    have g: "gone ?s (d(w := st)) = gone s d \<union> set st"
      using dw unfolding gone_upd gone_split [of s d w] by auto
    have sd: "set st \<inter> set (dropped s) = {}" using chain_members(7) [OF I(5)] .
    have f: "filter (\<lambda>j. j \<notin> gone s d) (submitted s) = called s @ rev st"
      using I(5) b by (simp add: order_at_def)
    have "filter (\<lambda>j. j \<notin> gone ?s (d(w := st))) (submitted s)
        = filter (\<lambda>j. j \<notin> set st) (filter (\<lambda>j. j \<notin> gone s d) (submitted s))"
      unfolding g filter_filter by (rule filter_cong) auto
    also have "\<dots> = called s"
    proof -
      have "filter (\<lambda>j. j \<notin> set st) (called s) = called s"
        by (rule filter_notin_id) (use st(4) in auto)
      moreover have "filter (\<lambda>j. j \<notin> set st) (rev st) = []" by (rule filter_notin_none) simp
      ultimately show ?thesis unfolding f filter_append by simp
    qed
    finally have "filter (\<lambda>j. j \<notin> gone ?s (d(w := st))) (submitted s) = called s" .
    then show ?thesis using I(5) st sd unfolding order_at_def g b by auto
  qed
  moreover have "fresh_at ?s" by (rule fresh_same [OF I(6)]) simp_all
  ultimately show ?thesis unfolding strand_inv_at_def by blast
qed

lemma inv_drop_job:
  assumes inv: "strand_inv_at s ow st b d" and pc: "work s w = WDrop p"
  shows "strand_inv_at (s\<lparr>dropped := dropped s @ [p],
       work := (work s)(w := case jnext s p of Some q \<Rightarrow> WDrop q | None \<Rightarrow> WDropEnd)\<rparr>)
    ow st b (d(w := tl (d w)))"
proof -
  let ?q = "case jnext s p of Some q \<Rightarrow> WDrop q | None \<Rightarrow> WDropEnd"
  let ?s = "s\<lparr>dropped := dropped s @ [p], work := (work s)(w := ?q)\<rparr>"
  note I = inv_parts [OF inv]
  have nr: "\<not> running (work s w)" using pc by simp
  have ow: "ow \<noteq> RunBy w" using I(1) nr by (auto simp: token_at_def)
  have "nlist (jnext s) (Some p) (d w)" using I(4) unfolding chains_at_def by (metis drop_ptr.simps(1) pc)
  then obtain d' where dw: "d w = p # d'" and d': "nlist (jnext s) (jnext s p) d'" and dd: "distinct (d w)"
    by (metis nlist_Some nlist_distinct)
  have q: "\<not> running ?q" "releasing ?q" "drop_ptr ?q = jnext s p" "?q \<noteq> WResub"
    by (auto split: option.split)
  have "token_at ?s ow" using I(1) q(1) nr unfolding token_at_def by auto
  moreover have "token_full ?s ow" using I(2) ow unfolding token_full_def by (cases ow) auto
  moreover have "refs_at ?s ow"
    by (rule refs_move [OF I(3), where w = w and p = ?q]) (use q pc in simp_all)
  moreover have "chains_at ?s ow st b (d(w := tl (d w)))"
  proof -
    have "batch_ptr ?s ow = batch_ptr s ow" using ow by (cases ow) auto
    then show ?thesis using I(4) d' q(3) unfolding chains_at_def by (simp add: dw)
  qed
  moreover have "order_at ?s st b (d(w := tl (d w)))"
  proof -
    have o: "set (d w) \<inter> set (dropped s) = {}" "\<And>v. v \<noteq> w \<Longrightarrow> set (d w) \<inter> set (d v) = {}"
      using I(5) unfolding order_at_def by auto
    have g: "gone ?s (d(w := tl (d w))) = gone s d"
      unfolding gone_upd gone_split [of s d w] by (auto simp: dw)
    show ?thesis using I(5) o dd unfolding order_at_def g by (auto simp: dw)
  qed
  moreover have "fresh_at ?s" by (rule fresh_same [OF I(6)]) simp_all
  ultimately show ?thesis unfolding strand_inv_at_def by blast
qed

subsection \<open>What the strand guarantees\<close>

theorem strand_step_inv: "strand_step s s' \<Longrightarrow> strand_inv s \<Longrightarrow> strand_inv s'"
proof (induction rule: strand_step.induct)
  case (sub_publish s t j e)
  then show ?case unfolding strand_inv_def using inv_sub_publish by meson
qed (unfold strand_inv_def; elim exE;
    blast dest: inv_own_copy inv_own_drop inv_sub_load inv_sub_retry inv_sub_incref
      inv_sub_submit inv_call_take inv_call_job(1) inv_call_load inv_call_idle inv_call_busy
      inv_call_resubmit inv_decref inv_drop_take inv_drop_job)+

theorem strand_reach_inv: "strand_reach s \<Longrightarrow> strand_inv s"
  by (induction rule: strand_reach.induct) (auto intro: strand_inv_new strand_step_inv)

text \<open>
  A run for the witnesses: thread 0 submits the job 7 to an idle strand, the inner executor is
  given the strand, worker 3 calls it and finds the strand idle again.
\<close>

definition demo_queued :: strand where
  "demo_queued = (strand_new 1)\<lparr>jobs := UAt 7, refs := 2, pend := 1, submitted := [7]\<rparr>"

definition demo_running :: strand where
  "demo_running = demo_queued\<lparr>jobs := UZero, pend := 0, work := (\<lambda>_. WIdle)(3 := WRun 7)\<rparr>"

definition demo_done :: strand where
  "demo_done = (strand_new 1)\<lparr>submitted := [7], called := [7]\<rparr>"

lemma demo_queued_reach: "strand_reach demo_queued"
proof -
  let ?a = "strand_new 1"
  let ?b = "?a\<lparr>subs := (subs ?a)(0 := SubCas 7 (jobs ?a))\<rparr>"
  let ?c = "?b\<lparr>jnext := (jnext ?b)(7 := next_over UMax), jobs := UAt 7,
       submitted := submitted ?b @ [7], subs := (subs ?b)(0 := if UMax = (UMax :: nat uptr) then SubWin else SubIdle)\<rparr>"
  let ?d = "?c\<lparr>refs := refs ?c + 1, subs := (subs ?c)(0 := SubRef)\<rparr>"
  have "strand_reach ?a" by (rule strand_init) simp
  then have "strand_reach ?b"
    by (rule strand_next, intro sub_load) (auto simp: strand_new_def)
  then have "strand_reach ?c"
    by (rule strand_next, intro sub_publish) (auto simp: strand_new_def)
  then have "strand_reach ?d"
    by (rule strand_next, intro sub_incref) auto
  then have "strand_reach (?d\<lparr>pend := pend ?d + 1, subs := (subs ?d)(0 := SubIdle)\<rparr>)"
    by (rule strand_next, intro sub_submit) auto
  then show ?thesis by (simp add: demo_queued_def strand_new_def fun_upd_def numeral_2_eq_2 cong: if_cong)
qed

lemma demo_running_reach: "strand_reach demo_running"
proof -
  have "reverse_loop (jnext demo_queued) 7 None = Some ((jnext demo_queued)(7 := None), 7)"
    by (subst reverse_loop.simps) (simp add: demo_queued_def strand_new_def)
  then have "strand_step demo_queued (demo_queued\<lparr>pend := pend demo_queued - 1, jobs := UZero,
      jnext := (jnext demo_queued)(7 := None), work := (work demo_queued)(3 := WRun 7)\<rparr>)"
    by (intro call_take) (simp_all add: demo_queued_def strand_new_def)
  with demo_queued_reach have "strand_reach \<dots>" by (rule strand_next)
  then show ?thesis
    by (simp add: demo_running_def demo_queued_def strand_new_def fun_upd_def cong: if_cong)
qed

lemma demo_done_reach: "strand_reach demo_done"
proof -
  let ?a = demo_running
  let ?b = "?a\<lparr>called := called ?a @ [7],
       work := (work ?a)(3 := case jnext ?a 7 of Some q \<Rightarrow> WRun q | None \<Rightarrow> WEnd)\<rparr>"
  let ?c = "?b\<lparr>work := (work ?b)(3 := if jobs ?b = UZero then WCas else WResub)\<rparr>"
  let ?d = "?c\<lparr>jobs := UMax, work := (work ?c)(3 := WRel)\<rparr>"
  note defs = demo_running_def demo_queued_def strand_new_def
  have "strand_reach ?b" by (rule strand_next [OF demo_running_reach], rule call_job) (simp add: defs)
  then have "strand_reach ?c" by (rule strand_next, intro call_load) (simp add: defs)
  then have "strand_reach ?d" by (rule strand_next, intro call_idle) (simp_all add: defs)
  then have "strand_reach (?d\<lparr>refs := refs ?d - 1, work := (work ?d)(3 := WIdle)\<rparr>)"
    by (rule strand_next, intro call_decref) simp
  then show ?thesis by (simp add: demo_done_def defs fun_upd_def cong: if_cong)
qed

text \<open>C5: strand jobs run strictly one after another: in no reachable state, however the
  submitting threads, the workers of the inner executor and the owners interleave, are two
  workers inside \<open>Strand::Call\<close>, and a strand that is running is not queued a second time.\<close>

theorem strand_serial:
  assumes "strand_reach s" and "running (work s v)"
  shows "(\<forall>w. running (work s w) \<longrightarrow> w = v) \<and> pend s = 0 \<and> jobs s \<noteq> UMax"
proof -
  obtain ow st b d where "strand_inv_at s ow st b d"
    using strand_reach_inv [OF assms(1)] by (auto simp: strand_inv_def)
  then have t: "token_at s ow" by (rule inv_parts)
  with assms(2) have "ow = RunBy v" by (simp add: token_at_def)
  with t show ?thesis by (simp add: token_at_def)
qed

theorem strand_serial_witness: "jobs demo_running \<noteq> UMax"
  using strand_serial [OF demo_running_reach, of 3] by (simp add: demo_running_def)

text \<open>C4: first in, first out and exactly once: at any time the jobs that were submitted and
  have not been dropped are, in the order of their publication, exactly the jobs called so far, then the
  rest of the running batch, then the stack read from its bottom. No job is called or dropped
  twice and none is both.\<close>

theorem strand_fifo:
  assumes "strand_reach s"
  shows "\<exists>ow st b d. filter (\<lambda>j. j \<notin> gone s d) (submitted s) = called s @ b @ rev st
     \<and> nlist (jnext s) (ptr_of (jobs s)) st \<and> nlist (jnext s) (batch_ptr s ow) b
     \<and> (\<forall>w. nlist (jnext s) (drop_ptr (work s w)) (d w))
     \<and> distinct (called s @ b @ rev st) \<and> distinct (dropped s) \<and> set (called s) \<inter> set (dropped s) = {}"
proof -
  obtain ow st b d where inv: "strand_inv_at s ow st b d"
    using strand_reach_inv [OF assms] by (auto simp: strand_inv_def)
  note o = inv_parts(5) [OF inv] and c = inv_parts(4) [OF inv]
  have "set (called s) \<subseteq> {j \<in> set (submitted s). j \<notin> gone s d}"
    using o unfolding order_at_def by (metis set_filter set_append sup_ge1)
  then have "set (called s) \<inter> set (dropped s) = {}" by (auto simp: gone_def)
  then show ?thesis
    using o c chain_members(4) [OF o] unfolding order_at_def chains_at_def
    by (intro exI [of _ ow] exI [of _ st] exI [of _ b] exI [of _ d]) simp
qed

theorem strand_fifo_witness: "\<exists>d st b. filter (\<lambda>j. j \<notin> gone demo_done d) [7] = [7] @ b @ rev st"
proof -
  have "submitted demo_done = [7]" "called demo_done = [7]" by (simp_all add: demo_done_def)
  with strand_fifo [OF demo_done_reach] show ?thesis by metis
qed

lemma quiet_done:
  assumes inv: "strand_inv_at s ow st b d"
    and q: "\<forall>t. subs s t \<noteq> SubWin \<and> subs s t \<noteq> SubRef" "pend s = 0" "\<forall>w. work s w = WIdle"
  shows "jobs s = UMax \<and> mset (submitted s) = mset (called s) + mset (dropped s) \<and> refs s = ext s"
proof -
  note I = inv_parts [OF inv]
  have ow: "ow = Nobody" using I(1) q by (cases ow) (auto simp: token_at_def)
  then have m: "jobs s = UMax" using I(1) by (simp add: token_at_def)
  have e: "st = []" "b = []" "\<And>w. d w = []" using I(4) m ow q by (simp_all add: chains_at_def)
  have g: "gone s d = set (dropped s)" using e(3) by (simp add: gone_def)
  have "filter (\<lambda>j. j \<notin> set (dropped s)) (submitted s) = called s"
    using I(5) e unfolding order_at_def g by simp
  moreover have "mset (filter (\<lambda>j. j \<in> set (dropped s)) (submitted s)) = mset (dropped s)"
    using I(5) unfolding order_at_def g
    by (intro set_eq_iff_mset_eq_distinct [THEN iffD1]) (auto intro!: distinct_filter)
  ultimately have "mset (submitted s) = mset (called s) + mset (dropped s)"
    using multiset_partition [of "mset (submitted s)" "\<lambda>j. j \<in> set (dropped s)"]
    by (simp flip: mset_filter add: add.commute)
  with m ow q I(3) show ?thesis by (simp add: refs_at_def)
qed

lemma queued_ready:
  assumes inv: "strand_inv_at s ow st b d" and p: "0 < pend s"
  shows "pend s = 1 \<and> (\<exists>a h r st. jobs s = UAt a \<and> reverse_loop (jnext s) a None = Some (h, r)
      \<and> nlist (jnext s) (Some a) st \<and> nlist h (Some r) (rev st))"
proof -
  note I = inv_parts [OF inv]
  have "pend s = 1" using I(1) p by (auto simp: token_at_def split: if_splits)
  moreover obtain a where a: "jobs s = UAt a" using take_queued(2) [OF inv p] by blast
  moreover have "nlist (jnext s) (Some a) st" using I(4) a by (auto simp: chains_at_def)
  ultimately show ?thesis using take_reverse [OF inv a] by blast
qed

text \<open>C6: no job is lost and none waits for ever: when nobody is left who could run the strand
  (no thread between its exchange and its submission, nothing pending in the inner executor, all
  workers back), the word is the mark and every job published was called or dropped; as long as the
  strand is pending, it can be called: the stack is not empty, its reversal terminates and yields
  the jobs in the order of submission.\<close>

theorem strand_no_lost_job:
  assumes "strand_reach s"
  shows "((\<forall>t. subs s t \<noteq> SubWin \<and> subs s t \<noteq> SubRef) \<and> pend s = 0 \<and> (\<forall>w. work s w = WIdle) \<longrightarrow>
      jobs s = UMax \<and> mset (submitted s) = mset (called s) + mset (dropped s) \<and> refs s = ext s)
    \<and> (0 < pend s \<longrightarrow> pend s = 1 \<and> (\<exists>a h r st. jobs s = UAt a \<and> reverse_loop (jnext s) a None = Some (h, r)
      \<and> nlist (jnext s) (Some a) st \<and> nlist h (Some r) (rev st)))"
  using strand_reach_inv [OF assms] quiet_done queued_ready unfolding strand_inv_def by metis

theorem strand_no_lost_job_witness:
  "jobs demo_done = UMax \<and> mset (submitted demo_done) = mset (called demo_done) + mset (dropped demo_done)"
  using strand_no_lost_job [OF demo_done_reach] by (simp add: demo_done_def strand_new_def)

text \<open>the strand is alive as long as it is needed: while a thread, the executor or a worker
  has still to touch it, its count is positive, so the destructor runs on an idle strand only, and the
  debug check of the destructor (the word is the mark) cannot fail.\<close>

lemma strand_alive:
  assumes "strand_reach s" and "refs s = 0"
  shows "jobs s = UMax \<and> pend s = 0 \<and> (\<forall>w. work s w = WIdle) \<and> (\<forall>t. subs s t = SubIdle)"
proof -
  obtain ow st b d where inv: "strand_inv_at s ow st b d"
    using strand_reach_inv [OF assms(1)] by (auto simp: strand_inv_def)
  note I = inv_parts [OF inv]
  have fin: "finite {w. work s w \<noteq> WIdle}" using I(3) by (simp add: refs_at_def)
  have z: "ext s = 0" "card {w. releasing (work s w)} = 0"
    using I(3) assms(2) by (simp_all add: refs_at_def)
  have subs: "subs s t = SubIdle" for t using I(3) z(1) by (simp add: refs_at_def)
  then have ow: "ow = Nobody"
    using I(1,3) assms(2) unfolding token_at_def refs_at_def by (cases ow) auto
  have "work s w = WIdle" for w
  proof -
    have "\<not> running (work s w)" using I(1) ow by (simp add: token_at_def)
    moreover have "\<not> releasing (work s w)" using releasing_pos [OF fin, of w] z(2) by auto
    ultimately show ?thesis by (cases "work s w") auto
  qed
  then show ?thesis using I(1) ow subs by (simp add: token_at_def)
qed


end
