(* ===== verification/FairPool.thy ===== *)
theory FairPool
  imports Prelude
begin

section \<open>FairThreadPool\<close>

text \<open>
  \<open>src/runtime/fair_thread_pool.cpp\<close>. All state is protected by the mutex \<open>_m\<close>, so a step is one
  critical section, written as a function, and between critical sections a thread is at a program
  counter. The condition variable is the set of workers that wait: \<open>notify_one\<close> wakes one of
  them if there is one, \<open>notify_all\<close> every one, and a worker may wake for no reason. \<open>_jobs\<close> is the
  abstract value of the intrusive list, as its operations refine it (theory Intrusive).
\<close>

subsection \<open>State and critical sections\<close>

text \<open>
  A worker before it gets the mutex (at the start of \<open>Loop\<close> or after a wake-up), inside
  \<open>job.Call()\<close>, before it gets the mutex after the call, waiting on \<open>_idle\<close>, before the
  \<open>notify_all\<close> of its own \<open>Stop\<close>, and returned.
\<close>

datatype worker = PTop | PRun nat | PDone | PWait | PNotify | PExit

text \<open>
  A client thread between critical sections: idle, before \<open>notify_one\<close>, before \<open>notify_all\<close> with the
  jobs that \<open>HardStop\<close> detached, and in the loop that drops jobs.
\<close>

datatype client = CIdle | CNotifyOne | CNotifyAll "nat list" | CDrop "nat list"

text \<open>
  \<open>pjobs\<close> and \<open>pcount\<close> are \<open>_jobs\<close> and \<open>_jobs_count\<close>. The rest is history: the jobs accepted, in
  order, those refused, those detached by \<open>HardStop\<close>, those popped, called and dropped.
\<close>

record pool =
  pjobs :: "nat list"
  pcount :: u64
  workers :: "worker list"
  clients :: "client list"
  accepted :: "nat list"
  rejected :: "nat list"
  taken :: "nat list"
  started :: "nat list"
  pcalled :: "nat list"
  pdropped :: "nat list"

definition FairThreadPool_new :: "nat \<Rightarrow> nat \<Rightarrow> pool" where
  "FairThreadPool_new threads n = \<lparr>pjobs = [], pcount = 0, workers = replicate threads PTop,
     clients = replicate n CIdle, accepted = [], rejected = [], taken = [], started = [],
     pcalled = [], pdropped = []\<rparr>"

definition WasStop :: "pool \<Rightarrow> bool" where
  "WasStop p \<longleftrightarrow> and (pcount p) 1 \<noteq> 0"

definition WantStop :: "pool \<Rightarrow> bool" where
  "WantStop p \<longleftrightarrow> and (pcount p) 2 \<noteq> 0"

definition NoJobs :: "pool \<Rightarrow> bool" where
  "NoJobs p \<longleftrightarrow> drop_bit 2 (pcount p) = 0"

definition Alive :: "pool \<Rightarrow> bool" where
  "Alive p \<longleftrightarrow> \<not> WasStop p"

definition FairThreadPool_Stop_locked :: "pool \<Rightarrow> pool" where
  "FairThreadPool_Stop_locked p = p\<lparr>pcount := or (pcount p) 1\<rparr>"

definition FairThreadPool_Submit :: "nat \<Rightarrow> pool \<Rightarrow> pool \<times> client" where
  "FairThreadPool_Submit j p =
     (if WasStop p then (p\<lparr>rejected := rejected p @ [j]\<rparr>, CDrop [j])
      else (p\<lparr>pjobs := pjobs p @ [j], pcount := pcount p + 4, accepted := accepted p @ [j]\<rparr>, CNotifyOne))"

definition FairThreadPool_SoftStop :: "pool \<Rightarrow> pool \<times> client" where
  "FairThreadPool_SoftStop p = (if NoJobs p then (FairThreadPool_Stop_locked p, CNotifyAll []) else (p\<lparr>pcount := or (pcount p) 2\<rparr>, CIdle))"

definition FairThreadPool_Stop :: "pool \<Rightarrow> pool \<times> client" where
  "FairThreadPool_Stop p = (FairThreadPool_Stop_locked p, CNotifyAll [])"

definition FairThreadPool_HardStop :: "pool \<Rightarrow> pool \<times> client" where
  "FairThreadPool_HardStop p = (let jobs = pjobs p
     in (FairThreadPool_Stop_locked (p\<lparr>pjobs := [], taken := taken p @ jobs\<rparr>), CNotifyAll jobs))"

text \<open>
  One turn of \<open>Loop\<close> with the mutex held, up to where it is released: by popping a job, by the
  stop of a worker that finds nothing left, by returning, or by waiting.
\<close>

definition FairThreadPool_Loop_turn :: "pool \<Rightarrow> pool \<times> worker" where
  "FairThreadPool_Loop_turn p =
     (case pjobs p of
        j # js \<Rightarrow> (p\<lparr>pjobs := js, started := started p @ [j]\<rparr>, PRun j)
      | [] \<Rightarrow> if NoJobs p \<and> WantStop p then (FairThreadPool_Stop_locked p, PNotify)
             else if WasStop p then (p, PExit)
             else (p, PWait))"

text \<open>\<open>notify_all\<close> makes every waiting worker ask for the mutex again.\<close>

definition wake :: "worker \<Rightarrow> worker" where
  "wake w = (if w = PWait then PTop else w)"

inductive pool_step :: "pool \<Rightarrow> pool \<Rightarrow> bool" where
  client_submit: "c < length (clients p) \<Longrightarrow> clients p ! c = CIdle \<Longrightarrow> FairThreadPool_Submit j p = (q, pc) \<Longrightarrow>
     pool_step p (q\<lparr>clients := (clients q)[c := pc]\<rparr>)"
| client_soft: "c < length (clients p) \<Longrightarrow> clients p ! c = CIdle \<Longrightarrow> FairThreadPool_SoftStop p = (q, pc) \<Longrightarrow>
     pool_step p (q\<lparr>clients := (clients q)[c := pc]\<rparr>)"
| client_stop: "c < length (clients p) \<Longrightarrow> clients p ! c = CIdle \<Longrightarrow> FairThreadPool_Stop p = (q, pc) \<Longrightarrow>
     pool_step p (q\<lparr>clients := (clients q)[c := pc]\<rparr>)"
| client_hard: "c < length (clients p) \<Longrightarrow> clients p ! c = CIdle \<Longrightarrow> FairThreadPool_HardStop p = (q, pc) \<Longrightarrow>
     pool_step p (q\<lparr>clients := (clients q)[c := pc]\<rparr>)"
| notify_one: "c < length (clients p) \<Longrightarrow> clients p ! c = CNotifyOne \<Longrightarrow>
     w < length (workers p) \<Longrightarrow> workers p ! w = PWait \<Longrightarrow>
     pool_step p (p\<lparr>clients := (clients p)[c := CIdle], workers := (workers p)[w := PTop]\<rparr>)"
| notify_none: "c < length (clients p) \<Longrightarrow> clients p ! c = CNotifyOne \<Longrightarrow> PWait \<notin> set (workers p) \<Longrightarrow>
     pool_step p (p\<lparr>clients := (clients p)[c := CIdle]\<rparr>)"
| notify_all: "c < length (clients p) \<Longrightarrow> clients p ! c = CNotifyAll js \<Longrightarrow>
     pool_step p (p\<lparr>clients := (clients p)[c := CDrop js], workers := map wake (workers p)\<rparr>)"
| client_drop: "c < length (clients p) \<Longrightarrow> clients p ! c = CDrop (j # js) \<Longrightarrow>
     pool_step p (p\<lparr>clients := (clients p)[c := CDrop js], pdropped := pdropped p @ [j]\<rparr>)"
| client_end: "c < length (clients p) \<Longrightarrow> clients p ! c = CDrop [] \<Longrightarrow>
     pool_step p (p\<lparr>clients := (clients p)[c := CIdle]\<rparr>)"
| worker_turn: "w < length (workers p) \<Longrightarrow> workers p ! w = PTop \<Longrightarrow> FairThreadPool_Loop_turn p = (q, pc) \<Longrightarrow>
     pool_step p (q\<lparr>workers := (workers q)[w := pc]\<rparr>)"
| worker_call: "w < length (workers p) \<Longrightarrow> workers p ! w = PRun j \<Longrightarrow>
     pool_step p (p\<lparr>pcalled := pcalled p @ [j], workers := (workers p)[w := PDone]\<rparr>)"
| worker_again: "w < length (workers p) \<Longrightarrow> workers p ! w = PDone \<Longrightarrow>
     FairThreadPool_Loop_turn (p\<lparr>pcount := pcount p - 4\<rparr>) = (q, pc) \<Longrightarrow>
     pool_step p (q\<lparr>workers := (workers q)[w := pc]\<rparr>)"
| worker_notify: "w < length (workers p) \<Longrightarrow> workers p ! w = PNotify \<Longrightarrow>
     pool_step p (p\<lparr>workers := (map wake (workers p))[w := PExit]\<rparr>)"
| worker_spurious: "w < length (workers p) \<Longrightarrow> workers p ! w = PWait \<Longrightarrow>
     pool_step p (p\<lparr>workers := (workers p)[w := PTop]\<rparr>)"

inductive pool_reach :: "pool \<Rightarrow> bool" where
  pool_init: "pool_reach (FairThreadPool_new threads n)"
| pool_next: "pool_reach p \<Longrightarrow> pool_step p q \<Longrightarrow> pool_reach q"

text \<open>\<open>Wait\<close> joins every worker: it returns in the states where all of them have returned.\<close>

definition Wait_returns :: "pool \<Rightarrow> bool" where
  "Wait_returns p \<longleftrightarrow> set (workers p) \<subseteq> {PExit}"

subsection \<open>The invariant\<close>

fun busy :: "worker \<Rightarrow> nat" where
  "busy (PRun j) = 1"
| "busy PDone = 1"
| "busy _ = 0"

fun in_call :: "worker \<Rightarrow> nat multiset" where
  "in_call (PRun j) = {#j#}"
| "in_call _ = {#}"

fun to_drop :: "client \<Rightarrow> nat multiset" where
  "to_drop (CNotifyAll js) = mset js"
| "to_drop (CDrop js) = mset js"
| "to_drop _ = {#}"

definition active :: "worker \<Rightarrow> bool" where
  "active w \<longleftrightarrow> w = PTop \<or> w = PDone \<or> (\<exists>j. w = PRun j)"

definition notifies :: "client \<Rightarrow> bool" where
  "notifies c \<longleftrightarrow> (\<exists>js. c = CNotifyAll js)"

definition total :: "pool \<Rightarrow> nat" where
  "total p = length (pjobs p) + length (taken p) + sum_list (map busy (workers p))"

text \<open>The counter: \<open>a\<close> and \<open>b\<close> are the flags for a wanted and for a performed stop.\<close>

definition count_inv :: "pool \<Rightarrow> bool \<Rightarrow> bool \<Rightarrow> bool" where
  "count_inv p a b \<longleftrightarrow> unat (pcount p) = 4 * total p + 2 * of_bool a + of_bool b
     \<and> (a \<and> \<not> b \<longrightarrow> total p \<noteq> 0)"

definition hist_inv :: "pool \<Rightarrow> bool" where
  "hist_inv p \<longleftrightarrow> accepted p = started p @ taken p @ pjobs p
     \<and> mset (started p) = mset (pcalled p) + sum_list (map in_call (workers p))
     \<and> mset (rejected p) + mset (taken p) = mset (pdropped p) + sum_list (map to_drop (clients p))
     \<and> sum_list (map busy (workers p)) \<le> length (started p)"

definition stop_inv :: "pool \<Rightarrow> bool \<Rightarrow> bool" where
  "stop_inv p b \<longleftrightarrow> (taken p \<noteq> [] \<longrightarrow> b \<and> pjobs p = [])
     \<and> (rejected p \<noteq> [] \<longrightarrow> b)
     \<and> (PNotify \<in> set (workers p) \<or> PExit \<in> set (workers p) \<longrightarrow> b \<and> pjobs p = [])
     \<and> (pjobs p \<noteq> [] \<and> workers p \<noteq> [] \<longrightarrow>
          (\<exists>w \<in> set (workers p). active w) \<or> (\<exists>c \<in> set (clients p). c = CNotifyOne \<or> notifies c))
     \<and> (b \<and> PWait \<in> set (workers p) \<longrightarrow>
          PNotify \<in> set (workers p) \<or> (\<exists>c \<in> set (clients p). notifies c))"

definition pool_inv :: "pool \<Rightarrow> bool" where
  "pool_inv p \<longleftrightarrow> (\<exists>a b. count_inv p a b \<and> hist_inv p \<and> stop_inv p b)"

lemma pool_flags:
  assumes "count_inv p a b"
  shows "WasStop p = b" "WantStop p = a" "NoJobs p \<longleftrightarrow> total p = 0"
  using flag_bits(1-3) assms unfolding count_inv_def WasStop_def WantStop_def NoJobs_def by blast+

lemma pool_inv_new: "pool_inv (FairThreadPool_new threads n)"
proof -
  have "count_inv (FairThreadPool_new threads n) False False"
    by (simp add: count_inv_def FairThreadPool_new_def total_def sum_list_replicate_zero)
  moreover have "hist_inv (FairThreadPool_new threads n)"
    by (simp add: hist_inv_def FairThreadPool_new_def sum_list_replicate_zero)
  moreover have "stop_inv (FairThreadPool_new threads n) False"
    by (auto simp: stop_inv_def FairThreadPool_new_def)
  ultimately show ?thesis unfolding pool_inv_def by blast
qed

text \<open>How a critical section moves the counter; additions do not wrap below \<open>2 ^ 62\<close> jobs.\<close>

lemma total_le:
  "hist_inv p \<Longrightarrow> total p \<le> length (accepted p)"
  by (simp add: hist_inv_def total_def)

lemma count_stop:
  assumes "count_inv p a b" "total q = total p" "pcount q = or (pcount p) 1"
  shows "count_inv q a True"
  using flag_bits(4) [of "pcount p" "total p" a b] assms by (simp add: count_inv_def)

lemma count_want:
  assumes "count_inv p a b" "total q = total p" "pcount q = or (pcount p) 2" "\<not> NoJobs p"
  shows "count_inv q True b"
  using flag_bits(5) [of "pcount p" "total p" a b] pool_flags(3) [OF assms(1)] assms
  by (simp add: count_inv_def)

lemma count_add:
  assumes "count_inv p a b" "total q = total p + 1" "pcount q = pcount p + 4" "total q < 2 ^ 62"
  shows "count_inv q a b"
proof -
  have "unat (pcount p) + 4 < 2 ^ 64"
    using assms(1,2,4) unfolding count_inv_def by (cases a; cases b) auto
  then have "unat (pcount p + 4) = unat (pcount p) + 4"
    by (subst unat_plus_if') simp
  then show ?thesis using assms by (simp add: count_inv_def)
qed

lemma count_sub:
  assumes "count_inv p a b" "total p = total q + 1" "pcount q = pcount p - 4"
  shows "unat (pcount q) = 4 * total q + 2 * of_bool a + of_bool b"
proof -
  have "4 \<le> unat (pcount p)" using assms(1,2) by (simp add: count_inv_def)
  then have "unat (pcount p - 4) = unat (pcount p) - 4"
    by (subst unat_sub) (simp_all add: word_le_nat_alt)
  then show ?thesis using assms by (simp add: count_inv_def)
qed

lemma count_same:
  "count_inv p a b \<Longrightarrow> total q = total p \<Longrightarrow> pcount q = pcount p \<Longrightarrow> count_inv q a b"
  by (simp add: count_inv_def)

lemma wake_measures [simp]: "busy (wake w) = busy w" "in_call (wake w) = in_call w"
  "active w \<Longrightarrow> active (wake w)" "wake w \<noteq> PWait"
  "wake w = PNotify \<longleftrightarrow> w = PNotify" "wake w = PExit \<longleftrightarrow> w = PExit"
  by (cases w; simp add: wake_def active_def)+

lemma sum_wake [simp]: "sum_list (map busy (map wake ws)) = sum_list (map busy ws)"
  "sum_list (map in_call (map wake ws)) = sum_list (map in_call ws)"
  by (simp_all add: comp_def)

subsection \<open>Every step preserves the invariant\<close>

text \<open>
  A step of a client writes its entry of the table; what remains to drop and who still has to
  notify moves with it.
\<close>

lemma hist_client:
  assumes "hist_inv p" "c < length (clients p)" "clients q = (clients p)[c := pc]"
    "workers q = workers p" "accepted q = accepted p" "started q = started p" "taken q = taken p"
    "pjobs q = pjobs p" "pcalled q = pcalled p" "rejected q = rejected p"
    "mset (pdropped q) + to_drop pc = mset (pdropped p) + to_drop (clients p ! c)"
  shows "hist_inv q"
  using assms(1) balance_shift [OF assms(11) sum_list_step [OF assms(2)]]
  unfolding hist_inv_def by (simp add: assms(3-10))

lemma stop_client:
  assumes "stop_inv p b" "c < length (clients p)" "clients q = (clients p)[c := pc]"
    "workers q = workers p" "taken q = taken p" "pjobs q = pjobs p" "rejected q = rejected p"
    "clients p ! c \<noteq> CNotifyOne \<or> PWait \<notin> set (workers p)"
    "notifies (clients p ! c) \<Longrightarrow> notifies pc"
  shows "stop_inv q b"
proof -
  have 1: "\<exists>k \<in> set (clients q). notifies k" if "\<exists>k \<in> set (clients p). notifies k"
    unfolding assms(3) by (rule ex_update_keep [OF that assms(9,2)])
  have 2: "(\<exists>w \<in> set (workers p). active w) \<or> (\<exists>k \<in> set (clients q). k = CNotifyOne \<or> notifies k)"
    if that': "\<exists>k \<in> set (clients p). k = CNotifyOne \<or> notifies k" "pjobs p \<noteq> []" "workers p \<noteq> []"
  proof (cases "clients p ! c = CNotifyOne")
    case False
    then show ?thesis unfolding assms(3)
      using ex_update_keep [OF that'(1) _ assms(2), where x = pc] assms(9) by auto
  next
    case True
    obtain w where w: "w \<in> set (workers p)" using that'(3) by (cases "workers p") auto
    have "w \<noteq> PWait" "w \<noteq> PNotify" "w \<noteq> PExit"
      using assms(1,8) True w that'(2) unfolding stop_inv_def by auto
    then have "active w" by (cases w) (auto simp: active_def)
    with w show ?thesis by blast
  qed
  show ?thesis using assms(1) 1 2 unfolding stop_inv_def assms(4,5,6,7) by blast
qed

lemma total_client:
  "workers q = workers p \<Longrightarrow> taken q = taken p \<Longrightarrow> pjobs q = pjobs p \<Longrightarrow> total q = total p"
  by (simp add: total_def)

lemma inv_client:
  assumes inv: "pool_inv p" and c: "c < length (clients p)"
    and q: "q = p\<lparr>clients := (clients p)[c := pc], pdropped := ds\<rparr>"
    and "mset ds + to_drop pc = mset (pdropped p) + to_drop (clients p ! c)"
    and "clients p ! c \<noteq> CNotifyOne \<or> PWait \<notin> set (workers p)"
    and "notifies (clients p ! c) \<Longrightarrow> notifies pc"
  shows "pool_inv q"
proof -
  obtain a b where I: "count_inv p a b" "hist_inv p" "stop_inv p b"
    using inv by (auto simp: pool_inv_def)
  have "count_inv q a b" by (rule count_same [OF I(1)]) (simp_all add: q total_def)
  moreover have "hist_inv q" by (rule hist_client [OF I(2) c, where pc = pc]) (use assms(4) in \<open>simp_all add: q\<close>)
  moreover have "stop_inv q b" by (rule stop_client [OF I(3) c, where pc = pc]) (use assms(5,6) in \<open>simp_all add: q\<close>)
  ultimately show ?thesis unfolding pool_inv_def by blast
qed

lemma inv_client_pc:
  assumes "pool_inv p" "c < length (clients p)" "to_drop pc = to_drop (clients p ! c)"
    "clients p ! c \<noteq> CNotifyOne \<or> PWait \<notin> set (workers p)"
    "notifies (clients p ! c) \<Longrightarrow> notifies pc"
  shows "pool_inv (p\<lparr>clients := (clients p)[c := pc]\<rparr>)"
proof (rule inv_client [OF assms(1,2)])
  show "p\<lparr>clients := (clients p)[c := pc]\<rparr> = p\<lparr>clients := (clients p)[c := pc], pdropped := pdropped p\<rparr>"
    by (cases p) simp
qed (use assms in simp_all)

lemma inv_submit:
  assumes inv: "pool_inv p" and c: "c < length (clients p)" "clients p ! c = CIdle"
    and op: "FairThreadPool_Submit j p = (q0, pc)" and bound: "length (accepted q0) < 2 ^ 62"
  shows "pool_inv (q0\<lparr>clients := (clients q0)[c := pc]\<rparr>)"
proof -
  obtain a b where I: "count_inv p a b" "hist_inv p" "stop_inv p b"
    using inv by (auto simp: pool_inv_def)
  let ?q = "q0\<lparr>clients := (clients q0)[c := pc]\<rparr>"
  have S: "sum_list (map to_drop ((clients p)[c := x])) = sum_list (map to_drop (clients p)) + to_drop x" for x
    using sum_list_step [OF c(1), of to_drop x] c(2) by simp
  show ?thesis
  proof (cases "WasStop p")
    case True
    then have b: "b" using pool_flags(1) [OF I(1)] by simp
    have q: "?q = p\<lparr>rejected := rejected p @ [j], clients := (clients p)[c := CDrop [j]]\<rparr>"
      using op True by (auto simp: FairThreadPool_Submit_def)
    have "count_inv ?q a b" by (rule count_same [OF I(1)]) (simp_all add: q total_def)
    moreover have "hist_inv ?q" using I(2) unfolding hist_inv_def q by (simp add: S ac_simps)
    moreover have "stop_inv (?q\<lparr>rejected := rejected p\<rparr>) b"
      by (rule stop_client [OF I(3) c(1)]) (simp_all add: q c notifies_def)
    then have "stop_inv ?q b" using b unfolding stop_inv_def by simp
    ultimately show ?thesis unfolding pool_inv_def by blast
  next
    case False
    then have b: "\<not> b" using pool_flags(1) [OF I(1)] by simp
    have q: "?q = p\<lparr>pjobs := pjobs p @ [j], pcount := pcount p + 4, accepted := accepted p @ [j],
        clients := (clients p)[c := CNotifyOne]\<rparr>"
      using op False by (auto simp: FairThreadPool_Submit_def)
    have t: "taken p = []" using I(3) b by (auto simp: stop_inv_def)
    have h: "hist_inv ?q" using I(2) t unfolding hist_inv_def q by (simp add: S)
    have "accepted q0 = accepted ?q" by simp
    then have "total ?q < 2 ^ 62" using total_le [OF h] bound by simp
    then have "count_inv ?q a b"
      by (intro count_add [OF I(1)]) (simp_all add: q total_def)
    moreover have "\<exists>k \<in> set (clients ?q). k = CNotifyOne \<or> notifies k"
      unfolding q using c(1) by (simp add: ex_update_new)
    then have "stop_inv ?q b" using I(3) b unfolding stop_inv_def q by auto
    ultimately show ?thesis using h unfolding pool_inv_def by blast
  qed
qed

text \<open>The three ways to stop: the flag is set, and whoever set it will notify all.\<close>

lemma inv_stop_flag:
  assumes inv: "pool_inv p" and c: "c < length (clients p)" "clients p ! c = CIdle"
    and q: "q = (FairThreadPool_Stop_locked (p\<lparr>pjobs := kept, taken := taken p @ js\<rparr>))\<lparr>
      clients := (clients p)[c := CNotifyAll js]\<rparr>"
    and split: "js = [] \<and> kept = pjobs p \<or> js = pjobs p \<and> kept = []"
  shows "pool_inv q"
proof -
  obtain a b where I: "count_inv p a b" "hist_inv p" "stop_inv p b"
    using inv by (auto simp: pool_inv_def)
  have S: "sum_list (map to_drop ((clients p)[c := x])) = sum_list (map to_drop (clients p)) + to_drop x" for x
    using sum_list_step [OF c(1), of to_drop x] c(2) by simp
  note q = q [unfolded FairThreadPool_Stop_locked_def]
  have "count_inv q a True" by (rule count_stop [OF I(1)]) (use split in \<open>auto simp: q total_def\<close>)
  moreover have "hist_inv q" using I(2) split unfolding hist_inv_def q by (auto simp add: S ac_simps)
  moreover have "\<exists>k \<in> set (clients q). notifies k"
    unfolding q using c(1) by (simp add: ex_update_new notifies_def)
  then have "stop_inv q True" using I(3) split unfolding stop_inv_def q by auto
  ultimately show ?thesis unfolding pool_inv_def by blast
qed

lemma inv_stop:
  assumes "pool_inv p" "c < length (clients p)" "clients p ! c = CIdle"
  shows "pool_inv (p\<lparr>pcount := or (pcount p) 1, clients := (clients p)[c := CNotifyAll []]\<rparr>)"
  by (rule inv_stop_flag [OF assms, where kept = "pjobs p" and js = "[]"])
    (simp_all add: FairThreadPool_Stop_locked_def)

lemma inv_hard:
  assumes "pool_inv p" "c < length (clients p)" "clients p ! c = CIdle"
  shows "pool_inv (p\<lparr>pjobs := [], taken := taken p @ pjobs p, pcount := or (pcount p) 1,
    clients := (clients p)[c := CNotifyAll (pjobs p)]\<rparr>)"
  by (rule inv_stop_flag [OF assms, where kept = "[]" and js = "pjobs p"])
    (simp_all add: FairThreadPool_Stop_locked_def)

lemma inv_want:
  assumes inv: "pool_inv p" and c: "c < length (clients p)" "clients p ! c = CIdle" and n: "\<not> NoJobs p"
    and q: "q = p\<lparr>pcount := or (pcount p) 2, clients := (clients p)[c := CIdle]\<rparr>"
  shows "pool_inv q"
proof -
  obtain a b where I: "count_inv p a b" "hist_inv p" "stop_inv p b"
    using inv by (auto simp: pool_inv_def)
  have same: "(clients p)[c := CIdle] = clients p" using c(2) by (metis list_update_id)
  have "count_inv q True b" by (rule count_want [OF I(1) _ _ n]) (simp_all add: q total_def)
  moreover have "hist_inv q" using I(2) unfolding hist_inv_def q by (simp add: same)
  moreover have "stop_inv q b" using I(3) unfolding stop_inv_def q by (simp add: same)
  ultimately show ?thesis unfolding pool_inv_def by blast
qed

text \<open>Workers.\<close>

lemma hist_worker:
  assumes "hist_inv p" "w < length (workers p)" "workers q = (workers p)[w := pc]"
    "clients q = clients p" "accepted q = accepted p" "taken q = taken p" "rejected q = rejected p"
    "pdropped q = pdropped p" "pjobs q = pjobs p" "started q = started p" "pcalled q = pcalled p"
    "in_call pc = in_call (workers p ! w)" "busy pc \<le> busy (workers p ! w)"
  shows "hist_inv q"
proof -
  have "sum_list (map in_call ((workers p)[w := pc])) = sum_list (map in_call (workers p))"
    using sum_list_step [OF assms(2), of in_call pc] assms(12) by simp
  moreover have "sum_list (map busy ((workers p)[w := pc])) \<le> sum_list (map busy (workers p))"
    using sum_list_step [OF assms(2), of busy pc] assms(13) by linarith
  ultimately show ?thesis using assms(1) unfolding hist_inv_def by (simp add: assms(3-11))
qed

lemma total_worker:
  assumes "w < length (workers p)" "workers q = (workers p)[w := pc]" "taken q = taken p" "pjobs q = pjobs p"
  shows "total q + busy (workers p ! w) = total p + busy pc"
  using sum_list_step [OF assms(1), of busy pc] unfolding total_def assms(2-4) by simp

lemma stop_worker:
  assumes "stop_inv p b" "w < length (workers p)" "workers q = (workers p)[w := pc]"
    "clients q = clients p" "taken q = taken p" "rejected q = rejected p" "b \<longrightarrow> b'"
    "pjobs q = pjobs p" "active (workers p ! w) \<longrightarrow> active pc \<or> pjobs p = []"
    "workers p ! w = PNotify \<longrightarrow> pc = PNotify" "pc = PWait \<longrightarrow> \<not> b'"
    "pc = PNotify \<or> pc = PExit \<longrightarrow> b' \<and> pjobs p = []" "b' \<and> \<not> b \<longrightarrow> pc = PNotify"
  shows "stop_inv q b'"
proof -
  note ws = assms(3) and w = assms(2)
  have sub: "\<And>y. y \<in> set (workers q) \<Longrightarrow> y = pc \<or> y \<in> set (workers p)"
    unfolding ws by (rule mem_updateD)
  have act: "\<exists>y \<in> set (workers q). active y"
    if "\<exists>y \<in> set (workers p). active y" "pjobs p \<noteq> []"
    unfolding ws using that assms(9) by (intro ex_update_keep [OF that(1) _ w]) blast
  have "\<exists>y \<in> set (workers q). y = PNotify" if "\<exists>y \<in> set (workers p). y = PNotify"
    unfolding ws using assms(10) by (intro ex_update_keep [OF that _ w]) blast
  then have nt: "PNotify \<in> set (workers p) \<Longrightarrow> PNotify \<in> set (workers q)" by blast
  have new: "pc \<in> set (workers q)" unfolding ws by (rule set_update_memI [OF w])
  have ne: "workers q \<noteq> [] \<longleftrightarrow> workers p \<noteq> []" unfolding ws by simp
  have "b' \<Longrightarrow> \<not> b \<Longrightarrow> PNotify \<in> set (workers q)" using new assms(13) by auto
  then show ?thesis
    using assms(1) sub act nt new ne assms(7,11,12) unfolding stop_inv_def assms(4-6,8) by metis
qed

lemma stop_wake:
  assumes "stop_inv p b" "workers q = map wake (workers p)"
    "clients q = clients p" "taken q = taken p" "rejected q = rejected p" "pjobs q = pjobs p"
  shows "stop_inv q b"
proof -
  have "PWait \<notin> set (workers q)" unfolding assms(2) by (auto dest: sym)
  moreover have "PNotify \<in> set (workers q) \<longleftrightarrow> PNotify \<in> set (workers p)"
    "PExit \<in> set (workers q) \<longleftrightarrow> PExit \<in> set (workers p)"
    unfolding assms(2) by (auto simp: image_iff wake_def)
  moreover have "(\<exists>w \<in> set (workers q). active w)" if "\<exists>w \<in> set (workers p). active w"
    using that wake_measures(3) unfolding assms(2) by (metis image_eqI list.set_map)
  moreover have "workers q \<noteq> [] \<longleftrightarrow> workers p \<noteq> []" unfolding assms(2) by simp
  ultimately show ?thesis using assms(1) unfolding stop_inv_def assms(3-6) by metis
qed

lemma inv_quiet_turn:
  assumes "unat (pcount p) = 4 * total p + 2 * of_bool a + of_bool b" "hist_inv p" "stop_inv p b"
    and w: "w < length (workers p)" "workers p ! w = PTop" and empty: "pjobs p = []"
    and op: "FairThreadPool_Loop_turn p = (q0, pc)"
  shows "pool_inv (q0\<lparr>workers := (workers q0)[w := pc]\<rparr>)"
proof -
  let ?q = "q0\<lparr>workers := (workers q0)[w := pc]\<rparr>"
  have fl: "WasStop p = b" "WantStop p = a" "NoJobs p \<longleftrightarrow> total p = 0"
    using flag_bits(1-3) [OF assms(1)] by (simp_all add: WasStop_def WantStop_def NoJobs_def)
  consider (stop) "total p = 0" a | (exit) "total p \<noteq> 0 \<or> \<not> a" b | (wait) "total p \<noteq> 0 \<or> \<not> a" "\<not> b"
    by blast
  then show ?thesis
  proof cases
    case stop
    then have q: "?q = p\<lparr>pcount := or (pcount p) 1, workers := (workers p)[w := PNotify]\<rparr>"
      using op empty fl by (auto simp: FairThreadPool_Loop_turn_def FairThreadPool_Stop_locked_def)
    have "total ?q = total p"
      using total_worker [OF w(1), of ?q PNotify] unfolding q by (simp add: w)
    then have "count_inv ?q a True"
      using flag_bits(4) [OF assms(1)] unfolding count_inv_def q by simp
    moreover have "hist_inv ?q" by (rule hist_worker [OF assms(2) w(1), where pc = PNotify]) (simp_all add: q w)
    moreover have "stop_inv ?q True"
      by (rule stop_worker [OF assms(3) w(1), where pc = PNotify]) (simp_all add: q w empty)
    ultimately show ?thesis unfolding pool_inv_def by blast
  next
    case exit
    then have q: "?q = p\<lparr>workers := (workers p)[w := PExit]\<rparr>"
      using op empty fl by (auto simp: FairThreadPool_Loop_turn_def)
    have "total ?q = total p"
      using total_worker [OF w(1), of ?q PExit] unfolding q by (simp add: w)
    then have "count_inv ?q a b" using assms(1) exit unfolding count_inv_def q by simp
    moreover have "hist_inv ?q" by (rule hist_worker [OF assms(2) w(1), where pc = PExit]) (simp_all add: q w)
    moreover have "stop_inv ?q b"
      by (rule stop_worker [OF assms(3) w(1), where pc = PExit]) (use exit in \<open>simp_all add: q w empty\<close>)
    ultimately show ?thesis unfolding pool_inv_def by blast
  next
    case wait
    then have q: "?q = p\<lparr>workers := (workers p)[w := PWait]\<rparr>"
      using op empty fl by (auto simp: FairThreadPool_Loop_turn_def)
    have "total ?q = total p"
      using total_worker [OF w(1), of ?q PWait] unfolding q by (simp add: w)
    then have "count_inv ?q a b" using assms(1) wait unfolding count_inv_def q by auto
    moreover have "hist_inv ?q" by (rule hist_worker [OF assms(2) w(1), where pc = PWait]) (simp_all add: q w)
    moreover have "stop_inv ?q b"
      by (rule stop_worker [OF assms(3) w(1), where pc = PWait]) (use wait in \<open>simp_all add: q w empty\<close>)
    ultimately show ?thesis unfolding pool_inv_def by blast
  qed
qed

lemma inv_pop_turn:
  assumes "unat (pcount p) = 4 * total p + 2 * of_bool a + of_bool b" "hist_inv p" "stop_inv p b"
    and w: "w < length (workers p)" "workers p ! w = PTop" and js: "pjobs p = j # js"
    and op: "FairThreadPool_Loop_turn p = (q0, pc)"
  shows "pool_inv (q0\<lparr>workers := (workers q0)[w := pc]\<rparr>)"
proof -
  let ?q = "p\<lparr>pjobs := js, started := started p @ [j], workers := (workers p)[w := PRun j]\<rparr>"
  have q: "q0\<lparr>workers := (workers q0)[w := pc]\<rparr> = ?q"
    using op js by (auto simp: FairThreadPool_Loop_turn_def)
  have B: "sum_list (map busy ((workers p)[w := PRun j])) = sum_list (map busy (workers p)) + 1"
    using sum_list_step [OF w(1), of busy "PRun j"] w(2) by simp
  have C: "sum_list (map in_call ((workers p)[w := PRun j])) = sum_list (map in_call (workers p)) + {#j#}"
    using sum_list_step [OF w(1), of in_call "PRun j"] w(2) by simp
  have t: "taken p = []" using assms(3) js by (auto simp: stop_inv_def)
  have "total ?q = total p" unfolding total_def by (simp add: B js)
  moreover have "total ?q \<noteq> 0" unfolding total_def by (simp add: B)
  ultimately have "count_inv ?q a b" using assms(1) unfolding count_inv_def by simp
  moreover have "hist_inv ?q" using assms(2) t js unfolding hist_inv_def by (simp add: B C)
  moreover have "stop_inv ?q b"
  proof -
    have "stop_inv (p\<lparr>workers := (workers p)[w := PRun j]\<rparr>) b"
      by (rule stop_worker [OF assms(3) w(1), where pc = "PRun j"]) (simp_all add: w active_def)
    then show ?thesis using t js unfolding stop_inv_def by auto
  qed
  ultimately show ?thesis unfolding q pool_inv_def by blast
qed

lemma inv_worker_turn:
  assumes "pool_inv p" "w < length (workers p)" "workers p ! w = PTop"
    "FairThreadPool_Loop_turn p = (q0, pc)"
  shows "pool_inv (q0\<lparr>workers := (workers q0)[w := pc]\<rparr>)"
  using assms inv_quiet_turn [OF _ _ _ assms(2,3) _ assms(4)] inv_pop_turn [OF _ _ _ assms(2,3) _ assms(4)]
  unfolding pool_inv_def [of p] count_inv_def by (cases "pjobs p") blast+

lemma inv_worker_again:
  assumes inv: "pool_inv p" and w: "w < length (workers p)" "workers p ! w = PDone"
    and op: "FairThreadPool_Loop_turn (p\<lparr>pcount := pcount p - 4\<rparr>) = (q0, pc)"
  shows "pool_inv (q0\<lparr>workers := (workers q0)[w := pc]\<rparr>)"
proof -
  obtain a b where I: "count_inv p a b" "hist_inv p" "stop_inv p b"
    using inv by (auto simp: pool_inv_def)
  let ?p = "p\<lparr>pcount := pcount p - 4, workers := (workers p)[w := PTop]\<rparr>"
  obtain q1 where op1: "FairThreadPool_Loop_turn ?p = (q1, pc)"
      and q1: "q1\<lparr>workers := (workers q1)[w := pc]\<rparr> = q0\<lparr>workers := (workers q0)[w := pc]\<rparr>"
    using op by (auto simp: FairThreadPool_Loop_turn_def FairThreadPool_Stop_locked_def WasStop_def
        WantStop_def NoJobs_def split: list.splits if_splits)
  have "total p = total ?p + 1"
    using total_worker [OF w(1), of ?p PTop] by (simp add: w)
  then have c: "unat (pcount ?p) = 4 * total ?p + 2 * of_bool a + of_bool b"
    by (intro count_sub [OF I(1)]) simp_all
  have h: "hist_inv ?p" by (rule hist_worker [OF I(2) w(1), where pc = PTop]) (simp_all add: w)
  have s: "stop_inv ?p b"
    by (rule stop_worker [OF I(3) w(1), where pc = PTop]) (simp_all add: w active_def)
  have w': "w < length (workers ?p)" "workers ?p ! w = PTop" using w(1) by simp_all
  show ?thesis unfolding q1 [symmetric]
    using inv_quiet_turn [OF c h s w' _ op1] inv_pop_turn [OF c h s w' _ op1] by (cases "pjobs ?p") blast+
qed

lemma inv_worker_call:
  assumes inv: "pool_inv p" and w: "w < length (workers p)" "workers p ! w = PRun j"
    and q: "q = p\<lparr>pcalled := pcalled p @ [j], workers := (workers p)[w := PDone]\<rparr>"
  shows "pool_inv q"
proof -
  obtain a b where I: "count_inv p a b" "hist_inv p" "stop_inv p b"
    using inv by (auto simp: pool_inv_def)
  have B: "sum_list (map busy ((workers p)[w := PDone])) = sum_list (map busy (workers p))"
    using sum_list_step [OF w(1), of busy PDone] w(2) by simp
  have C: "sum_list (map in_call ((workers p)[w := PDone])) + {#j#} = sum_list (map in_call (workers p))"
    using sum_list_step [OF w(1), of in_call PDone] w(2) by simp
  have "count_inv q a b" by (rule count_same [OF I(1)]) (simp_all add: q total_def B)
  moreover have "hist_inv q" using I(2) unfolding hist_inv_def q by (simp add: B flip: C)
  moreover have "stop_inv q b"
    by (rule stop_worker [OF I(3) w(1), where pc = PDone]) (simp_all add: q w active_def)
  ultimately show ?thesis unfolding pool_inv_def by blast
qed

lemma inv_wake_one:
  assumes inv: "pool_inv p" and w: "w < length (workers p)" "workers p ! w = PWait"
    and q: "q = p\<lparr>workers := (workers p)[w := PTop]\<rparr>"
  shows "pool_inv q"
proof -
  obtain a b where I: "count_inv p a b" "hist_inv p" "stop_inv p b"
    using inv by (auto simp: pool_inv_def)
  have "total q = total p" using total_worker [OF w(1), of q PTop] by (simp add: q w)
  then have "count_inv q a b" by (intro count_same [OF I(1)]) (simp_all add: q)
  moreover have "hist_inv q" by (rule hist_worker [OF I(2) w(1), where pc = PTop]) (simp_all add: q w)
  moreover have "stop_inv q b"
    by (rule stop_worker [OF I(3) w(1), where pc = PTop]) (simp_all add: q w active_def)
  ultimately show ?thesis unfolding pool_inv_def by blast
qed

lemma inv_wake_all:
  assumes inv: "pool_inv p" and q: "q = p\<lparr>workers := map wake (workers p)\<rparr>"
  shows "pool_inv q" and "PWait \<notin> set (workers q)"
proof -
  obtain a b where I: "count_inv p a b" "hist_inv p" "stop_inv p b"
    using inv by (auto simp: pool_inv_def)
  have "count_inv q a b" by (rule count_same [OF I(1)]) (simp_all add: q total_def comp_def)
  moreover have "hist_inv q" using I(2) unfolding hist_inv_def q by (simp add: comp_def)
  moreover have "stop_inv q b" by (rule stop_wake [OF I(3)]) (simp_all add: q)
  ultimately show "pool_inv q" unfolding pool_inv_def by blast
  show "PWait \<notin> set (workers q)" by (auto simp: q dest: sym)
qed

text \<open>A notification by \<open>notify_one\<close> is spent: on a worker that is then awake, or on nobody.\<close>

lemma inv_notify_one:
  assumes inv: "pool_inv p" and c: "c < length (clients p)" "clients p ! c = CNotifyOne"
    and w: "w < length (workers p)" "workers p ! w = PWait"
    and q: "q = p\<lparr>clients := (clients p)[c := CIdle], workers := (workers p)[w := PTop]\<rparr>"
  shows "pool_inv q"
proof -
  let ?p = "p\<lparr>workers := (workers p)[w := PTop]\<rparr>"
  obtain a b where I: "count_inv ?p a b" "hist_inv ?p" "stop_inv ?p b"
    using inv_wake_one [OF inv w refl] by (auto simp: pool_inv_def)
  have "count_inv q a b" by (rule count_same [OF I(1)]) (simp_all add: q total_def)
  moreover have "hist_inv q"
    by (rule hist_client [OF I(2), where c = c and pc = CIdle]) (simp_all add: q c)
  moreover have "\<exists>y \<in> set (workers q). active y"
    unfolding q using w(1) by (simp add: ex_update_new active_def)
  moreover have "\<exists>k \<in> set (clients q). notifies k" if "\<exists>k \<in> set (clients p). notifies k"
    using ex_update_keep [OF that _ c(1), of CIdle] c(2) by (simp add: q notifies_def)
  ultimately have "stop_inv q b" using I(3) unfolding stop_inv_def by (auto simp: q)
  with \<open>count_inv q a b\<close> \<open>hist_inv q\<close> show ?thesis unfolding pool_inv_def by blast
qed

lemma inv_worker_notify:
  assumes inv: "pool_inv p" and w: "w < length (workers p)" "workers p ! w = PNotify"
    and q: "q = p\<lparr>workers := (map wake (workers p))[w := PExit]\<rparr>"
  shows "pool_inv q"
proof -
  let ?p = "p\<lparr>workers := map wake (workers p)\<rparr>"
  obtain a b where I: "count_inv ?p a b" "hist_inv ?p" "stop_inv ?p b"
    using inv_wake_all(1) [OF inv refl] by (auto simp: pool_inv_def)
  have w': "w < length (workers ?p)" "workers ?p ! w = PNotify" using w by (simp_all add: wake_def)
  have "total q = total ?p" using total_worker [OF w'(1), of q PExit] w by (simp add: q wake_def)
  then have "count_inv q a b" by (intro count_same [OF I(1)]) (simp_all add: q)
  moreover have "hist_inv q"
    by (rule hist_worker [OF I(2) w'(1), where pc = PExit]) (use w' in \<open>simp_all add: q\<close>)
  moreover have "stop_inv q b"
  proof -
    have "PNotify \<in> set (workers ?p)" using nth_mem [OF w'(1)] unfolding w'(2) .
    then have b: "b" "pjobs p = []" using I(3) unfolding stop_inv_def by simp_all
    have "PWait \<notin> set (workers q)"
      using mem_updateD [of PWait "map wake (workers p)" w PExit] wake_measures(4)
      by (auto simp: q dest: sym) (metis wake_measures(4))
    then show ?thesis using I(3) b unfolding stop_inv_def by (simp add: q)
  qed
  ultimately show ?thesis unfolding pool_inv_def by blast
qed

theorem pool_step_inv:
  assumes "pool_step p q" and "pool_inv p" and "length (accepted q) < 2 ^ 62"
  shows "pool_inv q"
  using assms
proof (induction rule: pool_step.induct)
  case (client_submit c p j q pc)
  then show ?case using inv_submit by simp
next
  case (client_soft c p q pc)
  then show ?case
    using inv_stop [of p c] inv_want [of p c]
    by (auto simp: FairThreadPool_SoftStop_def FairThreadPool_Stop_locked_def split: if_splits)
next
  case (client_stop c p q pc)
  then show ?case
    using inv_stop [of p c] by (auto simp: FairThreadPool_Stop_def FairThreadPool_Stop_locked_def)
next
  case (client_hard c p q pc)
  then show ?case
    using inv_hard [of p c] by (auto simp: FairThreadPool_HardStop_def FairThreadPool_Stop_locked_def Let_def)
next
  case (notify_one c p w)
  then show ?case using inv_notify_one by simp
next
  case (notify_none c p)
  then show ?case
    by (intro inv_client_pc) (simp_all add: notifies_def)
next
  case (notify_all c p js)
  let ?p = "p\<lparr>workers := map wake (workers p)\<rparr>"
  obtain a b where I: "count_inv ?p a b" "hist_inv ?p" "stop_inv ?p b"
    using inv_wake_all(1) [OF notify_all(3) refl] by (auto simp: pool_inv_def)
  let ?q = "p\<lparr>clients := (clients p)[c := CDrop js], workers := map wake (workers p)\<rparr>"
  have "count_inv ?q a b" by (rule count_same [OF I(1)]) (simp_all add: total_def comp_def)
  moreover have "hist_inv ?q"
    by (rule hist_client [OF I(2), where c = c and pc = "CDrop js"]) (use notify_all in simp_all)
  moreover have "stop_inv ?q b"
  proof -
    have nw: "PWait \<notin> set (workers ?q)" using inv_wake_all(2) [OF notify_all(3) refl] by simp
    have "\<exists>w \<in> set (workers ?q). active w" if js': "pjobs p \<noteq> []" "workers p \<noteq> []"
    proof -
      obtain w where w: "w \<in> set (workers ?q)" using js'(2) by (cases "workers p") auto
      have "PNotify \<notin> set (workers ?q) \<and> PExit \<notin> set (workers ?q)"
        using I(3) js'(1) unfolding stop_inv_def by auto
      then have "w \<noteq> PWait" "w \<noteq> PNotify" "w \<noteq> PExit" using w nw by metis+
      then have "active w" by (cases w) (auto simp: active_def)
      with w show ?thesis by blast
    qed
    then show ?thesis using I(3) nw unfolding stop_inv_def by auto
  qed
  ultimately show ?case unfolding pool_inv_def by blast
next
  case (client_drop c p j js)
  show ?case
    by (rule inv_client [OF client_drop(3,1), where pc = "CDrop js" and ds = "pdropped p @ [j]"])
      (simp_all add: client_drop notifies_def)
next
  case (client_end c p)
  then show ?case
    by (intro inv_client_pc) (simp_all add: notifies_def)
next
  case (worker_turn w p q pc)
  then show ?case using inv_worker_turn by blast
next
  case (worker_call w p j)
  then show ?case using inv_worker_call by blast
next
  case (worker_again w p q pc)
  then show ?case using inv_worker_again by blast
next
  case (worker_notify w p)
  then show ?case using inv_worker_notify by blast
next
  case (worker_spurious w p)
  then show ?case using inv_wake_one by blast
qed

lemma accepted_grows: "pool_step p q \<Longrightarrow> length (accepted p) \<le> length (accepted q)"
  by (induction rule: pool_step.induct)
    (auto simp: FairThreadPool_Submit_def FairThreadPool_SoftStop_def FairThreadPool_Stop_def
      FairThreadPool_HardStop_def FairThreadPool_Stop_locked_def FairThreadPool_Loop_turn_def Let_def
      split: if_splits list.splits)

theorem pool_reach_inv: "pool_reach p \<Longrightarrow> length (accepted p) < 2 ^ 62 \<Longrightarrow> pool_inv p"
proof (induction rule: pool_reach.induct)
  case (pool_init threads n)
  show ?case by (rule pool_inv_new)
next
  case (pool_next p q)
  then have "length (accepted p) < 2 ^ 62" using accepted_grows [of p q] by linarith
  with pool_next show ?case using pool_step_inv by blast
qed

subsection \<open>What the pool guarantees\<close>

text \<open>
  A run for the witnesses: one worker and one client; the client submits the job 5 and asks for a
  soft stop, the worker calls the job, stops the pool, notifies and returns.
\<close>

definition pool_demo :: pool where
  "pool_demo = \<lparr>pjobs = [], pcount = 3, workers = [PExit], clients = [CIdle], accepted = [5],
     rejected = [], taken = [], started = [5], pcalled = [5], pdropped = []\<rparr>"

lemmas pool_op_defs = FairThreadPool_Submit_def FairThreadPool_SoftStop_def FairThreadPool_Stop_locked_def
  FairThreadPool_Loop_turn_def WasStop_def WantStop_def NoJobs_def

lemma pool_demo_reach: "pool_reach pool_demo"
proof -
  let ?p = "\<lambda>js n w c st ca. \<lparr>pjobs = js, pcount = n, workers = [w], clients = [c], accepted = [5],
     rejected = [], taken = [], started = st, pcalled = ca, pdropped = []\<rparr> :: pool"
  have "pool_reach (FairThreadPool_new 1 1)" by (rule pool_init)
  then have "pool_reach (?p [5] 4 PTop CNotifyOne [] [])"
    by (rule pool_next) (use client_submit [of 0 "FairThreadPool_new 1 1" 5 "?p [5] 4 PTop CIdle [] []" CNotifyOne]
        in \<open>simp add: FairThreadPool_new_def pool_op_defs\<close>)
  then have "pool_reach (?p [5] 4 PTop CIdle [] [])"
    by (rule pool_next) (use notify_none [of 0 "?p [5] 4 PTop CNotifyOne [] []"] in simp)
  then have "pool_reach (?p [] 4 (PRun 5) CIdle [5] [])"
    by (rule pool_next) (use worker_turn [of 0 "?p [5] 4 PTop CIdle [] []" "?p [] 4 PTop CIdle [5] []" "PRun 5"]
        in \<open>simp add: pool_op_defs\<close>)
  then have "pool_reach (?p [] 6 (PRun 5) CIdle [5] [])"
    by (rule pool_next) (use client_soft [of 0 "?p [] 4 (PRun 5) CIdle [5] []" "?p [] 6 (PRun 5) CIdle [5] []" CIdle]
        in \<open>simp add: pool_op_defs\<close>)
  then have "pool_reach (?p [] 6 PDone CIdle [5] [5])"
    by (rule pool_next) (use worker_call [of 0 "?p [] 6 (PRun 5) CIdle [5] []" 5] in simp)
  then have "pool_reach (?p [] 3 PNotify CIdle [5] [5])"
    by (rule pool_next) (use worker_again [of 0 "?p [] 6 PDone CIdle [5] [5]" "?p [] 3 PDone CIdle [5] [5]" PNotify]
        in \<open>simp add: pool_op_defs\<close>)
  then have "pool_reach (?p [] 3 PExit CIdle [5] [5])"
    by (rule pool_next) (use worker_notify [of 0 "?p [] 3 PNotify CIdle [5] [5]"] in simp)
  then show ?thesis by (simp add: pool_demo_def)
qed

text \<open>C9: the counter tells the truth: below \<open>2 ^ 62\<close> accepted jobs the 64-bit word
  \<open>_jobs_count\<close> is four times the number of jobs that are queued, being called or detached by
  a hard stop, plus the two flags, so no addition or subtraction wraps; and once a stop is wanted
  and no job is left, the stop has been performed.\<close>

theorem pool_count_exact:
  assumes "pool_reach p" and "length (accepted p) < 2 ^ 62"
  shows "unat (pcount p) = 4 * (length (pjobs p) + length (taken p) + sum_list (map busy (workers p)))
       + 2 * of_bool (WantStop p) + of_bool (WasStop p)
     \<and> (NoJobs p \<longleftrightarrow> length (pjobs p) + length (taken p) + sum_list (map busy (workers p)) = 0)
     \<and> (WantStop p \<and> NoJobs p \<longrightarrow> WasStop p)"
proof -
  obtain a b where c: "count_inv p a b" using pool_reach_inv [OF assms] by (auto simp: pool_inv_def)
  show ?thesis using c pool_flags [OF c] unfolding count_inv_def total_def by auto
qed

theorem pool_count_exact_witness: "WasStop pool_demo \<and> NoJobs pool_demo"
  using pool_count_exact [OF pool_demo_reach]
  by (simp add: pool_demo_def WantStop_def WasStop_def NoJobs_def)

text \<open>C7: the pool is fair and loses nothing: jobs start in the order of their submission;
  what was accepted is what was started, then what a hard stop detached, then the queue; each
  started job has been called once or is being called; each job refused or detached has been
  dropped once or is in the drop loop of its client; jobs are refused only after a stop.\<close>

theorem pool_fifo_once:
  assumes "pool_reach p" and "length (accepted p) < 2 ^ 62"
  shows "accepted p = started p @ taken p @ pjobs p
     \<and> mset (started p) = mset (pcalled p) + sum_list (map in_call (workers p))
     \<and> mset (rejected p) + mset (taken p) = mset (pdropped p) + sum_list (map to_drop (clients p))
     \<and> (rejected p \<noteq> [] \<or> taken p \<noteq> [] \<longrightarrow> WasStop p)"
proof -
  obtain a b where I: "count_inv p a b" "hist_inv p" "stop_inv p b"
    using pool_reach_inv [OF assms] by (auto simp: pool_inv_def)
  show ?thesis using I(2,3) pool_flags(1) [OF I(1)] unfolding hist_inv_def stop_inv_def by auto
qed

theorem pool_fifo_once_witness: "mset [5] = mset (pcalled pool_demo)"
  using pool_fifo_once [OF pool_demo_reach] by (simp add: pool_demo_def)

text \<open>C8: nothing is forgotten: a worker returns only after the stop and with an empty queue;
  a queued job of a pool with workers always has one that is awake or a notification under way, and after a stop no
  worker is left waiting unless a worker or a client is about to notify all of them. So when the clients are idle
  and the workers wait or have returned, the queue is empty, and if a stop was asked for, it has
  happened, every worker has returned and \<open>Wait\<close> joins them.\<close>

theorem pool_no_lost_wakeup:
  assumes "pool_reach p" and "length (accepted p) < 2 ^ 62"
  shows "(PExit \<in> set (workers p) \<longrightarrow> WasStop p \<and> pjobs p = [])
     \<and> (pjobs p \<noteq> [] \<and> workers p \<noteq> [] \<longrightarrow> (\<exists>w \<in> set (workers p). active w)
          \<or> (\<exists>c \<in> set (clients p). c = CNotifyOne \<or> notifies c))
     \<and> (WasStop p \<and> PWait \<in> set (workers p) \<longrightarrow>
          PNotify \<in> set (workers p) \<or> (\<exists>c \<in> set (clients p). notifies c))
     \<and> (set (clients p) \<subseteq> {CIdle} \<and> set (workers p) \<subseteq> {PWait, PExit} \<and> workers p \<noteq> [] \<longrightarrow>
          pjobs p = [] \<and> mset (started p) = mset (pcalled p)
          \<and> (WasStop p \<or> WantStop p \<longrightarrow> Wait_returns p))"
proof -
  obtain a b where I: "count_inv p a b" "hist_inv p" "stop_inv p b"
    using pool_reach_inv [OF assms] by (auto simp: pool_inv_def)
  note fl = pool_flags [OF I(1)]
  have quiet: "pjobs p = [] \<and> mset (started p) = mset (pcalled p) \<and> (WasStop p \<or> WantStop p \<longrightarrow> Wait_returns p)"
    if "set (clients p) \<subseteq> {CIdle}" and W: "set (workers p) \<subseteq> {PWait, PExit}" and "workers p \<noteq> []"
  proof -
    have z: "sum_list (map busy ws) = 0 \<and> sum_list (map in_call ws) = {#}" if "set ws \<subseteq> {PWait, PExit}" for ws
      using that by (induction ws) auto
    have na: "\<not> (\<exists>w \<in> set (workers p). active w)" "\<not> (\<exists>c \<in> set (clients p). c = CNotifyOne \<or> notifies c)"
      using that by (auto simp: active_def notifies_def)
    then have e: "pjobs p = []" using I(3) that(3) unfolding stop_inv_def by blast
    moreover have "mset (started p) = mset (pcalled p)" using I(2) z [OF W] by (simp add: hist_inv_def)
    moreover have "Wait_returns p" if s: "WasStop p \<or> WantStop p"
    proof -
      have "total p = length (taken p)" using e z [OF W] by (simp add: total_def)
      moreover have "taken p \<noteq> [] \<longrightarrow> b" using I(3) by (simp add: stop_inv_def)
      ultimately have b: b using s fl I(1) unfolding count_inv_def by auto
      have "PNotify \<notin> set (workers p)" using W by auto
      then have "PWait \<notin> set (workers p)" using b na(2) I(3) unfolding stop_inv_def by blast
      then show ?thesis using W by (auto simp: Wait_returns_def)
    qed
    ultimately show ?thesis by blast
  qed
  show ?thesis using I(3) fl(1) quiet unfolding stop_inv_def by auto
qed

theorem pool_no_lost_wakeup_witness: "pjobs pool_demo = [] \<and> Wait_returns pool_demo"
  using pool_no_lost_wakeup [OF pool_demo_reach] by (simp add: pool_demo_def WasStop_def)

end
