(* ===== verification/Cores.thy ===== *)
theory Cores
  imports Results "HOL-Library.Monad_Syntax"
begin

section \<open>Cores: the shared states of futures and how results run through them\<close>

text \<open>
  \<open>include/yaclib/algo/detail/\<close>: \<open>base_core.hpp\<close>, \<open>inline_core.hpp\<close>, \<open>result_core.hpp\<close>,
  \<open>unique_core.hpp\<close>, \<open>shared_core.hpp\<close>, \<open>core.hpp\<close>, \<open>promise_core.hpp\<close>, with
  \<open>src/algo/base_core.cpp\<close>, \<open>src/algo/drop_core.cpp\<close> and \<open>lazy/make.hpp\<close>. The model is a heap of
  cores and a machine that runs the virtual calls: a pending C++ activation that still has work to
  do is a frame, the stack of activations is a list of frames. An operation that touches a dead
  core, reads a result that is not there, breaks an assertion or is ill-typed is the value None.

  The callbacks of users are functions from the argument to what happens when they are called:
  they return a result, throw, or return a future or task whose core is already in the heap. The
  results are the sums that theory Results shows \<open>Result\<close> to implement.
\<close>

subsection \<open>Types\<close>

text \<open>\<open>Unit\<close> is the value of type \<open>void\<close>.\<close>

datatype 'v payload = Unit | Val 'v

type_synonym ('v, 'e) res = "'e exn + 'v payload"

definition stop_res :: "('v, 'e) res" where
  "stop_res = Inl (Exn 0 StopException)"

datatype ('v, 'e) outcome = Returns "('v, 'e) res" | Throws "'e exn" | Starts nat

text \<open>By what a callback can be invoked with: a \<open>Result\<close>, a value, an error, or nothing.\<close>

datatype ('v, 'e) callback =
    OnResult "('v, 'e) res \<Rightarrow> ('v, 'e) outcome"
  | OnValue "'v payload \<Rightarrow> ('v, 'e) outcome"
  | OnError "'e exn \<Rightarrow> ('v, 'e) outcome"
  | OnNothing "('v, 'e) outcome"

text \<open>What the body of an asynchronous contract does with the promise it is given.\<close>

datatype ('v, 'e) contract_body =
    SetsPromise "('v, 'e) res" | KeepsPromise | LosesPromise
  | ThrowsValid "'e exn" | ThrowsUsed "'e exn"

type_synonym core_type = "8 word"

definition ct_Run :: core_type where "ct_Run = 1"
definition ct_Detach :: core_type where "ct_Detach = 2"
definition ct_FromUnique :: core_type where "ct_FromUnique = 4"
definition ct_FromShared :: core_type where "ct_FromShared = 8"
definition ct_ToUnique :: core_type where "ct_ToUnique = 16"
definition ct_ToShared :: core_type where "ct_ToShared = 32"
definition ct_Call :: core_type where "ct_Call = 64"
definition ct_Lazy :: core_type where "ct_Lazy = 128"

definition ct_has :: "core_type \<Rightarrow> core_type \<Rightarrow> bool" where
  "ct_has f ty \<longleftrightarrow> and ty f \<noteq> 0"

text \<open>\<open>AsyncType\<close>, with \<open>is_task_v\<close> of the callback's result as a case of its own.\<close>

datatype async_kind = NotAsync | AsyncUnique | AsyncShared | AsyncTask

datatype core_kind = UniqueK | SharedK | NoResultK

text \<open>\<open>union { Result _result; Callback _self; }\<close>, whose result may have been moved from.\<close>

datatype ('v, 'e) storage = Raw | Self "nat option" nat | Full "('v, 'e) res" | Moved

text \<open>
  The dynamic class of a core: a plain \<open>UniqueCore\<close>/\<open>SharedCore\<close>, a \<open>Core\<close> with its functor
  (None when the functor storage is destroyed), a \<open>PromiseCore\<close>, a \<open>ReadyCore\<close>, the static \<open>Drop\<close>.
\<close>

datatype ('v, 'e) body =
    BResult
  | BCore core_type async_kind "('v, 'e) callback option"
  | BPromise "('v, 'e) contract_body option"
  | BReady
  | BDropCore

datatype exec = EInline | EInlineStop | EQueue nat

record ('v, 'e) core =
  kind :: core_kind
  body :: "('v, 'e) body"
  word :: "nat uptr"
  store :: "('v, 'e) storage"
  crefs :: nat
  executor :: "exec option"
  cnext :: "nat option"

text \<open>\<open>queue\<close> holds the jobs that executors with a queue have accepted and not yet run.\<close>

record ('v, 'e) world =
  heap :: "nat \<Rightarrow> ('v, 'e) core option"
  queue :: "(nat \<times> nat) list"

text \<open>
  The activations: \<open>FLoop prev curr\<close> is \<open>Loop\<close>, \<open>FList this head\<close> the walk over a shared core's
  callbacks, \<open>FDec\<close> a pending \<open>DecRef\<close>, \<open>FCall\<close> and \<open>FDrop\<close> the two calls of a job.
\<close>

datatype frame = FLoop nat "nat option" | FList nat nat | FDec nat | FCall nat | FDrop nat

type_synonym ('v, 'e) action = "('v, 'e) world \<times> frame list \<times> nat option"

subsection \<open>Heap access, reference counts and results\<close>

definition check :: "bool \<Rightarrow> unit option" where
  "check b = (if b then Some () else None)"

definition put :: "nat \<Rightarrow> ('v, 'e) core \<Rightarrow> ('v, 'e) world \<Rightarrow> ('v, 'e) world" where
  "put c k w = w\<lparr>heap := (heap w)(c := Some k)\<rparr>"

definition alloc :: "nat \<Rightarrow> ('v, 'e) core \<Rightarrow> ('v, 'e) world \<Rightarrow> ('v, 'e) world option" where
  "alloc c k w = do { check (heap w c = None); Some (put c k w) }"

definition core_IncRef :: "nat \<Rightarrow> ('v, 'e) world \<Rightarrow> ('v, 'e) world option" where
  "core_IncRef c w = do { k \<leftarrow> heap w c; Some (put c (k\<lparr>crefs := crefs k + 1\<rparr>) w) }"

text \<open>The destructor of a core with a result checks that it is ready, and destroys the result.\<close>

definition core_dtor_ok :: "('v, 'e) core \<Rightarrow> bool" where
  "core_dtor_ok k \<longleftrightarrow> kind k = NoResultK \<or> word k = UMax \<and> (store k = Moved \<or> (\<exists>r. store k = Full r))"

definition core_DecRef :: "nat \<Rightarrow> ('v, 'e) world \<Rightarrow> ('v, 'e) world option" where
  "core_DecRef c w = do {
     k \<leftarrow> heap w c;
     check (0 < crefs k);
     if crefs k = 1 then do { check (core_dtor_ok k); Some (w\<lparr>heap := (heap w)(c := None)\<rparr>) }
     else Some (put c (k\<lparr>crefs := crefs k - 1\<rparr>) w) }"

definition Store :: "nat \<Rightarrow> ('v, 'e) res \<Rightarrow> ('v, 'e) world \<Rightarrow> ('v, 'e) world option" where
  "Store c r w = do {
     k \<leftarrow> heap w c;
     Some (if kind k = NoResultK then w else put c (k\<lparr>store := Full r\<rparr>) w) }"

definition MoveOrConst :: "bool \<Rightarrow> nat \<Rightarrow> ('v, 'e) world \<Rightarrow> (('v, 'e) res \<times> ('v, 'e) world) option" where
  "MoveOrConst move c w = do {
     k \<leftarrow> heap w c;
     case store k of
       Full r \<Rightarrow> Some (r, if move then put c (k\<lparr>store := Moved\<rparr>) w else w)
     | _ \<Rightarrow> None }"

definition TransferExecutorTo :: "bool \<Rightarrow> nat \<Rightarrow> nat \<Rightarrow> ('v, 'e) world \<Rightarrow> ('v, 'e) world option" where
  "TransferExecutorTo shared c cb w = do {
     k \<leftarrow> heap w c; b \<leftarrow> heap w cb;
     case executor b of
       Some e \<Rightarrow> Some w
     | None \<Rightarrow> do {
         e \<leftarrow> executor k;
         Some (put cb (b\<lparr>executor := Some e\<rparr>)
           (if shared then w else put c (k\<lparr>executor := None\<rparr>) w)) } }"

definition Submit :: "exec option \<Rightarrow> nat \<Rightarrow> ('v, 'e) world \<Rightarrow> (('v, 'e) world \<times> frame list) option" where
  "Submit e c w = (case e of
       None \<Rightarrow> None
     | Some EInline \<Rightarrow> Some (w, [FCall c])
     | Some EInlineStop \<Rightarrow> Some (w, [FDrop c])
     | Some (EQueue q) \<Rightarrow> Some (w\<lparr>queue := queue w @ [(q, c)]\<rparr>, []))"

subsection \<open>The callback word\<close>

definition StoreCallbackImpl :: "nat \<Rightarrow> nat \<Rightarrow> ('v, 'e) world \<Rightarrow> ('v, 'e) world option" where
  "StoreCallbackImpl c cb w = do { k \<leftarrow> heap w c; Some (put c (k\<lparr>word := UAt cb\<rparr>) w) }"

definition SetCallbackImpl ::
    "bool \<Rightarrow> nat \<Rightarrow> nat \<Rightarrow> ('v, 'e) world \<Rightarrow> (bool \<times> ('v, 'e) world) option" where
  "SetCallbackImpl shared c cb w = do {
     k \<leftarrow> heap w c;
     if shared then
       (if word k = UMax then Some (False, w)
        else do {
          b \<leftarrow> heap w cb;
          let w' = put cb (b\<lparr>cnext := ptr_of (word k)\<rparr>) w;
          k' \<leftarrow> heap w' c;
          Some (True, put c (k'\<lparr>word := UAt cb\<rparr>) w') })
     else if word k = UZero then Some (True, put c (k\<lparr>word := UAt cb\<rparr>) w)
     else Some (False, w) }"

definition ResetImpl :: "nat \<Rightarrow> ('v, 'e) world \<Rightarrow> (bool \<times> ('v, 'e) world) option" where
  "ResetImpl c w = do {
     k \<leftarrow> heap w c;
     if word k = UMax then Some (False, w) else Some (True, put c (k\<lparr>word := UZero\<rparr>) w) }"

definition SetInlineImpl :: "bool \<Rightarrow> nat \<Rightarrow> nat \<Rightarrow> ('v, 'e) world \<Rightarrow> ('v, 'e) action option" where
  "SetInlineImpl shared c cb w = do {
     (ok, w') \<leftarrow> SetCallbackImpl shared c cb w;
     Some (w', [], if ok then None else Some cb) }"

definition SetResultImpl :: "nat \<Rightarrow> ('v, 'e) world \<Rightarrow> ('v, 'e) action option" where
  "SetResultImpl c w = do {
     k \<leftarrow> heap w c;
     check (word k \<noteq> UMax);
     let w' = put c (k\<lparr>word := UMax\<rparr>) w;
     if kind k = SharedK then
       Some (w', case word k of UAt h \<Rightarrow> [FList c h] | _ \<Rightarrow> [FDec c, FDec c, FDec c], None)
     else Some (w', [], ptr_of (word k)) }"

text \<open>\<open>Impl\<close> of a core without a functor: the result of the caller is copied or moved into it.\<close>

definition ResultCore_Impl :: "nat \<Rightarrow> nat \<Rightarrow> ('v, 'e) world \<Rightarrow> ('v, 'e) action option" where
  "ResultCore_Impl this caller w = do {
     k \<leftarrow> heap w caller;
     let ref = crefs k;
     if ref \<ge> 3 then do {
       (r, w) \<leftarrow> MoveOrConst False caller w;
       w \<leftarrow> Store this r w;
       SetResultImpl this w }
     else do {
       (r, w) \<leftarrow> MoveOrConst True caller w;
       w \<leftarrow> Store this r w;
       w \<leftarrow> (if ref = 1 then core_DecRef caller w else Some w);
       SetResultImpl this w } }"

subsection \<open>Core: running a continuation\<close>

definition self_caller :: "('v, 'e) core \<Rightarrow> nat option option" where
  "self_caller k = (case store k of Self p u \<Rightarrow> Some p | _ \<Rightarrow> None)"

text \<open>The five ordered actions of \<open>Done\<close>: the caller is read before \<open>Store\<close> overwrites it.\<close>

definition Done :: "bool \<Rightarrow> nat \<Rightarrow> ('v, 'e) res \<Rightarrow> ('v, 'e) world \<Rightarrow> ('v, 'e) action option" where
  "Done async this r w = do {
     k \<leftarrow> heap w this;
     case body k of
       BCore ty ka f \<Rightarrow> do {
         caller \<leftarrow> self_caller k;
         w \<leftarrow> Store this r w;
         w \<leftarrow> (if \<not> ct_has ct_Run ty \<and> (ct_has ct_FromUnique ty \<or> ct_has ct_Call ty \<or> ka \<noteq> NotAsync) \<or> async
               then do { c \<leftarrow> caller; core_DecRef c w } else Some w);
         w \<leftarrow> (if async then Some w
               else do { k \<leftarrow> heap w this; check (f \<noteq> None); Some (put this (k\<lparr>body := BCore ty ka None\<rparr>) w) });
         SetResultImpl this w }
     | _ \<Rightarrow> None }"

text \<open>The argument on its way to the functor: nothing, the whole result, its value or its error.\<close>

datatype ('v, 'e) arg = ANothing | AResult "('v, 'e) res" | AValue "'v payload" | AError "'e exn"

fun CallResolveVoid :: "('v, 'e) callback \<Rightarrow> ('v, 'e) arg \<Rightarrow> ('v, 'e) outcome option" where
  "CallResolveVoid (OnNothing out) x = Some out"
| "CallResolveVoid (OnResult f) (AResult r) = Some (f r)"
| "CallResolveVoid (OnValue f) (AValue v) = Some (f v)"
| "CallResolveVoid (OnError f) (AError e) = Some (f e)"
| "CallResolveVoid _ _ = None"

text \<open>\<open>MoveToCaller\<close>: to the first core of a lazy chain, unlinking it on the way.\<close>

partial_function (option) MoveToCaller ::
    "nat \<Rightarrow> ('v, 'e) world \<Rightarrow> (nat \<times> ('v, 'e) world) option" where
  "MoveToCaller head w = Option.bind (heap w head) (\<lambda>k.
     case cnext k of
       None \<Rightarrow> Some (head, w)
     | Some n \<Rightarrow> MoveToCaller n (put head (k\<lparr>cnext := None\<rparr>) w))"

text \<open>An exception that the functor throws is \<open>Inl\<close>; it is caught in \<open>CallImpl\<close>.\<close>

definition CallResolveAsync ::
    "nat \<Rightarrow> ('v, 'e) arg \<Rightarrow> ('v, 'e) world \<Rightarrow> ('e exn + ('v, 'e) action) option" where
  "CallResolveAsync this x w = do {
     k \<leftarrow> heap w this;
     case body k of
       BCore ty ka (Some f) \<Rightarrow> do {
         out \<leftarrow> CallResolveVoid f x;
         case out of
           Throws e \<Rightarrow> Some (Inl e)
         | Returns r \<Rightarrow> do { check (ka = NotAsync); a \<leftarrow> Done False this r w; Some (Inr a) }
         | Starts c \<Rightarrow> do {
             check (ka \<noteq> NotAsync);
             caller \<leftarrow> self_caller k;
             w \<leftarrow> (if ct_has ct_Run ty then Some w else do { p \<leftarrow> caller; core_DecRef p w });
             k \<leftarrow> heap w this;
             let w = put this (k\<lparr>store := Self (Some c) (if ct_has ct_Run ty then 0 else 1),
                              body := BCore ty ka None\<rparr>) w;
             if ka = AsyncTask then do {
               w \<leftarrow> StoreCallbackImpl c this w;
               (h, w) \<leftarrow> MoveToCaller c w;
               Some (Inr (w, [], Some h)) }
             else do { a \<leftarrow> SetInlineImpl (ka = AsyncShared) c this w; Some (Inr a) } } }
     | _ \<Rightarrow> None }"

definition CallResolveState ::
    "nat \<Rightarrow> ('v, 'e) callback \<Rightarrow> ('v, 'e) res \<Rightarrow> ('v, 'e) world \<Rightarrow> ('e exn + ('v, 'e) action) option" where
  "CallResolveState this f r w =
     (case f of
        OnError _ \<Rightarrow> (case r of
            Inr v \<Rightarrow> do { a \<leftarrow> Done False this r w; Some (Inr a) }
          | Inl e \<Rightarrow> CallResolveAsync this (AError e) w)
      | _ \<Rightarrow> (case r of
            Inr v \<Rightarrow> CallResolveAsync this (AValue v) w
          | Inl e \<Rightarrow> do { a \<leftarrow> Done False this (Inl e) w; Some (Inr a) }))"

definition CallImpl :: "nat \<Rightarrow> ('v, 'e) arg \<Rightarrow> ('v, 'e) world \<Rightarrow> ('v, 'e) action option" where
  "CallImpl this x w = do {
     k \<leftarrow> heap w this;
     case body k of
       BCore ty ka (Some f) \<Rightarrow> do {
         a \<leftarrow> (case x of
             AResult r \<Rightarrow> (case f of OnResult _ \<Rightarrow> CallResolveAsync this x w | _ \<Rightarrow> CallResolveState this f r w)
           | _ \<Rightarrow> CallResolveAsync this x w);
         case a of Inl e \<Rightarrow> Done False this (Inl e) w | Inr act \<Rightarrow> Some act }
     | _ \<Rightarrow> None }"

definition Core_Call :: "nat \<Rightarrow> ('v, 'e) world \<Rightarrow> ('v, 'e) action option" where
  "Core_Call this w = do {
     k \<leftarrow> heap w this;
     case (body k, store k) of
       (BCore ty ka (Some f), Self caller unwrapping) \<Rightarrow> do {
         check (unwrapping = 0);
         if ct_has ct_Run ty then do {
           check (caller = None);
           CallImpl this (case f of OnNothing _ \<Rightarrow> ANothing | _ \<Rightarrow> AResult (Inr Unit)) w }
         else do {
           c \<leftarrow> caller;
           (r, w) \<leftarrow> MoveOrConst (ct_has ct_FromUnique ty) c w;
           CallImpl this (AResult r) w } }
     | _ \<Rightarrow> None }"

definition Core_Drop :: "nat \<Rightarrow> ('v, 'e) world \<Rightarrow> ('v, 'e) action option" where
  "Core_Drop this w = CallImpl this (AResult stop_res) w"

definition async_done :: "nat \<Rightarrow> nat \<Rightarrow> ('v, 'e) world \<Rightarrow> ('v, 'e) action option" where
  "async_done this caller w = do {
     k \<leftarrow> heap w this;
     case (body k, store k) of
       (BCore ty ka f, Self (Some c) u) \<Rightarrow> do {
         check (ka \<noteq> NotAsync \<and> (caller = this \<or> caller = c));
         (r, w) \<leftarrow> MoveOrConst (ka \<noteq> AsyncShared) c w;
         Done True this r w }
     | _ \<Rightarrow> None }"

definition Core_Impl :: "nat \<Rightarrow> nat \<Rightarrow> ('v, 'e) world \<Rightarrow> ('v, 'e) action option" where
  "Core_Impl this caller w = do {
     k \<leftarrow> heap w this;
     case (body k, store k) of
       (BCore ty ka f, Self c unwrapping) \<Rightarrow>
         if ct_has ct_Run ty \<or> ka \<noteq> NotAsync \<and> unwrapping \<noteq> 0 then async_done this caller w
         else do {
           check (c = None);
           let w = put this (k\<lparr>store := Self (Some caller) unwrapping\<rparr>) w;
           w \<leftarrow> TransferExecutorTo (ct_has ct_FromShared ty) caller this w;
           w \<leftarrow> (if ct_has ct_FromShared ty \<and> (ct_has ct_Call ty \<or> ka \<noteq> NotAsync)
                 then core_IncRef caller w else Some w);
           k \<leftarrow> heap w this;
           if ct_has ct_Call ty then do { (w, fs) \<leftarrow> Submit (executor k) this w; Some (w, fs, None) }
           else do {
             (r, w) \<leftarrow> MoveOrConst (ct_has ct_FromUnique ty) caller w;
             CallImpl this (AResult r) w } }
     | _ \<Rightarrow> None }"

subsection \<open>Contracts, ready tasks and the virtual calls\<close>

text \<open>\<open>Promise::Set\<close>: the result of a shared core goes to the list of callbacks, not to \<open>Loop\<close>.\<close>

definition Promise_Set :: "nat \<Rightarrow> ('v, 'e) res \<Rightarrow> ('v, 'e) world \<Rightarrow> (('v, 'e) world \<times> frame list) option" where
  "Promise_Set c r w = do {
     w \<leftarrow> Store c r w;
     (w, fs, next) \<leftarrow> SetResultImpl c w;
     Some (w, fs @ [FLoop c next]) }"

definition PromiseCore_Call :: "nat \<Rightarrow> ('v, 'e) world \<Rightarrow> (('v, 'e) world \<times> frame list) option" where
  "PromiseCore_Call this w = do {
     k \<leftarrow> heap w this;
     case body k of
       BPromise (Some b) \<Rightarrow>
         (let w = put this (k\<lparr>body := BPromise None\<rparr>) w
          in case b of
               SetsPromise r \<Rightarrow> Promise_Set this r w
             | KeepsPromise \<Rightarrow> Some (w, [])
             | LosesPromise \<Rightarrow> Promise_Set this stop_res w
             | ThrowsValid e \<Rightarrow> Promise_Set this (Inl e) w
             | ThrowsUsed e \<Rightarrow> Some (w, []))
     | _ \<Rightarrow> None }"

definition PromiseCore_Drop :: "nat \<Rightarrow> ('v, 'e) world \<Rightarrow> (('v, 'e) world \<times> frame list) option" where
  "PromiseCore_Drop this w = do {
     k \<leftarrow> heap w this;
     case body k of
       BPromise (Some b) \<Rightarrow> Promise_Set this stop_res (put this (k\<lparr>body := BPromise None\<rparr>) w)
     | _ \<Rightarrow> None }"

definition Here :: "nat \<Rightarrow> nat \<Rightarrow> ('v, 'e) world \<Rightarrow> ('v, 'e) action option" where
  "Here prev this w = do {
     k \<leftarrow> heap w this;
     case body k of
       BResult \<Rightarrow> ResultCore_Impl this prev w
     | BPromise _ \<Rightarrow> ResultCore_Impl this prev w
     | BCore _ _ _ \<Rightarrow> Core_Impl this prev w
     | BReady \<Rightarrow> SetResultImpl this w
     | BDropCore \<Rightarrow> do { w \<leftarrow> core_DecRef prev w; Some (w, [], None) } }"

fun exec_frame :: "frame \<Rightarrow> ('v, 'e) world \<Rightarrow> (('v, 'e) world \<times> frame list) option" where
  "exec_frame (FLoop prev None) w = Some (w, [])"
| "exec_frame (FLoop prev (Some c)) w =
     do { (w, fs, nx) \<leftarrow> Here prev c w; Some (w, fs @ [FLoop c nx]) }"
| "exec_frame (FList this h) w = do {
     k \<leftarrow> heap w h;
     Some (w, case cnext k of
         Some n \<Rightarrow> [FLoop this (Some h), FList this n]
       | None \<Rightarrow> [FDec this, FLoop this (Some h), FDec this, FDec this]) }"
| "exec_frame (FDec c) w = do { w \<leftarrow> core_DecRef c w; Some (w, []) }"
| "exec_frame (FCall c) w = do {
     k \<leftarrow> heap w c;
     case body k of
       BCore _ _ _ \<Rightarrow> do { (w, fs, nx) \<leftarrow> Core_Call c w; Some (w, fs @ [FLoop c nx]) }
     | BPromise _ \<Rightarrow> PromiseCore_Call c w
     | BReady \<Rightarrow> do { (w, fs, nx) \<leftarrow> SetResultImpl c w; Some (w, fs @ [FLoop c nx]) }
     | _ \<Rightarrow> None }"
| "exec_frame (FDrop c) w = do {
     k \<leftarrow> heap w c;
     case body k of
       BCore _ _ _ \<Rightarrow> do { (w, fs, nx) \<leftarrow> Core_Drop c w; Some (w, fs @ [FLoop c nx]) }
     | BPromise _ \<Rightarrow> PromiseCore_Drop c w
     | BReady \<Rightarrow> Promise_Set c stop_res w
     | _ \<Rightarrow> None }"

text \<open>A thread runs its stack of activations until it is empty; a loop that never ends is None.\<close>

partial_function (option) run :: "frame list \<Rightarrow> ('v, 'e) world \<Rightarrow> ('v, 'e) world option" where
  "run fs w = (case fs of
       [] \<Rightarrow> Some w
     | f # fs' \<Rightarrow> Option.bind (exec_frame f w) (\<lambda>(w', gs). run (gs @ fs') w'))"

text \<open>The workers of the queueing executors: run the submitted jobs in the order of submission.\<close>

partial_function (option) run_jobs :: "('v, 'e) world \<Rightarrow> ('v, 'e) world option" where
  "run_jobs w = (case queue w of
       [] \<Rightarrow> Some w
     | (q, c) # js \<Rightarrow> Option.bind (run [FCall c] (w\<lparr>queue := js\<rparr>)) run_jobs)"

end
