(* ===== verification/Pipeline.thy ===== *)
theory Pipeline
  imports Cores
begin

section \<open>Pipelines: what a chain of continuations computes\<close>

text \<open>
  The specification of \<open>Then\<close> as a function on results, and the proof that the machine of theory
  Cores computes it: for every chain of continuations, inline or on executors, the last core
  receives the composed result, every other core is destroyed exactly once, and no step of the
  machine fails.
\<close>

subsection \<open>Specification\<close>

fun out_res :: "('v, 'e) outcome \<Rightarrow> ('v, 'e) res" where
  "out_res (Returns r) = r"
| "out_res (Throws e) = Inl e"
| "out_res (Starts c) = stop_res"

text \<open>
  A callback on results sees everything; one on values (or on nothing) is skipped by an error, one
  on errors by a value.
\<close>

fun then_res :: "('v, 'e) callback \<Rightarrow> ('v, 'e) res \<Rightarrow> ('v, 'e) res" where
  "then_res (OnResult f) r = out_res (f r)"
| "then_res (OnValue f) (Inr v) = out_res (f v)"
| "then_res (OnValue f) (Inl e) = Inl e"
| "then_res (OnError f) (Inr v) = Inr v"
| "then_res (OnError f) (Inl e) = out_res (f e)"
| "then_res (OnNothing out) (Inr v) = out_res out"
| "then_res (OnNothing out) (Inl e) = Inl e"

definition out_sync :: "('v, 'e) outcome \<Rightarrow> bool" where
  "out_sync o' \<longleftrightarrow> (\<forall>c. o' \<noteq> Starts c)"

fun cb_sync :: "('v, 'e) callback \<Rightarrow> bool" where
  "cb_sync (OnResult f) = (\<forall>r. out_sync (f r))"
| "cb_sync (OnValue f) = (\<forall>v. out_sync (f v))"
| "cb_sync (OnError f) = (\<forall>e. out_sync (f e))"
| "cb_sync (OnNothing out) = out_sync out"

text \<open>
  A stage: whether it is submitted to an executor or run inline, its executor if it names one, its
  callback, and whether it belongs to a lazy task. A stage without an executor inherits the one of
  the stage before.
\<close>

record ('v, 'e) stage =
  on_exec :: bool
  stage_exec :: "exec option"
  fn :: "('v, 'e) callback"
  in_task :: bool

definition eff_exec :: "exec \<Rightarrow> ('v, 'e) stage \<Rightarrow> exec" where
  "eff_exec e s = (case stage_exec s of Some e' \<Rightarrow> e' | None \<Rightarrow> e)"

definition stage_res :: "exec \<Rightarrow> ('v, 'e) stage \<Rightarrow> ('v, 'e) res \<Rightarrow> ('v, 'e) res" where
  "stage_res e s r =
     then_res (fn s) (if on_exec s \<and> eff_exec e s = EInlineStop then stop_res else r)"

fun pipe_res :: "exec \<Rightarrow> ('v, 'e) stage list \<Rightarrow> ('v, 'e) res \<Rightarrow> ('v, 'e) res" where
  "pipe_res e [] r = r"
| "pipe_res e (s # ss) r = pipe_res (eff_exec e s) ss (stage_res e s r)"

subsection \<open>Heap shapes\<close>

definition stage_type :: "('v, 'e) stage \<Rightarrow> core_type" where
  "stage_type s = or (or (or ct_ToUnique ct_FromUnique) (if on_exec s then ct_Call else 0))
     (if in_task s then ct_Lazy else 0)"

lemma stage_type_has [simp]:
  "ct_has ct_Run (stage_type s) = False" "ct_has ct_FromUnique (stage_type s) = True"
  "ct_has ct_FromShared (stage_type s) = False" "ct_has ct_Call (stage_type s) = on_exec s"
  by (simp_all add: ct_has_def stage_type_def ct_Run_def ct_FromUnique_def ct_FromShared_def
      ct_Call_def ct_ToUnique_def ct_Lazy_def)

definition waiting :: "('v, 'e) stage \<Rightarrow> ('v, 'e) core \<Rightarrow> bool" where
  "waiting s k \<longleftrightarrow> kind k = UniqueK \<and> body k = BCore (stage_type s) NotAsync (Some (fn s))
     \<and> crefs k = 1 \<and> cb_sync (fn s)"

text \<open>The callback word \<open>u\<close> leads through the stages \<open>ss\<close>; the last one's word is \<open>v\<close>.\<close>

fun attached :: "('v, 'e) world \<Rightarrow> nat uptr \<Rightarrow> (nat \<times> ('v, 'e) stage) list \<Rightarrow> nat uptr \<Rightarrow> bool" where
  "attached w u [] v = (u = v)"
| "attached w u ((c, s) # ss) v = (u = UAt c \<and> (\<exists>k. heap w c = Some k \<and> waiting s k
     \<and> store k = Self None 0 \<and> executor k = stage_exec s \<and> attached w (word k) ss v))"

definition ready :: "('v, 'e) core \<Rightarrow> exec \<Rightarrow> ('v, 'e) res \<Rightarrow> bool" where
  "ready k e r \<longleftrightarrow> kind k = UniqueK \<and> word k = UMax \<and> store k = Full r \<and> crefs k = 1
     \<and> executor k = Some e"

text \<open>
  After the run: of the pipeline's cores \<open>cs\<close> and the last \<open>l\<close>, only the last is left, with the result.
\<close>

definition finished :: "('v, 'e) world \<Rightarrow> nat set \<Rightarrow> nat \<Rightarrow> exec \<Rightarrow> ('v, 'e) res \<Rightarrow> ('v, 'e) world \<Rightarrow> bool" where
  "finished w cs l e r w' \<longleftrightarrow> queue w' = []
     \<and> (\<exists>k. heap w' l = Some k \<and> ready k e r) \<and> (\<forall>x. x \<noteq> l \<longrightarrow> heap w' x = (if x \<in> cs then None else heap w x))"

lemma attached_frame:
  "attached w u ss v \<Longrightarrow> (\<And>x. x \<in> fst ` set ss \<Longrightarrow> heap w' x = heap w x) \<Longrightarrow> attached w' u ss v"
proof (induction ss arbitrary: u)
  case (Cons a ss)
  obtain c s where a: "a = (c, s)" by (cases a)
  from Cons.prems(1) obtain k where k: "u = UAt c" "heap w c = Some k" "waiting s k" "store k = Self None 0"
      "executor k = stage_exec s" "attached w (word k) ss v" unfolding a by auto
  have "attached w' (word k) ss v" by (rule Cons.IH [OF k(6)]) (use Cons.prems(2) in auto)
  moreover have "heap w' c = Some k" using Cons.prems(2) [of c] k(2) by (simp add: a)
  ultimately show ?case using k unfolding a by auto
qed simp

subsection \<open>One stage\<close>

lemma run_Nil [simp]: "run [] w = Some w"
  by (subst run.simps) simp

lemma run_Cons: "run (f # fs) w = Option.bind (exec_frame f w) (\<lambda>(w', gs). run (gs @ fs) w')"
  by (subst run.simps) simp

lemma run_jobs_Nil [simp]: "queue w = [] \<Longrightarrow> run_jobs w = Some w"
  by (subst run_jobs.simps) simp

lemma check_simps [simp]: "check True = Some ()" "check False = None"
  by (simp_all add: check_def)

text \<open>The functor is called, its result stored, the caller destroyed, the next callback named.\<close>

lemma Done_stage:
  assumes k: "heap w c = Some k" "waiting s k" "store k = Self (Some p) u" "word k \<noteq> UMax"
    and p: "heap w p = Some kp" "crefs kp = 1" "core_dtor_ok kp" and ne: "p \<noteq> c"
  shows "Done False c r w = Some (w\<lparr>heap := (heap w)(p := None,
      c := Some (k\<lparr>store := Full r, body := BCore (stage_type s) NotAsync None, word := UMax\<rparr>))\<rparr>,
      [], ptr_of (word k))"
  using assms unfolding Done_def Store_def core_DecRef_def SetResultImpl_def waiting_def self_caller_def put_def
  by (simp add: fun_upd_twist)

text \<open>Whatever the argument and the kind of functor, a synchronous call ends in \<open>Done\<close>.\<close>

lemma CallImpl_sync:
  assumes k: "heap w c = Some k" "body k = BCore ty NotAsync (Some f)" "cb_sync f"
  shows "CallImpl c (AResult x) w = Done False c (then_res f x) w"
    and "f = OnNothing out \<Longrightarrow> CallImpl c ANothing w = Done False c (out_res out) w"
proof -
  have A: "(CallResolveAsync c y w \<bind> case_sum (\<lambda>e. Done False c (Inl e) w) Some) = Done False c (out_res out) w"
    if "CallResolveVoid f y = Some out" "out_sync out" for y out
    using that unfolding CallResolveAsync_def k(1)
    by (cases out; cases "Done False c (out_res out) w") (simp_all add: k out_sync_def)
  show "CallImpl c (AResult x) w = Done False c (then_res f x) w"
  proof (cases f)
    case (OnResult g)
    then show ?thesis using k A [of "AResult x" "g x"] by (simp add: CallImpl_def)
  next
    case (OnValue g)
    then show ?thesis using k A [of "AValue v" "g v" for v]
      by (cases x; cases "Done False c x w") (auto simp: CallImpl_def CallResolveState_def)
  next
    case (OnError g)
    then show ?thesis using k A [of "AError e" "g e" for e]
      by (cases x; cases "Done False c x w") (auto simp: CallImpl_def CallResolveState_def)
  next
    case (OnNothing out)
    then show ?thesis using k A [of "AValue v" out for v]
      by (cases x; cases "Done False c x w") (auto simp: CallImpl_def CallResolveState_def)
  qed
  show "CallImpl c ANothing w = Done False c (out_res out) w" if "f = OnNothing out"
    using k A [of ANothing out] that by (simp add: CallImpl_def)
qed

lemma CallImpl_stage:
  assumes k: "heap w c = Some k" "waiting s k" "store k = Self (Some p) u" "word k \<noteq> UMax"
    and p: "heap w p = Some kp" "crefs kp = 1" "core_dtor_ok kp" and ne: "p \<noteq> c"
  shows "CallImpl c (AResult x) w = Some (w\<lparr>heap := (heap w)(p := None,
      c := Some (k\<lparr>store := Full (then_res (fn s) x), body := BCore (stage_type s) NotAsync None,
        word := UMax\<rparr>))\<rparr>, [], ptr_of (word k))"
proof -
  have "body k = BCore (stage_type s) NotAsync (Some (fn s))" "cb_sync (fn s)"
    using k(2) by (simp_all add: waiting_def)
  from CallImpl_sync(1) [OF k(1) this] show ?thesis using Done_stage [OF k p ne] by simp
qed

definition stage_done :: "nat \<Rightarrow> nat \<Rightarrow> ('v, 'e) stage \<Rightarrow> ('v, 'e) core \<Rightarrow> ('v, 'e) res \<Rightarrow>
    ('v, 'e) world \<Rightarrow> ('v, 'e) world" where
  "stage_done p c s k r w = w\<lparr>heap := (heap w)(p := None,
      c := Some (k\<lparr>store := Full r, body := BCore (stage_type s) NotAsync None, word := UMax\<rparr>))\<rparr>"

text \<open>A stage that has been given its caller and its executor, and its caller's state.\<close>

definition given :: "('v, 'e) world \<Rightarrow> nat \<Rightarrow> nat \<Rightarrow> ('v, 'e) stage \<Rightarrow> exec \<Rightarrow> ('v, 'e) core \<Rightarrow> ('v, 'e) res \<Rightarrow> bool" where
  "given w p c s e k r \<longleftrightarrow> heap w c = Some k \<and> waiting s k \<and> store k = Self (Some p) 0
     \<and> executor k = Some e \<and> word k \<noteq> UMax \<and> p \<noteq> c
     \<and> (\<exists>kp. heap w p = Some kp \<and> crefs kp = 1 \<and> word kp = UMax \<and> store kp = Full r)"

lemma exec_call:
  assumes "given w p c s e k r"
  shows "exec_frame (FCall c) w = Some (stage_done p c s k (then_res (fn s) r) w, [FLoop c (ptr_of (word k))])"
proof -
  obtain kp where kp: "heap w p = Some kp" "crefs kp = 1" "word kp = UMax" "store kp = Full r"
    using assms by (auto simp: given_def)
  note g = assms [unfolded given_def]
  let ?w = "put p (kp\<lparr>store := Moved\<rparr>) w"
  have "CallImpl c (AResult r) ?w = Some (?w\<lparr>heap := (heap ?w)(p := None,
      c := Some (k\<lparr>store := Full (then_res (fn s) r), body := BCore (stage_type s) NotAsync None,
        word := UMax\<rparr>))\<rparr>, [], ptr_of (word k))"
    using g kp by (intro CallImpl_stage [where u = 0 and kp = "kp\<lparr>store := Moved\<rparr>"])
      (auto simp: put_def core_dtor_ok_def)
  moreover have "body k = BCore (stage_type s) NotAsync (Some (fn s))" using g by (simp add: waiting_def)
  ultimately show ?thesis using g kp
    by (simp add: Core_Call_def MoveOrConst_def stage_done_def put_def)
qed

lemma exec_drop:
  assumes "given w p c s e k r"
  shows "exec_frame (FDrop c) w = Some (stage_done p c s k (then_res (fn s) stop_res) w, [FLoop c (ptr_of (word k))])"
proof -
  obtain kp where kp: "heap w p = Some kp" "crefs kp = 1" "word kp = UMax" "store kp = Full r"
    using assms by (auto simp: given_def)
  note g = assms [unfolded given_def]
  have "CallImpl c (AResult stop_res) w = Some (w\<lparr>heap := (heap w)(p := None,
      c := Some (k\<lparr>store := Full (then_res (fn s) stop_res), body := BCore (stage_type s) NotAsync None,
        word := UMax\<rparr>))\<rparr>, [], ptr_of (word k))"
    using g kp by (intro CallImpl_stage [where u = 0 and kp = kp]) (auto simp: core_dtor_ok_def)
  moreover have "body k = BCore (stage_type s) NotAsync (Some (fn s))" using g by (simp add: waiting_def)
  ultimately show ?thesis using g by (simp add: Core_Drop_def stage_done_def)
qed

text \<open>The stage is given its caller: \<open>Impl\<close> up to the call or the submission.\<close>

definition give :: "nat \<Rightarrow> ('v, 'e) core \<Rightarrow> nat \<Rightarrow> ('v, 'e) stage \<Rightarrow> exec \<Rightarrow> ('v, 'e) core \<Rightarrow> ('v, 'e) world \<Rightarrow> ('v, 'e) world" where
  "give p kp c s e k w = w\<lparr>heap := (heap w)(
      p := Some (if stage_exec s = None then kp\<lparr>executor := None\<rparr> else kp),
      c := Some (k\<lparr>store := Self (Some p) 0, executor := Some (eff_exec e s)\<rparr>))\<rparr>"

lemma give_given:
  assumes p: "heap w p = Some kp" "ready kp e r"
    and k: "heap w c = Some k" "waiting s k" "word k \<noteq> UMax" and ne: "p \<noteq> c"
  shows "given (give p kp c s e k w) p c s (eff_exec e s) (k\<lparr>store := Self (Some p) 0, executor := Some (eff_exec e s)\<rparr>) r"
  using assms unfolding given_def give_def ready_def waiting_def by auto

lemma transfer_give:
  assumes "heap w p = Some kp" "ready kp e r" "executor k = stage_exec s" "p \<noteq> c"
  shows "TransferExecutorTo False p c (put c (k\<lparr>store := Self (Some p) 0\<rparr>) w) = Some (give p kp c s e k w)"
proof (cases "stage_exec s")
  case None
  then show ?thesis using assms
    unfolding TransferExecutorTo_def give_def eff_exec_def ready_def put_def by (simp add: fun_upd_twist)
next
  case (Some e')
  moreover have "(heap w)(p \<mapsto> kp, c \<mapsto> v) = (heap w)(c \<mapsto> v)" for v
    using assms(1,4) by (auto simp: fun_eq_iff)
  ultimately show ?thesis using assms
    unfolding TransferExecutorTo_def give_def eff_exec_def put_def by (cases k) simp
qed

lemma exec_here_inline:
  assumes p: "heap w p = Some kp" "ready kp e r" and ne: "p \<noteq> c" and inl: "\<not> on_exec s"
    and k: "heap w c = Some k" "waiting s k" "word k \<noteq> UMax" "store k = Self None 0" "executor k = stage_exec s"
  shows "exec_frame (FLoop p (Some c)) w =
    Some (stage_done p c s (k\<lparr>executor := Some (eff_exec e s)\<rparr>) (then_res (fn s) r) w, [FLoop c (ptr_of (word k))])"
proof -
  let ?k = "k\<lparr>store := Self (Some p) 0, executor := Some (eff_exec e s)\<rparr>"
  let ?g = "give p kp c s e k w"
  obtain kp' where kp': "heap ?g p = Some kp'" "crefs kp' = 1" "word kp' = UMax" "store kp' = Full r"
    using give_given [OF p k(1-3) ne] by (auto simp: given_def)
  let ?w = "put p (kp'\<lparr>store := Moved\<rparr>) ?g"
  have g: "heap ?g c = Some ?k" by (simp add: give_def)
  have "CallImpl c (AResult r) ?w = Some (?w\<lparr>heap := (heap ?w)(p := None,
      c := Some (?k\<lparr>store := Full (then_res (fn s) r), body := BCore (stage_type s) NotAsync None,
        word := UMax\<rparr>))\<rparr>, [], ptr_of (word ?k))"
    using g kp' k ne by (intro CallImpl_stage [where u = 0 and kp = "kp'\<lparr>store := Moved\<rparr>"])
      (auto simp: put_def core_dtor_ok_def waiting_def)
  moreover have b: "body k = BCore (stage_type s) NotAsync (Some (fn s))" using k(2) by (simp add: waiting_def)
  moreover have "TransferExecutorTo False p c (put c (k\<lparr>store := Self (Some p) 0\<rparr>) w) = Some ?g"
    by (rule transfer_give [OF p k(5) ne])
  ultimately show ?thesis using k kp' inl g ne
    by (simp add: Here_def Core_Impl_def MoveOrConst_def stage_done_def put_def give_def fun_upd_twist
        cong: if_cong)
qed

lemma exec_here_call:
  assumes p: "heap w p = Some kp" "ready kp e r" and ne: "p \<noteq> c" and ex: "on_exec s"
    and k: "heap w c = Some k" "waiting s k" "store k = Self None 0" "executor k = stage_exec s"
  shows "exec_frame (FLoop p (Some c)) w =
    Option.bind (Submit (Some (eff_exec e s)) c (give p kp c s e k w)) (\<lambda>(w, fs). Some (w, fs @ [FLoop c None]))"
proof -
  let ?g = "give p kp c s e k w"
  have b: "body k = BCore (stage_type s) NotAsync (Some (fn s))" using k(2) by (simp add: waiting_def)
  moreover have "TransferExecutorTo False p c (put c (k\<lparr>store := Self (Some p) 0\<rparr>) w) = Some ?g"
    by (rule transfer_give [OF p k(4) ne])
  moreover have "heap ?g c = Some (k\<lparr>store := Self (Some p) 0, executor := Some (eff_exec e s)\<rparr>)"
    by (simp add: give_def)
  ultimately show ?thesis using k ex
    by (cases "Submit (Some (eff_exec e s)) c ?g") (auto simp add: Here_def Core_Impl_def)
qed

subsection \<open>The whole chain\<close>

text \<open>Activations that have nothing left to do.\<close>

definition idle :: "frame list \<Rightarrow> bool" where
  "idle fs \<longleftrightarrow> (\<forall>f \<in> set fs. \<exists>p. f = FLoop p None)"

lemma idle_simps [simp]: "idle []" "idle (FLoop p None # fs) = idle fs"
  "idle (fs @ gs) \<longleftrightarrow> idle fs \<and> idle gs"
  by (auto simp: idle_def)

lemma run_idle: "idle gs \<Longrightarrow> run (gs @ fs) w = run fs w"
  by (induction gs) (auto simp: idle_def run_Cons)

lemma run_idle_end [simp]: "idle gs \<Longrightarrow> run gs w = Some w"
  using run_idle [of gs "[]" w] by simp

definition drive :: "frame list \<Rightarrow> ('v, 'e) world \<Rightarrow> ('v, 'e) world option" where
  "drive fs w = Option.bind (run fs w) run_jobs"

text \<open>The chain \<open>ss\<close> of stages behind the ready core \<open>p\<close>, whose first stage runs next.\<close>

definition chain_at :: "('v, 'e) world \<Rightarrow> nat \<Rightarrow> exec \<Rightarrow> ('v, 'e) res \<Rightarrow> (nat \<times> ('v, 'e) stage) list \<Rightarrow> nat uptr \<Rightarrow> bool" where
  "chain_at w p e r ss v \<longleftrightarrow> queue w = [] \<and> distinct (p # map fst ss) \<and> v \<noteq> UMax
     \<and> (\<exists>kp. heap w p = Some kp \<and> ready kp e r) \<and> (\<exists>u. attached w u ss v)"

fun final_exec :: "exec \<Rightarrow> ('v, 'e) stage list \<Rightarrow> exec" where
  "final_exec e [] = e"
| "final_exec e (s # ss) = final_exec (eff_exec e s) ss"

definition head_of :: "(nat \<times> ('v, 'e) stage) list \<Rightarrow> nat uptr \<Rightarrow> nat option" where
  "head_of ss v = (case ss of [] \<Rightarrow> ptr_of v | (c, s) # _ \<Rightarrow> Some c)"

lemma attached_word: "attached w u ss v \<Longrightarrow> v \<noteq> UMax \<Longrightarrow> u \<noteq> UMax"
  by (cases "(w, u, ss, v)" rule: attached.cases) auto

lemma attached_ptr: "attached w u ss v \<Longrightarrow> ptr_of u = head_of ss v"
  by (cases "(w, u, ss, v)" rule: attached.cases) (auto simp: head_of_def)

lemma stage_done_chain:
  assumes "queue w = []" "distinct (p # c # map fst ss)" "waiting s k" "executor k = Some e"
    "attached w u ss v" "v \<noteq> UMax"
  shows "chain_at (stage_done p c s k r w) c e r ss v"
proof -
  have "attached (stage_done p c s k r w) u ss v"
    by (rule attached_frame [OF assms(5)]) (use assms(2) in \<open>auto simp: stage_done_def\<close>)
  then show ?thesis using assms
    unfolding chain_at_def by (auto simp: stage_done_def ready_def waiting_def)
qed

lemma finished_step:
  assumes "finished (stage_done p c s k r w) (set (butlast (c # map fst ss))) (last (c # map fst ss)) e' r' w'"
    and "distinct (p # c # map fst ss)"
  shows "finished w (set (butlast (p # c # map fst ss))) (last (p # c # map fst ss)) e' r' w'"
proof -
  let ?l = "last (c # map fst ss)" and ?B = "set (butlast (c # map fst ss))"
  have "?l \<in> set (c # map fst ss)" by (rule last_in_set) simp
  then have l: "?l \<noteq> p" using assms(2) by (metis distinct.simps(2))
  have c: "c \<in> ?B \<or> c = ?l" by (cases ss) simp_all
  have "heap w' x = (if x \<in> insert p ?B then None else heap w x)" if x: "x \<noteq> ?l" for x
  proof -
    have "heap w' x = (if x \<in> ?B then None else heap (stage_done p c s k r w) x)"
      using assms(1) x by (simp add: finished_def)
    also have "\<dots> = (if x \<in> insert p ?B then None else heap w x)"
      using c x by (auto simp: stage_done_def)
    finally show ?thesis .
  qed
  then show ?thesis using assms(1) unfolding finished_def by simp
qed

lemma drive_step: "exec_frame f w = Some (w', gs) \<Longrightarrow> drive (f # fs) w = drive (gs @ fs) w'"
  by (simp add: drive_def run_Cons)

lemma drive_idle: "idle gs \<Longrightarrow> drive (gs @ fs) w = drive fs w"
  by (simp add: drive_def run_idle)

lemma drive_end: "idle gs \<Longrightarrow> queue w = [] \<Longrightarrow> drive gs w = Some w"
  by (simp add: drive_def)

text \<open>A job that an executor with a queue has accepted is called by one of its workers.\<close>

lemma drive_queued:
  assumes "idle gs" "queue w = []"
  shows "drive gs (w\<lparr>queue := [(q, c)]\<rparr>) = drive [FCall c] w"
proof -
  have "w\<lparr>queue := []\<rparr> = w" using assms(2) by (cases w) simp
  then show ?thesis using assms(1) by (simp add: drive_def run_jobs.simps)
qed

lemma stage_done_give [simp]: "stage_done p c s k' r (give p kp c s e k w) = stage_done p c s k' r w"
  by (simp add: stage_done_def give_def fun_upd_twist)

text \<open>
  The main lemma: the run of a chain reaches the callback of the last core with everything before
  it destroyed, and nothing else pending.
\<close>

lemma drive_chain:
  assumes "chain_at w p e r ss v" and "idle gs"
  shows "\<exists>w' hs. drive (FLoop p (head_of ss v) # gs) w = drive (FLoop (last (p # map fst ss)) (ptr_of v) # hs) w'
     \<and> idle hs \<and> finished w (set (butlast (p # map fst ss))) (last (p # map fst ss))
         (final_exec e (map snd ss)) (pipe_res e (map snd ss) r) w'"
  using assms
proof (induction ss arbitrary: w p e r gs)
  case Nil
  then obtain kp where "heap w p = Some kp" "ready kp e r" "queue w = []" by (auto simp: chain_at_def)
  with Nil show ?case by (intro exI [of _ w] exI [of _ gs]) (simp add: finished_def head_of_def)
next
  case (Cons a ss)
  obtain c s where a: "a = (c, s)" by (cases a)
  obtain kp k where q: "queue w = []" and d: "distinct (p # c # map fst ss)" and v: "v \<noteq> UMax"
      and kp: "heap w p = Some kp" "ready kp e r"
      and k: "heap w c = Some k" "waiting s k" "store k = Self None 0" "executor k = stage_exec s"
      and at: "attached w (word k) ss v"
    using Cons.prems(1) by (auto simp: chain_at_def a)
  have u: "word k \<noteq> UMax" by (rule attached_word [OF at v])
  have ne: "p \<noteq> c" using d by simp
  let ?e = "eff_exec e s" and ?g = "give p kp c s e k w"
  let ?k = "k\<lparr>store := Self (Some p) 0, executor := Some ?e\<rparr>"
  let ?goal = "\<lambda>fs w0. \<exists>w' hs. drive fs w0 = drive (FLoop (last (p # map fst (a # ss))) (ptr_of v) # hs) w'
      \<and> idle hs \<and> finished w (set (butlast (p # map fst (a # ss)))) (last (p # map fst (a # ss)))
          (final_exec e (map snd (a # ss))) (pipe_res e (map snd (a # ss)) r) w'"
  have g: "given ?g p c s ?e ?k r" by (rule give_given [OF kp k(1,2) u ne])
  have rest: "?goal (FLoop c (ptr_of (word k)) # hs) (stage_done p c s k' (stage_res e s r) w)"
    if hs: "idle hs" and k': "waiting s k'" "executor k' = Some ?e" for k' hs
  proof -
    have "chain_at (stage_done p c s k' (stage_res e s r) w) c ?e (stage_res e s r) ss v"
      by (rule stage_done_chain [OF q d k' at v])
    from Cons.IH [OF this hs] obtain w' hs' where
      D: "drive (FLoop c (head_of ss v) # hs) (stage_done p c s k' (stage_res e s r) w)
          = drive (FLoop (last (c # map fst ss)) (ptr_of v) # hs') w'" "idle hs'" and
      F: "finished (stage_done p c s k' (stage_res e s r) w) (set (butlast (c # map fst ss)))
          (last (c # map fst ss)) (final_exec ?e (map snd ss)) (pipe_res ?e (map snd ss) (stage_res e s r)) w'"
      by blast
    have "last (p # map fst (a # ss)) = last (c # map fst ss)" by (simp add: a)
    then show ?thesis using D finished_step [OF F d] unfolding attached_ptr [OF at]
      by (intro exI [of _ w'] exI [of _ hs']) (simp add: a)
  qed
  have wk: "waiting s ?k" "waiting s (k\<lparr>executor := Some ?e\<rparr>)" using k(2) by (simp_all add: waiting_def)
  have call: "?goal (FCall c # hs) ?g" if "idle hs" "\<not> (on_exec s \<and> ?e = EInlineStop)" for hs
  proof -
    have "then_res (fn s) r = stage_res e s r" using that(2) by (auto simp: stage_res_def)
    then show ?thesis using rest [OF that(1) wk(1)] drive_step [OF exec_call [OF g], of hs] by simp
  qed
  have first: "head_of (a # ss) v = Some c" by (simp add: head_of_def a)
  show ?case
  proof (cases "on_exec s")
    case False
    then have "then_res (fn s) r = stage_res e s r" by (simp add: stage_res_def)
    then show ?thesis unfolding first
      using drive_step [OF exec_here_inline [OF kp ne False k(1,2) u k(3,4)], of gs]
        rest [OF Cons.prems(2) wk(2)] by simp
  next
    case True
    note H = exec_here_call [OF kp ne True k]
    show ?thesis
    proof (cases ?e)
      case EInline
      then show ?thesis unfolding first using call [of "FLoop c None # gs"] Cons.prems(2)
          drive_step [of "FLoop p (Some c)" w ?g "[FCall c, FLoop c None]" gs] H True
        by (simp add: Submit_def)
    next
      case EInlineStop
      then have "then_res (fn s) stop_res = stage_res e s r" using True by (simp add: stage_res_def)
      then show ?thesis unfolding first
        using rest [OF _ wk(1), of "FLoop c None # gs"] Cons.prems(2) EInlineStop H
          drive_step [of "FLoop p (Some c)" w ?g "[FDrop c, FLoop c None]" gs]
          drive_step [OF exec_drop [OF g], of "FLoop c None # gs"]
        by (simp add: Submit_def)
    next
      case (EQueue i)
      have "queue ?g = []" using q by (simp add: give_def)
      then show ?thesis unfolding first
        using call [of "[]"] Cons.prems(2) EQueue H drive_queued [of "FLoop c None # gs" ?g i c]
          drive_step [of "FLoop p (Some c)" w "?g\<lparr>queue := [(i, c)]\<rparr>" "[FLoop c None]" gs]
        by (simp add: Submit_def)
    qed
  qed
qed

end
