(* ===== verification/Futures.thy ===== *)
theory Futures
  imports Pipeline
begin

section \<open>Futures, promises, tasks: the API over the cores\<close>

text \<open>
  \<open>include/yaclib/async/\<close> (\<open>contract.hpp\<close>, \<open>shared_contract.hpp\<close>, \<open>promise.hpp\<close>,
  \<open>shared_promise.hpp\<close>, \<open>future.hpp\<close>, \<open>shared_future.hpp\<close>, \<open>make.hpp\<close>, \<open>run.hpp\<close>, \<open>connect.hpp\<close>,
  \<open>share.hpp\<close>, \<open>split.hpp\<close>) and \<open>include/yaclib/lazy/\<close>. A handle is the number of its core; an
  operation on it gives the world, and the activations that are left to run when the C++ call
  does more than move pointers. The address of a new core is an argument: it has to be unused.
\<close>

subsection \<open>Making cores\<close>

definition kDrop :: nat where "kDrop = 0"

definition drop_core :: "('v, 'e) core" where
  "drop_core = \<lparr>kind = NoResultK, body = BDropCore, word = UZero, store = Raw, crefs = 1,
     executor = Some EInline, cnext = None\<rparr>"

definition new_core :: "core_kind \<Rightarrow> ('v, 'e) body \<Rightarrow> ('v, 'e) storage \<Rightarrow> nat \<Rightarrow> exec option \<Rightarrow> ('v, 'e) core" where
  "new_core kd b st n e = \<lparr>kind = kd, body = b, word = UZero, store = st, crefs = n, executor = e,
     cnext = None\<rparr>"

definition MakeContract :: "nat \<Rightarrow> ('v, 'e) world \<Rightarrow> ('v, 'e) world option" where
  "MakeContract c w = alloc c (new_core UniqueK BResult Raw 1 (Some EInline)) w"

definition MakeContractOn :: "exec \<Rightarrow> nat \<Rightarrow> ('v, 'e) world \<Rightarrow> ('v, 'e) world option" where
  "MakeContractOn e c w = alloc c (new_core UniqueK BResult Raw 1 (Some e)) w"

definition kSharedRefWithFuture :: nat where "kSharedRefWithFuture = 4"
definition kSharedRefNoFuture :: nat where "kSharedRefNoFuture = 3"

definition MakeSharedContract :: "nat \<Rightarrow> ('v, 'e) world \<Rightarrow> ('v, 'e) world option" where
  "MakeSharedContract c w = alloc c (new_core SharedK BResult Raw kSharedRefWithFuture (Some EInline)) w"

definition MakeSharedPromise :: "nat \<Rightarrow> ('v, 'e) world \<Rightarrow> ('v, 'e) world option" where
  "MakeSharedPromise c w = alloc c (new_core SharedK BResult Raw kSharedRefNoFuture (Some EInline)) w"

definition MakeFuture :: "('v, 'e) res \<Rightarrow> nat \<Rightarrow> ('v, 'e) world \<Rightarrow> ('v, 'e) world option" where
  "MakeFuture r c w = alloc c ((new_core UniqueK BResult (Full r) 1 (Some EInline))\<lparr>word := UMax\<rparr>) w"

definition MakeTask :: "('v, 'e) res \<Rightarrow> nat \<Rightarrow> ('v, 'e) world \<Rightarrow> ('v, 'e) world option" where
  "MakeTask r c w = alloc c (new_core UniqueK BReady (Full r) 1 (Some EInline)) w"

definition MakeCore :: "core_type \<Rightarrow> async_kind \<Rightarrow> ('v, 'e) callback \<Rightarrow> nat \<Rightarrow> ('v, 'e) world \<Rightarrow> ('v, 'e) world option" where
  "MakeCore ty ka f c w = alloc c (new_core
     (if ct_has ct_Detach ty then NoResultK else if ct_has ct_ToShared ty then SharedK else UniqueK)
     (BCore ty ka (Some f)) (Self None 0) (if ct_has ct_ToShared ty then kSharedRefWithFuture else 1)
     (Some EInline)) w"

definition MakePromiseCore :: "bool \<Rightarrow> ('v, 'e) contract_body \<Rightarrow> nat \<Rightarrow> ('v, 'e) world \<Rightarrow> ('v, 'e) world option" where
  "MakePromiseCore shared b c w = alloc c (new_core (if shared then SharedK else UniqueK)
     (BPromise (Some b)) Raw (if shared then kSharedRefWithFuture else 1) (Some EInline)) w"

definition set_executor :: "nat \<Rightarrow> exec option \<Rightarrow> ('v, 'e) world \<Rightarrow> ('v, 'e) world option" where
  "set_executor c e w = do { k \<leftarrow> heap w c; Some (put c (k\<lparr>executor := e\<rparr>) w) }"

subsection \<open>Continuations\<close>

text \<open>
  \<open>detail::SetCallback\<close>: make the callback's core, give it its executor, and hang it on the core
  of the future, or run it at once if that core is ready. A lazy callback is only linked.
\<close>

definition SetCallback :: "core_type \<Rightarrow> bool \<Rightarrow> exec option \<Rightarrow> async_kind \<Rightarrow> ('v, 'e) callback \<Rightarrow> nat \<Rightarrow> nat \<Rightarrow>
    ('v, 'e) world \<Rightarrow> (('v, 'e) world \<times> frame list) option" where
  "SetCallback ty from_shared e ka f core cb w = do {
     w \<leftarrow> MakeCore (or ty (if from_shared then ct_FromShared else ct_FromUnique)) ka f cb w;
     w \<leftarrow> (if ct_has ct_Detach ty then StoreCallbackImpl cb kDrop w else Some w);
     w \<leftarrow> set_executor cb e w;
     if ct_has ct_Lazy ty then do {
       check (\<not> from_shared);
       k \<leftarrow> heap w cb;
       w \<leftarrow> StoreCallbackImpl core cb (put cb (k\<lparr>cnext := Some core\<rparr>) w);
       Some (w, []) }
     else do {
       (w, fs, nx) \<leftarrow> SetInlineImpl from_shared core cb w;
       Some (w, fs @ [FLoop core nx]) } }"

definition Future_Then :: "exec \<Rightarrow> async_kind \<Rightarrow> ('v, 'e) callback \<Rightarrow> nat \<Rightarrow> nat \<Rightarrow> ('v, 'e) world \<Rightarrow>
    (('v, 'e) world \<times> frame list) option" where
  "Future_Then e ka f c cb w = SetCallback (or ct_ToUnique ct_Call) False (Some e) ka f c cb w"

definition Future_ThenInline :: "async_kind \<Rightarrow> ('v, 'e) callback \<Rightarrow> nat \<Rightarrow> nat \<Rightarrow> ('v, 'e) world \<Rightarrow>
    (('v, 'e) world \<times> frame list) option" where
  "Future_ThenInline ka f c cb w = SetCallback ct_ToUnique False None ka f c cb w"

definition FutureOn_Then :: "async_kind \<Rightarrow> ('v, 'e) callback \<Rightarrow> nat \<Rightarrow> nat \<Rightarrow> ('v, 'e) world \<Rightarrow>
    (('v, 'e) world \<times> frame list) option" where
  "FutureOn_Then ka f c cb w = SetCallback (or ct_ToUnique ct_Call) False None ka f c cb w"

definition Future_DetachInline :: "('v, 'e) callback \<Rightarrow> nat \<Rightarrow> nat \<Rightarrow> ('v, 'e) world \<Rightarrow>
    (('v, 'e) world \<times> frame list) option" where
  "Future_DetachInline f c cb w = SetCallback ct_Detach False None NotAsync f c cb w"

definition Future_Detach_exec :: "exec \<Rightarrow> ('v, 'e) callback \<Rightarrow> nat \<Rightarrow> nat \<Rightarrow> ('v, 'e) world \<Rightarrow>
    (('v, 'e) world \<times> frame list) option" where
  "Future_Detach_exec e f c cb w = SetCallback (or ct_Detach ct_Call) False (Some e) NotAsync f c cb w"

definition FutureOn_Detach :: "('v, 'e) callback \<Rightarrow> nat \<Rightarrow> nat \<Rightarrow> ('v, 'e) world \<Rightarrow>
    (('v, 'e) world \<times> frame list) option" where
  "FutureOn_Detach f c cb w = SetCallback (or ct_Detach ct_Call) False None NotAsync f c cb w"

text \<open>\<open>Detach\<close> and the destructor of a valid future: \<open>CallInline\<close> with the static drop core.\<close>

definition Future_Detach :: "nat \<Rightarrow> ('v, 'e) world \<Rightarrow> ('v, 'e) world option" where
  "Future_Detach c w = do {
     (ok, w) \<leftarrow> SetCallbackImpl False c kDrop w;
     if ok then Some w
     else do { (w, fs, nx) \<leftarrow> Here c kDrop w; check (nx = None \<and> fs = []); Some w } }"

definition Future_Ready :: "nat \<Rightarrow> ('v, 'e) world \<Rightarrow> bool option" where
  "Future_Ready c w = do { k \<leftarrow> heap w c; Some (word k \<noteq> UZero) }"

definition Future_Get_const :: "nat \<Rightarrow> ('v, 'e) world \<Rightarrow> ('v, 'e) res option option" where
  "Future_Get_const c w = do {
     ok \<leftarrow> Future_Ready c w;
     if ok then do { (r, w) \<leftarrow> MoveOrConst False c w; Some (Some r) } else Some None }"

text \<open>\<open>Touch() &&\<close>, and \<open>Get() &&\<close> once \<open>Wait\<close> has returned: the result moves out, the core goes.\<close>

definition Future_Touch :: "nat \<Rightarrow> ('v, 'e) world \<Rightarrow> (('v, 'e) res \<times> ('v, 'e) world) option" where
  "Future_Touch c w = do {
     ok \<leftarrow> Future_Ready c w; check ok;
     (r, w) \<leftarrow> MoveOrConst True c w;
     w \<leftarrow> core_DecRef c w;
     Some (r, w) }"

definition Promise_dtor :: "nat \<Rightarrow> ('v, 'e) world \<Rightarrow> (('v, 'e) world \<times> frame list) option" where
  "Promise_dtor c w = Promise_Set c stop_res w"

subsection \<open>Shared futures\<close>

definition SharedFuture_Then :: "exec \<Rightarrow> async_kind \<Rightarrow> ('v, 'e) callback \<Rightarrow> nat \<Rightarrow> nat \<Rightarrow> ('v, 'e) world \<Rightarrow>
    (('v, 'e) world \<times> frame list) option" where
  "SharedFuture_Then e ka f c cb w = SetCallback (or ct_ToUnique ct_Call) True (Some e) ka f c cb w"

definition SharedFuture_ThenInline :: "async_kind \<Rightarrow> ('v, 'e) callback \<Rightarrow> nat \<Rightarrow> nat \<Rightarrow> ('v, 'e) world \<Rightarrow>
    (('v, 'e) world \<times> frame list) option" where
  "SharedFuture_ThenInline ka f c cb w = SetCallback ct_ToUnique True None ka f c cb w"

definition SharedFuture_SubscribeInline :: "('v, 'e) callback \<Rightarrow> nat \<Rightarrow> nat \<Rightarrow> ('v, 'e) world \<Rightarrow>
    (('v, 'e) world \<times> frame list) option" where
  "SharedFuture_SubscribeInline f c cb w = SetCallback ct_Detach True None NotAsync f c cb w"

definition SharedFuture_Subscribe :: "exec \<Rightarrow> ('v, 'e) callback \<Rightarrow> nat \<Rightarrow> nat \<Rightarrow> ('v, 'e) world \<Rightarrow>
    (('v, 'e) world \<times> frame list) option" where
  "SharedFuture_Subscribe e f c cb w = SetCallback (or ct_Detach ct_Call) True (Some e) NotAsync f c cb w"

text \<open>The rvalue \<open>Touch\<close>: the last reference moves the result out, any other one copies it.\<close>

definition SharedFuture_Touch :: "nat \<Rightarrow> ('v, 'e) world \<Rightarrow> (('v, 'e) res \<times> ('v, 'e) world) option" where
  "SharedFuture_Touch c w = do {
     ok \<leftarrow> Future_Ready c w; check ok;
     k \<leftarrow> heap w c;
     (r, w) \<leftarrow> MoveOrConst (crefs k = 1) c w;
     w \<leftarrow> core_DecRef c w;
     Some (r, w) }"

definition SharedFuture_copy :: "nat \<Rightarrow> ('v, 'e) world \<Rightarrow> ('v, 'e) world option" where
  "SharedFuture_copy c w = core_IncRef c w"

definition SharedFuture_dtor :: "nat \<Rightarrow> ('v, 'e) world \<Rightarrow> ('v, 'e) world option" where
  "SharedFuture_dtor c w = core_DecRef c w"

subsection \<open>Connecting\<close>

text \<open>
  The four \<open>Connect\<close> functions from a future to a promise, by whether the future is shared; then
  the two from a shared promise, which hand the subsumed promise's core over unconditionally. The
  assertion that the cores differ is in the two functions whose cores have the same class; in the
  other two a unique core and a shared core differ anyway.
\<close>

definition Connect_unique :: "nat \<Rightarrow> nat \<Rightarrow> ('v, 'e) world \<Rightarrow> (('v, 'e) world \<times> frame list) option" where
  "Connect_unique f p w = do {
     check (f \<noteq> p);
     (ok, w) \<leftarrow> SetCallbackImpl False f p w;
     if ok then Some (w, [])
     else do { (r, w) \<leftarrow> Future_Touch f w; Promise_Set p r w } }"

definition Connect_shared :: "nat \<Rightarrow> nat \<Rightarrow> ('v, 'e) world \<Rightarrow> (('v, 'e) world \<times> frame list) option" where
  "Connect_shared f p w = do {
     check (f \<noteq> p);
     (ok, w) \<leftarrow> SetCallbackImpl True f p w;
     if ok then Some (w, [])
     else do { (r, w) \<leftarrow> MoveOrConst False f w; Promise_Set p r w } }"

definition Connect_promise :: "nat \<Rightarrow> nat \<Rightarrow> ('v, 'e) world \<Rightarrow> ('v, 'e) world option" where
  "Connect_promise p q w = do { (ok, w) \<leftarrow> SetCallbackImpl True p q w; Some w }"

text \<open>\<open>Share\<close> and \<open>Split\<close>: a fresh contract, connected; the result is its future.\<close>

definition Share :: "exec \<Rightarrow> nat \<Rightarrow> nat \<Rightarrow> ('v, 'e) world \<Rightarrow> (('v, 'e) world \<times> frame list) option" where
  "Share e f c w = do { w \<leftarrow> MakeContractOn e c w; Connect_shared f c w }"

definition Share_promise :: "exec \<Rightarrow> nat \<Rightarrow> nat \<Rightarrow> ('v, 'e) world \<Rightarrow> ('v, 'e) world option" where
  "Share_promise e p c w = do { w \<leftarrow> MakeContractOn e c w; Connect_promise p c w }"

definition Split :: "nat \<Rightarrow> nat \<Rightarrow> ('v, 'e) world \<Rightarrow> (('v, 'e) world \<times> frame list) option" where
  "Split f c w = do { w \<leftarrow> MakeSharedContract c w; Connect_unique f c w }"

subsection \<open>Run, Schedule and tasks\<close>

definition Run :: "bool \<Rightarrow> exec \<Rightarrow> async_kind \<Rightarrow> ('v, 'e) callback \<Rightarrow> nat \<Rightarrow> ('v, 'e) world \<Rightarrow>
    (('v, 'e) world \<times> frame list) option" where
  "Run shared e ka f c w = do {
     w \<leftarrow> MakeCore (or (or ct_Run ct_Call) (if shared then ct_ToShared else ct_ToUnique)) ka f c w;
     w \<leftarrow> set_executor c (Some e) w;
     Submit (Some e) c w }"

definition AsyncContract :: "bool \<Rightarrow> exec \<Rightarrow> ('v, 'e) contract_body \<Rightarrow> nat \<Rightarrow> ('v, 'e) world \<Rightarrow>
    (('v, 'e) world \<times> frame list) option" where
  "AsyncContract shared e b c w = do {
     w \<leftarrow> MakePromiseCore shared b c w;
     w \<leftarrow> set_executor c (Some e) w;
     Submit (Some e) c w }"

definition Schedule :: "exec \<Rightarrow> async_kind \<Rightarrow> ('v, 'e) callback \<Rightarrow> nat \<Rightarrow> ('v, 'e) world \<Rightarrow> ('v, 'e) world option" where
  "Schedule e ka f c w = do {
     w \<leftarrow> MakeCore (or (or ct_Run ct_Call) ct_ToUnique) ka f c w;
     set_executor c (Some e) w }"

definition LazyContract :: "exec \<Rightarrow> ('v, 'e) contract_body \<Rightarrow> nat \<Rightarrow> ('v, 'e) world \<Rightarrow> ('v, 'e) world option" where
  "LazyContract e b c w = do { w \<leftarrow> MakePromiseCore False b c w; set_executor c (Some e) w }"

definition Task_Then :: "exec option \<Rightarrow> async_kind \<Rightarrow> ('v, 'e) callback \<Rightarrow> nat \<Rightarrow> nat \<Rightarrow> ('v, 'e) world \<Rightarrow>
    (('v, 'e) world \<times> frame list) option" where
  "Task_Then e ka f c cb w =
     SetCallback (or (or ct_ToUnique ct_Call) ct_Lazy) False e ka f c cb w"

definition Task_ThenInline :: "async_kind \<Rightarrow> ('v, 'e) callback \<Rightarrow> nat \<Rightarrow> nat \<Rightarrow> ('v, 'e) world \<Rightarrow>
    (('v, 'e) world \<times> frame list) option" where
  "Task_ThenInline ka f c cb w = SetCallback (or ct_ToUnique ct_Lazy) False None ka f c cb w"

definition Start_on :: "nat \<Rightarrow> exec \<Rightarrow> ('v, 'e) world \<Rightarrow> (('v, 'e) world \<times> frame list) option" where
  "Start_on c e w = do {
     (h, w) \<leftarrow> MoveToCaller c w;
     w \<leftarrow> set_executor h (Some e) w;
     Submit (Some e) h w }"

definition Start :: "nat \<Rightarrow> ('v, 'e) world \<Rightarrow> (('v, 'e) world \<times> frame list) option" where
  "Start c w = do {
     (h, w) \<leftarrow> MoveToCaller c w;
     k \<leftarrow> heap w h;
     Submit (executor k) h w }"

definition Task_Detach :: "nat \<Rightarrow> ('v, 'e) world \<Rightarrow> (('v, 'e) world \<times> frame list) option" where
  "Task_Detach c w = do { w \<leftarrow> StoreCallbackImpl c kDrop w; Start c w }"

definition Task_Detach_on :: "exec \<Rightarrow> nat \<Rightarrow> ('v, 'e) world \<Rightarrow> (('v, 'e) world \<times> frame list) option" where
  "Task_Detach_on e c w = do { w \<leftarrow> StoreCallbackImpl c kDrop w; Start_on c e w }"

definition Task_Cancel :: "nat \<Rightarrow> ('v, 'e) world \<Rightarrow> (('v, 'e) world \<times> frame list) option" where
  "Task_Cancel c w = Task_Detach_on EInlineStop c w"

definition Task_ToFuture :: "exec option \<Rightarrow> nat \<Rightarrow> ('v, 'e) world \<Rightarrow> (('v, 'e) world \<times> frame list) option" where
  "Task_ToFuture e c w = (case e of None \<Rightarrow> Start c w | Some x \<Rightarrow> Start_on c x w)"

subsection \<open>A chain of continuations through the API\<close>

text \<open>A stage attached by the function that the type of the future and the call select.\<close>

definition Then_stage :: "nat \<Rightarrow> nat \<Rightarrow> ('v, 'e) stage \<Rightarrow> ('v, 'e) world \<Rightarrow> (('v, 'e) world \<times> frame list) option" where
  "Then_stage p c s w =
     (if on_exec s then (case stage_exec s of Some e \<Rightarrow> Future_Then e NotAsync (fn s) p c w
                         | None \<Rightarrow> FutureOn_Then NotAsync (fn s) p c w)
      else Future_ThenInline NotAsync (fn s) p c w)"

definition stage_ok :: "('v, 'e) stage \<Rightarrow> bool" where
  "stage_ok s \<longleftrightarrow> cb_sync (fn s) \<and> (\<not> on_exec s \<longrightarrow> stage_exec s = None) \<and> \<not> in_task s"

definition stage_core :: "('v, 'e) stage \<Rightarrow> nat uptr \<Rightarrow> ('v, 'e) core" where
  "stage_core s u = \<lparr>kind = UniqueK, body = BCore (stage_type s) NotAsync (Some (fn s)), word = u,
     store = Self None 0, crefs = 1, executor = stage_exec s, cnext = None\<rparr>"

fun then_all :: "nat \<Rightarrow> (nat \<times> ('v, 'e) stage) list \<Rightarrow> ('v, 'e) world \<Rightarrow> (nat \<times> ('v, 'e) world) option" where
  "then_all p [] w = Some (p, w)"
| "then_all p ((c, s) # ss) w = do {
     (w, fs) \<leftarrow> Then_stage p c s w;
     w \<leftarrow> drive fs w;
     then_all c ss w }"

lemmas ct_defs = ct_Run_def ct_Detach_def ct_FromUnique_def ct_FromShared_def ct_ToUnique_def
  ct_ToShared_def ct_Call_def ct_Lazy_def

lemma SetCallback_stage:
  assumes "ty = (if on_exec s then or ct_ToUnique ct_Call else ct_ToUnique)"
    and "heap w c = None" "heap w p = Some kp" "word kp \<noteq> UMax \<Longrightarrow> word kp = UZero" "\<not> in_task s"
  shows "SetCallback ty False (stage_exec s) NotAsync (fn s) p c w =
    Some (if word kp = UZero then (put p (kp\<lparr>word := UAt c\<rparr>) (put c (stage_core s UZero) w), [FLoop p None])
          else (put c (stage_core s UZero) w, [FLoop p (Some c)]))"
proof -
  have "p \<noteq> c" using assms(2,3) by auto
  moreover have "or ty ct_FromUnique = stage_type s"
    by (simp add: assms(1,5) stage_type_def ct_defs)
  moreover have "ct_has ct_Detach ty = False" "ct_has ct_Lazy ty = False" "ct_has ct_ToShared (stage_type s) = False"
      "ct_has ct_Detach (stage_type s) = False"
    by (simp_all add: assms(1,5) ct_has_def ct_defs stage_type_def)
  ultimately show ?thesis using assms(2-4)
    by (auto simp: SetCallback_def MakeCore_def alloc_def put_def set_executor_def SetInlineImpl_def
        SetCallbackImpl_def new_core_def stage_core_def)
qed

lemma Then_stage_eq:
  assumes "stage_ok s" "heap w c = None" "heap w p = Some kp" "word kp = UZero \<or> word kp = UMax"
  shows "Then_stage p c s w =
    Some (if word kp = UZero then (put p (kp\<lparr>word := UAt c\<rparr>) (put c (stage_core s UZero) w), [FLoop p None])
          else (put c (stage_core s UZero) w, [FLoop p (Some c)]))"
proof -
  have "Then_stage p c s w = SetCallback (if on_exec s then or ct_ToUnique ct_Call else ct_ToUnique) False
      (stage_exec s) NotAsync (fn s) p c w"
    using assms(1) by (auto simp: Then_stage_def Future_Then_def FutureOn_Then_def Future_ThenInline_def
        stage_ok_def split: option.split)
  moreover have W: "word kp \<noteq> UMax \<Longrightarrow> word kp = UZero" using assms(4) by blast
  ultimately show ?thesis using SetCallback_stage [OF refl assms(2,3) W] assms(1) by (simp add: stage_ok_def)
qed

text \<open>
  The world while the promise \<open>c\<close> is not yet set and the stages \<open>ss\<close> hang on it (\<open>v\<close> is the last word), and once the
  result has reached the core \<open>l\<close>; \<open>w0\<close> is the world without the chain.
\<close>

definition pending_at :: "('v, 'e) world \<Rightarrow> ('v, 'e) world \<Rightarrow> nat \<Rightarrow> exec \<Rightarrow> (nat \<times> ('v, 'e) stage) list \<Rightarrow>
    nat uptr \<Rightarrow> bool" where
  "pending_at w0 w c e ss v \<longleftrightarrow> queue w0 = [] \<and> queue w = [] \<and> distinct (c # map fst ss)
     \<and> (\<forall>x \<in> set (c # map fst ss). heap w0 x = None)
     \<and> (\<forall>x. x \<notin> set (c # map fst ss) \<longrightarrow> heap w x = heap w0 x)
     \<and> (\<exists>u. heap w c = Some ((new_core UniqueK BResult Raw 1 (Some e))\<lparr>word := u\<rparr>) \<and> attached w u ss v)"

definition done_at :: "('v, 'e) world \<Rightarrow> ('v, 'e) world \<Rightarrow> nat \<Rightarrow> exec \<Rightarrow> ('v, 'e) res \<Rightarrow> bool" where
  "done_at w0 w l e r \<longleftrightarrow> queue w0 = [] \<and> heap w0 l = None
     \<and> (\<exists>k. ready k e r \<and> w = w0\<lparr>heap := (heap w0)(l := Some k)\<rparr>)"

lemma finished_done:
  assumes "finished w (set (butlast (p # xs))) (last (p # xs)) e r w'" "queue w0 = []"
    and "\<forall>x \<in> set (p # xs). heap w0 x = None" "\<forall>x. x \<notin> set (p # xs) \<longrightarrow> heap w x = heap w0 x"
  shows "done_at w0 w' (last (p # xs)) e r"
proof -
  let ?l = "last (p # xs)"
  obtain k where k: "heap w' ?l = Some k" "ready k e r" using assms(1) by (auto simp: finished_def)
  have sub: "set (p # xs) = insert ?l (set (butlast (p # xs)))"
    by (metis append_butlast_last_id list.distinct(1) rotate1.simps(2) set_rotate1 list.simps(15))
  have "heap w' x = ((heap w0)(?l := Some k)) x" for x
  proof (cases "x = ?l")
    case False
    then have "heap w' x = (if x \<in> set (butlast (p # xs)) then None else heap w x)"
      using assms(1) by (simp add: finished_def)
    then show ?thesis using False assms(3,4) sub by auto
  qed (use k in simp)
  moreover have "queue w' = queue w0" using assms(1,2) by (simp add: finished_def)
  ultimately have "w' = w0\<lparr>heap := (heap w0)(?l := Some k)\<rparr>" by (intro world.equality) auto
  moreover have "heap w0 ?l = None" using assms(3) sub by simp
  ultimately show ?thesis using k assms(2) by (auto simp: done_at_def)
qed

lemma attached_snoc:
  assumes "attached w u ss UZero" "distinct (map fst ss)" "c \<notin> fst ` set ss"
    and "waiting s kc" "store kc = Self None 0" "executor kc = stage_exec s" "word kc = UZero"
    and "ss \<noteq> []"
  shows "\<exists>k. heap w (fst (last ss)) = Some k \<and> word k = UZero
    \<and> attached (put (fst (last ss)) (k\<lparr>word := UAt c\<rparr>) (put c kc w)) u (ss @ [(c, s)]) UZero"
  using assms
proof (induction ss arbitrary: u)
  case (Cons a ss)
  obtain d t where a: "a = (d, t)" by (cases a)
  from Cons.prems obtain k where k: "u = UAt d" "heap w d = Some k" "waiting t k" "store k = Self None 0"
      "executor k = stage_exec t" "attached w (word k) ss UZero" by (auto simp: a)
  show ?case
  proof (cases "ss = []")
    case True
    then have "word k = UZero" using k(6) by simp
    moreover have "c \<noteq> d" using Cons.prems(3) by (auto simp: a)
    ultimately show ?thesis using True k Cons.prems(4-7) by (auto simp: a put_def waiting_def)
  next
    case False
    with Cons.IH [OF k(6)] Cons.prems obtain k' where k': "heap w (fst (last ss)) = Some k'" "word k' = UZero"
      "attached (put (fst (last ss)) (k'\<lparr>word := UAt c\<rparr>) (put c kc w)) (word k) (ss @ [(c, s)]) UZero"
      by auto
    have "fst (last ss) \<in> fst ` set ss" using False by simp
    then have "d \<noteq> fst (last ss)" "d \<noteq> c" using Cons.prems(2,3) by (auto simp: a)
    then have "heap (put (fst (last ss)) (k'\<lparr>word := UAt c\<rparr>) (put c kc w)) d = Some k"
      using k(2) by (simp add: put_def)
    then show ?thesis using k k' False by (auto simp: a)
  qed
qed simp

lemma then_pending:
  assumes P: "pending_at w0 w p e ss UZero" and s: "stage_ok s" and c: "heap w0 c = None" "c \<notin> set (p # map fst ss)"
  shows "\<exists>w'. (\<exists>fs. Then_stage (last (p # map fst ss)) c s w = Some (w', fs) \<and> drive fs w' = Some w')
    \<and> pending_at w0 w' p e (ss @ [(c, s)]) UZero"
proof -
  let ?l = "last (p # map fst ss)"
  obtain u where kp: "heap w p = Some ((new_core UniqueK BResult Raw 1 (Some e))\<lparr>word := u\<rparr>)"
      and at: "attached w u ss UZero" and d: "distinct (p # map fst ss)" and q: "queue w = []"
    using P by (auto simp: pending_at_def)
  have fresh: "heap w c = None" using P c by (auto simp: pending_at_def)
  have ws: "waiting s (stage_core s UZero)" using s by (simp add: waiting_def stage_core_def stage_ok_def)
  have "\<exists>k u'. heap w ?l = Some k \<and> word k = UZero
      \<and> heap (put ?l (k\<lparr>word := UAt c\<rparr>) (put c (stage_core s UZero) w)) p
        = Some ((new_core UniqueK BResult Raw 1 (Some e))\<lparr>word := u'\<rparr>)
      \<and> attached (put ?l (k\<lparr>word := UAt c\<rparr>) (put c (stage_core s UZero) w)) u' (ss @ [(c, s)]) UZero"
  proof (cases "ss = []")
    case True
    then show ?thesis using kp at c ws
      by (auto simp: put_def new_core_def waiting_def stage_core_def)
  next
    case False
    obtain k where k: "heap w (fst (last ss)) = Some k" "word k = UZero"
        "attached (put (fst (last ss)) (k\<lparr>word := UAt c\<rparr>) (put c (stage_core s UZero) w)) u (ss @ [(c, s)]) UZero"
      using attached_snoc [OF at _ _ ws _ _ _ False, of c] d c by (auto simp: stage_core_def)
    have l: "?l = fst (last ss)" using False by (simp add: last_map)
    have "fst (last ss) \<in> fst ` set ss" using False by simp
    then have "p \<noteq> fst (last ss)" using d by auto
    then show ?thesis unfolding l using k kp c by (intro exI [of _ k] exI [of _ u]) (auto simp: put_def)
  qed
  then obtain k u' where k: "heap w ?l = Some k" "word k = UZero"
      and p': "heap (put ?l (k\<lparr>word := UAt c\<rparr>) (put c (stage_core s UZero) w)) p
        = Some ((new_core UniqueK BResult Raw 1 (Some e))\<lparr>word := u'\<rparr>)"
      and at': "attached (put ?l (k\<lparr>word := UAt c\<rparr>) (put c (stage_core s UZero) w)) u' (ss @ [(c, s)]) UZero"
    by blast
  let ?w = "put ?l (k\<lparr>word := UAt c\<rparr>) (put c (stage_core s UZero) w)"
  have L: "?l \<in> set (p # map fst ss)" by (rule last_in_set) simp
  have "heap ?w x = heap w0 x" if "x \<notin> set (p # map fst (ss @ [(c, s)]))" for x
  proof -
    have "x \<noteq> ?l" "x \<noteq> c" "x \<notin> set (p # map fst ss)" using that L by (metis Un_iff in_set_conv_decomp map_append set_append list.set_intros list.simps(9) fst_conv append_Cons)+
    then show ?thesis using P unfolding pending_at_def put_def by simp
  qed
  then have "pending_at w0 ?w p e (ss @ [(c, s)]) UZero"
    using P c p' at' unfolding pending_at_def by (auto simp: put_def)
  moreover have "Then_stage ?l c s w = Some (?w, [FLoop ?l None])"
    using Then_stage_eq [OF s fresh k(1)] k(2) by simp
  moreover have "drive [FLoop ?l None] ?w = Some ?w" using q by (intro drive_end) (simp_all add: put_def)
  ultimately show ?thesis by blast
qed

lemma then_all_pending:
  assumes "pending_at w0 w p e ss UZero" "\<forall>(c, s) \<in> set ts. stage_ok s"
    and "distinct (p # map fst (ss @ ts))" "\<forall>c \<in> set (map fst ts). heap w0 c = None"
  shows "\<exists>w'. then_all (last (p # map fst ss)) ts w = Some (last (p # map fst (ss @ ts)), w')
    \<and> pending_at w0 w' p e (ss @ ts) UZero"
  using assms
proof (induction ts arbitrary: w ss)
  case (Cons a ts)
  obtain c s where a: "a = (c, s)" by (cases a)
  obtain w1 fs where w1: "Then_stage (last (p # map fst ss)) c s w = Some (w1, fs)" "drive fs w1 = Some w1"
      "pending_at w0 w1 p e (ss @ [(c, s)]) UZero"
    using then_pending [OF Cons.prems(1), of s c] Cons.prems(2-4) by (auto simp: a)
  have "\<exists>w'. then_all (last (p # map fst (ss @ [(c, s)]))) ts w1 = Some (last (p # map fst ((ss @ [(c, s)]) @ ts)), w')
    \<and> pending_at w0 w' p e ((ss @ [(c, s)]) @ ts) UZero"
    by (rule Cons.IH [OF w1(3)]) (use Cons.prems(2-4) in \<open>auto simp: a\<close>)
  then show ?case using w1 by (auto simp: a)
qed auto

text \<open>Setting the promise runs the whole chain, up to the callback behind it.\<close>

lemma set_chain:
  assumes P: "pending_at w0 w p e ss v" and v: "v \<noteq> UMax"
  shows "\<exists>w1 fs w' hs. Promise_Set p r w = Some (w1, fs) \<and> idle hs
    \<and> drive fs w1 = drive (FLoop (last (p # map fst ss)) (ptr_of v) # hs) w'
    \<and> done_at w0 w' (last (p # map fst ss)) (final_exec e (map snd ss)) (pipe_res e (map snd ss) r)"
proof -
  obtain u where kp: "heap w p = Some ((new_core UniqueK BResult Raw 1 (Some e))\<lparr>word := u\<rparr>)"
      and at: "attached w u ss v" and d: "distinct (p # map fst ss)" and q: "queue w = []" "queue w0 = []"
    using P by (auto simp: pending_at_def)
  have u: "u \<noteq> UMax" by (rule attached_word [OF at v])
  let ?k = "(new_core UniqueK BResult (Full r) 1 (Some e))\<lparr>word := UMax\<rparr>"
  let ?w = "put p ?k w"
  have set: "Promise_Set p r w = Some (?w, [FLoop p (head_of ss v)])"
    using kp u by (simp add: Promise_Set_def Store_def SetResultImpl_def put_def new_core_def
        attached_ptr [OF at, symmetric])
  have "attached ?w u ss v" by (rule attached_frame [OF at]) (use d in \<open>auto simp: put_def\<close>)
  then have "chain_at ?w p e r ss v"
    unfolding chain_at_def using q d v by (auto simp: put_def ready_def new_core_def)
  from drive_chain [OF this, of "[]"] obtain w' hs where
    D: "drive [FLoop p (head_of ss v)] ?w = drive (FLoop (last (p # map fst ss)) (ptr_of v) # hs) w'" "idle hs" and
    F: "finished ?w (set (butlast (p # map fst ss))) (last (p # map fst ss)) (final_exec e (map snd ss))
      (pipe_res e (map snd ss) r) w'" by auto
  have "done_at w0 w' (last (p # map fst ss)) (final_exec e (map snd ss)) (pipe_res e (map snd ss) r)"
    by (rule finished_done [OF F q(2)]) (use P in \<open>auto simp: pending_at_def put_def\<close>)
  then show ?thesis using set D by blast
qed

lemma done_queue: "done_at w0 w l e r \<Longrightarrow> queue w = []"
  by (auto simp: done_at_def)

lemma set_pending:
  assumes P: "pending_at w0 w p e ss UZero"
  shows "\<exists>w1 fs w'. Promise_Set p r w = Some (w1, fs) \<and> drive fs w1 = Some w'
    \<and> done_at w0 w' (last (p # map fst ss)) (final_exec e (map snd ss)) (pipe_res e (map snd ss) r)"
proof -
  obtain w1 fs w' hs where W: "Promise_Set p r w = Some (w1, fs)" "idle hs"
      "drive fs w1 = drive (FLoop (last (p # map fst ss)) None # hs) w'"
      "done_at w0 w' (last (p # map fst ss)) (final_exec e (map snd ss)) (pipe_res e (map snd ss) r)"
    using set_chain [OF P, of r] by auto
  then have "drive fs w1 = Some w'" using done_queue by (metis drive_end idle_simps(2))
  with W show ?thesis by blast
qed

text \<open>A continuation on a ready future runs at once.\<close>

lemma then_done:
  assumes D: "done_at w0 w l e r" and s: "stage_ok s" and c: "heap w0 c = None" "c \<noteq> l"
  shows "\<exists>w1 fs w'. Then_stage l c s w = Some (w1, fs) \<and> drive fs w1 = Some w'
    \<and> done_at w0 w' c (eff_exec e s) (stage_res e s r)"
proof -
  obtain k where k: "ready k e r" "w = w0\<lparr>heap := (heap w0)(l := Some k)\<rparr>" and q: "queue w0 = []"
      and l: "heap w0 l = None"
    using D by (auto simp: done_at_def)
  let ?w = "put c (stage_core s UZero) w"
  have t: "Then_stage l c s w = Some (?w, [FLoop l (Some c)])"
    using Then_stage_eq [OF s, of w c l k] k c by (simp add: ready_def)
  have "waiting s (stage_core s UZero)" using s by (simp add: waiting_def stage_core_def stage_ok_def)
  then have "chain_at ?w l e r [(c, s)] UZero"
    unfolding chain_at_def using q k c
    by (auto simp: put_def stage_core_def intro!: exI [of _ "UAt c"])
  from drive_chain [OF this, of "[]"] obtain w' hs where
    E: "drive [FLoop l (Some c)] ?w = drive (FLoop c None # hs) w'" "idle hs" and
    F: "finished ?w (set (butlast (l # [c]))) (last (l # [c])) (eff_exec e s) (stage_res e s r) w'"
    by (auto simp: head_of_def)
  have "drive [FLoop l (Some c)] ?w = Some w'" using E F by (simp add: drive_end finished_def)
  moreover have "done_at w0 w' (last (l # [c])) (eff_exec e s) (stage_res e s r)"
    by (rule finished_done [OF F q]) (use k c l in \<open>auto simp: put_def\<close>)
  ultimately show ?thesis using t by auto
qed

lemma then_all_done:
  assumes "done_at w0 w l e r" "\<forall>(c, s) \<in> set ts. stage_ok s" "distinct (l # map fst ts)"
    "\<forall>c \<in> set (map fst ts). heap w0 c = None"
  shows "\<exists>w'. then_all l ts w = Some (last (l # map fst ts), w')
    \<and> done_at w0 w' (last (l # map fst ts)) (final_exec e (map snd ts)) (pipe_res e (map snd ts) r)"
  using assms
proof (induction ts arbitrary: w l e r)
  case (Cons a ts)
  obtain c s where a: "a = (c, s)" by (cases a)
  obtain w1 fs w2 where w: "Then_stage l c s w = Some (w1, fs)" "drive fs w1 = Some w2"
      "done_at w0 w2 c (eff_exec e s) (stage_res e s r)"
    using then_done [OF Cons.prems(1), of s c] Cons.prems(2-4) by (auto simp: a)
  have "\<exists>w'. then_all c ts w2 = Some (last (c # map fst ts), w')
    \<and> done_at w0 w' (last (c # map fst ts)) (final_exec (eff_exec e s) (map snd ts))
        (pipe_res (eff_exec e s) (map snd ts) (stage_res e s r))"
    by (rule Cons.IH [OF w(3)]) (use Cons.prems(2-4) in \<open>auto simp: a\<close>)
  then show ?case using w by (auto simp: a)
qed auto

lemma touch_done:
  assumes "done_at w0 w l e r"
  shows "Future_Touch l w = Some (r, w0)" and "Future_Detach l w = Some w0 \<or> heap w0 kDrop \<noteq> Some drop_core"
proof -
  obtain k where k: "ready k e r" "w = w0\<lparr>heap := (heap w0)(l := Some k)\<rparr>" and l: "heap w0 l = None"
    using assms by (auto simp: done_at_def)
  have w0: "w0\<lparr>heap := (heap w0)(l := None)\<rparr> = w0" using l by (cases w0) (auto simp: fun_upd_idem)
  show "Future_Touch l w = Some (r, w0)" using k w0
    by (simp add: Future_Touch_def Future_Ready_def MoveOrConst_def core_DecRef_def put_def ready_def core_dtor_ok_def)
  show "Future_Detach l w = Some w0 \<or> heap w0 kDrop \<noteq> Some drop_core"
  proof (rule disjCI)
    assume "\<not> heap w0 kDrop \<noteq> Some drop_core"
    then show "Future_Detach l w = Some w0" using k w0 l
      by (auto simp: Future_Detach_def SetCallbackImpl_def Here_def core_DecRef_def ready_def core_dtor_ok_def drop_core_def)
  qed
qed

subsection \<open>The pipeline as a program\<close>

lemma pipe_res_append: "pipe_res e (xs @ ys) r = pipe_res (final_exec e xs) ys (pipe_res e xs r)"
  by (induction xs arbitrary: e r) auto

lemma contract_pending:
  assumes "queue w0 = []" "heap w0 c = None"
  shows "\<exists>w. MakeContractOn e c w0 = Some w \<and> pending_at w0 w c e [] UZero"
  using assms by (auto simp: MakeContractOn_def alloc_def pending_at_def put_def new_core_def)

definition pipeline :: "exec \<Rightarrow> nat \<Rightarrow> (nat \<times> ('v, 'e) stage) list \<Rightarrow> ('v, 'e) res \<Rightarrow>
    (nat \<times> ('v, 'e) stage) list \<Rightarrow> ('v, 'e) world \<Rightarrow> (nat \<times> ('v, 'e) world) option" where
  "pipeline e c before r after w = do {
     w \<leftarrow> MakeContractOn e c w;
     (l, w) \<leftarrow> then_all c before w;
     (w, fs) \<leftarrow> Promise_Set c r w;
     w \<leftarrow> drive fs w;
     then_all l after w }"

definition fresh_cores :: "('v, 'e) world \<Rightarrow> nat list \<Rightarrow> bool" where
  "fresh_cores w cs \<longleftrightarrow> queue w = [] \<and> distinct cs \<and> (\<forall>c \<in> set cs. heap w c = None)"

lemma pipeline_done:
  assumes "fresh_cores w0 (c # map fst (xs @ ys))" "\<forall>(c, s) \<in> set (xs @ ys). stage_ok s"
  shows "\<exists>l w e'. pipeline e c xs r ys w0 = Some (l, w) \<and> done_at w0 w l e' (pipe_res e (map snd (xs @ ys)) r)"
proof -
  have F: "queue w0 = []" "distinct (c # map fst (xs @ ys))" "\<forall>x \<in> set (c # map fst (xs @ ys)). heap w0 x = None"
    using assms(1) by (simp_all add: fresh_cores_def)
  obtain w1 where w1: "MakeContractOn e c w0 = Some w1" "pending_at w0 w1 c e [] UZero"
    using contract_pending [of w0 c e] F by auto
  obtain w2 where w2: "then_all c xs w1 = Some (last (c # map fst xs), w2)" "pending_at w0 w2 c e xs UZero"
    using then_all_pending [OF w1(2), of xs] F assms(2) by auto
  obtain w3 fs w4 where w4: "Promise_Set c r w2 = Some (w3, fs)" "drive fs w3 = Some w4"
      "done_at w0 w4 (last (c # map fst xs)) (final_exec e (map snd xs)) (pipe_res e (map snd xs) r)"
    using set_pending [OF w2(2), of r] by blast
  let ?l = "last (c # map fst xs)"
  have L: "?l \<in> set (c # map fst xs)" by (rule last_in_set) simp
  have "?l \<notin> set (map fst ys)" using F(2) L by (metis append_Cons disjoint_iff distinct_append map_append)
  then have "distinct (?l # map fst ys)" using F(2) by simp
  then obtain w5 where w5: "then_all ?l ys w4 = Some (last (?l # map fst ys), w5)"
      "done_at w0 w5 (last (?l # map fst ys)) (final_exec (final_exec e (map snd xs)) (map snd ys))
        (pipe_res (final_exec e (map snd xs)) (map snd ys) (pipe_res e (map snd xs) r))"
    using then_all_done [OF w4(3), of ys] F assms(2) by auto
  have "pipeline e c xs r ys w0 = Some (last (?l # map fst ys), w5)"
    using w1 w2 w4 w5 by (simp add: pipeline_def)
  moreover have "pipe_res (final_exec e (map snd xs)) (map snd ys) (pipe_res e (map snd xs) r)
      = pipe_res e (map snd (xs @ ys)) r" by (simp add: pipe_res_append)
  ultimately show ?thesis using w5(2) by auto
qed

text \<open>C1: a pipeline computes the composition of its stages and leaks nothing. A contract, any
  number of continuations attached before and after the promise is set, each inline or on an
  executor (which calls it in place, drops it, or queues it for a worker): no operation fails, the
  future at the end is ready with the composed result, where values skip error callbacks, errors
  skip value callbacks, thrown exceptions become errors and a stopped executor makes its stage see
  \<open>StopTag\<close>; and after the result is taken, or the future dropped, the heap is what it was.\<close>

theorem pipeline_computes:
  assumes "fresh_cores w0 (c # map fst (xs @ ys))" "\<forall>(c, s) \<in> set (xs @ ys). stage_ok s"
    and "heap w0 kDrop = Some drop_core"
  shows "\<exists>l w. pipeline e c xs r ys w0 = Some (l, w)
     \<and> Future_Touch l w = Some (pipe_res e (map snd (xs @ ys)) r, w0) \<and> Future_Detach l w = Some w0"
  using pipeline_done [OF assms(1,2), of e r] touch_done assms(3) by metis

text \<open>A world with nothing in it but the static drop core, and a pipeline in it.\<close>

definition demo_world :: "(int, string) world" where
  "demo_world = \<lparr>heap = [0 \<mapsto> drop_core], queue = []\<rparr>"

definition demo_before :: "(nat \<times> (int, string) stage) list" where
  "demo_before =
    [(2, \<lparr>on_exec = True, stage_exec = Some (EQueue 1),
      fn = OnValue (\<lambda>v. case v of Val i \<Rightarrow> Returns (Inr (Val (2 * i))) | Unit \<Rightarrow> Returns (Inr Unit)),
      in_task = False\<rparr>),
     (3, \<lparr>on_exec = False, stage_exec = None, fn = OnValue (\<lambda>v. Throws (Exn 9 (UserException ''no''))),
      in_task = False\<rparr>)]"

definition demo_after :: "(nat \<times> (int, string) stage) list" where
  "demo_after =
    [(4, \<lparr>on_exec = True, stage_exec = None, fn = OnError (\<lambda>e. Returns (Inr (Val 7))), in_task = False\<rparr>)]"

theorem pipeline_computes_witness:
  "\<exists>l w. pipeline EInline 1 demo_before (Inr (Val 21)) demo_after demo_world = Some (l, w)
     \<and> Future_Touch l w = Some (Inr (Val 7), demo_world)"
proof -
  have "fresh_cores demo_world (1 # map fst (demo_before @ demo_after))"
    by (simp add: fresh_cores_def demo_world_def demo_before_def demo_after_def)
  moreover have "\<forall>(c, s) \<in> set (demo_before @ demo_after). stage_ok s"
    by (auto simp: demo_before_def demo_after_def stage_ok_def out_sync_def split: payload.split)
  moreover have "heap demo_world kDrop = Some drop_core" by (simp add: demo_world_def kDrop_def)
  moreover have "pipe_res EInline (map snd (demo_before @ demo_after)) (Inr (Val 21)) = Inr (Val 7)"
    by (simp add: demo_before_def demo_after_def eff_exec_def stage_res_def)
  ultimately show ?thesis
    using pipeline_computes [of demo_world 1 demo_before demo_after EInline "Inr (Val 21)"] by metis
qed

text \<open>The last callback word of a chain is the only place that another callback changes.\<close>

lemma attached_retarget:
  assumes "attached w u ss v" "distinct (map fst ss)" "ss \<noteq> []"
  shows "\<exists>k. heap w (fst (last ss)) = Some k \<and> word k = v
    \<and> attached (put (fst (last ss)) (k\<lparr>word := v'\<rparr>) w) u ss v'"
  using assms
proof (induction ss arbitrary: u)
  case (Cons a ss)
  obtain c s where a: "a = (c, s)" by (cases a)
  from Cons.prems obtain k where k: "u = UAt c" "heap w c = Some k" "waiting s k" "store k = Self None 0"
      "executor k = stage_exec s" "attached w (word k) ss v" by (auto simp: a)
  show ?case
  proof (cases "ss = []")
    case True
    then show ?thesis using k by (auto simp: a put_def waiting_def)
  next
    case ne: False
    then have "fst (last ss) \<in> fst ` set ss" by simp
    then have "c \<noteq> fst (last ss)" using Cons.prems(2) by (auto simp: a)
    moreover obtain k' where "heap w (fst (last ss)) = Some k'" "word k' = v"
        "attached (put (fst (last ss)) (k'\<lparr>word := v'\<rparr>) w) (word k) ss v'"
      using Cons.IH [OF k(6)] Cons.prems(2) ne by auto
    ultimately show ?thesis using k ne by (auto simp: a put_def)
  qed
qed simp

text \<open>Detaching a future whose promise is not set leaves the drop core as the last callback.\<close>

lemma retarget:
  assumes P: "pending_at w0 w p e ss UZero" and x: "x \<notin> set (p # map fst ss)"
  shows "\<exists>w'. SetCallbackImpl False (last (p # map fst ss)) x w = Some (True, w')
    \<and> pending_at w0 w' p e ss (UAt x)
    \<and> (\<forall>y. y \<notin> set (p # map fst ss) \<longrightarrow> heap w' y = heap w y)"
proof -
  let ?l = "last (p # map fst ss)"
  obtain u where kp: "heap w p = Some ((new_core UniqueK BResult Raw 1 (Some e))\<lparr>word := u\<rparr>)"
      and at: "attached w u ss UZero" and d: "distinct (p # map fst ss)"
    using P by (auto simp: pending_at_def)
  have L: "?l \<in> set (p # map fst ss)" by (rule last_in_set) simp
  have "\<exists>k u'. heap w ?l = Some k \<and> word k = UZero
      \<and> heap (put ?l (k\<lparr>word := UAt x\<rparr>) w) p = Some ((new_core UniqueK BResult Raw 1 (Some e))\<lparr>word := u'\<rparr>)
      \<and> attached (put ?l (k\<lparr>word := UAt x\<rparr>) w) u' ss (UAt x)"
  proof (cases "ss = []")
    case True
    then show ?thesis using kp at by (auto simp: put_def new_core_def)
  next
    case False
    have l: "?l = fst (last ss)" using False by (simp add: last_map)
    have "fst (last ss) \<in> fst ` set ss" using False by simp
    then have "p \<noteq> fst (last ss)" using d by auto
    then show ?thesis unfolding l using kp attached_retarget [OF at _ False, of "UAt x"] d
      by (auto simp: put_def)
  qed
  then obtain k u' where k: "heap w ?l = Some k" "word k = UZero"
      "heap (put ?l (k\<lparr>word := UAt x\<rparr>) w) p = Some ((new_core UniqueK BResult Raw 1 (Some e))\<lparr>word := u'\<rparr>)"
      "attached (put ?l (k\<lparr>word := UAt x\<rparr>) w) u' ss (UAt x)" by blast
  have off: "heap (put ?l (k\<lparr>word := UAt x\<rparr>) w) y = heap w y" if "y \<notin> set (p # map fst ss)" for y
    using that L by (metis put_def fun_upd_apply world.select_convs(1) world.surjective world.update_convs(1))
  have "SetCallbackImpl False ?l x w = Some (True, put ?l (k\<lparr>word := UAt x\<rparr>) w)"
    using k by (simp add: SetCallbackImpl_def)
  moreover have "pending_at w0 (put ?l (k\<lparr>word := UAt x\<rparr>) w) p e ss (UAt x)"
    using P k off unfolding pending_at_def by (auto simp: put_def)
  ultimately show ?thesis using off by blast
qed

lemma drop_done:
  assumes D: "done_at w0 w l e r" and k0: "heap w0 kDrop = Some drop_core" and hs: "idle hs"
  shows "drive (FLoop l (Some kDrop) # hs) w = Some w0"
proof -
  obtain k where k: "ready k e r" "w = w0\<lparr>heap := (heap w0)(l := Some k)\<rparr>" and l: "heap w0 l = None"
      and q: "queue w0 = []" using D by (auto simp: done_at_def)
  have w0: "w0\<lparr>heap := (heap w0)(l := None)\<rparr> = w0" using l by (cases w0) (auto simp: fun_upd_idem)
  have "l \<noteq> kDrop" using k0 l by auto
  then have "heap w kDrop = Some drop_core" using k0 k by simp
  then have "exec_frame (FLoop l (Some kDrop)) w = Some (w0, [FLoop kDrop None])"
    using k w0 by (simp add: Here_def drop_core_def core_DecRef_def ready_def core_dtor_ok_def)
  then show ?thesis using hs q drive_step [of "FLoop l (Some kDrop)" w w0 "[FLoop kDrop None]" hs]
    by (simp add: drive_end)
qed

definition detached :: "exec \<Rightarrow> nat \<Rightarrow> (nat \<times> ('v, 'e) stage) list \<Rightarrow> ('v, 'e) res option \<Rightarrow>
    ('v, 'e) world \<Rightarrow> ('v, 'e) world option" where
  "detached e c ss r w = do {
     w \<leftarrow> MakeContractOn e c w;
     (l, w) \<leftarrow> then_all c ss w;
     w \<leftarrow> Future_Detach l w;
     (w, fs) \<leftarrow> (case r of Some r \<Rightarrow> Promise_Set c r w | None \<Rightarrow> Promise_dtor c w);
     drive fs w }"

text \<open>nobody has to wait for a result: when the future at the end of a chain is detached or
  destroyed before the promise is set, or before it is destroyed unset, the stages still run and
  then every core of the chain is destroyed, exactly once; the world ends as it began.\<close>

lemma detached_no_leak:
  assumes "fresh_cores w0 (c # map fst ss)" "\<forall>(c, s) \<in> set ss. stage_ok s"
    and "heap w0 kDrop = Some drop_core"
  shows "detached e c ss r w0 = Some w0"
proof -
  have F: "queue w0 = []" "distinct (c # map fst ss)" "\<forall>x \<in> set (c # map fst ss). heap w0 x = None"
    using assms(1) by (simp_all add: fresh_cores_def)
  obtain w1 where w1: "MakeContractOn e c w0 = Some w1" "pending_at w0 w1 c e [] UZero"
    using contract_pending [of w0 c e] F by auto
  let ?l = "last (c # map fst ss)"
  obtain w2 where w2: "then_all c ss w1 = Some (?l, w2)" "pending_at w0 w2 c e ss UZero"
    using then_all_pending [OF w1(2), of ss] F assms(2) by auto
  have "kDrop \<notin> set (c # map fst ss)" using F(3) assms(3) by auto
  then obtain w3 where w3: "SetCallbackImpl False ?l kDrop w2 = Some (True, w3)" "pending_at w0 w3 c e ss (UAt kDrop)"
    using retarget [OF w2(2)] by blast
  let ?r = "case r of Some r \<Rightarrow> r | None \<Rightarrow> stop_res"
  obtain w4 fs w5 hs where w4: "Promise_Set c ?r w3 = Some (w4, fs)" "idle hs"
      "drive fs w4 = drive (FLoop ?l (Some kDrop) # hs) w5"
      "done_at w0 w5 ?l (final_exec e (map snd ss)) (pipe_res e (map snd ss) ?r)"
    using set_chain [OF w3(2), of ?r] by auto
  have "drive fs w4 = Some w0" using drop_done [OF w4(4) assms(3) w4(2)] w4(3) by simp
  then show ?thesis using w1 w2 w3 w4(1) unfolding detached_def Future_Detach_def Promise_dtor_def
    by (cases r) simp_all
qed


end
