(* ===== verification/Unwrap.thy ===== *)
theory Unwrap
  imports Futures
begin

section \<open>Callbacks that return futures and tasks\<close>

text \<open>
  A continuation whose callback returns a future is \<open>Core\<close> with \<open>AsyncType::Unique\<close>: its core
  waits a second time, now for the inner future (\<open>unwrapping\<close>), and takes over its result. One
  whose callback returns a task starts the task and waits for it.
\<close>

subsection \<open>Inner futures\<close>

definition async_type :: core_type where
  "async_type = or ct_ToUnique ct_FromUnique"

definition async_core :: "async_kind \<Rightarrow> ('v, 'e) callback \<Rightarrow> ('v, 'e) core" where
  "async_core ka f = \<lparr>kind = UniqueK, body = BCore async_type ka (Some f), word = UZero,
     store = Self None 0, crefs = 1, executor = None, cnext = None\<rparr>"

text \<open>The outer core once it waits for the inner core \<open>d\<close>, and once it has the result.\<close>

definition unwrapping_core :: "async_kind \<Rightarrow> nat \<Rightarrow> exec \<Rightarrow> ('v, 'e) core" where
  "unwrapping_core ka d e = \<lparr>kind = UniqueK, body = BCore async_type ka None, word = UZero,
     store = Self (Some d) 1, crefs = 1, executor = Some e, cnext = None\<rparr>"

definition unwrapped_core :: "async_kind \<Rightarrow> exec \<Rightarrow> ('v, 'e) res \<Rightarrow> ('v, 'e) core" where
  "unwrapped_core ka e r = \<lparr>kind = UniqueK, body = BCore async_type ka None, word = UMax,
     store = Full r, crefs = 1, executor = Some e, cnext = None\<rparr>"

lemma async_type_has [simp]:
  "ct_has ct_Run async_type = False" "ct_has ct_FromUnique async_type = True"
  "ct_has ct_FromShared async_type = False" "ct_has ct_Call async_type = False"
  by (simp_all add: ct_has_def async_type_def ct_defs)

lemma ThenInline_async:
  assumes "heap w o' = None" "heap w a = Some k" "word k = UZero"
  shows "Future_ThenInline ka f a o' w =
    Some (put a (k\<lparr>word := UAt o'\<rparr>) (put o' (async_core ka f) w), [FLoop a None])"
proof -
  have "a \<noteq> o'" using assms by auto
  moreover have "ct_has ct_Detach ct_ToUnique = False" "ct_has ct_Lazy ct_ToUnique = False"
      "ct_has ct_ToShared async_type = False" "ct_has ct_Detach async_type = False"
      "or ct_ToUnique ct_FromUnique = async_type"
    by (simp_all add: ct_has_def ct_defs async_type_def)
  ultimately show ?thesis using assms
    by (auto simp: Future_ThenInline_def SetCallback_def MakeCore_def alloc_def put_def set_executor_def
        SetInlineImpl_def SetCallbackImpl_def new_core_def async_core_def fun_upd_twist)
qed

text \<open>The outer core is given a ready caller and its callback returns the core \<open>d\<close>.\<close>

lemma outer_starts:
  assumes a: "heap w a = Some ka'" "ready ka' e r" and o': "heap w o' = Some (async_core k (OnResult (\<lambda>x. Starts d)))"
    and ne: "a \<noteq> o'" and k: "k \<noteq> NotAsync"
  shows "Core_Impl o' a w = (let w1 = w\<lparr>heap := (heap w)(a := None, o' := Some (unwrapping_core k d e))\<rparr>
    in if k = AsyncTask then do { w2 \<leftarrow> StoreCallbackImpl d o' w1; (h, w3) \<leftarrow> MoveToCaller d w2; Some (w3, [], Some h) }
       else SetInlineImpl (k = AsyncShared) d o' w1)"
proof -
  have U: "(async_core k (OnResult (\<lambda>x. Starts d)))\<lparr>store := Self (Some d) (Suc 0), body := BCore async_type k None,
      executor := Some e\<rparr> = unwrapping_core k d e"
    by (simp add: async_core_def unwrapping_core_def)
  show ?thesis using assms
    by (simp add: Core_Impl_def async_core_def TransferExecutorTo_def put_def ready_def MoveOrConst_def
        CallImpl_def CallResolveAsync_def self_caller_def core_DecRef_def core_dtor_ok_def unwrapping_core_def
        fun_upd_twist Let_def)
      (auto intro!: Option.bind_cong)
qed

text \<open>The inner result arrives.\<close>

lemma outer_done:
  assumes d: "heap w d = Some kd" "ready kd e' r" and o': "heap w o' = Some (unwrapping_core k d e)"
    and ne: "d \<noteq> o'" and k: "k = AsyncUnique \<or> k = AsyncTask" and c: "c = d \<or> c = o'"
  shows "exec_frame (FLoop c (Some o')) w =
    Some (w\<lparr>heap := (heap w)(d := None, o' := Some (unwrapped_core k e r))\<rparr>, [FLoop o' None])"
  using assms
  by (auto simp: Here_def Core_Impl_def unwrapping_core_def async_done_def MoveOrConst_def ready_def put_def
      Done_def Store_def self_caller_def core_DecRef_def core_dtor_ok_def SetResultImpl_def unwrapped_core_def
      fun_upd_twist)

lemma outer_first:
  assumes a: "heap w a = Some ka'" "ready ka' e r" and o': "heap w o' = Some (async_core AsyncUnique (OnResult (\<lambda>x. Starts d)))"
    and ne: "a \<noteq> o'" and d: "SetCallbackImpl False d o' (w\<lparr>heap := (heap w)(a := None, o' := Some (unwrapping_core AsyncUnique d e))\<rparr>)
      = Some (ok, w')"
  shows "exec_frame (FLoop a (Some o')) w = Some (w', [FLoop o' (if ok then None else Some o')])"
  using outer_starts [OF a o' ne] o' d
  by (simp add: Here_def async_core_def SetInlineImpl_def Let_def)

lemma pending_base:
  assumes "pending_at w0 w c e ss v" "queue w1 = []" "queue w' = []"
    and "\<And>x. x \<in> set (c # map fst ss) \<Longrightarrow> heap w1 x = None \<and> heap w' x = heap w x"
    and "\<And>x. x \<notin> set (c # map fst ss) \<Longrightarrow> heap w' x = heap w1 x"
  shows "pending_at w1 w' c e ss v"
proof -
  obtain u where u: "heap w c = Some ((new_core UniqueK BResult Raw 1 (Some e))\<lparr>word := u\<rparr>)" "attached w u ss v"
    using assms(1) by (auto simp: pending_at_def)
  have "attached w' u ss v" by (rule attached_frame [OF u(2)]) (use assms(4) in auto)
  moreover have "heap w' c = heap w c" using assms(4) by simp
  ultimately show ?thesis using assms u unfolding pending_at_def by auto
qed

definition unwrap_future :: "bool \<Rightarrow> exec \<Rightarrow> nat \<Rightarrow> exec \<Rightarrow> nat \<Rightarrow> (nat \<times> ('v, 'e) stage) list \<Rightarrow> nat \<Rightarrow>
    ('v, 'e) res \<Rightarrow> ('v, 'e) res \<Rightarrow> ('v, 'e) world \<Rightarrow> ('v, 'e) world option" where
  "unwrap_future inner_first e1 a e2 b ss o' r r' w = do {
     w \<leftarrow> MakeContractOn e1 a w;
     w \<leftarrow> MakeContractOn e2 b w;
     (d, w) \<leftarrow> then_all b ss w;
     (w, fs) \<leftarrow> Future_ThenInline AsyncUnique (OnResult (\<lambda>x. Starts d)) a o' w;
     w \<leftarrow> drive fs w;
     (w, fs) \<leftarrow> (if inner_first then Promise_Set b r' w else Promise_Set a r w);
     w \<leftarrow> drive fs w;
     (w, fs) \<leftarrow> (if inner_first then Promise_Set a r w else Promise_Set b r' w);
     drive fs w }"

text \<open>The world with the outer promise \<open>a\<close> and its asynchronous continuation \<open>o'\<close>.\<close>

definition outer_base :: "('v, 'e) world \<Rightarrow> nat \<Rightarrow> exec \<Rightarrow> nat \<Rightarrow> nat \<Rightarrow> ('v, 'e) world" where
  "outer_base w0 a e1 o' d = w0\<lparr>heap := (heap w0)(a := Some ((new_core UniqueK BResult Raw 1 (Some e1))\<lparr>word := UAt o'\<rparr>),
     o' := Some (async_core AsyncUnique (OnResult (\<lambda>x. Starts d))))\<rparr>"

lemma unwrap_start:
  assumes F: "fresh_cores w0 (a # o' # b # map fst ss)" "\<forall>(c, s) \<in> set ss. stage_ok s"
  shows "\<exists>w. (do { w \<leftarrow> MakeContractOn e1 a w0; w \<leftarrow> MakeContractOn e2 b w; (d, w) \<leftarrow> then_all b ss w;
        (w, fs) \<leftarrow> Future_ThenInline AsyncUnique (OnResult (\<lambda>x. Starts d)) a o' w; drive fs w }) = Some w
     \<and> pending_at (outer_base w0 a e1 o' (last (b # map fst ss))) w b e2 ss UZero"
proof -
  let ?d = "last (b # map fst ss)"
  let ?wa = "outer_base w0 a e1 o' ?d"
  have q: "queue w0 = []" and fr: "heap w0 a = None" "heap w0 o' = None" "heap w0 b = None"
      "a \<noteq> o'" "a \<noteq> b" "o' \<noteq> b" "a \<notin> fst ` set ss" "o' \<notin> fst ` set ss"
      and dd: "distinct (b # map fst ss)" and ids: "\<forall>x \<in> set (map fst ss). heap w0 x = None"
    using F(1) by (auto simp: fresh_cores_def)
  let ?a = "(new_core UniqueK BResult Raw 1 (Some e1)) :: ('a, 'b) core"
  let ?w1 = "put a ?a w0"
  have m1: "MakeContractOn e1 a w0 = Some ?w1" using fr by (simp add: MakeContractOn_def alloc_def)
  obtain w2 where w2: "MakeContractOn e2 b ?w1 = Some w2" "pending_at ?w1 w2 b e2 [] UZero"
    using contract_pending [of ?w1 b e2] q fr by (auto simp: put_def)
  have "\<forall>x \<in> set (map fst ss). heap ?w1 x = None" using ids fr(7) by (auto simp: put_def)
  then obtain w3 where w3: "then_all b ss w2 = Some (?d, w3)" "pending_at ?w1 w3 b e2 ss UZero"
    using then_all_pending [OF w2(2), of ss] F(2) dd by auto
  have off: "heap w3 x = heap ?w1 x" if "x \<notin> set (b # map fst ss)" for x
    using w3(2) that by (simp add: pending_at_def)
  have h3: "heap w3 o' = None" "heap w3 a = Some ?a" "queue w3 = []"
    using off [of o'] off [of a] fr w3(2) by (auto simp: put_def pending_at_def)
  let ?w4 = "put a (?a\<lparr>word := UAt o'\<rparr>) (put o' (async_core AsyncUnique (OnResult (\<lambda>x. Starts ?d))) w3)"
  have t: "Future_ThenInline AsyncUnique (OnResult (\<lambda>x. Starts ?d)) a o' w3 = Some (?w4, [FLoop a None])"
    by (rule ThenInline_async) (use h3 in \<open>simp_all add: new_core_def\<close>)
  have "drive [FLoop a None] ?w4 = Some ?w4" using h3 by (intro drive_end) (simp_all add: put_def)
  moreover have "pending_at ?wa ?w4 b e2 ss UZero"
  proof (rule pending_base [OF w3(2)])
    show "heap ?w4 x = heap ?wa x" if "x \<notin> set (b # map fst ss)" for x
      using off [OF that] fr by (auto simp: put_def outer_base_def)
    show "heap ?wa x = None \<and> heap ?w4 x = heap w3 x" if "x \<in> set (b # map fst ss)" for x
      using that fr ids by (auto simp: put_def outer_base_def)
  qed (use q h3 in \<open>simp_all add: put_def outer_base_def\<close>)
  ultimately show ?thesis using m1 w2 w3 t by (intro exI [of _ ?w4]) simp
qed

lemma final_world:
  assumes "w' = w0\<lparr>heap := (heap w0)(o' := Some (unwrapped_core k e r))\<rparr>" "queue w0 = []" "heap w0 o' = None"
  shows "Future_Touch o' w' = Some (r, w0)"
proof (rule touch_done(1) [where e = e])
  have "ready (unwrapped_core k e r) e r" by (simp add: ready_def unwrapped_core_def)
  then show "done_at w0 w' o' e r" using assms unfolding done_at_def by blast
qed

lemma unwrap_inner_first:
  assumes P: "pending_at (outer_base w0 a e1 o' (last (b # map fst ss))) w b e2 ss UZero"
    and fr: "heap w0 a = None" "heap w0 o' = None" "a \<noteq> o'"
  shows "\<exists>w1 fs1 w2 w3 fs3 w4. Promise_Set b r' w = Some (w1, fs1) \<and> drive fs1 w1 = Some w2
     \<and> Promise_Set a r w2 = Some (w3, fs3) \<and> drive fs3 w3 = Some w4
     \<and> Future_Touch o' w4 = Some (pipe_res e2 (map snd ss) r', w0)"
proof -
  let ?d = "last (b # map fst ss)"
  let ?wa = "outer_base w0 a e1 o' ?d"
  obtain w1 fs1 w2 where 1: "Promise_Set b r' w = Some (w1, fs1)" "drive fs1 w1 = Some w2"
      "done_at ?wa w2 ?d (final_exec e2 (map snd ss)) (pipe_res e2 (map snd ss) r')"
    using set_pending [OF P, of r'] by blast
  obtain kd where kd: "ready kd (final_exec e2 (map snd ss)) (pipe_res e2 (map snd ss) r')"
      "w2 = ?wa\<lparr>heap := (heap ?wa)(?d := Some kd)\<rparr>" and q: "queue ?wa = []" and dn: "heap ?wa ?d = None"
    using 1(3) by (auto simp: done_at_def)
  have ne: "?d \<noteq> a" "?d \<noteq> o'" using dn fr(3) by (auto simp: outer_base_def)
  have dn0: "heap w0 ?d = None" using dn ne by (simp add: outer_base_def)
  let ?ka = "(new_core UniqueK BResult (Full r) 1 (Some e1))\<lparr>word := UMax\<rparr> :: ('a, 'b) core"
  let ?w3 = "put a ?ka w2"
  have s: "Promise_Set a r w2 = Some (?w3, [FLoop a (Some o')])"
    using fr ne by (simp add: Promise_Set_def Store_def SetResultImpl_def put_def kd(2) outer_base_def new_core_def)
  let ?w5 = "?w3\<lparr>heap := (heap ?w3)(a := None, o' := Some (unwrapping_core AsyncUnique ?d e1))\<rparr>"
  have e1: "exec_frame (FLoop a (Some o')) ?w3 = Some (?w5, [FLoop o' (if False then None else Some o')])"
    by (rule outer_first [where ka' = ?ka and r = r])
      (use ne fr kd in \<open>auto simp: put_def outer_base_def ready_def new_core_def SetCallbackImpl_def\<close>)
  let ?w6 = "?w5\<lparr>heap := (heap ?w5)(?d := None, o' := Some (unwrapped_core AsyncUnique e1 (pipe_res e2 (map snd ss) r')))\<rparr>"
  have e2: "exec_frame (FLoop o' (Some o')) ?w5 = Some (?w6, [FLoop o' None])"
    by (rule outer_done [where kd = kd]) (use ne fr kd in \<open>auto simp: put_def outer_base_def\<close>)
  have "queue ?w6 = []" using q by (simp add: kd(2) put_def)
  then have "drive [FLoop a (Some o')] ?w3 = Some ?w6"
    using drive_step [OF e1, of "[]"] drive_step [OF e2, of "[]"] by (simp add: drive_end)
  moreover have "?w6 = w0\<lparr>heap := (heap w0)(o' := Some (unwrapped_core AsyncUnique e1 (pipe_res e2 (map snd ss) r')))\<rparr>"
    using fr ne dn0 by (auto simp: kd(2) put_def outer_base_def fun_eq_iff)
  ultimately show ?thesis using 1 s final_world [of ?w6 w0 o'] q fr by (auto simp: outer_base_def)
qed

lemma unwrap_outer_first:
  assumes P: "pending_at (outer_base w0 a e1 o' (last (b # map fst ss))) w b e2 ss UZero"
    and fr: "heap w0 a = None" "heap w0 o' = None" "a \<noteq> o'"
  shows "\<exists>w1 fs1 w2 w3 fs3 w4. Promise_Set a r w = Some (w1, fs1) \<and> drive fs1 w1 = Some w2
     \<and> Promise_Set b r' w2 = Some (w3, fs3) \<and> drive fs3 w3 = Some w4
     \<and> Future_Touch o' w4 = Some (pipe_res e2 (map snd ss) r', w0)"
proof -
  let ?d = "last (b # map fst ss)"
  let ?wa = "outer_base w0 a e1 o' ?d"
  have a: "a \<notin> set (b # map fst ss)" "o' \<notin> set (b # map fst ss)" and q: "queue w = []" "queue w0 = []"
    using P fr(3) by (auto simp: pending_at_def outer_base_def split: if_splits)
  have wa: "heap w a = heap ?wa a" "heap w o' = heap ?wa o'" using P a unfolding pending_at_def by blast+
  let ?ka = "(new_core UniqueK BResult (Full r) 1 (Some e1))\<lparr>word := UMax\<rparr> :: ('a, 'b) core"
  let ?w1 = "put a ?ka w"
  have s: "Promise_Set a r w = Some (?w1, [FLoop a (Some o')])"
    using wa fr by (simp add: Promise_Set_def Store_def SetResultImpl_def put_def outer_base_def new_core_def)
  let ?w2 = "?w1\<lparr>heap := (heap ?w1)(a := None, o' := Some (unwrapping_core AsyncUnique ?d e1))\<rparr>"
  let ?wb = "w0\<lparr>heap := (heap w0)(o' := Some (unwrapping_core AsyncUnique ?d e1))\<rparr>"
  have P2: "pending_at ?wb ?w2 b e2 ss UZero"
  proof (rule pending_base [OF P])
    show "heap ?wb x = None \<and> heap ?w2 x = heap w x" if x: "x \<in> set (b # map fst ss)" for x
    proof -
      have "x \<noteq> a" "x \<noteq> o'" using a x by metis+
      moreover have "heap ?wa x = None" using P x unfolding pending_at_def by blast
      ultimately show ?thesis by (auto simp: outer_base_def put_def)
    qed
    show "heap ?w2 x = heap ?wb x" if x: "x \<notin> set (b # map fst ss)" for x
    proof -
      have "heap w x = heap ?wa x" using P x unfolding pending_at_def by blast
      then show ?thesis using fr by (auto simp: outer_base_def put_def)
    qed
  qed (use q in \<open>simp_all add: put_def\<close>)
  obtain w3 where w3: "SetCallbackImpl False ?d o' ?w2 = Some (True, w3)" "pending_at ?wb w3 b e2 ss (UAt o')"
    using retarget [OF P2 a(2)] by blast
  have e1: "exec_frame (FLoop a (Some o')) ?w1 = Some (w3, [FLoop o' (if True then None else Some o')])"
    by (rule outer_first [where ka' = ?ka and r = r, OF _ _ _ fr(3) w3(1)])
      (use wa fr in \<open>auto simp: put_def outer_base_def ready_def new_core_def\<close>)
  have q3: "queue w3 = []" using w3(2) by (simp add: pending_at_def)
  then have d1: "drive [FLoop a (Some o')] ?w1 = Some w3"
    using drive_step [OF e1, of "[]"] by (simp add: drive_end)
  obtain w4 fs w5 hs where 4: "Promise_Set b r' w3 = Some (w4, fs)" "idle hs"
      "drive fs w4 = drive (FLoop ?d (Some o') # hs) w5"
      "done_at ?wb w5 ?d (final_exec e2 (map snd ss)) (pipe_res e2 (map snd ss) r')"
    using set_chain [OF w3(2), of r'] by auto
  obtain kd where kd: "ready kd (final_exec e2 (map snd ss)) (pipe_res e2 (map snd ss) r')"
      "w5 = ?wb\<lparr>heap := (heap ?wb)(?d := Some kd)\<rparr>" and dn: "heap ?wb ?d = None"
    using 4(4) by (auto simp: done_at_def)
  have ne: "?d \<noteq> o'" "heap w0 ?d = None" using dn by (auto split: if_splits)
  let ?w6 = "w5\<lparr>heap := (heap w5)(?d := None, o' := Some (unwrapped_core AsyncUnique e1 (pipe_res e2 (map snd ss) r')))\<rparr>"
  have e2: "exec_frame (FLoop ?d (Some o')) w5 = Some (?w6, [FLoop o' None])"
    by (rule outer_done [where kd = kd]) (use ne kd in auto)
  have "drive fs w4 = Some ?w6"
    using 4(2,3) drive_step [OF e2, of hs] q by (simp add: drive_end kd(2))
  moreover have "?w6 = w0\<lparr>heap := (heap w0)(o' := Some (unwrapped_core AsyncUnique e1 (pipe_res e2 (map snd ss) r')))\<rparr>"
    using ne by (auto simp: kd(2) fun_eq_iff)
  ultimately show ?thesis using s d1 4(1) final_world [of ?w6 w0 o'] q fr by auto
qed

text \<open>C11: a callback may return a future. The continuation then takes over the inner future's
  result, whichever of the two comes first: the inner chain's end, or the value that makes the
  callback run. The inner core is destroyed, and when the outer result is taken the heap is what it was.\<close>

theorem unwrap_future_correct:
  assumes "fresh_cores w0 (a # o' # b # map fst ss)" "\<forall>(c, s) \<in> set ss. stage_ok s"
  shows "\<exists>w. unwrap_future inner_first e1 a e2 b ss o' r r' w0 = Some w
     \<and> Future_Touch o' w = Some (pipe_res e2 (map snd ss) r', w0)"
proof -
  have fr: "heap w0 a = None" "heap w0 o' = None" "a \<noteq> o'" using assms(1) by (simp_all add: fresh_cores_def)
  obtain w where w: "(do { w \<leftarrow> MakeContractOn e1 a w0; w \<leftarrow> MakeContractOn e2 b w; (d, w) \<leftarrow> then_all b ss w;
        (w, fs) \<leftarrow> Future_ThenInline AsyncUnique (OnResult (\<lambda>x. Starts d)) a o' w; drive fs w }) = Some w"
      "pending_at (outer_base w0 a e1 o' (last (b # map fst ss))) w b e2 ss UZero"
    using unwrap_start [OF assms] by blast
  have "unwrap_future inner_first e1 a e2 b ss o' r r' w0 = do {
     (w, fs) \<leftarrow> (if inner_first then Promise_Set b r' w else Promise_Set a r w);
     w \<leftarrow> drive fs w;
     (w, fs) \<leftarrow> (if inner_first then Promise_Set a r w else Promise_Set b r' w);
     drive fs w }"
    using w(1) by (auto simp: unwrap_future_def bind_eq_Some_conv split: prod.splits)
  then show ?thesis
    using unwrap_inner_first [OF w(2) fr, of r' r] unwrap_outer_first [OF w(2) fr, of r r']
    by (cases inner_first) auto
qed

theorem unwrap_future_correct_witness:
  "\<exists>w. unwrap_future False EInline 10 EInline 1 demo_before 11 (Inr Unit) (Inr (Val 21)) demo_world = Some w
     \<and> Future_Touch 11 w = Some (Inl (Exn 9 (UserException ''no'')), demo_world)"
proof -
  have "fresh_cores demo_world (10 # 11 # 1 # map fst demo_before)"
    by (simp add: fresh_cores_def demo_world_def demo_before_def)
  moreover have "\<forall>(c, s) \<in> set demo_before. stage_ok s"
    by (auto simp: demo_before_def stage_ok_def out_sync_def split: payload.split)
  moreover have "pipe_res EInline (map snd demo_before) (Inr (Val 21)) = Inl (Exn 9 (UserException ''no''))"
    by (simp add: demo_before_def eff_exec_def stage_res_def)
  ultimately show ?thesis
    using unwrap_future_correct [of demo_world 10 11 1 demo_before False EInline EInline "Inr Unit" "Inr (Val 21)"]
    by metis
qed

end
