(* ===== verification/Tasks.thy ===== *)
theory Tasks
  imports Unwrap
begin

section \<open>Tasks: lazy chains\<close>

text \<open>
  \<open>include/yaclib/lazy/\<close> and \<open>src/lazy/task_impl.cpp\<close>. A task is a chain of cores linked both
  ways: each core's callback word leads to the next stage, each stage's \<open>next\<close> back to the one
  before. \<open>Start\<close> walks back to the head, clearing the links, and submits the head to its executor.
\<close>

subsection \<open>The chain\<close>

datatype ('v, 'e) task_head = HReady "('v, 'e) res" | HSched "('v, 'e) callback"

definition sched_type :: core_type where
  "sched_type = or (or ct_Run ct_Call) ct_ToUnique"

fun head_core :: "('v, 'e) task_head \<Rightarrow> exec \<Rightarrow> ('v, 'e) core" where
  "head_core (HReady r) e = new_core UniqueK BReady (Full r) 1 (Some e)"
| "head_core (HSched f) e = new_core UniqueK (BCore sched_type NotAsync (Some f)) (Self None 0) 1 (Some e)"

fun make_head :: "('v, 'e) task_head \<Rightarrow> exec \<Rightarrow> nat \<Rightarrow> ('v, 'e) world \<Rightarrow> ('v, 'e) world option" where
  "make_head (HReady r) e h w = do { w \<leftarrow> MakeTask r h w; set_executor h (Some e) w }"
| "make_head (HSched f) e h w = Schedule e NotAsync f h w"

fun head_sync :: "('v, 'e) task_head \<Rightarrow> bool" where
  "head_sync (HReady r) = True"
| "head_sync (HSched f) = cb_sync f"

text \<open>What the head yields when its executor calls it or drops it.\<close>

fun head_res :: "('v, 'e) task_head \<Rightarrow> exec \<Rightarrow> ('v, 'e) res" where
  "head_res (HReady r) e = (if e = EInlineStop then stop_res else r)"
| "head_res (HSched f) e = then_res f (if e = EInlineStop then stop_res else Inr Unit)"

definition task_then :: "nat \<Rightarrow> nat \<Rightarrow> ('v, 'e) stage \<Rightarrow> ('v, 'e) world \<Rightarrow> (('v, 'e) world \<times> frame list) option" where
  "task_then p c s w =
     (if on_exec s then Task_Then (stage_exec s) NotAsync (fn s) p c w else Task_ThenInline NotAsync (fn s) p c w)"

definition task_stage_ok :: "('v, 'e) stage \<Rightarrow> bool" where
  "task_stage_ok s \<longleftrightarrow> cb_sync (fn s) \<and> (\<not> on_exec s \<longrightarrow> stage_exec s = None) \<and> in_task s"

fun task_all :: "nat \<Rightarrow> (nat \<times> ('v, 'e) stage) list \<Rightarrow> ('v, 'e) world \<Rightarrow> (nat \<times> ('v, 'e) world) option" where
  "task_all p [] w = Some (p, w)"
| "task_all p ((c, s) # ss) w = do { (w, fs) \<leftarrow> task_then p c s w; check (fs = []); task_all c ss w }"

fun backlinked :: "('v, 'e) world \<Rightarrow> nat \<Rightarrow> nat list \<Rightarrow> bool" where
  "backlinked w p [] = True"
| "backlinked w p (c # cs) = ((\<exists>k. heap w c = Some k \<and> cnext k = Some p) \<and> backlinked w c cs)"

lemma backlinked_append: "backlinked w p (xs @ ys) \<longleftrightarrow> backlinked w p xs \<and> backlinked w (last (p # xs)) ys"
  by (induction xs arbitrary: p) auto

lemma backlinked_frame:
  "backlinked w p cs \<Longrightarrow> (\<And>c k. c \<in> set cs \<Longrightarrow> heap w c = Some k \<Longrightarrow> \<exists>k'. heap w' c = Some k' \<and> cnext k' = cnext k) \<Longrightarrow>
     backlinked w' p cs"
proof (induction cs arbitrary: p)
  case (Cons c cs)
  then obtain k where k: "heap w c = Some k" "cnext k = Some p" "backlinked w c cs" by auto
  moreover have "backlinked w' c cs" by (rule Cons.IH [OF k(3)]) (use Cons.prems(2) in auto)
  ultimately show ?case using Cons.prems(2) [of c k] by auto
qed simp

text \<open>The walk back to the head: it ends, reaches the head and changes nothing but the links.\<close>

definition relinked :: "('v, 'e) world \<Rightarrow> ('v, 'e) world \<Rightarrow> bool" where
  "relinked w w' \<longleftrightarrow> queue w' = queue w \<and> (\<forall>x. \<exists>n. heap w' x = map_option (\<lambda>k. k\<lparr>cnext := n\<rparr>) (heap w x))"

lemma relinked_refl: "relinked w w"
  unfolding relinked_def
proof (intro conjI allI refl)
  fix x
  show "\<exists>n. heap w x = map_option (\<lambda>k. k\<lparr>cnext := n\<rparr>) (heap w x)"
  proof (cases "heap w x")
    case (Some k)
    then show ?thesis by (intro exI [of _ "cnext k"]) simp
  qed simp
qed

lemma relinked_put:
  assumes "relinked (put c (k\<lparr>cnext := n\<rparr>) w) w'" "heap w c = Some k"
  shows "relinked w w'"
  unfolding relinked_def
proof (intro conjI allI)
  show "queue w' = queue w" using assms(1) by (simp add: relinked_def put_def)
  fix x
  obtain m where "heap w' x = map_option (\<lambda>k. k\<lparr>cnext := m\<rparr>) (heap (put c (k\<lparr>cnext := n\<rparr>) w) x)"
    using assms(1) unfolding relinked_def by blast
  then show "\<exists>n. heap w' x = map_option (\<lambda>k. k\<lparr>cnext := n\<rparr>) (heap w x)"
    using assms(2) by (cases "x = c") (auto simp: put_def)
qed

lemma MoveToCaller_head:
  assumes "backlinked w h cs" "distinct (h # cs)" "heap w h = Some kh" "cnext kh = None"
  shows "\<exists>w'. MoveToCaller (last (h # cs)) w = Some (h, w') \<and> relinked w w'
    \<and> (\<forall>x. x \<notin> set cs \<longrightarrow> heap w' x = heap w x)"
  using assms
proof (induction cs arbitrary: w rule: rev_induct)
  case Nil
  then show ?case by (subst MoveToCaller.simps) (simp add: relinked_refl)
next
  case (snoc c cs)
  let ?p = "last (h # cs)"
  obtain k where k: "heap w c = Some k" "cnext k = Some ?p" and b: "backlinked w h cs"
    using snoc.prems(1) by (auto simp: backlinked_append)
  let ?w = "put c (k\<lparr>cnext := None\<rparr>) w"
  have "backlinked ?w h cs"
    by (rule backlinked_frame [OF b]) (use snoc.prems(2) in \<open>auto simp: put_def\<close>)
  moreover have "heap ?w h = Some kh" using snoc.prems(2,3) by (auto simp: put_def)
  ultimately obtain w' where w': "MoveToCaller ?p ?w = Some (h, w')" "relinked ?w w'"
      "\<forall>x. x \<notin> set cs \<longrightarrow> heap w' x = heap ?w x"
    using snoc.IH [of ?w] snoc.prems(2,4) by auto
  have "MoveToCaller (last (h # cs @ [c])) w = MoveToCaller ?p ?w"
    using k by (subst MoveToCaller.simps) simp
  then show ?case using w' relinked_put [OF w'(2) k(1)] by (auto simp: put_def)
qed

lemma attached_relinked:
  assumes "relinked w w'"
  shows "attached w u ss v \<Longrightarrow> attached w' u ss v"
proof (induction ss arbitrary: u)
  case (Cons a ss)
  obtain c s where a: "a = (c, s)" by (cases a)
  from Cons.prems obtain k where k: "u = UAt c" "heap w c = Some k" "waiting s k" "store k = Self None 0"
      "executor k = stage_exec s" "attached w (word k) ss v" unfolding a by auto
  obtain n where "heap w' c = Some (k\<lparr>cnext := n\<rparr>)" using assms k(2) unfolding relinked_def by (metis option.simps(9))
  then show ?case using k Cons.IH [OF k(6)] by (auto simp: a waiting_def)
qed simp

subsection \<open>Attaching stages\<close>

text \<open>The lazy chain behind the head \<open>h\<close>; \<open>w0\<close> is the world without it.\<close>

definition lazy_at :: "('v, 'e) world \<Rightarrow> ('v, 'e) world \<Rightarrow> ('v, 'e) task_head \<Rightarrow> exec \<Rightarrow> nat \<Rightarrow>
    (nat \<times> ('v, 'e) stage) list \<Rightarrow> nat uptr \<Rightarrow> bool" where
  "lazy_at w0 w hd0 e h ss v \<longleftrightarrow> queue w0 = [] \<and> queue w = [] \<and> distinct (h # map fst ss)
     \<and> (\<forall>x \<in> set (h # map fst ss). heap w0 x = None)
     \<and> (\<forall>x. x \<notin> set (h # map fst ss) \<longrightarrow> heap w x = heap w0 x)
     \<and> (\<exists>u. heap w h = Some ((head_core hd0 e)\<lparr>word := u\<rparr>) \<and> attached w u ss v)
     \<and> backlinked w h (map fst ss)"

lemma head_core_fields [simp]: "word (head_core hd0 e) = UZero" "cnext (head_core hd0 e) = None"
  "kind (head_core hd0 e) = UniqueK" "crefs (head_core hd0 e) = 1" "executor (head_core hd0 e) = Some e"
  by (cases hd0; simp add: new_core_def)+

lemma make_head_lazy:
  assumes "queue w0 = []" "heap w0 h = None"
  shows "\<exists>w. make_head hd0 e h w0 = Some w \<and> lazy_at w0 w hd0 e h [] UZero"
proof -
  have "ct_has ct_Detach sched_type = False" "ct_has ct_ToShared sched_type = False"
    by (simp_all add: ct_has_def ct_defs sched_type_def)
  then have "make_head hd0 e h w0 = Some (put h (head_core hd0 e) w0)"
    using assms by (cases hd0)
      (auto simp: MakeTask_def Schedule_def MakeCore_def alloc_def set_executor_def put_def new_core_def
        sched_type_def)
  moreover have "head_core hd0 e = (head_core hd0 e)\<lparr>word := UZero\<rparr>" by (cases hd0) (simp_all add: new_core_def)
  ultimately show ?thesis using assms
    by (auto simp: lazy_at_def put_def intro!: exI [of _ UZero])
qed

definition lazy_core :: "('v, 'e) stage \<Rightarrow> nat \<Rightarrow> ('v, 'e) core" where
  "lazy_core s p = (stage_core s UZero)\<lparr>cnext := Some p\<rparr>"

lemma task_then_eq:
  assumes "task_stage_ok s" "heap w c = None" "heap w p = Some kp"
  shows "task_then p c s w = Some (put p (kp\<lparr>word := UAt c\<rparr>) (put c (lazy_core s p) w), [])"
proof -
  have "p \<noteq> c" using assms by auto
  moreover have "ct_has ct_Detach (stage_type s) = False" "ct_has ct_ToShared (stage_type s) = False"
    by (simp_all add: ct_has_def ct_defs stage_type_def)
  moreover have "stage_type s = (if on_exec s then or (or (or ct_ToUnique ct_Call) ct_Lazy) ct_FromUnique
      else or (or ct_ToUnique ct_Lazy) ct_FromUnique)"
    using assms(1) by (simp add: ct_defs stage_type_def task_stage_ok_def)
  moreover have "ct_has ct_Detach (or (or ct_ToUnique ct_Call) ct_Lazy) = False"
    "ct_has ct_Detach (or ct_ToUnique ct_Lazy) = False"
    "ct_has ct_Lazy (or (or ct_ToUnique ct_Call) ct_Lazy) = True" "ct_has ct_Lazy (or ct_ToUnique ct_Lazy) = True"
    by (simp_all add: ct_has_def ct_defs)
  ultimately show ?thesis using assms
    by (auto simp: task_then_def Task_Then_def Task_ThenInline_def SetCallback_def MakeCore_def alloc_def put_def
        set_executor_def StoreCallbackImpl_def new_core_def lazy_core_def stage_core_def task_stage_ok_def)
qed

lemma task_then_lazy:
  assumes P: "lazy_at w0 w hd0 e h ss UZero" and s: "task_stage_ok s" and c: "heap w0 c = None" "c \<notin> set (h # map fst ss)"
  shows "\<exists>w'. task_then (last (h # map fst ss)) c s w = Some (w', []) \<and> lazy_at w0 w' hd0 e h (ss @ [(c, s)]) UZero"
proof -
  let ?l = "last (h # map fst ss)" and ?kc = "lazy_core s (last (h # map fst ss))"
  obtain u where kh: "heap w h = Some ((head_core hd0 e)\<lparr>word := u\<rparr>)" and at: "attached w u ss UZero"
      and d: "distinct (h # map fst ss)" and bl: "backlinked w h (map fst ss)"
    using P by (auto simp: lazy_at_def)
  have fresh: "heap w c = None" using P c by (auto simp: lazy_at_def)
  have kc: "waiting s ?kc" "store ?kc = Self None 0" "executor ?kc = stage_exec s" "word ?kc = UZero" "cnext ?kc = Some ?l"
    using s by (simp_all add: waiting_def lazy_core_def stage_core_def task_stage_ok_def)
  have "\<exists>k u'. heap w ?l = Some k
      \<and> heap (put ?l (k\<lparr>word := UAt c\<rparr>) (put c ?kc w)) h = Some ((head_core hd0 e)\<lparr>word := u'\<rparr>)
      \<and> attached (put ?l (k\<lparr>word := UAt c\<rparr>) (put c ?kc w)) u' (ss @ [(c, s)]) UZero"
  proof (cases "ss = []")
    case True
    then show ?thesis using kh at c kc by (auto simp: put_def)
  next
    case False
    obtain k where k: "heap w (fst (last ss)) = Some k"
        "attached (put (fst (last ss)) (k\<lparr>word := UAt c\<rparr>) (put c ?kc w)) u (ss @ [(c, s)]) UZero"
      using attached_snoc [OF at _ _ kc(1-4) False, of c] d c by auto
    have l: "?l = fst (last ss)" using False by (simp add: last_map)
    have "fst (last ss) \<in> fst ` set ss" using False by simp
    then have "h \<noteq> fst (last ss)" using d by auto
    then show ?thesis using k kh c l by (intro exI [of _ k] exI [of _ u]) (auto simp: put_def)
  qed
  then obtain k u' where k: "heap w ?l = Some k"
      and h': "heap (put ?l (k\<lparr>word := UAt c\<rparr>) (put c ?kc w)) h = Some ((head_core hd0 e)\<lparr>word := u'\<rparr>)"
      and at': "attached (put ?l (k\<lparr>word := UAt c\<rparr>) (put c ?kc w)) u' (ss @ [(c, s)]) UZero"
    by blast
  let ?w = "put ?l (k\<lparr>word := UAt c\<rparr>) (put c ?kc w)"
  have L: "?l \<in> set (h # map fst ss)" by (rule last_in_set) simp
  then have lc: "?l \<noteq> c" using c(2) by metis
  have "backlinked ?w h (map fst ss)"
    by (rule backlinked_frame [OF bl]) (use k c(2) in \<open>auto simp: put_def\<close>)
  moreover have "backlinked ?w ?l [c]" using kc(5) lc by (simp add: put_def)
  ultimately have "backlinked ?w h (map fst (ss @ [(c, s)]))" by (simp add: backlinked_append)
  moreover have "heap ?w x = heap w0 x" if "x \<notin> set (h # map fst (ss @ [(c, s)]))" for x
  proof -
    have "x \<noteq> c" "x \<notin> set (h # map fst ss)" using that by auto
    moreover from this have "x \<noteq> ?l" using L by metis
    ultimately show ?thesis using P unfolding lazy_at_def put_def by simp
  qed
  ultimately have "lazy_at w0 ?w hd0 e h (ss @ [(c, s)]) UZero"
    using P c h' at' unfolding lazy_at_def by (auto simp: put_def)
  moreover have "task_then ?l c s w = Some (?w, [])" by (rule task_then_eq [OF s fresh k])
  ultimately show ?thesis by blast
qed

lemma task_all_lazy:
  assumes "lazy_at w0 w hd0 e h ss UZero" "\<forall>(c, s) \<in> set ts. task_stage_ok s"
    and "distinct (h # map fst (ss @ ts))" "\<forall>c \<in> set (map fst ts). heap w0 c = None"
  shows "\<exists>w'. task_all (last (h # map fst ss)) ts w = Some (last (h # map fst (ss @ ts)), w')
    \<and> lazy_at w0 w' hd0 e h (ss @ ts) UZero"
  using assms
proof (induction ts arbitrary: w ss)
  case (Cons a ts)
  obtain c s where a: "a = (c, s)" by (cases a)
  obtain w1 where w1: "task_then (last (h # map fst ss)) c s w = Some (w1, [])"
      "lazy_at w0 w1 hd0 e h (ss @ [(c, s)]) UZero"
    using task_then_lazy [OF Cons.prems(1), of s c] Cons.prems(2-4) by (auto simp: a)
  have "\<exists>w'. task_all (last (h # map fst (ss @ [(c, s)]))) ts w1 = Some (last (h # map fst ((ss @ [(c, s)]) @ ts)), w')
    \<and> lazy_at w0 w' hd0 e h ((ss @ [(c, s)]) @ ts) UZero"
    by (rule Cons.IH [OF w1(2)]) (use Cons.prems(2-4) in \<open>auto simp: a\<close>)
  then show ?case using w1 by (auto simp: a)
qed auto

subsection \<open>Starting, detaching and cancelling\<close>

text \<open>The head runs on its executor: from there on the chain is one of theory Pipeline.\<close>

lemma sched_type_has [simp]: "ct_has ct_Run sched_type = True" "ct_has ct_FromShared sched_type = False"
  by (simp_all add: ct_has_def ct_defs sched_type_def)

lemma Done_sched:
  assumes "heap w h = Some k" "body k = BCore sched_type NotAsync (Some f)" "store k = Self None 0"
    "kind k = UniqueK" "word k \<noteq> UMax"
  shows "Done False h r w = Some (put h (k\<lparr>store := Full r, body := BCore sched_type NotAsync None,
    word := UMax\<rparr>) w, [], ptr_of (word k))"
  using assms by (simp add: Done_def self_caller_def Store_def put_def SetResultImpl_def)

lemma head_runs:
  assumes h: "heap w h = Some k" "word k = u" "u \<noteq> UMax" "body k = body (head_core hd0 e)"
      "store k = store (head_core hd0 e)" "kind k = UniqueK" "crefs k = 1" "executor k = Some e'"
    and sync: "head_sync hd0" and q: "queue w = []"
  shows "\<exists>k'. ready k' e' (head_res hd0 e') \<and>
    Option.bind (Submit (Some e') h w) (\<lambda>(w, fs). drive fs w) = drive [FLoop h (ptr_of u)] (put h k' w)"
proof (cases hd0)
  case (HReady r)
  let ?k = "\<lambda>r. k\<lparr>store := Full r, word := UMax\<rparr>"
  have r: "ready (?k r) e' r" for r using h by (simp add: ready_def)
  have "exec_frame (FCall h) w = Some (put h (?k r) w, [FLoop h (ptr_of u)])"
    using h HReady by (cases k) (simp add: SetResultImpl_def put_def new_core_def)
  then have c: "drive [FCall h] w = drive [FLoop h (ptr_of u)] (put h (?k r) w)"
    using drive_step [of "FCall h" w _ _ "[]"] by simp
  have "exec_frame (FDrop h) w = Some (put h (?k stop_res) w, [FLoop h (ptr_of u)])"
    using h HReady by (simp add: Promise_Set_def Store_def SetResultImpl_def put_def new_core_def)
  then have d: "drive [FDrop h] w = drive [FLoop h (ptr_of u)] (put h (?k stop_res) w)"
    using drive_step [of "FDrop h" w _ _ "[]"] by simp
  show ?thesis
    using c d r [of r] r [of stop_res] drive_queued [of "[]" w _ h] q HReady
    by (cases e') (auto simp: Submit_def)
next
  case (HSched f)
  let ?k = "\<lambda>r. k\<lparr>store := Full r, body := BCore sched_type NotAsync None, word := UMax\<rparr>"
  have b: "body k = BCore sched_type NotAsync (Some f)" "store k = Self None 0"
    using h(4,5) HSched by (simp_all add: new_core_def)
  have f: "cb_sync f" using sync HSched by simp
  have r: "ready (?k r) e' r" for r using h by (simp add: ready_def)
  have D: "Done False h r w = Some (put h (?k r) w, [], ptr_of u)" for r
    using Done_sched [OF h(1) b] h by simp
  have "Core_Call h w = Some (put h (?k (then_res f (Inr Unit))) w, [], ptr_of u)"
    using h(1) b D CallImpl_sync [OF h(1) b(1) f]
    by (cases f) (simp_all add: Core_Call_def)
  then have c: "drive [FCall h] w = drive [FLoop h (ptr_of u)] (put h (?k (then_res f (Inr Unit))) w)"
    using drive_step [of "FCall h" w _ _ "[]"] h(1) b by simp
  have "Core_Drop h w = Some (put h (?k (then_res f stop_res)) w, [], ptr_of u)"
    using D CallImpl_sync(1) [OF h(1) b(1) f] by (simp add: Core_Drop_def)
  then have d: "drive [FDrop h] w = drive [FLoop h (ptr_of u)] (put h (?k (then_res f stop_res)) w)"
    using drive_step [of "FDrop h" w _ _ "[]"] h(1) b by simp
  show ?thesis
    using c d r [of "then_res f (Inr Unit)"] r [of "then_res f stop_res"] drive_queued [of "[]" w _ h] q HSched
    by (cases e') (auto simp: Submit_def)
qed

definition start_exec :: "exec option \<Rightarrow> exec \<Rightarrow> exec" where
  "start_exec eo e = (case eo of None \<Rightarrow> e | Some x \<Rightarrow> x)"

lemma start_chain:
  assumes P: "lazy_at w0 w hd0 e h ss v" and v: "v \<noteq> UMax" and sync: "head_sync hd0"
  shows "\<exists>w1 fs w' hs. Task_ToFuture eo (last (h # map fst ss)) w = Some (w1, fs) \<and> idle hs
    \<and> drive fs w1 = drive (FLoop (last (h # map fst ss)) (ptr_of v) # hs) w'
    \<and> done_at w0 w' (last (h # map fst ss)) (final_exec (start_exec eo e) (map snd ss))
        (pipe_res (start_exec eo e) (map snd ss) (head_res hd0 (start_exec eo e)))"
proof -
  let ?l = "last (h # map fst ss)" and ?e = "start_exec eo e"
  obtain u where kh: "heap w h = Some ((head_core hd0 e)\<lparr>word := u\<rparr>)" and at: "attached w u ss v"
      and d: "distinct (h # map fst ss)" and bl: "backlinked w h (map fst ss)" and q: "queue w = []" "queue w0 = []"
    using P by (auto simp: lazy_at_def)
  obtain w1 where w1: "MoveToCaller ?l w = Some (h, w1)" "relinked w w1"
      "\<forall>x. x \<notin> set (map fst ss) \<longrightarrow> heap w1 x = heap w x"
    using MoveToCaller_head [OF bl d kh] by auto
  let ?k = "(head_core hd0 e)\<lparr>word := u, executor := Some ?e\<rparr>"
  let ?w2 = "put h ?k w1"
  have kh1: "heap w1 h = Some ((head_core hd0 e)\<lparr>word := u\<rparr>)" using w1(3) d kh by auto
  have q1: "queue w1 = []" using w1(2) q by (simp add: relinked_def)
  have "Task_ToFuture eo ?l w = Submit (Some ?e) h ?w2"
  proof (cases eo)
    case None
    have "head_core hd0 e\<lparr>word := u\<rparr> = ?k" using None by (cases hd0) (simp_all add: new_core_def start_exec_def)
    then have "?w2 = w1" using kh1 by (cases w1) (auto simp: put_def fun_upd_idem)
    then show ?thesis using None w1(1) kh1 by (simp add: Task_ToFuture_def Start_def start_exec_def)
  qed (use w1(1) kh1 in \<open>simp add: Task_ToFuture_def Start_on_def set_executor_def start_exec_def\<close>)
  moreover have "\<exists>k'. ready k' ?e (head_res hd0 ?e) \<and>
      Option.bind (Submit (Some ?e) h ?w2) (\<lambda>(w, fs). drive fs w) = drive [FLoop h (ptr_of u)] (put h k' ?w2)"
  proof (rule head_runs [OF _ _ _ _ _ _ _ _ sync])
    show "heap ?w2 h = Some ?k" by (simp add: put_def)
    show "u \<noteq> UMax" by (rule attached_word [OF at v])
  qed (use q1 in \<open>simp_all add: put_def\<close>)
  then obtain k' where k': "ready k' ?e (head_res hd0 ?e)"
      "Option.bind (Submit (Some ?e) h ?w2) (\<lambda>(w, fs). drive fs w) = drive [FLoop h (ptr_of u)] (put h k' ?w2)"
    by blast
  let ?w3 = "put h k' ?w2"
  have "attached w1 u ss v" by (rule attached_relinked [OF w1(2) at])
  then have "attached ?w3 u ss v" by (rule attached_frame) (use d in \<open>auto simp: put_def\<close>)
  then have "chain_at ?w3 h ?e (head_res hd0 ?e) ss v"
    unfolding chain_at_def using q1 d v k'(1) by (auto simp: put_def)
  from drive_chain [OF this, of "[]"] obtain w' hs where
    D: "drive [FLoop h (ptr_of u)] ?w3 = drive (FLoop ?l (ptr_of v) # hs) w'" "idle hs" and
    F: "finished ?w3 (set (butlast (h # map fst ss))) ?l (final_exec ?e (map snd ss))
      (pipe_res ?e (map snd ss) (head_res hd0 ?e)) w'"
    unfolding attached_ptr [OF at] by auto
  have "heap ?w3 x = heap w0 x" if "x \<notin> set (h # map fst ss)" for x
    using P w1(3) that by (auto simp: lazy_at_def put_def)
  then have "done_at w0 w' ?l (final_exec ?e (map snd ss)) (pipe_res ?e (map snd ss) (head_res hd0 ?e))"
    using P by (intro finished_done [OF F q(2)]) (auto simp: lazy_at_def)
  moreover obtain w4 fs where "Submit (Some ?e) h ?w2 = Some (w4, fs)" by (cases ?e) (auto simp: Submit_def)
  ultimately show ?thesis using \<open>Task_ToFuture eo ?l w = _\<close> k'(2) D
    by (intro exI [of _ w4] exI [of _ fs] exI [of _ w'] exI [of _ hs]) simp
qed

text \<open>A task, started on \<open>eo\<close> or on its own executor, and its result taken.\<close>

definition task_program :: "('v, 'e) task_head \<Rightarrow> exec \<Rightarrow> nat \<Rightarrow> (nat \<times> ('v, 'e) stage) list \<Rightarrow> exec option \<Rightarrow>
    ('v, 'e) world \<Rightarrow> (('v, 'e) res \<times> ('v, 'e) world) option" where
  "task_program hd0 e h ss eo w = do {
     w \<leftarrow> make_head hd0 e h w;
     (l, w) \<leftarrow> task_all h ss w;
     (w, fs) \<leftarrow> Task_ToFuture eo l w;
     w \<leftarrow> drive fs w;
     Future_Touch l w }"

text \<open>C12: a task is lazy and then a pipeline: attaching stages runs nothing; once started, on its own
  executor or on the one it is given, the head and every stage run in order and the future receives
  the composed result; a stopped executor drops the head, which then yields \<open>StopTag\<close>; and the heap
  ends as it began.\<close>

theorem task_computes:
  assumes "fresh_cores w0 (h # map fst ss)" "\<forall>(c, s) \<in> set ss. task_stage_ok s" "head_sync hd0"
  shows "task_program hd0 e h ss eo w0 =
    Some (pipe_res (start_exec eo e) (map snd ss) (head_res hd0 (start_exec eo e)), w0)"
proof -
  have F: "queue w0 = []" "distinct (h # map fst ss)" "\<forall>x \<in> set (h # map fst ss). heap w0 x = None"
    using assms(1) by (simp_all add: fresh_cores_def)
  obtain w1 where w1: "make_head hd0 e h w0 = Some w1" "lazy_at w0 w1 hd0 e h [] UZero"
    using make_head_lazy [of w0 h hd0 e] F by auto
  obtain w2 where w2: "task_all h ss w1 = Some (last (h # map fst ss), w2)" "lazy_at w0 w2 hd0 e h ss UZero"
    using task_all_lazy [OF w1(2), of ss] F assms(2) by auto
  obtain w3 fs w4 hs where w4: "Task_ToFuture eo (last (h # map fst ss)) w2 = Some (w3, fs)" "idle hs"
      "drive fs w3 = drive (FLoop (last (h # map fst ss)) None # hs) w4"
      "done_at w0 w4 (last (h # map fst ss)) (final_exec (start_exec eo e) (map snd ss))
        (pipe_res (start_exec eo e) (map snd ss) (head_res hd0 (start_exec eo e)))"
    using start_chain [OF w2(2) _ assms(3), of eo] by auto
  have "drive fs w3 = Some w4" using w4(2,3) done_queue [OF w4(4)] by (simp add: drive_end)
  then show ?thesis using w1 w2 w4(1) touch_done(1) [OF w4(4)] by (simp add: task_program_def)
qed

definition demo_stages :: "(nat \<times> (int, string) stage) list" where
  "demo_stages =
    [(2, \<lparr>on_exec = True, stage_exec = None,
      fn = OnValue (\<lambda>v. Returns (Inr (case v of Val i \<Rightarrow> Val (i + 1) | Unit \<Rightarrow> Val 5))), in_task = True\<rparr>)]"

theorem task_computes_witness:
  "task_program (HSched (OnNothing (Returns (Inr (Val 41))))) EInline 1 demo_stages (Some (EQueue 3)) demo_world
    = Some (Inr (Val 42), demo_world)"
proof -
  have "fresh_cores demo_world (1 # map fst demo_stages)"
    by (simp add: fresh_cores_def demo_world_def demo_stages_def)
  moreover have "\<forall>(c, s) \<in> set demo_stages. task_stage_ok s"
    by (auto simp: demo_stages_def task_stage_ok_def out_sync_def)
  moreover have "head_sync (HSched (OnNothing (Returns (Inr (Val 41)))))" by (simp add: out_sync_def)
  moreover have "pipe_res (EQueue 3) (map snd demo_stages) (Inr (Val 41)) = Inr (Val 42)"
    by (simp add: demo_stages_def stage_res_def eff_exec_def)
  ultimately show ?thesis
    using task_computes [of demo_world 1 demo_stages "HSched (OnNothing (Returns (Inr (Val 41))))" EInline "Some (EQueue 3)"]
    by (simp add: start_exec_def)
qed

text \<open>Cancelling: the head is dropped and every core of the chain is destroyed.\<close>

lemma lazy_retarget:
  assumes P: "lazy_at w0 w hd0 e h ss UZero" and x: "x \<notin> set (h # map fst ss)"
  shows "\<exists>w'. StoreCallbackImpl (last (h # map fst ss)) x w = Some w' \<and> lazy_at w0 w' hd0 e h ss (UAt x)"
proof -
  let ?l = "last (h # map fst ss)"
  obtain u where kh: "heap w h = Some ((head_core hd0 e)\<lparr>word := u\<rparr>)" and at: "attached w u ss UZero"
      and d: "distinct (h # map fst ss)" and bl: "backlinked w h (map fst ss)"
    using P by (auto simp: lazy_at_def)
  have L: "?l \<in> set (h # map fst ss)" by (rule last_in_set) simp
  have "\<exists>k u'. heap w ?l = Some k
      \<and> heap (put ?l (k\<lparr>word := UAt x\<rparr>) w) h = Some ((head_core hd0 e)\<lparr>word := u'\<rparr>)
      \<and> attached (put ?l (k\<lparr>word := UAt x\<rparr>) w) u' ss (UAt x)"
  proof (cases "ss = []")
    case True
    then show ?thesis using kh at by (auto simp: put_def)
  next
    case False
    have l: "?l = fst (last ss)" using False by (simp add: last_map)
    have "fst (last ss) \<in> fst ` set ss" using False by simp
    then have "h \<noteq> fst (last ss)" using d by auto
    then show ?thesis unfolding l using kh attached_retarget [OF at _ False, of "UAt x"] d
      by (auto simp: put_def)
  qed
  then obtain k u' where k: "heap w ?l = Some k"
      "heap (put ?l (k\<lparr>word := UAt x\<rparr>) w) h = Some ((head_core hd0 e)\<lparr>word := u'\<rparr>)"
      "attached (put ?l (k\<lparr>word := UAt x\<rparr>) w) u' ss (UAt x)" by blast
  let ?w = "put ?l (k\<lparr>word := UAt x\<rparr>) w"
  have "heap ?w y = heap w0 y" if "y \<notin> set (h # map fst ss)" for y
  proof -
    have "y \<noteq> ?l" using that L by metis
    then show ?thesis using P that unfolding lazy_at_def put_def by simp
  qed
  moreover have "backlinked ?w h (map fst ss)"
    by (rule backlinked_frame [OF bl]) (use k(1) in \<open>auto simp: put_def\<close>)
  ultimately have "lazy_at w0 ?w hd0 e h ss (UAt x)"
    using P k unfolding lazy_at_def by (auto simp: put_def)
  then show ?thesis using k(1) by (simp add: StoreCallbackImpl_def)
qed

definition cancelled_task :: "('v, 'e) task_head \<Rightarrow> exec \<Rightarrow> nat \<Rightarrow> (nat \<times> ('v, 'e) stage) list \<Rightarrow>
    ('v, 'e) world \<Rightarrow> ('v, 'e) world option" where
  "cancelled_task hd0 e h ss w = do {
     w \<leftarrow> make_head hd0 e h w;
     (l, w) \<leftarrow> task_all h ss w;
     (w, fs) \<leftarrow> Task_Cancel l w;
     drive fs w }"

text \<open>cancelling a task, which its destructor does, drops the head, runs the stages on \<open>StopTag\<close>
  and destroys every core of the chain: the heap ends as it began.\<close>

lemma task_cancel_no_leak:
  assumes "fresh_cores w0 (h # map fst ss)" "\<forall>(c, s) \<in> set ss. task_stage_ok s" "head_sync hd0"
    and "heap w0 kDrop = Some drop_core"
  shows "cancelled_task hd0 e h ss w0 = Some w0"
proof -
  let ?l = "last (h # map fst ss)"
  have F: "queue w0 = []" "distinct (h # map fst ss)" "\<forall>x \<in> set (h # map fst ss). heap w0 x = None"
    using assms(1) by (simp_all add: fresh_cores_def)
  obtain w1 where w1: "make_head hd0 e h w0 = Some w1" "lazy_at w0 w1 hd0 e h [] UZero"
    using make_head_lazy [of w0 h hd0 e] F by auto
  obtain w2 where w2: "task_all h ss w1 = Some (?l, w2)" "lazy_at w0 w2 hd0 e h ss UZero"
    using task_all_lazy [OF w1(2), of ss] F assms(2) by auto
  have "kDrop \<notin> set (h # map fst ss)" using F(3) assms(4) by auto
  then obtain w3 where w3: "StoreCallbackImpl ?l kDrop w2 = Some w3" "lazy_at w0 w3 hd0 e h ss (UAt kDrop)"
    using lazy_retarget [OF w2(2)] by blast
  obtain w4 fs w5 hs e' r where w4: "Task_ToFuture (Some EInlineStop) ?l w3 = Some (w4, fs)" "idle hs"
      "drive fs w4 = drive (FLoop ?l (Some kDrop) # hs) w5" "done_at w0 w5 ?l e' r"
    using start_chain [OF w3(2) _ assms(3), of "Some EInlineStop"] by auto
  have "drive fs w4 = Some w0" using drop_done [OF w4(4) assms(4) w4(2)] w4(3) by simp
  moreover have "Task_Cancel ?l w2 = Some (w4, fs)"
    using w3(1) w4(1) by (simp add: Task_Cancel_def Task_Detach_on_def Task_ToFuture_def)
  ultimately show ?thesis using w1 w2 by (simp add: cancelled_task_def)
qed


subsection \<open>Returning a task from a continuation\<close>

text \<open>The callback of the continuation \<open>o'\<close> of the promise \<open>a\<close> returns a task that is only its head \<open>h\<close>.\<close>

definition unwrap_task :: "('v, 'e) task_head \<Rightarrow> exec \<Rightarrow> nat \<Rightarrow> nat \<Rightarrow> nat \<Rightarrow> ('v, 'e) res \<Rightarrow>
    ('v, 'e) world \<Rightarrow> ('v, 'e) world option" where
  "unwrap_task hd0 e a h o' r w = do {
     w \<leftarrow> MakeContractOn e a w;
     w \<leftarrow> make_head hd0 e h w;
     (w, fs) \<leftarrow> Future_ThenInline AsyncTask (OnResult (\<lambda>x. Starts h)) a o' w;
     w \<leftarrow> drive fs w;
     (w, fs) \<leftarrow> Promise_Set a r w;
     drive fs w }"

definition head_wait :: "('v, 'e) world \<Rightarrow> ('v, 'e) task_head \<Rightarrow> exec \<Rightarrow> nat \<Rightarrow> nat \<Rightarrow> ('v, 'e) world" where
  "head_wait w0 hd0 e h o' = w0\<lparr>heap := (heap w0)(h := Some ((head_core hd0 e)\<lparr>word := UAt o'\<rparr>),
     o' := Some (unwrapping_core AsyncTask h e))\<rparr>"

lemma unwrap_task_to_head:
  assumes "fresh_cores w0 [a, h, o']"
  shows "unwrap_task hd0 e a h o' r w0 = drive [FLoop o' (Some h)] (head_wait w0 hd0 e h o')"
proof -
  let ?wh = "head_wait w0 hd0 e h o'"
  have q: "queue w0 = []" and fr: "heap w0 a = None" "heap w0 h = None" "heap w0 o' = None" "a \<noteq> h" "a \<noteq> o'" "h \<noteq> o'"
    using assms(1) by (auto simp: fresh_cores_def)
  let ?a = "(new_core UniqueK BResult Raw 1 (Some e)) :: ('a, 'b) core"
  let ?f = "OnResult (\<lambda>x. Starts h) :: ('a, 'b) callback"
  let ?w1 = "put h (head_core hd0 e) (put a ?a w0)"
  have m: "MakeContractOn e a w0 = Some (put a ?a w0)" using fr by (simp add: MakeContractOn_def alloc_def)
  have mh: "make_head hd0 e h (put a ?a w0) = Some ?w1"
    using fr by (cases hd0) (auto simp: MakeTask_def Schedule_def MakeCore_def alloc_def set_executor_def put_def
        new_core_def sched_type_def ct_has_def ct_defs)
  let ?w2 = "put a (?a\<lparr>word := UAt o'\<rparr>) (put o' (async_core AsyncTask ?f) ?w1)"
  have t: "Future_ThenInline AsyncTask ?f a o' ?w1 = Some (?w2, [FLoop a None])"
    by (rule ThenInline_async) (use fr in \<open>simp_all add: put_def new_core_def\<close>)
  have d: "drive [FLoop a None] ?w2 = Some ?w2" using q by (intro drive_end) (simp_all add: put_def)
  let ?ka = "(new_core UniqueK BResult (Full r) 1 (Some e))\<lparr>word := UMax\<rparr> :: ('a, 'b) core"
  let ?w3 = "put a ?ka ?w2"
  have s: "Promise_Set a r ?w2 = Some (?w3, [FLoop a (Some o')])"
    by (simp add: Promise_Set_def Store_def SetResultImpl_def put_def new_core_def)
  let ?w4 = "?w3\<lparr>heap := (heap ?w3)(a := None, o' := Some (unwrapping_core AsyncTask h e))\<rparr>"
  have "Core_Impl o' a ?w3 = do { w2 \<leftarrow> StoreCallbackImpl h o' ?w4; (h, w3) \<leftarrow> MoveToCaller h w2; Some (w3, [], Some h) }"
    using outer_starts [of ?w3 a ?ka e r o' AsyncTask h] fr by (simp add: put_def ready_def new_core_def)
  moreover have "StoreCallbackImpl h o' ?w4 = Some ?wh"
    using fr by (auto simp: StoreCallbackImpl_def put_def head_wait_def fun_eq_iff)
  moreover have "MoveToCaller h ?wh = Some (h, ?wh)"
    using fr by (subst MoveToCaller.simps) (simp add: head_wait_def)
  ultimately have "Core_Impl o' a ?w3 = Some (?wh, [], Some h)" by simp
  then have "exec_frame (FLoop a (Some o')) ?w3 = Some (?wh, [FLoop o' (Some h)])"
    using fr by (simp add: Here_def put_def async_core_def)
  then show ?thesis using m mh t d s drive_step [of "FLoop a (Some o')" ?w3 ?wh "[FLoop o' (Some h)]" "[]"]
    by (simp add: unwrap_task_def)
qed

text \<open>C10: a task returned from a continuation works when its head is a ready task (\<open>MakeTask\<close>): the
  continuation takes over its result. When its head is a scheduled task (\<open>Schedule\<close>) the machine
  fails: \<open>Core::Impl\<close> takes a \<open>Run\<close> core that is entered by \<open>Here\<close> for one that waits for an inner
  result, and reads the result of the caller it does not have (a null pointer), whatever the functor,
  the executor and the result are.\<close>

theorem unwrap_task_heads:
  assumes "fresh_cores w0 [a, h, o']"
  shows "(\<exists>w. unwrap_task (HReady x) e a h o' r w0 = Some w \<and> Future_Touch o' w = Some (x, w0))
    \<and> unwrap_task (HSched f) e a h o' r w0 = None"
proof -
  have q: "queue w0 = []" and fr: "heap w0 a = None" "heap w0 h = None" "heap w0 o' = None" "a \<noteq> h" "a \<noteq> o'" "h \<noteq> o'"
    using assms(1) by (auto simp: fresh_cores_def)
  have "unwrap_task (HSched f) e a h o' r w0 = None"
    using fr unfolding unwrap_task_to_head [OF assms] head_wait_def
    by (simp add: drive_def run_Cons Here_def Core_Impl_def async_done_def new_core_def)
  moreover have "\<exists>w. unwrap_task (HReady x) e a h o' r w0 = Some w \<and> Future_Touch o' w = Some (x, w0)"
  proof -
    let ?w1 = "w0\<lparr>heap := (heap w0)(h := Some ((head_core (HReady x) e)\<lparr>word := UAt o'\<rparr>),
      o' := Some (unwrapping_core AsyncTask h e))\<rparr>"
    let ?k = "(head_core (HReady x) e)\<lparr>word := UMax\<rparr>"
    let ?w2 = "put h ?k ?w1"
    have e1: "exec_frame (FLoop o' (Some h)) ?w1 = Some (?w2, [FLoop h (Some o')])"
      using fr by (simp add: Here_def SetResultImpl_def put_def new_core_def)
    let ?w3 = "?w2\<lparr>heap := (heap ?w2)(h := None, o' := Some (unwrapped_core AsyncTask e x))\<rparr>"
    have e2: "exec_frame (FLoop h (Some o')) ?w2 = Some (?w3, [FLoop o' None])"
      by (rule outer_done [where kd = ?k and e' = e]) (use fr in \<open>auto simp: put_def ready_def new_core_def\<close>)
    have "drive [FLoop o' (Some h)] ?w1 = Some ?w3"
      using drive_step [OF e1, of "[]"] drive_step [OF e2, of "[]"] q by (simp add: drive_end put_def)
    moreover have "?w3 = w0\<lparr>heap := (heap w0)(o' := Some (unwrapped_core AsyncTask e x))\<rparr>"
      using fr by (auto simp: put_def fun_eq_iff)
    ultimately show ?thesis unfolding unwrap_task_to_head [OF assms] head_wait_def using final_world q fr by metis
  qed
  ultimately show ?thesis by blast
qed

theorem unwrap_task_heads_witness:
  "unwrap_task (HSched (OnNothing (Returns (Inr (Val 1))))) EInline 1 2 3 (Inr Unit) demo_world = None"
proof -
  have "fresh_cores demo_world [1, 2, 3]" by (simp add: fresh_cores_def demo_world_def)
  then show ?thesis using unwrap_task_heads by blast
qed

end
