(* ===== verification/CoreRace.thy ===== *)
theory CoreRace
  imports Prelude
begin

section \<open>The race for the callback word\<close>

text \<open>
  Theory Cores runs the virtual calls one after another; here the word \<open>_callback\<close> of
  \<open>src/algo/base_core.cpp\<close> is raced for. A step is one atomic access: the load and the
  compare-exchange of \<open>SetCallbackImpl\<close>, the two of \<open>ResetImpl\<close>, the exchange of \<open>SetResultImpl\<close>, one
  reference count operation. The unique core has one producer and one consumer at a time; the
  shared core has one producer and any number of consumers.
\<close>

subsection \<open>Unique cores\<close>

datatype uprod = PInit | PStored | PRun nat | PEnd

text \<open>
  The consumer between attempts; in \<open>SetCallback\<close> before the load and before the
  compare-exchange; with its callback set; running it itself, because the result was there; in
  \<open>Reset\<close> before the load and with the expected value; and after a failed \<open>Reset\<close>.
\<close>

datatype ucons = CIdle | CLoad nat | CCas nat | CSet nat | CInline nat
  | CResetLoad nat | CResetCas nat "nat uptr" | CTaken nat

record urace =
  uword :: "nat uptr"
  ustored :: bool
  uprod :: uprod
  ucons :: ucons
  utried :: "nat set"
  uran :: "nat list"
  ureset :: "nat set"

definition urace_new :: urace where
  "urace_new = \<lparr>uword = UZero, ustored = False, uprod = PInit, ucons = CIdle, utried = {},
     uran = [], ureset = {}\<rparr>"

inductive ustep :: "urace \<Rightarrow> urace \<Rightarrow> bool" where
  u_store: "uprod s = PInit \<Longrightarrow> ustep s (s\<lparr>ustored := True, uprod := PStored\<rparr>)"
| u_exchange: "uprod s = PStored \<Longrightarrow>
     ustep s (s\<lparr>uword := UMax, uprod := (case uword s of UAt cb \<Rightarrow> PRun cb | _ \<Rightarrow> PEnd)\<rparr>)"
| u_run: "uprod s = PRun cb \<Longrightarrow> ustep s (s\<lparr>uran := uran s @ [cb], uprod := PEnd\<rparr>)"
| u_begin: "ucons s = CIdle \<Longrightarrow> cb \<notin> utried s \<Longrightarrow>
     ustep s (s\<lparr>ucons := CLoad cb, utried := insert cb (utried s)\<rparr>)"
| u_load: "ucons s = CLoad cb \<Longrightarrow>
     ustep s (s\<lparr>ucons := if uword s = UZero then CCas cb else CInline cb\<rparr>)"
| u_cas: "ucons s = CCas cb \<Longrightarrow> uword s = UZero \<Longrightarrow> ustep s (s\<lparr>uword := UAt cb, ucons := CSet cb\<rparr>)"
| u_cas_fail: "ucons s = CCas cb \<Longrightarrow> uword s \<noteq> UZero \<Longrightarrow> ustep s (s\<lparr>ucons := CInline cb\<rparr>)"
| u_inline: "ucons s = CInline cb \<Longrightarrow> ustep s (s\<lparr>uran := uran s @ [cb], ucons := CIdle\<rparr>)"
| u_reset: "ucons s = CSet cb \<Longrightarrow> ustep s (s\<lparr>ucons := CResetLoad cb\<rparr>)"
| u_reset_load: "ucons s = CResetLoad cb \<Longrightarrow>
     ustep s (s\<lparr>ucons := if uword s = UMax then CTaken cb else CResetCas cb (uword s)\<rparr>)"
| u_reset_cas: "ucons s = CResetCas cb e \<Longrightarrow> uword s = e \<Longrightarrow>
     ustep s (s\<lparr>uword := UZero, ucons := CIdle, ureset := insert cb (ureset s)\<rparr>)"
| u_reset_fail: "ucons s = CResetCas cb e \<Longrightarrow> uword s \<noteq> e \<Longrightarrow> ustep s (s\<lparr>ucons := CTaken cb\<rparr>)"

inductive ureach :: "urace \<Rightarrow> bool" where
  ureach_new: "ureach urace_new"
| ureach_step: "ureach s \<Longrightarrow> ustep s s' \<Longrightarrow> ureach s'"

text \<open>
  What holds of the word, the producer and the history at each point of the consumer: either no
  callback is published, or the one that is can be in the word, taken by the producer, or run.
\<close>

definition ufree :: "urace \<Rightarrow> bool" where
  "ufree s \<longleftrightarrow> uword s = UZero \<and> (uprod s = PInit \<or> uprod s = PStored) \<or> uword s = UMax \<and> uprod s = PEnd"

definition unew :: "urace \<Rightarrow> nat \<Rightarrow> bool" where
  "unew s cb \<longleftrightarrow> ufree s \<and> utried s = insert cb (set (uran s) \<union> ureset s) \<and> cb \<notin> set (uran s) \<union> ureset s"

definition uslot :: "urace \<Rightarrow> nat \<Rightarrow> bool" where
  "uslot s cb \<longleftrightarrow> utried s = insert cb (set (uran s) \<union> ureset s) \<and> cb \<notin> ureset s
     \<and> (uword s = UAt cb \<and> (uprod s = PInit \<or> uprod s = PStored) \<and> cb \<notin> set (uran s)
        \<or> uword s = UMax \<and> uprod s = PRun cb \<and> cb \<notin> set (uran s)
        \<or> uword s = UMax \<and> uprod s = PEnd \<and> cb \<in> set (uran s))"

fun ucons_ok :: "ucons \<Rightarrow> urace \<Rightarrow> bool" where
  "ucons_ok CIdle s = (ufree s \<and> utried s = set (uran s) \<union> ureset s)"
| "ucons_ok (CLoad cb) s = unew s cb"
| "ucons_ok (CCas cb) s = unew s cb"
| "ucons_ok (CInline cb) s = (unew s cb \<and> uword s = UMax)"
| "ucons_ok (CSet cb) s = uslot s cb"
| "ucons_ok (CResetLoad cb) s = uslot s cb"
| "ucons_ok (CResetCas cb e) s = (uslot s cb \<and> e = UAt cb)"
| "ucons_ok (CTaken cb) s = (uslot s cb \<and> uword s = UMax)"

definition uinv :: "urace \<Rightarrow> bool" where
  "uinv s \<longleftrightarrow> ucons_ok (ucons s) s \<and> (ustored s \<longleftrightarrow> uprod s \<noteq> PInit)
     \<and> distinct (uran s) \<and> set (uran s) \<inter> ureset s = {} \<and> (uran s \<noteq> [] \<longrightarrow> ustored s)"

lemmas uinv_defs = uinv_def ufree_def unew_def uslot_def

fun between :: "ucons \<Rightarrow> bool" where
  "between (CLoad cb) = False"
| "between (CCas cb) = False"
| "between (CInline cb) = False"
| "between _ = True"

lemma uinv_new: "uinv urace_new"
  by (simp add: uinv_defs urace_new_def)

lemma uinv_prod:
  "uinv s \<Longrightarrow> uprod s = PInit \<Longrightarrow> uinv (s\<lparr>ustored := True, uprod := PStored\<rparr>)"
  "uinv s \<Longrightarrow> uprod s = PStored \<Longrightarrow>
     uinv (s\<lparr>uword := UMax, uprod := (case uword s of UAt cb \<Rightarrow> PRun cb | _ \<Rightarrow> PEnd)\<rparr>)"
  "uinv s \<Longrightarrow> uprod s = PRun cb \<Longrightarrow> uinv (s\<lparr>uran := uran s @ [cb], uprod := PEnd\<rparr>)"
  by (cases "ucons s"; auto simp: uinv_defs)+

lemma uinv_set:
  "uinv s \<Longrightarrow> ucons s = CIdle \<Longrightarrow> cb \<notin> utried s \<Longrightarrow> uinv (s\<lparr>ucons := CLoad cb, utried := insert cb (utried s)\<rparr>)"
  "uinv s \<Longrightarrow> ucons s = CLoad cb \<Longrightarrow> uinv (s\<lparr>ucons := if uword s = UZero then CCas cb else CInline cb\<rparr>)"
  "uinv s \<Longrightarrow> ucons s = CCas cb \<Longrightarrow> uword s = UZero \<Longrightarrow> uinv (s\<lparr>uword := UAt cb, ucons := CSet cb\<rparr>)"
  "uinv s \<Longrightarrow> ucons s = CCas cb \<Longrightarrow> uword s \<noteq> UZero \<Longrightarrow> uinv (s\<lparr>ucons := CInline cb\<rparr>)"
  "uinv s \<Longrightarrow> ucons s = CInline cb \<Longrightarrow> uinv (s\<lparr>uran := uran s @ [cb], ucons := CIdle\<rparr>)"
  by (auto simp: uinv_defs)

lemma uinv_reset:
  "uinv s \<Longrightarrow> ucons s = CSet cb \<Longrightarrow> uinv (s\<lparr>ucons := CResetLoad cb\<rparr>)"
  "uinv s \<Longrightarrow> ucons s = CResetLoad cb \<Longrightarrow>
     uinv (s\<lparr>ucons := if uword s = UMax then CTaken cb else CResetCas cb (uword s)\<rparr>)"
  "uinv s \<Longrightarrow> ucons s = CResetCas cb e \<Longrightarrow> uword s = e \<Longrightarrow>
     uinv (s\<lparr>uword := UZero, ucons := CIdle, ureset := insert cb (ureset s)\<rparr>)"
  "uinv s \<Longrightarrow> ucons s = CResetCas cb e \<Longrightarrow> uword s \<noteq> e \<Longrightarrow> uinv (s\<lparr>ucons := CTaken cb\<rparr>)"
  by (auto simp: uinv_defs)

lemma uinv_step: "ustep s s' \<Longrightarrow> uinv s \<Longrightarrow> uinv s'"
  by (induction rule: ustep.induct) (blast intro: uinv_prod uinv_set uinv_reset)+

lemma ureach_inv: "ureach s \<Longrightarrow> uinv s"
  by (induction rule: ureach.induct) (auto intro: uinv_new uinv_step)

text \<open>C2: the callback of a unique core runs exactly once: in every interleaving of the producer's
  exchange with the consumer's \<open>SetCallback\<close> and \<open>Reset\<close>, no callback runs twice or before the
  result is stored; one that a successful \<open>Reset\<close> took back never runs; and when the producer is
  done and the consumer is not in the middle of an operation, every callback ever set has run or was
  taken back.\<close>

theorem callback_exactly_once:
  assumes "ureach s"
  shows "distinct (uran s) \<and> (uran s \<noteq> [] \<longrightarrow> ustored s) \<and> set (uran s) \<inter> ureset s = {}
    \<and> (uprod s = PEnd \<and> between (ucons s) \<longrightarrow> utried s = set (uran s) \<union> ureset s)"
  using ureach_inv [OF assms] by (cases "ucons s") (auto simp: uinv_defs)

theorem callback_exactly_once_witness:
  "\<exists>s. ureach s \<and> uprod s = PEnd \<and> utried s = {4} \<and> utried s = set (uran s) \<union> ureset s"
proof -
  let ?s = "\<lambda>w st p c t r. \<lparr>uword = w, ustored = st, uprod = p, ucons = c, utried = t, uran = r, ureset = {}\<rparr>"
  have "ureach (?s UZero False PInit CIdle {} [])" using ureach_new by (simp add: urace_new_def)
  then have "ureach (?s UZero False PInit (CLoad 4) {4} [])"
    by (rule ureach_step) (use u_begin [of "?s UZero False PInit CIdle {} []" 4] in simp)
  then have "ureach (?s UZero False PInit (CCas 4) {4} [])"
    by (rule ureach_step) (use u_load [of "?s UZero False PInit (CLoad 4) {4} []" 4] in simp)
  then have "ureach (?s (UAt 4) False PInit (CSet 4) {4} [])"
    by (rule ureach_step) (use u_cas [of "?s UZero False PInit (CCas 4) {4} []" 4] in simp)
  then have "ureach (?s (UAt 4) True PStored (CSet 4) {4} [])"
    by (rule ureach_step) (use u_store [of "?s (UAt 4) False PInit (CSet 4) {4} []"] in simp)
  then have "ureach (?s UMax True (PRun 4) (CSet 4) {4} [])"
    by (rule ureach_step) (use u_exchange [of "?s (UAt 4) True PStored (CSet 4) {4} []"] in simp)
  then have r: "ureach (?s UMax True PEnd (CSet 4) {4} [4])"
    by (rule ureach_step) (use u_run [of "?s UMax True (PRun 4) (CSet 4) {4} []" 4] in simp)
  from callback_exactly_once [OF r] r show ?thesis
    by (intro exI [of _ "?s UMax True PEnd (CSet 4) {4} [4]"]) simp
qed

subsection \<open>Shared cores\<close>

text \<open>
  A thread without a handle; with a \<open>SharedFuture\<close>; in \<open>SetCallback\<close> with the callback and the
  expected word; running its callback itself because the result is there (it reads the result as a
  constant); in the rvalue \<open>Touch\<close> after \<open>GetRef\<close>, with the decision to move or to copy; and before
  the \<open>DecRef\<close> of the handle.
\<close>

datatype sthread = TNone | THold | TCas nat "nat uptr" | TInline nat | TMove | TCopy | TDec

text \<open>
  The producer: the list of callbacks is walked; \<open>SVisit\<close> is the visit of one of them with the rest
  of the list, \<open>SCore\<close> is \<open>ResultCore::Impl\<close> of one that is a plain core, after its \<open>GetRef\<close>; \<open>SDec\<close>
  counts the references that are left to release.
\<close>

datatype sprod = SInit | SStored | SWalk nat | SVisit nat "nat option" | SCore nat "nat option" bool | SDec nat

text \<open>\<open>pending\<close>: callbacks that were submitted to an executor, or wait for an asynchronous result, and
  hold a reference until they are done. The producer submits the callbacks it finds in its list
  (\<open>s_visit_call\<close>), a thread that finds the result there submits its own (\<open>t_inline_call\<close>).\<close>

record srace =
  sword :: "nat uptr"
  snext :: "nat \<Rightarrow> nat option"
  sprod :: sprod
  srefs :: nat
  threads :: "sthread list"
  pending :: nat
  smoved :: bool
  stried :: "nat list"
  sran :: "nat list"

text \<open>\<open>MakeSharedContract\<close>: three references for the promise, one for the future.\<close>

definition srace_new :: "nat \<Rightarrow> srace" where
  "srace_new n = \<lparr>sword = UZero, snext = (\<lambda>_. None), sprod = SInit, srefs = 4,
     threads = THold # replicate n TNone, pending = 0, smoved = False, stried = [], sran = []\<rparr>"

definition after_visit :: "nat option \<Rightarrow> sprod" where
  "after_visit nx = (case nx of Some h \<Rightarrow> SWalk h | None \<Rightarrow> SDec 2)"

inductive sstep :: "srace \<Rightarrow> srace \<Rightarrow> bool" where
  s_store: "sprod s = SInit \<Longrightarrow> sstep s (s\<lparr>sprod := SStored\<rparr>)"
| s_exchange: "sprod s = SStored \<Longrightarrow>
     sstep s (s\<lparr>sword := UMax, sprod := (case sword s of UAt h \<Rightarrow> SWalk h | _ \<Rightarrow> SDec 3)\<rparr>)"
| s_walk: "sprod s = SWalk h \<Longrightarrow> snext s h = Some n \<Longrightarrow> sstep s (s\<lparr>sprod := SVisit h (Some n)\<rparr>)"
| s_walk_last: "sprod s = SWalk h \<Longrightarrow> snext s h = None \<Longrightarrow>
     sstep s (s\<lparr>sprod := SVisit h None, srefs := srefs s - 1\<rparr>)"
| s_visit_inline: "sprod s = SVisit h nx \<Longrightarrow>
     sstep s (s\<lparr>sprod := after_visit nx, sran := sran s @ [h]\<rparr>)"
| s_visit_call: "sprod s = SVisit h nx \<Longrightarrow>
     sstep s (s\<lparr>sprod := after_visit nx, sran := sran s @ [h], srefs := srefs s + 1, pending := pending s + 1\<rparr>)"
| s_visit_core: "sprod s = SVisit h nx \<Longrightarrow> sstep s (s\<lparr>sprod := SCore h nx (srefs s < 3)\<rparr>)"
| s_core: "sprod s = SCore h nx mv \<Longrightarrow>
     sstep s (s\<lparr>sprod := after_visit nx, sran := sran s @ [h], smoved := smoved s \<or> mv\<rparr>)"
| s_dec: "sprod s = SDec (Suc k) \<Longrightarrow> sstep s (s\<lparr>sprod := SDec k, srefs := srefs s - 1\<rparr>)"
| s_pending: "0 < pending s \<Longrightarrow> sstep s (s\<lparr>pending := pending s - 1, srefs := srefs s - 1\<rparr>)"
| t_copy: "t < length (threads s) \<Longrightarrow> threads s ! t = THold \<Longrightarrow> u < length (threads s) \<Longrightarrow> threads s ! u = TNone \<Longrightarrow>
     sstep s (s\<lparr>threads := (threads s)[u := THold], srefs := srefs s + 1\<rparr>)"
| t_begin: "t < length (threads s) \<Longrightarrow> threads s ! t = THold \<Longrightarrow> cb \<notin> set (stried s) \<Longrightarrow>
     sstep s (s\<lparr>threads := (threads s)[t := if sword s = UMax then TInline cb else TCas cb (sword s)],
       stried := stried s @ [cb]\<rparr>)"
| t_cas: "t < length (threads s) \<Longrightarrow> threads s ! t = TCas cb e \<Longrightarrow> sword s = e \<Longrightarrow>
     sstep s (s\<lparr>snext := (snext s)(cb := ptr_of e), sword := UAt cb, threads := (threads s)[t := THold]\<rparr>)"
| t_cas_fail: "t < length (threads s) \<Longrightarrow> threads s ! t = TCas cb e \<Longrightarrow>
     sstep s (s\<lparr>threads := (threads s)[t := if sword s = UMax then TInline cb else TCas cb (sword s)]\<rparr>)"
| t_inline: "t < length (threads s) \<Longrightarrow> threads s ! t = TInline cb \<Longrightarrow>
     sstep s (s\<lparr>threads := (threads s)[t := THold], sran := sran s @ [cb]\<rparr>)"
| t_inline_call: "t < length (threads s) \<Longrightarrow> threads s ! t = TInline cb \<Longrightarrow>
     sstep s (s\<lparr>threads := (threads s)[t := THold], sran := sran s @ [cb], srefs := srefs s + 1,
       pending := pending s + 1\<rparr>)"
| t_touch: "t < length (threads s) \<Longrightarrow> threads s ! t = THold \<Longrightarrow> sword s = UMax \<Longrightarrow>
     sstep s (s\<lparr>threads := (threads s)[t := if srefs s = 1 then TMove else TCopy]\<rparr>)"
| t_move: "t < length (threads s) \<Longrightarrow> threads s ! t = TMove \<Longrightarrow>
     sstep s (s\<lparr>threads := (threads s)[t := TDec], smoved := True\<rparr>)"
| t_copied: "t < length (threads s) \<Longrightarrow> threads s ! t = TCopy \<Longrightarrow> sstep s (s\<lparr>threads := (threads s)[t := TDec]\<rparr>)"
| t_drop: "t < length (threads s) \<Longrightarrow> threads s ! t = THold \<Longrightarrow> sstep s (s\<lparr>threads := (threads s)[t := TDec]\<rparr>)"
| t_dec: "t < length (threads s) \<Longrightarrow> threads s ! t = TDec \<Longrightarrow>
     sstep s (s\<lparr>threads := (threads s)[t := TNone], srefs := srefs s - 1\<rparr>)"

inductive sreach :: "srace \<Rightarrow> bool" where
  sreach_new: "sreach (srace_new n)"
| sreach_step: "sreach s \<Longrightarrow> sstep s s' \<Longrightarrow> sreach s'"

text \<open>The references of the producer and of a thread.\<close>

fun prod_refs :: "sprod \<Rightarrow> nat" where
  "prod_refs (SVisit h None) = 2"
| "prod_refs (SCore h None mv) = 2"
| "prod_refs (SDec k) = k"
| "prod_refs _ = 3"

definition holds :: "sthread \<Rightarrow> nat" where
  "holds t = (if t = TNone then 0 else 1)"

fun prod_walk :: "sprod \<Rightarrow> nat option" where
  "prod_walk (SWalk h) = Some h"
| "prod_walk (SVisit h nx) = Some h"
| "prod_walk (SCore h nx mv) = Some h"
| "prod_walk _ = None"

text \<open>
  After a move the producer only releases, nothing is pending, and the only handle that can be left
  is that of the thread that moved, which is about to release it.
\<close>

definition moved_inv :: "srace \<Rightarrow> bool" where
  "moved_inv s \<longleftrightarrow> (smoved s \<longrightarrow> (\<exists>k. sprod s = SDec k) \<and> pending s = 0 \<and> set (threads s) \<subseteq> {TNone, TDec})
     \<and> (\<forall>h nx. sprod s = SCore h nx True \<longrightarrow> srefs s = 2 \<and> nx = None)
     \<and> (TMove \<in> set (threads s) \<longrightarrow> srefs s = 1)"

definition ref_inv :: "srace \<Rightarrow> bool" where
  "ref_inv s \<longleftrightarrow> srefs s = prod_refs (sprod s) + sum_list (map holds (threads s)) + pending s
     \<and> (sword s = UMax \<longleftrightarrow> sprod s \<noteq> SInit \<and> sprod s \<noteq> SStored)
     \<and> (\<forall>cb. TInline cb \<in> set (threads s) \<longrightarrow> sword s = UMax)
     \<and> (\<forall>cb e. TCas cb e \<in> set (threads s) \<longrightarrow> e \<noteq> UMax)
     \<and> (pending s \<noteq> 0 \<or> TMove \<in> set (threads s) \<or> TCopy \<in> set (threads s) \<longrightarrow> sword s = UMax)"

lemma holds_step:
  "t < length ts \<Longrightarrow> sum_list (map holds (ts[t := x])) + holds (ts ! t) = sum_list (map holds ts) + holds x"
  by (rule sum_list_step)

lemma holds_ge: "t < length ts \<Longrightarrow> holds (ts ! t) \<le> sum_list (map holds ts)"
  by (rule sum_list_entry_le)

lemma holds_none: "sum_list (map holds ts) = 0 \<longleftrightarrow> set ts \<subseteq> {TNone}"
  by (induction ts) (auto simp: holds_def split: if_splits)

lemma only_holder:
  assumes "t < length ts" "ts ! t \<noteq> TNone" "sum_list (map holds ts) \<le> 1"
  shows "\<forall>u < length ts. u \<noteq> t \<longrightarrow> ts ! u = TNone"
proof (intro allI impI)
  fix u
  assume u: "u < length ts" "u \<noteq> t"
  have "sum_list (map holds (ts[t := TNone])) = 0"
  proof -
    have "holds (ts ! t) = 1" "holds TNone = 0" using assms(2) by (simp_all add: holds_def)
    then show ?thesis using holds_step [OF assms(1), of TNone] assms(3) by linarith
  qed
  then have "set (ts[t := TNone]) \<subseteq> {TNone}" by (rule holds_none [THEN iffD1])
  moreover have "ts[t := TNone] ! u \<in> set (ts[t := TNone])" using u by (intro nth_mem) simp
  ultimately show "ts ! u = TNone" using u by auto
qed

lemma ref_inv_new: "ref_inv (srace_new n)"
proof -
  have "sum_list (map holds (replicate n TNone)) = 0" by (rule holds_none [THEN iffD2]) (simp add: set_replicate_conv_if)
  then show ?thesis by (auto simp: ref_inv_def srace_new_def holds_def)
qed

lemma prod_refs_after [simp]: "prod_refs (after_visit nx) = (case nx of None \<Rightarrow> 2 | Some h \<Rightarrow> 3)"
  by (cases nx) (simp_all add: after_visit_def)

lemma prod_refs_visit [simp]: "prod_refs (SCore h nx mv) = (case nx of None \<Rightarrow> 2 | Some h \<Rightarrow> 3)"
    "prod_refs (SVisit h nx) = (case nx of None \<Rightarrow> 2 | Some h \<Rightarrow> 3)"
  by (cases nx; simp)+

lemma after_visit_neq [simp]: "after_visit nx \<noteq> SInit" "after_visit nx \<noteq> SStored"
    "after_visit nx \<noteq> SVisit h m" "after_visit nx \<noteq> SCore h m mv"
  by (cases nx; simp add: after_visit_def)+

lemma after_visit_None: "after_visit None = SDec 2"
  by (simp add: after_visit_def)

lemma thread_in: "t < length (threads s) \<Longrightarrow> threads s ! t = x \<Longrightarrow> x \<in> set (threads s)"
  by auto

lemma ref_inv_prod:
  assumes "ref_inv s" "threads s' = threads s" "sword s' = sword s \<or> sword s' = UMax"
    "sword s' = UMax \<longleftrightarrow> sprod s' \<noteq> SInit \<and> sprod s' \<noteq> SStored" "pending s' = pending s \<or> sword s' = UMax"
    "srefs s' + prod_refs (sprod s) + pending s = srefs s + prod_refs (sprod s') + pending s'"
  shows "ref_inv s'"
  using assms unfolding ref_inv_def by auto

lemma ref_inv_thread:
  assumes "ref_inv s" "t < length (threads s)" "threads s' = (threads s)[t := x]" "pending s' = pending s \<or> sword s = UMax"
    "sprod s' = sprod s" "sword s' = UMax \<longleftrightarrow> sword s = UMax"
    "(\<exists>cb. x = TInline cb) \<or> x = TMove \<or> x = TCopy \<Longrightarrow> sword s = UMax" "\<And>cb e. x = TCas cb e \<Longrightarrow> e \<noteq> UMax"
    "srefs s' + holds (threads s ! t) + pending s = srefs s + holds x + pending s'"
  shows "ref_inv s'"
proof -
  have new: "y = x \<or> y \<in> set (threads s)" if "y \<in> set (threads s')" for y
    using mem_updateD that assms(3) by metis
  have "\<forall>cb. TInline cb \<in> set (threads s') \<longrightarrow> sword s' = UMax"
    using new assms(1,6,7) unfolding ref_inv_def by metis
  moreover have "\<forall>cb e. TCas cb e \<in> set (threads s') \<longrightarrow> e \<noteq> UMax"
    using new assms(1,8) unfolding ref_inv_def by metis
  moreover have "pending s' \<noteq> 0 \<or> TMove \<in> set (threads s') \<or> TCopy \<in> set (threads s') \<longrightarrow> sword s' = UMax"
    using new assms(1,4,6,7) unfolding ref_inv_def by metis
  moreover have "srefs s = prod_refs (sprod s) + sum_list (map holds (threads s)) + pending s"
    using assms(1) by (simp add: ref_inv_def)
  then have "srefs s' = prod_refs (sprod s) + sum_list (map holds ((threads s)[t := x])) + pending s'"
    using assms(9) holds_step [OF assms(2), of x] by linarith
  then have "srefs s' = prod_refs (sprod s') + sum_list (map holds (threads s')) + pending s'"
    by (simp add: assms(3,5))
  moreover have "sword s' = UMax \<longleftrightarrow> sprod s' \<noteq> SInit \<and> sprod s' \<noteq> SStored"
    using assms(1,5,6) unfolding ref_inv_def by simp
  ultimately show ?thesis unfolding ref_inv_def by blast
qed

lemma ref_inv_step: "sstep s s' \<Longrightarrow> ref_inv s \<Longrightarrow> ref_inv s'"
proof (induction rule: sstep.induct)
  case (s_store s)
  show ?case by (rule ref_inv_prod [OF s_store(2)]) (use s_store in \<open>simp_all add: ref_inv_def\<close>)
next
  case (s_exchange s)
  show ?case by (rule ref_inv_prod [OF s_exchange(2)]) (simp_all add: s_exchange split: uptr.split)
next
  case (s_walk s h n)
  show ?case by (rule ref_inv_prod [OF s_walk(3)]) (use s_walk in \<open>simp_all add: ref_inv_def\<close>)
next
  case (s_walk_last s h)
  show ?case by (rule ref_inv_prod [OF s_walk_last(3)]) (use s_walk_last in \<open>simp_all add: ref_inv_def\<close>)
next
  case (s_visit_inline s h nx)
  show ?case by (rule ref_inv_prod [OF s_visit_inline(2)])
    (use s_visit_inline in \<open>simp_all add: ref_inv_def split: option.split\<close>)
next
  case (s_visit_call s h nx)
  show ?case by (rule ref_inv_prod [OF s_visit_call(2)])
    (use s_visit_call in \<open>simp_all add: ref_inv_def split: option.split\<close>)
next
  case (s_visit_core s h nx)
  show ?case by (rule ref_inv_prod [OF s_visit_core(2)])
    (use s_visit_core in \<open>simp_all add: ref_inv_def\<close>)
next
  case (s_core s h nx mv)
  show ?case by (rule ref_inv_prod [OF s_core(2)])
    (use s_core in \<open>simp_all add: ref_inv_def\<close>)
next
  case (s_dec s k)
  show ?case by (rule ref_inv_prod [OF s_dec(2)]) (use s_dec in \<open>simp_all add: ref_inv_def\<close>)
next
  case (s_pending s)
  have w: "sword s = UMax \<longleftrightarrow> sprod s \<noteq> SInit \<and> sprod s \<noteq> SStored" "sword s = UMax" "pending s \<le> srefs s"
    using s_pending unfolding ref_inv_def by auto
  show ?case by (rule ref_inv_prod [OF s_pending(2)]) (use s_pending(1) w in simp_all)
next
  case (t_copy t s u)
  show ?case by (rule ref_inv_thread [OF t_copy(5,3), where x = THold]) (simp_all add: t_copy holds_def)
next
  case (t_begin t s cb)
  show ?case
    by (rule ref_inv_thread [OF t_begin(4,1), where x = "if sword s = UMax then TInline cb else TCas cb (sword s)"])
      (simp_all add: t_begin holds_def split: if_splits)
next
  case (t_cas t s cb e)
  have "sword s \<noteq> UMax" using thread_in [OF t_cas(1,2)] t_cas(3,4) unfolding ref_inv_def by blast
  then show ?case
    by (intro ref_inv_thread [OF t_cas(4,1), where x = THold]) (simp_all add: t_cas holds_def)
next
  case (t_cas_fail t s cb e)
  show ?case
    by (rule ref_inv_thread [OF t_cas_fail(3,1), where x = "if sword s = UMax then TInline cb else TCas cb (sword s)"])
      (simp_all add: t_cas_fail holds_def split: if_splits)
next
  case (t_inline t s cb)
  show ?case by (rule ref_inv_thread [OF t_inline(3,1), where x = THold]) (simp_all add: t_inline holds_def)
next
  case (t_inline_call t s cb)
  have "sword s = UMax" using thread_in [OF t_inline_call(1,2)] t_inline_call(3) unfolding ref_inv_def by blast
  then show ?case
    by (intro ref_inv_thread [OF t_inline_call(3,1), where x = THold]) (simp_all add: t_inline_call holds_def)
next
  case (t_touch t s)
  show ?case
    by (rule ref_inv_thread [OF t_touch(4,1), where x = "if srefs s = 1 then TMove else TCopy"])
      (simp_all add: t_touch holds_def split: if_splits)
next
  case (t_move t s)
  show ?case by (rule ref_inv_thread [OF t_move(3,1), where x = TDec]) (simp_all add: t_move holds_def)
next
  case (t_copied t s)
  show ?case by (rule ref_inv_thread [OF t_copied(3,1), where x = TDec]) (simp_all add: t_copied holds_def)
next
  case (t_drop t s)
  show ?case by (rule ref_inv_thread [OF t_drop(3,1), where x = TDec]) (simp_all add: t_drop holds_def)
next
  case (t_dec t s)
  have "0 < srefs s" using holds_ge [OF t_dec(1)] t_dec(2,3) by (simp add: ref_inv_def holds_def)
  then show ?case
    by (intro ref_inv_thread [OF t_dec(3,1), where x = TNone]) (simp_all add: t_dec holds_def)
qed

text \<open>A move leaves no reader behind.\<close>

lemma moved_inv_prod:
  assumes "moved_inv s" "smoved s' = smoved s" "threads s' = threads s" "srefs s' = srefs s \<or> TMove \<notin> set (threads s)"
    "pending s' = pending s \<or> \<not> smoved s"
    "(\<exists>k. sprod s = SDec k) \<longrightarrow> (\<exists>k. sprod s' = SDec k)"
    "\<forall>h nx. sprod s' = SCore h nx True \<longrightarrow> srefs s' = 2 \<and> nx = None"
  shows "moved_inv s'"
  using assms unfolding moved_inv_def by auto

text \<open>While a thread is about to move, its reference is the only one.\<close>

lemma move_alone:
  assumes "ref_inv s" "moved_inv s" "TMove \<in> set (threads s)"
  shows "sprod s = SDec 0" "pending s = 0"
    "\<And>t. t < length (threads s) \<Longrightarrow> threads s ! t \<noteq> TNone \<Longrightarrow> threads s ! t = TMove"
proof -
  obtain u where u: "u < length (threads s)" "threads s ! u = TMove" using assms(3) by (auto simp: in_set_conv_nth)
  have "srefs s = 1" using assms(2,3) by (simp add: moved_inv_def)
  moreover have "1 \<le> sum_list (map holds (threads s))" using holds_ge [OF u(1)] u(2) by (simp add: holds_def)
  ultimately have z: "prod_refs (sprod s) = 0" "pending s = 0" and le: "sum_list (map holds (threads s)) \<le> 1"
    using assms(1) unfolding ref_inv_def by linarith+
  show "pending s = 0" by (rule z)
  show "sprod s = SDec 0" using z(1) by (cases "sprod s") (auto split: option.splits)
  show "threads s ! t = TMove" if "t < length (threads s)" "threads s ! t \<noteq> TNone" for t
    using only_holder [OF u(1) _ le] u that by (cases "t = u") auto
qed

lemma core_alone:
  assumes "ref_inv s" "moved_inv s" "sprod s = SCore h nx True"
  shows "nx = None" "pending s = 0" "set (threads s) \<subseteq> {TNone}"
proof -
  have r: "srefs s = 2" and nx: "nx = None" using assms(2,3) by (auto simp: moved_inv_def)
  show "nx = None" by (rule nx)
  have "prod_refs (sprod s) = 2" using assms(3) nx by simp
  then have "sum_list (map holds (threads s)) = 0" "pending s = 0"
    using assms(1) r unfolding ref_inv_def by linarith+
  then show "pending s = 0" "set (threads s) \<subseteq> {TNone}" by (simp_all only: holds_none)
qed

lemma moved_thread:
  assumes R: "ref_inv s" and M: "moved_inv s" and t: "t < length (threads s)" "threads s ! t \<noteq> TNone" "threads s ! t \<noteq> TMove"
    and s': "threads s' = (threads s)[u := x]" "sprod s' = sprod s" "smoved s' = smoved s"
      "pending s' = pending s \<or> \<not> smoved s"
    and x: "x = TMove \<longrightarrow> srefs s' = 1" "smoved s \<longrightarrow> x = TNone \<or> x = TDec"
  shows "moved_inv s'"
proof -
  have nm: "TMove \<notin> set (threads s)" using move_alone(3) [OF R M] t by blast
  have nc: "sprod s \<noteq> SCore h nx True" for h nx
    using core_alone(3) [OF R M] thread_in [OF t(1) refl] t(2) by auto
  have new: "y = x \<or> y \<in> set (threads s)" if "y \<in> set (threads s')" for y
    using that mem_updateD unfolding s'(1) by metis
  have "set (threads s') \<subseteq> {TNone, TDec}" if "smoved s"
    using new that M x(2) unfolding moved_inv_def by blast
  moreover have "TMove \<in> set (threads s') \<longrightarrow> srefs s' = 1" using new nm x(1) by blast
  ultimately show ?thesis using M nc s'(4) unfolding moved_inv_def s'(2,3) by metis
qed

lemma not_moved:
  assumes "moved_inv s" "t < length (threads s)" "threads s ! t \<noteq> TNone" "threads s ! t \<noteq> TDec"
  shows "\<not> smoved s"
proof -
  have "threads s ! t \<in> set (threads s)" using assms(2) by simp
  then show ?thesis using assms(1,3,4) unfolding moved_inv_def by blast
qed

lemma moved_inv_step: "sstep s s' \<Longrightarrow> ref_inv s \<Longrightarrow> moved_inv s \<Longrightarrow> moved_inv s'"
proof (induction rule: sstep.induct)
  case (s_store s)
  show ?case by (rule moved_inv_prod [OF s_store(3)]) (simp_all add: s_store)
next
  case (s_exchange s)
  show ?case by (rule moved_inv_prod [OF s_exchange(3)]) (simp_all add: s_exchange split: uptr.split)
next
  case (s_walk s h n)
  show ?case by (rule moved_inv_prod [OF s_walk(4)]) (simp_all add: s_walk)
next
  case (s_walk_last s h)
  have "TMove \<notin> set (threads s)" using move_alone(1) [OF s_walk_last(3,4)] s_walk_last(1) by auto
  then show ?case by (intro moved_inv_prod [OF s_walk_last(4)]) (simp_all add: s_walk_last)
next
  case (s_visit_inline s h nx)
  show ?case by (rule moved_inv_prod [OF s_visit_inline(3)]) (simp_all add: s_visit_inline)
next
  case (s_visit_call s h nx)
  have "TMove \<notin> set (threads s)" "\<not> smoved s"
    using move_alone(1) [OF s_visit_call(2,3)] s_visit_call(1,3) by (auto simp: moved_inv_def)
  then show ?case by (intro moved_inv_prod [OF s_visit_call(3)]) (simp_all add: s_visit_call)
next
  case (s_visit_core s h nx)
  have "srefs s = 2 \<and> nx = None" if "srefs s < 3"
    using s_visit_core(1,2) that by (cases nx) (auto simp: ref_inv_def)
  then show ?case by (intro moved_inv_prod [OF s_visit_core(3)]) (auto simp: s_visit_core)
next
  case (s_core s h nx mv)
  have nm: "TMove \<notin> set (threads s)" using move_alone(1) [OF s_core(2,3)] s_core(1) by auto
  have "\<not> smoved s" using s_core(1,3) by (auto simp: moved_inv_def)
  then show ?case
    using core_alone [OF s_core(2,3)] s_core(1) nm by (cases mv) (auto simp: moved_inv_def after_visit_None)
next
  case (s_dec s k)
  have "TMove \<notin> set (threads s)" using move_alone(1) [OF s_dec(2,3)] s_dec(1) by auto
  then show ?case by (intro moved_inv_prod [OF s_dec(3)]) (simp_all add: s_dec)
next
  case (s_pending s)
  have "TMove \<notin> set (threads s)" "\<not> smoved s"
    using move_alone(2) [OF s_pending(2,3)] s_pending(1,3) by (auto simp: moved_inv_def)
  moreover have "sprod s \<noteq> SCore h nx True" for h nx using core_alone(2) [OF s_pending(2,3)] s_pending(1) by auto
  ultimately show ?case by (intro moved_inv_prod [OF s_pending(3)]) simp_all
next
  case (t_copy t s u)
  have "\<not> smoved s" by (rule not_moved [OF t_copy(6,1)]) (simp_all add: t_copy)
  then show ?case by (intro moved_thread [OF t_copy(5,6,1), where u = u and x = THold]) (simp_all add: t_copy)
next
  case (t_begin t s cb)
  have "\<not> smoved s" by (rule not_moved [OF t_begin(5,1)]) (simp_all add: t_begin)
  then show ?case
    by (intro moved_thread [OF t_begin(4,5,1), where u = t and x = "if sword s = UMax then TInline cb else TCas cb (sword s)"])
      (simp_all add: t_begin)
next
  case (t_cas t s cb e)
  have "\<not> smoved s" by (rule not_moved [OF t_cas(5,1)]) (simp_all add: t_cas)
  then show ?case by (intro moved_thread [OF t_cas(4,5,1), where u = t and x = THold]) (simp_all add: t_cas)
next
  case (t_cas_fail t s cb e)
  have "\<not> smoved s" by (rule not_moved [OF t_cas_fail(4,1)]) (simp_all add: t_cas_fail)
  then show ?case
    by (intro moved_thread [OF t_cas_fail(3,4,1), where u = t and x = "if sword s = UMax then TInline cb else TCas cb (sword s)"])
      (simp_all add: t_cas_fail)
next
  case (t_inline t s cb)
  have "\<not> smoved s" by (rule not_moved [OF t_inline(4,1)]) (simp_all add: t_inline)
  then show ?case by (intro moved_thread [OF t_inline(3,4,1), where u = t and x = THold]) (simp_all add: t_inline)
next
  case (t_inline_call t s cb)
  have "\<not> smoved s" by (rule not_moved [OF t_inline_call(4,1)]) (simp_all add: t_inline_call)
  then show ?case
    by (intro moved_thread [OF t_inline_call(3,4,1), where u = t and x = THold]) (simp_all add: t_inline_call)
next
  case (t_touch t s)
  have "\<not> smoved s" by (rule not_moved [OF t_touch(5,1)]) (simp_all add: t_touch)
  then show ?case
    by (intro moved_thread [OF t_touch(4,5,1), where u = t and x = "if srefs s = 1 then TMove else TCopy"])
      (simp_all add: t_touch)
next
  case (t_move t s)
  note A = move_alone [OF t_move(3,4) thread_in [OF t_move(1,2)]]
  have "y = TNone \<or> y = TDec" if y: "y \<in> set ((threads s)[t := TDec])" for y
  proof -
    obtain u where u: "u < length (threads s)" "y = (threads s)[t := TDec] ! u" using y by (auto simp: in_set_conv_nth)
    have "srefs s = 1" using t_move(4) thread_in [OF t_move(1,2)] by (simp add: moved_inv_def)
    then have "sum_list (map holds (threads s)) \<le> 1" using t_move(3) by (simp add: ref_inv_def)
    then have "u \<noteq> t \<Longrightarrow> threads s ! u = TNone" using only_holder [OF t_move(1)] t_move(2) u(1) by simp
    then show ?thesis using u by (cases "u = t") auto
  qed
  then show ?case using A(1,2) by (auto simp: moved_inv_def)
next
  case (t_copied t s)
  show ?case by (rule moved_thread [OF t_copied(3,4,1), where u = t and x = TDec]) (simp_all add: t_copied)
next
  case (t_drop t s)
  show ?case by (rule moved_thread [OF t_drop(3,4,1), where u = t and x = TDec]) (simp_all add: t_drop)
next
  case (t_dec t s)
  show ?case by (rule moved_thread [OF t_dec(3,4,1), where u = t and x = TNone]) (simp_all add: t_dec)
qed


text \<open>Every callback that was given to \<open>SetCallback\<close> is in exactly one place.\<close>

fun held_cb :: "sthread \<Rightarrow> nat multiset" where
  "held_cb (TCas cb e) = {#cb#}"
| "held_cb (TInline cb) = {#cb#}"
| "held_cb _ = {#}"

fun visit_ok :: "(nat \<Rightarrow> nat option) \<Rightarrow> sprod \<Rightarrow> bool" where
  "visit_ok h (SVisit a nx) = (h a = nx)"
| "visit_ok h (SCore a nx mv) = (h a = nx)"
| "visit_ok h _ = True"

definition list_inv :: "srace \<Rightarrow> bool" where
  "list_inv s \<longleftrightarrow> distinct (stried s) \<and> visit_ok (snext s) (sprod s)
     \<and> (\<exists>st rest. nlist (snext s) (ptr_of (sword s)) st \<and> nlist (snext s) (prod_walk (sprod s)) rest
         \<and> mset (stried s) = mset (sran s) + mset st + mset rest + sum_list (map held_cb (threads s)))"

lemma held_step:
  "t < length ts \<Longrightarrow> sum_list (map held_cb (ts[t := x])) + held_cb (ts ! t) = sum_list (map held_cb ts) + held_cb x"
  by (rule sum_list_step)

lemma held_same:
  assumes "t < length ts" "held_cb x = held_cb (ts ! t)"
  shows "sum_list (map held_cb (ts[t := x])) = sum_list (map held_cb ts)"
  using held_step [OF assms(1), of x] assms(2) by simp

lemma held_in: "t < length ts \<Longrightarrow> ts ! t = TCas cb e \<Longrightarrow> cb \<in># sum_list (map held_cb ts)"
  by (induction ts arbitrary: t) (auto simp: nth_Cons split: nat.splits)

lemma prod_walk_after [simp]: "prod_walk (after_visit nx) = nx" "visit_ok f (after_visit nx)"
  by (cases nx; simp add: after_visit_def)+

lemma list_inv_new: "list_inv (srace_new n)"
  by (simp add: list_inv_def srace_new_def)

lemma list_inv_same:
  assumes "list_inv s" "ptr_of (sword s') = ptr_of (sword s)" "snext s' = snext s" "prod_walk (sprod s') = prod_walk (sprod s)"
    "visit_ok (snext s) (sprod s')" "stried s' = stried s" "sran s' = sran s"
    "sum_list (map held_cb (threads s')) = sum_list (map held_cb (threads s))"
  shows "list_inv s'"
  using assms unfolding list_inv_def by simp

lemma list_inv_after:
  assumes "list_inv s" "sprod s = SVisit a nx \<or> sprod s = SCore a nx mv" "sword s' = sword s" "snext s' = snext s"
    "sprod s' = after_visit nx" "stried s' = stried s" "sran s' = sran s @ [a]" "threads s' = threads s"
  shows "list_inv s'"
proof -
  obtain st rest where I: "nlist (snext s) (ptr_of (sword s)) st" "nlist (snext s) (prod_walk (sprod s)) rest"
      "mset (stried s) = mset (sran s) + mset st + mset rest + sum_list (map held_cb (threads s))"
    and d: "distinct (stried s)" and v: "visit_ok (snext s) (sprod s)"
    using assms(1) unfolding list_inv_def by blast
  have "prod_walk (sprod s) = Some a" "snext s a = nx" using assms(2) v by auto
  then obtain rest' where "rest = a # rest'" "nlist (snext s) nx rest'" using I(2) by (auto simp: nlist_Some)
  then have "nlist (snext s') (ptr_of (sword s')) st \<and> nlist (snext s') (prod_walk (sprod s')) rest' \<and>
      mset (stried s') = mset (sran s') + mset st + mset rest' + sum_list (map held_cb (threads s'))"
    using I(1,3) by (simp add: assms(3-8))
  moreover have "visit_ok (snext s') (sprod s')" by (simp add: assms(5))
  ultimately show ?thesis using d unfolding list_inv_def assms(6) by blast
qed

lemma list_inv_exchange:
  assumes "list_inv s" "sprod s = SStored"
    "s' = s\<lparr>sword := UMax, sprod := (case sword s of UAt h \<Rightarrow> SWalk h | _ \<Rightarrow> SDec 3)\<rparr>"
  shows "list_inv s'"
proof -
  obtain st rest where I: "nlist (snext s) (ptr_of (sword s)) st" "nlist (snext s) (prod_walk (sprod s)) rest"
      "mset (stried s) = mset (sran s) + mset st + mset rest + sum_list (map held_cb (threads s))"
    and d: "distinct (stried s)"
    using assms(1) unfolding list_inv_def by blast
  have "rest = []" using I(2) assms(2) by simp
  moreover have "prod_walk (sprod s') = ptr_of (sword s)" "visit_ok (snext s') (sprod s')"
    by (simp_all add: assms(3) split: uptr.split)
  ultimately have "nlist (snext s') (ptr_of (sword s')) [] \<and> nlist (snext s') (prod_walk (sprod s')) st \<and>
      mset (stried s') = mset (sran s') + mset [] + mset st + sum_list (map held_cb (threads s'))"
    using I(1,3) assms(3) by simp
  then show ?thesis using d \<open>visit_ok (snext s') (sprod s')\<close> assms(3) unfolding list_inv_def by fastforce
qed

lemma list_inv_begin:
  assumes "list_inv s" "t < length (threads s)" "threads s ! t = THold" "cb \<notin> set (stried s)" "held_cb x = {#cb#}"
    "s' = s\<lparr>threads := (threads s)[t := x], stried := stried s @ [cb]\<rparr>"
  shows "list_inv s'"
proof -
  have "sum_list (map held_cb ((threads s)[t := x])) = sum_list (map held_cb (threads s)) + {#cb#}"
    using held_step [OF assms(2), of x] assms(3,5) by simp
  then show ?thesis using assms(1,4) unfolding list_inv_def assms(6) by auto
qed

lemma list_inv_cas:
  assumes "list_inv s" "t < length (threads s)" "threads s ! t = TCas cb e" "sword s = e"
    "s' = s\<lparr>snext := (snext s)(cb := ptr_of e), sword := UAt cb, threads := (threads s)[t := THold]\<rparr>"
  shows "list_inv s'"
proof -
  obtain st rest where I: "nlist (snext s) (ptr_of (sword s)) st" "nlist (snext s) (prod_walk (sprod s)) rest"
      "mset (stried s) = mset (sran s) + mset st + mset rest + sum_list (map held_cb (threads s))"
    and d: "distinct (stried s)" and v: "visit_ok (snext s) (sprod s)"
    using assms(1) unfolding list_inv_def by blast
  have m: "sum_list (map held_cb ((threads s)[t := THold])) + {#cb#} = sum_list (map held_cb (threads s))"
    using held_step [OF assms(2), of THold] assms(3) by simp
  have "distinct (sran s @ st @ rest @ [cb])"
  proof -
    obtain ys where ys: "mset ys = sum_list (map held_cb ((threads s)[t := THold]))" using ex_mset by metis
    have "mset (stried s) = mset (sran s @ st @ rest @ [cb] @ ys)" using I(3) m ys by (simp add: ac_simps)
    then have "distinct (sran s @ st @ rest @ [cb] @ ys)" using d mset_eq_imp_distinct_iff by blast
    then show ?thesis by auto
  qed
  then have n: "cb \<notin> set st" "cb \<notin> set rest" by auto
  have "nlist (snext s') (ptr_of (sword s')) (cb # st)" using I(1) n(1) assms(4,5) by simp
  moreover have "nlist (snext s') (prod_walk (sprod s')) rest" using I(2) n(2) assms(5) by simp
  moreover have "mset (stried s') = mset (sran s') + mset (cb # st) + mset rest + sum_list (map held_cb (threads s'))"
    using I(3) m assms(5) by (simp add: ac_simps)
  moreover have "visit_ok (snext s') (sprod s')"
  proof -
    have "a \<noteq> cb" if "prod_walk (sprod s) = Some a" for a
      using that I(2) n(2) by (auto simp: nlist_Some)
    then show ?thesis using v assms(5) by (cases "sprod s") auto
  qed
  ultimately show ?thesis using d assms(5) unfolding list_inv_def by fastforce
qed

lemma list_inv_inline:
  assumes "list_inv s" "t < length (threads s)" "threads s ! t = TInline cb"
    "sran s' = sran s @ [cb]" "threads s' = (threads s)[t := THold]" "snext s' = snext s" "sprod s' = sprod s"
    "sword s' = sword s" "stried s' = stried s"
  shows "list_inv s'"
proof -
  have "sum_list (map held_cb ((threads s)[t := THold])) + {#cb#} = sum_list (map held_cb (threads s))"
    using held_step [OF assms(2), of THold] assms(3) by simp
  then have m: "mset (sran s @ [cb]) + A + B + sum_list (map held_cb ((threads s)[t := THold]))
      = mset (sran s) + A + B + sum_list (map held_cb (threads s))" for A B
    by (simp add: ac_simps)
  show ?thesis using assms(1) unfolding list_inv_def assms(4-9) by (simp only: m)
qed

lemma list_inv_step: "sstep s s' \<Longrightarrow> list_inv s \<Longrightarrow> list_inv s'"
proof (induction rule: sstep.induct)
  case (s_exchange s)
  show ?case by (rule list_inv_exchange [OF s_exchange(2,1) refl])
next
  case (s_walk_last s h)
  show ?case by (rule list_inv_same [OF s_walk_last(3)]) (simp_all add: s_walk_last)
next
  case (s_visit_inline s h nx)
  show ?case by (rule list_inv_after [OF s_visit_inline(2), where a = h and nx = nx]) (simp_all add: s_visit_inline)
next
  case (s_visit_call s h nx)
  show ?case by (rule list_inv_after [OF s_visit_call(2), where a = h and nx = nx]) (simp_all add: s_visit_call)
next
  case (s_visit_core s h nx)
  show ?case by (rule list_inv_same [OF s_visit_core(2)]) (use s_visit_core in \<open>simp_all add: list_inv_def\<close>)
next
  case (s_core s h nx mv)
  show ?case by (rule list_inv_after [OF s_core(2), where a = h and nx = nx and mv = mv]) (simp_all add: s_core)
next
  case (t_begin t s cb)
  show ?case
    by (rule list_inv_begin [OF t_begin(4,1-3) _ refl]) simp
next
  case (t_cas t s cb e)
  show ?case by (rule list_inv_cas [OF t_cas(4,1-3) refl])
next
  case (t_inline t s cb)
  show ?case by (rule list_inv_inline [OF t_inline(3,1,2)]) simp_all
next
  case (t_inline_call t s cb)
  show ?case by (rule list_inv_inline [OF t_inline_call(3,1,2)]) simp_all
next
  case (t_copy t s u)
  show ?case by (rule list_inv_same [OF t_copy(5)]) (use t_copy in \<open>simp_all add: held_same list_inv_def\<close>)
qed (simp_all add: list_inv_same held_same list_inv_def)

lemma sreach_inv: "sreach s \<Longrightarrow> ref_inv s \<and> moved_inv s \<and> list_inv s"
proof (induction rule: sreach.induct)
  case (sreach_new n)
  have "moved_inv (srace_new n)" by (auto simp: moved_inv_def srace_new_def)
  then show ?case by (simp add: ref_inv_new list_inv_new)
next
  case (sreach_step s s')
  then show ?case by (blast intro: ref_inv_step moved_inv_step list_inv_step)
qed


fun reads :: "sthread \<Rightarrow> bool" where
  "reads TNone = False"
| "reads TDec = False"
| "reads _ = True"

text \<open>
  C3: the move optimisations of shared cores (\<open>Touch() &&\<close> and \<open>ResultCore::Impl\<close>, which test
  \<open>GetRef\<close>) are safe for every number of handles, callbacks and interleavings: whoever can still
  read the result (a handle, a callback that runs, a callback that was submitted by the producer or by
  a thread that found the result there, the walk of the producer) finds it not moved out, and when the
  reference count reaches zero nobody is left. The rvalue \<open>Touch\<close> is entered as its caller has to,
  when the result is there.
\<close>

theorem shared_move_safe:
  assumes "sreach s"
  shows "(smoved s \<longrightarrow> (\<exists>k. sprod s = SDec k) \<and> pending s = 0 \<and> (\<forall>t \<in> set (threads s). \<not> reads t))
    \<and> (srefs s = 0 \<longrightarrow> sprod s = SDec 0 \<and> pending s = 0 \<and> set (threads s) \<subseteq> {TNone})"
proof (intro conjI impI)
  have I: "ref_inv s" "moved_inv s" using sreach_inv [OF assms] by simp_all
  show "\<exists>k. sprod s = SDec k" "pending s = 0" "\<forall>t \<in> set (threads s). \<not> reads t" if "smoved s"
    using I(2) that unfolding moved_inv_def by auto
  have z: "prod_refs (sprod s) = 0 \<and> sum_list (map holds (threads s)) = 0 \<and> pending s = 0" if "srefs s = 0"
    using I(1) that unfolding ref_inv_def by linarith
  show "sprod s = SDec 0" if "srefs s = 0" using z [OF that] by (cases "sprod s") (auto split: option.splits)
  show "pending s = 0" "set (threads s) \<subseteq> {TNone}" if "srefs s = 0" using z [OF that] holds_none by blast+
qed

text \<open>
  \<open>Ready\<close> of a \<open>SharedFuture\<close> is \<open>!Empty()\<close>: once another handle has attached a callback it is true
  before the result is there, and does not tell when \<open>Touch\<close> may be called.
\<close>

lemma shared_ready_early: "\<exists>s. sreach s \<and> sprod s = SInit \<and> sword s \<noteq> UZero"
proof -
  have "sreach (srace_new 0)" by (rule sreach_new)
  then have "sreach ((srace_new 0)\<lparr>threads := [TCas 7 UZero], stried := [7]\<rparr>)"
    by (rule sreach_step) (use t_begin [of 0 "srace_new 0" 7] in \<open>simp add: srace_new_def\<close>)
  then have "sreach ((srace_new 0)\<lparr>threads := [THold], stried := [7], sword := UAt 7, snext := (\<lambda>_. None)(7 := None)\<rparr>)"
    by (rule sreach_step)
      (use t_cas [of 0 "(srace_new 0)\<lparr>threads := [TCas 7 UZero], stried := [7]\<rparr>" 7 UZero] in \<open>simp add: srace_new_def\<close>)
  then show ?thesis
    by (intro exI [of _ "(srace_new 0)\<lparr>threads := [THold], stried := [7], sword := UAt 7, snext := (\<lambda>_. None)(7 := None)\<rparr>"])
      (simp add: srace_new_def)
qed

text \<open>One callback is registered, the result arrives, and the callback copies it as the future is alive.\<close>

abbreviation demo_state where
  "demo_state w nx p r t tr rn \<equiv> \<lparr>sword = w, snext = nx, sprod = p, srefs = r, threads = t, pending = 0,
     smoved = False, stried = tr, sran = rn\<rparr>"

lemma demo_reach: "sreach (demo_state UMax ((\<lambda>_. None)(7 := None)) (SDec 2) 3 [THold] [7] [7])"
proof -
  let ?n = "\<lambda>_. None"
  let ?m = "?n(7 := None)"
  have "sreach (demo_state UZero ?n SInit 4 [THold] [] [])" using sreach_new [of 0] by (simp add: srace_new_def)
  then have "sreach (demo_state UZero ?n SInit 4 [TCas 7 UZero] [7] [])"
    by (rule sreach_step) (use t_begin [of 0 "demo_state UZero ?n SInit 4 [THold] [] []" 7] in simp)
  then have "sreach (demo_state (UAt 7) ?m SInit 4 [THold] [7] [])"
    by (rule sreach_step) (use t_cas [of 0 "demo_state UZero ?n SInit 4 [TCas 7 UZero] [7] []" 7 UZero] in simp)
  then have "sreach (demo_state (UAt 7) ?m SStored 4 [THold] [7] [])"
    by (rule sreach_step) (use s_store [of "demo_state (UAt 7) ?m SInit 4 [THold] [7] []"] in simp)
  then have "sreach (demo_state UMax ?m (SWalk 7) 4 [THold] [7] [])"
    by (rule sreach_step) (use s_exchange [of "demo_state (UAt 7) ?m SStored 4 [THold] [7] []"] in simp)
  then have "sreach (demo_state UMax ?m (SVisit 7 None) 3 [THold] [7] [])"
    by (rule sreach_step) (use s_walk_last [of "demo_state UMax ?m (SWalk 7) 4 [THold] [7] []" 7] in simp)
  then have "sreach (demo_state UMax ?m (SCore 7 None False) 3 [THold] [7] [])"
    by (rule sreach_step) (use s_visit_core [of "demo_state UMax ?m (SVisit 7 None) 3 [THold] [7] []" 7 None] in simp)
  then show ?thesis
    by (rule sreach_step)
      (use s_core [of "demo_state UMax ?m (SCore 7 None False) 3 [THold] [7] []" 7 None False] in \<open>simp add: after_visit_None\<close>)
qed

text \<open>The future then moves the result out and frees the core.\<close>

lemma demo_moved: "\<exists>s. sreach s \<and> smoved s \<and> srefs s = 0"
proof -
  let ?m = "(\<lambda>_. None)(7 := None :: nat option)"
  let ?d = "\<lambda>p r t mv. \<lparr>sword = UMax, snext = ?m, sprod = SDec p, srefs = r, threads = [t], pending = 0,
     smoved = mv, stried = [7], sran = [7]\<rparr>"
  have "sreach (?d 2 3 THold False)" by (rule demo_reach)
  then have "sreach (?d 1 2 THold False)" by (rule sreach_step) (use s_dec [of "?d 2 3 THold False" 1] in simp)
  then have "sreach (?d 0 1 THold False)" by (rule sreach_step) (use s_dec [of "?d 1 2 THold False" 0] in simp)
  then have "sreach (?d 0 1 TMove False)" by (rule sreach_step) (use t_touch [of 0 "?d 0 1 THold False"] in simp)
  then have "sreach (?d 0 1 TDec True)" by (rule sreach_step) (use t_move [of 0 "?d 0 1 TMove False"] in simp)
  then have "sreach (?d 0 0 TNone True)" by (rule sreach_step) (use t_dec [of 0 "?d 0 1 TDec True"] in simp)
  then show ?thesis by (intro exI [of _ "?d 0 0 TNone True"]) simp
qed

theorem shared_move_safe_witness:
  "\<exists>s. sreach s \<and> smoved s \<and> srefs s = 0 \<and> (\<forall>t \<in> set (threads s). \<not> reads t) \<and> sprod s = SDec 0"
proof -
  obtain s where "sreach s" "smoved s" "srefs s = 0" using demo_moved by blast
  then show ?thesis using shared_move_safe [of s] by blast
qed

text \<open>
  every callback that was given to a shared core runs exactly once: no callback runs twice or
  without having been registered, and when the producer has walked the list and no thread is inside
  \<open>SetCallback\<close> all of them have run, those that lost the race with \<open>SetResult\<close> included.
\<close>

lemma shared_callbacks_once:
  assumes "sreach s"
  shows "distinct (sran s) \<and> set (sran s) \<subseteq> set (stried s)
    \<and> (sprod s = SDec k \<longrightarrow> (\<forall>t \<in> set (threads s). held_cb t = {#}) \<longrightarrow> mset (sran s) = mset (stried s))"
proof (intro conjI impI)
  have I: "ref_inv s" "list_inv s" using sreach_inv [OF assms] by simp_all
  obtain st rest where L: "nlist (snext s) (ptr_of (sword s)) st" "nlist (snext s) (prod_walk (sprod s)) rest"
      "mset (stried s) = mset (sran s) + mset st + mset rest + sum_list (map held_cb (threads s))"
    and d: "distinct (stried s)"
    using I(2) unfolding list_inv_def by blast
  obtain ys where "mset ys = mset st + mset rest + sum_list (map held_cb (threads s))" using ex_mset by blast
  then have ys: "mset (stried s) = mset (sran s @ ys)" using L(3) by (simp add: ac_simps)
  then have "distinct (sran s @ ys)" using d mset_eq_imp_distinct_iff by blast
  then show "distinct (sran s)" "set (sran s) \<subseteq> set (stried s)"
    using mset_eq_setD [OF ys] by auto
  show "mset (sran s) = mset (stried s)" if e: "sprod s = SDec k" "\<forall>t \<in> set (threads s). held_cb t = {#}"
  proof -
    have "sword s = UMax" using I(1) e(1) by (simp add: ref_inv_def)
    moreover have "sum_list (map held_cb (threads s)) = {#}" using e(2) by (simp cong: map_cong)
    ultimately show ?thesis using L e(1) by simp
  qed
qed


end
