(* ===== verification/OneShot.thy ===== *)
theory OneShot
  imports Prelude
begin

section \<open>OneShotEvent\<close>

text \<open>
  \<open>include/yaclib/algo/one_shot_event.hpp\<close> and \<open>src/algo/one_shot_event.cpp\<close>, with the two kinds of
  waiters (\<open>util/detail/atomic_event.hpp\<close> and \<open>mutex_event.hpp\<close>). Any number of threads add jobs, wait
  and wait with a timeout while one thread calls \<open>Call\<close> and \<open>Set\<close>; a step is one atomic operation, or
  one critical section of a waiter's mutex. A plain job can be added again once it was called; a
  waiter lives on the stack of \<open>Wait\<close>, or in the heap with two references for \<open>TimedWait\<close>, and
  \<open>olive\<close> says which waiters exist.
\<close>

datatype job_kind = JPlain | JWait | JTimed

text \<open>
  A thread: idle; in \<open>TryAdd\<close> with the job and the expected head; in \<open>Wait\<close> of its waiter; in the timed
  \<open>Wait\<close>; before the release of the reference of \<open>TimedWait\<close>, with the answer.
\<close>

datatype opc = OIdle | OCas nat "nat uptr" | OWait nat | OTimed nat | OTimedEnd nat bool

text \<open>
  The setter in \<open>SetImpl\<close>: at the top of the loop with \<open>job\<close>; before \<open>Call\<close>, with \<open>next\<close> read; in
  \<open>AtomicEvent::Set\<close> between its two stores; between \<open>MutexEvent::Set\<close> and \<open>DecRef\<close> of a timed waiter.
\<close>

datatype osetter = SIdle | SVisit nat | SCall nat "nat option" | SStored nat "nat option" | SRel nat "nat option"

record oevent =
  ohead :: "nat uptr"
  onext :: "nat \<Rightarrow> nat option"
  okind :: "nat \<Rightarrow> job_kind"
  ostate :: "nat \<Rightarrow> nat"
  orefs :: "nat \<Rightarrow> nat"
  olive :: "nat set"
  opcs :: "opc list"
  osetter :: osetter
  otried :: "nat list"
  orefused :: "nat list"
  ocalled :: "nat list"

definition OneShotEvent_new :: "(nat \<Rightarrow> job_kind) \<Rightarrow> nat \<Rightarrow> oevent" where
  "OneShotEvent_new kinds threads = \<lparr>ohead = UZero, onext = (\<lambda>_. None), okind = kinds, ostate = (\<lambda>_. 0),
     orefs = (\<lambda>_. 0), olive = {}, opcs = replicate threads OIdle, osetter = SIdle,
     otried = [], orefused = [], ocalled = []\<rparr>"

text \<open>A plain job may be given again when every earlier attempt was refused or called.\<close>

definition may_add :: "nat \<Rightarrow> oevent \<Rightarrow> bool" where
  "may_add j s = (if okind s j = JPlain then j \<notin># mset (otried s) - mset (orefused s) - mset (ocalled s)
     else j \<notin> set (otried s))"

text \<open>\<open>TryAdd\<close> with the head just read: it gives up on \<open>kAllDone\<close>, and then a waiter is destroyed.\<close>

definition TryAdd_look :: "nat \<Rightarrow> nat \<Rightarrow> oevent \<Rightarrow> oevent" where
  "TryAdd_look t j s =
     (if ohead s = UMax then s\<lparr>orefused := orefused s @ [j], olive := olive s - {j},
        orefs := (orefs s)(j := 0), opcs := (opcs s)[t := OIdle]\<rparr>
      else s\<lparr>opcs := (opcs s)[t := OCas j (ohead s)]\<rparr>)"

text \<open>What the caller of \<open>TryAdd\<close> does next when it returned true.\<close>

fun TryAdd_true :: "job_kind \<Rightarrow> nat \<Rightarrow> opc" where
  "TryAdd_true JPlain j = OIdle"
| "TryAdd_true JWait j = OWait j"
| "TryAdd_true JTimed j = OTimed j"

definition SetImpl_next :: "nat option \<Rightarrow> osetter" where
  "SetImpl_next nx = (case nx of Some h \<Rightarrow> SVisit h | None \<Rightarrow> SIdle)"

text \<open>The references of a waiter: \<open>MakeShared<TimedWaiter>(2)\<close>; \<open>Waiter\<close> is a local variable.\<close>

definition waiter_refs :: "job_kind \<Rightarrow> nat" where
  "waiter_refs k = (if k = JTimed then 2 else 0)"

definition Waiter_DecRef :: "nat \<Rightarrow> oevent \<Rightarrow> oevent" where
  "Waiter_DecRef j s = s\<lparr>orefs := (orefs s)(j := orefs s j - 1),
     olive := (if orefs s j = 1 then olive s - {j} else olive s)\<rparr>"

inductive event_step :: "oevent \<Rightarrow> oevent \<Rightarrow> bool" where
  add_begin: "t < length (opcs s) \<Longrightarrow> opcs s ! t = OIdle \<Longrightarrow> may_add j s \<Longrightarrow>
     event_step s (TryAdd_look t j (s\<lparr>otried := otried s @ [j], orefs := (orefs s)(j := waiter_refs (okind s j)),
       olive := (if okind s j = JPlain then olive s else insert j (olive s))\<rparr>))"
| add_cas: "t < length (opcs s) \<Longrightarrow> opcs s ! t = OCas j e \<Longrightarrow> ohead s = e \<Longrightarrow>
     event_step s (s\<lparr>onext := (onext s)(j := ptr_of e), ohead := UAt j,
       opcs := (opcs s)[t := TryAdd_true (okind s j) j]\<rparr>)"
| add_retry: "t < length (opcs s) \<Longrightarrow> opcs s ! t = OCas j e \<Longrightarrow> event_step s (TryAdd_look t j s)"
| wait_return: "t < length (opcs s) \<Longrightarrow> opcs s ! t = OWait j \<Longrightarrow> ostate s j = 2 \<Longrightarrow>
     event_step s (s\<lparr>opcs := (opcs s)[t := OIdle], olive := olive s - {j}\<rparr>)"
| timed_return: "t < length (opcs s) \<Longrightarrow> opcs s ! t = OTimed j \<Longrightarrow>
     event_step s (s\<lparr>opcs := (opcs s)[t := OTimedEnd j (ostate s j = 2)]\<rparr>)"
| timed_release: "t < length (opcs s) \<Longrightarrow> opcs s ! t = OTimedEnd j r \<Longrightarrow>
     event_step s (Waiter_DecRef j (s\<lparr>opcs := (opcs s)[t := OIdle]\<rparr>))"
| set_exchange: "osetter s = SIdle \<Longrightarrow> v = UZero \<or> v = UMax \<Longrightarrow>
     event_step s (s\<lparr>ohead := v, osetter := SetImpl_next (ptr_of (ohead s))\<rparr>)"
| set_visit: "osetter s = SVisit j \<Longrightarrow> event_step s (s\<lparr>osetter := SCall j (onext s j)\<rparr>)"
| call_plain: "osetter s = SCall j nx \<Longrightarrow> okind s j = JPlain \<Longrightarrow>
     event_step s (s\<lparr>osetter := SetImpl_next nx, ocalled := ocalled s @ [j]\<rparr>)"
| call_wait: "osetter s = SCall j nx \<Longrightarrow> okind s j = JWait \<Longrightarrow>
     event_step s (s\<lparr>osetter := SStored j nx, ocalled := ocalled s @ [j], ostate := (ostate s)(j := 1)\<rparr>)"
| call_stored: "osetter s = SStored j nx \<Longrightarrow>
     event_step s (s\<lparr>osetter := SetImpl_next nx, ostate := (ostate s)(j := 2)\<rparr>)"
| call_timed: "osetter s = SCall j nx \<Longrightarrow> okind s j = JTimed \<Longrightarrow>
     event_step s (s\<lparr>osetter := SRel j nx, ocalled := ocalled s @ [j], ostate := (ostate s)(j := 2)\<rparr>)"
| call_release: "osetter s = SRel j nx \<Longrightarrow> event_step s (Waiter_DecRef j (s\<lparr>osetter := SetImpl_next nx\<rparr>))"
| reset: "osetter s = SIdle \<Longrightarrow> ohead s = UZero \<or> ohead s = UMax \<Longrightarrow> event_step s (s\<lparr>ohead := UZero\<rparr>)"

inductive event_reach :: "oevent \<Rightarrow> bool" where
  event_init: "event_reach (OneShotEvent_new kinds threads)"
| event_next: "event_reach s \<Longrightarrow> event_step s s' \<Longrightarrow> event_reach s'"

subsection \<open>The invariant\<close>

text \<open>The job a thread still has to publish, and the waiter whose thread is inside a wait.\<close>

fun adding :: "opc \<Rightarrow> nat multiset" where
  "adding (OCas j e) = {#j#}"
| "adding _ = {#}"

fun owning :: "opc \<Rightarrow> nat multiset" where
  "owning OIdle = {#}"
| "owning (OCas j e) = {#j#}"
| "owning (OWait j) = {#j#}"
| "owning (OTimed j) = {#j#}"
| "owning (OTimedEnd j r) = {#j#}"

fun walk_ptr :: "osetter \<Rightarrow> nat option" where
  "walk_ptr SIdle = None"
| "walk_ptr (SVisit h) = Some h"
| "walk_ptr (SCall h nx) = Some h"
| "walk_ptr (SStored h nx) = nx"
| "walk_ptr (SRel h nx) = nx"

fun read_ok :: "(nat \<Rightarrow> nat option) \<Rightarrow> osetter \<Rightarrow> bool" where
  "read_ok h (SCall a nx) = (h a = nx)"
| "read_ok h _ = True"

fun at_stored :: "osetter \<Rightarrow> nat \<Rightarrow> bool" where
  "at_stored (SStored h nx) j = (h = j)"
| "at_stored _ j = False"

fun at_rel :: "osetter \<Rightarrow> nat \<Rightarrow> bool" where
  "at_rel (SRel h nx) j = (h = j)"
| "at_rel _ j = False"

text \<open>
  One job: how often it is pending, how often a thread owns it, its state and references, whether it
  lives, where the setter is, whether it was tried and called. The stages of a waiter's life are
  listed: absent, added, being set, set, gone; a timed waiter may lose its thread before it is called.
\<close>

fun job_ok :: "job_kind \<Rightarrow> nat \<Rightarrow> nat \<Rightarrow> nat \<Rightarrow> nat \<Rightarrow> bool \<Rightarrow> bool \<Rightarrow> bool \<Rightarrow> bool \<Rightarrow> bool \<Rightarrow> bool" where
  "job_ok JPlain p ow st rf lv s2 sd tr ca \<longleftrightarrow> p \<le> 1 \<and> \<not> s2 \<and> \<not> sd \<and> (tr \<or> p = 0)"
| "job_ok JWait p ow st rf lv s2 sd tr ca \<longleftrightarrow>
     (p, ow, st, lv, s2) \<in> {(0, 0, 0, False, False), (1, 1, 0, True, False), (0, 1, 1, True, True),
       (0, 1, 2, True, False), (0, 0, 2, False, False)}
     \<and> \<not> sd \<and> (tr \<or> ow = 0 \<and> st = 0) \<and> (ca \<or> st = 0)"
| "job_ok JTimed p ow st rf lv s2 sd tr ca \<longleftrightarrow>
     (p, ow, st, rf, lv, sd) \<in> {(0, 0, 0, 0, False, False), (1, 1, 0, 2, True, False), (1, 0, 0, 1, True, False),
       (0, 1, 2, 2, True, True), (0, 0, 2, 1, True, True), (0, 1, 2, 1, True, False), (0, 0, 2, 0, False, False)}
     \<and> \<not> s2 \<and> (tr \<or> ow = 0 \<and> p = 0 \<and> st = 0) \<and> (ca \<or> st = 0)"

definition pendings :: "oevent \<Rightarrow> nat list \<Rightarrow> nat list \<Rightarrow> nat multiset" where
  "pendings s st rest = mset st + mset rest + sum_list (map adding (opcs s))"

definition jobs_ok :: "oevent \<Rightarrow> nat multiset \<Rightarrow> bool" where
  "jobs_ok s P \<longleftrightarrow> (\<forall>j. job_ok (okind s j) (count P j) (count (sum_list (map owning (opcs s))) j) (ostate s j)
     (orefs s j) (j \<in> olive s) (at_stored (osetter s) j) (at_rel (osetter s) j) (j \<in> set (otried s))
     (j \<in> set (ocalled s)))"

definition chains_ok :: "oevent \<Rightarrow> nat list \<Rightarrow> nat list \<Rightarrow> bool" where
  "chains_ok s st rest \<longleftrightarrow> nlist (onext s) (ptr_of (ohead s)) st \<and> nlist (onext s) (walk_ptr (osetter s)) rest
     \<and> read_ok (onext s) (osetter s)"

fun thread_ok :: "(nat \<Rightarrow> job_kind) \<Rightarrow> (nat \<Rightarrow> nat) \<Rightarrow> opc \<Rightarrow> bool" where
  "thread_ok k st (OCas j e) \<longleftrightarrow> e \<noteq> UMax"
| "thread_ok k st (OWait j) \<longleftrightarrow> k j = JWait"
| "thread_ok k st (OTimed j) \<longleftrightarrow> k j = JTimed"
| "thread_ok k st (OTimedEnd j r) \<longleftrightarrow> k j = JTimed \<and> (r \<longrightarrow> st j = 2)"
| "thread_ok k st OIdle \<longleftrightarrow> True"

definition event_inv_at :: "oevent \<Rightarrow> nat list \<Rightarrow> nat list \<Rightarrow> bool" where
  "event_inv_at s st rest \<longleftrightarrow> chains_ok s st rest \<and> jobs_ok s (pendings s st rest)
     \<and> mset (otried s) = mset (orefused s) + mset (ocalled s) + pendings s st rest
     \<and> (\<forall>t \<in> set (opcs s). thread_ok (okind s) (ostate s) t)"


abbreviation owned :: "oevent \<Rightarrow> nat multiset" where
  "owned s \<equiv> sum_list (map owning (opcs s))"

abbreviation addings :: "oevent \<Rightarrow> nat multiset" where
  "addings s \<equiv> sum_list (map adding (opcs s))"

abbreviation job_at :: "oevent \<Rightarrow> nat multiset \<Rightarrow> nat \<Rightarrow> bool" where
  "job_at s P j \<equiv> job_ok (okind s j) (count P j) (count (owned s) j) (ostate s j)
     (orefs s j) (j \<in> olive s) (at_stored (osetter s) j) (at_rel (osetter s) j) (j \<in> set (otried s))
     (j \<in> set (ocalled s))"

lemma jobs_okI: "job_at s' P' i \<Longrightarrow> (\<And>j. j \<noteq> i \<Longrightarrow> job_at s' P' j) \<Longrightarrow> jobs_ok s' P'"
  unfolding jobs_ok_def by metis

lemma jobs_okD: "jobs_ok s P \<Longrightarrow> job_at s P j"
  unfolding jobs_ok_def by blast

lemma own_upd:
  "t < length ts \<Longrightarrow> sum_list (map owning (ts[t := x])) = sum_list (map owning ts) + owning x - owning (ts ! t)"
  by (rule sum_list_step_mset)

lemma add_upd:
  "t < length ts \<Longrightarrow> sum_list (map adding (ts[t := x])) = sum_list (map adding ts) + adding x - adding (ts ! t)"
  by (rule sum_list_step_mset)

lemma own_in: "t < length ts \<Longrightarrow> owning (ts ! t) \<subseteq># sum_list (map owning ts)"
  by (rule sum_list_member_le_mset)

lemma add_in: "t < length ts \<Longrightarrow> adding (ts ! t) \<subseteq># sum_list (map adding ts)"
  by (rule sum_list_member_le_mset)

lemma at_next [simp]: "\<not> at_stored (SetImpl_next nx) j" "\<not> at_rel (SetImpl_next nx) j"
    "walk_ptr (SetImpl_next nx) = nx" "read_ok h (SetImpl_next nx)"
  by (simp_all add: SetImpl_next_def split: option.split)

lemma count_of_single: "{#j#} \<subseteq># M \<Longrightarrow> \<exists>p. count M j = Suc p"
  by (metis count_single mset_subset_eq_count Suc_le_D One_nat_def)

lemma event_inv_new: "event_inv_at (OneShotEvent_new kinds threads) [] []"
proof -
  have "sum_list (map owning (replicate threads OIdle)) = {#}" "sum_list (map adding (replicate threads OIdle)) = {#}"
    by (simp_all add: sum_list_replicate_empty)
  moreover have "job_ok k 0 0 0 0 False False False False False" for k by (cases k) simp_all
  ultimately show ?thesis
    by (simp add: event_inv_at_def OneShotEvent_new_def chains_ok_def jobs_ok_def pendings_def)
qed

text \<open>A thread state that depends on the states of waiters keeps its meaning when a state becomes 2.\<close>

lemma threads_upd:
  assumes "\<forall>x \<in> set ts. thread_ok k st x" "thread_ok k st y"
  shows "\<forall>x \<in> set (ts[t := y]). thread_ok k st x"
  using assms mem_updateD by metis

lemma inv_look:
  assumes I: "event_inv_at s st rest" and t: "t < length (opcs s)" "opcs s ! t = OCas j e"
  shows "event_inv_at (TryAdd_look t j s) st rest"
proof (cases "ohead s = UMax")
  case False
  let ?s = "TryAdd_look t j s"
  have eq: "?s = s\<lparr>opcs := (opcs s)[t := OCas j (ohead s)]\<rparr>" using False by (simp add: TryAdd_look_def)
  have "owned ?s = owned s" "addings ?s = addings s"
    using t own_in [OF t(1)] add_in [OF t(1)] by (simp_all add: eq own_upd add_upd)
  then have "jobs_ok ?s (pendings ?s st rest)" "pendings ?s st rest = pendings s st rest"
    using I by (simp_all add: event_inv_at_def jobs_ok_def pendings_def eq)
  moreover have "\<forall>x \<in> set (opcs ?s). thread_ok (okind ?s) (ostate ?s) x"
    unfolding eq using I False by (simp, intro threads_upd) (simp_all add: event_inv_at_def)
  ultimately show ?thesis using I by (simp add: event_inv_at_def chains_ok_def eq)
next
  case True
  let ?s = "TryAdd_look t j s"
  have eq: "?s = s\<lparr>orefused := orefused s @ [j], olive := olive s - {j}, orefs := (orefs s)(j := 0),
      opcs := (opcs s)[t := OIdle]\<rparr>" using True by (simp add: TryAdd_look_def)
  have o: "owned ?s = owned s - {#j#}" and a: "addings ?s = addings s - {#j#}"
    using t by (simp_all add: eq own_upd add_upd)
  have ina: "{#j#} \<subseteq># addings s" and ino: "{#j#} \<subseteq># owned s" using add_in [OF t(1)] own_in [OF t(1)] t(2) by simp_all
  have P: "pendings ?s st rest = pendings s st rest - {#j#}"
    unfolding pendings_def a using multiset_diff_union_assoc [OF ina, of "mset st + mset rest"] by simp
  have inP: "{#j#} \<subseteq># pendings s st rest"
    using ina by (simp add: pendings_def)
  obtain p where p: "count (pendings s st rest) j = Suc p" using count_of_single [OF inP] by blast
  obtain ow where ow: "count (owned s) j = Suc ow" using count_of_single [OF ino] by blast
  have J: "job_at s (pendings s st rest) i" for i using I by (simp add: event_inv_at_def jobs_okD)
  have "jobs_ok ?s (pendings ?s st rest)"
  proof (rule jobs_okI [where i = j])
    show "job_at ?s (pendings ?s st rest) j"
      using J [of j] unfolding P o by (cases "okind s j") (auto simp: eq p ow)
    show "job_at ?s (pendings ?s st rest) i" if "i \<noteq> j" for i
      using J [of i] that unfolding P o by (simp add: eq)
  qed
  moreover have "mset (otried ?s) = mset (orefused ?s) + mset (ocalled ?s) + pendings ?s st rest"
    using I inP unfolding P by (simp add: event_inv_at_def eq)
  moreover have "\<forall>x \<in> set (opcs ?s). thread_ok (okind ?s) (ostate ?s) x"
    unfolding eq using I by (simp, intro threads_upd) (simp_all add: event_inv_at_def)
  ultimately show ?thesis using I by (simp add: event_inv_at_def chains_ok_def eq)
qed

lemma inv_add_begin:
  assumes I: "event_inv_at s st rest" and t: "t < length (opcs s)" "opcs s ! t = OIdle" and m: "may_add j s"
  shows "event_inv_at (TryAdd_look t j (s\<lparr>otried := otried s @ [j], orefs := (orefs s)(j := waiter_refs (okind s j)),
       olive := (if okind s j = JPlain then olive s else insert j (olive s))\<rparr>)) st rest"
    (is "event_inv_at (TryAdd_look t j ?u) st rest")
proof -
  let ?s = "?u\<lparr>opcs := (opcs s)[t := OCas j UZero]\<rparr>"
  have o: "owned ?s = owned s + {#j#}" using own_upd [OF t(1), of "OCas j UZero"] t(2) by simp
  have a: "addings ?s = addings s + {#j#}" using add_upd [OF t(1), of "OCas j UZero"] t(2) by simp
  have P: "pendings ?s st rest = pendings s st rest + {#j#}" unfolding pendings_def a by simp
  have M: "mset (otried s) = mset (orefused s) + mset (ocalled s) + pendings s st rest"
    using I by (simp add: event_inv_at_def)
  have J: "job_at s (pendings s st rest) i" for i using I by (simp add: event_inv_at_def jobs_okD)
  have "jobs_ok ?s (pendings ?s st rest)"
  proof (rule jobs_okI [where i = j])
    have "okind s j = JPlain \<Longrightarrow> count (pendings s st rest) j = 0"
      using m M by (simp add: may_add_def not_in_iff)
    moreover have "okind s j \<noteq> JPlain \<Longrightarrow> j \<notin> set (otried s) \<and> count (pendings s st rest) j = 0"
      using m M by (simp add: may_add_def) (metis count_eq_zero_iff set_mset_mset union_iff)
    ultimately show "job_at ?s (pendings ?s st rest) j"
      using J [of j] unfolding P o by (cases "okind s j") (auto simp: waiter_refs_def)
    show "job_at ?s (pendings ?s st rest) i" if "i \<noteq> j" for i
      using J [of i] that unfolding P o by simp
  qed
  moreover have "mset (otried ?s) = mset (orefused ?s) + mset (ocalled ?s) + pendings ?s st rest"
    unfolding P by (simp add: M)
  moreover have "\<forall>x \<in> set (opcs ?s). thread_ok (okind ?s) (ostate ?s) x"
    using I by (simp, intro threads_upd) (simp_all add: event_inv_at_def)
  moreover have "chains_ok ?s st rest" using I by (simp add: event_inv_at_def chains_ok_def)
  ultimately have "event_inv_at ?s st rest" unfolding event_inv_at_def by blast
  then have "event_inv_at (TryAdd_look t j ?s) st rest" by (rule inv_look) (simp_all add: t)
  moreover have "TryAdd_look t j ?s = TryAdd_look t j ?u" by (simp add: TryAdd_look_def)
  ultimately show ?thesis by simp
qed


lemma job_ok_le: "job_ok k p ow st rf lv s2 sd tr ca \<Longrightarrow> p \<le> 1"
  by (cases k) auto

lemma job_ok_release:
  "job_ok JTimed p (Suc ow) st rf lv s2 sd tr ca \<Longrightarrow> job_ok JTimed p ow st (rf - 1) (lv \<and> rf \<noteq> 1) s2 sd tr ca"
  by (simp, elim conjE disjE) simp_all

lemma job_ok_drop:
  "job_ok JTimed p ow st rf lv s2 True tr ca \<Longrightarrow> job_ok JTimed p ow st (rf - 1) (lv \<and> rf \<noteq> 1) s2 False tr ca"
  by (simp, elim conjE disjE) simp_all

lemma job_facts:
  "job_ok JWait 0 (Suc ow) st rf lv False sd tr ca \<Longrightarrow> st = 2"
  "job_ok k (Suc p) ow st rf lv s2 sd tr ca \<Longrightarrow> k \<noteq> JPlain \<Longrightarrow> lv"
  "job_ok k p ow st rf lv s2 sd tr ca \<Longrightarrow> s2 \<or> sd \<Longrightarrow> lv"
  "job_ok k p (Suc ow) st rf lv s2 sd tr ca \<Longrightarrow> k \<noteq> JPlain \<Longrightarrow> lv"
  "job_ok JTimed p ow 2 rf lv s2 sd tr ca \<Longrightarrow> ca"
  "job_ok JWait p ow st rf False s2 sd tr ca \<Longrightarrow> p = 0"
  by (cases k; auto)+

lemma event_inv_parts:
  assumes "event_inv_at s st rest"
  shows "chains_ok s st rest" "jobs_ok s (pendings s st rest)"
    "mset (otried s) = mset (orefused s) + mset (ocalled s) + pendings s st rest"
    "\<forall>t \<in> set (opcs s). thread_ok (okind s) (ostate s) t"
  using assms unfolding event_inv_at_def by blast+

lemma pending_once: "event_inv_at s st rest \<Longrightarrow> count (pendings s st rest) j \<le> 1"
  by (rule job_ok_le [OF jobs_okD [OF event_inv_parts(2)]])

lemma inv_cas:
  assumes I: "event_inv_at s st rest" and t: "t < length (opcs s)" "opcs s ! t = OCas j e" and e: "ohead s = e"
  shows "event_inv_at (s\<lparr>onext := (onext s)(j := ptr_of e), ohead := UAt j,
       opcs := (opcs s)[t := TryAdd_true (okind s j) j]\<rparr>) (j # st) rest"
    (is "event_inv_at ?s _ _")
proof -
  note once = pending_once [OF I, of j] and I = event_inv_parts [OF I]
  have ina: "{#j#} \<subseteq># addings s" and ino: "{#j#} \<subseteq># owned s" using add_in [OF t(1)] own_in [OF t(1)] t(2) by simp_all
  have ad: "adding (TryAdd_true (okind s j) j) = {#}" by (cases "okind s j") simp_all
  have a: "addings ?s = addings s - {#j#}" using add_upd [OF t(1), of "TryAdd_true (okind s j) j"] t(2) ad by simp
  have P: "pendings ?s (j # st) rest = pendings s st rest"
  proof -
    obtain A where "addings s = {#j#} + A" using ina unfolding subset_mset.le_iff_add by blast
    then show ?thesis unfolding pendings_def a by simp
  qed
  obtain k where k: "count (addings s) j = Suc k" using count_of_single [OF ina] by blast
  have n: "j \<notin> set st" "j \<notin> set rest"
  proof -
    have "count (mset st) j + count (mset rest) j + Suc k \<le> 1"
      using once unfolding pendings_def count_union k .
    then have "count (mset st) j = 0" "count (mset rest) j = 0" by simp_all
    then show "j \<notin> set st" "j \<notin> set rest" by (simp_all add: count_eq_zero_iff)
  qed
  have own: "owned ?s = owned s - (if okind s j = JPlain then {#j#} else {#})"
    using own_upd [OF t(1), of "TryAdd_true (okind s j) j"] t(2) by (cases "okind s j") simp_all
  have "jobs_ok ?s (pendings ?s (j # st) rest)"
  proof (rule jobs_okI [where i = j])
    show "job_at ?s (pendings ?s (j # st) rest) j"
      using jobs_okD [OF I(2), of j] unfolding P own by (cases "okind s j") simp_all
    show "job_at ?s (pendings ?s (j # st) rest) i" if "i \<noteq> j" for i
      using jobs_okD [OF I(2), of i] that unfolding P own by simp
  qed
  moreover have "\<forall>x \<in> set (opcs ?s). thread_ok (okind ?s) (ostate ?s) x"
  proof -
    have "thread_ok (okind s) (ostate s) (TryAdd_true (okind s j) j)" by (cases "okind s j") simp_all
    from threads_upd [OF I(4) this] show ?thesis by simp
  qed
  moreover have "a \<noteq> j" if "walk_ptr (osetter s) = Some a" for a
    using that I(1) n(2) by (auto simp: chains_ok_def nlist_Some)
  then have "read_ok (onext ?s) (osetter s)" using I(1) by (cases "osetter s") (auto simp: chains_ok_def)
  then have "chains_ok ?s (j # st) rest" using I(1) n e by (simp add: chains_ok_def)
  ultimately show ?thesis using I(3) P unfolding event_inv_at_def by simp
qed

text \<open>A step of a thread that is inside a wait changes its own entry and its waiter only.\<close>

lemma inv_thread:
  assumes I: "event_inv_at s st rest" and t: "t < length (opcs s)" "adding (opcs s ! t) = {#}" "adding x = {#}"
    and s': "s' = s\<lparr>opcs := (opcs s)[t := x], olive := lv, orefs := rf\<rparr>" "thread_ok (okind s) (ostate s) x"
    and J: "\<And>i. job_at s (pendings s st rest) i \<Longrightarrow> job_ok (okind s i) (count (pendings s st rest) i)
      (count (owned s + owning x - owning (opcs s ! t)) i) (ostate s i) (rf i) (i \<in> lv)
      (at_stored (osetter s) i) (at_rel (osetter s) i) (i \<in> set (otried s)) (i \<in> set (ocalled s))"
  shows "event_inv_at s' st rest"
proof -
  note I = event_inv_parts [OF I]
  have P: "pendings s' st rest = pendings s st rest" using add_upd [OF t(1), of x] t by (simp add: pendings_def s')
  have "owned s' = owned s + owning x - owning (opcs s ! t)" unfolding s' by (simp add: own_upd [OF t(1)])
  then have "jobs_ok s' (pendings s' st rest)"
    using J jobs_okD [OF I(2)] unfolding P jobs_ok_def by (simp add: s')
  moreover have "\<forall>x \<in> set (opcs s'). thread_ok (okind s') (ostate s') x"
    unfolding s' using I(4) s'(2) by (simp, intro threads_upd) simp_all
  ultimately show ?thesis using I P unfolding event_inv_at_def chains_ok_def by (simp add: s')
qed

lemma inv_wait_return:
  assumes I: "event_inv_at s st rest" and t: "t < length (opcs s)" "opcs s ! t = OWait j" "ostate s j = 2"
  shows "event_inv_at (s\<lparr>opcs := (opcs s)[t := OIdle], olive := olive s - {j}\<rparr>) st rest"
proof (rule inv_thread [OF I t(1), where x = OIdle])
  have ino: "{#j#} \<subseteq># owned s" using own_in [OF t(1)] t(2) by simp
  obtain ow where ow: "count (owned s) j = Suc ow" using count_of_single [OF ino] by blast
  have k: "okind s j = JWait" using event_inv_parts(4) [OF I] t nth_mem by fastforce
  fix i
  assume J: "job_at s (pendings s st rest) i"
  show "job_ok (okind s i) (count (pendings s st rest) i) (count (owned s + owning OIdle - owning (opcs s ! t)) i)
      (ostate s i) (orefs s i) (i \<in> olive s - {j}) (at_stored (osetter s) i) (at_rel (osetter s) i)
      (i \<in> set (otried s)) (i \<in> set (ocalled s))"
    using J k ow t by (cases "i = j") simp_all
qed (simp_all add: t)

lemma inv_timed_return:
  assumes I: "event_inv_at s st rest" and t: "t < length (opcs s)" "opcs s ! t = OTimed j"
  shows "event_inv_at (s\<lparr>opcs := (opcs s)[t := OTimedEnd j (ostate s j = 2)]\<rparr>) st rest"
proof (rule inv_thread [OF I t(1), where x = "OTimedEnd j (ostate s j = 2)" and lv = "olive s" and rf = "orefs s"])
  have k: "okind s j = JTimed" using event_inv_parts(4) [OF I] t nth_mem by fastforce
  then show "thread_ok (okind s) (ostate s) (OTimedEnd j (ostate s j = 2))" by simp
qed (use t own_in [OF t(1)] in \<open>simp_all add: subset_mset.diff_add\<close>)

lemma inv_timed_release:
  assumes I: "event_inv_at s st rest" and t: "t < length (opcs s)" "opcs s ! t = OTimedEnd j r"
  shows "event_inv_at (Waiter_DecRef j (s\<lparr>opcs := (opcs s)[t := OIdle]\<rparr>)) st rest"
proof (rule inv_thread [OF I t(1), where x = OIdle and rf = "(orefs s)(j := orefs s j - 1)"
      and lv = "if orefs s j = 1 then olive s - {j} else olive s"])
  have ino: "{#j#} \<subseteq># owned s" using own_in [OF t(1)] t(2) by simp
  obtain ow where ow: "count (owned s) j = Suc ow" using count_of_single [OF ino] by blast
  have k: "okind s j = JTimed" using event_inv_parts(4) [OF I] t nth_mem by fastforce
  fix i
  assume J: "job_at s (pendings s st rest) i"
  show "job_ok (okind s i) (count (pendings s st rest) i) (count (owned s + owning OIdle - owning (opcs s ! t)) i)
      (ostate s i) (((orefs s)(j := orefs s j - 1)) i) (i \<in> (if orefs s j = 1 then olive s - {j} else olive s))
      (at_stored (osetter s) i) (at_rel (osetter s) i) (i \<in> set (otried s)) (i \<in> set (ocalled s))"
  proof (cases "i = j")
    case True
    have "count (owned s + owning OIdle - owning (opcs s ! t)) j = ow" by (simp add: t ow)
    moreover have "j \<in> (if orefs s j = 1 then olive s - {j} else olive s) \<longleftrightarrow> j \<in> olive s \<and> orefs s j \<noteq> 1" by simp
    ultimately show ?thesis using job_ok_release J unfolding True k ow by simp
  next
    case False
    then show ?thesis using J t by simp
  qed
qed (simp_all add: t Waiter_DecRef_def)


text \<open>The setter: taking the stack, and the steps at the first job of the rest.\<close>

lemma rest_first:
  assumes "chains_ok s st rest" "walk_ptr (osetter s) = Some j"
  shows "\<exists>rest'. rest = j # rest' \<and> nlist (onext s) (onext s j) rest'"
  using assms by (auto simp: chains_ok_def nlist_Some)

lemma inv_exchange:
  assumes I: "event_inv_at s st rest" and i: "osetter s = SIdle" and v: "v = UZero \<or> v = UMax"
  shows "event_inv_at (s\<lparr>ohead := v, osetter := SetImpl_next (ptr_of (ohead s))\<rparr>) [] st"
    (is "event_inv_at ?s _ _")
proof -
  note I = event_inv_parts [OF I]
  have r: "rest = []" using I(1) i by (simp add: chains_ok_def)
  have P: "pendings ?s [] st = pendings s st rest" by (simp add: pendings_def r)
  have "chains_ok ?s [] st" using I(1) v by (auto simp: chains_ok_def)
  moreover have "jobs_ok ?s (pendings ?s [] st)" using I(2) i unfolding P jobs_ok_def by simp
  ultimately show ?thesis using I(3,4) P by (simp add: event_inv_at_def)
qed

lemma inv_visit:
  assumes I: "event_inv_at s st rest" and v: "osetter s = SVisit j"
  shows "event_inv_at (s\<lparr>osetter := SCall j (onext s j)\<rparr>) st rest"
  using I v unfolding event_inv_at_def chains_ok_def jobs_ok_def pendings_def by simp

lemma inv_call:
  assumes I: "event_inv_at s st rest" and c: "osetter s = SCall j nx"
    and s': "s' = s\<lparr>osetter := x, ocalled := ocalled s @ [j], ostate := (ostate s)(j := n)\<rparr>"
    and x: "walk_ptr x = nx" "read_ok (onext s) x" "\<And>i. i \<noteq> j \<Longrightarrow> \<not> at_stored x i \<and> \<not> at_rel x i"
    and n: "okind s j = JTimed \<longrightarrow> n = 2"
    and J: "\<And>p. job_ok (okind s j) (Suc p) (count (owned s) j) (ostate s j) (orefs s j) (j \<in> olive s)
      False False True (j \<in> set (ocalled s)) \<Longrightarrow>
      job_ok (okind s j) p (count (owned s) j) n (orefs s j) (j \<in> olive s) (at_stored x j) (at_rel x j) True True"
  shows "event_inv_at s' st (tl rest)"
proof -
  note I = event_inv_parts [OF I]
  obtain rest' where r: "rest = j # rest'" "nlist (onext s) (onext s j) rest'" using rest_first [OF I(1)] c by auto
  have nx: "onext s j = nx" using I(1) c by (simp add: chains_ok_def)
  have P: "pendings s st rest = add_mset j (pendings s' st rest')" by (simp add: pendings_def r(1) s')
  have tr: "j \<in> set (otried s)" by (rule in_multiset_in_set [THEN iffD1]) (simp add: I(3) P)
  have "jobs_ok s' (pendings s' st rest')"
  proof (rule jobs_okI [where i = j])
    have "job_ok (okind s j) (Suc (count (pendings s' st rest') j)) (count (owned s) j) (ostate s j) (orefs s j)
        (j \<in> olive s) False False True (j \<in> set (ocalled s))"
      using jobs_okD [OF I(2), of j] c tr unfolding P by simp
    from J [OF this] show "job_at s' (pendings s' st rest') j" using tr by (simp add: s')
    show "job_at s' (pendings s' st rest') i" if "i \<noteq> j" for i
      using jobs_okD [OF I(2), of i] x(3) [OF that] c that unfolding P by (simp add: s')
  qed
  moreover have "chains_ok s' st rest'" using I(1) r nx x by (simp add: chains_ok_def s')
  moreover have "mset (otried s') = mset (orefused s') + mset (ocalled s') + pendings s' st rest'"
    using I(3) unfolding P by (simp add: s')
  moreover have "thread_ok (okind s') (ostate s') y" if "y \<in> set (opcs s')" for y
  proof -
    have "thread_ok (okind s) (ostate s) y" using I(4) that by (simp add: s')
    then show ?thesis using n by (cases y) (auto simp: s')
  qed
  ultimately show ?thesis using r(1) by (simp add: event_inv_at_def)
qed

lemma inv_stored:
  assumes I: "event_inv_at s st rest" and c: "osetter s = SStored j nx"
  shows "event_inv_at (s\<lparr>osetter := SetImpl_next nx, ostate := (ostate s)(j := 2)\<rparr>) st rest" (is "event_inv_at ?s _ _")
proof -
  note I = event_inv_parts [OF I]
  have P: "pendings ?s st rest = pendings s st rest" by (simp add: pendings_def)
  have "jobs_ok ?s (pendings ?s st rest)"
  proof (rule jobs_okI [where i = j])
    show "job_at ?s (pendings ?s st rest) j"
      using jobs_okD [OF I(2), of j] c unfolding P by (cases "okind s j") (simp_all, auto)
    show "job_at ?s (pendings ?s st rest) i" if "i \<noteq> j" for i
      using jobs_okD [OF I(2), of i] c that unfolding P by simp
  qed
  moreover have "thread_ok (okind ?s) (ostate ?s) y" if "y \<in> set (opcs ?s)" for y
    using I(4) that by (cases y) auto
  ultimately show ?thesis using I(1,3) c P by (simp add: event_inv_at_def chains_ok_def)
qed

lemma inv_release:
  assumes I: "event_inv_at s st rest" and c: "osetter s = SRel j nx"
  shows "event_inv_at (Waiter_DecRef j (s\<lparr>osetter := SetImpl_next nx\<rparr>)) st rest" (is "event_inv_at ?s _ _")
proof -
  note I = event_inv_parts [OF I]
  have P: "pendings ?s st rest = pendings s st rest" by (simp add: pendings_def Waiter_DecRef_def)
  have k: "okind s j = JTimed" using jobs_okD [OF I(2), of j] c by (cases "okind s j") simp_all
  have "jobs_ok ?s (pendings ?s st rest)"
  proof (rule jobs_okI [where i = j])
    have "job_ok JTimed (count (pendings s st rest) j) (count (owned s) j) (ostate s j) (orefs s j) (j \<in> olive s)
        False True (j \<in> set (otried s)) (j \<in> set (ocalled s))"
      using jobs_okD [OF I(2), of j] c unfolding k by simp
    from job_ok_drop [OF this] show "job_at ?s (pendings ?s st rest) j"
      unfolding P by (cases "orefs s j = 1") (simp_all add: Waiter_DecRef_def k del: job_ok.simps)
    show "job_at ?s (pendings ?s st rest) i" if "i \<noteq> j" for i
      using jobs_okD [OF I(2), of i] c that unfolding P by (simp add: Waiter_DecRef_def)
  qed
  then show ?thesis using I(1,3,4) c P by (simp add: event_inv_at_def chains_ok_def Waiter_DecRef_def)
qed


lemma event_step_inv: "event_step s s' \<Longrightarrow> event_inv_at s st rest \<Longrightarrow> \<exists>st' rest'. event_inv_at s' st' rest'"
proof (induction rule: event_step.induct)
  case (add_begin t s j)
  show ?case by (intro exI, rule inv_add_begin [OF add_begin(4,1,2,3)])
next
  case (add_cas t s j e)
  show ?case by (intro exI, rule inv_cas [OF add_cas(4,1,2,3)])
next
  case (add_retry t s j e)
  show ?case by (intro exI, rule inv_look [OF add_retry(3,1,2)])
next
  case (wait_return t s j)
  show ?case by (intro exI, rule inv_wait_return [OF wait_return(4,1,2,3)])
next
  case (timed_return t s j)
  show ?case by (intro exI, rule inv_timed_return [OF timed_return(3,1,2)])
next
  case (timed_release t s j r)
  show ?case by (intro exI, rule inv_timed_release [OF timed_release(3,1,2)])
next
  case (set_exchange s v)
  show ?case by (intro exI, rule inv_exchange [OF set_exchange(3,1,2)])
next
  case (set_visit s j)
  show ?case by (intro exI, rule inv_visit [OF set_visit(2,1)])
next
  case (call_plain s j nx)
  have "event_inv_at (s\<lparr>osetter := SetImpl_next nx, ocalled := ocalled s @ [j]\<rparr>) st (tl rest)"
    by (rule inv_call [OF call_plain(3,1), where x = "SetImpl_next nx" and n = "ostate s j"])
      (simp_all add: call_plain)
  then show ?case by blast
next
  case (call_wait s j nx)
  have "event_inv_at (s\<lparr>osetter := SStored j nx, ocalled := ocalled s @ [j], ostate := (ostate s)(j := 1)\<rparr>) st (tl rest)"
    by (rule inv_call [OF call_wait(3,1), where x = "SStored j nx" and n = 1]) (simp_all add: call_wait)
  then show ?case by blast
next
  case (call_stored s j nx)
  show ?case by (intro exI, rule inv_stored [OF call_stored(2,1)])
next
  case (call_timed s j nx)
  have "event_inv_at (s\<lparr>osetter := SRel j nx, ocalled := ocalled s @ [j], ostate := (ostate s)(j := 2)\<rparr>) st (tl rest)"
    by (rule inv_call [OF call_timed(3,1), where x = "SRel j nx" and n = 2]) (auto simp: call_timed)
  then show ?case by blast
next
  case (call_release s j nx)
  show ?case by (intro exI, rule inv_release [OF call_release(2,1)])
next
  case (reset s)
  then have "event_inv_at (s\<lparr>ohead := UZero\<rparr>) st rest"
    unfolding event_inv_at_def chains_ok_def jobs_ok_def pendings_def by auto
  then show ?case by blast
qed

lemma event_reach_inv: "event_reach s \<Longrightarrow> \<exists>st rest. event_inv_at s st rest"
proof (induction rule: event_reach.induct)
  case (event_init kinds threads)
  show ?case using event_inv_new by blast
next
  case (event_next s s')
  then show ?case using event_step_inv by blast
qed

subsection \<open>The properties\<close>

definition event_quiet :: "oevent \<Rightarrow> bool" where
  "event_quiet s \<longleftrightarrow> osetter s = SIdle \<and> ptr_of (ohead s) = None \<and> (\<forall>j e. OCas j e \<notin> set (opcs s))"

lemma adding_none: "(\<forall>j e. OCas j e \<notin> set ts) \<Longrightarrow> sum_list (map adding ts) = {#}"
proof (induction ts)
  case (Cons x xs)
  then show ?case by (cases x) auto
qed simp

text \<open>
  every job added to an event is called exactly once per addition: at any time the additions so
  far are the refusals, the calls, and the jobs that are still pending, each of which is pending once;
  and when the event is set, the setter is back and no thread is inside \<open>TryAdd\<close>, nothing is pending,
  and every thread in \<open>Wait\<close> can return.
\<close>

lemma event_calls_once:
  assumes "event_reach s"
  shows "\<exists>P. mset (otried s) = mset (orefused s) + mset (ocalled s) + P \<and> (\<forall>j. count P j \<le> 1)
    \<and> (event_quiet s \<longrightarrow> P = {#} \<and> (\<forall>j. OWait j \<in> set (opcs s) \<longrightarrow> ostate s j = 2))"
proof -
  obtain st rest where I: "event_inv_at s st rest" using event_reach_inv [OF assms] by blast
  note P = event_inv_parts [OF I]
  have "pendings s st rest = {#} \<and> (\<forall>j. OWait j \<in> set (opcs s) \<longrightarrow> ostate s j = 2)" if q: "event_quiet s"
  proof -
    have e: "pendings s st rest = {#}"
      using q P(1) adding_none by (simp add: event_quiet_def chains_ok_def pendings_def)
    have "ostate s j = 2" if w: "OWait j \<in> set (opcs s)" for j
    proof -
      obtain t where t: "t < length (opcs s)" "opcs s ! t = OWait j" using w by (auto simp: in_set_conv_nth)
      have "{#j#} \<subseteq># owned s" using own_in [OF t(1)] t(2) by simp
      from count_of_single [OF this] obtain ow where ow: "count (owned s) j = Suc ow" by blast
      have "okind s j = JWait" using P(4) w by fastforce
      then have "job_ok JWait 0 (Suc ow) (ostate s j) (orefs s j) (j \<in> olive s) False
          (at_rel (osetter s) j) (j \<in> set (otried s)) (j \<in> set (ocalled s))"
        using jobs_okD [OF P(2), of j] q unfolding e ow by (simp add: event_quiet_def del: job_ok.simps)
      then show ?thesis by (rule job_facts)
    qed
    then show ?thesis using e by blast
  qed
  then show ?thesis using P(3) pending_once [OF I] by blast
qed

fun touches :: "osetter \<Rightarrow> nat option" where
  "touches SIdle = None"
| "touches (SVisit j) = Some j"
| "touches (SCall j nx) = Some j"
| "touches (SStored j nx) = Some j"
| "touches (SRel j nx) = Some j"

definition told :: "oevent \<Rightarrow> nat \<Rightarrow> bool" where
  "told s j \<longleftrightarrow> OTimedEnd j True \<in> set (opcs s) \<or> okind s j = JWait \<and> j \<in> set (otried s) \<and> j \<notin> set (orefused s) \<and> j \<notin> olive s"

text \<open>
  the memory of waiters is safe: whatever waiter the setter reads, sets or releases, and whatever
  waiter a thread waits on, exists at that moment, also when \<open>Wait\<close> destroys its waiter as soon as it
  is set and when \<open>WaitFor\<close> gives up at any time; a waiter that still waits was not set, and one whose
  thread was told that the event happened was called.
\<close>

lemma event_waiters_live:
  assumes "event_reach s"
  shows "(\<forall>j. touches (osetter s) = Some j \<longrightarrow> okind s j \<noteq> JPlain \<longrightarrow> j \<in> olive s)
    \<and> (\<forall>j. OWait j \<in> set (opcs s) \<or> OTimed j \<in> set (opcs s) \<longrightarrow> j \<in> olive s)
    \<and> (\<forall>j. told s j \<longrightarrow> j \<in> set (ocalled s))"
proof -
  obtain st rest where I: "event_inv_at s st rest" using event_reach_inv [OF assms] by blast
  note P = event_inv_parts [OF I]
  note J = jobs_okD [OF P(2)]
  have "j \<in> olive s" if "touches (osetter s) = Some j" "okind s j \<noteq> JPlain" for j
  proof (cases "walk_ptr (osetter s) = Some j")
    case True
    then have "j \<in> set rest" using rest_first [OF P(1)] by auto
    then have "{#j#} \<subseteq># pendings s st rest" by (simp add: pendings_def)
    from count_of_single [OF this] obtain p where "count (pendings s st rest) j = Suc p" by blast
    then show ?thesis using J [of j] that(2) job_facts(2) by metis
  next
    case False
    then have "at_stored (osetter s) j \<or> at_rel (osetter s) j" using that(1) by (cases "osetter s") simp_all
    then show ?thesis using J [of j] job_facts(3) by metis
  qed
  moreover have own: "j \<in> olive s" if w: "x \<in> set (opcs s)" "owning x = {#j#}" "okind s j \<noteq> JPlain" for x j
  proof -
    obtain t where t: "t < length (opcs s)" "opcs s ! t = x" using w(1) by (auto simp: in_set_conv_nth)
    have "{#j#} \<subseteq># owned s" using own_in [OF t(1)] t(2) w(2) by simp
    from count_of_single [OF this] obtain ow where "count (owned s) j = Suc ow" by blast
    then show ?thesis using J [of j] w(3) job_facts(4) by metis
  qed
  have "j \<in> olive s" if "OWait j \<in> set (opcs s) \<or> OTimed j \<in> set (opcs s)" for j
    using that own [of "OWait j" j] own [of "OTimed j" j] P(4) by fastforce
  moreover have "j \<in> set (ocalled s)" if "told s j" for j
  proof (cases "OTimedEnd j True \<in> set (opcs s)")
    case True
    then have "okind s j = JTimed" "ostate s j = 2" using P(4) by fastforce+
    then show ?thesis using J [of j] job_facts(5) by metis
  next
    case False
    then have k: "okind s j = JWait" and tr: "j \<in> set (otried s)" "j \<notin> set (orefused s)" and l: "j \<notin> olive s"
      using that by (simp_all add: told_def)
    have "count (pendings s st rest) j = 0" using J [of j] k l job_facts(6) by metis
    then have "j \<notin># pendings s st rest" by (simp add: not_in_iff)
    moreover have "j \<in># mset (otried s)" using tr(1) by simp
    ultimately show ?thesis using tr(2) unfolding P(3) by simp
  qed
  ultimately show ?thesis by blast
qed


subsection \<open>A run\<close>

text \<open>One thread waits, the event is set, and the thread returns.\<close>

abbreviation event_demo where
  "event_demo h nx st lv pcs sp tr ca \<equiv> \<lparr>ohead = h, onext = nx, okind = (\<lambda>_. JWait), ostate = st,
     orefs = (\<lambda>_. 0)(0 := 0), olive = lv, opcs = [pcs], osetter = sp, otried = tr, orefused = [], ocalled = ca\<rparr>"

lemma event_demo_reach:
  "event_reach (event_demo UMax ((\<lambda>_. None)(0 := None)) ((\<lambda>_. 0)(0 := 1, 0 := 2)) {0} (OWait 0) SIdle [0] [0])"
proof -
  let ?z = "\<lambda>_. 0 :: nat" and ?n = "\<lambda>_. None :: nat option"
  have "event_reach (OneShotEvent_new (\<lambda>_. JWait) 1)" by (rule event_init)
  then have "event_reach (event_demo UZero ?n ?z {0} (OCas 0 UZero) SIdle [0] [])"
    by (rule event_next) (use add_begin [of 0 "OneShotEvent_new (\<lambda>_. JWait) 1" 0] in
      \<open>simp add: OneShotEvent_new_def may_add_def TryAdd_look_def waiter_refs_def\<close>)
  then have "event_reach (event_demo (UAt 0) (?n(0 := None)) ?z {0} (OWait 0) SIdle [0] [])"
    by (rule event_next) (use add_cas [of 0 "event_demo UZero ?n ?z {0} (OCas 0 UZero) SIdle [0] []" 0 UZero] in simp)
  then have "event_reach (event_demo UMax (?n(0 := None)) ?z {0} (OWait 0) (SVisit 0) [0] [])"
    by (rule event_next) (use set_exchange [of "event_demo (UAt 0) (?n(0 := None)) ?z {0} (OWait 0) SIdle [0] []" UMax]
      in \<open>simp add: SetImpl_next_def\<close>)
  then have "event_reach (event_demo UMax (?n(0 := None)) ?z {0} (OWait 0) (SCall 0 None) [0] [])"
    by (rule event_next) (use set_visit [of "event_demo UMax (?n(0 := None)) ?z {0} (OWait 0) (SVisit 0) [0] []" 0] in simp)
  then have "event_reach (event_demo UMax (?n(0 := None)) (?z(0 := 1)) {0} (OWait 0) (SStored 0 None) [0] [0])"
    by (rule event_next) (use call_wait [of "event_demo UMax (?n(0 := None)) ?z {0} (OWait 0) (SCall 0 None) [0] []" 0 None] in simp)
  then show ?thesis
    by (rule event_next) (use call_stored [of "event_demo UMax (?n(0 := None)) (?z(0 := 1)) {0} (OWait 0) (SStored 0 None) [0] [0]" 0 None]
      in \<open>simp add: SetImpl_next_def\<close>)
qed

lemma event_demo_told: "\<exists>s. event_reach s \<and> told s 0"
proof -
  let ?s = "\<lambda>p lv. event_demo UMax ((\<lambda>_. None)(0 := None)) ((\<lambda>_. 0)(0 := 1, 0 := 2)) lv p SIdle [0] [0]"
  have "event_reach (?s OIdle {})"
    by (rule event_next [OF event_demo_reach]) (use wait_return [of 0 "?s (OWait 0) {0}" 0] in simp)
  then show ?thesis by (intro exI [of _ "?s OIdle {}"]) (simp add: told_def)
qed


end
