(* ===== verification/Events.thy ===== *)
theory Events
  imports Prelude
begin

section \<open>AtomicEvent and MutexEvent\<close>

text \<open>
  \<open>src/util/atomic_event.cpp\<close> (the build with \<open>YACLIB_FUTEX == 1\<close>) and \<open>src/util/mutex_event.cpp\<close>: a
  thread waits on an event that lives on its stack while another thread sets it. The waiter destroys
  the event as soon as \<open>Wait\<close> returns, so the setter must be done with it by then; and a waiter that
  blocked must be woken. A step is one atomic operation, or one operation of the mutex or of the
  condition variable; blocked waiters may wake spuriously.
\<close>

subsection \<open>AtomicEvent\<close>

datatype awaiter = AIdle | AFutex | ASpin | ADone
datatype asetter = ASet | ANotify | ARelease | ASetDone

record aevent =
  astate :: nat
  awaiter :: awaiter
  asetter :: asetter

definition AtomicEvent_new :: aevent where
  "AtomicEvent_new = \<lparr>astate = 0, awaiter = AIdle, asetter = ASet\<rparr>"

text \<open>\<open>_state.wait(0)\<close> compares under the lock of the futex: it blocks only while the value is 0.\<close>

definition AtomicEvent_Wait :: "aevent \<Rightarrow> aevent" where
  "AtomicEvent_Wait s = s\<lparr>awaiter := (case awaiter s of
     ASpin \<Rightarrow> if astate s = 2 then ADone else ASpin
   | ADone \<Rightarrow> ADone
   | _ \<Rightarrow> if astate s = 0 then AFutex else ASpin)\<rparr>"

definition AtomicEvent_Set :: "aevent \<Rightarrow> aevent" where
  "AtomicEvent_Set s = (case asetter s of
     ASet \<Rightarrow> s\<lparr>astate := 1, asetter := ANotify\<rparr>
   | ANotify \<Rightarrow> s\<lparr>asetter := ARelease, awaiter := (if awaiter s = AFutex then AIdle else awaiter s)\<rparr>
   | ARelease \<Rightarrow> s\<lparr>astate := 2, asetter := ASetDone\<rparr>
   | ASetDone \<Rightarrow> s)"

inductive aevent_reach :: "aevent \<Rightarrow> bool" where
  aevent_init: "aevent_reach AtomicEvent_new"
| aevent_wait: "aevent_reach s \<Longrightarrow> aevent_reach (AtomicEvent_Wait s)"
| aevent_set: "aevent_reach s \<Longrightarrow> aevent_reach (AtomicEvent_Set s)"

definition aevent_inv :: "aevent \<Rightarrow> bool" where
  "aevent_inv s \<longleftrightarrow> astate s = (case asetter s of ASet \<Rightarrow> 0 | ASetDone \<Rightarrow> 2 | _ \<Rightarrow> 1)
     \<and> (awaiter s = ADone \<longrightarrow> asetter s = ASetDone)
     \<and> (awaiter s = AFutex \<longrightarrow> asetter s = ASet \<or> asetter s = ANotify)"

lemma aevent_reach_inv: "aevent_reach s \<Longrightarrow> aevent_inv s"
proof (induction rule: aevent_reach.induct)
  case (aevent_wait s)
  then show ?case
    by (cases "asetter s"; cases "awaiter s") (simp_all add: aevent_inv_def AtomicEvent_Wait_def)
next
  case (aevent_set s)
  then show ?case
    by (cases "asetter s"; cases "awaiter s") (simp_all add: aevent_inv_def AtomicEvent_Set_def)
qed (simp add: aevent_inv_def AtomicEvent_new_def)

text \<open>
  an \<open>AtomicEvent\<close> can be destroyed when \<open>Wait\<close> returns, because the setter has made its last
  access by then; and once \<open>Set\<close> has returned, \<open>Wait\<close> returns after at most two more looks at the state.
\<close>

lemma atomic_event_safe:
  assumes "aevent_reach s"
  shows "(awaiter s = ADone \<longrightarrow> asetter s = ASetDone)
    \<and> (asetter s = ASetDone \<longrightarrow> awaiter (AtomicEvent_Wait (AtomicEvent_Wait s)) = ADone)"
proof -
  have I: "aevent_inv s" by (rule aevent_reach_inv [OF assms])
  have "awaiter (AtomicEvent_Wait (AtomicEvent_Wait s)) = ADone" if "asetter s = ASetDone"
    using I that by (cases "awaiter s") (simp_all add: aevent_inv_def AtomicEvent_Wait_def)
  then show ?thesis using I by (simp add: aevent_inv_def)
qed


subsection \<open>MutexEvent\<close>

text \<open>
  The waiter: before \<open>Make\<close>; with the mutex, about to look at \<open>_is_ready\<close>; blocked in the condition
  variable; woken (or timed out) and waiting for the mutex; with its answer, before the token is
  released; returned. The setter: before the lock, with the lock, after the store, after the
  notification, done.
\<close>

datatype mwaiter = MIdle | MLook | MBlocked | MLocking bool | MAnswer bool | MDone bool
datatype msetter = SLock | SStore | SNotify | SUnlock | SDone
datatype mowner = Free | Waiter | Setter

record mevent =
  is_ready :: bool
  mowner :: mowner
  mwaiter :: mwaiter
  msetter :: msetter

definition MutexEvent_new :: mevent where
  "MutexEvent_new = \<lparr>is_ready = False, mowner = Free, mwaiter = MIdle, msetter = SLock\<rparr>"

definition MutexEvent_Set :: "mevent \<Rightarrow> mevent" where
  "MutexEvent_Set s = (case msetter s of
     SLock \<Rightarrow> if mowner s = Free then s\<lparr>mowner := Setter, msetter := SStore\<rparr> else s
   | SStore \<Rightarrow> s\<lparr>is_ready := True, msetter := SNotify\<rparr>
   | SNotify \<Rightarrow> s\<lparr>msetter := SUnlock, mwaiter := (if mwaiter s = MBlocked then MLocking False else mwaiter s)\<rparr>
   | SUnlock \<Rightarrow> s\<lparr>mowner := Free, msetter := SDone\<rparr>
   | SDone \<Rightarrow> s)"

definition MutexEvent_Make :: "mevent \<Rightarrow> mevent" where
  "MutexEvent_Make s = (if mwaiter s = MIdle \<and> mowner s = Free then s\<lparr>mowner := Waiter, mwaiter := MLook\<rparr> else s)"

text \<open>
  \<open>Wait(token)\<close> and \<open>Wait(token, timeout)\<close>: \<open>wake\<close> is a spurious wake-up, \<open>timeout\<close> the end of the
  time, after which the predicate is the answer; the destructor of the token releases the mutex.
\<close>

definition MutexEvent_Wait :: "bool \<Rightarrow> bool \<Rightarrow> mevent \<Rightarrow> mevent" where
  "MutexEvent_Wait wake timeout s = (case mwaiter s of
     MLook \<Rightarrow> if is_ready s then s\<lparr>mwaiter := MAnswer True\<rparr> else s\<lparr>mowner := Free, mwaiter := MBlocked\<rparr>
   | MBlocked \<Rightarrow> if wake \<or> timeout then s\<lparr>mwaiter := MLocking timeout\<rparr> else s
   | MLocking out \<Rightarrow> if mowner s = Free
       then s\<lparr>mowner := Waiter, mwaiter := (if out then MAnswer (is_ready s) else MLook)\<rparr> else s
   | MAnswer r \<Rightarrow> s\<lparr>mowner := Free, mwaiter := MDone r\<rparr>
   | _ \<Rightarrow> s)"

inductive mevent_reach :: "mevent \<Rightarrow> bool" where
  mevent_init: "mevent_reach MutexEvent_new"
| mevent_make: "mevent_reach s \<Longrightarrow> mevent_reach (MutexEvent_Make s)"
| mevent_wait: "mevent_reach s \<Longrightarrow> mevent_reach (MutexEvent_Wait w t s)"
| mevent_set: "mevent_reach s \<Longrightarrow> mevent_reach (MutexEvent_Set s)"

fun setter_ok :: "msetter \<Rightarrow> bool \<Rightarrow> mowner \<Rightarrow> bool" where
  "setter_ok SLock r ow \<longleftrightarrow> \<not> r \<and> ow \<noteq> Setter"
| "setter_ok SStore r ow \<longleftrightarrow> \<not> r \<and> ow = Setter"
| "setter_ok SNotify r ow \<longleftrightarrow> r \<and> ow = Setter"
| "setter_ok SUnlock r ow \<longleftrightarrow> r \<and> ow = Setter"
| "setter_ok SDone r ow \<longleftrightarrow> r \<and> ow \<noteq> Setter"

fun waiter_ok :: "mwaiter \<Rightarrow> msetter \<Rightarrow> mowner \<Rightarrow> bool" where
  "waiter_ok MIdle st ow \<longleftrightarrow> ow \<noteq> Waiter"
| "waiter_ok MLook st ow \<longleftrightarrow> ow = Waiter"
| "waiter_ok MBlocked st ow \<longleftrightarrow> ow \<noteq> Waiter \<and> st \<noteq> SUnlock \<and> st \<noteq> SDone"
| "waiter_ok (MLocking t) st ow \<longleftrightarrow> ow \<noteq> Waiter"
| "waiter_ok (MAnswer r) st ow \<longleftrightarrow> ow = Waiter \<and> st = (if r then SDone else SLock)"
| "waiter_ok (MDone r) st ow \<longleftrightarrow> ow \<noteq> Waiter \<and> (r \<longrightarrow> st = SDone)"

definition mevent_inv :: "mevent \<Rightarrow> bool" where
  "mevent_inv s \<longleftrightarrow> setter_ok (msetter s) (is_ready s) (mowner s) \<and> waiter_ok (mwaiter s) (msetter s) (mowner s)"

lemma mevent_reach_inv: "mevent_reach s \<Longrightarrow> mevent_inv s"
proof (induction rule: mevent_reach.induct)
  case (mevent_make s)
  then show ?case
    by (cases "msetter s"; cases "mwaiter s") (simp_all add: mevent_inv_def MutexEvent_Make_def)
next
  case (mevent_wait s w t)
  then show ?case
    by (cases "msetter s"; cases "mwaiter s") (auto simp: mevent_inv_def MutexEvent_Wait_def)
next
  case (mevent_set s)
  then show ?case
    by (cases "msetter s"; cases "mwaiter s") (auto simp: mevent_inv_def MutexEvent_Set_def)
qed (simp add: mevent_inv_def MutexEvent_new_def)

text \<open>
  a \<open>MutexEvent\<close> can be destroyed when \<open>Wait\<close> returns true, because the setter has left its
  critical section by then, notification included; a timed wait answers false only before the setter
  took the mutex; and a waiter does not stay blocked after \<open>Set\<close>.
\<close>

lemma mutex_event_safe:
  assumes "mevent_reach s"
  shows "(mwaiter s = MDone True \<longrightarrow> msetter s = SDone)
    \<and> (mwaiter s = MAnswer False \<longrightarrow> \<not> is_ready s \<and> msetter s = SLock)
    \<and> (msetter s = SDone \<longrightarrow> mwaiter s \<noteq> MBlocked \<and> mowner s \<noteq> Setter)"
  using mevent_reach_inv [OF assms] by (cases "msetter s") (auto simp: mevent_inv_def)


end
