(* ===== verification/Waiting.thy ===== *)
theory Waiting
  imports Events
begin

section \<open>Waiting for futures\<close>

text \<open>
  \<open>include/yaclib/async/detail/wait_impl.hpp\<close> with \<open>algo/detail/wait_event.hpp\<close>: \<open>WaitRange\<close> puts its
  event as the callback of every future, counts how many took it, and waits until as many cores have
  called it; with a timeout it takes the callbacks back. The event lives on the waiter's stack. The
  waiter runs against the producers of the futures; a step is one access to a callback word or to the
  counter. \<open>SetCallback\<close> and \<open>Reset\<close> are one step each: their load can only fail earlier in a way in
  which the exchange would fail too, as a word goes from empty or from the callback to the result.
  The event itself is the one of \<open>Events\<close>: \<open>wset\<close> says that \<open>Set\<close> has returned, and only then \<open>Wait\<close>
  returns.
\<close>

datatype cword = CEmpty | CCallback | CResult

text \<open>A producer: before the exchange; about to call the event; inside \<open>Set\<close>; done.\<close>

datatype wprod = PPending | PRun | PSet | PFin

text \<open>
  \<open>WaitRange\<close>: before handle \<open>i\<close> with \<open>wait_count\<close>; in the timed wait; before the reset of handle \<open>i\<close>
  with \<open>wait_count\<close> and \<open>reset_count\<close>; in the last wait with \<open>reset_count\<close>; returned.
\<close>

datatype wpc = WSet nat nat | WTimed nat | WReset nat nat nat | WWait nat | WRet bool

record wrange =
  handles :: "(cword \<times> wprod) list"
  wcnt :: int
  wset :: bool
  timed :: bool
  wpc :: wpc

text \<open>\<open>WaitCore\<close>, \<open>WaitIterator\<close>: the event starts with one more than the number of handles.\<close>

definition WaitCore :: "bool \<Rightarrow> nat \<Rightarrow> wrange" where
  "WaitCore t n = \<lparr>handles = replicate n (CEmpty, PPending), wcnt = int n + 1, wset = False, timed = t, wpc = WSet 0 0\<rparr>"

text \<open>One handle uses the counter that does not count.\<close>

definition one :: "wrange \<Rightarrow> bool" where
  "one s \<longleftrightarrow> length (handles s) = 1"

definition Event_SubEqual :: "nat \<Rightarrow> wrange \<Rightarrow> bool \<times> wrange" where
  "Event_SubEqual k s = (if one s then (False, s) else (wcnt s = int k, s\<lparr>wcnt := wcnt s - int k\<rparr>))"

text \<open>\<open>Sub(1)\<close> with \<open>SetDeleter\<close>: whether the caller has to call \<open>Set\<close>.\<close>

definition Event_Sub :: "wrange \<Rightarrow> bool \<times> wrange" where
  "Event_Sub s = (if one s then (True, s) else (wcnt s = 1, s\<lparr>wcnt := wcnt s - 1\<rparr>))"

definition put_word :: "nat \<Rightarrow> cword \<Rightarrow> wrange \<Rightarrow> wrange" where
  "put_word i w s = s\<lparr>handles := (handles s)[i := (w, snd (handles s ! i))]\<rparr>"

definition handle_SetCallback :: "nat \<Rightarrow> wrange \<Rightarrow> bool \<times> wrange" where
  "handle_SetCallback i s = (if fst (handles s ! i) = CEmpty then (True, put_word i CCallback s) else (False, s))"

definition handle_Reset :: "nat \<Rightarrow> wrange \<Rightarrow> bool \<times> wrange" where
  "handle_Reset i s = (if fst (handles s ! i) \<noteq> CResult then (True, put_word i CEmpty s) else (False, s))"

text \<open>One step of \<open>WaitRange\<close>; \<open>elapsed\<close> is the answer of the clock in the timed wait.\<close>

definition WaitRange :: "bool \<Rightarrow> wrange \<Rightarrow> wrange" where
  "WaitRange elapsed s = (let count = length (handles s) in
     case wpc s of
       WSet i c \<Rightarrow>
         if i < count then
           let (ok, s') = handle_SetCallback i s in s'\<lparr>wpc := WSet (Suc i) (if ok then Suc c else c)\<rparr>
         else if c = 0 then s\<lparr>wpc := WRet True\<rparr>
         else let (zero, s') = Event_SubEqual (count - c + 1) s in
           s'\<lparr>wpc := if zero then WRet True else if timed s then WTimed c else WWait 0\<rparr>
     | WTimed c \<Rightarrow> if wset s then s\<lparr>wpc := WRet True\<rparr> else if elapsed then s\<lparr>wpc := WReset 0 c 0\<rparr> else s
     | WReset i c r \<Rightarrow>
         if i < count then
           let (ok, s') = handle_Reset i s in s'\<lparr>wpc := WReset (Suc i) c (if ok then Suc r else r)\<rparr>
         else if r = 0 then s\<lparr>wpc := WWait 0\<rparr>
         else if r = c then s\<lparr>wpc := WRet False\<rparr>
         else let (zero, s') = Event_SubEqual r s in s'\<lparr>wpc := if zero then WRet False else WWait r\<rparr>
     | WWait r \<Rightarrow> if wset s then s\<lparr>wpc := WRet (r = 0)\<rparr> else s
     | WRet b \<Rightarrow> s)"

text \<open>
  The producer of future \<open>i\<close>: the exchange with the result, the call of \<open>CallCallback\<close> if it found the
  event, and \<open>Set\<close> if the count reached zero.
\<close>

definition produce :: "nat \<Rightarrow> wrange \<Rightarrow> wrange" where
  "produce i s = (case handles s ! i of
     (w, PPending) \<Rightarrow> s\<lparr>handles := (handles s)[i := (CResult, if w = CCallback then PRun else PFin)]\<rparr>
   | (w, PRun) \<Rightarrow> let (zero, s') = Event_Sub s in s'\<lparr>handles := (handles s)[i := (w, if zero then PSet else PFin)]\<rparr>
   | (w, PSet) \<Rightarrow> s\<lparr>wset := True, handles := (handles s)[i := (w, PFin)]\<rparr>
   | (w, PFin) \<Rightarrow> s)"

inductive wait_reach :: "wrange \<Rightarrow> bool" where
  wait_init: "0 < n \<Longrightarrow> wait_reach (WaitCore t n)"
| wait_turn: "wait_reach s \<Longrightarrow> wait_reach (WaitRange e s)"
| wait_prod: "wait_reach s \<Longrightarrow> i < length (handles s) \<Longrightarrow> wait_reach (produce i s)"

subsection \<open>The invariant\<close>

text \<open>Callbacks that are outstanding; producers inside \<open>Set\<close>; words without callback or result.\<close>

fun held :: "cword \<times> wprod \<Rightarrow> nat" where
  "held (w, p) = of_bool (w = CCallback) + of_bool (p = PRun)"

fun setting :: "cword \<times> wprod \<Rightarrow> nat" where
  "setting (w, p) = of_bool (p = PSet)"

fun vacant :: "cword \<times> wprod \<Rightarrow> nat" where
  "vacant (w, p) = of_bool (w = CEmpty)"

abbreviation outstanding :: "wrange \<Rightarrow> nat" where
  "outstanding s \<equiv> sum_list (map held (handles s))"

abbreviation setters :: "wrange \<Rightarrow> nat" where
  "setters s \<equiv> sum_list (map setting (handles s))"

text \<open>
  The counter against the outstanding callbacks, the producers in \<open>Set\<close> and the event; \<open>early\<close> is
  before the subtraction of the futures that were ready, \<open>c\<close> and \<open>r\<close> are the two counts.
\<close>

definition nums_ok :: "bool \<Rightarrow> nat \<Rightarrow> nat \<Rightarrow> nat \<Rightarrow> bool \<Rightarrow> int \<Rightarrow> bool \<Rightarrow> nat \<Rightarrow> nat \<Rightarrow> bool" where
  "nums_ok single n out sets done k early c r \<longleftrightarrow> c \<le> n \<and> out + r \<le> c
     \<and> (if single then out + sets + of_bool done + r = c
        else k = int out + int r + (if early then int n + 1 - int c else 0)
          \<and> sets + of_bool done = of_bool (k = 0))"

definition cnt_ok :: "bool \<Rightarrow> nat \<Rightarrow> nat \<Rightarrow> wrange \<Rightarrow> bool" where
  "cnt_ok early c r s \<longleftrightarrow> nums_ok (one s) (length (handles s)) (outstanding s) (setters s) (wset s) (wcnt s) early c r"

text \<open>Every handle from \<open>a\<close> to \<open>b\<close> holds the callback or the result.\<close>

definition full_from :: "nat \<Rightarrow> nat \<Rightarrow> wrange \<Rightarrow> bool" where
  "full_from a b s \<longleftrightarrow> (\<forall>j. a \<le> j \<and> j < b \<longrightarrow> fst (handles s ! j) \<noteq> CEmpty)"

definition calm_to :: "nat \<Rightarrow> wrange \<Rightarrow> bool" where
  "calm_to b s \<longleftrightarrow> (\<forall>j < b. fst (handles s ! j) \<noteq> CCallback)"

fun pc_ok :: "wpc \<Rightarrow> wrange \<Rightarrow> bool" where
  "pc_ok (WSet i c) s \<longleftrightarrow> c \<le> i \<and> i \<le> length (handles s) \<and> cnt_ok True c 0 s \<and> full_from 0 i s"
| "pc_ok (WTimed c) s \<longleftrightarrow> 0 < c \<and> cnt_ok False c 0 s \<and> full_from 0 (length (handles s)) s \<and> timed s"
| "pc_ok (WReset i c r) s \<longleftrightarrow> 0 < c \<and> cnt_ok False c r s \<and> i \<le> length (handles s) \<and> timed s
     \<and> (full_from (if r = 0 then 0 else i) (length (handles s)) s)"
| "pc_ok (WWait r) s \<longleftrightarrow> (\<exists>c > 0. cnt_ok False c 0 s) \<and> (r = 0 \<longrightarrow> full_from 0 (length (handles s)) s)
     \<and> (r \<noteq> 0 \<longrightarrow> timed s)"
| "pc_ok (WRet b) s \<longleftrightarrow> outstanding s = 0 \<and> setters s = 0 \<and> (b \<longrightarrow> full_from 0 (length (handles s)) s) \<and> (\<not> b \<longrightarrow> timed s)"

definition wait_inv :: "wrange \<Rightarrow> bool" where
  "wait_inv s \<longleftrightarrow> 0 < length (handles s) \<and> pc_ok (wpc s) s
     \<and> (\<forall>h \<in> set (handles s). snd h = PPending \<longleftrightarrow> fst h \<noteq> CResult)"


abbreviation coherent :: "wrange \<Rightarrow> bool" where
  "coherent s \<equiv> (\<forall>h \<in> set (handles s). snd h = PPending \<longleftrightarrow> fst h \<noteq> CResult)"

lemma wait_invI: "0 < length (handles s) \<Longrightarrow> pc_ok (wpc s) s \<Longrightarrow> coherent s \<Longrightarrow> wait_inv s"
  by (simp add: wait_inv_def)

lemma wait_inv_new:
  assumes "0 < n"
  shows "wait_inv (WaitCore t n)"
proof -
  have "sum_list (map held (replicate n (CEmpty, PPending))) = 0" "sum_list (map setting (replicate n (CEmpty, PPending))) = 0"
    by (simp_all add: sum_list_replicate_zero)
  then show ?thesis using assms by (simp add: wait_inv_def WaitCore_def cnt_ok_def nums_ok_def full_from_def one_def)
qed

lemma put_word_simps [simp]:
  "length (handles (put_word i w s)) = length (handles s)" "one (put_word i w s) = one s"
  "wcnt (put_word i w s) = wcnt s" "wset (put_word i w s) = wset s" "timed (put_word i w s) = timed s"
  by (simp_all add: put_word_def one_def)

lemma put_word_sums:
  assumes "i < length (handles s)"
  shows "outstanding (put_word i w s) + held (handles s ! i) = outstanding s + held (w, snd (handles s ! i))"
    and "setters (put_word i w s) = setters s"
proof -
  show "outstanding (put_word i w s) + held (handles s ! i) = outstanding s + held (w, snd (handles s ! i))"
    unfolding put_word_def by (simp add: sum_list_step [OF assms])
  have "setters (put_word i w s) + setting (handles s ! i) = setters s + setting (w, snd (handles s ! i))"
    unfolding put_word_def by (simp add: sum_list_step [OF assms])
  then show "setters (put_word i w s) = setters s" by (cases "handles s ! i") simp
qed

lemma put_word_coherent:
  assumes "coherent s" "i < length (handles s)" "fst (handles s ! i) \<noteq> CResult" "w \<noteq> CResult"
  shows "coherent (put_word i w s)"
proof -
  have "snd (handles s ! i) = PPending" using assms(1-3) by simp
  then show ?thesis using assms(1,4) mem_updateD unfolding put_word_def by fastforce
qed

lemma put_word_full:
  "i < length (handles s) \<Longrightarrow> w \<noteq> CEmpty \<Longrightarrow> full_from a b s \<Longrightarrow> full_from a b (put_word i w s)"
  "i < length (handles s) \<Longrightarrow> w \<noteq> CEmpty \<Longrightarrow> full_from a i s \<Longrightarrow> full_from a (Suc i) (put_word i w s)"
  "i < length (handles s) \<Longrightarrow> full_from a b s \<Longrightarrow> i < a \<Longrightarrow> full_from a b (put_word i w s)"
  by (auto simp: full_from_def put_word_def nth_list_update less_Suc_eq)

text \<open>The predicates do not look at the program counter.\<close>

lemma pc_frame [simp]:
  "cnt_ok e c r (s\<lparr>wpc := x\<rparr>) = cnt_ok e c r s" "full_from a b (s\<lparr>wpc := x\<rparr>) = full_from a b s"
  "one (s\<lparr>wpc := x\<rparr>) = one s" "pc_ok p (s\<lparr>wpc := x\<rparr>) = pc_ok p s"
  by (simp_all add: cnt_ok_def full_from_def one_def) (cases p; simp add: cnt_ok_def full_from_def one_def)

lemma cnt_frame [simp]: "full_from a b (s\<lparr>wcnt := x\<rparr>) = full_from a b s" "one (s\<lparr>wcnt := x\<rparr>) = one s"
  by (simp_all add: full_from_def one_def)

lemma cnt_ok_set:
  assumes "cnt_ok True c 0 s" "i < length (handles s)" "fst (handles s ! i) = CEmpty" "c \<le> i"
    "snd (handles s ! i) = PPending"
  shows "cnt_ok True (Suc c) 0 (put_word i CCallback s)"
proof -
  have "held (handles s ! i) = 0" "held (CCallback, snd (handles s ! i)) = 1"
    using assms(3,5) by (cases "handles s ! i"; simp)+
  then have "outstanding (put_word i CCallback s) = outstanding s + 1"
    using put_word_sums(1) [OF assms(2), of CCallback] by simp
  moreover have "nums_ok o1 n (out + 1) z d k True (Suc c) 0" if "nums_ok o1 n out z d k True c 0" "c < n" for o1 n out z d k
    using that by (auto simp: nums_ok_def split: if_splits)
  ultimately show ?thesis using assms put_word_sums(2) [OF assms(2)] by (simp add: cnt_ok_def)
qed

lemma cnt_ok_unset:
  assumes "cnt_ok False c r s" "i < length (handles s)" "fst (handles s ! i) = CCallback"
    "snd (handles s ! i) = PPending"
  shows "cnt_ok False c (Suc r) (put_word i CEmpty s)"
proof -
  have "held (handles s ! i) = 1" "held (CEmpty, snd (handles s ! i)) = 0"
    using assms(3,4) by (cases "handles s ! i"; simp)+
  then have "outstanding s = outstanding (put_word i CEmpty s) + 1"
    using put_word_sums(1) [OF assms(2), of CEmpty] by simp
  moreover have "nums_ok o1 n out z d k False c (Suc r)" if "nums_ok o1 n (out + 1) z d k False c r" for o1 n out z d k
    using that by (auto simp: nums_ok_def split: if_splits)
  ultimately show ?thesis using assms(1) put_word_sums(2) [OF assms(2)] by (simp add: cnt_ok_def)
qed

text \<open>The subtraction after the callbacks are set, and the one after they are reset.\<close>

lemma nums_facts:
  "nums_ok False n out z d k True c 0 \<Longrightarrow> k = int (n - c + 1) \<Longrightarrow> out = 0 \<and> z = 0"
  "nums_ok single n out z d k True c 0 \<Longrightarrow> single \<or> k \<noteq> int (n - c + 1) \<Longrightarrow>
     nums_ok single n out z d (if single then k else k - int (n - c + 1)) False c 0"
  "nums_ok False n out z d k False c r \<Longrightarrow> 0 < r \<Longrightarrow> k = int r \<Longrightarrow> out = 0 \<and> z = 0"
  "nums_ok False n out z d k False c r \<Longrightarrow> 0 < r \<Longrightarrow> k \<noteq> int r \<Longrightarrow> nums_ok False n out z d (k - int r) False c 0"
  "nums_ok single n out z d k True 0 0 \<Longrightarrow> out = 0 \<and> z = 0"
  "nums_ok single n out z d k False c c \<Longrightarrow> 0 < c \<Longrightarrow> out = 0 \<and> z = 0"
  "nums_ok (n = 1) n out z True k False c 0 \<Longrightarrow> out = 0 \<and> z = 0"
  by (auto simp: nums_ok_def of_bool_def split: if_splits)

lemma cnt_ok_sub:
  assumes "cnt_ok True c 0 s" "Event_SubEqual (length (handles s) - c + 1) s = (z, s')"
  shows "if z then outstanding s' = 0 \<and> setters s' = 0 else cnt_ok False c 0 s'"
proof (cases "one s")
  case True
  then have "s' = s" "z = False" using assms(2) by (simp_all add: Event_SubEqual_def)
  then show ?thesis using nums_facts(2) [of True] assms(1) True by (simp add: cnt_ok_def)
next
  case False
  then have s': "s' = s\<lparr>wcnt := wcnt s - int (length (handles s) - c + 1)\<rparr>"
      "z = (wcnt s = int (length (handles s) - c + 1))" using assms(2) by (simp_all add: Event_SubEqual_def)
  have N: "nums_ok False (length (handles s)) (outstanding s) (setters s) (wset s) (wcnt s) True c 0"
    using assms(1) False by (simp add: cnt_ok_def)
  show ?thesis
  proof (cases z)
    case True
    then show ?thesis using nums_facts(1) [OF N] s' by simp
  next
    case z: False
    have "nums_ok False (length (handles s)) (outstanding s) (setters s) (wset s)
        (if False then wcnt s else wcnt s - int (length (handles s) - c + 1)) False c 0"
      by (rule nums_facts(2) [OF N]) (use s'(2) z in simp)
    then have "cnt_ok False c 0 s'" using False unfolding cnt_ok_def s'(1) by simp
    then show ?thesis using z by simp
  qed
qed

lemma cnt_ok_sub_reset:
  assumes "cnt_ok False c r s" "0 < r" "r \<noteq> c" "Event_SubEqual r s = (z, s')"
  shows "if z then outstanding s' = 0 \<and> setters s' = 0 else cnt_ok False c 0 s'"
proof -
  have "\<not> one s" using assms(1-3) by (auto simp: cnt_ok_def nums_ok_def one_def)
  then show ?thesis using assms nums_facts(3,4) unfolding cnt_ok_def Event_SubEqual_def
    by (auto split: if_splits simp del: sum_list_eq_0_iff)
qed

lemma cnt_ok_none: "cnt_ok True 0 0 s \<Longrightarrow> outstanding s = 0 \<and> setters s = 0"
  unfolding cnt_ok_def by (rule nums_facts(5))

lemma cnt_ok_all: "cnt_ok False c c s \<Longrightarrow> 0 < c \<Longrightarrow> outstanding s = 0 \<and> setters s = 0"
  unfolding cnt_ok_def by (rule nums_facts(6))

lemma cnt_ok_over: "cnt_ok False c 0 s \<Longrightarrow> wset s \<Longrightarrow> outstanding s = 0 \<and> setters s = 0"
  unfolding cnt_ok_def one_def by (rule nums_facts(7)) simp


lemma SubEqual_frame:
  assumes "Event_SubEqual k s = (z, s')"
  shows "handles s' = handles s" "wset s' = wset s" "timed s' = timed s" "full_from a b s' = full_from a b s"
    "one s' = one s"
  using assms by (auto simp: Event_SubEqual_def split: if_splits)

lemma SetCallback_cases:
  assumes "handle_SetCallback i s = (ok, s')"
  shows "(ok \<and> fst (handles s ! i) = CEmpty \<and> s' = put_word i CCallback s) \<or> (\<not> ok \<and> fst (handles s ! i) \<noteq> CEmpty \<and> s' = s)"
  using assms by (auto simp: handle_SetCallback_def split: if_splits)

lemma Reset_cases:
  assumes "handle_Reset i s = (ok, s')" "fst (handles s ! i) \<noteq> CEmpty"
  shows "(ok \<and> fst (handles s ! i) = CCallback \<and> s' = put_word i CEmpty s) \<or> (\<not> ok \<and> fst (handles s ! i) \<noteq> CCallback \<and> s' = s)"
  using assms by (cases "fst (handles s ! i)") (auto simp: handle_Reset_def)

lemma inv_WSet:
  assumes I: "wait_inv s" and p: "wpc s = WSet i c"
  shows "wait_inv (WaitRange e s)"
proof -
  have C: "c \<le> i" "i \<le> length (handles s)" "cnt_ok True c 0 s" "full_from 0 i s" and co: "coherent s" and n: "0 < length (handles s)"
    using I p by (simp_all add: wait_inv_def)
  consider (set) "i < length (handles s)" | (none) "i = length (handles s)" "c = 0" | (sub) "i = length (handles s)" "0 < c"
    using C(2) by linarith
  then show ?thesis
  proof cases
    case set
    obtain ok s' where h: "handle_SetCallback i s = (ok, s')" by (cases "handle_SetCallback i s")
    have W: "WaitRange e s = s'\<lparr>wpc := WSet (Suc i) (if ok then Suc c else c)\<rparr>" using p set h by (simp add: WaitRange_def Let_def)
    from SetCallback_cases [OF h] show ?thesis
    proof (elim disjE conjE)
      assume ok: "ok" "fst (handles s ! i) = CEmpty" "s' = put_word i CCallback s"
      have pp: "snd (handles s ! i) = PPending" using co set ok(2) by simp
      have "coherent (put_word i CCallback s)" by (rule put_word_coherent [OF co set]) (simp_all add: ok)
      then show ?thesis unfolding W using cnt_ok_set [OF C(3) set ok(2) C(1) pp] C set ok n
          put_word_full(2) [OF set _ C(4)]
        by (intro wait_invI) simp_all
    next
      assume ok: "\<not> ok" "fst (handles s ! i) \<noteq> CEmpty" "s' = s"
      have "full_from 0 (Suc i) s" using C(4) ok(2) by (auto simp: full_from_def less_Suc_eq)
      then show ?thesis unfolding W using C set ok n co by (intro wait_invI) simp_all
    qed
  next
    case none
    have "WaitRange e s = s\<lparr>wpc := WRet True\<rparr>" using p none by (simp add: WaitRange_def Let_def)
    moreover have "outstanding s = 0 \<and> setters s = 0" using cnt_ok_none C(3) none(2) by simp
    ultimately show ?thesis using C(4) none n co by (intro wait_invI) simp_all
  next
    case sub
    obtain z s' where h: "Event_SubEqual (length (handles s) - c + 1) s = (z, s')"
      by (cases "Event_SubEqual (length (handles s) - c + 1) s")
    have W: "WaitRange e s = s'\<lparr>wpc := if z then WRet True else if timed s then WTimed c else WWait 0\<rparr>"
      using p sub h by (simp add: WaitRange_def Let_def)
    note F = SubEqual_frame [OF h]
    have "if z then outstanding s' = 0 \<and> setters s' = 0 else cnt_ok False c 0 s'" by (rule cnt_ok_sub [OF C(3) h])
    then show ?thesis unfolding W using C(4) F sub n co
      by (intro wait_invI) (auto split: if_splits simp del: sum_list_eq_0_iff)
  qed
qed

lemma inv_WReset:
  assumes I: "wait_inv s" and p: "wpc s = WReset i c r"
  shows "wait_inv (WaitRange e s)"
proof -
  have C: "0 < c" "cnt_ok False c r s" "i \<le> length (handles s)" "timed s"
      "full_from (if r = 0 then 0 else i) (length (handles s)) s"
    and co: "coherent s" and n: "0 < length (handles s)"
    using I p by (simp_all add: wait_inv_def)
  consider (reset) "i < length (handles s)" | (none) "i = length (handles s)" "r = 0"
    | (all) "i = length (handles s)" "r \<noteq> 0" "r = c" | (sub) "i = length (handles s)" "r \<noteq> 0" "r \<noteq> c"
    using C(3) by linarith
  then show ?thesis
  proof cases
    case reset
    obtain ok s' where h: "handle_Reset i s = (ok, s')" by (cases "handle_Reset i s")
    have W: "WaitRange e s = s'\<lparr>wpc := WReset (Suc i) c (if ok then Suc r else r)\<rparr>" using p reset h by (simp add: WaitRange_def Let_def)
    have full: "full_from (Suc i) (length (handles s)) s" "full_from (if r = 0 then 0 else Suc i) (length (handles s)) s"
      using C(5) by (auto simp: full_from_def split: if_splits)
    have "fst (handles s ! i) \<noteq> CEmpty" using C(5) reset by (auto simp: full_from_def split: if_splits)
    from Reset_cases [OF h this] show ?thesis
    proof (elim disjE conjE)
      assume ok: "ok" "fst (handles s ! i) = CCallback" "s' = put_word i CEmpty s"
      have pp: "snd (handles s ! i) = PPending" using co reset ok(2) by simp
      have "coherent (put_word i CEmpty s)" by (rule put_word_coherent [OF co reset]) (simp_all add: ok)
      then show ?thesis unfolding W using cnt_ok_unset [OF C(2) reset ok(2) pp] C(1,4) reset ok n
          put_word_full(3) [OF reset full(1)]
        by (intro wait_invI) simp_all
    next
      assume "\<not> ok" "fst (handles s ! i) \<noteq> CCallback" "s' = s"
      then show ?thesis unfolding W using C full(2) reset n co by (intro wait_invI) simp_all
    qed
  next
    case none
    have "WaitRange e s = s\<lparr>wpc := WWait 0\<rparr>" using p none by (simp add: WaitRange_def Let_def)
    then show ?thesis using C none n co by (intro wait_invI) auto
  next
    case all
    have "WaitRange e s = s\<lparr>wpc := WRet False\<rparr>" using p all by (simp add: WaitRange_def Let_def)
    moreover have "outstanding s = 0 \<and> setters s = 0" using cnt_ok_all C(1,2) all(3) by simp
    ultimately show ?thesis using C(4) n co by (intro wait_invI) simp_all
  next
    case sub
    obtain z s' where h: "Event_SubEqual r s = (z, s')" by (cases "Event_SubEqual r s")
    have W: "WaitRange e s = s'\<lparr>wpc := if z then WRet False else WWait r\<rparr>"
      using p sub h by (simp add: WaitRange_def Let_def)
    note F = SubEqual_frame [OF h]
    have "if z then outstanding s' = 0 \<and> setters s' = 0 else cnt_ok False c 0 s'"
      by (rule cnt_ok_sub_reset [OF C(2) _ sub(3) h]) (use sub(2) in simp)
    then show ?thesis unfolding W using C(1,4) F sub n co
      by (intro wait_invI) (auto split: if_splits simp del: sum_list_eq_0_iff)
  qed
qed

lemma inv_turn:
  assumes I: "wait_inv s"
  shows "wait_inv (WaitRange e s)"
proof (cases "wpc s")
  case (WSet i c)
  then show ?thesis by (rule inv_WSet [OF I])
next
  case (WReset i c r)
  then show ?thesis by (rule inv_WReset [OF I])
next
  case (WTimed c)
  then have C: "0 < c" "cnt_ok False c 0 s" "full_from 0 (length (handles s)) s" "timed s"
    using I by (simp_all add: wait_inv_def)
  have "WaitRange e s = s\<lparr>wpc := if wset s then WRet True else if e then WReset 0 c 0 else WTimed c\<rparr>"
    using WTimed by (cases s) (simp add: WaitRange_def Let_def)
  then show ?thesis using C cnt_ok_over [OF C(2)] I unfolding wait_inv_def
    by (cases "wset s"; cases e) (simp_all del: sum_list_eq_0_iff)
next
  case (WWait r)
  then obtain c where C: "0 < c" "cnt_ok False c 0 s" "r = 0 \<longrightarrow> full_from 0 (length (handles s)) s" "r \<noteq> 0 \<longrightarrow> timed s"
    using I by (auto simp: wait_inv_def)
  have "WaitRange e s = (if wset s then s\<lparr>wpc := WRet (r = 0)\<rparr> else s)" using WWait by (simp add: WaitRange_def Let_def)
  then show ?thesis using C cnt_ok_over [OF C(2)] I unfolding wait_inv_def by (simp del: sum_list_eq_0_iff)
next
  case (WRet b)
  then show ?thesis using I by (simp add: WaitRange_def Let_def)
qed


text \<open>The producers: an exchange keeps the numbers, a call of the event lowers them, \<open>Set\<close> ends one.\<close>

lemma nums_run:
  "nums_ok True n (Suc out) z d k early c r \<Longrightarrow> nums_ok True n out (Suc z) d k early c r"
  "nums_ok False n (Suc out) z d 1 early c r \<Longrightarrow> nums_ok False n out (Suc z) d 0 early c r"
  "nums_ok False n (Suc out) z d k early c r \<Longrightarrow> k \<noteq> 1 \<Longrightarrow> nums_ok False n out z d (k - 1) early c r"
  "nums_ok (n = 1) n out (Suc z) d k early c r \<Longrightarrow> nums_ok (n = 1) n out z True k early c r"
  by (auto simp: nums_ok_def of_bool_def split: if_splits)

lemma pc_ok_mono:
  assumes "pc_ok p s" "length (handles s') = length (handles s)" "timed s' = timed s"
    "\<And>e c r. cnt_ok e c r s \<Longrightarrow> cnt_ok e c r s'" "\<And>a b. full_from a b s \<Longrightarrow> full_from a b s'"
    "outstanding s = 0 \<and> setters s = 0 \<Longrightarrow> outstanding s' = 0 \<and> setters s' = 0"
  shows "pc_ok p s'"
proof (cases p)
  case (WRet b)
  then show ?thesis using assms(1,2,3,5,6) by (simp del: sum_list_eq_0_iff)
qed (use assms in auto)

lemma sums_upd:
  assumes "i < length (handles s)" "handles s' = (handles s)[i := h]"
  shows "outstanding s' + held (handles s ! i) = outstanding s + held h"
    and "setters s' + setting (handles s ! i) = setters s + setting h"
  unfolding assms(2) by (rule sum_list_step [OF assms(1)])+

text \<open>A step of a producer that replaces its handle.\<close>

lemma inv_handle:
  assumes I: "wait_inv s" and i: "i < length (handles s)" and h: "handles s ! i = (w, p)"
    and s': "handles s' = (handles s)[i := (w', p')]" "wpc s' = wpc s" "timed s' = timed s"
    and w: "p' = PPending \<longleftrightarrow> w' \<noteq> CResult" "w' = CEmpty \<longrightarrow> w = CEmpty"
    and c: "\<And>e c r. cnt_ok e c r s \<Longrightarrow> cnt_ok e c r s'"
    and z: "outstanding s = 0 \<and> setters s = 0 \<Longrightarrow> outstanding s' = 0 \<and> setters s' = 0"
  shows "wait_inv s'"
proof (rule wait_invI)
  show "0 < length (handles s')" using I s'(1) by (simp add: wait_inv_def)
  have pc: "pc_ok (wpc s) s" using I by (simp add: wait_inv_def)
  have full: "full_from a b s'" if "full_from a b s" for a b
    using that i h w(2) by (auto simp: full_from_def s'(1) nth_list_update)
  have len: "length (handles s') = length (handles s)" by (simp add: s'(1))
  have "pc_ok (wpc s) s'" by (rule pc_ok_mono [OF pc len s'(3) c full z])
  then show "pc_ok (wpc s') s'" by (simp add: s'(2))
  have co: "coherent s" using I by (simp add: wait_inv_def)
  show "coherent s'"
  proof
    fix y
    assume "y \<in> set (handles s')"
    then have "y = (w', p') \<or> y \<in> set (handles s)" unfolding s'(1) by (rule mem_updateD)
    then show "snd y = PPending \<longleftrightarrow> fst y \<noteq> CResult"
    proof
      assume "y = (w', p')"
      then show ?thesis using w(1) by simp
    next
      assume "y \<in> set (handles s)"
      then show ?thesis using co by blast
    qed
  qed
qed

lemma inv_produce:
  assumes I: "wait_inv s" and i: "i < length (handles s)"
  shows "wait_inv (produce i s)"
proof -
  obtain w p where h: "handles s ! i = (w, p)" by (cases "handles s ! i")
  have "(w, p) \<in> set (handles s)" using nth_mem [OF i] h by simp
  then have coh: "p = PPending \<longleftrightarrow> w \<noteq> CResult" using I unfolding wait_inv_def by fastforce
  show ?thesis
  proof (cases p)
    case PPending
    let ?s = "s\<lparr>handles := (handles s)[i := (CResult, if w = CCallback then PRun else PFin)]\<rparr>"
    have eq: "produce i s = ?s" using h PPending by (simp add: produce_def)
    have "outstanding ?s = outstanding s" "setters ?s = setters s"
      using sums_upd [OF i, of ?s "(CResult, if w = CCallback then PRun else PFin)"] h PPending by (simp_all split: if_splits)
    then have "cnt_ok e c r ?s = cnt_ok e c r s" for e c r by (simp add: cnt_ok_def one_def)
    then show ?thesis unfolding eq
      using \<open>outstanding ?s = outstanding s\<close> \<open>setters ?s = setters s\<close>
      by (intro inv_handle [OF I i h, where w' = CResult and p' = "if w = CCallback then PRun else PFin"])
        (simp_all del: sum_list_eq_0_iff split: if_splits)
  next
    case PRun
    obtain z s1 where e: "Event_Sub s = (z, s1)" by (cases "Event_Sub s")
    let ?s = "s1\<lparr>handles := (handles s)[i := (w, if z then PSet else PFin)]\<rparr>"
    have eq: "produce i s = ?s" using h PRun e by (simp add: produce_def)
    have w: "w = CResult" using coh PRun by auto
    have o: "outstanding s = Suc (outstanding ?s)" and "setters ?s = setters s + of_bool z"
      using sums_upd [OF i, of ?s "(w, if z then PSet else PFin)"] h PRun w by (simp_all split: if_splits)
    then have "cnt_ok ea c r ?s" if "cnt_ok ea c r s" for ea c r
      using that e nums_run(1-3) unfolding cnt_ok_def Event_Sub_def one_def
      by (cases "length (handles s) = 1") (auto simp del: sum_list_eq_0_iff)
    then show ?thesis unfolding eq using e w o
      by (intro inv_handle [OF I i h, where w' = w and p' = "if z then PSet else PFin"]) (auto simp: Event_Sub_def split: if_splits simp del: sum_list_eq_0_iff)
  next
    case PSet
    let ?s = "s\<lparr>wset := True, handles := (handles s)[i := (w, PFin)]\<rparr>"
    have eq: "produce i s = ?s" using h PSet by (simp add: produce_def)
    have w: "w = CResult" using coh PSet by auto
    have "outstanding ?s = outstanding s" and z: "setters s = Suc (setters ?s)"
      using sums_upd [OF i, of ?s "(w, PFin)"] h PSet w by simp_all
    then have "cnt_ok e c r ?s" if "cnt_ok e c r s" for e c r
      using that nums_run(4) unfolding cnt_ok_def one_def by (simp del: sum_list_eq_0_iff)
    then show ?thesis unfolding eq using w z
      by (intro inv_handle [OF I i h, where w' = w and p' = PFin]) (simp_all del: sum_list_eq_0_iff)
  next
    case PFin
    then show ?thesis using I h by (simp add: produce_def)
  qed
qed

lemma wait_reach_inv: "wait_reach s \<Longrightarrow> wait_inv s"
  by (induction rule: wait_reach.induct) (simp_all add: wait_inv_new inv_turn inv_produce)


subsection \<open>The properties\<close>

lemma none_left:
  assumes "sum_list (map held hs) = 0" "sum_list (map setting hs) = 0" "(w, p) \<in> set hs"
  shows "w \<noteq> CCallback \<and> p \<noteq> PRun \<and> p \<noteq> PSet"
proof -
  have "held (w, p) = 0" "setting (w, p) = 0" using assms by (auto simp: sum_list_eq_0_iff)
  then show ?thesis by simp
qed

text \<open>
  C15: when \<open>Wait\<close>, \<open>WaitFor\<close> or \<open>WaitUntil\<close> return, for any number of futures, any interleaving with
  their producers and any timeout, nobody can touch the event any more: no future has it as its
  callback and no producer is about to call it or inside its \<open>Set\<close>. They return true only if every
  future is ready, and false only if there was a timeout.
\<close>

theorem wait_event_safe:
  assumes "wait_reach s" "wpc s = WRet b"
  shows "(\<forall>(w, p) \<in> set (handles s). w \<noteq> CCallback \<and> p \<noteq> PRun \<and> p \<noteq> PSet \<and> (b \<longrightarrow> w = CResult)) \<and> (b \<or> timed s)"
proof -
  have P: "outstanding s = 0" "setters s = 0" "b \<longrightarrow> full_from 0 (length (handles s)) s" "\<not> b \<longrightarrow> timed s"
    using wait_reach_inv [OF assms(1)] assms(2) by (simp_all add: wait_inv_def)
  have "w \<noteq> CCallback \<and> p \<noteq> PRun \<and> p \<noteq> PSet \<and> (b \<longrightarrow> w = CResult)" if h: "(w, p) \<in> set (handles s)" for w p
  proof -
    note n = none_left [OF P(1,2) h]
    obtain j where "j < length (handles s)" "handles s ! j = (w, p)" using h by (auto simp: in_set_conv_nth)
    then have "b \<longrightarrow> w \<noteq> CEmpty" using P(3) by (auto simp: full_from_def)
    then show ?thesis using n by (cases w) auto
  qed
  then show ?thesis using P(4) by blast
qed

definition producers_done :: "wrange \<Rightarrow> bool" where
  "producers_done s \<longleftrightarrow> (\<forall>h \<in> set (handles s). snd h = PFin)"

fun remaining :: "nat \<Rightarrow> wpc \<Rightarrow> nat" where
  "remaining n (WSet i c) = (n - i) + 2"
| "remaining n (WTimed c) = 1"
| "remaining n (WReset i c r) = (n - i) + 2"
| "remaining n (WWait r) = 1"
| "remaining n (WRet b) = 0"

lemma done_words:
  assumes "wait_inv s" "producers_done s" "i < length (handles s)"
  shows "handles s ! i = (CResult, PFin)"
proof -
  have "handles s ! i \<in> set (handles s)" using assms(3) by simp
  then have "snd (handles s ! i) = PFin" "snd (handles s ! i) = PPending \<longleftrightarrow> fst (handles s ! i) \<noteq> CResult"
    using assms(1,2) unfolding wait_inv_def producers_done_def by blast+
  then show ?thesis by (simp add: prod_eq_iff)
qed

lemma done_sums:
  assumes "wait_inv s" "producers_done s"
  shows "outstanding s = 0" "setters s = 0"
proof -
  have "h = (CResult, PFin)" if "h \<in> set (handles s)" for h
    using done_words [OF assms] that by (auto simp: in_set_conv_nth)
  then have "held h = 0" "setting h = 0" if "h \<in> set (handles s)" for h using that by (metis held.simps setting.simps
      wprod.distinct cword.distinct of_bool_eq(1) add_0)+
  then show "outstanding s = 0" "setters s = 0" by (auto simp: sum_list_eq_0_iff)
qed

lemma done_set:
  assumes "wait_inv s" "producers_done s" "cnt_ok False c 0 s" "0 < c"
  shows "wset s"
proof -
  have "nums_ok single n 0 0 d k False c 0 \<Longrightarrow> d" for single n d k
    using assms(4) by (cases d) (auto simp: nums_ok_def split: if_splits)
  then show ?thesis using assms(3) unfolding cnt_ok_def done_sums [OF assms(1,2)] by blast
qed

lemma done_turn:
  assumes I: "wait_inv s" and d: "producers_done s" and r: "\<forall>b. wpc s \<noteq> WRet b"
  shows "remaining (length (handles s)) (wpc (WaitRange e s)) < remaining (length (handles s)) (wpc s)
    \<and> handles (WaitRange e s) = handles s"
proof (cases "wpc s")
  case (WSet i c)
  then show ?thesis using done_words [OF I d, of i]
    by (auto simp: WaitRange_def Let_def handle_SetCallback_def Event_SubEqual_def split: if_splits)
next
  case (WReset i c k)
  then show ?thesis using done_words [OF I d, of i]
    by (auto simp: WaitRange_def Let_def handle_Reset_def Event_SubEqual_def split: if_splits)
next
  case (WTimed c)
  then have "cnt_ok False c 0 s" "0 < c" using I by (simp_all add: wait_inv_def)
  then have "wset s" by (rule done_set [OF I d])
  then show ?thesis using WTimed by (simp add: WaitRange_def)
next
  case (WWait k)
  then have "wset s" using done_set [OF I d] I by (auto simp: wait_inv_def)
  then show ?thesis using WWait by (simp add: WaitRange_def)
next
  case (WRet b)
  then show ?thesis using r by simp
qed

text \<open>
  C16: waiting ends: once the producers are done, the waiter returns after at most \<open>n + 2\<close> of its own
  steps, wherever it is and whatever the clock says.
\<close>

theorem wait_returns:
  assumes "wait_reach s" "producers_done s"
  shows "\<exists>k \<le> length (handles s) + 2. \<exists>b. wpc ((WaitRange e ^^ k) s) = WRet b"
proof -
  have "\<exists>k \<le> m. \<exists>b. wpc ((WaitRange e ^^ k) s) = WRet b"
    if "remaining (length (handles s)) (wpc s) \<le> m" "wait_inv s" "producers_done s" for m s
    using that
  proof (induction m arbitrary: s)
    case 0
    then show ?case by (cases "wpc s") auto
  next
    case (Suc m)
    show ?case
    proof (cases "\<exists>b. wpc s = WRet b")
      case True
      then show ?thesis by (intro exI [of _ 0]) simp
    next
      case False
      let ?t = "WaitRange e s"
      have t: "remaining (length (handles s)) (wpc ?t) < remaining (length (handles s)) (wpc s)" "handles ?t = handles s"
        using done_turn [OF Suc.prems(2,3)] False by blast+
      then obtain k b where "k \<le> m" "wpc ((WaitRange e ^^ k) ?t) = WRet b"
        using Suc.IH [of ?t] inv_turn [OF Suc.prems(2)] Suc.prems(1,3) by (auto simp: producers_done_def)
      then show ?thesis by (intro exI [of _ "Suc k"]) (simp add: funpow_swap1)
    qed
  qed
  moreover have "remaining (length (handles s)) (wpc s) \<le> length (handles s) + 2" by (cases "wpc s") auto
  ultimately show ?thesis using wait_reach_inv [OF assms(1)] assms(2) by blast
qed

text \<open>Two futures, one ready and one late: the timed wait takes the late callback back.\<close>

definition wait_demo :: wrange where
  "wait_demo = WaitRange True (WaitRange True (WaitRange True (WaitRange True (WaitRange True (WaitRange True
     (WaitRange True (produce 0 (WaitCore True 2))))))))"

lemma wait_demo_value:
  "wait_demo = \<lparr>handles = [(CResult, PFin), (CEmpty, PPending)], wcnt = 1, wset = False, timed = True, wpc = WRet False\<rparr>"
proof -
  have r: "replicate 2 (CEmpty, PPending) = [(CEmpty, PPending), (CEmpty, PPending)]" by (simp add: numeral_2_eq_2)
  show ?thesis
    by (simp add: wait_demo_def WaitCore_def r produce_def WaitRange_def Let_def handle_SetCallback_def handle_Reset_def
      Event_SubEqual_def one_def put_word_def)
qed

lemma wait_demo_reach: "wait_reach wait_demo"
  unfolding wait_demo_def by (intro wait_turn wait_prod wait_init) (simp_all add: WaitCore_def)

theorem wait_event_safe_witness: "wait_reach wait_demo \<and> wpc wait_demo = WRet False \<and> timed wait_demo"
proof -
  have "wpc wait_demo = WRet False" by (simp add: wait_demo_value)
  then show ?thesis using wait_event_safe [OF wait_demo_reach] wait_demo_reach by blast
qed

theorem wait_returns_witness:
  "\<exists>k \<le> 3. \<exists>b. wpc ((WaitRange False ^^ k) (produce 0 (WaitCore False 1))) = WRet b"
proof -
  have "wait_reach (produce 0 (WaitCore False 1))" by (intro wait_prod wait_init) (simp_all add: WaitCore_def)
  moreover have "producers_done (produce 0 (WaitCore False 1))" by (simp add: producers_done_def produce_def WaitCore_def)
  moreover have "length (handles (produce 0 (WaitCore False 1))) = 1" by (simp add: produce_def WaitCore_def)
  moreover have "(1 :: nat) + 2 = 3" by simp
  ultimately show ?thesis using wait_returns [of "produce 0 (WaitCore False 1)" False] by metis
qed

end
