(* ===== verification/WaitGroups.thy ===== *)
theory WaitGroups
  imports Prelude
begin

section \<open>WaitGroup\<close>

text \<open>
  \<open>include/yaclib/algo/wait_group.hpp\<close> with the callbacks of \<open>algo/detail/wait_event.hpp\<close>. A counter
  stands for the operations that were added and not done; futures are attached or consumed by any
  number of threads while their producers finish; the thread that brings the counter to zero calls
  \<open>Set\<close> of the event (\<open>SetDeleter\<close>), which is \<open>OneShot\<close>. A step is one access to a callback word, to
  the counter, or to the reference of a consumed core. \<open>Add\<close> is allowed while the event is not set.
  The counter is the \<open>std::size_t\<close> of \<open>util/detail/atomic_counter.hpp\<close>, whose additions wrap.
\<close>

datatype gword = GEmpty | GCall | GDrop | GResult

text \<open>A producer: before the exchange; in \<open>DropCallback\<close>; before \<open>Sub(1)\<close>; done.\<close>

datatype gprod = PPending | PDrop | PSub | PFin

text \<open>A thread in \<open>InsertRange\<close>: \<open>NeedMove\<close>, the futures that are left, \<open>count\<close> and \<open>wait_count\<close>.\<close>

datatype inserter = IIdle | IRange bool "nat list" nat nat

text \<open>
  \<open>gcount\<close> is the counter. What follows it is not in the code: the explicit additions that are not
  done, the futures, the inserting threads, the calls of \<open>Set\<close>, whether something was added and
  whether an addition has wrapped the counter, and the futures that were given, consumed and freed.
\<close>

record wgroup =
  gcount :: "64 word"
  tickets :: nat
  gcores :: "(gword \<times> gprod) list"
  inserters :: "inserter list"
  gsets :: nat
  gadded :: bool
  gwrapped :: bool
  ginserted :: "nat list"
  gmoved :: "nat list"
  gfreed :: "nat list"

definition WaitGroup_new :: "64 word \<Rightarrow> nat \<Rightarrow> nat \<Rightarrow> wgroup" where
  "WaitGroup_new k futures threads = \<lparr>gcount = k, tickets = unat k,
     gcores = replicate futures (GEmpty, PPending), inserters = replicate threads IIdle, gsets = 0, gadded = (k \<noteq> 0), gwrapped = False,
     ginserted = [], gmoved = [], gfreed = []\<rparr>"

text \<open>\<open>AtomicCounter::Add\<close> is a \<open>fetch_add\<close>; \<open>Sub\<close> is \<open>SubEqual\<close>, a \<open>fetch_sub\<close> whose old value is compared.\<close>

definition WaitGroup_Add :: "64 word \<Rightarrow> wgroup \<Rightarrow> wgroup" where
  "WaitGroup_Add k g = g\<lparr>gcount := gcount g + k, gadded := gadded g \<or> k \<noteq> 0,
     gwrapped := gwrapped g \<or> 2 ^ 64 \<le> unat (gcount g) + unat k\<rparr>"

definition WaitGroup_Done :: "64 word \<Rightarrow> wgroup \<Rightarrow> wgroup" where
  "WaitGroup_Done k g = g\<lparr>gcount := gcount g - k, gsets := (if gcount g = k then Suc (gsets g) else gsets g)\<rparr>"

text \<open>One future of the range: \<open>SetCallback\<close>, and the release of a consumed core that is ready.\<close>

definition InsertRange_one :: "bool \<Rightarrow> nat \<Rightarrow> wgroup \<Rightarrow> bool \<times> wgroup" where
  "InsertRange_one move i g =
     (let h = gcores g ! i; g' = g\<lparr>gmoved := (if move then gmoved g @ [i] else gmoved g)\<rparr> in
      if fst h = GEmpty then (True, g'\<lparr>gcores := (gcores g)[i := (if move then GDrop else GCall, snd h)]\<rparr>)
      else (False, if move then g'\<lparr>gfreed := gfreed g @ [i]\<rparr> else g'))"

definition InsertRange_end :: "nat \<Rightarrow> nat \<Rightarrow> wgroup \<Rightarrow> wgroup" where
  "InsertRange_end n wait_count g = (if n = wait_count then g else WaitGroup_Done (word_of_nat (n - wait_count)) g)"

text \<open>The producer's exchange, \<open>DropCallback\<close> (which falls through to the call), and \<open>CallCallback\<close>.\<close>

definition group_produce :: "nat \<Rightarrow> wgroup \<Rightarrow> wgroup" where
  "group_produce i g = (case gcores g ! i of
     (w, PPending) \<Rightarrow> g\<lparr>gcores := (gcores g)[i := (GResult, case w of GCall \<Rightarrow> PSub | GDrop \<Rightarrow> PDrop | _ \<Rightarrow> PFin)]\<rparr>
   | (w, PDrop) \<Rightarrow> g\<lparr>gcores := (gcores g)[i := (w, PSub)], gfreed := gfreed g @ [i]\<rparr>
   | (w, PSub) \<Rightarrow> WaitGroup_Done 1 (g\<lparr>gcores := (gcores g)[i := (w, PFin)]\<rparr>)
   | (w, PFin) \<Rightarrow> g)"

definition group_idle :: "wgroup \<Rightarrow> bool" where
  "group_idle g \<longleftrightarrow> tickets g = 0 \<and> set (inserters g) \<subseteq> {IIdle}
     \<and> (\<forall>i \<in> set (ginserted g). gcores g ! i = (GResult, PFin))"

definition WaitGroup_Reset :: "64 word \<Rightarrow> wgroup \<Rightarrow> wgroup" where
  "WaitGroup_Reset k g = g\<lparr>gcount := k, tickets := unat k, gsets := 0, gadded := k \<noteq> 0\<rparr>"

inductive group_step :: "wgroup \<Rightarrow> wgroup \<Rightarrow> bool" where
  g_add: "gsets g = 0 \<Longrightarrow> group_step g (WaitGroup_Add k (g\<lparr>tickets := tickets g + unat k\<rparr>))"
| g_done: "k \<noteq> 0 \<Longrightarrow> unat k \<le> tickets g \<Longrightarrow> group_step g (WaitGroup_Done k (g\<lparr>tickets := tickets g - unat k\<rparr>))"
| g_insert: "t < length (inserters g) \<Longrightarrow> inserters g ! t = IIdle \<Longrightarrow> is \<noteq> [] \<Longrightarrow>
     distinct (ginserted g @ is) \<Longrightarrow> set is \<subseteq> {..<length (gcores g)} \<Longrightarrow> length is < 2 ^ 64 \<Longrightarrow> gsets g = 0 \<Longrightarrow>
     group_step g (WaitGroup_Add (word_of_nat (length is)) (g\<lparr>inserters := (inserters g)[t := IRange move is (length is) 0],
       ginserted := ginserted g @ is\<rparr>))"
| g_insert_noadd: "t < length (inserters g) \<Longrightarrow> inserters g ! t = IIdle \<Longrightarrow> is \<noteq> [] \<Longrightarrow>
     distinct (ginserted g @ is) \<Longrightarrow> set is \<subseteq> {..<length (gcores g)} \<Longrightarrow> length is < 2 ^ 64 \<Longrightarrow> length is \<le> tickets g \<Longrightarrow>
     group_step g (g\<lparr>inserters := (inserters g)[t := IRange move is (length is) 0],
       ginserted := ginserted g @ is, tickets := tickets g - length is\<rparr>)"
| g_one: "t < length (inserters g) \<Longrightarrow> inserters g ! t = IRange move (i # is) n c \<Longrightarrow>
     InsertRange_one move i g = (ok, g') \<Longrightarrow>
     group_step g (g'\<lparr>inserters := (inserters g)[t := IRange move is n (if ok then Suc c else c)]\<rparr>)"
| g_end: "t < length (inserters g) \<Longrightarrow> inserters g ! t = IRange move [] n c \<Longrightarrow>
     group_step g (InsertRange_end n c (g\<lparr>inserters := (inserters g)[t := IIdle]\<rparr>))"
| g_produce: "i < length (gcores g) \<Longrightarrow> group_step g (group_produce i g)"
| g_reset: "gcount g = 0 \<Longrightarrow> group_idle g \<Longrightarrow> group_step g (WaitGroup_Reset k g)"

inductive group_reach :: "wgroup \<Rightarrow> bool" where
  group_init: "group_reach (WaitGroup_new k futures threads)"
| group_next: "group_reach g \<Longrightarrow> group_step g g' \<Longrightarrow> group_reach g'"

subsection \<open>The invariant\<close>

fun gheld :: "gword \<times> gprod \<Rightarrow> nat" where
  "gheld (w, p) = of_bool (w = GCall \<or> w = GDrop) + of_bool (p = PDrop \<or> p = PSub)"

fun owed :: "inserter \<Rightarrow> nat" where
  "owed IIdle = 0"
| "owed (IRange move is n c) = n - c"

fun visits :: "inserter \<Rightarrow> nat multiset" where
  "visits IIdle = {#}"
| "visits (IRange move is n c) = mset is"

fun inserter_ok :: "inserter \<Rightarrow> bool" where
  "inserter_ok IIdle = True"
| "inserter_ok (IRange move is n c) = (c + length is \<le> n)"

definition gtotal :: "wgroup \<Rightarrow> nat" where
  "gtotal g = tickets g + sum_list (map owed (inserters g)) + sum_list (map gheld (gcores g))"

definition count_ok :: "wgroup \<Rightarrow> bool" where
  "count_ok g \<longleftrightarrow> (\<not> gwrapped g \<longrightarrow> unat (gcount g) = gtotal g
     \<and> gsets g = of_bool (gadded g \<and> gcount g = 0) \<and> (0 < gtotal g \<longrightarrow> gadded g))"

fun gcore_ok :: "gword \<times> gprod \<Rightarrow> bool" where
  "gcore_ok (w, p) = (p = PPending \<longleftrightarrow> w \<noteq> GResult)"

text \<open>
  One future: its word and producer, whether it was given to the group, still waits for its
  \<open>SetCallback\<close>, was consumed, and was freed.
\<close>

fun future_ok :: "gword \<Rightarrow> gprod \<Rightarrow> bool \<Rightarrow> bool \<Rightarrow> bool \<Rightarrow> bool \<Rightarrow> bool" where
  "future_ok w p ins vis mov fre \<longleftrightarrow>
     (p, w) \<in> {(PPending, GEmpty), (PPending, GCall), (PPending, GDrop), (PDrop, GResult), (PSub, GResult), (PFin, GResult)}
     \<and> (fre = (mov \<and> w = GResult \<and> p \<noteq> PDrop)) \<and> (w = GDrop \<or> p = PDrop \<longrightarrow> mov)
     \<and> (ins \<and> w = GEmpty \<longrightarrow> vis) \<and> (gheld (w, p) \<noteq> 0 \<longrightarrow> ins \<and> \<not> vis) \<and> (vis \<longrightarrow> \<not> mov)
     \<and> (mov \<longrightarrow> w = GDrop \<or> w = GResult)"

abbreviation to_visit :: "wgroup \<Rightarrow> nat multiset" where
  "to_visit g \<equiv> sum_list (map visits (inserters g))"

abbreviation future_at :: "wgroup \<Rightarrow> nat \<Rightarrow> bool" where
  "future_at g i \<equiv> future_ok (fst (gcores g ! i)) (snd (gcores g ! i)) (i \<in> set (ginserted g)) (i \<in># to_visit g)
     (i \<in> set (gmoved g)) (i \<in> set (gfreed g))"

definition lives_ok :: "wgroup \<Rightarrow> bool" where
  "lives_ok g \<longleftrightarrow> (\<forall>i < length (gcores g). future_at g i) \<and> distinct (gfreed g) \<and> distinct (ginserted g)
     \<and> mset (gmoved g) + to_visit g \<subseteq># mset (ginserted g) \<and> set (ginserted g) \<subseteq> {..<length (gcores g)}"

definition group_inv :: "wgroup \<Rightarrow> bool" where
  "group_inv g \<longleftrightarrow> count_ok g \<and> lives_ok g \<and> (\<forall>t \<in> set (inserters g). inserter_ok t)"

lemma owed_step:
  "t < length ts \<Longrightarrow> sum_list (map owed (ts[t := x])) + owed (ts ! t) = sum_list (map owed ts) + owed x"
  by (rule sum_list_step)

lemma gheld_step:
  "t < length ts \<Longrightarrow> sum_list (map gheld (ts[t := x])) + gheld (ts ! t) = sum_list (map gheld ts) + gheld x"
  by (rule sum_list_step)

lemma visits_step:
  "t < length ts \<Longrightarrow> sum_list (map visits (ts[t := x])) + visits (ts ! t) = sum_list (map visits ts) + visits x"
  by (rule sum_list_step)

lemma count_ok_Add:
  assumes "count_ok g0" "gsets g0 = 0" "gtotal g = gtotal g0 + unat k" "gcount g = gcount g0" "gsets g = gsets g0"
    "gadded g = gadded g0" "gwrapped g = gwrapped g0"
  shows "count_ok (WaitGroup_Add k g)"
proof -
  have t: "gtotal (WaitGroup_Add k g) = gtotal g" by (simp add: gtotal_def WaitGroup_Add_def)
  show ?thesis
  proof (cases "gwrapped g \<or> 2 ^ 64 \<le> unat (gcount g) + unat k")
    case True
    then show ?thesis by (auto simp: count_ok_def WaitGroup_Add_def)
  next
    case False
    then have u: "unat (gcount g + k) = unat (gcount g) + unat k" by (subst unat_plus_if') simp
    have z: "gcount g + k = 0 \<longleftrightarrow> gcount g = 0 \<and> k = 0"
      unfolding unat_eq_zero [symmetric] u by simp
    have k: "0 < unat k \<longleftrightarrow> k \<noteq> 0" by (simp add: unat_gt_0)
    show ?thesis using False assms u z k unfolding count_ok_def t
      by (auto simp: WaitGroup_Add_def split: if_splits)
  qed
qed

lemma count_ok_Done:
  assumes "count_ok g0" "gtotal g + unat k = gtotal g0" "k \<noteq> 0" "gcount g = gcount g0" "gsets g = gsets g0"
    "gadded g = gadded g0" "gwrapped g = gwrapped g0"
  shows "count_ok (WaitGroup_Done k g)"
proof -
  have t: "gtotal (WaitGroup_Done k g) = gtotal g" by (simp add: gtotal_def WaitGroup_Done_def)
  show ?thesis
  proof (cases "gwrapped g")
    case True
    then show ?thesis by (simp add: count_ok_def WaitGroup_Done_def)
  next
    case False
    then have C: "unat (gcount g) = gtotal g + unat k" "gsets g = of_bool (gadded g \<and> gcount g = 0)"
        "0 < gtotal g + unat k \<longrightarrow> gadded g"
      using assms by (simp_all add: count_ok_def)
    have k: "0 < unat k" using assms(3) by (simp add: unat_gt_0)
    have u: "unat (gcount g - k) = gtotal g"
      using C(1) by (subst unat_sub) (simp_all add: word_le_nat_alt)
    have z: "gcount g - k = 0 \<longleftrightarrow> gcount g = k" by simp
    have s: "gadded g" "gsets g = 0" using C k by (auto simp: unat_eq_zero)
    show ?thesis using False u z s unfolding count_ok_def t by (simp add: WaitGroup_Done_def)
  qed
qed

lemma count_ok_same:
  assumes "count_ok g" "gtotal g' = gtotal g" "gcount g' = gcount g" "gsets g' = gsets g" "gadded g' = gadded g"
    "gwrapped g' = gwrapped g"
  shows "count_ok g'"
  using assms by (simp add: count_ok_def)

lemma unat_of_size: "n < 2 ^ 64 \<Longrightarrow> unat (word_of_nat n :: 64 word) = n"
  by (simp add: unat_of_nat take_bit_nat_eq_self)

lemma count_lt: "count_ok g \<Longrightarrow> \<not> gwrapped g \<Longrightarrow> gtotal g < 2 ^ 64"
proof -
  assume "count_ok g" "\<not> gwrapped g"
  moreover have "unat (gcount g) < 2 ^ LENGTH(64)" by (rule unsigned_less)
  ultimately show ?thesis by (simp add: count_ok_def)
qed

lemma future_held: "future_ok w p ins vis mov fre \<Longrightarrow> vis \<Longrightarrow> (w, p) = (GEmpty, PPending) \<or> (w, p) = (GResult, PFin)"
  by (elim future_ok.elims(2)) auto

lemma lives_same:
  assumes "lives_ok g" "gcores g' = gcores g" "to_visit g' = to_visit g" "ginserted g' = ginserted g" "gmoved g' = gmoved g"
    "gfreed g' = gfreed g"
  shows "lives_ok g'"
  using assms unfolding lives_ok_def by simp

lemma lives_insert:
  assumes L: "lives_ok g" and t: "to_visit g' = to_visit g + mset is" and g': "gcores g' = gcores g"
    "ginserted g' = ginserted g @ is" "gmoved g' = gmoved g" "gfreed g' = gfreed g"
    and d: "distinct (ginserted g @ is)" "set is \<subseteq> {..<length (gcores g)}"
  shows "lives_ok g'"
proof -
  have sub: "mset (gmoved g) + to_visit g \<subseteq># mset (ginserted g)" using L by (simp add: lives_ok_def)
  have "set_mset (mset (gmoved g) + to_visit g) \<subseteq> set_mset (mset (ginserted g))" by (rule set_mset_mono [OF sub])
  then have mi: "set (gmoved g) \<subseteq> set (ginserted g)" and vi: "\<And>i. i \<in># to_visit g \<Longrightarrow> i \<in> set (ginserted g)" by auto
  have "future_at g' i" if i: "i < length (gcores g)" for i
  proof -
    have F: "future_at g i" using L i by (simp add: lives_ok_def)
    show ?thesis
    proof (cases "i \<in> set is")
      case True
      then have n: "i \<notin> set (ginserted g)" using d(1) by auto
      then have "i \<notin> set (gmoved g)" using mi by blast
      then show ?thesis using F True n by (auto simp: t g')
    next
      case False
      then show ?thesis using F by (simp add: t g')
    qed
  qed
  moreover have "mset (gmoved g') + to_visit g' \<subseteq># mset (ginserted g')"
    using subset_mset.add_mono [OF sub, of "mset is" "mset is"] by (simp add: t g' add.assoc)
  ultimately show ?thesis using L d by (auto simp: lives_ok_def g')
qed

lemma inv_g_insert:
  assumes I: "group_inv g" and t: "t < length (inserters g)" "inserters g ! t = IIdle"
    and d: "distinct (ginserted g @ is)" "set is \<subseteq> {..<length (gcores g)}" and n: "length is < 2 ^ 64" and z: "gsets g = 0"
  shows "group_inv (WaitGroup_Add (word_of_nat (length is)) (g\<lparr>inserters := (inserters g)[t := IRange move is (length is) 0],
       ginserted := ginserted g @ is\<rparr>))" (is "group_inv (WaitGroup_Add _ ?u)")
proof -
  have v: "to_visit ?u = to_visit g + mset is" using visits_step [OF t(1), of "IRange move is (length is) 0"] t(2) by simp
  have o: "gtotal ?u = gtotal g + unat (word_of_nat (length is) :: 64 word)"
    unfolding unat_of_size [OF n] using owed_step [OF t(1), of "IRange move is (length is) 0"] t(2) by (simp add: gtotal_def)
  have "lives_ok ?u" by (rule lives_insert [OF _ v]) (use I d in \<open>simp_all add: group_inv_def\<close>)
  then have "lives_ok (WaitGroup_Add (word_of_nat (length is)) ?u)" by (rule lives_same) (simp_all add: WaitGroup_Add_def)
  moreover have "count_ok (WaitGroup_Add (word_of_nat (length is)) ?u)"
    by (rule count_ok_Add [of g, OF _ z o]) (use I in \<open>simp_all add: group_inv_def\<close>)
  moreover have "\<forall>y \<in> set ((inserters g)[t := IRange move is (length is) 0]). inserter_ok y"
    by (rule ball_updateI) (use I in \<open>simp_all add: group_inv_def\<close>)
  ultimately show ?thesis by (simp add: group_inv_def WaitGroup_Add_def)
qed

lemma inv_g_insert_noadd:
  assumes I: "group_inv g" and t: "t < length (inserters g)" "inserters g ! t = IIdle"
    and d: "distinct (ginserted g @ is)" "set is \<subseteq> {..<length (gcores g)}" and z: "length is \<le> tickets g"
  shows "group_inv (g\<lparr>inserters := (inserters g)[t := IRange move is (length is) 0],
       ginserted := ginserted g @ is, tickets := tickets g - length is\<rparr>)" (is "group_inv ?u")
proof -
  have v: "to_visit ?u = to_visit g + mset is" using visits_step [OF t(1), of "IRange move is (length is) 0"] t(2) by simp
  have o: "gtotal ?u = gtotal g"
    using owed_step [OF t(1), of "IRange move is (length is) 0"] t(2) z by (simp add: gtotal_def)
  have "lives_ok ?u" by (rule lives_insert [OF _ v]) (use I d in \<open>simp_all add: group_inv_def\<close>)
  moreover have "count_ok ?u" by (rule count_ok_same [OF _ o]) (use I in \<open>simp_all add: group_inv_def\<close>)
  moreover have "\<forall>y \<in> set ((inserters g)[t := IRange move is (length is) 0]). inserter_ok y"
    by (rule ball_updateI) (use I in \<open>simp_all add: group_inv_def\<close>)
  ultimately show ?thesis by (simp add: group_inv_def)
qed

text \<open>A step that changes future \<open>i\<close> only.\<close>

lemma lives_one:
  assumes L: "lives_ok g" and i: "i < length (gcores g)"
    and g': "gcores g' = (gcores g)[i := (w, p)]" "ginserted g' = ginserted g"
    and F: "future_ok w p (i \<in> set (ginserted g)) (i \<in># to_visit g') (i \<in> set (gmoved g')) (i \<in> set (gfreed g'))"
    and o: "\<And>j. j \<noteq> i \<Longrightarrow> (j \<in># to_visit g') = (j \<in># to_visit g) \<and> (j \<in> set (gmoved g')) = (j \<in> set (gmoved g))
      \<and> (j \<in> set (gfreed g')) = (j \<in> set (gfreed g))"
    and d: "distinct (gfreed g')" "mset (gmoved g') + to_visit g' \<subseteq># mset (ginserted g)"
  shows "lives_ok g'"
proof -
  have "future_at g' j" if "j < length (gcores g)" for j
  proof (cases "j = i")
    case True
    then show ?thesis using F i by (simp add: g')
  next
    case False
    then show ?thesis using o [OF False] L that by (simp add: lives_ok_def g')
  qed
  then show ?thesis using L d by (simp add: lives_ok_def g')
qed

lemma inv_g_one:
  assumes I: "group_inv g" and t: "t < length (inserters g)" "inserters g ! t = IRange move (i # is) n c"
    and r: "InsertRange_one move i g = (ok, g')"
  shows "group_inv (g'\<lparr>inserters := (inserters g)[t := IRange move is n (if ok then Suc c else c)]\<rparr>)" (is "group_inv ?u")
proof -
  let ?x = "IRange move is n (if ok then Suc c else c)"
  have L: "lives_ok g" and C: "count_ok g" using I by (simp_all add: group_inv_def)
  have V: "sum_list (map visits ((inserters g)[t := ?x])) + {#i#} = to_visit g"
    using visits_step [OF t(1), of ?x] t(2) by simp
  have sub: "mset (gmoved g) + to_visit g \<subseteq># mset (ginserted g)" using L by (simp add: lives_ok_def)
  have ii: "i \<in># to_visit g" using V by (metis union_single_eq_member add_mset_add_single)
  have ins: "i \<in> set (ginserted g)" using mset_subset_eqD [OF sub, of i] ii by simp
  then have il: "i < length (gcores g)" using L by (auto simp: lives_ok_def)
  have F: "future_at g i" using L il by (simp add: lives_ok_def)
  have "count (mset (ginserted g)) i \<le> 1" using L by (simp add: lives_ok_def distinct_count_atmost_1)
  moreover have "count (mset (gmoved g) + to_visit g) i \<le> count (mset (ginserted g)) i" by (rule mset_subset_eq_count [OF sub])
  ultimately have "count (sum_list (map visits ((inserters g)[t := ?x]))) i = 0" unfolding V [symmetric] by simp
  then have nv: "i \<notin># sum_list (map visits ((inserters g)[t := ?x]))" by (simp add: count_eq_zero_iff)
  have vo: "j \<noteq> i \<Longrightarrow> (j \<in># sum_list (map visits ((inserters g)[t := ?x]))) = (j \<in># to_visit g)" for j
    unfolding V [symmetric] by simp
  have nm: "i \<notin> set (gmoved g)" using F ii by simp
  have ln: "Suc (c + length is) \<le> n" using I t nth_mem [OF t(1)] by (fastforce simp: group_inv_def)
  have io: "\<forall>y \<in> set ((inserters g)[t := ?x]). inserter_ok y"
    by (rule ball_updateI) (use I ln in \<open>simp_all add: group_inv_def\<close>)
  have sub': "mset (if move then gmoved g @ [i] else gmoved g) + sum_list (map visits ((inserters g)[t := ?x])) \<subseteq># mset (ginserted g)"
  proof -
    have "mset (gmoved g) + to_visit g = mset (gmoved g) + sum_list (map visits ((inserters g)[t := ?x])) + {#i#}"
      unfolding V [symmetric] by (simp add: ac_simps)
    then have "mset (if move then gmoved g @ [i] else gmoved g) + sum_list (map visits ((inserters g)[t := ?x]))
        \<subseteq># mset (gmoved g) + to_visit g" by (simp add: ac_simps)
    then show ?thesis using sub subset_mset.order_trans by blast
  qed
  obtain w p where wp: "gcores g ! i = (w, p)" by (cases "gcores g ! i")
  consider (set) "ok" "w = GEmpty" "p = PPending"
      "g' = g\<lparr>gmoved := (if move then gmoved g @ [i] else gmoved g), gcores := (gcores g)[i := (if move then GDrop else GCall, p)]\<rparr>"
    | (ready) "\<not> ok" "w = GResult" "p = PFin"
      "g' = g\<lparr>gmoved := (if move then gmoved g @ [i] else gmoved g), gfreed := (if move then gfreed g @ [i] else gfreed g)\<rparr>"
    using r wp future_held [OF F ii] by (auto simp: InsertRange_one_def Let_def split: if_splits)
  then show ?thesis
  proof cases
    case set
    have "lives_ok ?u"
      by (rule lives_one [OF L il, where w = "if move then GDrop else GCall" and p = PPending])
        (use set F nv nm ins vo sub' L wp in \<open>auto simp: lives_ok_def\<close>)
    moreover have "gtotal ?u = gtotal g"
      using owed_step [OF t(1), of ?x] gheld_step [OF il, of "(if move then GDrop else GCall, PPending)"] t(2) set wp ln
      by (simp add: gtotal_def split: if_splits)
    then have "count_ok ?u" by (rule count_ok_same [OF C]) (simp_all add: set)
    ultimately show ?thesis using io by (simp add: group_inv_def)
  next
    case ready
    have nf: "i \<notin> set (gfreed g)" using F nm by simp
    have id: "(gcores g)[i := (GResult, PFin)] = gcores g" using list_update_id [of "gcores g" i] wp ready by simp
    have "lives_ok ?u"
      by (rule lives_one [OF L il, where w = GResult and p = PFin])
        (use ready F nv nm nf ins vo sub' L wp id in \<open>auto simp: lives_ok_def\<close>)
    moreover have "gtotal ?u = gtotal g"
      using owed_step [OF t(1), of ?x] t(2) ready by (simp add: gtotal_def)
    then have "count_ok ?u" by (rule count_ok_same [OF C]) (simp_all add: ready)
    ultimately show ?thesis using io by (simp add: group_inv_def)
  qed
qed


lemma inv_g_end:
  assumes I: "group_inv g" and t: "t < length (inserters g)" "inserters g ! t = IRange move [] n c"
  shows "group_inv (InsertRange_end n c (g\<lparr>inserters := (inserters g)[t := IIdle]\<rparr>))" (is "group_inv (InsertRange_end n c ?u)")
proof -
  have v: "to_visit ?u = to_visit g" using visits_step [OF t(1), of IIdle] t(2) by simp
  have o: "gtotal ?u + (n - c) = gtotal g" using owed_step [OF t(1), of IIdle] t(2) by (simp add: gtotal_def)
  have le: "c \<le> n" using I t nth_mem [OF t(1)] by (fastforce simp: group_inv_def)
  have L: "lives_ok ?u" by (rule lives_same [OF _ _ v]) (use I in \<open>simp_all add: group_inv_def\<close>)
  have io: "\<forall>y \<in> set ((inserters g)[t := IIdle]). inserter_ok y"
    by (rule ball_updateI) (use I in \<open>simp_all add: group_inv_def\<close>)
  show ?thesis
  proof (cases "n = c")
    case True
    have "count_ok ?u" by (rule count_ok_same [of g]) (use I o True in \<open>simp_all add: group_inv_def\<close>)
    then show ?thesis using L io True by (simp add: group_inv_def InsertRange_end_def)
  next
    case False
    let ?k = "word_of_nat (n - c) :: 64 word"
    have "count_ok (WaitGroup_Done ?k ?u)"
    proof (cases "gwrapped g")
      case True
      then show ?thesis by (simp add: count_ok_def WaitGroup_Done_def)
    next
      case False
      have C: "count_ok g" using I by (simp add: group_inv_def)
      have l: "n - c < 2 ^ 64" using count_lt [OF C False] o by linarith
      have k: "unat ?k = n - c" by (rule unat_of_size [OF l])
      have "0 < unat ?k" unfolding k using \<open>n \<noteq> c\<close> le by simp
      then have "?k \<noteq> 0" using unat_gt_0 [of ?k] by blast
      then show ?thesis by (rule count_ok_Done [OF C, rotated]) (use o k in simp_all)
    qed
    moreover have "lives_ok (WaitGroup_Done ?k ?u)" by (rule lives_same [OF L]) (simp_all add: WaitGroup_Done_def)
    ultimately show ?thesis using io False by (simp add: group_inv_def InsertRange_end_def WaitGroup_Done_def)
  qed
qed

lemma inv_g_produce:
  assumes I: "group_inv g" and i: "i < length (gcores g)"
  shows "group_inv (group_produce i g)"
proof -
  have L: "lives_ok g" and C: "count_ok g" and io: "\<forall>y \<in> set (inserters g). inserter_ok y" using I by (simp_all add: group_inv_def)
  have sub: "mset (gmoved g) + to_visit g \<subseteq># mset (ginserted g)" and df: "distinct (gfreed g)" using L by (simp_all add: lives_ok_def)
  obtain w p where wp: "gcores g ! i = (w, p)" by (cases "gcores g ! i")
  have F: "future_ok w p (i \<in> set (ginserted g)) (i \<in># to_visit g) (i \<in> set (gmoved g)) (i \<in> set (gfreed g))"
  proof -
    have "future_at g i" using L i unfolding lives_ok_def by blast
    then show ?thesis by (simp add: wp del: future_ok.simps)
  qed
  show ?thesis
  proof (cases p)
    case PPending
    let ?p = "case w of GCall \<Rightarrow> PSub | GDrop \<Rightarrow> PDrop | _ \<Rightarrow> PFin"
    have eq: "group_produce i g = g\<lparr>gcores := (gcores g)[i := (GResult, ?p)]\<rparr>" using wp PPending by (simp add: group_produce_def)
    have "future_ok GResult ?p (i \<in> set (ginserted g)) (i \<in># to_visit g) (i \<in> set (gmoved g)) (i \<in> set (gfreed g))"
      using F PPending by (cases w) auto
    then have "lives_ok (group_produce i g)"
      unfolding eq by (intro lives_one [OF L i, where w = GResult and p = ?p])
        (use sub df in \<open>simp_all del: future_ok.simps\<close>)
    moreover have "gtotal (group_produce i g) = gtotal g"
      using gheld_step [OF i, of "(GResult, ?p)"] wp PPending F unfolding eq by (cases w) (simp_all add: gtotal_def)
    then have "count_ok (group_produce i g)" by (rule count_ok_same [OF C]) (simp_all add: eq)
    ultimately show ?thesis using io by (simp add: group_inv_def eq)
  next
    case PDrop
    have eq: "group_produce i g = g\<lparr>gcores := (gcores g)[i := (w, PSub)], gfreed := gfreed g @ [i]\<rparr>"
      using wp PDrop by (simp add: group_produce_def)
    have "lives_ok (group_produce i g)"
      unfolding eq by (rule lives_one [OF L i, where w = w and p = PSub]) (use F PDrop sub df in auto)
    moreover have "gtotal (group_produce i g) = gtotal g"
      using gheld_step [OF i, of "(w, PSub)"] wp PDrop unfolding eq by (simp add: gtotal_def)
    then have "count_ok (group_produce i g)" by (rule count_ok_same [OF C]) (simp_all add: eq)
    ultimately show ?thesis using io by (simp add: group_inv_def eq)
  next
    case PSub
    let ?u = "g\<lparr>gcores := (gcores g)[i := (w, PFin)]\<rparr>"
    have eq: "group_produce i g = WaitGroup_Done 1 ?u" using wp PSub by (simp add: group_produce_def)
    have "lives_ok ?u" by (rule lives_one [OF L i, where w = w and p = PFin]) (use F PSub sub df in auto)
    then have "lives_ok (group_produce i g)" unfolding eq by (rule lives_same) (simp_all add: WaitGroup_Done_def)
    moreover have "gtotal ?u + 1 = gtotal g" using gheld_step [OF i, of "(w, PFin)"] wp PSub F by (simp add: gtotal_def)
    then have "gtotal ?u + unat (1 :: 64 word) = gtotal g" by simp
    then have "count_ok (group_produce i g)" unfolding eq by (rule count_ok_Done [OF C]) simp_all
    ultimately show ?thesis using io by (simp add: group_inv_def eq WaitGroup_Done_def)
  next
    case PFin
    then show ?thesis using I wp by (simp add: group_produce_def)
  qed
qed

lemma group_step_inv: "group_step g g' \<Longrightarrow> group_inv g \<Longrightarrow> group_inv g'"
proof (induction rule: group_step.induct)
  case (g_add g k)
  let ?u = "g\<lparr>tickets := tickets g + unat k\<rparr>"
  have "count_ok (WaitGroup_Add k ?u)"
    by (rule count_ok_Add [of g, OF _ g_add(1)]) (use g_add in \<open>simp_all add: group_inv_def gtotal_def\<close>)
  moreover have "lives_ok (WaitGroup_Add k ?u)"
    by (rule lives_same [of g]) (use g_add in \<open>simp_all add: group_inv_def WaitGroup_Add_def\<close>)
  ultimately show ?case using g_add by (simp add: group_inv_def WaitGroup_Add_def)
next
  case (g_done k g)
  let ?u = "g\<lparr>tickets := tickets g - unat k\<rparr>"
  have "count_ok (WaitGroup_Done k ?u)"
    by (rule count_ok_Done [of g, OF _ _ g_done(1)]) (use g_done in \<open>simp_all add: group_inv_def gtotal_def\<close>)
  moreover have "lives_ok (WaitGroup_Done k ?u)"
    by (rule lives_same [of g]) (use g_done in \<open>simp_all add: group_inv_def WaitGroup_Done_def\<close>)
  ultimately show ?case using g_done by (simp add: group_inv_def WaitGroup_Done_def)
next
  case (g_insert t g "is" move)
  then show ?case by (intro inv_g_insert)
next
  case (g_insert_noadd t g "is" move)
  then show ?case by (intro inv_g_insert_noadd)
next
  case (g_one t g move i "is" n c ok g')
  then show ?case by (intro inv_g_one)
next
  case (g_end t g move n c)
  then show ?case by (intro inv_g_end)
next
  case (g_produce i g)
  then show ?case by (intro inv_g_produce)
next
  case (g_reset g k)
  have "count_ok (WaitGroup_Reset k g)"
  proof (cases "gwrapped g")
    case True
    then show ?thesis by (simp add: count_ok_def WaitGroup_Reset_def)
  next
    case False
    then have z: "gtotal g = 0" using g_reset(1,3) by (simp add: group_inv_def count_ok_def)
    then have "gtotal (WaitGroup_Reset k g) = unat k" by (simp add: gtotal_def WaitGroup_Reset_def del: sum_list_eq_0_iff)
    then show ?thesis by (auto simp: count_ok_def WaitGroup_Reset_def unat_gt_0)
  qed
  moreover have "lives_ok (WaitGroup_Reset k g)"
    by (rule lives_same [of g]) (use g_reset in \<open>simp_all add: group_inv_def WaitGroup_Reset_def\<close>)
  ultimately show ?case using g_reset(3) by (simp add: group_inv_def WaitGroup_Reset_def)
qed

lemma group_inv_new: "group_inv (WaitGroup_new k futures threads)"
proof -
  have "sum_list (map gheld (replicate futures (GEmpty, PPending))) = 0" "sum_list (map owed (replicate threads IIdle)) = 0"
    "sum_list (map visits (replicate threads IIdle)) = {#}"
    by (simp_all add: sum_list_replicate_zero sum_list_replicate_empty)
  then show ?thesis
    by (auto simp: group_inv_def WaitGroup_new_def count_ok_def gtotal_def lives_ok_def unat_gt_0 simp del: map_replicate sum_list_eq_0_iff)
qed

lemma group_reach_inv: "group_reach g \<Longrightarrow> group_inv g"
  by (induction rule: group_reach.induct) (simp_all add: group_inv_new group_step_inv)


subsection \<open>The properties\<close>

lemma total_zero:
  assumes "gtotal g = 0"
  shows "tickets g = 0" "t \<in> set (inserters g) \<Longrightarrow> owed t = 0" "h \<in> set (gcores g) \<Longrightarrow> gheld h = 0"
  using assms by (auto simp: gtotal_def)

lemma zero_visits:
  assumes "group_inv g" "gtotal g = 0"
  shows "to_visit g = {#}"
proof -
  have "visits t = {#}" if t: "t \<in> set (inserters g)" for t
  proof -
    have "owed t = 0" by (rule total_zero(2) [OF assms(2) t])
    moreover have "inserter_ok t" using assms(1) t by (simp add: group_inv_def)
    ultimately show ?thesis by (cases t) (auto simp flip: length_0_conv)
  qed
  then show ?thesis by (simp cong: map_cong)
qed

lemma zero_future:
  assumes "group_inv g" "gtotal g = 0" "i \<in> set (ginserted g)"
  shows "gcores g ! i = (GResult, PFin)" "i \<in> set (gmoved g) \<longleftrightarrow> i \<in> set (gfreed g)"
proof -
  have L: "lives_ok g" using assms(1) by (simp add: group_inv_def)
  then have il: "i < length (gcores g)" using assms(3) by (auto simp: lives_ok_def)
  obtain w p where wp: "gcores g ! i = (w, p)" by (cases "gcores g ! i")
  have F: "future_ok w p True False (i \<in> set (gmoved g)) (i \<in> set (gfreed g))"
  proof -
    have "future_at g i" using L il unfolding lives_ok_def by blast
    then show ?thesis using assms(3) zero_visits [OF assms(1,2)] wp by (simp del: future_ok.simps)
  qed
  have "gheld (w, p) = 0" using total_zero(3) [OF assms(2)] nth_mem [OF il] wp by metis
  then have "w = GResult \<and> p = PFin" using F by auto
  then show "gcores g ! i = (GResult, PFin)" "i \<in> set (gmoved g) \<longleftrightarrow> i \<in> set (gfreed g)" using wp F by auto
qed

text \<open>
  C17: a \<open>WaitGroup\<close> counts exactly, as long as no addition has wrapped its 64-bit counter. For any
  number of threads and futures, the counter is the number of explicit additions not yet done, plus the
  futures that inserting threads still owe, plus the callbacks that are attached or running; no
  subtraction wraps it; the event is set at most once between resets, only when all of these are gone
  and every future that was given to the group is ready and has run its callback, and as soon as that
  is so, if something was added since the last reset.
\<close>

theorem wait_group_exact:
  assumes "group_reach g" and "\<not> gwrapped g"
  shows "unat (gcount g) = gtotal g \<and> gsets g \<le> 1
    \<and> (gsets g = 1 \<longrightarrow> tickets g = 0 \<and> (\<forall>i \<in> set (ginserted g). gcores g ! i = (GResult, PFin)))
    \<and> (gadded g \<and> group_idle g \<longrightarrow> gsets g = 1)"
proof -
  have I: "group_inv g" by (rule group_reach_inv [OF assms(1)])
  then have C: "unat (gcount g) = gtotal g" "gsets g = of_bool (gadded g \<and> gtotal g = 0)"
    using assms(2) unat_eq_zero [of "gcount g"] by (auto simp: group_inv_def count_ok_def)
  have "gtotal g = 0" if q: "group_idle g"
  proof -
    have "gheld h = 0" if h: "h \<in> set (gcores g)" for h
    proof -
      obtain i where i: "i < length (gcores g)" "gcores g ! i = h" using h by (auto simp: in_set_conv_nth)
      show ?thesis
      proof (cases "i \<in> set (ginserted g)")
        case True
        then show ?thesis using q i by (auto simp: group_idle_def)
      next
        case False
        then have "future_ok (fst h) (snd h) False (i \<in># to_visit g) (i \<in> set (gmoved g)) (i \<in> set (gfreed g))"
          using I i by (auto simp: group_inv_def lives_ok_def simp del: future_ok.simps)
        then show ?thesis by simp
      qed
    qed
    moreover have "owed t = 0" if "t \<in> set (inserters g)" for t using q that by (auto simp: group_idle_def)
    ultimately show ?thesis using q by (simp add: gtotal_def group_idle_def)
  qed
  moreover have "tickets g = 0 \<and> (\<forall>i \<in> set (ginserted g). gcores g ! i = (GResult, PFin))" if "gtotal g = 0"
    using total_zero(1) [OF that] zero_future(1) [OF I that] by blast
  ultimately show ?thesis using C by auto
qed

text \<open>One future is consumed before it is ready.\<close>

abbreviation group_demo where
  "group_demo n h t s fr \<equiv> \<lparr>gcount = n, tickets = 0, gcores = [h], inserters = [t], gsets = s, gadded = True, gwrapped = False,
     ginserted = [0], gmoved = [0], gfreed = fr\<rparr>"

lemma group_demo_reach: "group_reach (group_demo 0 (GResult, PFin) IIdle 1 [0])"
proof -
  let ?n = "WaitGroup_new 0 1 1"
  have "group_reach ?n" by (rule group_init)
  then have "group_reach (group_demo 1 (GEmpty, PPending) (IRange True [0] 1 0) 0 []\<lparr>gmoved := []\<rparr>)"
    by (rule group_next) (use g_insert [of 0 ?n "[0]" True] in \<open>simp add: WaitGroup_new_def WaitGroup_Add_def\<close>)
  then have "group_reach (group_demo 1 (GDrop, PPending) (IRange True [] 1 1) 0 [])"
    by (rule group_next) (use g_one [of 0 "group_demo 1 (GEmpty, PPending) (IRange True [0] 1 0) 0 []\<lparr>gmoved := []\<rparr>" True 0 "[]" 1 0]
      in \<open>simp add: InsertRange_one_def Let_def\<close>)
  then have "group_reach (group_demo 1 (GDrop, PPending) IIdle 0 [])"
    by (rule group_next) (use g_end [of 0 "group_demo 1 (GDrop, PPending) (IRange True [] 1 1) 0 []" True 1 1]
      in \<open>simp add: InsertRange_end_def\<close>)
  then have "group_reach (group_demo 1 (GResult, PDrop) IIdle 0 [])"
    by (rule group_next) (use g_produce [of 0 "group_demo 1 (GDrop, PPending) IIdle 0 []"] in \<open>simp add: group_produce_def\<close>)
  then have "group_reach (group_demo 1 (GResult, PSub) IIdle 0 [0])"
    by (rule group_next) (use g_produce [of 0 "group_demo 1 (GResult, PDrop) IIdle 0 []"] in \<open>simp add: group_produce_def\<close>)
  then show ?thesis
    by (rule group_next) (use g_produce [of 0 "group_demo 1 (GResult, PSub) IIdle 0 [0]"]
      in \<open>simp add: group_produce_def WaitGroup_Done_def\<close>)
qed

theorem wait_group_exact_witness:
  "\<exists>g. group_reach g \<and> gsets g = 1 \<and> ginserted g = [0] \<and> gcores g ! 0 = (GResult, PFin)"
proof -
  let ?g = "group_demo 0 (GResult, PFin) IIdle 1 [0]"
  have "\<forall>i \<in> set (ginserted ?g). gcores ?g ! i = (GResult, PFin)"
    using wait_group_exact [OF group_demo_reach] by simp
  then show ?thesis using group_demo_reach by (intro exI [of _ ?g]) simp
qed

text \<open>
  C35: Consumed futures are released exactly once: a core is freed at most once, only if it was consumed, has its result, and after its
  producer left it; and when the event is set, and no addition has wrapped the counter, every consumed core has been freed.
\<close>

theorem consumed_freed_once:
  assumes "group_reach g"
  shows "distinct (gfreed g)
    \<and> (\<forall>i \<in> set (gfreed g). i < length (gcores g) \<longrightarrow> i \<in> set (gmoved g) \<and> gcores g ! i \<in> {(GResult, PSub), (GResult, PFin)})
    \<and> (\<not> gwrapped g \<and> gsets g = 1 \<longrightarrow> set (gmoved g) \<subseteq> set (gfreed g))"
proof -
  have I: "group_inv g" by (rule group_reach_inv [OF assms])
  then have L: "lives_ok g" by (simp add: group_inv_def)
  have "i \<in> set (gmoved g) \<and> gcores g ! i \<in> {(GResult, PSub), (GResult, PFin)}"
    if i: "i \<in> set (gfreed g)" "i < length (gcores g)" for i
  proof -
    obtain w p where wp: "gcores g ! i = (w, p)" by (cases "gcores g ! i")
    have "future_at g i" using L i(2) unfolding lives_ok_def by blast
    then have "i \<in> set (gmoved g) \<and> w = GResult \<and> p \<noteq> PDrop \<and> p \<noteq> PPending" using wp i(1) by auto
    then show ?thesis using wp by (cases p) auto
  qed
  moreover have "i \<in> set (gfreed g)" if "\<not> gwrapped g \<and> gsets g = 1" "i \<in> set (gmoved g)" for i
  proof -
    have z: "gtotal g = 0" using I that(1) unat_eq_zero [of "gcount g"] by (auto simp: group_inv_def count_ok_def)
    have "mset (gmoved g) + to_visit g \<subseteq># mset (ginserted g)" using L by (simp add: lives_ok_def)
    then have "i \<in> set (ginserted g)" using that(2) mset_subset_eqD [of "mset (gmoved g) + to_visit g" "mset (ginserted g)" i] by simp
    then show ?thesis using zero_future(2) [OF I z] that(2) by blast
  qed
  ultimately show ?thesis using L by (auto simp: lives_ok_def)
qed

theorem consumed_freed_once_witness:
  "\<exists>g. group_reach g \<and> gmoved g = [0] \<and> set (gmoved g) \<subseteq> set (gfreed g)"
proof -
  let ?g = "group_demo 0 (GResult, PFin) IIdle 1 [0]"
  have "set (gmoved ?g) \<subseteq> set (gfreed ?g)" using consumed_freed_once [OF group_demo_reach] by simp
  then show ?thesis using group_demo_reach by (intro exI [of _ ?g]) simp
qed

text \<open>
  Without the bound the group is set too early: two additions of which the second wraps the counter,
  and one \<open>Done\<close>, leave \<open>2 ^ 64\<close> operations that nobody waits for.
\<close>

lemma wait_group_wraps: "\<exists>g. group_reach g \<and> gwrapped g \<and> gsets g = 1 \<and> tickets g = 2 ^ 64"
proof -
  let ?n = "WaitGroup_new 0 0 0"
  let ?a = "WaitGroup_Add 18446744073709551615 (?n\<lparr>tickets := unat (18446744073709551615 :: 64 word)\<rparr>)"
  let ?b = "WaitGroup_Add 2 (?a\<lparr>tickets := tickets ?a + unat (2 :: 64 word)\<rparr>)"
  let ?c = "WaitGroup_Done 1 (?b\<lparr>tickets := tickets ?b - unat (1 :: 64 word)\<rparr>)"
  have "group_reach ?n" by (rule group_init)
  then have "group_reach ?a"
    by (rule group_next) (use g_add [of ?n 18446744073709551615] in \<open>simp add: WaitGroup_new_def\<close>)
  then have "group_reach ?b"
    by (rule group_next) (rule g_add, simp add: WaitGroup_Add_def WaitGroup_new_def)
  then have r: "group_reach ?c"
    by (rule group_next) (rule g_done, simp_all add: WaitGroup_Add_def WaitGroup_new_def)
  show ?thesis
    using r by (intro exI [of _ ?c]) (simp add: WaitGroup_Add_def WaitGroup_Done_def WaitGroup_new_def)
qed

end
