(* ===== verification/Faults.thy ===== *)
theory Faults
  imports Prelude "HOL-Library.Monad_Syntax"
begin

section \<open>Faults: the injector and the atomics of the fault build\<close>

text \<open>
  The fault build replaces \<open>std::atomic\<close> by two layers. \<open>fault/detail/fiber/atomic.hpp\<close> is an atomic
  of fibers, a plain value; \<open>fault/detail/atomic.hpp\<close> wraps an implementation (that one or
  \<open>std::atomic\<close>) and calls the injector before and after every operation, where the scheduler may
  run other fibers. The injector (\<open>src/fault/injector.cpp\<close>) decides by counting and by random numbers
  of \<open>src/fault/util.cpp\<close>. The build modelled is \<open>YACLIB_FAULT == 2\<close>: every fiber runs in one thread.

  The engine \<open>std::mt19937_64\<close> is a parameter \<open>gen\<close>: the number at a position of the sequence of a
  seed. What other fibers do while this one yields is the parameter \<open>env\<close>. Memory orders have no
  effect in this build and are left out.
\<close>

unbundle bit_operations_syntax

subsection \<open>Random numbers\<close>

type_synonym engine = "u32 \<Rightarrow> nat \<Rightarrow> u64"

record faults =
  sSeed :: u32
  eng_seed :: u32
  eng_pos :: nat
  sRandCount :: u64
  sYieldFrequency :: u32
  sSleepTime :: u32
  sInjectedCount :: u64
  sAtomicFailFrequency :: u32
  inj_count :: u32
  inj_pause :: bool

definition faults_start :: faults where
  "faults_start = \<lparr>sSeed = 1239, eng_seed = 1239, eng_pos = 0, sRandCount = 0, sYieldFrequency = 16,
     sSleepTime = 100, sInjectedCount = 0, sAtomicFailFrequency = 13, inj_count = 0, inj_pause = False\<rparr>"

definition SetSeed :: "u32 \<Rightarrow> 'z faults_scheme \<Rightarrow> 'z faults_scheme" where
  "SetSeed new_seed s = s\<lparr>sSeed := new_seed, eng_seed := new_seed, eng_pos := 0\<rparr>"

text \<open>The remainder by zero is undefined.\<close>

definition GetRandNumber :: "engine \<Rightarrow> u64 \<Rightarrow> 'z faults_scheme \<Rightarrow> (u64 \<times> 'z faults_scheme) option" where
  "GetRandNumber gen bound s =
     (if bound = 0 then None
      else Some (gen (eng_seed s) (eng_pos s) mod bound,
                 s\<lparr>sRandCount := sRandCount s + 1, eng_pos := Suc (eng_pos s)\<rparr>))"

definition GetRandCount :: "'z faults_scheme \<Rightarrow> u64" where
  "GetRandCount s = sRandCount s"

primrec draw_many :: "engine \<Rightarrow> nat \<Rightarrow> 'z faults_scheme \<Rightarrow> 'z faults_scheme option" where
  "draw_many gen 0 s = Some s"
| "draw_many gen (Suc n) s = do { (r, s) \<leftarrow> GetRandNumber gen 1 s; draw_many gen n s }"

definition ForwardToRandCount :: "engine \<Rightarrow> u64 \<Rightarrow> 'z faults_scheme \<Rightarrow> 'z faults_scheme option" where
  "ForwardToRandCount gen random_count s = draw_many gen (unat random_count) s"

subsection \<open>The injector\<close>

definition Injector_Reset :: "engine \<Rightarrow> 'z faults_scheme \<Rightarrow> 'z faults_scheme option" where
  "Injector_Reset gen s = do {
     (r, s) \<leftarrow> GetRandNumber gen (ucast (sYieldFrequency s)) s;
     Some (s\<lparr>inj_count := ucast r\<rparr>) }"

definition NeedInject :: "engine \<Rightarrow> 'z faults_scheme \<Rightarrow> (bool \<times> 'z faults_scheme) option" where
  "NeedInject gen s =
     (if inj_pause s then Some (False, s)
      else let s' = s\<lparr>inj_count := inj_count s + 1\<rparr>
           in if inj_count s \<ge> sYieldFrequency s
              then do { s' \<leftarrow> Injector_Reset gen s'; Some (True, s') }
              else Some (False, s'))"

definition MaybeInject ::
  "engine \<Rightarrow> ('z faults_scheme \<Rightarrow> 'z faults_scheme option) \<Rightarrow> 'z faults_scheme \<Rightarrow> 'z faults_scheme option" where
  "MaybeInject gen yield s = do {
     (need, s) \<leftarrow> NeedInject gen s;
     if need then yield (s\<lparr>sInjectedCount := sInjectedCount s + 1\<rparr>) else Some s }"

definition SetFrequency :: "u32 \<Rightarrow> 'z faults_scheme \<Rightarrow> 'z faults_scheme" where
  "SetFrequency freq s = s\<lparr>sYieldFrequency := freq\<rparr>"

definition SetSleepTime :: "u32 \<Rightarrow> 'z faults_scheme \<Rightarrow> 'z faults_scheme" where
  "SetSleepTime ns s = s\<lparr>sSleepTime := ns\<rparr>"

definition GetSleepTime :: "'z faults_scheme \<Rightarrow> u32" where
  "GetSleepTime s = sSleepTime s"

definition GetInjectedCount :: "'z faults_scheme \<Rightarrow> u64" where
  "GetInjectedCount s = sInjectedCount s"

definition Injector_GetState :: "'z faults_scheme \<Rightarrow> u32" where
  "Injector_GetState s = inj_count s"

definition Injector_SetState :: "u32 \<Rightarrow> 'z faults_scheme \<Rightarrow> 'z faults_scheme" where
  "Injector_SetState state s = s\<lparr>inj_count := state\<rparr>"

definition Injector_Disable :: "'z faults_scheme \<Rightarrow> 'z faults_scheme" where
  "Injector_Disable s = s\<lparr>inj_pause := True\<rparr>"

definition Injector_Enable :: "'z faults_scheme \<Rightarrow> 'z faults_scheme" where
  "Injector_Enable s = s\<lparr>inj_pause := False\<rparr>"

definition InjectFault ::
  "engine \<Rightarrow> ('z faults_scheme \<Rightarrow> 'z faults_scheme option) \<Rightarrow> 'z faults_scheme \<Rightarrow> 'z faults_scheme option" where
  "InjectFault gen yield s = MaybeInject gen yield s"

definition ShouldFailAtomicWeak :: "engine \<Rightarrow> 'z faults_scheme \<Rightarrow> (bool \<times> 'z faults_scheme) option" where
  "ShouldFailAtomicWeak gen s =
     (let freq = sAtomicFailFrequency s
      in if freq \<noteq> 0 then do { (r, s) \<leftarrow> GetRandNumber gen (ucast freq) s; Some (r = 0, s) }
         else Some (False, s))"

definition SetAtomicWeakFailFrequency :: "u32 \<Rightarrow> 'z faults_scheme \<Rightarrow> 'z faults_scheme" where
  "SetAtomicWeakFailFrequency k s = s\<lparr>sAtomicFailFrequency := k\<rparr>"

text \<open>The functions of \<open>src/fault/config.cpp\<close> that are not plain calls of the above.\<close>

definition ForwardToFaultRandomCount :: "engine \<Rightarrow> u64 \<Rightarrow> 'z faults_scheme \<Rightarrow> 'z faults_scheme option" where
  "ForwardToFaultRandomCount gen random_count s = ForwardToRandCount gen random_count s"

definition SetInjectorState :: "u32 \<Rightarrow> 'z faults_scheme \<Rightarrow> 'z faults_scheme" where
  "SetInjectorState state s = Injector_SetState state s"

subsection \<open>The atomics of fibers\<close>

text \<open>
  The operations, in the classes that declare them: \<open>AtomicBase\<close>, \<open>AtomicFloatingBase\<close>,
  \<open>AtomicIntegralBase\<close> and the specialisation for pointers. An operation returns a value of
  \<open>atomic_res\<close>; a compare and exchange also returns its argument \<open>expected\<close> as it leaves it.
\<close>

datatype 'a base_op =
  Assign 'a | Store 'a | Load | Convert | Exchange 'a
| CasWeak (cas_expected: 'a) (cas_desired: 'a) | CasStrong (cas_expected: 'a) (cas_desired: 'a)

datatype 'a floating_op = Base "'a base_op" | FetchAdd 'a | FetchSub 'a | AddAssign 'a | SubAssign 'a

datatype 'a integral_op =
  Floating "'a floating_op" | FetchAnd 'a | FetchOr 'a | FetchXor 'a
| PreInc | PostInc | PreDec | PostDec | AndAssign 'a | OrAssign 'a | XorAssign 'a

datatype 'a pointer_op =
  PBase "'a base_op" | PFetchAdd 'a | PFetchSub 'a
| PPreInc | PPostInc | PPreDec | PPostDec | PAddAssign 'a | PSubAssign 'a

datatype 'a atomic_res = RUnit | RVal 'a | RCas bool 'a

definition CompareExchangeHelper :: "'a \<Rightarrow> 'a \<Rightarrow> 'a \<Rightarrow> 'a atomic_res \<times> 'a" where
  "CompareExchangeHelper expected desired v =
     (if v = expected then (RCas True expected, desired) else (RCas False v, v))"

definition fiber_load :: "'a \<Rightarrow> 'a atomic_res \<times> 'a" where
  "fiber_load v = (RVal v, v)"

fun fiber_base :: "'a base_op \<Rightarrow> 'a \<Rightarrow> 'a atomic_res \<times> 'a" where
  "fiber_base (Assign desired) v = (RVal desired, desired)"
| "fiber_base (Store desired) v = (RUnit, desired)"
| "fiber_base Load v = fiber_load v"
| "fiber_base Convert v = fiber_load v"
| "fiber_base (Exchange desired) v = (RVal v, desired)"
| "fiber_base (CasWeak expected desired) v = CompareExchangeHelper expected desired v"
| "fiber_base (CasStrong expected desired) v = CompareExchangeHelper expected desired v"

fun fiber_floating :: "('a::{plus, minus}) floating_op \<Rightarrow> 'a \<Rightarrow> 'a atomic_res \<times> 'a" where
  "fiber_floating (Base bop) v = fiber_base bop v"
| "fiber_floating (FetchAdd arg) v = (RVal v, v + arg)"
| "fiber_floating (FetchSub arg) v = (RVal v, v - arg)"
| "fiber_floating (AddAssign arg) v = (RVal (v + arg), v + arg)"
| "fiber_floating (SubAssign arg) v = (RVal (v - arg), v - arg)"

text \<open>
  The integral operations at an unsigned width; \<open>fetch_and\<close> adds, as the code does. At a signed type the additions of the code are
  those of the built-in type, whose overflow is undefined.
\<close>

fun fiber_integral :: "('w::len word) integral_op \<Rightarrow> 'w word \<Rightarrow> 'w word atomic_res \<times> 'w word" where
  "fiber_integral (Floating fop) v = fiber_floating fop v"
| "fiber_integral (FetchAnd arg) v = (RVal v, v + arg)"
| "fiber_integral (FetchOr arg) v = (RVal v, v OR arg)"
| "fiber_integral (FetchXor arg) v = (RVal v, v XOR arg)"
| "fiber_integral PreInc v = (RVal v, v + 1)"
| "fiber_integral PostInc v = (RVal (v + 1), v + 1)"
| "fiber_integral PreDec v = (RVal v, v - 1)"
| "fiber_integral PostDec v = (RVal (v - 1), v - 1)"
| "fiber_integral (AndAssign arg) v = (RVal (v AND arg), v AND arg)"
| "fiber_integral (OrAssign arg) v = (RVal (v OR arg), v OR arg)"
| "fiber_integral (XorAssign arg) v = (RVal (v XOR arg), v XOR arg)"

text \<open>A pointer is an address; arithmetic moves it by whole objects of size \<open>sz\<close>.\<close>

fun fiber_pointer :: "u64 \<Rightarrow> u64 pointer_op \<Rightarrow> u64 \<Rightarrow> u64 atomic_res \<times> u64" where
  "fiber_pointer sz (PBase bop) v = fiber_base bop v"
| "fiber_pointer sz (PFetchAdd arg) v = (RVal v, v + arg * sz)"
| "fiber_pointer sz (PFetchSub arg) v = (RVal v, v - arg * sz)"
| "fiber_pointer sz PPreInc v = (RVal v, v + sz)"
| "fiber_pointer sz PPostInc v = (RVal (v + sz), v + sz)"
| "fiber_pointer sz PPreDec v = (RVal v, v - sz)"
| "fiber_pointer sz PPostDec v = (RVal (v - sz), v - sz)"
| "fiber_pointer sz (PAddAssign arg) v = (RVal (v + arg * sz), v + arg * sz)"
| "fiber_pointer sz (PSubAssign arg) v = (RVal (v - arg * sz), v - arg * sz)"

text \<open>\<open>std::atomic_flag\<close> of fibers.\<close>

datatype flag_op = Clear | TestAndSet | Test

fun fiber_flag :: "flag_op \<Rightarrow> bool \<Rightarrow> bool atomic_res \<times> bool" where
  "fiber_flag Clear v = (RUnit, False)"
| "fiber_flag TestAndSet v = (RVal v, True)"
| "fiber_flag Test v = (RVal v, v)"

text \<open>
  The reference: \<open>std::atomic\<close>. A fetch operation returns the old value and stores the result of its
  operator, an assignment operator returns what it stored, \<open>++x\<close> and \<open>--x\<close> return the new value and
  \<open>x++\<close> and \<open>x--\<close> the old one.
\<close>

definition std_fetch :: "('a \<Rightarrow> 'a) \<Rightarrow> 'a \<Rightarrow> 'a atomic_res \<times> 'a" where
  "std_fetch f v = (RVal v, f v)"

definition std_update :: "('a \<Rightarrow> 'a) \<Rightarrow> 'a \<Rightarrow> 'a atomic_res \<times> 'a" where
  "std_update f v = (RVal (f v), f v)"

fun std_base :: "'a base_op \<Rightarrow> 'a \<Rightarrow> 'a atomic_res \<times> 'a" where
  "std_base (Assign d) v = (RVal d, d)"
| "std_base (Store d) v = (RUnit, d)"
| "std_base (Exchange d) v = std_fetch (\<lambda>_. d) v"
| "std_base (CasWeak e d) v = (RCas (v = e) v, if v = e then d else v)"
| "std_base (CasStrong e d) v = (RCas (v = e) v, if v = e then d else v)"
| "std_base _ v = (RVal v, v)"

fun std_integral :: "('w::len word) integral_op \<Rightarrow> 'w word \<Rightarrow> 'w word atomic_res \<times> 'w word" where
  "std_integral (Floating (Base bop)) = std_base bop"
| "std_integral (Floating (FetchAdd a)) = std_fetch (\<lambda>v. v + a)"
| "std_integral (Floating (FetchSub a)) = std_fetch (\<lambda>v. v - a)"
| "std_integral (Floating (AddAssign a)) = std_update (\<lambda>v. v + a)"
| "std_integral (Floating (SubAssign a)) = std_update (\<lambda>v. v - a)"
| "std_integral (FetchAnd a) = std_fetch (\<lambda>v. v AND a)"
| "std_integral (FetchOr a) = std_fetch (\<lambda>v. v OR a)"
| "std_integral (FetchXor a) = std_fetch (\<lambda>v. v XOR a)"
| "std_integral PreInc = std_update (\<lambda>v. v + 1)"
| "std_integral PostInc = std_fetch (\<lambda>v. v + 1)"
| "std_integral PreDec = std_update (\<lambda>v. v - 1)"
| "std_integral PostDec = std_fetch (\<lambda>v. v - 1)"
| "std_integral (AndAssign a) = std_update (\<lambda>v. v AND a)"
| "std_integral (OrAssign a) = std_update (\<lambda>v. v OR a)"
| "std_integral (XorAssign a) = std_update (\<lambda>v. v XOR a)"

fun std_pointer :: "u64 \<Rightarrow> u64 pointer_op \<Rightarrow> u64 \<Rightarrow> u64 atomic_res \<times> u64" where
  "std_pointer sz (PBase bop) = std_base bop"
| "std_pointer sz (PFetchAdd a) = std_fetch (\<lambda>v. v + a * sz)"
| "std_pointer sz (PFetchSub a) = std_fetch (\<lambda>v. v - a * sz)"
| "std_pointer sz PPreInc = std_update (\<lambda>v. v + sz)"
| "std_pointer sz PPostInc = std_fetch (\<lambda>v. v + sz)"
| "std_pointer sz PPreDec = std_update (\<lambda>v. v - sz)"
| "std_pointer sz PPostDec = std_fetch (\<lambda>v. v - sz)"
| "std_pointer sz (PAddAssign a) = std_update (\<lambda>v. v + a * sz)"
| "std_pointer sz (PSubAssign a) = std_update (\<lambda>v. v - a * sz)"

fun std_flag :: "flag_op \<Rightarrow> bool \<Rightarrow> bool atomic_res \<times> bool" where
  "std_flag Clear = std_base (Store False)"
| "std_flag TestAndSet = std_base (Exchange True)"
| "std_flag Test = std_base Load"

subsection \<open>The layer that injects faults\<close>

text \<open>
  \<open>Impl\<close> is the wrapped implementation. An operation without its own injection (a failing weak
  compare and exchange, the conversion) calls \<open>load\<close>, which injects.
\<close>

record 'a fault_atom = faults +
  cell :: 'a

type_synonym ('a, 'z) yields = "('a, 'z) fault_atom_scheme \<Rightarrow> ('a, 'z) fault_atom_scheme option"

type_synonym ('a, 'z) acting =
  "('a, 'z) fault_atom_scheme \<Rightarrow> ('a atomic_res \<times> ('a, 'z) fault_atom_scheme) option"

definition on_cell :: "('a \<Rightarrow> 'a atomic_res \<times> 'a) \<Rightarrow> ('a, 'z) acting" where
  "on_cell f s = (let (r, v) = f (cell s) in Some (r, s\<lparr>cell := v\<rparr>))"

definition inject_around :: "engine \<Rightarrow> ('a, 'z) yields \<Rightarrow> ('a, 'z) acting \<Rightarrow> ('a, 'z) acting" where
  "inject_around gen yield statement s = do {
     s \<leftarrow> InjectFault gen yield s;
     (r, s) \<leftarrow> statement s;
     s \<leftarrow> InjectFault gen yield s;
     Some (r, s) }"

definition fault_load :: "engine \<Rightarrow> ('a, 'z) yields \<Rightarrow> ('a base_op \<Rightarrow> 'a \<Rightarrow> 'a atomic_res \<times> 'a) \<Rightarrow> ('a, 'z) acting" where
  "fault_load gen yield Impl s = inject_around gen yield (on_cell (Impl Load)) s"

fun fault_base :: "engine \<Rightarrow> ('a, 'z) yields \<Rightarrow> ('a base_op \<Rightarrow> 'a \<Rightarrow> 'a atomic_res \<times> 'a) \<Rightarrow> 'a base_op \<Rightarrow> ('a, 'z) acting" where
  "fault_base gen yield Impl (Assign desired) s = inject_around gen yield (on_cell (Impl (Assign desired))) s"
| "fault_base gen yield Impl (Store desired) s = inject_around gen yield (on_cell (Impl (Store desired))) s"
| "fault_base gen yield Impl Load s = fault_load gen yield Impl s"
| "fault_base gen yield Impl Convert s = fault_load gen yield Impl s"
| "fault_base gen yield Impl (Exchange desired) s = inject_around gen yield (on_cell (Impl (Exchange desired))) s"
| "fault_base gen yield Impl (CasWeak expected desired) s = do {
     (fail, s) \<leftarrow> ShouldFailAtomicWeak gen s;
     if fail then do {
       (r, s) \<leftarrow> fault_load gen yield Impl s;
       case r of RVal now \<Rightarrow> Some (RCas False now, s) | _ \<Rightarrow> None }
     else inject_around gen yield (on_cell (Impl (CasWeak expected desired))) s }"
| "fault_base gen yield Impl (CasStrong expected desired) s =
     inject_around gen yield (on_cell (Impl (CasStrong expected desired))) s"

fun fault_floating :: "engine \<Rightarrow> ('a, 'z) yields \<Rightarrow> ('a floating_op \<Rightarrow> 'a \<Rightarrow> 'a atomic_res \<times> 'a) \<Rightarrow> 'a floating_op \<Rightarrow> ('a, 'z) acting" where
  "fault_floating gen yield Impl (Base bop) s = fault_base gen yield (\<lambda>b. Impl (Base b)) bop s"
| "fault_floating gen yield Impl (FetchAdd arg) s = inject_around gen yield (on_cell (Impl (FetchAdd arg))) s"
| "fault_floating gen yield Impl (FetchSub arg) s = inject_around gen yield (on_cell (Impl (FetchSub arg))) s"
| "fault_floating gen yield Impl (AddAssign arg) s = inject_around gen yield (on_cell (Impl (AddAssign arg))) s"
| "fault_floating gen yield Impl (SubAssign arg) s = inject_around gen yield (on_cell (Impl (SubAssign arg))) s"

fun fault_integral :: "engine \<Rightarrow> ('a, 'z) yields \<Rightarrow> ('a integral_op \<Rightarrow> 'a \<Rightarrow> 'a atomic_res \<times> 'a) \<Rightarrow> 'a integral_op \<Rightarrow> ('a, 'z) acting" where
  "fault_integral gen yield Impl (Floating fop) s = fault_floating gen yield (\<lambda>f. Impl (Floating f)) fop s"
| "fault_integral gen yield Impl (FetchAnd arg) s = inject_around gen yield (on_cell (Impl (FetchAnd arg))) s"
| "fault_integral gen yield Impl (FetchOr arg) s = inject_around gen yield (on_cell (Impl (FetchOr arg))) s"
| "fault_integral gen yield Impl (FetchXor arg) s = inject_around gen yield (on_cell (Impl (FetchXor arg))) s"
| "fault_integral gen yield Impl PreInc s = inject_around gen yield (on_cell (Impl PreInc)) s"
| "fault_integral gen yield Impl PostInc s = inject_around gen yield (on_cell (Impl PostInc)) s"
| "fault_integral gen yield Impl PreDec s = inject_around gen yield (on_cell (Impl PreDec)) s"
| "fault_integral gen yield Impl PostDec s = inject_around gen yield (on_cell (Impl PostDec)) s"
| "fault_integral gen yield Impl (AndAssign arg) s = inject_around gen yield (on_cell (Impl (AndAssign arg))) s"
| "fault_integral gen yield Impl (OrAssign arg) s = inject_around gen yield (on_cell (Impl (OrAssign arg))) s"
| "fault_integral gen yield Impl (XorAssign arg) s = inject_around gen yield (on_cell (Impl (XorAssign arg))) s"

fun fault_pointer :: "engine \<Rightarrow> (u64, 'z) yields \<Rightarrow> (u64 pointer_op \<Rightarrow> u64 \<Rightarrow> u64 atomic_res \<times> u64) \<Rightarrow> u64 pointer_op \<Rightarrow> (u64, 'z) acting" where
  "fault_pointer gen yield Impl (PBase bop) s = fault_base gen yield (\<lambda>b. Impl (PBase b)) bop s"
| "fault_pointer gen yield Impl (PFetchAdd arg) s = inject_around gen yield (on_cell (Impl (PFetchAdd arg))) s"
| "fault_pointer gen yield Impl (PFetchSub arg) s = inject_around gen yield (on_cell (Impl (PFetchSub arg))) s"
| "fault_pointer gen yield Impl PPreInc s = inject_around gen yield (on_cell (Impl PPreInc)) s"
| "fault_pointer gen yield Impl PPostInc s = inject_around gen yield (on_cell (Impl PPostInc)) s"
| "fault_pointer gen yield Impl PPreDec s = inject_around gen yield (on_cell (Impl PPreDec)) s"
| "fault_pointer gen yield Impl PPostDec s = inject_around gen yield (on_cell (Impl PPostDec)) s"
| "fault_pointer gen yield Impl (PAddAssign arg) s = inject_around gen yield (on_cell (Impl (PAddAssign arg))) s"
| "fault_pointer gen yield Impl (PSubAssign arg) s = inject_around gen yield (on_cell (Impl (PSubAssign arg))) s"

fun fault_flag :: "engine \<Rightarrow> (bool, 'z) yields \<Rightarrow> (flag_op \<Rightarrow> bool \<Rightarrow> bool atomic_res \<times> bool) \<Rightarrow> flag_op \<Rightarrow> (bool, 'z) acting" where
  "fault_flag gen yield Impl Clear s = inject_around gen yield (on_cell (Impl Clear)) s"
| "fault_flag gen yield Impl TestAndSet s = inject_around gen yield (on_cell (Impl TestAndSet)) s"
| "fault_flag gen yield Impl Test s = inject_around gen yield (on_cell (Impl Test)) s"

subsection \<open>The fiber atomics and the standard\<close>

lemma fiber_base_std: "fiber_base bop v = std_base bop v"
  by (cases bop) (simp_all add: fiber_load_def CompareExchangeHelper_def std_fetch_def)

lemma fiber_floating_std: "fiber_floating fop v = std_integral (Floating fop) v"
  by (cases fop) (simp_all add: fiber_base_std std_fetch_def std_update_def)

lemma pred_neq_word: "(v::'w::len word) - 1 \<noteq> v" "v \<noteq> v - 1"
  by simp_all

text \<open>
  C18: The atomics of fibers against \<open>std::atomic\<close>. Every operation returns and stores what the
  standard says, with exactly these exceptions: \<open>fetch_and\<close> adds its argument, so it is right only
  where the sum happens to be the conjunction; \<open>++x\<close>, \<open>x++\<close>, \<open>--x\<close> and \<open>x--\<close> never return the right
  value on integers, nor on pointers to objects of positive size, since the prefix and the postfix forms are swapped. The stored
  value is wrong for \<open>fetch_and\<close> only. The flag is right.
\<close>

theorem fiber_atomic_std:
  "(fiber_integral op v = std_integral op v \<longleftrightarrow>
      (case op of FetchAnd a \<Rightarrow> v + a = v AND a
                | PreInc \<Rightarrow> False | PostInc \<Rightarrow> False | PreDec \<Rightarrow> False | PostDec \<Rightarrow> False | _ \<Rightarrow> True)) \<and>
   (fiber_pointer sz pop a = std_pointer sz pop a \<longleftrightarrow>
      (case pop of PPreInc \<Rightarrow> sz = 0 | PPostInc \<Rightarrow> sz = 0 | PPreDec \<Rightarrow> sz = 0 | PPostDec \<Rightarrow> sz = 0 | _ \<Rightarrow> True)) \<and>
   (snd (fiber_integral op v) = snd (std_integral op v) \<longleftrightarrow>
      (case op of FetchAnd b \<Rightarrow> v + b = v AND b | _ \<Rightarrow> True)) \<and>
   snd (fiber_pointer sz pop a) = snd (std_pointer sz pop a) \<and>
   fiber_flag flop b = std_flag flop b"
  by (intro conjI; cases op; cases pop; cases flop)
     (simp_all add: fiber_base_std fiber_floating_std std_fetch_def std_update_def pred_neq_word)

subsection \<open>The injecting layer refines the standard atomics\<close>

lemma InjectFault_cell:
  assumes "InjectFault gen yield s = Some t"
    and "\<And>s t. yield s = Some t \<Longrightarrow> R (cell s) (cell t)" and "\<And>v. R v v"
  shows "R (cell s) (cell t)"
  using assms(1,3) assms(2) [of "_\<lparr>sInjectedCount := _\<rparr>" t]
  by (fastforce simp: InjectFault_def MaybeInject_def NeedInject_def Injector_Reset_def GetRandNumber_def
      Let_def bind_eq_Some_conv split: if_splits)

text \<open>
  What a client may observe: its operations one after another, each at one value of the cell, with
  steps \<open>R\<close> of the other fibers in between. A weak compare and exchange may fail although the
  value is the expected one; then it stores nothing.
\<close>

inductive observed :: "('w::len word \<Rightarrow> 'w word \<Rightarrow> bool) \<Rightarrow> 'w word integral_op list \<Rightarrow> 'w word atomic_res list \<Rightarrow>
    'w word \<Rightarrow> 'w word \<Rightarrow> bool" for R where
  finish: "R v w \<Longrightarrow> observed R [] [] v w"
| exact: "R v u \<Longrightarrow> std_integral op u = (r, u') \<Longrightarrow> observed R ops rs u' w \<Longrightarrow> observed R (op # ops) (r # rs) v w"
| spurious: "R v u \<Longrightarrow> observed R ops rs u w \<Longrightarrow>
    observed R (Floating (Base (CasWeak e d)) # ops) (RCas False u # rs) v w"

fun fault_run :: "engine \<Rightarrow> ('w::len word, 'z) yields \<Rightarrow> 'w word integral_op list \<Rightarrow> ('w word, 'z) fault_atom_scheme \<Rightarrow>
    ('w word atomic_res list \<times> ('w word, 'z) fault_atom_scheme) option" where
  "fault_run gen yield [] s = Some ([], s)"
| "fault_run gen yield (op # ops) s = do {
     (r, s) \<leftarrow> fault_integral gen yield fiber_integral op s;
     (rs, s) \<leftarrow> fault_run gen yield ops s;
     Some (r # rs, s) }"

fun fiber_right :: "'w::len word integral_op \<Rightarrow> bool" where
  "fiber_right (FetchAnd a) = False"
| "fiber_right PreInc = False" | "fiber_right PostInc = False"
| "fiber_right PreDec = False" | "fiber_right PostDec = False"
| "fiber_right _ = True"

lemma fiber_right_std: "fiber_right op \<Longrightarrow> fiber_integral op v = std_integral op v"
  by (cases op) (simp_all add: fiber_floating_std std_fetch_def std_update_def)

lemma inject_around_cell:
  assumes "inject_around gen yield (on_cell f) s = Some (r, t)"
    and "\<And>s t. yield s = Some t \<Longrightarrow> R (cell s) (cell t)" and "\<And>v. R v v"
  shows "\<exists>u u'. R (cell s) u \<and> f u = (r, u') \<and> R u' (cell t)"
proof -
  from assms(1) obtain a b where a: "InjectFault gen yield s = Some a"
    and b: "on_cell f a = Some (r, b)" and t: "InjectFault gen yield b = Some t"
    by (auto simp: inject_around_def bind_eq_Some_conv)
  have "R (cell s) (cell a)" "R (cell b) (cell t)"
    using InjectFault_cell [where R = R, OF a] InjectFault_cell [where R = R, OF t] assms(2,3) by simp_all
  moreover have "f (cell a) = (r, cell b)" using b by (auto simp: on_cell_def Let_def split: prod.splits)
  ultimately show ?thesis by blast
qed

lemma ShouldFail_cell: "ShouldFailAtomicWeak gen s = Some (b, t) \<Longrightarrow> cell t = cell s"
  by (auto simp: ShouldFailAtomicWeak_def GetRandNumber_def Let_def bind_eq_Some_conv split: if_splits)

lemma fiber_convert: "fiber_integral (Floating (Base Convert)) = fiber_integral (Floating (Base Load))"
  by (rule ext) simp

lemma fault_integral_cell:
  assumes run: "fault_integral gen yield fiber_integral op s = Some (r, t)"
    and R: "\<And>s t. yield s = Some t \<Longrightarrow> R (cell s) (cell t)" "\<And>v. R v v"
  shows "\<exists>u u'. R (cell s) u \<and> R u' (cell t) \<and>
    (fiber_integral op u = (r, u') \<or> (\<exists>e d. op = Floating (Base (CasWeak e d)) \<and> r = RCas False u \<and> u' = u))"
proof -
  note around = inject_around_cell [where R = R and yield = yield, OF _ R]
  show ?thesis
  proof (cases "\<exists>e d. op = Floating (Base (CasWeak e d))")
    case True
    then obtain e d where op: "op = Floating (Base (CasWeak e d))" by blast
    with run obtain f a where f: "ShouldFailAtomicWeak gen s = Some (f, a)"
      and rest: "(if f then do { (r, s) \<leftarrow> fault_load gen yield (\<lambda>b. fiber_integral (Floating (Base b))) a;
            case r of RVal now \<Rightarrow> Some (RCas False now, s) | _ \<Rightarrow> None }
          else inject_around gen yield (on_cell (fiber_integral op)) a) = Some (r, t)"
      by (auto simp: bind_eq_Some_conv)
    show ?thesis
    proof (cases f)
      case True
      with rest obtain now where "fault_load gen yield (\<lambda>b. fiber_integral (Floating (Base b))) a = Some (RVal now, t)" (is ?load)
        and r: "r = RCas False now"
        by (auto simp: bind_eq_Some_conv split: atomic_res.splits) (metis atomic_res.exhaust)
      from \<open>?load\<close> have "\<exists>u u'. R (cell a) u \<and> fiber_integral (Floating (Base Load)) u = (RVal now, u') \<and> R u' (cell t)"
        unfolding fault_load_def by (rule around)
      then show ?thesis using r op ShouldFail_cell [OF f] by (auto simp: fiber_load_def)
    next
      case False
      with rest have "inject_around gen yield (on_cell (fiber_integral op)) a = Some (r, t)" by simp
      then show ?thesis using around ShouldFail_cell [OF f] by fastforce
    qed
  next
    case False
    have "inject_around gen yield (on_cell (fiber_integral op)) s = Some (r, t)"
    proof (cases op)
      case (Floating fop)
      then show ?thesis
      proof (cases fop)
        case (Base bop)
        then show ?thesis using run Floating False
          by (cases bop) (simp_all add: fault_load_def fiber_convert)
      qed (use run Floating in simp_all)
    qed (use run in simp_all)
    then show ?thesis using around by blast
  qed
qed

lemma observed_before: "observed R ops rs u w \<Longrightarrow> (\<And>a b c. R a b \<Longrightarrow> R b c \<Longrightarrow> R a c) \<Longrightarrow> R v u \<Longrightarrow> observed R ops rs v w"
  by (induction rule: observed.induct) (blast intro: observed.intros)+

text \<open>
  C19: The injecting layer over the atomics of fibers refines the standard atomics. Whatever the
  random numbers are and wherever the scheduler is entered, a program of the operations that are
  right in the layer below returns results, and leaves a value, that the standard operations
  produce in the same order, each applied once, with steps of other fibers between them; only a
  weak compare and exchange may fail for no reason, and then it reports the value it saw and stores nothing.
\<close>

theorem fault_atomic_refines:
  assumes "\<forall>s t. yield s = Some t \<longrightarrow> R (cell s) (cell t)" and "reflp R" and "transp R"
    and "list_all fiber_right ops" and "fault_run gen yield ops s = Some (rs, t)"
  shows "observed R ops rs (cell s) (cell t)"
  using assms(4,5)
proof (induction ops arbitrary: s rs)
  case Nil
  then show ?case using assms(2) by (auto intro: finish dest: reflpD)
next
  case (Cons op ops)
  then obtain r a rs' where op: "fault_integral gen yield fiber_integral op s = Some (r, a)"
    and rs: "rs = r # rs'" and ops: "fault_run gen yield ops a = Some (rs', t)"
    by (auto simp: bind_eq_Some_conv)
  obtain u u' where u: "R (cell s) u" "R u' (cell a)" and eff: "fiber_integral op u = (r, u') \<or>
      (\<exists>e d. op = Floating (Base (CasWeak e d)) \<and> r = RCas False u \<and> u' = u)"
    using fault_integral_cell [where R = R, OF op] assms(1) reflpD [OF assms(2)] by blast
  have "observed R ops rs' u' (cell t)"
    using observed_before [OF Cons.IH [OF _ ops]] Cons.prems(1) assms(3) u(2) by (auto dest: transpD)
  then show ?case using eff u rs Cons.prems(1) fiber_right_std [of op u]
    by (auto intro: exact spurious)
qed

text \<open>One weak compare and exchange that fails for no reason, then one that succeeds.\<close>

definition demo_gen :: engine where
  "demo_gen sd pos = (if pos = 0 then 0 else 5)"

definition demo_atom :: "(8 word) fault_atom" where
  "demo_atom = \<lparr>sSeed = 0, eng_seed = 0, eng_pos = 0, sRandCount = 0, sYieldFrequency = 2, sSleepTime = 100,
     sInjectedCount = 0, sAtomicFailFrequency = 13, inj_count = 0, inj_pause = False, cell = 3\<rparr>"

definition demo_yield :: "('w::len word, 'z) yields" where
  "demo_yield s = Some (s\<lparr>cell := cell s OR 128\<rparr>)"

abbreviation demo_grow :: "8 word \<Rightarrow> 8 word \<Rightarrow> bool" where
  "demo_grow v w \<equiv> w AND 127 = v AND 127"

lemma demo_run:
  "\<exists>t. fault_run demo_gen demo_yield [Floating (Base (CasWeak 3 4)), Floating (Base (CasWeak 3 4)), OrAssign 1]
     demo_atom = Some ([RCas False 3, RCas False 131, RVal 131], t) \<and> cell t = 131"
  by (simp add: demo_atom_def demo_gen_def demo_yield_def ShouldFailAtomicWeak_def GetRandNumber_def Let_def
      fault_load_def inject_around_def InjectFault_def MaybeInject_def NeedInject_def Injector_Reset_def
      on_cell_def fiber_load_def CompareExchangeHelper_def)

theorem fault_atomic_refines_witness:
  "observed demo_grow [Floating (Base (CasWeak 3 4)), Floating (Base (CasWeak 3 4)), OrAssign 1]
     [RCas False 3, RCas False 131, RVal 131] 3 131"
proof -
  from demo_run obtain t where run: "fault_run demo_gen demo_yield
      [Floating (Base (CasWeak 3 4)), Floating (Base (CasWeak 3 4)), OrAssign 1]
      demo_atom = Some ([RCas False 3, RCas False 131, RVal 131], t)" and t: "cell t = 131" by blast
  have "\<forall>s t. (demo_yield :: (8 word, unit) yields) s = Some t \<longrightarrow> demo_grow (cell s) (cell t)"
    by (auto simp: demo_yield_def bit.conj_disj_distrib2)
  moreover have "reflp demo_grow" and "transp demo_grow" by (simp_all add: reflp_def transp_def)
  moreover have "list_all fiber_right [Floating (Base (CasWeak 3 4)), Floating (Base (CasWeak 3 4)), OrAssign (1 :: 8 word)]"
    by simp
  moreover have "cell demo_atom = 3" by (simp add: demo_atom_def)
  ultimately show ?thesis using fault_atomic_refines [OF _ _ _ _ run, of demo_grow] t by (simp only:)
qed

subsection \<open>How often faults are injected\<close>

primrec inject_calls :: "engine \<Rightarrow> nat \<Rightarrow> 'z faults_scheme \<Rightarrow> 'z faults_scheme option" where
  "inject_calls gen 0 s = Some s"
| "inject_calls gen (Suc n) s = do { s \<leftarrow> inject_calls gen n s; MaybeInject gen Some s }"

lemma unat_ucast_64 [simp]: "unat (ucast (x :: u32) :: u64) = unat x"
proof -
  have "unat x < 2 ^ 64" using unsigned_less [of x, where 'a = nat] by simp
  then show ?thesis by (simp add: unsigned_ucast_eq take_bit_eq_mod)
qed

lemma inject_call:
  assumes "\<not> inj_pause s" and "0 < sYieldFrequency s" and "inj_count s \<le> sYieldFrequency s"
  shows "\<exists>t b. MaybeInject gen Some s = Some t \<and> \<not> inj_pause t \<and> sYieldFrequency t = sYieldFrequency s \<and>
    inj_count t \<le> sYieldFrequency t \<and> sInjectedCount t = sInjectedCount s + (if b then 1 else 0) \<and>
    (b \<longleftrightarrow> inj_count s = sYieldFrequency s) \<and>
    (if b then inj_count t < sYieldFrequency t else unat (inj_count t) = Suc (unat (inj_count s)))"
proof (cases "inj_count s = sYieldFrequency s")
  case True
  have f: "ucast (sYieldFrequency s) \<noteq> (0 :: u64)"
    using assms(2) unat_ucast_64 [of "sYieldFrequency s"]
    by (auto simp: word_gt_0 unat_0_iff simp del: unat_ucast_64)
  define r where "r = gen (eng_seed s) (eng_pos s) mod ucast (sYieldFrequency s)"
  have "unat r < unat (sYieldFrequency s)"
    unfolding r_def using assms(2) by (simp add: unat_mod word_gt_0 unat_gt_0)
  then have "ucast r < sYieldFrequency s"
    by (simp add: word_less_nat_alt unsigned_ucast_eq take_bit_eq_mod)
  then show ?thesis using True assms f
    by (auto simp: MaybeInject_def NeedInject_def Injector_Reset_def GetRandNumber_def Let_def r_def)
next
  case False
  then have "inj_count s < sYieldFrequency s" using assms(3) by simp
  then have "unat (inj_count s) < unat (sYieldFrequency s)" by (simp add: word_less_nat_alt)
  moreover have "unat (sYieldFrequency s) < 2 ^ 32" using unsigned_less [of "sYieldFrequency s", where 'a = nat] by simp
  ultimately have "unat (inj_count s + 1) = Suc (unat (inj_count s))" by (simp add: unat_word_ariths(1))
  moreover have "inj_count s + 1 \<le> sYieldFrequency s" using \<open>inj_count s < _\<close> by (rule inc_le)
  ultimately show ?thesis using False assms
    by (auto simp: MaybeInject_def NeedInject_def Let_def)
qed

lemma inject_calls_count:
  assumes "\<not> inj_pause s" and "0 < sYieldFrequency s" and "inj_count s \<le> sYieldFrequency s"
  defines "f \<equiv> unat (sYieldFrequency s)"
  shows "\<exists>t k. inject_calls gen n s = Some t \<and> \<not> inj_pause t \<and> sYieldFrequency t = sYieldFrequency s \<and>
    inj_count t \<le> sYieldFrequency t \<and> sInjectedCount t = sInjectedCount s + of_nat k \<and>
    n \<le> k * (f + 1) + unat (inj_count t) \<and> 2 * k \<le> n + (if inj_count t = sYieldFrequency t then 0 else 1)"
proof (induction n)
  case 0
  then show ?case using assms(1,3) by (auto intro!: exI [of _ 0])
next
  case (Suc n)
  then obtain t k where t: "inject_calls gen n s = Some t" "\<not> inj_pause t" "sYieldFrequency t = sYieldFrequency s"
    "inj_count t \<le> sYieldFrequency t" "sInjectedCount t = sInjectedCount s + of_nat k"
    and low: "n \<le> k * (f + 1) + unat (inj_count t)"
    and high: "2 * k \<le> n + (if inj_count t = sYieldFrequency t then 0 else 1)" by blast
  have "0 < sYieldFrequency t" using t(3) assms(2) by simp
  from inject_call [OF t(2) this t(4), of gen]
  obtain u b where u: "MaybeInject gen Some t = Some u" "\<not> inj_pause u" "sYieldFrequency u = sYieldFrequency t"
    "inj_count u \<le> sYieldFrequency u" "sInjectedCount u = sInjectedCount t + (if b then 1 else 0)"
    and b: "b \<longleftrightarrow> inj_count t = sYieldFrequency t"
    and c: "if b then inj_count u < sYieldFrequency u else unat (inj_count u) = Suc (unat (inj_count t))"
    by (elim exE conjE) (rule that)
  show ?case
  proof (cases b)
    case True
    then have f: "unat (inj_count t) = f" using b t(3) by (simp add: f_def)
    have "Suc n \<le> Suc k * (f + 1) + unat (inj_count u)" using low f by simp
    moreover have "2 * Suc k \<le> Suc n + 1" using high b True by simp
    moreover have "inj_count u \<noteq> sYieldFrequency s" using c True u(3) t(3) by simp
    moreover have "sInjectedCount u = sInjectedCount s + of_nat (Suc k)" using u(5) t(5) True by (simp add: ac_simps)
    moreover have "inject_calls gen (Suc n) s = Some u" using t(1) u(1) by simp
    ultimately show ?thesis using u(2,3,4) t(3)
      by (intro exI [of _ u] exI [of _ "Suc k"]) (simp only: if_False simp_thms)
  next
    case False
    then have c: "unat (inj_count u) = Suc (unat (inj_count t))" using c by simp
    have "Suc n \<le> k * (f + 1) + unat (inj_count u)" using low c by simp
    moreover have "2 * k \<le> Suc n" using high by (simp split: if_splits)
    then have "2 * k \<le> Suc n + (if inj_count u = sYieldFrequency u then 0 else 1)" by simp
    moreover have "sInjectedCount u = sInjectedCount s + of_nat k" using u(5) t(5) False by simp
    moreover have "inject_calls gen (Suc n) s = Some u" using t(1) u(1) by simp
    ultimately show ?thesis using u(2,3,4) t(3) by (intro exI [of _ u] exI [of _ k]) (simp only: simp_thms)
  qed
qed

text \<open>
  How often the injector injects. While it is enabled, with a frequency \<open>f\<close> that is not zero and
  a counter that does not exceed it (as it starts), no call of \<open>MaybeInject\<close> is undefined, and
  whatever the random numbers are, \<open>n\<close> calls inject \<open>k\<close> times with \<open>n < (k + 1) * (f + 1)\<close> and
  \<open>2 * k \<le> n + 1\<close>: at least once in every \<open>f + 1\<close> calls, and never twice in a row.
\<close>

lemma injector_bounds:
  assumes "\<not> inj_pause s" and "0 < sYieldFrequency s" and "inj_count s \<le> sYieldFrequency s"
  shows "\<exists>t k. inject_calls gen n s = Some t \<and> GetInjectedCount t = GetInjectedCount s + of_nat k \<and>
    n < (k + 1) * (unat (sYieldFrequency s) + 1) \<and> 2 * k \<le> n + 1"
proof -
  obtain t k where t: "inject_calls gen n s = Some t" "sYieldFrequency t = sYieldFrequency s"
    "inj_count t \<le> sYieldFrequency t" "sInjectedCount t = sInjectedCount s + of_nat k"
    "n \<le> k * (unat (sYieldFrequency s) + 1) + unat (inj_count t)"
    "2 * k \<le> n + (if inj_count t = sYieldFrequency t then 0 else 1)"
    using inject_calls_count [OF assms, of gen n] by blast
  moreover have "unat (inj_count t) \<le> unat (sYieldFrequency s)" using t(2,3) by (simp add: word_le_nat_alt)
  moreover have "2 * k \<le> n + 1" using t(6) by (simp split: if_splits)
  ultimately show ?thesis by (auto simp: GetInjectedCount_def)
qed


text \<open>A frequency of zero is undefined behaviour at the first call, a remainder by zero.\<close>

lemma injector_zero: "\<not> inj_pause s \<Longrightarrow> MaybeInject gen yield (SetFrequency 0 s) = None"
  by (simp add: MaybeInject_def NeedInject_def Injector_Reset_def GetRandNumber_def SetFrequency_def Let_def)

subsection \<open>Replaying a run\<close>

text \<open>What consumes random numbers and drives the injector while a test runs.\<close>

datatype fault_act = ARandom u64 | AInject | AWeak | ADisable | AEnable

fun act_run :: "engine \<Rightarrow> fault_act list \<Rightarrow> faults \<Rightarrow> faults option" where
  "act_run gen [] s = Some s"
| "act_run gen (ARandom b # as) s = do { (r, s) \<leftarrow> GetRandNumber gen b s; act_run gen as s }"
| "act_run gen (AInject # as) s = do { s \<leftarrow> MaybeInject gen Some s; act_run gen as s }"
| "act_run gen (AWeak # as) s = do { (f, s) \<leftarrow> ShouldFailAtomicWeak gen s; act_run gen as s }"
| "act_run gen (ADisable # as) s = act_run gen as (Injector_Disable s)"
| "act_run gen (AEnable # as) s = act_run gen as (Injector_Enable s)"

definition same_config :: "faults \<Rightarrow> faults \<Rightarrow> bool" where
  "same_config s t \<longleftrightarrow> t = s\<lparr>eng_pos := eng_pos t, sRandCount := sRandCount t, sInjectedCount := sInjectedCount t,
     inj_count := inj_count t, inj_pause := inj_pause t\<rparr> \<and>
   eng_pos s \<le> eng_pos t \<and> sRandCount t = sRandCount s + of_nat (eng_pos t - eng_pos s)"

lemma same_config_refl: "same_config s s"
  by (simp add: same_config_def)

lemma same_config_trans: "same_config s t \<Longrightarrow> same_config t u \<Longrightarrow> same_config s u"
  unfolding same_config_def
  by (cases s; cases t; cases u) (auto simp flip: of_nat_add)

lemma same_config_draw: "GetRandNumber gen b s = Some (r, t) \<Longrightarrow> same_config s t"
  by (auto simp: GetRandNumber_def same_config_def split: if_splits)

lemma same_config_inject: "MaybeInject gen Some s = Some t \<Longrightarrow> same_config s t"
  by (auto simp: MaybeInject_def NeedInject_def Injector_Reset_def GetRandNumber_def same_config_def Let_def
      bind_eq_Some_conv split: if_splits)

lemma same_config_weak: "ShouldFailAtomicWeak gen s = Some (b, t) \<Longrightarrow> same_config s t"
  by (auto simp: ShouldFailAtomicWeak_def Let_def bind_eq_Some_conv split: if_splits
      intro: same_config_draw same_config_refl)

lemma same_config_pause: "same_config s (Injector_Disable s)" "same_config s (Injector_Enable s)"
  by (simp_all add: same_config_def Injector_Disable_def Injector_Enable_def)

lemma same_config_run: "act_run gen as s = Some t \<Longrightarrow> same_config s t"
  by (induction gen as s rule: act_run.induct)
     (auto simp: bind_eq_Some_conv intro: same_config_refl same_config_trans same_config_pause
       same_config_draw same_config_inject same_config_weak)

lemma draw_many_eq:
  "draw_many gen n s = Some (s\<lparr>eng_pos := eng_pos s + n, sRandCount := sRandCount s + of_nat n\<rparr>)"
  by (induction n arbitrary: s) (simp_all add: GetRandNumber_def add.assoc)

text \<open>
  C20: A failed test can be replayed. Take any run of a process that has not used its engine, and note its
  random count, its injector state and whether the injector was paused. A fresh process with the
  same seed and settings that forwards its random count, sets the injector state and pauses alike is in the
  same state, up to the statistics of injected faults, and so does the same from there on. (The count tells the position
  of the engine as long as fewer than \<open>2 ^ 64\<close> numbers were drawn.)
\<close>

theorem fault_replay:
  assumes "eng_pos s = 0" and "sRandCount s = 0" and "act_run gen as s = Some t" and "eng_pos t < 2 ^ 64"
  shows "\<exists>u. ForwardToFaultRandomCount gen (GetRandCount t) s = Some u \<and>
    (SetInjectorState (Injector_GetState t) u)\<lparr>inj_pause := inj_pause t\<rparr> = t\<lparr>sInjectedCount := sInjectedCount s\<rparr>"
proof -
  have t: "same_config s t" by (rule same_config_run [OF assms(3)])
  then have "unat (GetRandCount t) = eng_pos t"
    using assms(1,2,4) by (simp add: same_config_def GetRandCount_def unat_of_nat take_bit_nat_eq_self)
  then show ?thesis using t assms(1,2)
    by (cases s; cases t) (simp add: ForwardToFaultRandomCount_def ForwardToRandCount_def draw_many_eq same_config_def
        SetInjectorState_def Injector_SetState_def Injector_GetState_def)
qed

lemma demo_act_run:
  "\<exists>t. act_run demo_gen [ARandom 7, AInject, AWeak, ARandom 10] faults_start = Some t \<and> eng_pos t = 3 \<and> sRandCount t = 3"
  by (simp add: faults_start_def demo_gen_def GetRandNumber_def MaybeInject_def NeedInject_def Let_def ShouldFailAtomicWeak_def)

theorem fault_replay_witness:
  "\<exists>t u. act_run demo_gen [ARandom 7, AInject, AWeak, ARandom 10] faults_start = Some t \<and>
    ForwardToFaultRandomCount demo_gen 3 faults_start = Some u \<and> eng_pos u = 3 \<and>
    (SetInjectorState (Injector_GetState t) u)\<lparr>inj_pause := inj_pause t\<rparr> = t\<lparr>sInjectedCount := sInjectedCount faults_start\<rparr>"
proof -
  from demo_act_run obtain t where t: "act_run demo_gen [ARandom 7, AInject, AWeak, ARandom 10] faults_start = Some t"
    "eng_pos t = 3" "sRandCount t = 3" by blast
  then obtain u where u: "ForwardToFaultRandomCount demo_gen 3 faults_start = Some u"
    "(SetInjectorState (Injector_GetState t) u)\<lparr>inj_pause := inj_pause t\<rparr> = t\<lparr>sInjectedCount := sInjectedCount faults_start\<rparr>"
    using fault_replay [OF _ _ t(1)] by (auto simp: faults_start_def GetRandCount_def)
  moreover have "eng_pos u = 3"
    using u(1) by (auto simp: ForwardToFaultRandomCount_def ForwardToRandCount_def draw_many_eq faults_start_def)
  ultimately show ?thesis using t(1) by blast
qed

text \<open>
  The documentation says that the count is forwarded to its argument; it is forwarded by its
  argument, which is the same only in a process that drew no number.
\<close>

lemma forward_adds:
  "ForwardToFaultRandomCount gen n s = Some t \<Longrightarrow> GetRandCount t = GetRandCount s + n"
  by (auto simp: ForwardToFaultRandomCount_def ForwardToRandCount_def draw_many_eq GetRandCount_def)

end
