(* ===== verification/CoroMutex.thy ===== *)
theory CoroMutex
  imports Prelude
begin

section \<open>The mutex of coroutines\<close>

text \<open>
  \<open>coro/mutex.hpp\<close>. A coroutine that cannot take the lock pushes itself on the stack of waiters in the
  word \<open>_sender\<close> and is suspended; the owner who unlocks takes the whole stack, keeps it in
  \<open>_receiver\<close>, and wakes one waiter at a time, by submitting it to its executor or by a symmetric
  transfer. A step is one atomic operation of \<open>_sender\<close> with the private work around it.

  A coroutine is a number; \<open>coros\<close> has what each is doing, \<open>exec\<close> its field \<open>_executor\<close>, \<open>on\<close> the
  executor whose thread runs it. After \<open>UnlockOn\<close> the coroutine is already submitted elsewhere while
  the thread still unlocks: such threads are the list \<open>ths\<close>. \<open>FIFO\<close> and \<open>Batching\<close> are the
  template parameters. Executors are assumed to run what is submitted to them, in any order.
\<close>

subsection \<open>States\<close>

text \<open>\<open>TryLock\<close>, \<open>Lock\<close>, and \<open>Lock\<close> of a \<open>StickyGuard\<close>, which remembers the executor.\<close>

datatype lock_kind = LTry | LAwait | LSticky

text \<open>
  How far an unlock is: before \<open>TryUnlockAwait\<close>, between its load and its compare and exchange, after it
  failed, and with the waiter it got (and whether \<open>_receiver\<close> had it).
\<close>

datatype uphase = UStart | UCas | UNext | UGot nat bool

text \<open>\<open>UnlockHere\<close>, and the awaiter of \<open>Unlock\<close>.\<close>

datatype unlock_kind = UHere | UAwait

datatype cst =
  CFree
| CTry lock_kind
| CAwait lock_kind
| CPush lock_kind "nat uptr"
| CWait lock_kind
| CCalled lock_kind nat
| COwn lock_kind
| CUnl unlock_kind uphase
| CAway nat

text \<open>
  A thread that unlocks without its coroutine: in \<open>AwaitUnlockOn\<close> with the saved \<open>curr_executor\<close> and
  the executor of the thread, or about to transfer to a waiter.
\<close>

datatype th = ThUnl nat nat uphase | ThGo nat nat | ThEnd

record mutex =
  sender :: "nat uptr"
  receiver :: "nat option"
  nxt :: "nat \<Rightarrow> nat option"
  coros :: "cst list"
  ths :: "th list"
  exec :: "nat \<Rightarrow> nat"
  on :: "nat \<Rightarrow> nat"
  sticky :: "nat \<Rightarrow> nat option"
  home :: "nat \<Rightarrow> nat"
  arrived :: "nat list"
  granted :: "nat list"

text \<open>
  \<open>sticky\<close> is the field \<open>_executor\<close> of the coroutine's \<open>StickyGuard\<close>. Not in the code: \<open>home\<close> is the
  executor the coroutine had when it asked for the lock, \<open>arrived\<close> and \<open>granted\<close> are the coroutines
  that parked and that were taken from the queue, in order.
\<close>

definition mutex_new :: "nat \<Rightarrow> (nat \<Rightarrow> nat) \<Rightarrow> mutex" where
  "mutex_new n e = \<lparr>sender = UMax, receiver = None, nxt = (\<lambda>_. None), coros = replicate n CFree, ths = [],
     exec = e, on = e, sticky = (\<lambda>_. None), home = e, arrived = [], granted = []\<rparr>"

subsection \<open>Operations\<close>

definition set_coro :: "nat \<Rightarrow> cst \<Rightarrow> mutex \<Rightarrow> mutex" where
  "set_coro c st s = s\<lparr>coros := (coros s)[c := st]\<rparr>"

definition set_th :: "nat \<Rightarrow> th \<Rightarrow> mutex \<Rightarrow> mutex" where
  "set_th i t s = s\<lparr>ths := (ths s)[i := t]\<rparr>"

text \<open>\<open>TryLockAwait\<close>: a load, and a compare and exchange where it may succeed.\<close>

definition lock_failed :: "lock_kind \<Rightarrow> cst" where
  "lock_failed l = (if l = LTry then CFree else CAwait l)"

definition TryLockAwait_load :: "lock_kind \<Rightarrow> mutex \<Rightarrow> cst" where
  "TryLockAwait_load l s = (if sender s = UMax then CTry l else lock_failed l)"

definition TryLockAwait_cas :: "lock_kind \<Rightarrow> mutex \<Rightarrow> cst \<times> mutex" where
  "TryLockAwait_cas l s =
     (if sender s = UMax then (COwn l, s\<lparr>sender := UZero\<rparr>) else (lock_failed l, s))"

text \<open>One turn of the loop of \<open>AwaitLock\<close>; the weak operation may fail for no reason (\<open>weak\<close>).\<close>

definition AwaitLock_turn :: "nat \<Rightarrow> lock_kind \<Rightarrow> nat uptr \<Rightarrow> bool \<Rightarrow> mutex \<Rightarrow> cst \<times> mutex" where
  "AwaitLock_turn c l expected weak s =
     (if expected = UMax then
        if sender s = expected \<and> \<not> weak then (COwn l, s\<lparr>sender := UZero\<rparr>) else (CPush l (sender s), s)
      else
        let s = s\<lparr>nxt := (nxt s)(c := ptr_of expected)\<rparr>
        in if sender s = expected \<and> \<not> weak
           then (CWait l, s\<lparr>sender := UAt c, arrived := arrived s @ [c]\<rparr>) else (CPush l (sender s), s))"

text \<open>
  \<open>TryUnlockAwait\<close>: the test of \<open>_receiver\<close> and the load, then the compare and exchange. The result
  None is an unlock that is done.
\<close>

definition TryUnlockAwait_load :: "mutex \<Rightarrow> uphase" where
  "TryUnlockAwait_load s =
     (if receiver s \<noteq> None then UNext else if sender s = UZero then UCas else UNext)"

definition TryUnlockAwait_cas :: "mutex \<Rightarrow> uphase option \<times> mutex" where
  "TryUnlockAwait_cas s =
     (if sender s = UZero then (None, s\<lparr>sender := UMax\<rparr>) else (Some UNext, s))"

definition BatchingPossible :: "bool \<Rightarrow> mutex \<Rightarrow> bool" where
  "BatchingPossible Batching s \<longleftrightarrow> Batching \<and> receiver s \<noteq> None"

text \<open>
  \<open>GetHead\<close> and the assignment \<open>_receiver = next.next\<close> that follows each of its calls. With \<open>FIFO\<close> the
  stack is reversed in place. The value None is the null pointer the code does not test for.
\<close>

definition GetHead :: "bool \<Rightarrow> mutex \<Rightarrow> (nat \<times> mutex) option" where
  "GetHead FIFO s =
     (case receiver s of
        Some r \<Rightarrow> Some (r, s)
      | None \<Rightarrow>
          (case sender s of
             UAt node \<Rightarrow>
               let s = s\<lparr>sender := UZero\<rparr>
               in if FIFO
                  then map_option (\<lambda>(h, prev). (prev, s\<lparr>nxt := h\<rparr>)) (reverse_loop (nxt s) node None)
                  else Some (node, s)
           | _ \<Rightarrow> None))"

definition take_next :: "nat \<Rightarrow> mutex \<Rightarrow> mutex" where
  "take_next h s = s\<lparr>receiver := nxt s h, granted := granted s @ [h]\<rparr>"

definition Submit_owner :: "nat \<Rightarrow> mutex \<Rightarrow> mutex" where
  "Submit_owner h s = (case coros s ! h of CWait l \<Rightarrow> set_coro h (CCalled l (exec s h)) s | _ \<Rightarrow> s)"

definition Transfer_owner :: "nat \<Rightarrow> nat \<Rightarrow> mutex \<Rightarrow> mutex" where
  "Transfer_owner h t s =
     (case coros s ! h of CWait l \<Rightarrow> set_coro h (COwn l) (s\<lparr>on := (on s)(h := t)\<rparr>) | _ \<Rightarrow> s)"

text \<open>The steps of an unlock that do not depend on who performs it.\<close>

definition unlock_phase :: "bool \<Rightarrow> uphase \<Rightarrow> mutex \<Rightarrow> (uphase option \<times> mutex) option" where
  "unlock_phase FIFO ph s =
     (case ph of
        UStart \<Rightarrow> Some (Some (TryUnlockAwait_load s), s)
      | UCas \<Rightarrow> Some (TryUnlockAwait_cas s)
      | UNext \<Rightarrow> map_option (\<lambda>(h, s'). (Some (UGot h (receiver s \<noteq> None)), take_next h s')) (GetHead FIFO s)
      | UGot h b \<Rightarrow> None)"

text \<open>\<open>AwaitUnlock\<close> up to its transfer: executors are swapped and the current coroutine is submitted.\<close>

definition AwaitUnlock :: "nat \<Rightarrow> nat \<Rightarrow> mutex \<Rightarrow> mutex" where
  "AwaitUnlock c r s =
     (let s = take_next r s;
          s = s\<lparr>exec := (exec s)(c := exec s r, r := exec s c)\<rparr>;
          s = set_coro c (CAway (exec s c)) s
      in s\<lparr>ths := ths s @ [ThGo r (on s c)]\<rparr>)"

text \<open>\<open>AwaitUnlockOn\<close>: its start, and its end once it has the next owner.\<close>

definition AwaitUnlockOn_start :: "nat \<Rightarrow> nat \<Rightarrow> mutex \<Rightarrow> mutex" where
  "AwaitUnlockOn_start c e s =
     (let curr_executor = exec s c;
          s = s\<lparr>exec := (exec s)(c := e)\<rparr>;
          s = set_coro c (CAway e) s
      in s\<lparr>ths := ths s @ [ThUnl curr_executor (on s c) UStart]\<rparr>)"

definition AwaitUnlockOn_end :: "bool \<Rightarrow> nat \<Rightarrow> nat \<Rightarrow> nat \<Rightarrow> bool \<Rightarrow> mutex \<Rightarrow> mutex" where
  "AwaitUnlockOn_end Batching x t h had s =
     (if Batching \<and> had then Transfer_owner h t (s\<lparr>exec := (exec s)(h := x)\<rparr>)
      else Submit_owner h s)"

text \<open>\<open>co_await On(e)\<close> of a coroutine outside its critical sections.\<close>

definition On_suspend :: "nat \<Rightarrow> nat \<Rightarrow> mutex \<Rightarrow> mutex" where
  "On_suspend c e s = set_coro c (CAway e) (s\<lparr>exec := (exec s)(c := e)\<rparr>)"

text \<open>\<open>Unlock\<close> of a \<open>StickyGuard\<close>.\<close>

definition UnlockSticky :: "nat \<Rightarrow> mutex \<Rightarrow> mutex" where
  "UnlockSticky c s =
     (case sticky s c of
        None \<Rightarrow> set_coro c (CUnl UHere UStart) s
      | Some e \<Rightarrow> AwaitUnlockOn_start c e s)"

definition sticky_set :: "lock_kind \<Rightarrow> nat \<Rightarrow> nat option \<Rightarrow> mutex \<Rightarrow> mutex" where
  "sticky_set l c v s = (if l = LSticky then s\<lparr>sticky := (sticky s)(c := v)\<rparr> else s)"

definition sticky_own :: "nat \<Rightarrow> cst \<times> mutex \<Rightarrow> mutex" where
  "sticky_own c r = (case r of (st, s) \<Rightarrow>
     set_coro c st (case st of COwn l \<Rightarrow> sticky_set l c None s | _ \<Rightarrow> s))"

subsection \<open>Steps\<close>

inductive mutex_step :: "bool \<Rightarrow> bool \<Rightarrow> mutex \<Rightarrow> mutex \<Rightarrow> bool" for FIFO Batching where
  lock_load: "c < length (coros s) \<Longrightarrow> coros s ! c = CFree \<Longrightarrow>
    mutex_step FIFO Batching s
      (set_coro c (TryLockAwait_load l s) (sticky_set l c None (s\<lparr>home := (home s)(c := exec s c)\<rparr>)))"
| lock_cas: "c < length (coros s) \<Longrightarrow> coros s ! c = CTry l \<Longrightarrow>
    mutex_step FIFO Batching s (sticky_own c (TryLockAwait_cas l s))"
| await_load: "c < length (coros s) \<Longrightarrow> coros s ! c = CAwait l \<Longrightarrow>
    mutex_step FIFO Batching s (set_coro c (CPush l (sender s)) (sticky_set l c (Some (exec s c)) s))"
| await_turn: "c < length (coros s) \<Longrightarrow> coros s ! c = CPush l expected \<Longrightarrow>
    mutex_step FIFO Batching s (sticky_own c (AwaitLock_turn c l expected weak s))"
| resume_own: "c < length (coros s) \<Longrightarrow> coros s ! c = CCalled l e \<Longrightarrow>
    mutex_step FIFO Batching s (set_coro c (COwn l) (s\<lparr>on := (on s)(c := e)\<rparr>))"
| resume_free: "c < length (coros s) \<Longrightarrow> coros s ! c = CAway e \<Longrightarrow>
    mutex_step FIFO Batching s (set_coro c CFree (s\<lparr>on := (on s)(c := e)\<rparr>))"
| switch_on: "c < length (coros s) \<Longrightarrow> coros s ! c = CFree \<Longrightarrow>
    mutex_step FIFO Batching s (On_suspend c e s)"
| unlock_start: "c < length (coros s) \<Longrightarrow> coros s ! c = COwn l \<Longrightarrow>
    mutex_step FIFO Batching s (set_coro c (CUnl k UStart) s)"
| unlock_on: "c < length (coros s) \<Longrightarrow> coros s ! c = COwn l \<Longrightarrow>
    mutex_step FIFO Batching s (AwaitUnlockOn_start c e s)"
| unlock_sticky: "c < length (coros s) \<Longrightarrow> coros s ! c = COwn LSticky \<Longrightarrow>
    mutex_step FIFO Batching s (UnlockSticky c s)"
| unlock_more: "c < length (coros s) \<Longrightarrow> coros s ! c = CUnl k ph \<Longrightarrow>
    \<not> (k = UAwait \<and> ph = UNext \<and> BatchingPossible Batching s) \<Longrightarrow>
    unlock_phase FIFO ph s = Some (Some ph', s') \<Longrightarrow>
    mutex_step FIFO Batching s (set_coro c (CUnl k ph') s')"
| unlock_done: "c < length (coros s) \<Longrightarrow> coros s ! c = CUnl k ph \<Longrightarrow>
    unlock_phase FIFO ph s = Some (None, s') \<Longrightarrow>
    mutex_step FIFO Batching s (set_coro c CFree s')"
| unlock_batch: "c < length (coros s) \<Longrightarrow> coros s ! c = CUnl UAwait UNext \<Longrightarrow>
    BatchingPossible Batching s \<Longrightarrow> receiver s = Some r \<Longrightarrow>
    mutex_step FIFO Batching s (AwaitUnlock c r s)"
| unlock_submit: "c < length (coros s) \<Longrightarrow> coros s ! c = CUnl k (UGot h b) \<Longrightarrow>
    mutex_step FIFO Batching s (set_coro c CFree (Submit_owner h s))"
| thread_more: "i < length (ths s) \<Longrightarrow> ths s ! i = ThUnl x t ph \<Longrightarrow>
    unlock_phase FIFO ph s = Some (Some ph', s') \<Longrightarrow>
    mutex_step FIFO Batching s (set_th i (ThUnl x t ph') s')"
| thread_done: "i < length (ths s) \<Longrightarrow> ths s ! i = ThUnl x t ph \<Longrightarrow>
    unlock_phase FIFO ph s = Some (None, s') \<Longrightarrow>
    mutex_step FIFO Batching s (set_th i ThEnd s')"
| thread_end: "i < length (ths s) \<Longrightarrow> ths s ! i = ThUnl x t (UGot h b) \<Longrightarrow>
    mutex_step FIFO Batching s (set_th i ThEnd (AwaitUnlockOn_end Batching x t h b s))"
| thread_transfer: "i < length (ths s) \<Longrightarrow> ths s ! i = ThGo h t \<Longrightarrow>
    mutex_step FIFO Batching s (set_th i ThEnd (Transfer_owner h t s))"

abbreviation mutex_reach :: "bool \<Rightarrow> bool \<Rightarrow> mutex \<Rightarrow> mutex \<Rightarrow> bool" where
  "mutex_reach FIFO Batching \<equiv> (mutex_step FIFO Batching)\<^sup>*\<^sup>*"

subsection \<open>The invariant\<close>

text \<open>
  The lock is a token: the word says that the mutex is free, or exactly one coroutine or thread holds it.
\<close>

fun ctok :: "cst \<Rightarrow> nat" where
  "ctok (CCalled l e) = 1" | "ctok (COwn l) = 1" | "ctok (CUnl k ph) = 1" | "ctok _ = 0"

fun ttok :: "th \<Rightarrow> nat" where
  "ttok ThEnd = 0" | "ttok _ = 1"

fun ph_pend :: "uphase \<Rightarrow> nat multiset" where
  "ph_pend (UGot h b) = {#h#}" | "ph_pend _ = {#}"

fun cpend :: "cst \<Rightarrow> nat multiset" where
  "cpend (CUnl k ph) = ph_pend ph" | "cpend _ = {#}"

fun tpend :: "th \<Rightarrow> nat multiset" where
  "tpend (ThUnl x t ph) = ph_pend ph" | "tpend (ThGo h t) = {#h#}" | "tpend ThEnd = {#}"

fun is_wait :: "cst \<Rightarrow> bool" where
  "is_wait (CWait l) = True" | "is_wait _ = False"

definition tokens :: "mutex \<Rightarrow> nat" where
  "tokens s = sum_list (map ctok (coros s)) + sum_list (map ttok (ths s)) + of_bool (sender s = UMax)"

definition pend :: "mutex \<Rightarrow> nat multiset" where
  "pend s = sum_list (map cpend (coros s)) + sum_list (map tpend (ths s))"

definition waits :: "mutex \<Rightarrow> nat \<Rightarrow> bool" where
  "waits s c \<longleftrightarrow> c < length (coros s) \<and> is_wait (coros s ! c)"

definition chains :: "mutex \<Rightarrow> nat list \<Rightarrow> nat list \<Rightarrow> bool" where
  "chains s rs ss \<longleftrightarrow> nlist (nxt s) (receiver s) rs \<and> nlist (nxt s) (ptr_of (sender s)) ss"

definition order :: "bool \<Rightarrow> mutex \<Rightarrow> nat list \<Rightarrow> nat list \<Rightarrow> bool" where
  "order FIFO s rs ss \<longleftrightarrow> mset (arrived s) = mset (granted s) + mset rs + mset ss \<and>
     (FIFO \<longrightarrow> arrived s = granted s @ rs @ rev ss)"

definition queue :: "bool \<Rightarrow> mutex \<Rightarrow> bool" where
  "queue FIFO s \<longleftrightarrow> (\<exists>rs ss. chains s rs ss \<and> order FIFO s rs ss \<and>
     (\<forall>c. count (mset rs + mset ss + pend s) c = of_bool (waits s c)))"

fun ph_ok :: "mutex \<Rightarrow> uphase \<Rightarrow> bool" where
  "ph_ok s UStart = True"
| "ph_ok s UCas = (receiver s = None)"
| "ph_ok s UNext = (receiver s \<noteq> None \<or> (\<exists>h. sender s = UAt h))"
| "ph_ok s (UGot h b) = True"

fun cok :: "mutex \<Rightarrow> nat \<Rightarrow> cst \<Rightarrow> bool" where
  "cok s c CFree = (on s c = exec s c)"
| "cok s c (CTry l) = (on s c = exec s c \<and> (l = LSticky \<longrightarrow> sticky s c = None \<and> exec s c = home s c))"
| "cok s c (CAwait l) = (on s c = exec s c \<and> (l = LSticky \<longrightarrow> exec s c = home s c))"
| "cok s c (CPush l e) = (on s c = exec s c \<and> (l = LSticky \<longrightarrow> sticky s c = Some (home s c) \<and> exec s c = home s c))"
| "cok s c (CWait l) = (l = LSticky \<longrightarrow> sticky s c = Some (home s c))"
| "cok s c (CCalled l e) = (exec s c = e \<and> (l = LSticky \<longrightarrow> sticky s c = Some (home s c)))"
| "cok s c (COwn l) = (on s c = exec s c \<and>
     (l = LSticky \<longrightarrow> (case sticky s c of None \<Rightarrow> exec s c = home s c | Some e \<Rightarrow> e = home s c)))"
| "cok s c (CUnl k ph) = (on s c = exec s c \<and> ph_ok s ph)"
| "cok s c (CAway e) = (exec s c = e)"

fun tok_ok :: "mutex \<Rightarrow> th \<Rightarrow> bool" where
  "tok_ok s (ThUnl x t ph) = (x = t \<and> ph_ok s ph)"
| "tok_ok s (ThGo h t) = (exec s h = t)"
| "tok_ok s ThEnd = True"

definition mutex_inv :: "bool \<Rightarrow> mutex \<Rightarrow> bool" where
  "mutex_inv FIFO s \<longleftrightarrow> tokens s = 1 \<and> (sender s = UMax \<longrightarrow> receiver s = None) \<and> queue FIFO s \<and>
     (\<forall>c < length (coros s). cok s c (coros s ! c)) \<and> (\<forall>t \<in> set (ths s). tok_ok s t)"

lemma mutex_inv_new: "mutex_inv FIFO (mutex_new n e)"
proof -
  have "sum_list (map f (replicate n CFree)) = 0" if "f CFree = 0" for f :: "cst \<Rightarrow> nat"
    using that by (rule sum_list_replicate_zero)
  moreover have "sum_list (map cpend (replicate n CFree)) = {#}"
    by (rule sum_list_replicate_zero) simp
  ultimately show ?thesis
    by (auto simp: mutex_inv_def mutex_new_def tokens_def pend_def queue_def chains_def order_def waits_def
        simp del: map_replicate sum_list_replicate)
qed

subsection \<open>Updates of the tables\<close>

lemma set_coro_simps [simp]:
  "sender (set_coro c st s) = sender s" "receiver (set_coro c st s) = receiver s" "nxt (set_coro c st s) = nxt s"
  "coros (set_coro c st s) = (coros s)[c := st]" "ths (set_coro c st s) = ths s" "exec (set_coro c st s) = exec s"
  "on (set_coro c st s) = on s" "sticky (set_coro c st s) = sticky s" "home (set_coro c st s) = home s"
  "arrived (set_coro c st s) = arrived s" "granted (set_coro c st s) = granted s"
  by (simp_all add: set_coro_def)

lemma set_th_simps [simp]:
  "sender (set_th i t s) = sender s" "receiver (set_th i t s) = receiver s" "nxt (set_th i t s) = nxt s"
  "coros (set_th i t s) = coros s" "ths (set_th i t s) = (ths s)[i := t]" "exec (set_th i t s) = exec s"
  "on (set_th i t s) = on s" "sticky (set_th i t s) = sticky s" "home (set_th i t s) = home s"
  "arrived (set_th i t s) = arrived s" "granted (set_th i t s) = granted s"
  by (simp_all add: set_th_def)

lemma sticky_set_simps [simp]:
  "sender (sticky_set l c v s) = sender s" "receiver (sticky_set l c v s) = receiver s" "nxt (sticky_set l c v s) = nxt s"
  "coros (sticky_set l c v s) = coros s" "ths (sticky_set l c v s) = ths s" "exec (sticky_set l c v s) = exec s"
  "on (sticky_set l c v s) = on s" "home (sticky_set l c v s) = home s"
  "arrived (sticky_set l c v s) = arrived s" "granted (sticky_set l c v s) = granted s"
  "sticky (sticky_set l c v s) = (if l = LSticky then (sticky s)(c := v) else sticky s)"
  by (simp_all add: sticky_set_def)

text \<open>Facts about tables of coroutines and threads, by number: the sums move by the entry.\<close>

lemma table_facts:
  assumes "c < length cs"
  shows "sum_list (map ctok (cs[c := st])) + ctok (cs ! c) = sum_list (map ctok cs) + ctok st"
    and "sum_list (map cpend (cs[c := st])) + cpend (cs ! c) = sum_list (map cpend cs) + cpend st"
  using assms by (simp_all add: sum_list_step)

lemma thread_facts:
  assumes "i < length ts"
  shows "sum_list (map ttok (ts[i := t])) + ttok (ts ! i) = sum_list (map ttok ts) + ttok t"
    and "sum_list (map tpend (ts[i := t])) + tpend (ts ! i) = sum_list (map tpend ts) + tpend t"
  using assms by (simp_all add: sum_list_step)

lemma ttok_0 [simp]: "ttok t = 0 \<longleftrightarrow> t = ThEnd"
  by (cases t) simp_all

text \<open>Whoever holds the token is alone.\<close>

lemma entry_alone:
  fixes f :: "'a \<Rightarrow> nat"
  assumes "sum_list (map f xs) \<le> 1" and "i < length xs" and "f (xs ! i) = 1" and "j < length xs" and "j \<noteq> i"
  shows "f (xs ! j) = 0"
proof -
  obtain z where z: "z = (xs ! i)" by blast
  have "f (xs ! j) + f (xs ! i) \<le> sum_list (map f xs)"
    using assms(2,4,5)
  proof (induction xs arbitrary: i j)
    case (Cons x xs)
    then show ?case
      by (cases i; cases j) (use sum_list_entry_le [of _ xs f] Cons.IH in \<open>fastforce simp: add_mono trans_le_add2\<close>)+
  qed simp
  then show ?thesis using assms(1,3) by simp
qed

lemma zero_entry:
  fixes f :: "'a \<Rightarrow> nat"
  shows "sum_list (map f xs) = 0 \<Longrightarrow> i < length xs \<Longrightarrow> f (xs ! i) = 0"
  using sum_list_entry_le [of i xs f] by linarith

lemma coro_alone:
  assumes "tokens s = 1" and "c < length (coros s)" and "ctok (coros s ! c) = 1"
  shows "sender s \<noteq> UMax" and "\<And>d. d < length (coros s) \<Longrightarrow> d \<noteq> c \<Longrightarrow> ctok (coros s ! d) = 0"
    and "\<And>t. t \<in> set (ths s) \<Longrightarrow> t = ThEnd"
proof -
  have "sum_list (map ctok (coros s)) \<ge> 1"
    using sum_list_entry_le [of c "coros s" ctok] assms by simp
  then have c: "sum_list (map ctok (coros s)) = 1" "sum_list (map ttok (ths s)) = 0" and u: "sender s \<noteq> UMax"
    using assms(1) by (auto simp: tokens_def of_bool_def simp del: sum_list_eq_0_iff split: if_splits)
  show "sender s \<noteq> UMax" by (rule u)
  show "ctok (coros s ! d) = 0" if "d < length (coros s)" "d \<noteq> c" for d
    using entry_alone [of ctok "coros s" c d] c(1) assms(2,3) that by simp
  show "t = ThEnd" if "t \<in> set (ths s)" for t
    using that c(2) by simp
qed

lemma thread_alone:
  assumes "tokens s = 1" and "i < length (ths s)" and "ttok (ths s ! i) = 1"
  shows "sender s \<noteq> UMax" and "\<And>d. d < length (coros s) \<Longrightarrow> ctok (coros s ! d) = 0"
    and "\<And>j. j < length (ths s) \<Longrightarrow> j \<noteq> i \<Longrightarrow> ths s ! j = ThEnd"
proof -
  have "sum_list (map ttok (ths s)) \<ge> 1"
    using sum_list_entry_le [of i "ths s" ttok] assms by simp
  then have c: "sum_list (map ttok (ths s)) = 1" "sum_list (map ctok (coros s)) = 0" and u: "sender s \<noteq> UMax"
    using assms(1) by (auto simp: tokens_def of_bool_def simp del: sum_list_eq_0_iff split: if_splits)
  show "sender s \<noteq> UMax" by (rule u)
  show "ctok (coros s ! d) = 0" if "d < length (coros s)" for d
    using zero_entry [of ctok "coros s" d] c(2) that by simp
  show "ths s ! j = ThEnd" if "j < length (ths s)" "j \<noteq> i" for j
    using entry_alone [of ttok "ths s" i j] c(1) assms(2,3) that by (cases "ths s ! j") simp_all
qed

subsection \<open>The queue\<close>

text \<open>\<open>GetHead\<close> finds a waiter, the next in order, and leaves the rest in order.\<close>

lemma GetHead_queue:
  assumes C: "chains s rs ss" and O: "order FIFO s rs ss" and u: "sender s \<noteq> UMax"
    and ne: "receiver s \<noteq> None \<or> (\<exists>a. sender s = UAt a)"
  shows "\<exists>h s1 rs' ss'. GetHead FIFO s = Some (h, s1) \<and> chains (take_next h s1) rs' ss' \<and>
    order FIFO (take_next h s1) rs' ss' \<and> mset rs + mset ss = {#h#} + (mset rs' + mset ss') \<and>
    sender s1 \<noteq> UMax \<and> s1 = s\<lparr>sender := sender s1, nxt := nxt s1\<rparr>"
proof (cases "receiver s")
  case (Some r)
  with C obtain rs' where rs: "rs = r # rs'" and "nlist (nxt s) (nxt s r) rs'"
    by (auto simp: chains_def nlist_Some)
  then have "chains (take_next r s) rs' ss" using C by (simp add: chains_def take_next_def)
  moreover have "order FIFO (take_next r s) rs' ss" using O rs by (simp add: order_def take_next_def)
  ultimately show ?thesis using Some rs u by (intro exI [of _ r] exI [of _ s] exI [of _ rs'] exI [of _ ss]) (simp add: GetHead_def)
next
  case None
  with ne obtain a where a: "sender s = UAt a" by blast
  with C None obtain xs where rs: "rs = []" and ss: "ss = a # xs" and xs: "nlist (nxt s) (nxt s a) xs"
    by (auto simp: chains_def nlist_Some)
  show ?thesis
  proof (cases FIFO)
    case True
    have "nlist (nxt s) (Some a) (a # xs)" using xs by simp
    then obtain h' p where rev: "reverse_loop (nxt s) a None = Some (h', p)" and p: "nlist h' (Some p) (rev ss)"
      using reverse_loop_total [of "nxt s" a xs None "[]"] ss by auto
    then obtain ys where ys: "rev ss = p # ys" "nlist h' (h' p) ys" by (auto simp: nlist_Some)
    define s1 where "s1 = s\<lparr>sender := UZero, nxt := h'\<rparr>"
    have m: "mset ss = {#p#} + mset ys" using ys(1) by (metis mset.simps(2) mset_rev add_mset_add_single add.commute)
    have "GetHead FIFO s = Some (p, s1)" using True None a rev by (simp add: GetHead_def s1_def)
    moreover have "chains (take_next p s1) ys []" using ys by (simp add: chains_def take_next_def s1_def)
    moreover have "order FIFO (take_next p s1) ys []"
      using O ys m rs True by (simp add: order_def take_next_def s1_def)
    ultimately show ?thesis using m rs
      by (intro exI [of _ p] exI [of _ s1] exI [of _ ys] exI [of _ "[]"]) (simp add: s1_def)
  next
    case False
    define s1 where "s1 = s\<lparr>sender := UZero\<rparr>"
    have "GetHead FIFO s = Some (a, s1)" using False None a by (simp add: GetHead_def s1_def)
    moreover have "chains (take_next a s1) xs []" using xs by (simp add: chains_def take_next_def s1_def)
    moreover have "order FIFO (take_next a s1) xs []"
      using O ss rs False by (simp add: order_def take_next_def s1_def)
    ultimately show ?thesis using ss rs
      by (intro exI [of _ a] exI [of _ s1] exI [of _ xs] exI [of _ "[]"]) (simp add: s1_def)
  qed
qed

lemma queueI:
  "chains s rs ss \<Longrightarrow> order FIFO s rs ss \<Longrightarrow> (\<And>c. count (mset rs + mset ss + pend s) c = of_bool (waits s c)) \<Longrightarrow>
   queue FIFO s"
  unfolding queue_def by blast

text \<open>A step that leaves the words, the pending waiters and the set of waiting coroutines alone.\<close>

lemma queue_same:
  assumes "queue FIFO s" and "sender t = sender s \<or> ptr_of (sender s) = None \<and> ptr_of (sender t) = None"
    and "receiver t = receiver s" and "\<And>c. waits s c \<Longrightarrow> nxt t c = nxt s c"
    and "arrived t = arrived s" "granted t = granted s" and "pend t = pend s" and "\<And>c. waits t c = waits s c"
  shows "queue FIFO t"
proof -
  obtain rs ss where q: "chains s rs ss" "order FIFO s rs ss"
    and m: "\<And>c. count (mset rs + mset ss + pend s) c = of_bool (waits s c)"
    using assms(1) by (auto simp: queue_def)
  have "waits s c" if "c \<in> set rs \<union> set ss" for c
    using m [of c] that by (cases "waits s c") auto
  then have n: "nxt t c = nxt s c" if "c \<in> set rs \<union> set ss" for c using assms(4) that by blast
  have "ptr_of (sender t) = ptr_of (sender s)" using assms(2) by auto
  then have "chains t rs ss" using q(1) n assms(3) by (auto simp: chains_def intro: chain_agree)
  then show ?thesis using q(2) m assms(5-8) by (intro queueI [of t rs ss]) (simp_all add: order_def)
qed

lemma waits_set [simp]:
  "c < length (coros s) \<Longrightarrow> waits (set_coro c st s) d = (if d = c then is_wait st else waits s d)"
  "waits (set_th i t s) d = waits s d"
  by (auto simp: waits_def nth_list_update)

lemma waits_cong: "coros t = coros s \<Longrightarrow> waits t c = waits s c"
  by (simp add: waits_def)

lemma pend_set:
  "c < length (coros s) \<Longrightarrow> pend (set_coro c st s) + cpend (coros s ! c) = pend s + cpend st"
  "i < length (ths s) \<Longrightarrow> pend (set_th i t s) + tpend (ths s ! i) = pend s + tpend t"
  using table_facts(2) [of c "coros s" st] thread_facts(2) [of i "ths s" t]
  by (simp_all add: pend_def ac_simps)

lemma tokens_set:
  "c < length (coros s) \<Longrightarrow> tokens (set_coro c st s) + ctok (coros s ! c) = tokens s + ctok st"
  "i < length (ths s) \<Longrightarrow> tokens (set_th i t s) + ttok (ths s ! i) = tokens s + ttok t"
  using table_facts(1) [of c "coros s" st] thread_facts(1) [of i "ths s" t]
  by (simp_all add: tokens_def)

lemma pend_cong: "coros t = coros s \<Longrightarrow> ths t = ths s \<Longrightarrow> pend t = pend s"
  by (simp add: pend_def)

subsection \<open>Steps keep the invariant\<close>

lemma mutex_inv_parts:
  assumes "mutex_inv FIFO s"
  shows "tokens s = 1" and "sender s = UMax \<longrightarrow> receiver s = None" and "queue FIFO s"
    and "\<And>c. c < length (coros s) \<Longrightarrow> cok s c (coros s ! c)" and "\<And>t. t \<in> set (ths s) \<Longrightarrow> tok_ok s t"
  using assms by (simp_all add: mutex_inv_def)

lemma cok_frame:
  "exec t d = exec s d \<Longrightarrow> on t d = on s d \<Longrightarrow> sticky t d = sticky s d \<Longrightarrow> home t d = home s d \<Longrightarrow>
   ctok st = 0 \<or> (\<forall>ph. ph_ok s ph \<longrightarrow> ph_ok t ph) \<Longrightarrow> cok s d st \<Longrightarrow> cok t d st"
  by (cases st) (auto split: option.splits)

lemma cok_wait_frame:
  "is_wait st \<Longrightarrow> sticky t d = sticky s d \<Longrightarrow> home t d = home s d \<Longrightarrow> cok s d st \<Longrightarrow> cok t d st"
  by (cases st) (auto split: option.splits)

lemma ph_ok_frame: "receiver t = receiver s \<Longrightarrow> sender t = sender s \<Longrightarrow> ph_ok s ph \<Longrightarrow> ph_ok t ph"
  by (cases ph) auto

lemma tok_ok_frame: "exec t = exec s \<Longrightarrow> receiver t = receiver s \<Longrightarrow> sender t = sender s \<Longrightarrow> tok_ok s u \<Longrightarrow> tok_ok t u"
  by (cases u) (auto intro: ph_ok_frame)

text \<open>
  A coroutine without the token moves: it changes neither \<open>_receiver\<close> nor, except by parking, the word.
\<close>

lemma inv_local:
  assumes I: "mutex_inv FIFO s" and c: "c < length (coros s)" and st: "ctok (coros s ! c) = ctok st"
    and old: "cpend (coros s ! c) = {#}" "\<not> is_wait (coros s ! c)" and new: "cpend st = {#}" "\<not> is_wait st"
    and same: "sender t = sender s" "receiver t = receiver s" "coros t = coros s" "ths t = ths s"
      "arrived t = arrived s" "granted t = granted s" "\<And>d. d \<noteq> c \<Longrightarrow> nxt t d = nxt s d"
      "\<And>d. d \<noteq> c \<Longrightarrow> exec t d = exec s d \<and> on t d = on s d \<and> sticky t d = sticky s d \<and> home t d = home s d"
    and ok: "cok t c st" and go: "\<And>h x. ThGo h x \<in> set (ths s) \<Longrightarrow> exec t h = exec s h"
  shows "mutex_inv FIFO (set_coro c st t)"
proof -
  note I = mutex_inv_parts [OF I]
  have "tokens t = tokens s" "pend t = pend s" using same by (simp_all add: tokens_def pend_def)
  then have "tokens (set_coro c st t) = 1" and p: "pend (set_coro c st t) = pend s"
    using tokens_set(1) [of c t st] pend_set(1) [of c t st] c st old new I(1) same(3) by simp_all
  moreover have n: "nxt t d = nxt s d" if "waits s d" for d
    using that old same(7) by (cases "d = c") (auto simp: waits_def)
  have "queue FIFO (set_coro c st t)"
    by (rule queue_same [OF I(3)]) (use same c old new p n in \<open>auto simp: waits_def nth_list_update\<close>)
  moreover have "cok (set_coro c st t) d ((coros t)[c := st] ! d)" if "d < length (coros s)" for d
  proof (cases "d = c")
    case True
    have "cok t c st \<Longrightarrow> cok (set_coro c st t) c st" by (rule cok_frame) (auto simp: ph_ok_frame)
    then show ?thesis using True ok c same by simp
  next
    case False
    have "cok s d (coros s ! d)" using I(4) that by simp
    then have "cok (set_coro c st t) d (coros s ! d)"
      by (rule cok_frame [rotated -1]) (use same False in \<open>auto intro: ph_ok_frame\<close>)
    then show ?thesis using False same by simp
  qed
  moreover have "tok_ok (set_coro c st t) u" if "u \<in> set (ths s)" for u
  proof -
    have "tok_ok s u" using I(5) that by simp
    then show ?thesis using same go that by (cases u) (auto intro: ph_ok_frame)
  qed
  ultimately show ?thesis using I(2) same by (simp add: mutex_inv_def)
qed

text \<open>A coroutine takes the free lock.\<close>

lemma inv_take:
  assumes I: "mutex_inv FIFO s" and c: "c < length (coros s)" and st: "ctok (coros s ! c) = 0"
    and old: "cpend (coros s ! c) = {#}" "\<not> is_wait (coros s ! c)" and free: "sender s = UMax"
    and ok: "on s c = exec s c" "l = LSticky \<longrightarrow> exec s c = home s c"
  shows "mutex_inv FIFO (sticky_own c (COwn l, s\<lparr>sender := UZero\<rparr>))"
proof -
  note I = mutex_inv_parts [OF I]
  define t where "t = sticky_set l c None (s\<lparr>sender := UZero\<rparr>)"
  have t: "coros t = coros s" "ths t = ths s" "receiver t = receiver s" "sender t = UZero" "nxt t = nxt s" "exec t = exec s"
    "on t = on s" "home t = home s" "arrived t = arrived s" "granted t = granted s"
    by (simp_all add: t_def)
  have k: "\<And>d. d \<noteq> c \<Longrightarrow> sticky t d = sticky s d" by (simp add: t_def)
  have z: "sum_list (map ctok (coros s)) = 0" "sum_list (map ttok (ths s)) = 0"
    using I(1) free by (simp_all add: tokens_def)
  have "tokens t = 0" using z by (simp add: tokens_def t)
  then have "tokens (set_coro c (COwn l) t) = 1"
    using tokens_set(1) [of c t "COwn l"] c st by (simp add: t)
  moreover have p: "pend (set_coro c (COwn l) t) = pend s"
    using pend_set(1) [of c t "COwn l"] c old(1) pend_cong [of t s] by (simp add: t)
  moreover have "queue FIFO (set_coro c (COwn l) t)"
    by (rule queue_same [OF I(3)]) (use c old p free in \<open>auto simp: waits_def nth_list_update t\<close>)
  moreover have "cok (set_coro c (COwn l) t) d ((coros s)[c := COwn l] ! d)" if d: "d < length (coros s)" for d
  proof (cases "d = c")
    case True
    then show ?thesis using ok c by (auto simp: t_def)
  next
    case False
    have "ctok (coros s ! d) = 0" using zero_entry [OF z(1) d] .
    then have "cok (set_coro c (COwn l) t) d (coros s ! d)"
      using cok_frame [OF _ _ _ _ _ I(4) [OF d], of "set_coro c (COwn l) t"] t k [OF False] by simp
    then show ?thesis using False by simp
  qed
  moreover have "tok_ok (set_coro c (COwn l) t) u" if "u \<in> set (ths s)" for u
    using z(2) that by (cases u) auto
  ultimately have "mutex_inv FIFO (set_coro c (COwn l) t)" using I(2) t by (auto simp: mutex_inv_def)
  then show ?thesis by (simp add: sticky_own_def t_def)
qed

text \<open>A coroutine parks: it becomes the top of the stack.\<close>

lemma inv_park:
  assumes I: "mutex_inv FIFO s" and c: "c < length (coros s)" and st: "coros s ! c = CPush l (sender s)"
    and u: "sender s \<noteq> UMax"
  defines "t \<equiv> s\<lparr>nxt := (nxt s)(c := ptr_of (sender s)), sender := UAt c, arrived := arrived s @ [c]\<rparr>"
  shows "mutex_inv FIFO (set_coro c (CWait l) t)"
proof -
  note I = mutex_inv_parts [OF I]
  have t: "coros t = coros s" "ths t = ths s" "receiver t = receiver s" "sender t = UAt c" "exec t = exec s"
    "on t = on s" "home t = home s" "sticky t = sticky s" "granted t = granted s"
    by (simp_all add: t_def)
  obtain rs ss where q: "chains s rs ss" "order FIFO s rs ss"
    and m: "\<And>c. count (mset rs + mset ss + pend s) c = of_bool (waits s c)"
    using I(3) by (auto simp: queue_def)
  have "\<not> waits s c" using st by (simp add: waits_def)
  then have n: "c \<notin> set rs" "c \<notin> set ss" using m [of c] by auto
  have p: "pend (set_coro c (CWait l) t) = pend s"
    using pend_set(1) [of c t "CWait l"] c st pend_cong [of t s] by (simp add: t)
  have "chains (set_coro c (CWait l) t) rs (c # ss)"
    using q(1) n by (auto simp: chains_def t_def)
  moreover have "order FIFO (set_coro c (CWait l) t) rs (c # ss)"
    using q(2) by (auto simp: order_def t_def)
  moreover have "count (mset rs + mset (c # ss) + pend (set_coro c (CWait l) t)) d = of_bool (waits (set_coro c (CWait l) t) d)" for d
    unfolding p using m [of d] m [of c] \<open>\<not> waits s c\<close> c by (auto simp: t waits_def nth_list_update)
  ultimately have "queue FIFO (set_coro c (CWait l) t)" by (rule queueI)
  moreover have "tokens t = tokens s" using u by (simp add: tokens_def t)
  then have "tokens (set_coro c (CWait l) t) = 1"
    using tokens_set(1) [of c t "CWait l"] c st I(1) by (simp add: t)
  moreover have ph: "ph_ok s ph \<Longrightarrow> ph_ok (set_coro c (CWait l) t) ph" for ph
    by (cases ph) (auto simp: t)
  have "cok (set_coro c (CWait l) t) d ((coros s)[c := CWait l] ! d)" if d: "d < length (coros s)" for d
  proof (cases "d = c")
    case True
    then show ?thesis using I(4) [OF c] st c by (auto simp: t)
  next
    case False
    have "cok (set_coro c (CWait l) t) d (coros s ! d)"
      by (rule cok_frame [OF _ _ _ _ _ I(4) [OF d]]) (simp_all add: t ph)
    then show ?thesis using False by simp
  qed
  moreover have "tok_ok (set_coro c (CWait l) t) u" if "u \<in> set (ths s)" for u
    using I(5) [OF that] ph by (cases u) (auto simp: t)
  ultimately show ?thesis using t by (simp add: mutex_inv_def)
qed

text \<open>What the steps of an unlock do to the queue, whoever performs them.\<close>

definition phase_effect :: "bool \<Rightarrow> mutex \<Rightarrow> uphase \<Rightarrow> uphase option \<Rightarrow> mutex \<Rightarrow> bool" where
  "phase_effect FIFO s ph r t \<longleftrightarrow> coros t = coros s \<and> ths t = ths s \<and> exec t = exec s \<and> on t = on s \<and>
     sticky t = sticky s \<and> home t = home s \<and> ph_pend ph = {#} \<and> (case r of
        None \<Rightarrow> t = s\<lparr>sender := UMax\<rparr> \<and> receiver s = None \<and> sender s = UZero
      | Some ph' \<Rightarrow> ph_ok t ph' \<and> sender t \<noteq> UMax \<and> (\<exists>rs ss. chains t rs ss \<and> order FIFO t rs ss \<and>
          (\<forall>c. count (mset rs + mset ss + (pend s + ph_pend ph')) c = of_bool (waits s c))))"

lemma phase_stay:
  assumes "queue FIFO s" and "sender s \<noteq> UMax" and "ph_pend ph = {#}" and "ph_pend ph' = {#}" and "ph_ok s ph'"
  shows "phase_effect FIFO s ph (Some ph') s"
proof -
  obtain rs ss where "chains s rs ss" "order FIFO s rs ss"
    "\<forall>c. count (mset rs + mset ss + pend s) c = of_bool (waits s c)"
    using assms(1) unfolding queue_def by blast
  then have "\<exists>rs ss. chains s rs ss \<and> order FIFO s rs ss \<and>
      (\<forall>c. count (mset rs + mset ss + (pend s + {#})) c = of_bool (waits s c))"
    by (intro exI [of _ rs] exI [of _ ss]) (simp only: add_0_right simp_thms)
  then show ?thesis using assms by (simp add: phase_effect_def)
qed

lemma unlock_phase_effect:
  assumes q: "queue FIFO s" and u: "sender s \<noteq> UMax" and ph: "ph_ok s ph"
    and run: "unlock_phase FIFO ph s = Some (r, t)"
  shows "phase_effect FIFO s ph r t"
proof (cases ph)
  case UStart
  then have "t = s" and "r = Some (TryUnlockAwait_load s)" using run by (auto simp: unlock_phase_def)
  moreover have "ph_ok s (TryUnlockAwait_load s)" and "ph_pend (TryUnlockAwait_load s) = {#}"
    using u by (cases "sender s"; simp add: TryUnlockAwait_load_def)+
  ultimately show ?thesis using UStart phase_stay [OF q u] by simp
next
  case UCas
  show ?thesis
  proof (cases "sender s = UZero")
    case True
    then show ?thesis using run UCas ph by (auto simp: phase_effect_def unlock_phase_def TryUnlockAwait_cas_def)
  next
    case False
    then have "t = s" and "r = Some UNext" using run UCas by (auto simp: unlock_phase_def TryUnlockAwait_cas_def)
    moreover have "ph_ok s UNext" using False u by (cases "sender s") simp_all
    ultimately show ?thesis using UCas phase_stay [OF q u] by simp
  qed
next
  case UNext
  obtain rs ss where C: "chains s rs ss" and O: "order FIFO s rs ss"
    and m: "\<And>c. count (mset rs + mset ss + pend s) c = of_bool (waits s c)"
    using q by (auto simp: queue_def)
  then obtain h s1 rs' ss' where H: "GetHead FIFO s = Some (h, s1)" "chains (take_next h s1) rs' ss'"
    "order FIFO (take_next h s1) rs' ss'" "mset rs + mset ss = {#h#} + (mset rs' + mset ss')" "sender s1 \<noteq> UMax"
    and s1: "s1 = s\<lparr>sender := sender s1, nxt := nxt s1\<rparr>"
    using GetHead_queue [OF C O u] ph UNext by auto
  have t: "t = take_next h s1" and r: "r = Some (UGot h (receiver s \<noteq> None))"
    using run UNext H(1) by (simp_all add: unlock_phase_def)
  have m': "mset rs' + mset ss' + (pend s + {#h#}) = mset rs + mset ss + pend s" using H(4) by simp
  have "coros s1 = coros s" "ths s1 = ths s" "exec s1 = exec s" "on s1 = on s" "sticky s1 = sticky s" "home s1 = home s"
    by (subst s1, simp)+
  moreover have "\<exists>rs ss. chains t rs ss \<and> order FIFO t rs ss \<and>
      (\<forall>c. count (mset rs + mset ss + (pend s + {#h#})) c = of_bool (waits s c))"
    using H(2,3) m unfolding t by (intro exI [of _ rs'] exI [of _ ss']) (simp only: m' simp_thms)
  ultimately show ?thesis using H(5) UNext t r by (simp add: phase_effect_def take_next_def)
next
  case (UGot h b)
  then show ?thesis using run by (simp add: unlock_phase_def)
qed

text \<open>The next phase of an unlock by a coroutine, or by a thread.\<close>

lemma phase_queue:
  assumes q: "queue FIFO s" and e: "phase_effect FIFO s ph r t"
    and p: "pend t' = pend s + (case r of None \<Rightarrow> {#} | Some ph' \<Rightarrow> ph_pend ph')"
    and w: "\<And>c. waits t' c = waits s c"
    and same: "sender t' = sender t" "receiver t' = receiver t" "nxt t' = nxt t" "arrived t' = arrived t" "granted t' = granted t"
  shows "queue FIFO t'"
proof (cases r)
  case None
  then show ?thesis using e p w same by (intro queue_same [OF q]) (auto simp: phase_effect_def)
next
  case (Some ph')
  then obtain rs ss where "chains t rs ss" "order FIFO t rs ss"
    "\<And>c. count (mset rs + mset ss + (pend s + ph_pend ph')) c = of_bool (waits s c)"
    using e by (auto simp: phase_effect_def)
  then show ?thesis using p w same Some by (intro queueI [of t' rs ss]) (simp_all add: chains_def order_def)
qed

lemma inv_phase_coro:
  assumes I: "mutex_inv FIFO s" and c: "c < length (coros s)" and st: "coros s ! c = CUnl k ph"
    and run: "unlock_phase FIFO ph s = Some (r, t)"
  defines "st' \<equiv> case r of None \<Rightarrow> CFree | Some ph' \<Rightarrow> CUnl k ph'"
  shows "mutex_inv FIFO (set_coro c st' t)"
proof -
  note I = mutex_inv_parts [OF I]
  note alone = coro_alone [OF I(1) c, unfolded st, simplified]
  have ph: "ph_ok s ph" and o': "on s c = exec s c" using I(4) [OF c] st by simp_all
  note E = unlock_phase_effect [OF I(3) alone(1) ph run]
  have t: "coros t = coros s" "ths t = ths s" "exec t = exec s" "on t = on s" "sticky t = sticky s" "home t = home s"
    "ph_pend ph = {#}" using E by (simp_all add: phase_effect_def)
  have "pend (set_coro c st' t) = pend t + cpend st'"
    using pend_set(1) [of c t st'] c st t by simp
  then have "pend (set_coro c st' t) = pend s + (case r of None \<Rightarrow> {#} | Some ph' \<Rightarrow> ph_pend ph')"
    using t pend_cong [of t s] by (simp add: st'_def split: option.splits)
  then have "queue FIFO (set_coro c st' t)"
    by (rule phase_queue [OF I(3) E]) (use c st t in \<open>auto simp: waits_def nth_list_update st'_def split: option.splits\<close>)
  moreover have "tokens t = (if r = None then 2 else 1)"
    using E I(1) alone(1) by (cases r) (auto simp: phase_effect_def tokens_def)
  then have "tokens (set_coro c st' t) = 1"
    using tokens_set(1) [of c t st'] c st t by (cases r) (simp_all add: st'_def)
  moreover have "cok (set_coro c st' t) d ((coros s)[c := st'] ! d)" if d: "d < length (coros s)" for d
  proof (cases "d = c")
    case True
    have "cok t c st'" using E o' by (cases r) (simp_all add: phase_effect_def st'_def)
    then have "cok (set_coro c st' t) c st'" by (rule cok_frame [rotated -1]) (auto simp: ph_ok_frame)
    then show ?thesis using True c by simp
  next
    case False
    have "cok (set_coro c st' t) d (coros s ! d)"
      using cok_frame [OF _ _ _ _ _ I(4) [OF d], of "set_coro c st' t"] alone(2) [OF d False] t by simp
    then show ?thesis using False by simp
  qed
  moreover have "tok_ok (set_coro c st' t) u" if "u \<in> set (ths s)" for u using alone(3) [OF that] by simp
  moreover have "sender t = UMax \<longrightarrow> receiver t = None"
    using E by (cases r) (auto simp: phase_effect_def)
  ultimately show ?thesis using t by (simp add: mutex_inv_def)
qed

lemma inv_phase_thread:
  assumes I: "mutex_inv FIFO s" and i: "i < length (ths s)" and st: "ths s ! i = ThUnl x e ph"
    and run: "unlock_phase FIFO ph s = Some (r, t)"
  defines "st' \<equiv> case r of None \<Rightarrow> ThEnd | Some ph' \<Rightarrow> ThUnl x e ph'"
  shows "mutex_inv FIFO (set_th i st' t)"
proof -
  note I = mutex_inv_parts [OF I]
  note alone = thread_alone [OF I(1) i, unfolded st, simplified]
  have ph: "ph_ok s ph" and o': "x = e" using I(5) [OF nth_mem [OF i]] st by simp_all
  note E = unlock_phase_effect [OF I(3) alone(1) ph run]
  have t: "coros t = coros s" "ths t = ths s" "exec t = exec s" "on t = on s" "sticky t = sticky s" "home t = home s"
    "ph_pend ph = {#}" using E by (simp_all add: phase_effect_def)
  have "pend (set_th i st' t) = pend t + tpend st'"
    using pend_set(2) [of i t st'] i st t by simp
  then have "pend (set_th i st' t) = pend s + (case r of None \<Rightarrow> {#} | Some ph' \<Rightarrow> ph_pend ph')"
    using t pend_cong [of t s] by (simp add: st'_def split: option.splits)
  then have "queue FIFO (set_th i st' t)"
    by (rule phase_queue [OF I(3) E]) (use t in \<open>simp_all add: waits_def\<close>)
  moreover have "tokens t = (if r = None then 2 else 1)"
    using E I(1) alone(1) by (cases r) (auto simp: phase_effect_def tokens_def)
  then have "tokens (set_th i st' t) = 1"
    using tokens_set(2) [of i t st'] i st t by (cases r) (simp_all add: st'_def)
  moreover have "cok (set_th i st' t) d (coros s ! d)" if d: "d < length (coros s)" for d
    using cok_frame [OF _ _ _ _ _ I(4) [OF d], of "set_th i st' t"] alone(2) [OF d] t by simp
  moreover have "tok_ok (set_th i st' t) u" if u: "u \<in> set ((ths s)[i := st'])" for u
  proof -
    obtain j where j: "j < length (ths s)" "u = (ths s)[i := st'] ! j" using u by (auto simp: in_set_conv_nth)
    have "tok_ok (set_th i st' t) st'"
      using E o' by (cases r) (auto simp: phase_effect_def st'_def intro: ph_ok_frame)
    then show ?thesis using j alone(3) [OF j(1)] by (cases "j = i") simp_all
  qed
  moreover have "sender t = UMax \<longrightarrow> receiver t = None"
    using E by (cases r) (auto simp: phase_effect_def)
  ultimately show ?thesis using t by (simp add: mutex_inv_def)
qed

text \<open>The token and a pending waiter \<open>h\<close> become the critical section of \<open>h\<close>.\<close>

definition handing :: "bool \<Rightarrow> mutex \<Rightarrow> nat \<Rightarrow> bool" where
  "handing FIFO s h \<longleftrightarrow> tokens s = 0 \<and> (\<forall>t \<in> set (ths s). t = ThEnd) \<and>
     (\<forall>d < length (coros s). cok s d (coros s ! d)) \<and>
     (\<exists>rs ss. chains s rs ss \<and> order FIFO s rs ss \<and>
       (\<forall>c. count (mset rs + mset ss + (pend s + {#h#})) c = of_bool (waits s c)))"

lemma handing_waits:
  assumes "handing FIFO s h"
  obtains l where "h < length (coros s)" "coros s ! h = CWait l"
proof -
  obtain rs ss where "count (mset rs + mset ss + (pend s + {#h#})) h = of_bool (waits s h)"
    using assms unfolding handing_def by blast
  then have "waits s h" by (cases "waits s h") simp_all
  then show ?thesis using that by (cases "coros s ! h") (auto simp: waits_def)
qed

lemma inv_grant:
  assumes H: "handing FIFO s h" and st: "ctok st = 1" "cpend st = {#}" "\<not> is_wait st" "cok s h st"
  shows "mutex_inv FIFO (set_coro h st s)"
proof -
  obtain l where h: "h < length (coros s)" "coros s ! h = CWait l" using handing_waits [OF H] .
  note H = H [unfolded handing_def]
  from H obtain rs ss where q: "chains s rs ss" "order FIFO s rs ss"
    and m: "\<And>c. count (mset rs + mset ss + (pend s + {#h#})) c = of_bool (waits s c)" by blast
  have p: "pend (set_coro h st s) = pend s" using pend_set(1) [of h s st] h st by simp
  have "count (mset rs + mset ss + pend s) d = of_bool (waits (set_coro h st s) d)" for d
    using m [of d] h st by (auto simp: waits_def nth_list_update split: if_splits)
  then have "queue FIFO (set_coro h st s)" unfolding p [symmetric]
    using q by (intro queueI [of _ rs ss]) (simp_all add: chains_def order_def)
  moreover have "tokens (set_coro h st s) = 1" using tokens_set(1) [of h s st] h st H by simp
  moreover have "cok (set_coro h st s) d ((coros s)[h := st] ! d)" if d: "d < length (coros s)" for d
  proof -
    have "cok s d ((coros s)[h := st] ! d)" using H d st(4) by (cases "d = h") simp_all
    then show ?thesis by (rule cok_frame [rotated -1]) (auto intro: ph_ok_frame)
  qed
  moreover have "sender s \<noteq> UMax" using H by (auto simp: tokens_def)
  ultimately show ?thesis using H by (auto simp: mutex_inv_def)
qed

lemma queue_pend:
  assumes "queue FIFO s" and "pend s = p + {#h#}"
  shows "\<exists>rs ss. chains s rs ss \<and> order FIFO s rs ss \<and> (\<forall>c. count (mset rs + mset ss + (p + {#h#})) c = of_bool (waits s c))"
  using assms unfolding queue_def by auto

lemma handing_coro:
  assumes I: "mutex_inv FIFO s" and c: "c < length (coros s)" and st: "coros s ! c = CUnl k (UGot h b)"
  shows "handing FIFO (set_coro c CFree s) h"
proof -
  note I = mutex_inv_parts [OF I]
  note alone = coro_alone [OF I(1) c, unfolded st, simplified]
  have p: "pend s = pend (set_coro c CFree s) + {#h#}" using pend_set(1) [of c s CFree] c st by simp
  have w: "waits (set_coro c CFree s) d = waits s d" for d using c st by (auto simp: waits_def nth_list_update)
  have "tokens (set_coro c CFree s) = 0" using tokens_set(1) [of c s CFree] c st I(1) by simp
  moreover have "cok (set_coro c CFree s) d ((coros s)[c := CFree] ! d)" if d: "d < length (coros s)" for d
  proof (cases "d = c")
    case True
    then show ?thesis using I(4) [OF c] st c by simp
  next
    case False
    have "cok (set_coro c CFree s) d (coros s ! d)"
      using cok_frame [OF _ _ _ _ _ I(4) [OF d], of "set_coro c CFree s"] alone(2) [OF d False] by simp
    then show ?thesis using False by simp
  qed
  moreover obtain rs ss where "chains s rs ss" "order FIFO s rs ss"
    "\<forall>d. count (mset rs + mset ss + (pend (set_coro c CFree s) + {#h#})) d = of_bool (waits s d)"
    using queue_pend [OF I(3) p] by blast
  then have "\<exists>rs ss. chains (set_coro c CFree s) rs ss \<and> order FIFO (set_coro c CFree s) rs ss \<and>
       (\<forall>d. count (mset rs + mset ss + (pend (set_coro c CFree s) + {#h#})) d = of_bool (waits (set_coro c CFree s) d))"
    unfolding w chains_def order_def set_coro_simps by blast
  ultimately show ?thesis using alone(3) by (simp add: handing_def)
qed

lemma handing_thread:
  assumes I: "mutex_inv FIFO s" and i: "i < length (ths s)" and st: "tpend (ths s ! i) = {#h#}"
  shows "handing FIFO (set_th i ThEnd s) h"
proof -
  note I = mutex_inv_parts [OF I]
  have tt: "ttok (ths s ! i) = 1" using st by (cases "ths s ! i") simp_all
  note alone = thread_alone [OF I(1) i tt]
  have p: "pend s = pend (set_th i ThEnd s) + {#h#}" using pend_set(2) [of i s ThEnd] i st by simp
  have w: "waits (set_th i ThEnd s) d = waits s d" for d by (simp add: waits_def)
  have "tokens (set_th i ThEnd s) = 0" using tokens_set(2) [of i s ThEnd] i tt I(1) by simp
  moreover have "cok (set_th i ThEnd s) d (coros s ! d)" if d: "d < length (coros s)" for d
    using cok_frame [OF _ _ _ _ _ I(4) [OF d], of "set_th i ThEnd s"] alone(2) [OF d] by simp
  moreover obtain rs ss where "chains s rs ss" "order FIFO s rs ss"
    "\<forall>d. count (mset rs + mset ss + (pend (set_th i ThEnd s) + {#h#})) d = of_bool (waits s d)"
    using queue_pend [OF I(3) p] by blast
  then have "\<exists>rs ss. chains (set_th i ThEnd s) rs ss \<and> order FIFO (set_th i ThEnd s) rs ss \<and>
       (\<forall>d. count (mset rs + mset ss + (pend (set_th i ThEnd s) + {#h#})) d = of_bool (waits (set_th i ThEnd s) d))"
    unfolding w chains_def order_def set_th_simps by blast
  moreover have "u = ThEnd" if u: "u \<in> set ((ths s)[i := ThEnd])" for u
  proof -
    obtain j where j: "j < length (ths s)" "u = (ths s)[i := ThEnd] ! j" using u by (auto simp: in_set_conv_nth)
    then show ?thesis using alone(3) [OF j(1)] by (cases "j = i") simp_all
  qed
  ultimately show ?thesis by (simp add: handing_def)
qed

text \<open>The fields of the executor of a waiting coroutine are free.\<close>

lemma handing_retarget:
  assumes "handing FIFO s h" and "coros t = coros s" "ths t = ths s" "sender t = sender s" "receiver t = receiver s"
    "nxt t = nxt s" "arrived t = arrived s" "granted t = granted s" "sticky t = sticky s" "home t = home s"
    and "\<And>d. d \<noteq> h \<Longrightarrow> exec t d = exec s d \<and> on t d = on s d"
  shows "handing FIFO t h"
proof -
  obtain l where h: "h < length (coros s)" "coros s ! h = CWait l" using handing_waits [OF assms(1)] .
  note H = assms(1) [unfolded handing_def]
  have e: "tokens t = tokens s" "pend t = pend s" "\<And>c. waits t c = waits s c"
    using assms(2-4) by (simp_all add: tokens_def pend_def waits_def)
  have "cok t d (coros s ! d)" if d: "d < length (coros s)" for d
  proof (cases "d = h")
    case True
    have "cok s h (coros s ! h)" using H d True by simp
    then show ?thesis using True h assms(9,10) by simp
  next
    case False
    have "cok s d (coros s ! d)" using H d by simp
    then show ?thesis using False assms by (intro cok_frame [of t d s]) (auto intro: ph_ok_frame)
  qed
  then have "\<forall>d < length (coros t). cok t d (coros t ! d)" using assms(2) by simp
  moreover have "\<forall>u \<in> set (ths t). u = ThEnd" using H assms(3) by simp
  moreover have "\<exists>rs ss. chains t rs ss \<and> order FIFO t rs ss \<and>
      (\<forall>c. count (mset rs + mset ss + (pend t + {#h#})) c = of_bool (waits t c))"
    using H unfolding e chains_def order_def assms(4-8) by (simp only: simp_thms)
  moreover have "tokens t = 0" using H e by simp
  ultimately show ?thesis unfolding handing_def by blast
qed

text \<open>The two forms that leave a thread behind: \<open>UnlockOn\<close> and the batched \<open>Unlock\<close>.\<close>

definition add_th :: "th \<Rightarrow> mutex \<Rightarrow> mutex" where
  "add_th u s = s\<lparr>ths := ths s @ [u]\<rparr>"

lemma inv_leave:
  assumes I: "mutex_inv FIFO s" and c: "c < length (coros s)" and st: "ctok (coros s ! c) = 1" "cpend (coros s ! c) = {#}"
    and tok: "ttok u = 1" and e: "coros t = coros s" "ths t = ths s" "sender t = sender s" "home t = home s" "sticky t = sticky s"
    and q: "\<exists>rs ss. chains t rs ss \<and> order FIFO t rs ss \<and> (\<forall>d. count (mset rs + mset ss + (pend s + tpend u)) d = of_bool (waits s d))"
    and keep: "\<And>d. d < length (coros s) \<Longrightarrow> d \<noteq> c \<Longrightarrow> \<not> is_wait (coros s ! d) \<Longrightarrow> exec t d = exec s d \<and> on t d = on s d"
    and ok: "tok_ok t u" "exec t c = x"
  shows "mutex_inv FIFO (add_th u (set_coro c (CAway x) t))" (is "mutex_inv FIFO ?t")
proof -
  note I = mutex_inv_parts [OF I]
  note alone = coro_alone [OF I(1) c st(1)]
  have tf: "sender ?t = sender t" "receiver ?t = receiver t" "nxt ?t = nxt t" "coros ?t = (coros t)[c := CAway x]"
    "ths ?t = ths t @ [u]" "exec ?t = exec t" "on ?t = on t" "sticky ?t = sticky t" "home ?t = home t"
    "arrived ?t = arrived t" "granted ?t = granted t"
    by (simp_all add: add_th_def)
  have "tokens ?t + 1 = tokens s + 1"
    using tokens_set(1) [of c s "CAway x"] c st tok e by (simp add: tokens_def tf)
  then have "tokens ?t = 1" using I(1) by simp
  moreover have "pend ?t = pend s + tpend u"
    using pend_set(1) [of c s "CAway x"] c st e by (simp add: pend_def tf)
  then have "queue FIFO ?t"
  proof -
    have w: "waits ?t d = waits s d" for d
      using c st e by (cases "coros s ! c") (auto simp: waits_def tf nth_list_update)
    obtain rs ss where "chains t rs ss" "order FIFO t rs ss"
      "\<forall>d. count (mset rs + mset ss + (pend s + tpend u)) d = of_bool (waits s d)" using q by blast
    then show ?thesis using \<open>pend ?t = _\<close> w by (intro queueI [of _ rs ss]) (simp_all add: chains_def order_def tf)
  qed
  moreover have "cok ?t d ((coros s)[c := CAway x] ! d)" if d: "d < length (coros s)" for d
  proof (cases "d = c")
    case True
    then show ?thesis using ok(2) c by (simp add: tf)
  next
    case False
    have "cok ?t d (coros s ! d)"
    proof (cases "is_wait (coros s ! d)")
      case True
      then show ?thesis by (rule cok_wait_frame [OF _ _ _ I(4) [OF d]]) (simp_all add: tf e)
    next
      case wait: False
      have "exec ?t d = exec s d" "on ?t d = on s d" using keep [OF d False wait] by (simp_all add: tf)
      then show ?thesis using alone(2) [OF d False] e
        by (intro cok_frame [OF _ _ _ _ _ I(4) [OF d]]) (simp_all add: tf)
    qed
    then show ?thesis using False by simp
  qed
  moreover have "tok_ok ?t v" if "v \<in> set (ths ?t)" for v
  proof -
    have "tok_ok ?t u" by (rule tok_ok_frame [OF _ _ _ ok(1)]) (simp_all add: tf)
    moreover have "v = u \<or> v = ThEnd" using that alone(3) [of v] e by (auto simp: tf)
    ultimately show ?thesis by auto
  qed
  ultimately show ?thesis using alone(1) e by (simp add: mutex_inv_def tf)
qed

lemma inv_UnlockOn:
  assumes I: "mutex_inv FIFO s" and c: "c < length (coros s)" and st: "coros s ! c = COwn l"
  shows "mutex_inv FIFO (AwaitUnlockOn_start c e s)"
proof -
  note P = mutex_inv_parts [OF I]
  have "\<exists>rs ss. chains s rs ss \<and> order FIFO s rs ss \<and> (\<forall>d. count (mset rs + mset ss + (pend s + {#})) d = of_bool (waits s d))"
    using P(3) unfolding queue_def by simp
  then have "mutex_inv FIFO (add_th (ThUnl (exec s c) (on s c) UStart) (set_coro c (CAway e) (s\<lparr>exec := (exec s)(c := e)\<rparr>)))"
    using st P(4) [OF c] by (intro inv_leave [OF I c]) (simp_all add: chains_def order_def)
  then show ?thesis by (simp add: AwaitUnlockOn_start_def add_th_def Let_def set_coro_def)
qed

lemma inv_AwaitUnlock:
  assumes I: "mutex_inv FIFO s" and c: "c < length (coros s)" and st: "coros s ! c = CUnl k UNext" and r: "receiver s = Some r"
  shows "mutex_inv FIFO (AwaitUnlock c r s)"
proof -
  note P = mutex_inv_parts [OF I]
  note alone = coro_alone [OF P(1) c, unfolded st, simplified]
  obtain rs ss where C: "chains s rs ss" "order FIFO s rs ss" and m: "\<And>d. count (mset rs + mset ss + pend s) d = of_bool (waits s d)"
    using P(3) unfolding queue_def by blast
  have "GetHead FIFO s = Some (r, s)" using r by (simp add: GetHead_def)
  then obtain rs' ss' where q: "chains (take_next r s) rs' ss'" "order FIFO (take_next r s) rs' ss'"
    and ms: "mset rs + mset ss = {#r#} + (mset rs' + mset ss')"
    using GetHead_queue [OF C alone(1)] r by auto
  have "r \<in># mset rs + mset ss" unfolding ms by simp
  then have "0 < count (mset rs + mset ss + pend s) r" by auto
  then have "waits s r" unfolding m by simp
  then have w: "is_wait (coros s ! r)" and rc: "r \<noteq> c" using st by (auto simp: waits_def)
  define t where "t = (take_next r s)\<lparr>exec := (exec s)(c := exec s r, r := exec s c)\<rparr>"
  have m': "mset rs' + mset ss' + (pend s + {#r#}) = mset rs + mset ss + pend s" unfolding ms by simp
  have "chains t rs' ss'" "order FIFO t rs' ss'" using q by (simp_all add: t_def chains_def order_def take_next_def)
  then have "\<exists>rs ss. chains t rs ss \<and> order FIFO t rs ss \<and> (\<forall>d. count (mset rs + mset ss + (pend s + {#r#})) d = of_bool (waits s d))"
    using m m' by (intro exI [of _ rs'] exI [of _ ss']) (simp only: m' simp_thms)
  moreover have "exec t d = exec s d \<and> on t d = on s d" if "d \<noteq> c" "\<not> is_wait (coros s ! d)" for d
    using that w by (auto simp: t_def take_next_def)
  ultimately have "mutex_inv FIFO (add_th (ThGo r (on s c)) (set_coro c (CAway (exec s r)) t))"
    using st P(4) [OF c] rc by (intro inv_leave [OF I c]) (simp_all add: t_def take_next_def)
  then show ?thesis using rc by (simp add: AwaitUnlock_def add_th_def Let_def set_coro_def t_def take_next_def)
qed

lemma inv_await_turn:
  assumes I: "mutex_inv FIFO s" and c: "c < length (coros s)" and st: "coros s ! c = CPush l e"
  shows "mutex_inv FIFO (sticky_own c (AwaitLock_turn c l e weak s))"
proof -
  note P = mutex_inv_parts [OF I]
  have ok: "on s c = exec s c" "l = LSticky \<longrightarrow> sticky s c = Some (home s c) \<and> exec s c = home s c"
    using P(4) [OF c] st by auto
  have again: "mutex_inv FIFO (set_coro c (CPush l (sender s)) (s\<lparr>nxt := n\<rparr>))"
    if "\<And>d. d \<noteq> c \<Longrightarrow> n d = nxt s d" for n
    by (rule inv_local [OF I c]) (use st ok that in auto)
  show ?thesis
  proof (cases "sender s = e \<and> \<not> weak")
    case True
    show ?thesis
    proof (cases "e = UMax")
      case True
      then show ?thesis using \<open>sender s = e \<and> _\<close> inv_take [OF I c, of l] st ok by (simp add: AwaitLock_turn_def)
    next
      case False
      then show ?thesis using True inv_park [OF I c, of l] st
        by (simp add: AwaitLock_turn_def Let_def sticky_own_def)
    qed
  next
    case False
    then have "AwaitLock_turn c l e weak s = (CPush l (sender s), s\<lparr>nxt := (if e = UMax then nxt s else (nxt s)(c := ptr_of e))\<rparr>)"
      by (auto simp: AwaitLock_turn_def Let_def)
    then show ?thesis using again [of "if e = UMax then nxt s else (nxt s)(c := ptr_of e)"] by (simp add: sticky_own_def)
  qed
qed

lemma thgo_frame:
  assumes I: "mutex_inv FIFO s" and g: "ThGo h x \<in> set (ths s)"
  shows "is_wait (coros s ! h)"
proof -
  note P = mutex_inv_parts [OF I]
  obtain i where i: "i < length (ths s)" "ths s ! i = ThGo h x" using g by (auto simp: in_set_conv_nth)
  have "tpend (ths s ! i) \<subseteq># sum_list (map tpend (ths s))" using i(1) by (rule sum_list_member_le_mset)
  then have "h \<in># pend s" using i(2) by (auto simp: pend_def)
  then have pos: "0 < count (mset rs + mset ss + pend s) h" for rs ss by auto
  obtain rs ss where "count (mset rs + mset ss + pend s) h = of_bool (waits s h)"
    using P(3) unfolding queue_def by blast
  then have "waits s h" using pos [of rs ss] by simp
  then show ?thesis by (simp add: waits_def)
qed

lemma grant_submit:
  assumes H: "handing FIFO s h"
  shows "mutex_inv FIFO (Submit_owner h s)"
proof -
  obtain l where h: "h < length (coros s)" "coros s ! h = CWait l" using handing_waits [OF H] .
  have "cok s h (CWait l)" using H h unfolding handing_def by metis
  then have "mutex_inv FIFO (set_coro h (CCalled l (exec s h)) s)" by (intro inv_grant [OF H]) simp_all
  then show ?thesis using h by (simp add: Submit_owner_def)
qed

lemma grant_transfer:
  assumes H: "handing FIFO s h" and e: "exec s h = t"
  shows "mutex_inv FIFO (Transfer_owner h t s)"
proof -
  obtain l where h: "h < length (coros s)" "coros s ! h = CWait l" using handing_waits [OF H] .
  have "cok s h (CWait l)" using H h unfolding handing_def by metis
  moreover have "handing FIFO (s\<lparr>on := (on s)(h := t)\<rparr>) h" by (rule handing_retarget [OF H]) simp_all
  ultimately have "mutex_inv FIFO (set_coro h (COwn l) (s\<lparr>on := (on s)(h := t)\<rparr>))"
    using e by (intro inv_grant) simp_all
  then show ?thesis using h by (simp add: Transfer_owner_def)
qed

text \<open>Updates of two entries commute.\<close>

lemma swap_coro: "c \<noteq> d \<Longrightarrow> set_coro c st (set_coro d st' s) = set_coro d st' (set_coro c st s)"
  by (simp add: set_coro_def list_update_swap)

lemma swap_Submit: "c \<noteq> h \<Longrightarrow> set_coro c st (Submit_owner h s) = Submit_owner h (set_coro c st s)"
  by (auto simp: Submit_owner_def swap_coro split: cst.splits)

lemma swap_th_Submit: "set_th i st (Submit_owner h s) = Submit_owner h (set_th i st s)"
  by (auto simp: Submit_owner_def set_coro_def set_th_def split: cst.splits)

lemma swap_th_Transfer: "set_th i st (Transfer_owner h t s) = Transfer_owner h t (set_th i st s)"
  by (auto simp: Transfer_owner_def set_coro_def set_th_def split: cst.splits)

lemma inv_thread_end:
  assumes I: "mutex_inv FIFO s" and i: "i < length (ths s)" and st: "ths s ! i = ThUnl x t (UGot h b)"
  shows "mutex_inv FIFO (set_th i ThEnd (AwaitUnlockOn_end Batching x t h b s))"
proof -
  have H: "handing FIFO (set_th i ThEnd s) h" using handing_thread [OF I i] st by simp
  have x: "x = t" using mutex_inv_parts(5) [OF I nth_mem [OF i]] st by simp
  show ?thesis
  proof (cases "Batching \<and> b")
    case True
    have "handing FIFO (set_th i ThEnd (s\<lparr>exec := (exec s)(h := x)\<rparr>)) h"
      by (rule handing_retarget [OF H]) simp_all
    then show ?thesis using grant_transfer [of FIFO _ h t] x True
      by (simp add: AwaitUnlockOn_end_def swap_th_Transfer)
  next
    case False
    then show ?thesis using grant_submit [OF H] by (auto simp: AwaitUnlockOn_end_def swap_th_Submit)
  qed
qed

lemma mutex_step_inv:
  assumes "mutex_step FIFO Batching s t" and I: "mutex_inv FIFO s"
  shows "mutex_inv FIFO t"
  using assms(1)
proof cases
  case (lock_load c l)
  note P = mutex_inv_parts(4) [OF I lock_load(2)]
  show ?thesis unfolding lock_load(1)
    by (rule inv_local [OF I lock_load(2)])
       (use lock_load(3) P thgo_frame [OF I] in \<open>auto simp: TryLockAwait_load_def lock_failed_def\<close>)
next
  case (lock_cas c l)
  note P = mutex_inv_parts(4) [OF I lock_cas(2)]
  show ?thesis
  proof (cases "sender s = UMax")
    case True
    then show ?thesis unfolding lock_cas(1) using inv_take [OF I lock_cas(2), of l] lock_cas(3) P
      by (simp add: TryLockAwait_cas_def)
  next
    case False
    have "mutex_inv FIFO (set_coro c (lock_failed l) s)"
      by (rule inv_local [OF I lock_cas(2)]) (use lock_cas(3) P in \<open>auto simp: lock_failed_def\<close>)
    then show ?thesis unfolding lock_cas(1) using False
      by (simp add: TryLockAwait_cas_def sticky_own_def lock_failed_def split: if_splits)
  qed
next
  case (await_load c l)
  note P = mutex_inv_parts(4) [OF I await_load(2)]
  show ?thesis unfolding await_load(1)
    by (rule inv_local [OF I await_load(2)]) (use await_load(3) P in auto)
next
  case (await_turn c l expected weak)
  then show ?thesis using inv_await_turn [OF I] by simp
next
  case (resume_own c l e)
  note P = mutex_inv_parts(4) [OF I resume_own(2)]
  show ?thesis unfolding resume_own(1)
    by (rule inv_local [OF I resume_own(2)]) (use resume_own(3) P in auto)
next
  case (resume_free c e)
  note P = mutex_inv_parts(4) [OF I resume_free(2)]
  show ?thesis unfolding resume_free(1)
    by (rule inv_local [OF I resume_free(2)]) (use resume_free(3) P in auto)
next
  case (switch_on c e)
  have "h \<noteq> c" if "ThGo h x \<in> set (ths s)" for h x using thgo_frame [OF I that] switch_on(3) by auto
  then show ?thesis unfolding switch_on(1) On_suspend_def
    by (intro inv_local [OF I switch_on(2)]) (use switch_on(3) in auto)
next
  case (unlock_start c l k)
  note P = mutex_inv_parts(4) [OF I unlock_start(2)]
  show ?thesis unfolding unlock_start(1)
    by (rule inv_local [OF I unlock_start(2)]) (use unlock_start(3) P in auto)
next
  case (unlock_on c l e)
  then show ?thesis using inv_UnlockOn [OF I] by simp
next
  case (unlock_sticky c)
  note P = mutex_inv_parts(4) [OF I unlock_sticky(2)]
  have "mutex_inv FIFO (set_coro c (CUnl UHere UStart) s)"
    by (rule inv_local [OF I unlock_sticky(2)]) (use unlock_sticky(3) P in auto)
  then show ?thesis unfolding unlock_sticky(1) UnlockSticky_def
    using inv_UnlockOn [OF I unlock_sticky(2,3)] by (simp split: option.splits)
next
  case (unlock_more c k ph ph' s')
  then show ?thesis using inv_phase_coro [OF I unlock_more(2,3,5)] by simp
next
  case (unlock_done c k ph s')
  then show ?thesis using inv_phase_coro [OF I unlock_done(2,3,4)] by simp
next
  case (unlock_batch c r)
  then show ?thesis using inv_AwaitUnlock [OF I] by simp
next
  case (unlock_submit c k h b)
  note H = handing_coro [OF I unlock_submit(2,3)]
  obtain l where "h < length (coros s)" "(coros s)[c := CFree] ! h = CWait l" using handing_waits [OF H] by auto
  then have "c \<noteq> h" by auto
  then show ?thesis unfolding unlock_submit(1) using grant_submit [OF H] by (simp add: swap_Submit)
next
  case (thread_more i x t ph ph' s')
  then show ?thesis using inv_phase_thread [OF I thread_more(2,3,4)] by simp
next
  case (thread_done i x t ph s')
  then show ?thesis using inv_phase_thread [OF I thread_done(2,3,4)] by simp
next
  case (thread_end i x t h b)
  then show ?thesis using inv_thread_end [OF I] by simp
next
  case (thread_transfer i h t)
  have H: "handing FIFO (set_th i ThEnd s) h" using handing_thread [OF I thread_transfer(2)] thread_transfer(3) by simp
  have "exec s h = t" using mutex_inv_parts(5) [OF I nth_mem [OF thread_transfer(2)]] thread_transfer(3) by simp
  then show ?thesis unfolding thread_transfer(1) using grant_transfer [OF H] by (simp add: swap_th_Transfer)
qed

lemma mutex_reach_inv: "mutex_reach FIFO Batching (mutex_new n e) s \<Longrightarrow> mutex_inv FIFO s"
  by (induction rule: rtranclp_induct) (auto intro: mutex_inv_new mutex_step_inv)

subsection \<open>A run\<close>

text \<open>Coroutine 0 takes the lock, coroutine 1 parks with a sticky guard, 0 unlocks and 1 is submitted and resumed.\<close>

lemma mutex_demo_parked:
  "\<exists>s. mutex_reach FIFO Batching (mutex_new 2 (\<lambda>c. c + 7)) s \<and> coros s = [COwn LAwait, CWait LSticky] \<and>
     arrived s = [1] \<and> granted s = [] \<and> ths s = [] \<and> exec s = (\<lambda>c. c + 7) \<and> receiver s = None \<and> sender s = UAt (Suc 0) \<and> nxt s (Suc 0) = None"
proof -
  define s0 where "s0 = mutex_new 2 (\<lambda>c. c + 7)"
  define s1 where "s1 = set_coro 0 (TryLockAwait_load LAwait s0) (sticky_set LAwait 0 None (s0\<lparr>home := (home s0)(0 := exec s0 0)\<rparr>))"
  define s2 where "s2 = sticky_own 0 (TryLockAwait_cas LAwait s1)"
  define s3 where "s3 = set_coro 1 (TryLockAwait_load LSticky s2) (sticky_set LSticky 1 None (s2\<lparr>home := (home s2)(1 := exec s2 1)\<rparr>))"
  define s4 where "s4 = set_coro 1 (CPush LSticky (sender s3)) (sticky_set LSticky 1 (Some (exec s3 1)) s3)"
  define s5 where "s5 = sticky_own 1 (AwaitLock_turn 1 LSticky UZero False s4)"
  note S = s0_def mutex_new_def TryLockAwait_load_def TryLockAwait_cas_def AwaitLock_turn_def sticky_own_def lock_failed_def Let_def
  have c0: "coros s0 = [CFree, CFree]" "sender s0 = UMax" by (simp_all add: S numeral_2_eq_2)
  have c1: "coros s1 = [CTry LAwait, CFree]" "sender s1 = UMax" by (simp_all add: s1_def TryLockAwait_load_def c0)
  have c2: "coros s2 = [COwn LAwait, CFree]" "sender s2 = UZero" by (simp_all add: s2_def sticky_own_def TryLockAwait_cas_def c1)
  have c3: "coros s3 = [COwn LAwait, CAwait LSticky]" "sender s3 = UZero" by (simp_all add: s3_def TryLockAwait_load_def lock_failed_def c2)
  have c4: "coros s4 = [COwn LAwait, CPush LSticky UZero]" "sender s4 = UZero" by (simp_all add: s4_def c3)
  have c5: "coros s5 = [COwn LAwait, CWait LSticky]" by (simp add: s5_def sticky_own_def AwaitLock_turn_def Let_def c4)
  have "mutex_step FIFO Batching s0 s1" unfolding s1_def by (rule lock_load) (simp_all add: c0)
  moreover have "mutex_step FIFO Batching s1 s2" unfolding s2_def by (rule lock_cas) (simp_all add: c1)
  moreover have "mutex_step FIFO Batching s2 s3" unfolding s3_def by (rule lock_load) (simp_all add: c2)
  moreover have "mutex_step FIFO Batching s3 s4" unfolding s4_def by (rule await_load) (simp_all add: c3)
  moreover have "mutex_step FIFO Batching s4 s5" unfolding s5_def by (rule await_turn) (simp_all add: c4)
  ultimately have "mutex_reach FIFO Batching s0 s5" by (meson converse_rtranclp_into_rtranclp rtranclp.rtrancl_refl)
  moreover have "arrived s5 = [1] \<and> granted s5 = [] \<and> ths s5 = [] \<and> exec s5 = (\<lambda>c. c + 7) \<and> receiver s5 = None \<and> sender s5 = UAt (Suc 0) \<and> nxt s5 (Suc 0) = None"
    by (simp add: s5_def s4_def s3_def s2_def s1_def S)
  ultimately show ?thesis using c5 unfolding s0_def by blast
qed

lemma mutex_demo_granted:
  "\<exists>s. mutex_reach FIFO Batching (mutex_new 2 (\<lambda>c. c + 7)) s \<and> coros s = [CFree, COwn LSticky] \<and>
     arrived s = [1] \<and> granted s = [1]"
proof -
  obtain s0 where r: "mutex_reach FIFO Batching (mutex_new 2 (\<lambda>c. c + 7)) s0" and c0: "coros s0 = [COwn LAwait, CWait LSticky]"
    "arrived s0 = [1]" "granted s0 = []" "ths s0 = []" "exec s0 = (\<lambda>c. c + 7)" "receiver s0 = None" "sender s0 = UAt (Suc 0)" "nxt s0 (Suc 0) = None"
    using mutex_demo_parked by blast
  define s1 where "s1 = set_coro 0 (CUnl UHere UStart) s0"
  define s2 where "s2 = set_coro 0 (CUnl UHere (TryUnlockAwait_load s1)) s1"
  have c1: "coros s1 = [CUnl UHere UStart, CWait LSticky]" "receiver s1 = None" "sender s1 = UAt (Suc 0)" "nxt s1 (Suc 0) = None"
    by (simp_all add: s1_def c0)
  have c2: "coros s2 = [CUnl UHere UNext, CWait LSticky]" "receiver s2 = None" "sender s2 = UAt (Suc 0)" "nxt s2 (Suc 0) = None"
    "arrived s2 = [1]" "granted s2 = []" "exec s2 = (\<lambda>c. c + 7)"
    by (simp_all add: s2_def TryUnlockAwait_load_def c1) (simp_all add: s1_def c0)
  obtain t where g: "GetHead FIFO s2 = Some (1, t)" "coros t = coros s2" "arrived t = [1]" "granted t = []" "exec t = exec s2"
    using c2 by (cases FIFO) (auto simp: GetHead_def reverse_loop.simps)
  define s3 where "s3 = set_coro 0 (CUnl UHere (UGot 1 False)) (take_next 1 t)"
  define s4 where "s4 = set_coro 0 CFree (Submit_owner 1 s3)"
  define s5 where "s5 = set_coro 1 (COwn LSticky) (s4\<lparr>on := (on s4)(1 := 8)\<rparr>)"
  have c3: "coros s3 = [CUnl UHere (UGot 1 False), CWait LSticky]" "exec s3 (Suc 0) = 8" "arrived s3 = [1]" "granted s3 = [1]"
    by (simp_all add: s3_def take_next_def g c2)
  have c4: "coros s4 = [CFree, CCalled LSticky 8]" "arrived s4 = [1]" "granted s4 = [1]"
    by (simp_all add: s4_def Submit_owner_def c3)
  have "mutex_step FIFO Batching s0 s1" unfolding s1_def by (rule unlock_start) (simp_all add: c0)
  moreover have "mutex_step FIFO Batching s1 s2" unfolding s2_def
    by (rule unlock_more [of 0 _ _ UStart]) (simp_all add: c1 unlock_phase_def)
  moreover have "mutex_step FIFO Batching s2 s3" unfolding s3_def
    by (rule unlock_more [of 0 _ _ UNext]) (simp_all add: c2 unlock_phase_def g)
  moreover have "mutex_step FIFO Batching s3 s4" unfolding s4_def by (rule unlock_submit [of _ _ UHere _ False]) (simp_all add: c3)
  moreover have "mutex_step FIFO Batching s4 s5" unfolding s5_def by (rule resume_own) (simp_all add: c4)
  ultimately have "mutex_reach FIFO Batching s0 s5" by (meson converse_rtranclp_into_rtranclp rtranclp.rtrancl_refl)
  moreover have "coros s5 = [CFree, COwn LSticky]" "arrived s5 = [1]" "granted s5 = [1]"
    by (simp_all add: s5_def c4)
  ultimately show ?thesis using r by (meson rtranclp_trans)
qed

subsection \<open>Properties\<close>

fun inside :: "cst \<Rightarrow> bool" where
  "inside (COwn l) = True" | "inside (CUnl k ph) = True" | "inside _ = False"

fun runs :: "cst \<Rightarrow> bool" where
  "runs (CWait l) = False" | "runs (CCalled l e) = False" | "runs (CAway e) = False" | "runs _ = True"

lemma inside_ctok: "inside st \<Longrightarrow> ctok st = 1"
  by (cases st) simp_all

text \<open>
  C21: Mutual exclusion. At most one coroutine is in its critical section or leaving it; then the word says
  locked, no other coroutine has been chosen as the next owner and no thread is still unlocking on
  behalf of a coroutine that went away.
\<close>

theorem mutex_exclusive:
  assumes "mutex_reach FIFO Batching (mutex_new n e) s" and "c < length (coros s)" and "inside (coros s ! c)"
  shows "sender s \<noteq> UMax \<and> (\<forall>d < length (coros s). d \<noteq> c \<longrightarrow> \<not> inside (coros s ! d) \<and> (\<forall>l x. coros s ! d \<noteq> CCalled l x)) \<and>
    (\<forall>t \<in> set (ths s). t = ThEnd)"
proof -
  have "tokens s = 1" using mutex_reach_inv [OF assms(1)] by (simp add: mutex_inv_def)
  note alone = coro_alone [OF this assms(2) inside_ctok [OF assms(3)]]
  have "\<not> inside (coros s ! d) \<and> (\<forall>l x. coros s ! d \<noteq> CCalled l x)" if "d < length (coros s)" "d \<noteq> c" for d
    using alone(2) [OF that] by (cases "coros s ! d") simp_all
  then show ?thesis using alone(1,3) by blast
qed

theorem mutex_exclusive_witness:
  "\<exists>s :: mutex. coros s = [COwn LAwait, CWait LSticky] \<and> sender s \<noteq> UMax \<and>
     (\<forall>d < length (coros s). d \<noteq> 0 \<longrightarrow> \<not> inside (coros s ! d) \<and> (\<forall>l x. coros s ! d \<noteq> CCalled l x)) \<and> (\<forall>t \<in> set (ths s). t = ThEnd)"
proof -
  obtain s where s: "mutex_reach True True (mutex_new 2 (\<lambda>c. c + 7)) s" "coros s = [COwn LAwait, CWait LSticky]"
    using mutex_demo_parked by blast
  show ?thesis by (rule exI [of _ s]) (use s mutex_exclusive [OF s(1), of 0] in simp)
qed

text \<open>
  C22: No waiter is lost. When nothing is left to run, that is every coroutine is outside its critical
  section or waits, and no thread is unlocking, the mutex is free and nobody waits. And an
  unlock that found the lock contended always finds a waiter: \<open>GetHead\<close> never follows a null pointer.
\<close>

theorem mutex_no_lost_waiter:
  assumes "mutex_reach FIFO Batching (mutex_new n e) s"
  shows "((\<forall>st \<in> set (coros s). st = CFree \<or> is_wait st) \<and> (\<forall>t \<in> set (ths s). t = ThEnd) \<longrightarrow>
       sender s = UMax \<and> receiver s = None \<and> (\<forall>st \<in> set (coros s). st = CFree)) \<and>
    (\<forall>k. CUnl k UNext \<in> set (coros s) \<longrightarrow> GetHead FIFO s \<noteq> None) \<and>
    (\<forall>x t. ThUnl x t UNext \<in> set (ths s) \<longrightarrow> GetHead FIFO s \<noteq> None)"
proof -
  note P = mutex_inv_parts [OF mutex_reach_inv [OF assms]]
  obtain rs ss where q: "chains s rs ss" "order FIFO s rs ss" and m: "\<And>c. count (mset rs + mset ss + pend s) c = of_bool (waits s c)"
    using P(3) unfolding queue_def by blast
  have "sender s = UMax \<and> receiver s = None \<and> (\<forall>st \<in> set (coros s). st = CFree)"
    if all: "\<forall>st \<in> set (coros s). st = CFree \<or> is_wait st" "\<forall>t \<in> set (ths s). t = ThEnd"
  proof -
    have z: "ctok st = 0" "cpend st = {#}" if "st \<in> set (coros s)" for st
      using all(1) that by (cases st; force)+
    have "sum_list (map ctok (coros s)) = 0" "sum_list (map ttok (ths s)) = 0" using z(1) all(2) by simp_all
    then have u: "sender s = UMax" using P(1) by (cases "sender s") (simp_all add: tokens_def del: sum_list_eq_0_iff)
    then have "rs = []" "ss = []" using q(1) P(2) by (simp_all add: chains_def)
    moreover have "tpend t = {#}" if "t \<in> set (ths s)" for t using all(2) that by auto
    then have "pend s = {#}"
      using sum_list_all_zero [of "coros s" cpend, OF z(2)] sum_list_all_zero [of "ths s" tpend] by (simp add: pend_def)
    ultimately have "\<not> waits s c" for c using m [of c] by (cases "waits s c") simp_all
    then have "\<not> is_wait st" if "st \<in> set (coros s)" for st using that by (auto simp: waits_def in_set_conv_nth)
    then show ?thesis using u P(2) all(1) by auto
  qed
  moreover have "GetHead FIFO s \<noteq> None" if "ph_ok s UNext" "sender s \<noteq> UMax"
    using GetHead_queue [OF q that(2)] that(1) by auto
  moreover have "ph_ok s UNext \<and> sender s \<noteq> UMax" if k: "CUnl k UNext \<in> set (coros s)" for k
  proof -
    obtain c where c: "c < length (coros s)" "coros s ! c = CUnl k UNext" using k by (auto simp: in_set_conv_nth)
    then show ?thesis using P(4) [OF c(1)] coro_alone(1) [OF P(1) c(1)] by simp
  qed
  moreover have "ph_ok s UNext \<and> sender s \<noteq> UMax" if k: "ThUnl x t UNext \<in> set (ths s)" for x t
  proof -
    obtain i where i: "i < length (ths s)" "ths s ! i = ThUnl x t UNext" using k by (auto simp: in_set_conv_nth)
    then show ?thesis using P(5) [OF k] thread_alone(1) [OF P(1) i(1)] by simp
  qed
  ultimately show ?thesis by blast
qed

theorem mutex_no_lost_waiter_witness:
  "\<exists>s. mutex_reach True True (mutex_new 2 (\<lambda>c. c + 7)) s \<and> \<not> (\<forall>st \<in> set (coros s). st = CFree \<or> is_wait st) \<and>
    (\<forall>k. CUnl k UNext \<in> set (coros s) \<longrightarrow> GetHead True s \<noteq> None)"
proof -
  obtain s where s: "mutex_reach True True (mutex_new 2 (\<lambda>c. c + 7)) s" "coros s = [COwn LAwait, CWait LSticky]"
    using mutex_demo_parked by blast
  show ?thesis by (rule exI [of _ s]) (use s mutex_no_lost_waiter [OF s(1)] in simp)
qed

text \<open>
  The order of waiters. The coroutines that parked and have not been taken yet are a duplicate
  free queue of coroutines that still wait. Everyone who parked was taken or is in this queue, once; with \<open>FIFO\<close> the
  coroutines are taken exactly in the order in which they parked.
\<close>

lemma mutex_order:
  assumes "mutex_reach FIFO Batching (mutex_new n e) s"
  shows "\<exists>q. mset (arrived s) = mset (granted s) + mset q \<and> (FIFO \<longrightarrow> arrived s = granted s @ q) \<and>
    distinct q \<and> (\<forall>c \<in> set q. c < length (coros s) \<and> is_wait (coros s ! c))"
proof -
  note P = mutex_inv_parts [OF mutex_reach_inv [OF assms]]
  obtain rs ss where q: "chains s rs ss" "order FIFO s rs ss" and m: "\<And>c. count (mset rs + mset ss + pend s) c = of_bool (waits s c)"
    using P(3) unfolding queue_def by blast
  have le: "count (mset (rs @ rev ss)) c \<le> of_bool (waits s c)" for c using m [of c] by simp
  have "distinct (rs @ rev ss)"
    unfolding distinct_count_atmost_1
  proof
    fix c
    show "count (mset (rs @ rev ss)) c = (if c \<in> set (rs @ rev ss) then 1 else 0)"
    proof (cases "c \<in> set (rs @ rev ss)")
      case True
      then have "0 < count (mset (rs @ rev ss)) c" by (simp only: count_greater_zero_iff set_mset_mset)
      moreover have "count (mset (rs @ rev ss)) c \<le> 1" using le [of c] by (rule order_trans) simp
      ultimately show ?thesis using True by (simp only: if_True)
    next
      case False
      then have "count (mset (rs @ rev ss)) c = 0" unfolding count_mset_0_iff .
      then show ?thesis using False by (simp only: if_False)
    qed
  qed
  moreover have "waits s c" if c: "c \<in> set (rs @ rev ss)" for c
  proof (rule ccontr)
    assume "\<not> waits s c"
    then have "count (mset (rs @ rev ss)) c = 0" using le [of c] by simp
    then have "c \<notin> set (rs @ rev ss)" unfolding count_mset_0_iff .
    then show False using c by blast
  qed
  ultimately show ?thesis using q(2) by (intro exI [of _ "rs @ rev ss"]) (auto simp: order_def waits_def)
qed


text \<open>
  Executors. A coroutine that runs is run by a thread of the executor in its field \<open>_executor\<close>,
  whatever path of locks, unlocks and swaps of executors led there. And a coroutine that locked with a sticky guard has,
  after the unlock of the guard, the executor again that it had when it asked for the lock.
\<close>

lemma mutex_executor:
  assumes "mutex_reach FIFO Batching (mutex_new n e) s" and "c < length (coros s)"
  shows "(runs (coros s ! c) \<longrightarrow> on s c = exec s c) \<and>
    (coros s ! c = COwn LSticky \<longrightarrow> exec (UnlockSticky c s) c = home s c)"
proof -
  have "cok s c (coros s ! c)" using mutex_inv_parts(4) [OF mutex_reach_inv [OF assms(1)] assms(2)] .
  then show ?thesis
    by (cases "coros s ! c") (auto simp: UnlockSticky_def AwaitUnlockOn_start_def Let_def split: option.splits)
qed


end
