(* ===== verification/SharedMutexes.thy ===== *)
theory SharedMutexes
  imports Prelude
begin

section \<open>The shared mutex of coroutines\<close>

text \<open>
  \<open>coro/shared_mutex.hpp\<close>. The word \<open>_state\<close> counts writers in its upper and readers in its lower half, including
  those that wait. Readers that come while a writer is there wait in \<open>_readers\<close>, writers in a queue;
  the first writer that meets active readers waits until they have left, which \<open>_readers_wait\<close> counts down, from below zero
  if they leave before the writer has added their number. The rest is guarded by a spinlock. A reader that has announced
  itself in \<open>_state\<close> and not yet taken the spinlock when the last writer leaves gets a pass.

  A step is one atomic operation with the private work around it; while a thread is inside the spinlock with another
  atomic operation to come, \<open>locked\<close> holds and nobody else gets in. \<open>FIFO\<close> and \<open>ReadersFIFO\<close> are the template parameters. The list of writers
  (\<open>_writers_head\<close>, \<open>_writers_tail\<close>) and \<open>_readers\<close> are lists of coroutines; the counters have the width of the code.
\<close>

subsection \<open>States\<close>

text \<open>
  What a coroutine is doing: nothing; a reader that announced itself and was refused, that waits, that was submitted, that reads, that
  left \<open>_state\<close> and has to count down; a writer whose try failed, that is about to add the number of readers, that waits as the first
  writer, that waits in the queue, that was submitted, that writes, that has to take the spinlock to unlock, and that has it and knows
  the old \<open>_state\<close>.
\<close>

datatype sst =
  SFree | STrans | SWaitR | SCalledR | SRead | SDec
| STryW | SAdd u32 | SWaitF | SWaitQ | SCalledW | SWrite | SSlow | SSlow2 u64

record smutex =
  state :: u64
  readers :: "nat list"
  writers_first :: "nat option"
  writers :: "nat list"
  writers_prio :: u32
  readers_wait :: u32
  readers_size :: u32
  readers_pass :: u32
  locked :: bool
  cors :: "sst list"

definition smutex_new :: "nat \<Rightarrow> smutex" where
  "smutex_new n = \<lparr>state = 0, readers = [], writers_first = None, writers = [], writers_prio = 0, readers_wait = 0,
     readers_size = 0, readers_pass = 0, locked = False, cors = replicate n SFree\<rparr>"

definition kReader :: u64 where "kReader = 1"
definition kWriter :: u64 where "kWriter = 2 ^ 32"

definition go :: "nat \<Rightarrow> sst \<Rightarrow> smutex \<Rightarrow> smutex" where
  "go c st s = s\<lparr>cors := (cors s)[c := st]\<rparr>"

subsection \<open>Operations\<close>

definition TryLockSharedAwait :: "nat \<Rightarrow> smutex \<Rightarrow> smutex" where
  "TryLockSharedAwait c s =
     go c (if state s div kWriter = 0 then SRead else STrans) (s\<lparr>state := state s + kReader\<rparr>)"

definition TryLockAwait :: "bool \<Rightarrow> nat \<Rightarrow> smutex \<Rightarrow> smutex" where
  "TryLockAwait await c s =
     (if state s = 0 then go c SWrite (s\<lparr>state := kWriter\<rparr>) else go c (if await then STryW else SFree) s)"

text \<open>\<open>ReadersFIFO\<close> chooses between the intrusive list and the stack.\<close>

definition AwaitLockShared :: "bool \<Rightarrow> nat \<Rightarrow> smutex \<Rightarrow> smutex option" where
  "AwaitLockShared ReadersFIFO c s =
     (if readers_pass s \<noteq> 0 then Some (go c SRead (s\<lparr>readers_pass := readers_pass s - 1\<rparr>))
      else if state s div kWriter = 0 then None
      else Some (go c SWaitR (s\<lparr>readers := (if ReadersFIFO then readers s @ [c] else c # readers s), readers_size := readers_size s + 1\<rparr>)))"

text \<open>\<open>AwaitLock\<close>, up to the addition to \<open>_readers_wait\<close>, which only the first writer does.\<close>

definition AwaitLock_begin :: "bool \<Rightarrow> nat \<Rightarrow> smutex \<Rightarrow> smutex" where
  "AwaitLock_begin FIFO c s =
     (let old = state s; s = s\<lparr>state := state s + kWriter\<rparr>
      in if old div kWriter = 0 then
           let r = ucast (old mod kWriter); s = s\<lparr>writers_first := Some c\<rparr>
           in if r = 0 then go c SWrite s else go c (SAdd r) (s\<lparr>locked := True\<rparr>)
         else go c SWaitQ (s\<lparr>writers := writers s @ [c],
                writers_prio := writers_prio s + (if FIFO \<and> readers s = [] then 1 else 0)\<rparr>))"

definition AwaitLock_end :: "nat \<Rightarrow> u32 \<Rightarrow> smutex \<Rightarrow> smutex" where
  "AwaitLock_end c r s =
     go c (if readers_wait s = - r then SWrite else SWaitF)
       (s\<lparr>readers_wait := readers_wait s + r, locked := False\<rparr>)"

text \<open>The loop of \<open>TryLockShared\<close> ends when it sees a writer or its compare and exchange succeeds.\<close>

definition TryLockShared :: "nat \<Rightarrow> smutex \<Rightarrow> smutex" where
  "TryLockShared c s = (if state s div kWriter \<noteq> 0 then s else go c SRead (s\<lparr>state := state s + kReader\<rparr>))"

definition UnlockHereShared_begin :: "nat \<Rightarrow> smutex \<Rightarrow> smutex" where
  "UnlockHereShared_begin c s = go c (if state s \<ge> kWriter then SDec else SFree) (s\<lparr>state := state s - kReader\<rparr>)"

text \<open>\<open>Run\<close> submits a waiting coroutine; the null pointer, or a coroutine that does not wait, has the value None.\<close>

definition Run :: "nat \<Rightarrow> smutex \<Rightarrow> smutex option" where
  "Run c s =
     (case cors s ! c of
        SWaitR \<Rightarrow> Some (go c SCalledR s)
      | SWaitF \<Rightarrow> Some (go c SCalledW s)
      | SWaitQ \<Rightarrow> Some (go c SCalledW s)
      | _ \<Rightarrow> None)"

definition UnlockHereShared_end :: "nat \<Rightarrow> smutex \<Rightarrow> smutex option" where
  "UnlockHereShared_end c s =
     (let old = readers_wait s; s = go c SFree (s\<lparr>readers_wait := readers_wait s - 1\<rparr>)
      in if old = 1 then (case writers_first s of Some w \<Rightarrow> Run w s | None \<Rightarrow> None) else Some s)"

definition UnlockHere :: "nat \<Rightarrow> smutex \<Rightarrow> smutex" where
  "UnlockHere c s = (if state s = kWriter then go c SFree (s\<lparr>state := 0\<rparr>) else go c SSlow s)"

definition RunWriter :: "bool \<Rightarrow> smutex \<Rightarrow> smutex option" where
  "RunWriter FIFO s =
     (if FIFO \<and> writers_prio s = 0 then None
      else case writers s of
        [] \<Rightarrow> None
      | w # ws \<Rightarrow> Run w (s\<lparr>writers_prio := (if FIFO then writers_prio s - 1 else writers_prio s), writers := ws, locked := False\<rparr>))"

definition PassReaders :: "u64 \<Rightarrow> smutex \<Rightarrow> smutex option" where
  "PassReaders old s =
     (let r = ucast (old mod kWriter)
      in if old div kWriter \<noteq> 1 \<or> r < readers_size s then None
         else Some (s\<lparr>readers_pass := readers_pass s + (r - readers_size s)\<rparr>))"

fun Run_all :: "nat list \<Rightarrow> smutex \<Rightarrow> smutex option" where
  "Run_all [] s = Some s"
| "Run_all (c # cs) s = Option.bind (Run c s) (Run_all cs)"

definition RunReaders :: "bool \<Rightarrow> u64 \<Rightarrow> smutex \<Rightarrow> smutex option" where
  "RunReaders FIFO old s =
     Option.bind
       (let w = ucast (old div kWriter) :: u32
        in if w \<noteq> 1 then
             case writers s of
               [] \<Rightarrow> None
             | node # ws \<Rightarrow>
                 (if cors s ! node = SWaitQ
                  then Some (go node SWaitF (s\<lparr>readers_wait := readers_size s, writers := ws, writers_first := Some node,
                         writers_prio := (if FIFO then w - 2 else writers_prio s)\<rparr>))
                  else None)
           else PassReaders old s)
       (\<lambda>s. Run_all (readers s) (s\<lparr>readers := [], readers_size := 0, locked := False\<rparr>))"

definition SlowUnlock_begin :: "nat \<Rightarrow> smutex \<Rightarrow> smutex" where
  "SlowUnlock_begin c s = go c (SSlow2 (state s)) (s\<lparr>state := state s - kWriter, locked := True\<rparr>)"

definition SlowUnlock_end :: "bool \<Rightarrow> nat \<Rightarrow> u64 \<Rightarrow> smutex \<Rightarrow> smutex option" where
  "SlowUnlock_end FIFO c old s =
     map_option (go c SFree)
      (if FIFO \<and> writers_prio s \<noteq> 0 then (if old div kWriter > 1 then RunWriter FIFO s else None)
       else if readers s \<noteq> [] then RunReaders FIFO old s
       else if \<not> FIFO \<and> old div kWriter \<noteq> 1 then RunWriter FIFO s
       else map_option (\<lambda>s. s\<lparr>locked := False\<rparr>) (PassReaders old s))"

subsection \<open>Steps\<close>

text \<open>
  The first steps of the three calls, and all the others. The waiting first writer is moved from the queue to \<open>_writers_first\<close> when readers go before it. A step that the code does not
  define, an assertion that fails or a null pointer, is no step; that this never happens is shown below.
\<close>

inductive smutex_call :: "smutex \<Rightarrow> smutex \<Rightarrow> bool" where
  s_lock_shared: "c < length (cors s) \<Longrightarrow> cors s ! c = SFree \<Longrightarrow> smutex_call s (TryLockSharedAwait c s)"
| s_try_shared: "c < length (cors s) \<Longrightarrow> cors s ! c = SFree \<Longrightarrow> smutex_call s (TryLockShared c s)"
| s_lock: "c < length (cors s) \<Longrightarrow> cors s ! c = SFree \<Longrightarrow> smutex_call s (TryLockAwait await c s)"

inductive smutex_run :: "bool \<Rightarrow> bool \<Rightarrow> smutex \<Rightarrow> smutex \<Rightarrow> bool" for FIFO ReadersFIFO where
  s_await_shared: "c < length (cors s) \<Longrightarrow> cors s ! c = STrans \<Longrightarrow> \<not> locked s \<Longrightarrow>
    AwaitLockShared ReadersFIFO c s = Some t \<Longrightarrow> smutex_run FIFO ReadersFIFO s t"
| s_resume_shared: "c < length (cors s) \<Longrightarrow> cors s ! c = SCalledR \<Longrightarrow> smutex_run FIFO ReadersFIFO s (go c SRead s)"
| s_unlock_shared: "c < length (cors s) \<Longrightarrow> cors s ! c = SRead \<Longrightarrow> smutex_run FIFO ReadersFIFO s (UnlockHereShared_begin c s)"
| s_count_down: "c < length (cors s) \<Longrightarrow> cors s ! c = SDec \<Longrightarrow> UnlockHereShared_end c s = Some t \<Longrightarrow>
    smutex_run FIFO ReadersFIFO s t"
| s_await: "c < length (cors s) \<Longrightarrow> cors s ! c = STryW \<Longrightarrow> \<not> locked s \<Longrightarrow> smutex_run FIFO ReadersFIFO s (AwaitLock_begin FIFO c s)"
| s_add: "c < length (cors s) \<Longrightarrow> cors s ! c = SAdd r \<Longrightarrow> smutex_run FIFO ReadersFIFO s (AwaitLock_end c r s)"
| s_resume: "c < length (cors s) \<Longrightarrow> cors s ! c = SCalledW \<Longrightarrow> smutex_run FIFO ReadersFIFO s (go c SWrite s)"
| s_unlock: "c < length (cors s) \<Longrightarrow> cors s ! c = SWrite \<Longrightarrow> smutex_run FIFO ReadersFIFO s (UnlockHere c s)"
| s_slow: "c < length (cors s) \<Longrightarrow> cors s ! c = SSlow \<Longrightarrow> \<not> locked s \<Longrightarrow> smutex_run FIFO ReadersFIFO s (SlowUnlock_begin c s)"
| s_slow_end: "c < length (cors s) \<Longrightarrow> cors s ! c = SSlow2 old \<Longrightarrow> SlowUnlock_end FIFO c old s = Some t \<Longrightarrow>
    smutex_run FIFO ReadersFIFO s t"

definition smutex_step :: "bool \<Rightarrow> bool \<Rightarrow> smutex \<Rightarrow> smutex \<Rightarrow> bool" where
  "smutex_step FIFO ReadersFIFO s t \<longleftrightarrow> smutex_call s t \<or> smutex_run FIFO ReadersFIFO s t"

abbreviation smutex_reach :: "bool \<Rightarrow> bool \<Rightarrow> smutex \<Rightarrow> smutex \<Rightarrow> bool" where
  "smutex_reach FIFO ReadersFIFO \<equiv> (smutex_step FIFO ReadersFIFO)\<^sup>*\<^sup>*"

subsection \<open>Counting coroutines\<close>

fun acts :: "sst \<Rightarrow> bool" where "acts SRead = True" | "acts SCalledR = True" | "acts _ = False"
fun owns :: "sst \<Rightarrow> bool" where "owns SWrite = True" | "owns SCalledW = True" | "owns SSlow = True" | "owns _ = False"
fun isAdd :: "sst \<Rightarrow> bool" where "isAdd (SAdd r) = True" | "isAdd _ = False"
fun isSlow2 :: "sst \<Rightarrow> bool" where "isSlow2 (SSlow2 r) = True" | "isSlow2 _ = False"
fun addw :: "sst \<Rightarrow> nat" where "addw (SAdd r) = unat r" | "addw _ = 0"
fun oldW :: "sst \<Rightarrow> nat" where "oldW (SSlow2 x) = unat (x div kWriter)" | "oldW _ = 0"
fun oldR :: "sst \<Rightarrow> nat" where "oldR (SSlow2 x) = unat (x mod kWriter)" | "oldR _ = 0"

definition wsum :: "(sst \<Rightarrow> nat) \<Rightarrow> smutex \<Rightarrow> nat" where
  "wsum f s = sum_list (map f (cors s))"

abbreviation num :: "(sst \<Rightarrow> bool) \<Rightarrow> smutex \<Rightarrow> nat" where
  "num P \<equiv> wsum (\<lambda>x. of_bool (P x))"

lemma cors_go [simp]: "cors (go c st s) = (cors s)[c := st]"
  by (simp add: go_def)

lemma wsum_go: "c < length (cors s) \<Longrightarrow> wsum f (go c st s) = wsum f s + f st - f (cors s ! c)"
  by (simp add: wsum_def sum_list_step_nat)

lemma wsum_go_eq: "c < length (cors s) \<Longrightarrow> f st = f (cors s ! c) \<Longrightarrow> wsum f (go c st s) = wsum f s"
  by (simp add: wsum_go)

lemma wsum_ge: "c < length (cors s) \<Longrightarrow> f (cors s ! c) \<le> wsum f s"
  by (simp add: wsum_def sum_list_entry_le)

lemma wsum_cors: "cors t = cors s \<Longrightarrow> wsum f t = wsum f s"
  by (simp add: wsum_def)

lemma num_upto:
  "num acts s + num ((=) STrans) s + num ((=) SDec) s + num ((=) SWaitR) s + num ((=) SWaitQ) s + num owns s
     + num ((=) SWaitF) s + num isAdd s + num isSlow2 s \<le> length (cors s)"
proof -
  have "sum_list (map (\<lambda>x. of_bool (acts x)) xs) + sum_list (map (\<lambda>x. of_bool (STrans = x)) xs) + sum_list (map (\<lambda>x. of_bool (SDec = x)) xs)
      + sum_list (map (\<lambda>x. of_bool (SWaitR = x)) xs) + sum_list (map (\<lambda>x. of_bool (SWaitQ = x)) xs) + sum_list (map (\<lambda>x. of_bool (owns x)) xs)
      + sum_list (map (\<lambda>x. of_bool (SWaitF = x)) xs) + sum_list (map (\<lambda>x. of_bool (isAdd x)) xs)
      + sum_list (map (\<lambda>x. of_bool (isSlow2 x)) xs) \<le> length xs" for xs
  proof (induction xs)
    case (Cons x xs)
    then show ?case by (cases x) simp_all
  qed simp
  then show ?thesis by (simp add: wsum_def)
qed

lemma num_none: "num P s = 0 \<Longrightarrow> c < length (cors s) \<Longrightarrow> \<not> P (cors s ! c)"
  using wsum_ge [of c s "\<lambda>x. of_bool (P x)"] by auto

lemma num_one:
  assumes "num P s \<le> 1" "c < length (cors s)" "P (cors s ! c)" "\<And>x. \<not> P x \<Longrightarrow> f x = 0" "\<not> P SFree"
  shows "wsum f s = f (cors s ! c)"
proof -
  have "num P (go c SFree s) = 0" using assms by (simp add: wsum_go)
  then have "f x = 0" if "x \<in> set (cors (go c SFree s))" for x
    using that assms(4) num_none [of P "go c SFree s"] by (metis in_set_conv_nth)
  then have "wsum f (go c SFree s) = 0" unfolding wsum_def by (rule sum_list_all_zero)
  moreover have "f (cors s ! c) \<le> wsum f s" using assms(2) by (rule wsum_ge)
  ultimately show ?thesis using assms by (simp add: wsum_go)
qed

lemma num_list:
  assumes "distinct xs" "set xs = {c. c < length (cors s) \<and> cors s ! c = x}"
  shows "length xs = num ((=) x) s"
proof -
  have "sum_list (map (\<lambda>y. of_bool (x = y)) ys) = length (filter ((=) x) ys)" for ys
    by (induction ys) auto
  then have "num ((=) x) s = card {c. c < length (cors s) \<and> x = cors s ! c}"
    by (simp add: wsum_def length_filter_conv_card)
  also have "{c. c < length (cors s) \<and> x = cors s ! c} = set xs" using assms(2) by auto
  finally show ?thesis using assms(1) by (simp add: distinct_card)
qed

subsection \<open>The word \<open>_state\<close>\<close>

text \<open>\<open>w\<close> writers and \<open>r\<close> readers.\<close>

definition parts :: "u64 \<Rightarrow> nat \<Rightarrow> nat \<Rightarrow> bool" where
  "parts x w r \<longleftrightarrow> unat x = w * 2 ^ 32 + r \<and> r < 2 ^ 31 \<and> w < 2 ^ 31"

lemma kWriter_unat: "unat kWriter = 2 ^ 32" "unat kReader = 1"
  by (simp_all add: kWriter_def kReader_def)

lemma halves:
  assumes "parts x w r"
  shows "unat (x div kWriter) = w" "unat (x mod kWriter) = r"
    "unat (ucast (x div kWriter) :: u32) = w" "unat (ucast (x mod kWriter) :: u32) = r"
  using assms by (simp_all add: parts_def unat_div_distrib unat_mod_distrib kWriter_unat unsigned_ucast_eq take_bit_eq_mod
      del: word_div_def)

lemma parts_kWriter: "parts kWriter 1 0" "parts 0 0 0"
  by (simp_all add: parts_def kWriter_unat)

lemma parts_unique:
  assumes "parts x w r"
  shows "x = y \<longleftrightarrow> parts y w r"
proof
  show "x = y \<Longrightarrow> parts y w r" using assms by simp
  show "x = y" if "parts y w r" using assms that by (simp add: parts_def word_unat_eq_iff)
qed

lemma parts_inj:
  assumes "parts x w r" "parts x w' r'"
  shows "w = w' \<and> r = r'"
  using halves(1,2) [OF assms(1)] halves(1,2) [OF assms(2)] by simp

lemma state_step:
  assumes "parts x w r"
  shows "r + 1 < 2 ^ 31 \<Longrightarrow> parts (x + kReader) w (r + 1)" "w + 1 < 2 ^ 31 \<Longrightarrow> parts (x + kWriter) (w + 1) r"
    "0 < r \<Longrightarrow> parts (x - kReader) w (r - 1)" "0 < w \<Longrightarrow> parts (x - kWriter) (w - 1) r"
proof -
  have u: "unat x = w * 2 ^ 32 + r" "r < 2 ^ 31" "w < 2 ^ 31" using assms by (simp_all add: parts_def)
  show "r + 1 < 2 ^ 31 \<Longrightarrow> parts (x + kReader) w (r + 1)" "w + 1 < 2 ^ 31 \<Longrightarrow> parts (x + kWriter) (w + 1) r"
  proof -
    assume r: "r + 1 < 2 ^ 31"
    have "unat x + unat kReader < 2 ^ 64" using u r by (simp add: kWriter_unat)
    then have "unat (x + kReader) = unat x + 1" by (simp add: unat_word_ariths(1) kWriter_unat)
    then show "parts (x + kReader) w (r + 1)" using u r by (simp add: parts_def)
  next
    assume w: "w + 1 < 2 ^ 31"
    have "unat x + unat kWriter < 2 ^ 64" using u w by (simp add: kWriter_unat)
    then have "unat (x + kWriter) = unat x + 2 ^ 32" by (simp add: unat_word_ariths(1) kWriter_unat)
    then have "unat (x + kWriter) = (w + 1) * 2 ^ 32 + r" using u(1) by (simp only: distrib_right mult_1)
    then show "parts (x + kWriter) (w + 1) r" unfolding parts_def using u(2) w by blast
  qed
  show "parts (x - kReader) w (r - 1)" if "0 < r"
  proof -
    from that obtain q where q: "r = Suc q" using gr0_implies_Suc by blast
    then have "kReader \<le> x" using u(1) by (simp add: word_le_nat_alt kWriter_unat)
    then have "unat (x - kReader) = unat x - 1" by (simp add: unat_sub kWriter_unat)
    then show ?thesis using q u by (simp add: parts_def)
  qed
  show "parts (x - kWriter) (w - 1) r" if "0 < w"
  proof -
    from that obtain v where v: "w = Suc v" using gr0_implies_Suc by blast
    then have "kWriter \<le> x" using u(1) by (simp add: word_le_nat_alt kWriter_unat)
    then have "unat (x - kWriter) = unat x - 2 ^ 32" by (simp add: unat_sub kWriter_unat)
    then show ?thesis using v u by (simp add: parts_def)
  qed
qed

lemma state_cmp:
  assumes "parts x w r"
  shows "x div kWriter = 0 \<longleftrightarrow> w = 0" "x div kWriter = 1 \<longleftrightarrow> w = 1" "x div kWriter > 1 \<longleftrightarrow> w > 1"
    "(ucast (x div kWriter) :: u32) = 1 \<longleftrightarrow> w = 1" "(ucast (x mod kWriter) :: u32) = 0 \<longleftrightarrow> r = 0"
    "kWriter \<le> x \<longleftrightarrow> w > 0" "x = kWriter \<longleftrightarrow> w = 1 \<and> r = 0" "x = 0 \<longleftrightarrow> w = 0 \<and> r = 0"
proof -
  have u: "unat x = w * 2 ^ 32 + r" "r < 2 ^ 31" "w < 2 ^ 31" using assms by (simp_all add: parts_def)
  show "x div kWriter = 0 \<longleftrightarrow> w = 0" "x div kWriter = 1 \<longleftrightarrow> w = 1" "x div kWriter > 1 \<longleftrightarrow> w > 1"
    using halves(1) [OF assms] by (auto simp: word_less_nat_alt unat_eq_0 [symmetric] unat_1 word_unat_eq_iff simp del: word_div_def)
  show "(ucast (x div kWriter) :: u32) = 1 \<longleftrightarrow> w = 1" "(ucast (x mod kWriter) :: u32) = 0 \<longleftrightarrow> r = 0"
    using halves(3,4) [OF assms] by (auto simp: word_unat_eq_iff simp del: word_div_def)
  show "kWriter \<le> x \<longleftrightarrow> w > 0" using u(1,2) by (auto simp: word_le_nat_alt kWriter_unat)
  show "x = kWriter \<longleftrightarrow> w = 1 \<and> r = 0" "x = 0 \<longleftrightarrow> w = 0 \<and> r = 0"
    using parts_unique [OF assms] parts_inj parts_kWriter assms by metis+
qed

subsection \<open>The invariant\<close>

text \<open>Writers and readers of \<open>_state\<close>, and the readers that the first writer has to wait for.\<close>

definition nW :: "smutex \<Rightarrow> nat" where
  "nW s = num ((=) SWaitQ) s + num owns s + num ((=) SWaitF) s + num isAdd s"

definition nR :: "smutex \<Rightarrow> nat" where
  "nR s = num acts s + num ((=) STrans) s + num ((=) SWaitR) s"

definition due :: "smutex \<Rightarrow> nat" where
  "due s = num acts s + num ((=) SDec) s + unat (readers_pass s)"

text \<open>
  What the fields say, and the six phases of the lock: no writer; one that has it; one that waits for readers; one that adds their
  number; the last writer, or one that others follow, about to leave.
\<close>

definition fields_ok :: "bool \<Rightarrow> smutex \<Rightarrow> bool" where
  "fields_ok FIFO s \<longleftrightarrow> parts (state s) (nW s) (nR s) \<and>
     unat (readers_pass s) \<le> num ((=) STrans) s \<and>
     unat (readers_size s) = num ((=) SWaitR) s \<and>
     (FIFO \<longrightarrow> unat (writers_prio s) \<le> num ((=) SWaitQ) s \<and>
       (num ((=) SWaitR) s = 0 \<longrightarrow> unat (writers_prio s) = num ((=) SWaitQ) s))"

datatype phase = Idle | Owned | Waits | Adds | Last | More

definition writers_are :: "nat \<Rightarrow> nat \<Rightarrow> nat \<Rightarrow> nat \<Rightarrow> smutex \<Rightarrow> bool" where
  "writers_are ow fi ad sl s \<longleftrightarrow>
     num owns s = ow \<and> num ((=) SWaitF) s = fi \<and> num isAdd s = ad \<and> num isSlow2 s = sl \<and> locked s = (ad + sl > 0)"

definition no_readers :: "smutex \<Rightarrow> bool" where
  "no_readers s \<longleftrightarrow> num ((=) SDec) s = 0 \<and> unat (readers_pass s) = 0 \<and> readers_wait s = 0"

fun phase_ok :: "phase \<Rightarrow> smutex \<Rightarrow> bool" where
  "phase_ok Idle s \<longleftrightarrow> writers_are 0 0 0 0 s \<and> num ((=) SWaitQ) s = 0 \<and> num ((=) SWaitR) s = 0 \<and> num ((=) SDec) s = 0 \<and>
     num ((=) STrans) s = unat (readers_pass s) \<and> readers_wait s = 0"
| "phase_ok Owned s \<longleftrightarrow> writers_are 1 0 0 0 s \<and> no_readers s \<and> num acts s = 0 \<and>
     (num ((=) SSlow) s > 0 \<longrightarrow> num ((=) SWaitQ) s + num ((=) STrans) s + num ((=) SWaitR) s > 0)"
| "phase_ok Waits s \<longleftrightarrow> writers_are 0 1 0 0 s \<and> readers_wait s = of_nat (due s) \<and> due s > 0"
| "phase_ok Adds s \<longleftrightarrow> writers_are 0 0 1 0 s \<and> readers_wait s + of_nat (wsum addw s) = of_nat (due s) \<and> due s \<le> wsum addw s \<and>
     wsum addw s < 2 ^ 31"
| "phase_ok Last s \<longleftrightarrow> writers_are 0 0 0 1 s \<and> no_readers s \<and> num ((=) SWaitQ) s = 0 \<and> wsum oldW s = 1 \<and>
     wsum oldR s = num ((=) STrans) s + num ((=) SWaitR) s \<and> num ((=) STrans) s + num ((=) SWaitR) s > 0"
| "phase_ok More s \<longleftrightarrow> writers_are 0 0 0 1 s \<and> no_readers s \<and> num acts s = 0 \<and> num ((=) SWaitQ) s > 0 \<and>
     wsum oldW s = num ((=) SWaitQ) s + 1"

definition waiters :: "sst \<Rightarrow> nat list \<Rightarrow> smutex \<Rightarrow> bool" where
  "waiters x xs s \<longleftrightarrow> distinct xs \<and> set xs = {c. c < length (cors s) \<and> cors s ! c = x}"

definition first_ok :: "smutex \<Rightarrow> bool" where
  "first_ok s \<longleftrightarrow> (\<forall>c < length (cors s). cors s ! c = SWaitF \<or> isAdd (cors s ! c) \<longrightarrow> writers_first s = Some c)"

definition lists_ok :: "smutex \<Rightarrow> bool" where
  "lists_ok s \<longleftrightarrow> waiters SWaitR (readers s) s \<and> waiters SWaitQ (writers s) s \<and> first_ok s"

definition sinv :: "bool \<Rightarrow> smutex \<Rightarrow> bool" where
  "sinv FIFO s \<longleftrightarrow> fields_ok FIFO s \<and> (\<exists>ph. phase_ok ph s) \<and> lists_ok s \<and> length (cors s) < 2 ^ 31"

lemma u32_plus: "unat (x :: u32) + unat y < 2 ^ 32 \<Longrightarrow> unat (x + y) = unat x + unat y"
  by (simp add: unat_word_ariths(1))

lemma u32_inc: "unat (x :: u32) < 2 ^ 31 \<Longrightarrow> unat (x + 1) = unat x + 1"
  by (simp add: u32_plus)

lemma u32_dec: "x \<noteq> 0 \<Longrightarrow> unat (x - 1 :: u32) = unat x - 1"
  by (simp add: unat_minus_one)

lemma u32_pos: "x \<noteq> 0 \<longleftrightarrow> unat (x :: u32) > 0"
  by (simp add: unat_gt_0)

lemmas count_defs = nW_def nR_def due_def fields_ok_def writers_are_def no_readers_def phase_ok.simps

declare phase_ok.simps [simp del]

lemma wsum_fields [simp]:
  "wsum f (s\<lparr>state := a\<rparr>) = wsum f s" "wsum f (s\<lparr>readers := b\<rparr>) = wsum f s" "wsum f (s\<lparr>writers_first := c\<rparr>) = wsum f s"
  "wsum f (s\<lparr>writers := b\<rparr>) = wsum f s" "wsum f (s\<lparr>writers_prio := d\<rparr>) = wsum f s" "wsum f (s\<lparr>readers_wait := d\<rparr>) = wsum f s"
  "wsum f (s\<lparr>readers_size := d\<rparr>) = wsum f s" "wsum f (s\<lparr>readers_pass := d\<rparr>) = wsum f s" "wsum f (s\<lparr>locked := e\<rparr>) = wsum f s"
  by (simp_all add: wsum_def)

lemma go_fields [simp]:
  "state (go c st s) = state s" "readers (go c st s) = readers s" "writers_first (go c st s) = writers_first s"
  "writers (go c st s) = writers s" "writers_prio (go c st s) = writers_prio s" "readers_wait (go c st s) = readers_wait s"
  "readers_size (go c st s) = readers_size s" "readers_pass (go c st s) = readers_pass s" "locked (go c st s) = locked s"
  by (simp_all add: go_def)

lemma lists_cors:
  assumes "cors u = cors s"
  shows "waiters x xs u = waiters x xs s" "writers_first u = writers_first s \<Longrightarrow> first_ok u = first_ok s"
  using assms by (simp_all add: waiters_def first_ok_def)

lemma waiters_same:
  "waiters x xs s \<Longrightarrow> cors u = cors s \<Longrightarrow> c < length (cors s) \<Longrightarrow> cors s ! c \<noteq> x \<Longrightarrow> st \<noteq> x \<Longrightarrow> waiters x xs (go c st u)"
  unfolding waiters_def by (auto simp: nth_list_update)

lemma waiters_add:
  assumes "waiters x xs s" "cors u = cors s" "c < length (cors s)" "cors s ! c \<noteq> x" "ys = xs @ [c] \<or> ys = c # xs"
  shows "waiters x ys (go c x u)"
proof -
  have s: "set xs = {c. c < length (cors s) \<and> cors s ! c = x}" "distinct xs" using assms(1) by (simp_all add: waiters_def)
  then have "c \<notin> set xs" using assms(4) by simp
  then have "distinct ys" "set ys = insert c (set xs)" using s(2) assms(5) by auto
  moreover have "insert c (set xs) = {d. d < length (cors (go c x u)) \<and> cors (go c x u) ! d = x}"
    unfolding s(1) using assms(2,3) by (auto simp: nth_list_update)
  ultimately show ?thesis by (simp add: waiters_def)
qed

lemma waiters_remove:
  assumes "waiters x (w # ws) s" "cors u = cors s" "st \<noteq> x"
  shows "w < length (cors s)" "cors s ! w = x" "waiters x ws (go w st u)"
proof -
  have s: "insert w (set ws) = {c. c < length (cors s) \<and> cors s ! c = x}" and d: "w \<notin> set ws" "distinct ws"
    using assms(1) by (simp_all add: waiters_def)
  show w: "w < length (cors s)" "cors s ! w = x" using s by blast+
  have "set ws = {c. c < length (cors s) \<and> cors s ! c = x} - {w}" using s d by blast
  also have "\<dots> = {c. c < length (cors (go w st u)) \<and> cors (go w st u) ! c = x}"
    using w assms(2,3) by (auto simp: nth_list_update)
  finally show "waiters x ws (go w st u)" using d by (simp add: waiters_def)
qed

lemma first_same:
  "first_ok s \<Longrightarrow> cors u = cors s \<Longrightarrow> writers_first u = writers_first s \<Longrightarrow> c < length (cors s) \<Longrightarrow>
    (st = SWaitF \<or> isAdd st \<Longrightarrow> isAdd (cors s ! c)) \<Longrightarrow> first_ok (go c st u)"
  unfolding first_ok_def by (auto simp: nth_list_update)

lemma first_new:
  assumes "num ((=) SWaitF) s = 0" "num isAdd s = 0" "cors u = cors s" "c < length (cors s)"
    "writers_first u = Some c \<or> st \<noteq> SWaitF \<and> \<not> isAdd st"
  shows "first_ok (go c st u)"
proof -
  have "cors s ! d \<noteq> SWaitF \<and> \<not> isAdd (cors s ! d)" if "d < length (cors s)" for d
    using that num_none [OF assms(1)] num_none [OF assms(2)] by metis
  then show ?thesis using assms(3-5) unfolding first_ok_def by (auto simp: nth_list_update)
qed

lemma lists_go:
  assumes "lists_ok s" "c < length (cors s)" "cors s ! c \<notin> {SWaitR, SWaitQ}" "st \<notin> {SWaitR, SWaitQ}"
    and "st = SWaitF \<or> isAdd st \<Longrightarrow> isAdd (cors s ! c)"
    and "cors u = cors s" "readers u = readers s" "writers u = writers s" "writers_first u = writers_first s"
  shows "lists_ok (go c st u)"
  using assms by (simp add: lists_ok_def waiters_same [of _ _ s] first_same [of s])

lemma sinv_new: "n < 2 ^ 31 \<Longrightarrow> sinv FIFO (smutex_new n)"
proof -
  assume n: "n < 2 ^ 31"
  have z: "wsum f (smutex_new n) = 0" if "f SFree = 0" for f
    using that unfolding wsum_def smutex_new_def by (simp add: sum_list_replicate_zero del: map_replicate sum_list_replicate)
  have "fields_ok FIFO (smutex_new n)" "phase_ok Idle (smutex_new n)"
    unfolding count_defs phase_ok.simps by (simp_all add: z) (simp_all add: smutex_new_def parts_kWriter)
  moreover have "lists_ok (smutex_new n)" "length (cors (smutex_new n)) < 2 ^ 31"
    using n by (auto simp: lists_ok_def waiters_def first_ok_def smutex_new_def)
  ultimately show ?thesis unfolding sinv_def by blast
qed

lemma sinvD:
  assumes "sinv FIFO s"
  shows "fields_ok FIFO s" "lists_ok s" "length (cors s) < 2 ^ 31" "parts (state s) (nW s) (nR s)" "\<exists>ph. phase_ok ph s"
  using assms by (simp_all add: sinv_def fields_ok_def)

lemma nums_bound:
  assumes "sinv FIFO s"
  shows "nR s + nW s + num ((=) SDec) s + num isSlow2 s < 2 ^ 31"
  using num_upto [of s] sinvD(3) [OF assms] by (simp add: nR_def nW_def)

lemma nums_room:
  assumes "sinv FIFO s" "c < length (cors s)" "cors s ! c \<in> {SFree, STryW}"
  shows "nR s + nW s + num ((=) SDec) s + num isSlow2 s + 1 < 2 ^ 31"
  using num_upto [of "go c STrans s"] sinvD(3) [OF assms(1)] assms(2,3) by (auto simp: nR_def nW_def wsum_go)

lemma sinv_goI:
  assumes "sinv FIFO s" "c < length (cors s)" "cors s ! c \<notin> {SWaitR, SWaitQ}" "st \<notin> {SWaitR, SWaitQ}"
    and "st = SWaitF \<or> isAdd st \<Longrightarrow> isAdd (cors s ! c)"
    and "cors u = cors s" "readers u = readers s" "writers u = writers s" "writers_first u = writers_first s"
    and "fields_ok FIFO (go c st u)" "phase_ok ph (go c st u)"
  shows "sinv FIFO (go c st u)"
  using assms(10,11) lists_go [OF sinvD(2) [OF assms(1)] assms(2-9)] assms(6) sinvD(3) [OF assms(1)] unfolding sinv_def by auto

lemma num_ge: "c < length (cors s) \<Longrightarrow> P (cors s ! c) \<Longrightarrow> num P s > 0"
  using wsum_ge [of c s "\<lambda>x. of_bool (P x)"] by simp

lemma num_slow: "num ((=) SSlow) s + num ((=) SWrite) s \<le> num owns s"
proof -
  have "sum_list (map (\<lambda>x. of_bool (SSlow = x)) xs) + sum_list (map (\<lambda>x. of_bool (SWrite = x)) xs)
      \<le> sum_list (map (\<lambda>x. of_bool (owns x) :: nat) xs)" for xs
  proof (induction xs)
    case (Cons x xs)
    then show ?case by (cases x) simp_all
  qed simp
  then show ?thesis by (simp add: wsum_def)
qed

lemma wsum_none:
  assumes "num P s = 0" "\<And>x. \<not> P x \<Longrightarrow> f x = 0"
  shows "wsum f s = 0"
proof -
  have "f x = 0" if "x \<in> set (cors s)" for x
    using that assms num_none [of P s] by (metis in_set_conv_nth)
  then show ?thesis unfolding wsum_def by (rule sum_list_all_zero)
qed

lemma num_pos:
  assumes "num P s > 0"
  shows "\<exists>c < length (cors s). P (cors s ! c)"
proof (rule ccontr)
  assume "\<not> ?thesis"
  then have "\<not> P x" if "x \<in> set (cors s)" for x using that by (metis in_set_conv_nth)
  then have "wsum (\<lambda>x. of_bool (P x)) s = 0" unfolding wsum_def by (intro sum_list_all_zero) simp
  then show False using assms by simp
qed

lemma sinv_go_same:
  assumes "sinv FIFO s" "c < length (cors s)"
    and same: "(cors s ! c, st) \<in> {(SCalledR, SRead), (SCalledW, SWrite), (SFree, SFree), (SFree, STryW)}"
  shows "sinv FIFO (go c st s)"
proof -
  have w: "wsum f (go c st s) = wsum f s"
    if "f SCalledR = f SRead" "f SCalledW = f SWrite" "f SFree = f STryW" for f
    using same assms(2) that by (auto simp: wsum_go_eq)
  have "fields_ok FIFO (go c st s) = fields_ok FIFO s"
    unfolding count_defs by (simp add: w)
  moreover have "phase_ok ph (go c st s) = phase_ok ph s" for ph
    by (cases ph) (simp_all add: count_defs w)
  moreover obtain ph where "phase_ok ph s" using sinvD(5) [OF assms(1)] by blast
  ultimately show ?thesis using same sinvD(1) [OF assms(1)] by (intro sinv_goI [OF assms(1,2), where ph = ph]) auto
qed

lemma sinv_resume_shared: "sinv FIFO s \<Longrightarrow> c < length (cors s) \<Longrightarrow> cors s ! c = SCalledR \<Longrightarrow> sinv FIFO (go c SRead s)"
  by (rule sinv_go_same) simp_all

lemma sinv_resume: "sinv FIFO s \<Longrightarrow> c < length (cors s) \<Longrightarrow> cors s ! c = SCalledW \<Longrightarrow> sinv FIFO (go c SWrite s)"
  by (rule sinv_go_same) simp_all

lemma no_writers_iff: "phase_ok ph s \<Longrightarrow> nW s = 0 \<longleftrightarrow> ph = Idle \<or> ph = Last"
  by (cases ph) (simp_all add: count_defs)

lemma sinv_TryLockSharedAwait:
  assumes "sinv FIFO s" "c < length (cors s)" "cors s ! c = SFree"
  shows "sinv FIFO (TryLockSharedAwait c s)"
proof -
  note i = sinvD [OF assms(1)] and p = sinvD(4) [OF assms(1)]
  obtain ph where ph: "phase_ok ph s" using i(5) by blast
  obtain st where st: "st = SRead \<and> nW s = 0 \<or> st = STrans \<and> nW s > 0"
      "TryLockSharedAwait c s = go c st (s\<lparr>state := state s + kReader\<rparr>)"
    using state_cmp(1) [OF p] by (cases "nW s = 0") (simp_all add: TryLockSharedAwait_def)
  let ?t = "go c st (s\<lparr>state := state s + kReader\<rparr>)"
  have "parts (state s + kReader) (nW s) (nR s + 1)" using nums_room [OF assms(1,2)] assms(3) by (intro state_step(1) [OF p]) simp
  then have f: "fields_ok FIFO ?t"
    using i(1) assms st(1) by (elim disjE) (simp_all add: count_defs wsum_go)
  have "phase_ok ph ?t"
    using ph assms st(1) no_writers_iff [OF ph] by (cases ph) (simp_all add: count_defs wsum_go)
  with f have "sinv FIFO ?t" using assms st(1) by (intro sinv_goI [OF assms(1,2)]) auto
  then show ?thesis using st(2) by simp
qed


lemma sinv_TryLockShared:
  assumes "sinv FIFO s" "c < length (cors s)" "cors s ! c = SFree"
  shows "sinv FIFO (TryLockShared c s)"
proof (cases "nW s = 0")
  case True
  then have "TryLockShared c s = TryLockSharedAwait c s"
    using state_cmp(1) [OF sinvD(4) [OF assms(1)]] by (simp add: TryLockSharedAwait_def TryLockShared_def)
  then show ?thesis using sinv_TryLockSharedAwait [OF assms] by simp
next
  case False
  then show ?thesis using assms(1) state_cmp(1) [OF sinvD(4) [OF assms(1)]] by (simp add: TryLockShared_def)
qed

lemma sinv_UnlockHereShared_begin:
  assumes "sinv FIFO s" "c < length (cors s)" "cors s ! c = SRead"
  shows "sinv FIFO (UnlockHereShared_begin c s)"
proof -
  note i = sinvD [OF assms(1)] and p = sinvD(4) [OF assms(1)]
  obtain ph where ph: "phase_ok ph s" using i(5) by blast
  have a: "num acts s > 0" using num_ge [OF assms(2), of acts] assms(3) by simp
  obtain st where st: "st = SFree \<and> nW s = 0 \<or> st = SDec \<and> nW s > 0"
      "UnlockHereShared_begin c s = go c st (s\<lparr>state := state s - kReader\<rparr>)"
    using state_cmp(6) [OF p] by (cases "nW s = 0") (simp_all add: UnlockHereShared_begin_def)
  let ?t = "go c st (s\<lparr>state := state s - kReader\<rparr>)"
  have "parts (state s - kReader) (nW s) (nR s - 1)" using a by (intro state_step(3) [OF p]) (simp add: nR_def)
  then have f: "fields_ok FIFO ?t"
    using i(1) a assms st(1) by (elim disjE) (simp_all add: count_defs wsum_go)
  have "phase_ok ph ?t"
    using ph a assms st(1) no_writers_iff [OF ph] by (cases ph) (simp_all add: count_defs wsum_go)
  with f have "sinv FIFO ?t" using assms st(1) by (intro sinv_goI [OF assms(1,2)]) auto
  then show ?thesis using st(2) by simp
qed

lemma sinv_TryLockAwait:
  assumes "sinv FIFO s" "c < length (cors s)" "cors s ! c = SFree"
  shows "sinv FIFO (TryLockAwait await c s)"
proof -
  note i = sinvD [OF assms(1)] and p = sinvD(4) [OF assms(1)]
  obtain ph where ph: "phase_ok ph s" using i(5) by blast
  show ?thesis
  proof (cases "state s = 0")
    case True
    then have z: "nW s = 0" "nR s = 0" using state_cmp(8) [OF p] by simp_all
    then have "ph = Idle" using ph no_writers_iff [OF ph] by (cases ph) (simp_all add: count_defs)
    then have "phase_ok Owned (go c SWrite (s\<lparr>state := kWriter\<rparr>))" "fields_ok FIFO (go c SWrite (s\<lparr>state := kWriter\<rparr>))"
      using i(1) z ph assms parts_kWriter num_slow [of s]
      by (simp_all add: count_defs wsum_go u32_pos)
    then show ?thesis using True assms by (auto simp: TryLockAwait_def intro: sinv_goI [OF assms(1,2)])
  next
    case False
    have "sinv FIFO (go c (if await then STryW else SFree) s)"
      using assms by (intro sinv_go_same) auto
    then show ?thesis using False by (simp add: TryLockAwait_def)
  qed
qed

lemma owned_phase:
  assumes "phase_ok ph s" "c < length (cors s)" "owns (cors s ! c)"
  shows "ph = Owned"
  using assms num_ge [of c s owns] by (cases ph) (simp_all add: count_defs)

lemma adds_phase: "phase_ok ph s \<Longrightarrow> num isAdd s > 0 \<Longrightarrow> phase_ok Adds s"
  by (cases ph) (simp_all add: count_defs)

lemma dec_phase: "phase_ok ph s \<Longrightarrow> num ((=) SDec) s > 0 \<Longrightarrow> ph = Waits \<or> ph = Adds"
  by (cases ph) (simp_all add: count_defs)

lemma slow_phase: "phase_ok ph s \<Longrightarrow> num isSlow2 s > 0 \<Longrightarrow> phase_ok Last s \<or> phase_ok More s"
  by (cases ph) (simp_all add: count_defs)

lemma sinv_UnlockHere:
  assumes "sinv FIFO s" "c < length (cors s)" "cors s ! c = SWrite"
  shows "sinv FIFO (UnlockHere c s)"
proof -
  note i = sinvD [OF assms(1)] and p = sinvD(4) [OF assms(1)]
  have ph: "phase_ok Owned s" using i(5) owned_phase assms(2,3) by fastforce
  have "num ((=) SSlow) s = 0"
    using ph num_slow [of s] num_ge [OF assms(2), of "(=) SWrite"] assms(3) by (simp add: count_defs)
  show ?thesis
  proof (cases "state s = kWriter")
    case True
    then have z: "nW s = 1" "nR s = 0" using state_cmp(7) [OF p] by simp_all
    then have "phase_ok Idle (go c SFree (s\<lparr>state := 0\<rparr>))" "fields_ok FIFO (go c SFree (s\<lparr>state := 0\<rparr>))"
      using i(1) ph assms parts_kWriter by (simp_all add: count_defs wsum_go)
    then show ?thesis using True assms by (auto simp: UnlockHere_def intro: sinv_goI [OF assms(1,2)])
  next
    case False
    then have "nW s \<noteq> 1 \<or> nR s \<noteq> 0" using state_cmp(7) [OF p] by simp
    then have "num ((=) SWaitQ) s + num ((=) STrans) s + num ((=) SWaitR) s > 0"
      using ph by (auto simp: count_defs)
    then have "phase_ok Owned (go c SSlow s)" "fields_ok FIFO (go c SSlow s)"
      using i(1) ph assms parts_kWriter by (simp_all add: count_defs wsum_go)
    then show ?thesis using False assms by (auto simp: UnlockHere_def intro: sinv_goI [OF assms(1,2)])
  qed
qed

lemma sinv_SlowUnlock_begin:
  assumes "sinv FIFO s" "c < length (cors s)" "cors s ! c = SSlow" "\<not> locked s"
  shows "sinv FIFO (SlowUnlock_begin c s)"
proof -
  note i = sinvD [OF assms(1)] and p = sinvD(4) [OF assms(1)]
  have ph: "phase_ok Owned s" using i(5) owned_phase assms(2,3) by fastforce
  have sl: "num ((=) SSlow) s > 0" using num_ge [OF assms(2), of "(=) SSlow"] assms(3) by simp
  have "oldW x = 0 \<and> oldR x = 0" if "\<not> isSlow2 x" for x using that by (cases x) auto
  then have z: "wsum oldW s = 0" "wsum oldR s = 0"
    using ph wsum_none [of isSlow2 s oldW] wsum_none [of isSlow2 s oldR] by (simp_all add: count_defs)
  let ?t = "go c (SSlow2 (state s)) (s\<lparr>state := state s - kWriter, locked := True\<rparr>)"
  have "0 < nW s" using ph by (simp add: count_defs)
  then have f: "fields_ok FIFO ?t"
    using i(1) ph assms state_step(4) [OF p] by (simp add: count_defs wsum_go)
  have "phase_ok (if num ((=) SWaitQ) s = 0 then Last else More) ?t"
    using ph assms z sl halves(1,2) [OF p] by (auto simp: count_defs wsum_go)
  with f have "sinv FIFO ?t" using assms by (intro sinv_goI [OF assms(1,2)]) auto
  then show ?thesis by (simp add: SlowUnlock_begin_def)
qed

lemma sinvI: "fields_ok FIFO s \<Longrightarrow> phase_ok ph s \<Longrightarrow> lists_ok s \<Longrightarrow> length (cors s) < 2 ^ 31 \<Longrightarrow> sinv FIFO s"
  by (auto simp: sinv_def)

lemma lists_first:
  assumes "lists_ok s" "c < length (cors s)" "cors s ! c \<notin> {SWaitR, SWaitQ}" "st \<notin> {SWaitR, SWaitQ}"
    and "num ((=) SWaitF) s = 0" "num isAdd s = 0"
    and "cors u = cors s" "readers u = readers s" "writers u = writers s" "writers_first u = Some c"
  shows "lists_ok (go c st u)"
  using assms by (simp add: lists_ok_def waiters_same [of _ _ s] first_new [of s])

lemma lists_wait_shared:
  assumes "lists_ok s" "c < length (cors s)" "cors s ! c = STrans"
    and "cors u = cors s" "readers u = readers s @ [c] \<or> readers u = c # readers s" "writers u = writers s" "writers_first u = writers_first s"
  shows "lists_ok (go c SWaitR u)"
proof -
  have "first_ok (go c SWaitR u)" using assms by (intro first_same [of s]) (auto simp: lists_ok_def)
  moreover have "waiters SWaitR (readers u) (go c SWaitR u)"
    using assms by (intro waiters_add [of SWaitR "readers s" s]) (auto simp: lists_ok_def)
  ultimately show ?thesis using assms by (simp add: lists_ok_def waiters_same [of _ _ s])
qed

lemma lists_wait:
  assumes "lists_ok s" "c < length (cors s)" "cors s ! c = STryW"
    and "cors u = cors s" "readers u = readers s" "writers u = writers s @ [c]" "writers_first u = writers_first s"
  shows "lists_ok (go c SWaitQ u)"
proof -
  have "first_ok (go c SWaitQ u)" using assms by (intro first_same [of s]) (auto simp: lists_ok_def)
  moreover have "waiters SWaitQ (writers u) (go c SWaitQ u)"
    using assms by (intro waiters_add [of SWaitQ "writers s" s]) (auto simp: lists_ok_def)
  ultimately show ?thesis using assms by (simp add: lists_ok_def waiters_same [of _ _ s])
qed

lemma lists_next:
  assumes "lists_ok s" "writers s = w # ws" "st = SCalledW \<or> st = SWaitF"
    and "num ((=) SWaitF) s = 0" "num isAdd s = 0" "st = SWaitF \<Longrightarrow> writers_first u = Some w"
    and "cors u = cors s" "readers u = readers s" "writers u = ws"
  shows "w < length (cors s)" "cors s ! w = SWaitQ" "lists_ok (go w st u)"
proof -
  have w: "waiters SWaitQ (w # ws) s" "waiters SWaitR (readers s) s" using assms(1,2) by (simp_all add: lists_ok_def)
  have "st \<noteq> SWaitQ" using assms(3) by auto
  note r = waiters_remove [OF w(1) assms(7) this]
  then show "w < length (cors s)" "cors s ! w = SWaitQ" by simp_all
  have "first_ok (go w st u)" using assms r by (intro first_new [of s]) auto
  moreover have "waiters SWaitR (readers s) (go w st u)" using w(2) assms(3,7) r by (intro waiters_same) auto
  ultimately show "lists_ok (go w st u)" using r(3) assms(8,9) by (simp add: lists_ok_def)
qed

lemma u32_bound: "unat (x :: u32) < 2 ^ 32"
  using unsigned_less [of x, where 'a = nat] by simp

lemma sinv_AwaitLockShared:
  assumes "sinv FIFO s" "c < length (cors s)" "cors s ! c = STrans" "\<not> locked s"
  shows "\<exists>t. AwaitLockShared ReadersFIFO c s = Some t \<and> sinv FIFO t"
proof -
  note i = sinvD [OF assms(1)] and p = sinvD(4) [OF assms(1)]
  obtain ph where ph: "phase_ok ph s" using i(5) by blast
  have tr: "num ((=) STrans) s > 0" using num_ge [OF assms(2), of "(=) STrans"] assms(3) by simp
  show ?thesis
  proof (cases "readers_pass s = 0")
    case False
    let ?t = "go c SRead (s\<lparr>readers_pass := readers_pass s - 1\<rparr>)"
    have u: "unat (readers_pass s - 1) = unat (readers_pass s) - 1" "unat (readers_pass s) > 0"
      using False u32_dec u32_pos by blast+
    have "fields_ok FIFO ?t" using i(1) tr u assms by (simp add: count_defs wsum_go diff_le_mono)
    moreover have "phase_ok ph ?t" using ph tr u assms by (cases ph) (simp_all add: count_defs wsum_go)
    ultimately have "sinv FIFO ?t" using assms by (intro sinv_goI [OF assms(1,2)]) (auto)
    then show ?thesis using False by (simp add: AwaitLockShared_def)
  next
    case True
    have w: "nW s \<noteq> 0" using no_writers_iff [OF ph] ph True tr assms(4) by (cases ph) (simp_all add: count_defs)
    let ?t = "go c SWaitR (s\<lparr>readers := (if ReadersFIFO then readers s @ [c] else c # readers s), readers_size := readers_size s + 1\<rparr>)"
    have "unat (readers_size s) < 2 ^ 31" using i(1) nums_bound [OF assms(1)] by (simp add: count_defs)
    then have u: "unat (readers_size s + 1) = unat (readers_size s) + 1" by (rule u32_inc)
    have "fields_ok FIFO ?t" using i(1) tr u assms True by (simp add: count_defs wsum_go)
    moreover have "phase_ok ph ?t" using ph tr u assms w no_writers_iff [OF ph] by (cases ph) (simp_all add: count_defs wsum_go)
    moreover have "lists_ok ?t" using i(2) assms by (intro lists_wait_shared [of s]) auto
    ultimately have "sinv FIFO ?t" using i(3) by (intro sinvI) auto
    then show ?thesis using True w state_cmp(1) [OF p] by (simp add: AwaitLockShared_def)
  qed
qed

lemma sinv_AwaitLock_begin:
  assumes "sinv FIFO s" "c < length (cors s)" "cors s ! c = STryW" "\<not> locked s"
  shows "sinv FIFO (AwaitLock_begin FIFO c s)"
proof -
  note i = sinvD [OF assms(1)] and p = sinvD(4) [OF assms(1)]
  obtain ph where ph: "phase_ok ph s" using i(5) by blast
  have b: "nR s + nW s + num ((=) SDec) s + num isSlow2 s + 1 < 2 ^ 31" using nums_room [OF assms(1,2)] assms(3) by simp
  then have p': "parts (state s + kWriter) (nW s + 1) (nR s)" by (intro state_step(2) [OF p]) simp
  show ?thesis
  proof (cases "nW s = 0")
    case True
    then have ph: "phase_ok Idle s" using ph no_writers_iff [OF ph] assms(4) by (cases ph) (simp_all add: count_defs)
    let ?r = "ucast (state s mod kWriter) :: u32"
    let ?u = "s\<lparr>state := state s + kWriter, writers_first := Some c\<rparr>"
    have r: "unat ?r = nR s" using halves(4) [OF p] .
    show ?thesis
    proof (cases "?r = 0")
      case r0: True
      then have z: "nR s = 0" using r by simp
      have "fields_ok FIFO (go c SWrite ?u)" "phase_ok Owned (go c SWrite ?u)"
        using i(1) ph assms z p' num_slow [of s] by (simp_all add: count_defs wsum_go)
      moreover have "lists_ok (go c SWrite ?u)" using i(2) assms ph by (intro lists_first [of s]) (simp_all add: count_defs)
      ultimately have "sinv FIFO (go c SWrite ?u)" using i(3) by (intro sinvI) auto
      then show ?thesis using True r0 state_cmp(1) [OF p] by (simp add: AwaitLock_begin_def Let_def)
    next
      case False
      let ?t = "go c (SAdd ?r) (?u\<lparr>locked := True\<rparr>)"
      have "wsum addw s = 0"
      proof -
        have "addw x = 0" if "\<not> isAdd x" for x using that by (cases x) auto
        then show ?thesis using ph wsum_none [of isAdd s addw] by (simp add: count_defs)
      qed
      moreover have "nR s < 2 ^ 31" using b by simp
      ultimately have "fields_ok FIFO ?t" "phase_ok Adds ?t"
        using i(1) ph assms r p' by (simp_all add: count_defs wsum_go)
      moreover have "lists_ok ?t" using i(2) assms ph by (intro lists_first [of s]) (simp_all add: count_defs)
      ultimately have "sinv FIFO ?t" using i(3) by (intro sinvI) auto
      then show ?thesis using True False state_cmp(1) [OF p] by (simp add: AwaitLock_begin_def Let_def)
    qed
  next
    case False
    let ?t = "go c SWaitQ (s\<lparr>state := state s + kWriter, writers := writers s @ [c],
                writers_prio := writers_prio s + (if FIFO \<and> readers s = [] then 1 else 0)\<rparr>)"
    have l: "length (readers s) = num ((=) SWaitR) s"
      using i(2) num_list [of "readers s" s SWaitR] by (simp add: lists_ok_def waiters_def)
    then have l': "readers s = [] \<longleftrightarrow> num ((=) SWaitR) s = 0" by auto
    have "FIFO \<Longrightarrow> unat (writers_prio s) < 2 ^ 31" using i(1) b by (simp add: count_defs)
    then have pr: "FIFO \<Longrightarrow> unat (writers_prio s + 1) = unat (writers_prio s) + 1" by (simp add: u32_inc)
    have "fields_ok FIFO ?t"
      using i(1) assms p' l' pr by (auto simp: count_defs wsum_go)
    moreover have "phase_ok ph ?t"
      using ph assms False no_writers_iff [OF ph] by (cases ph) (simp_all add: count_defs wsum_go)
    moreover have "lists_ok ?t" using i(2) assms by (intro lists_wait [of s]) simp_all
    ultimately have "sinv FIFO ?t" using i(3) by (intro sinvI) auto
    then show ?thesis using False state_cmp(1) [OF p] by (simp add: AwaitLock_begin_def Let_def)
  qed
qed

lemma sinv_AwaitLock_end:
  assumes "sinv FIFO s" "c < length (cors s)" "cors s ! c = SAdd r"
  shows "sinv FIFO (AwaitLock_end c r s)"
proof -
  note i = sinvD [OF assms(1)] and p = sinvD(4) [OF assms(1)]
  have a: "num isAdd s > 0" using num_ge [OF assms(2), of isAdd] assms(3) by simp
  then have ph: "phase_ok Adds s" using i(5) adds_phase by blast
  have w: "wsum addw s = unat r"
  proof -
    have "addw x = 0" if "\<not> isAdd x" for x using that by (cases x) auto
    then show ?thesis using num_one [of isAdd s c addw] assms ph by (simp add: count_defs)
  qed
  have due: "readers_wait s + r = of_nat (due s)" "due s < 2 ^ 32"
    using ph w u32_bound [of r] by (simp_all add: phase_ok.simps)
  have z: "readers_wait s = - r \<longleftrightarrow> due s = 0"
  proof -
    have "readers_wait s = - r \<longleftrightarrow> of_nat (due s) = (0 :: u32)" using due(1) by (metis add_eq_0_iff add.commute)
    also have "\<dots> \<longleftrightarrow> due s = 0" using due(2) by (auto simp: word_of_nat_eq_0_iff dest: dvd_imp_le)
    finally show ?thesis .
  qed
  show ?thesis
  proof (cases "due s = 0")
    case True
    let ?t = "go c SWrite (s\<lparr>readers_wait := readers_wait s + r, locked := False\<rparr>)"
    have "fields_ok FIFO ?t" "phase_ok Owned ?t"
      using i(1) ph assms True due num_slow [of s] by (simp_all add: count_defs wsum_go)
    then have "sinv FIFO ?t" using assms by (intro sinv_goI [OF assms(1,2)]) (auto)
    then show ?thesis using True z by (simp add: AwaitLock_end_def)
  next
    case False
    let ?t = "go c SWaitF (s\<lparr>readers_wait := readers_wait s + r, locked := False\<rparr>)"
    have "fields_ok FIFO ?t" using i(1) ph assms by (simp add: count_defs wsum_go)
    moreover have "due ?t = due s" using assms by (simp add: due_def wsum_go)
    then have "phase_ok Waits ?t" using ph assms due False by (simp add: phase_ok.simps writers_are_def wsum_go)
    ultimately have "sinv FIFO ?t" using assms by (intro sinv_goI [OF assms(1,2)]) (auto)
    then show ?thesis using False z by (simp add: AwaitLock_end_def)
  qed
qed

lemma sinv_UnlockHereShared_end:
  assumes "sinv FIFO s" "c < length (cors s)" "cors s ! c = SDec"
  shows "\<exists>t. UnlockHereShared_end c s = Some t \<and> sinv FIFO t"
proof -
  note i = sinvD [OF assms(1)]
  have d: "num ((=) SDec) s > 0" using num_ge [OF assms(2), of "(=) SDec"] assms(3) by simp
  obtain ph where ph: "phase_ok ph s" "ph = Waits \<or> ph = Adds"
    using i(5) d dec_phase by blast
  let ?s = "go c SFree (s\<lparr>readers_wait := readers_wait s - 1\<rparr>)"
  have f: "fields_ok FIFO ?s" using i(1) assms by (simp add: count_defs wsum_go)
  have du: "due s > 0" "due ?s = due s - 1" using d assms by (simp_all add: due_def wsum_go)
  have db: "due s < 2 ^ 31" using nums_bound [OF assms(1)] i(1) by (simp add: due_def nR_def fields_ok_def)
  have du': "of_nat (due s - 1) = (of_nat (due s) :: u32) - 1" using du(1) by (simp add: of_nat_diff)
  have l: "lists_ok ?s" using i(2) assms by (intro lists_go [of s]) auto
  show ?thesis
  proof (cases "ph = Adds \<or> due s > 1")
    case True
    have "readers_wait s \<noteq> 1"
    proof
      assume one: "readers_wait s = 1"
      obtain k where k: "of_nat (due s) = (of_nat k :: u32)" "k < 2 ^ 32" "k \<noteq> due s"
      proof (cases "ph = Adds")
        case True
        then show ?thesis using that [of "Suc (wsum addw s)"] ph(1) one by (simp add: phase_ok.simps)
      next
        case False
        then show ?thesis using that [of 1] ph True one by (auto simp: phase_ok.simps)
      qed
      then have "unat (of_nat (due s) :: u32) = unat (of_nat k :: u32)" by simp
      then show False using k(2,3) db by (simp add: unat_of_nat take_bit_eq_mod)
    qed
    moreover have "phase_ok ph ?s"
      using ph True du du' assms by (auto simp: phase_ok.simps writers_are_def wsum_go)
    ultimately show ?thesis using f l i(3) by (auto simp: UnlockHereShared_end_def Let_def intro: sinvI)
  next
    case False
    then have ph: "phase_ok Waits s" "due s = 1" using ph du(1) by auto
    then have rw: "readers_wait s = 1" by (simp add: phase_ok.simps)
    have "num ((=) SWaitF) s > 0" using ph by (simp add: count_defs)
    then obtain w where w: "w < length (cors s)" "cors s ! w = SWaitF" using num_pos [of "(=) SWaitF" s] by auto
    then have wf: "writers_first s = Some w" using i(2) by (simp add: lists_ok_def first_ok_def)
    have wc: "w \<noteq> c" using w assms(3) by auto
    have z: "num acts s = 0" "num ((=) SDec) s = 1" "unat (readers_pass s) = 0"
      using ph(2) d by (simp_all add: due_def)
    have "num ((=) SSlow) s = 0" using num_slow [of s] ph(1) by (simp add: count_defs)
    then have "phase_ok Owned (go w SCalledW ?s)" using ph(1) z rw assms w wc by (simp add: count_defs wsum_go)
    moreover have "nW (go w SCalledW ?s) = nW ?s" "nR (go w SCalledW ?s) = nR ?s"
      using ph(1) assms w wc by (simp_all add: count_defs wsum_go)
    then have "fields_ok FIFO (go w SCalledW ?s)"
      using f w wc by (simp add: fields_ok_def wsum_go_eq)
    moreover have "lists_ok (go w SCalledW ?s)" by (rule lists_go [OF l]) (use w wc in auto)
    ultimately have "sinv FIFO (go w SCalledW ?s)" using i(3) by (intro sinvI) auto
    moreover have "Run w ?s = Some (go w SCalledW ?s)" using w wc by (simp add: Run_def)
    ultimately show ?thesis using rw wf by (simp add: UnlockHereShared_end_def Let_def)
  qed
qed

lemma old_cmp:
  assumes "unat (x div kWriter) = w" "w < 2 ^ 31"
  shows "x div kWriter = 1 \<longleftrightarrow> w = 1" "x div kWriter > 1 \<longleftrightarrow> w > 1" "unat (ucast (x div kWriter) :: u32) = w"
    "(ucast (x div kWriter) :: u32) = 1 \<longleftrightarrow> w = 1"
proof -
  show "x div kWriter = 1 \<longleftrightarrow> w = 1" "x div kWriter > 1 \<longleftrightarrow> w > 1"
    using assms(1) by (auto simp: word_less_nat_alt word_unat_eq_iff simp del: word_div_def)
  show u: "unat (ucast (x div kWriter) :: u32) = w"
    using assms by (simp add: unsigned_ucast_eq take_bit_eq_mod)
  show "(ucast (x div kWriter) :: u32) = 1 \<longleftrightarrow> w = 1"
    using u by (auto simp: word_unat_eq_iff simp del: word_div_def)
qed

lemma Run_all_readers:
  assumes "distinct cs" "set cs \<subseteq> {c. c < length (cors s) \<and> cors s ! c = SWaitR}"
  shows "\<exists>xs. Run_all cs s = Some (s\<lparr>cors := xs\<rparr>) \<and> length xs = length (cors s) \<and>
      (\<forall>d < length xs. xs ! d = (if d \<in> set cs then SCalledR else cors s ! d)) \<and>
      (\<forall>f. wsum f (s\<lparr>cors := xs\<rparr>) + length cs * f SWaitR = wsum f s + length cs * f SCalledR)"
  using assms
proof (induction cs arbitrary: s)
  case Nil
  then show ?case by (intro exI [of _ "cors s"]) simp
next
  case (Cons c cs)
  have c: "c < length (cors s)" "cors s ! c = SWaitR" "c \<notin> set cs" using Cons.prems by auto
  let ?s = "go c SCalledR s"
  have "set cs \<subseteq> {d. d < length (cors ?s) \<and> cors ?s ! d = SWaitR}"
    using Cons.prems c by (auto simp: nth_list_update)
  then obtain xs where xs: "Run_all cs ?s = Some (?s\<lparr>cors := xs\<rparr>)" "length xs = length (cors ?s)"
      "\<And>d. d < length xs \<Longrightarrow> xs ! d = (if d \<in> set cs then SCalledR else cors ?s ! d)"
      "\<And>f. wsum f (?s\<lparr>cors := xs\<rparr>) + length cs * f SWaitR = wsum f ?s + length cs * f SCalledR"
    using Cons.IH [of ?s] Cons.prems by auto
  have eq: "?s\<lparr>cors := xs\<rparr> = s\<lparr>cors := xs\<rparr>" by (simp add: go_def)
  have "wsum f (s\<lparr>cors := xs\<rparr>) + length (c # cs) * f SWaitR = wsum f s + length (c # cs) * f SCalledR" for f
    using xs(4) [of f] wsum_ge [OF c(1), of f] c(1,2) by (simp add: eq wsum_go)
  moreover have "Run_all (c # cs) s = Some (s\<lparr>cors := xs\<rparr>)" using c xs(1) by (simp add: Run_def eq)
  ultimately show ?case using xs(2,3) c by (intro exI [of _ xs]) (auto simp: nth_list_update)
qed

lemma num_slow2: "num ((=) (SSlow2 old)) s \<le> num isSlow2 s"
  unfolding wsum_def by (rule sum_list_mono) auto

lemma sinv_RunWriter:
  assumes "sinv FIFO s" "c < length (cors s)" "cors s ! c = SSlow2 old" "phase_ok More s"
    and "FIFO \<Longrightarrow> writers_prio s \<noteq> 0"
  shows "\<exists>t. RunWriter FIFO s = Some t \<and> sinv FIFO (go c SFree t)"
proof -
  note i = sinvD [OF assms(1)] and ph = assms(4)
  have "length (writers s) = num ((=) SWaitQ) s"
    using i(2) num_list [of "writers s" s SWaitQ] by (simp add: lists_ok_def waiters_def)
  then obtain w ws where ws: "writers s = w # ws" using ph by (cases "writers s") (simp_all add: count_defs)
  define u where "u = s\<lparr>writers_prio := (if FIFO then writers_prio s - 1 else writers_prio s), writers := ws, locked := False\<rparr>"
  have uf: "cors u = cors s" "readers u = readers s" "writers u = ws" "state u = state s" "readers_wait u = readers_wait s"
      "readers_size u = readers_size s" "readers_pass u = readers_pass s" "\<not> locked u" "\<And>f. wsum f u = wsum f s"
      "FIFO \<Longrightarrow> writers_prio u = writers_prio s - 1"
    by (simp_all add: u_def wsum_def)
  let ?t = "go c SFree (go w SCalledW u)"
  have w: "w < length (cors s)" "cors s ! w = SWaitQ" "lists_ok (go w SCalledW u)"
    using lists_next [OF i(2) ws, of SCalledW u] ph uf by (simp_all add: count_defs)
  have wc: "w \<noteq> c" using w assms(3) by auto
  have "FIFO \<Longrightarrow> unat (writers_prio s - 1) = unat (writers_prio s) - 1 \<and> unat (writers_prio s) > 0"
    using assms(5) u32_dec u32_pos by blast
  moreover have n: "wsum f ?t = wsum f s + f SCalledW - f SWaitQ + f SFree - f (SSlow2 old)" for f
    using assms(2,3) w wc uf by (simp add: wsum_go)
  moreover have "nW ?t = nW s" "nR ?t = nR s" using ph by (simp_all add: n count_defs)
  ultimately have "fields_ok FIFO ?t"
    using i(1) uf by (cases FIFO) (simp_all add: fields_ok_def n diff_le_mono)
  moreover have "num ((=) SSlow) s = 0" using num_slow [of s] ph by (simp add: count_defs)
  then have "phase_ok Owned ?t" using ph uf by (simp add: count_defs n)
  moreover have "lists_ok ?t" by (rule lists_go [OF w(3)]) (use wc assms(2,3) uf in auto)
  ultimately have "sinv FIFO ?t" using i(3) uf by (intro sinvI) auto
  moreover have "RunWriter FIFO s = Some (go w SCalledW u)"
    using ws w assms(5) by (simp add: RunWriter_def Run_def u_def)
  ultimately show ?thesis by blast
qed

text \<open>After all waiting readers are submitted.\<close>

lemma run_readers:
  assumes "waiters SWaitR rs v" "waiters SWaitQ (writers v) v" "first_ok v" "readers v = []"
  shows "\<exists>xs. Run_all rs v = Some (v\<lparr>cors := xs\<rparr>) \<and> length xs = length (cors v) \<and> lists_ok (v\<lparr>cors := xs\<rparr>) \<and>
      (\<forall>d < length xs. cors v ! d \<noteq> SWaitR \<longrightarrow> xs ! d = cors v ! d) \<and>
      num ((=) SWaitR) (v\<lparr>cors := xs\<rparr>) = 0 \<and> num acts (v\<lparr>cors := xs\<rparr>) = num acts v + num ((=) SWaitR) v \<and>
      (\<forall>f. f SWaitR = f SCalledR \<longrightarrow> wsum f (v\<lparr>cors := xs\<rparr>) = wsum f v)"
proof -
  have rs: "distinct rs" "set rs = {c. c < length (cors v) \<and> cors v ! c = SWaitR}" using assms(1) by (simp_all add: waiters_def)
  have len: "length rs = num ((=) SWaitR) v" using num_list [OF rs] .
  obtain xs where xs: "Run_all rs v = Some (v\<lparr>cors := xs\<rparr>)" "length xs = length (cors v)"
      "\<And>d. d < length xs \<Longrightarrow> xs ! d = (if d \<in> set rs then SCalledR else cors v ! d)"
      "\<And>f. wsum f (v\<lparr>cors := xs\<rparr>) + length rs * f SWaitR = wsum f v + length rs * f SCalledR"
    using Run_all_readers [of rs v] rs by auto
  have nth: "xs ! d = (if cors v ! d = SWaitR then SCalledR else cors v ! d)" if "d < length xs" for d
    using xs(2) xs(3) [OF that] rs(2) that by auto
  have "waiters SWaitR [] (v\<lparr>cors := xs\<rparr>)" using nth by (auto simp: waiters_def)
  moreover have "waiters SWaitQ (writers v) (v\<lparr>cors := xs\<rparr>)"
    using assms(2) nth xs(2) unfolding waiters_def by (auto split: if_splits)
  moreover have "first_ok (v\<lparr>cors := xs\<rparr>)"
    using assms(3) nth xs(2) unfolding first_ok_def by (auto split: if_splits)
  ultimately have l: "lists_ok (v\<lparr>cors := xs\<rparr>)" using assms(4) by (simp add: lists_ok_def)
  have "num ((=) SWaitR) (v\<lparr>cors := xs\<rparr>) = 0" "num acts (v\<lparr>cors := xs\<rparr>) = num acts v + num ((=) SWaitR) v"
    using xs(4) [of "\<lambda>x. of_bool (SWaitR = x)"] xs(4) [of "\<lambda>x. of_bool (acts x)"] len by simp_all
  moreover have "wsum f (v\<lparr>cors := xs\<rparr>) = wsum f v" if "f SWaitR = f SCalledR" for f
    using xs(4) [of f] that by simp
  ultimately show ?thesis using xs(1,2) nth l by (intro exI [of _ xs]) auto
qed

lemma old_known:
  assumes "sinv FIFO s" "c < length (cors s)" "cors s ! c = SSlow2 old"
  shows "unat (old div kWriter) = wsum oldW s" "unat (old mod kWriter) = wsum oldR s"
proof -
  obtain ph where "phase_ok ph s" using sinvD(5) [OF assms(1)] by blast
  then have one: "num isSlow2 s \<le> 1" by (cases ph) (simp_all add: count_defs)
  have "oldW x = 0 \<and> oldR x = 0" if "\<not> isSlow2 x" for x using that by (cases x) auto
  then show "unat (old div kWriter) = wsum oldW s" "unat (old mod kWriter) = wsum oldR s"
    using num_one [of isSlow2 s c oldW] num_one [of isSlow2 s c oldR] one assms by simp_all
qed

lemma PassReaders_last:
  assumes "sinv FIFO s" "c < length (cors s)" "cors s ! c = SSlow2 old" "phase_ok Last s"
  shows "\<exists>p. PassReaders old s = Some (s\<lparr>readers_pass := p\<rparr>) \<and> unat p = num ((=) STrans) s"
proof -
  note old = old_known [OF assms(1-3)]
  let ?r = "ucast (old mod kWriter) :: u32"
  have b: "num ((=) STrans) s + num ((=) SWaitR) s < 2 ^ 31" using nums_bound [OF assms(1)] by (simp add: nR_def)
  have w: "old div kWriter = 1" using old_cmp(1) [OF old(1)] assms(4) by (simp add: count_defs)
  have r: "unat ?r = num ((=) STrans) s + num ((=) SWaitR) s"
    using old(2) assms(4) b by (simp add: phase_ok.simps unsigned_ucast_eq take_bit_eq_mod)
  have sz: "unat (readers_size s) = num ((=) SWaitR) s" using sinvD(1) [OF assms(1)] by (simp add: fields_ok_def)
  then have le: "readers_size s \<le> ?r" using r by (simp add: word_le_nat_alt)
  then have "unat (?r - readers_size s) = num ((=) STrans) s" using r sz by (simp add: unat_sub)
  moreover have "readers_pass s = 0" using assms(4) by (simp add: phase_ok.simps no_readers_def unsigned_eq_0_iff)
  moreover have "PassReaders old s = Some (s\<lparr>readers_pass := readers_pass s + (?r - readers_size s)\<rparr>)"
    using w le by (simp add: PassReaders_def Let_def not_less)
  ultimately show ?thesis by (intro exI [of _ "?r - readers_size s"]) simp
qed

lemma sinv_last_leaves:
  assumes "sinv FIFO s" "c < length (cors s)" "cors s ! c = SSlow2 old" "phase_ok Last s"
    and "unat p = num ((=) STrans) s"
  shows "\<exists>u. Run_all (readers s) (s\<lparr>readers_pass := p, readers := [], readers_size := 0, locked := False\<rparr>) = Some u \<and>
    sinv FIFO (go c SFree u)"
proof -
  note i = sinvD [OF assms(1)] and ph = assms(4)
  define v where "v = s\<lparr>readers_pass := p, readers := [], readers_size := 0, locked := False\<rparr>"
  have vf: "cors v = cors s" "writers v = writers s" "writers_first v = writers_first s" "readers v = []" "\<And>f. wsum f v = wsum f s"
    by (simp_all add: v_def wsum_def)
  obtain xs where xs: "Run_all (readers s) v = Some (v\<lparr>cors := xs\<rparr>)" "length xs = length (cors v)" "lists_ok (v\<lparr>cors := xs\<rparr>)"
      "\<forall>d < length xs. cors v ! d \<noteq> SWaitR \<longrightarrow> xs ! d = cors v ! d"
      "num ((=) SWaitR) (v\<lparr>cors := xs\<rparr>) = 0" "num acts (v\<lparr>cors := xs\<rparr>) = num acts v + num ((=) SWaitR) v"
      "\<And>f. f SWaitR = f SCalledR \<Longrightarrow> wsum f (v\<lparr>cors := xs\<rparr>) = wsum f v"
    using run_readers [of "readers s" v] i(2) vf lists_cors [OF vf(1)] by (auto simp: lists_ok_def)
  define u where "u = v\<lparr>cors := xs\<rparr>"
  have c: "c < length (cors u)" "cors u ! c = SSlow2 old" using xs(2,4) vf assms(2,3) by (auto simp: u_def)
  have uf: "state u = state s" "readers_pass u = p" "readers_size u = 0" "writers_prio u = writers_prio s" "\<not> locked u"
      "readers_wait u = readers_wait s" "length (cors u) = length (cors s)"
    using xs(2) vf(1) by (simp_all add: u_def v_def)
  have n: "num ((=) SWaitR) u = 0" "num acts u = num acts s + num ((=) SWaitR) s"
      "\<And>f. f SWaitR = f SCalledR \<Longrightarrow> wsum f u = wsum f s"
    using xs(5-7) vf by (simp_all add: u_def)
  have "nW (go c SFree u) = nW s" "nR (go c SFree u) = nR s"
    using n c by (simp_all add: nW_def nR_def wsum_go)
  then have "fields_ok FIFO (go c SFree u)"
    using i(1) ph uf n c assms(5) by (simp add: fields_ok_def phase_ok.simps wsum_go)
  moreover have "phase_ok Idle (go c SFree u)" using ph uf n c assms(5) by (simp add: count_defs wsum_go)
  moreover have "lists_ok (go c SFree u)" using xs(3) c by (intro lists_go [of u]) (auto simp: u_def)
  ultimately have "sinv FIFO (go c SFree u)" using i(3) uf(7) by (intro sinvI) auto
  then show ?thesis using xs(1) unfolding u_def v_def by blast
qed

lemma sinv_readers_first:
  assumes "sinv FIFO s" "c < length (cors s)" "cors s ! c = SSlow2 old" "phase_ok More s" "readers s \<noteq> []"
    and "writers s = node # ws" "FIFO \<Longrightarrow> unat p = num ((=) SWaitQ) s - 1"
  shows "\<exists>u. Run_all (readers s) (go node SWaitF (s\<lparr>readers_wait := readers_size s, writers := ws, writers_first := Some node,
      writers_prio := p\<rparr>)\<lparr>readers := [], readers_size := 0, locked := False\<rparr>) = Some u \<and> sinv FIFO (go c SFree u)"
proof -
  note i = sinvD [OF assms(1)] and ph = assms(4)
  define y where "y = s\<lparr>readers_wait := readers_size s, writers := ws, writers_first := Some node, writers_prio := p\<rparr>"
  have y: "cors y = cors s" "readers y = readers s" "writers y = ws" "writers_first y = Some node" "\<And>f. wsum f y = wsum f s"
    by (simp_all add: y_def wsum_def)
  have nd: "node < length (cors s)" "cors s ! node = SWaitQ" "lists_ok (go node SWaitF y)"
    using lists_next [OF i(2) assms(6), of SWaitF y] y ph by (simp_all add: count_defs)
  have nc: "node \<noteq> c" using nd assms(3) by auto
  define v where "v = go node SWaitF y\<lparr>readers := [], readers_size := 0, locked := False\<rparr>"
  have vf: "cors v = cors (go node SWaitF y)" "writers v = ws" "writers_first v = Some node" "readers v = []"
      "\<And>f. wsum f v = wsum f (go node SWaitF y)"
    by (simp_all add: v_def wsum_def y)
  have l: "waiters SWaitR (readers s) v" "waiters SWaitQ (writers v) v" "first_ok v"
    using nd(3) vf y lists_cors [OF vf(1)] by (simp_all add: lists_ok_def)
  obtain xs where xs: "Run_all (readers s) v = Some (v\<lparr>cors := xs\<rparr>)" "length xs = length (cors v)" "lists_ok (v\<lparr>cors := xs\<rparr>)"
      "\<forall>d < length xs. cors v ! d \<noteq> SWaitR \<longrightarrow> xs ! d = cors v ! d"
      "num ((=) SWaitR) (v\<lparr>cors := xs\<rparr>) = 0" "num acts (v\<lparr>cors := xs\<rparr>) = num acts v + num ((=) SWaitR) v"
      "\<And>f. f SWaitR = f SCalledR \<Longrightarrow> wsum f (v\<lparr>cors := xs\<rparr>) = wsum f v"
    using run_readers [OF l vf(4)] by auto
  define u where "u = v\<lparr>cors := xs\<rparr>"
  have c: "c < length (cors u)" "cors u ! c = SSlow2 old" using xs(2,4) vf y nc assms(2,3) by (auto simp: u_def)
  have uf: "state u = state s" "readers_pass u = readers_pass s" "readers_size u = 0" "writers_prio u = p" "\<not> locked u"
      "readers_wait u = readers_size s" "length (cors u) = length (cors s)"
    using xs(2) vf(1) y by (simp_all add: u_def v_def y_def)
  have n: "num ((=) SWaitR) u = 0" "num acts u = num acts s + num ((=) SWaitR) s"
      "\<And>f. f SWaitR = f SCalledR \<Longrightarrow> wsum f u = wsum f s + f SWaitF - f SWaitQ"
    using xs(5-7) vf nd y by (simp_all add: u_def wsum_go)
  have w: "nW (go c SFree u) = nW s" "nR (go c SFree u) = nR s"
    using n c ph by (simp_all add: count_defs wsum_go)
  then have "fields_ok FIFO (go c SFree u)"
    using i(1) ph uf n c assms(7) by (simp add: fields_ok_def phase_ok.simps wsum_go)
  moreover have "readers_wait (go c SFree u) = of_nat (num ((=) SWaitR) s)"
  proof -
    have "unat (readers_size s) = num ((=) SWaitR) s" using i(1) by (simp add: fields_ok_def)
    moreover have "readers_wait (go c SFree u) = of_nat (unat (readers_size s))" using uf(6) by simp
    ultimately show ?thesis by simp
  qed
  moreover have "num ((=) SWaitR) s > 0"
    using i(2) assms(5) num_list [of "readers s" s SWaitR] by (cases "readers s") (simp_all add: lists_ok_def waiters_def)
  moreover have "due (go c SFree u) = num ((=) SWaitR) s" using n c ph uf by (simp add: count_defs wsum_go)
  ultimately have "phase_ok Waits (go c SFree u)" using ph uf n c by (simp add: phase_ok.simps writers_are_def wsum_go)
  moreover have "lists_ok (go c SFree u)" using xs(3) c by (intro lists_go [of u]) (auto simp: u_def)
  ultimately have "sinv FIFO (go c SFree u)" using i(3) uf(7) \<open>fields_ok FIFO (go c SFree u)\<close> by (intro sinvI) auto
  then show ?thesis using xs(1) unfolding u_def v_def y_def by blast
qed

lemma sinv_SlowUnlock_end:
  assumes "sinv FIFO s" "c < length (cors s)" "cors s ! c = SSlow2 old"
  shows "\<exists>t. SlowUnlock_end FIFO c old s = Some t \<and> sinv FIFO t"
proof -
  note i = sinvD [OF assms(1)] and old = old_known [OF assms]
  have one: "num isSlow2 s > 0" using num_ge [OF assms(2), of isSlow2] assms(3) by simp
  have len: "length (writers s) = num ((=) SWaitQ) s" "length (readers s) = num ((=) SWaitR) s"
    using i(2) num_list [of "writers s" s SWaitQ] num_list [of "readers s" s SWaitR] by (simp_all add: lists_ok_def waiters_def)
  have b: "num ((=) SWaitQ) s + 1 < 2 ^ 31"
    using nums_bound [OF assms(1)] one by (simp add: nW_def)
  consider "phase_ok Last s" | "phase_ok More s" using i(5) slow_phase one by blast
  then show ?thesis
  proof cases
    case 1
    then have w: "unat (old div kWriter) = 1" using old(1) by (simp add: phase_ok.simps)
    note cmp = old_cmp [OF w] 
    obtain p where p: "PassReaders old s = Some (s\<lparr>readers_pass := p\<rparr>)" "unat p = num ((=) STrans) s"
      using PassReaders_last [OF assms 1] by blast
    obtain u where u: "Run_all (readers s) (s\<lparr>readers_pass := p, readers := [], readers_size := 0, locked := False\<rparr>) = Some u"
        "sinv FIFO (go c SFree u)"
      using sinv_last_leaves [OF assms 1 p(2)] by blast
    have pr: "FIFO \<Longrightarrow> writers_prio s = 0"
      using i(1) 1 by (simp add: fields_ok_def phase_ok.simps unsigned_eq_0_iff)
    show ?thesis
    proof (cases "readers s = []")
      case True
      then have "readers_size s = 0" using i(1) len by (simp add: fields_ok_def unsigned_eq_0_iff)
      then have "s\<lparr>readers_pass := p, readers := [], readers_size := 0, locked := False\<rparr> = s\<lparr>readers_pass := p, locked := False\<rparr>"
        using True by simp
      then have "u = s\<lparr>readers_pass := p, locked := False\<rparr>" using u(1) True by simp
      then show ?thesis using True p(1) pr cmp u(2) by (auto simp: SlowUnlock_end_def)
    next
      case False
      then have "SlowUnlock_end FIFO c old s = Some (go c SFree u)"
        using p(1) pr cmp u(1) by (auto simp: SlowUnlock_end_def RunReaders_def Let_def)
      then show ?thesis using u(2) by blast
    qed
  next
    case 2
    have q: "num ((=) SWaitQ) s > 0" using 2 by (simp add: phase_ok.simps)
    have w: "unat (old div kWriter) = num ((=) SWaitQ) s + 1" using old(1) 2 by (simp add: phase_ok.simps)
    note cmp = old_cmp [OF w b]
    show ?thesis
    proof (cases "FIFO \<and> writers_prio s \<noteq> 0 \<or> \<not> FIFO \<and> readers s = []")
      case True
      then obtain t where "RunWriter FIFO s = Some t" "sinv FIFO (go c SFree t)"
        using sinv_RunWriter [OF assms 2] by blast
      then show ?thesis using True cmp q by (auto simp: SlowUnlock_end_def)
    next
      case False
      have rd: "readers s \<noteq> []"
      proof
        assume "readers s = []"
        then have "FIFO" "writers_prio s = 0" "unat (writers_prio s) = num ((=) SWaitQ) s"
          using False len i(1) by (auto simp: fields_ok_def)
        then show False using q by simp
      qed
      obtain node ws where ws: "writers s = node # ws" using len(1) q by (cases "writers s") auto
      let ?w = "ucast (old div kWriter) :: u32"
      have "2 \<le> ?w" using cmp(3) q by (simp add: word_le_nat_alt)
      then have "unat (?w - 2) = num ((=) SWaitQ) s - 1" using cmp(3) by (simp add: unat_sub)
      then obtain u where u: "Run_all (readers s) (go node SWaitF (s\<lparr>readers_wait := readers_size s, writers := ws, writers_first := Some node,
            writers_prio := (if FIFO then ?w - 2 else writers_prio s)\<rparr>)\<lparr>readers := [], readers_size := 0, locked := False\<rparr>) = Some u"
          "sinv FIFO (go c SFree u)"
        using sinv_readers_first [OF assms 2 rd ws, of "if FIFO then ?w - 2 else writers_prio s"] by auto
      have "cors s ! node = SWaitQ" using i(2) ws by (auto simp: lists_ok_def waiters_def)
      then have "SlowUnlock_end FIFO c old s = Some (go c SFree u)"
        using False rd ws u(1) cmp q by (auto simp: SlowUnlock_end_def RunReaders_def Let_def)
      then show ?thesis using u(2) by blast
    qed
  qed
qed

lemma sinv_call: "smutex_call s t \<Longrightarrow> sinv FIFO s \<Longrightarrow> sinv FIFO t"
  by (induction rule: smutex_call.induct) (simp_all add: sinv_TryLockSharedAwait sinv_TryLockShared sinv_TryLockAwait)

lemma sinv_run: "smutex_run FIFO ReadersFIFO s t \<Longrightarrow> sinv FIFO s \<Longrightarrow> sinv FIFO t"
proof (induction rule: smutex_run.induct)
  case (s_await_shared c s t)
  then show ?case using sinv_AwaitLockShared [of FIFO s c ReadersFIFO] by auto
next
  case (s_count_down c s t)
  then show ?case using sinv_UnlockHereShared_end [of FIFO s c] by auto
next
  case (s_slow_end c s old t)
  then show ?case using sinv_SlowUnlock_end [of FIFO s c old] by auto
qed (simp_all add: sinv_resume_shared sinv_UnlockHereShared_begin
    sinv_AwaitLock_begin sinv_AwaitLock_end sinv_resume sinv_UnlockHere sinv_SlowUnlock_begin)

lemma sinv_step: "smutex_step FIFO ReadersFIFO s t \<Longrightarrow> sinv FIFO s \<Longrightarrow> sinv FIFO t"
  unfolding smutex_step_def using sinv_call sinv_run by blast

lemma sinv_reach: "smutex_reach FIFO ReadersFIFO (smutex_new n) s \<Longrightarrow> n < 2 ^ 31 \<Longrightarrow> sinv FIFO s"
proof (induction rule: rtranclp_induct)
  case base
  then show ?case by (rule sinv_new)
next
  case (step y z)
  then show ?case using sinv_step by blast
qed

subsection \<open>Progress\<close>

text \<open>How much a coroutine has still to do until it has unlocked; every step but a new call makes it less.\<close>

fun effort :: "sst \<Rightarrow> nat" where
  "effort SFree = 0" | "effort SDec = 1" | "effort SRead = 2" | "effort SCalledR = 3" | "effort SWaitR = 4" | "effort STrans = 5"
| "effort (SSlow2 x) = 1" | "effort SSlow = 2" | "effort SWrite = 3" | "effort SCalledW = 4" | "effort SWaitF = 5"
| "effort SWaitQ = 6" | "effort (SAdd r) = 7" | "effort STryW = 8"

definition adv :: "smutex \<Rightarrow> smutex \<Rightarrow> bool" where
  "adv s t \<longleftrightarrow> length (cors t) = length (cors s) \<and> (\<forall>d < length (cors s). effort (cors t ! d) \<le> effort (cors s ! d))"

lemma effort_free: "effort x = 0 \<longleftrightarrow> x = SFree"
  by (cases x) auto

lemma adv_trans: "adv s t \<Longrightarrow> adv t u \<Longrightarrow> adv s u"
  unfolding adv_def by (metis le_trans)

lemma adv_go:
  assumes "cors u = cors s" "effort st \<le> effort (cors s ! c)"
  shows "adv s (go c st u)"
proof -
  have "effort ((cors s)[c := st] ! d) \<le> effort (cors s ! d)" if "d < length (cors s)" for d
    using that assms(2) by (cases "d = c") auto
  then show ?thesis using assms(1) by (simp add: adv_def)
qed

lemma adv_cors: "cors t = cors s \<Longrightarrow> adv s t"
  by (simp add: adv_def)

lemma adv_less:
  assumes "adv s t" "c < length (cors s)" "effort (cors t ! c) < effort (cors s ! c)"
  shows "wsum effort t < wsum effort s"
proof -
  have e: "wsum effort u = (\<Sum>i < length (cors u). effort (cors u ! i))" for u
    by (simp add: wsum_def sum_list_sum_nth lessThan_atLeast0)
  have "(\<Sum>i < length (cors s). effort (cors t ! i)) < (\<Sum>i < length (cors s). effort (cors s ! i))"
    using assms by (intro sum_strict_mono_ex1) (auto simp: adv_def)
  then show ?thesis using assms(1) by (simp add: e adv_def)
qed

lemma adv_Run: "Run c s = Some t \<Longrightarrow> adv s t"
  unfolding Run_def by (auto split: sst.splits intro!: adv_go)

lemma adv_Run_all: "Run_all cs s = Some t \<Longrightarrow> adv s t"
proof (induction cs s rule: Run_all.induct)
  case (2 c cs s)
  then obtain u where "Run c s = Some u" "Run_all cs u = Some t" by (auto simp: bind_eq_Some_conv)
  then show ?case using 2(1) adv_Run adv_trans by blast
qed (simp add: adv_cors)

lemma adv_RunWriter: "RunWriter FIFO s = Some t \<Longrightarrow> adv s t"
  unfolding RunWriter_def by (auto split: if_splits list.splits dest!: adv_Run simp: adv_def)

lemma adv_PassReaders: "PassReaders old s = Some t \<Longrightarrow> adv s t"
  unfolding PassReaders_def Let_def by (auto split: if_splits intro: adv_cors)

lemma adv_RunReaders:
  assumes "RunReaders FIFO old s = Some t"
  shows "adv s t"
proof -
  obtain u where u: "adv s u" "Run_all (readers u) (u\<lparr>readers := [], readers_size := 0, locked := False\<rparr>) = Some t"
  proof (cases "(ucast (old div kWriter) :: u32) = 1")
    case True
    then show ?thesis using assms that adv_PassReaders
      by (auto simp: RunReaders_def Let_def bind_eq_Some_conv)
  next
    case False
    then obtain node ws p where n: "writers s = node # ws" "cors s ! node = SWaitQ"
        "Run_all (readers s) (go node SWaitF (s\<lparr>readers_wait := readers_size s, writers := ws, writers_first := Some node,
           writers_prio := p\<rparr>)\<lparr>readers := [], readers_size := 0, locked := False\<rparr>) = Some t"
      using assms by (auto simp: RunReaders_def Let_def bind_eq_Some_conv split: list.splits if_splits)
    show ?thesis
      by (rule that [of "go node SWaitF (s\<lparr>readers_wait := readers_size s, writers := ws, writers_first := Some node,
           writers_prio := p\<rparr>)"]) (use n in \<open>auto intro: adv_go\<close>)
  qed
  then have "adv u t" using adv_Run_all [OF u(2)] by (simp add: adv_def)
  then show ?thesis using u(1) adv_trans by blast
qed

lemma adv_SlowUnlock_end:
  assumes "SlowUnlock_end FIFO c old s = Some t"
  shows "\<exists>u. adv s u \<and> t = go c SFree u"
proof -
  have "adv s (u\<lparr>locked := False\<rparr>)" if "PassReaders old s = Some u" for u
    using adv_PassReaders [OF that] by (simp add: adv_def)
  then show ?thesis using assms unfolding SlowUnlock_end_def
    by (auto split: if_splits simp: map_option_Some_iff dest: adv_RunWriter adv_RunReaders)
qed

text \<open>A step is a new call, has no effect, or is progress of the coroutine that makes it.\<close>

definition progress :: "nat \<Rightarrow> smutex \<Rightarrow> smutex \<Rightarrow> bool" where
  "progress c s t \<longleftrightarrow> c < length (cors s) \<and> adv s t \<and> effort (cors t ! c) < effort (cors s ! c)"

lemma progress_go: "c < length (cors s) \<Longrightarrow> cors u = cors s \<Longrightarrow> effort st < effort (cors s ! c) \<Longrightarrow> progress c s (go c st u)"
  unfolding progress_def by (simp add: adv_go)

lemma progress_trans:
  assumes "progress c s t" "adv t u"
  shows "progress c s u"
proof -
  have p: "c < length (cors s)" "adv s t" "effort (cors t ! c) < effort (cors s ! c)" using assms(1) by (simp_all add: progress_def)
  then have "effort (cors u ! c) \<le> effort (cors t ! c)" using assms(2) by (simp add: adv_def)
  then have "effort (cors u ! c) < effort (cors s ! c)" using p(3) by linarith
  then show ?thesis using p adv_trans [OF p(2) assms(2)] by (simp add: progress_def)
qed

lemma run_progress: "smutex_run FIFO ReadersFIFO s t \<Longrightarrow> \<exists>c. progress c s t"
proof (induction rule: smutex_run.induct)
  case (s_await_shared c s t)
  then have "progress c s t" by (auto simp: AwaitLockShared_def intro!: progress_go split: if_splits)
  then show ?case by blast
next
  case (s_resume_shared c s)
  then have "progress c s (go c SRead s)" by (auto intro!: progress_go)
  then show ?case by blast
next
  case (s_unlock_shared c s)
  then have "progress c s (UnlockHereShared_begin c s)" by (auto simp: UnlockHereShared_begin_def intro!: progress_go)
  then show ?case by blast
next
  case (s_count_down c s t)
  let ?s = "go c SFree (s\<lparr>readers_wait := readers_wait s - 1\<rparr>)"
  have p: "progress c s ?s" using s_count_down by (intro progress_go) auto
  have "adv ?s t" using s_count_down(3) adv_Run
    by (auto simp: UnlockHereShared_end_def Let_def adv_cors split: if_splits option.splits)
  then have "progress c s t" by (rule progress_trans [OF p])
  then show ?case by blast
next
  case (s_await c s)
  then have "progress c s (AwaitLock_begin FIFO c s)" by (auto simp: AwaitLock_begin_def Let_def intro!: progress_go)
  then show ?case by blast
next
  case (s_add c s r)
  then have "progress c s (AwaitLock_end c r s)" by (auto simp: AwaitLock_end_def intro!: progress_go)
  then show ?case by blast
next
  case (s_resume c s)
  then have "progress c s (go c SWrite s)" by (auto intro!: progress_go)
  then show ?case by blast
next
  case (s_unlock c s)
  then have "progress c s (UnlockHere c s)" by (auto simp: UnlockHere_def intro!: progress_go)
  then show ?case by blast
next
  case (s_slow c s)
  then have "progress c s (SlowUnlock_begin c s)" by (auto simp: SlowUnlock_begin_def intro!: progress_go)
  then show ?case by blast
next
  case (s_slow_end c s old t)
  then obtain u where u: "adv s u" "t = go c SFree u" using adv_SlowUnlock_end by blast
  then have "adv u t" by (auto intro!: adv_go)
  then have "adv s t" using u(1) adv_trans by blast
  moreover have "length (cors u) = length (cors s)" using u(1) by (simp add: adv_def)
  ultimately have "progress c s t" using u(2) s_slow_end(1,2) by (simp add: progress_def)
  then show ?case by blast
qed

lemma run_enabled:
  assumes "sinv FIFO s" "c < length (cors s)" "\<nexists>t. smutex_run FIFO ReadersFIFO s t"
  shows "cors s ! c \<notin> {SCalledR, SRead, SDec, SCalledW, SWrite}" "\<not> isAdd (cors s ! c)" "\<not> isSlow2 (cors s ! c)"
    "\<not> locked s \<Longrightarrow> cors s ! c \<notin> {STrans, STryW, SSlow}"
proof -
  note run = smutex_run.intros [of c s, where FIFO = FIFO and ReadersFIFO = ReadersFIFO]
  note defined = sinv_AwaitLockShared [OF assms(1,2), of ReadersFIFO] sinv_UnlockHereShared_end [OF assms(1,2)]
    sinv_SlowUnlock_end [OF assms(1,2)]
  show "cors s ! c \<notin> {SCalledR, SRead, SDec, SCalledW, SWrite}"
    using run(2-4,7,8) [OF assms(2)] defined(2) assms(3) by blast
  show "\<not> isAdd (cors s ! c)" using run(6) [OF assms(2)] assms(3) by (cases "cors s ! c") auto
  show "\<not> isSlow2 (cors s ! c)" using run(10) [OF assms(2)] defined(3) assms(3) by (cases "cors s ! c") auto
  show "\<not> locked s \<Longrightarrow> cors s ! c \<notin> {STrans, STryW, SSlow}"
    using run(1,5,9) [OF assms(2)] defined(1) assms(3) by blast
qed

lemma sinv_quiet:
  assumes "sinv FIFO s" "\<And>c. c < length (cors s) \<Longrightarrow> cors s ! c \<in> {SFree, SWaitR, SWaitF, SWaitQ}"
  shows "cors s = replicate (length (cors s)) SFree \<and> state s = 0"
proof -
  have z: "num P s = 0" if "\<not> P SFree" "\<not> P SWaitR" "\<not> P SWaitF" "\<not> P SWaitQ" for P
    using assms(2) that num_pos [of P s] by fastforce
  obtain ph where ph: "phase_ok ph s" using sinvD(5) [OF assms(1)] by blast
  have "unat (readers_pass s) = 0" using z [of "(=) STrans"] sinvD(1) [OF assms(1)] by (simp add: fields_ok_def)
  then have "phase_ok Idle s" using ph z by (cases ph) (simp_all add: count_defs)
  then have q: "num ((=) SWaitR) s = 0" "num ((=) SWaitF) s = 0" "num ((=) SWaitQ) s = 0" "nW s = 0" "nR s = 0"
    using z by (simp_all add: count_defs)
  have "cors s ! c = SFree" if "c < length (cors s)" for c
    using assms(2) [OF that] num_none [OF q(1) that] num_none [OF q(2) that] num_none [OF q(3) that] by auto
  then have "cors s = replicate (length (cors s)) SFree" by (simp add: list_eq_iff_nth_eq)
  moreover have "state s = 0" using state_cmp(8) [OF sinvD(4) [OF assms(1)]] q(4,5) by simp
  ultimately show ?thesis by simp
qed

lemma run_ends:
  assumes "sinv FIFO s" "\<nexists>t. smutex_run FIFO ReadersFIFO s t"
  shows "cors s = replicate (length (cors s)) SFree \<and> state s = 0"
proof (rule sinv_quiet [OF assms(1)])
  fix c
  assume c: "c < length (cors s)"
  note no = run_enabled [OF assms(1) _ assms(2)]
  have "num isAdd s = 0" "num isSlow2 s = 0" using num_pos [of isAdd s] num_pos [of isSlow2 s] no(2,3) by auto
  moreover obtain ph where "phase_ok ph s" using sinvD(5) [OF assms(1)] by blast
  ultimately have "\<not> locked s" by (cases ph) (simp_all add: count_defs)
  then show "cors s ! c \<in> {SFree, SWaitR, SWaitF, SWaitQ}"
    using no [OF c] by (cases "cors s ! c") auto
qed

lemma step_length: "smutex_step FIFO ReadersFIFO s t \<Longrightarrow> length (cors t) = length (cors s)"
proof -
  have "smutex_call s t \<Longrightarrow> length (cors t) = length (cors s)"
    by (induction rule: smutex_call.induct) (simp_all add: TryLockSharedAwait_def TryLockShared_def TryLockAwait_def)
  then show "smutex_step FIFO ReadersFIFO s t \<Longrightarrow> ?thesis"
    unfolding smutex_step_def using run_progress by (auto simp: progress_def adv_def)
qed

lemma reach_length: "smutex_reach FIFO ReadersFIFO (smutex_new n) s \<Longrightarrow> length (cors s) = n"
  by (induction rule: rtranclp_induct) (simp_all add: smutex_new_def step_length)

subsection \<open>What the shared mutex guarantees\<close>

lemma owner_alone:
  assumes "sinv FIFO s" "c < length (cors s)" "owns (cors s ! c)" "d < length (cors s)" "d \<noteq> c"
  shows "\<not> owns (cors s ! d)" "\<not> acts (cors s ! d)"
proof -
  obtain ph where "phase_ok ph s" using sinvD(5) [OF assms(1)] by blast
  then have ph: "phase_ok Owned s" using owned_phase assms(2,3) by blast
  then have "num owns (go c SFree s) = 0" "num acts s = 0" using assms(2,3) by (simp_all add: count_defs wsum_go)
  then show "\<not> owns (cors s ! d)" "\<not> acts (cors s ! d)"
    using num_none [of owns "go c SFree s" d] num_none [of acts s d] assms(4,5) by simp_all
qed

text \<open>
  C26: A coroutine that holds the shared mutex as a writer is alone: no other coroutine holds it or is being resumed to hold it,
  neither as a writer nor as a reader, for any number of coroutines below \<open>2 ^ 31\<close>, any interleaving of the atomic operations and
  all four variants of the template.
\<close>

theorem shared_mutex_exclusive:
  assumes "smutex_reach FIFO ReadersFIFO (smutex_new n) s" and "n < 2 ^ 31"
    and "c < n" and "cors s ! c = SWrite" and "d < n" and "d \<noteq> c"
  shows "cors s ! d \<notin> {SWrite, SCalledW, SSlow, SRead, SCalledR}"
proof -
  have "\<not> owns (cors s ! d)" "\<not> acts (cors s ! d)"
    using owner_alone [OF sinv_reach [OF assms(1,2)], of c d] reach_length [OF assms(1)] assms(3-6) by simp_all
  then show ?thesis by auto
qed

lemma new_two: "smutex_new 2 = \<lparr>state = 0, readers = [], writers_first = None, writers = [], writers_prio = 0, readers_wait = 0,
     readers_size = 0, readers_pass = 0, locked = False, cors = [SFree, SFree]\<rparr>"
  by (simp add: smutex_new_def numeral_2_eq_2)

lemma reach_one: "smutex_step FIFO ReadersFIFO s t \<Longrightarrow> smutex_reach FIFO ReadersFIFO r s \<Longrightarrow> smutex_reach FIFO ReadersFIFO r t"
  by simp

lemma lock_twice:
  "smutex_reach True False (smutex_new 2)
     (AwaitLock_begin True 1 (TryLockAwait True 1 (TryLockAwait True 0 (smutex_new 2))))"
proof -
  let ?a = "TryLockAwait True 0 (smutex_new 2)" and ?b = "TryLockAwait True 1 (TryLockAwait True 0 (smutex_new 2))"
  have "smutex_call (smutex_new 2) ?a" by (rule s_lock) (simp_all add: new_two)
  moreover have "smutex_call ?a ?b" by (rule s_lock) (simp_all add: new_two TryLockAwait_def go_def)
  moreover have "smutex_run True False ?b (AwaitLock_begin True 1 ?b)"
    by (rule s_await) (simp_all add: new_two TryLockAwait_def go_def kWriter_def)
  ultimately show ?thesis
    by (auto intro!: reach_one [OF _ reach_one [OF _ reach_one [OF _ rtranclp.rtrancl_refl]]] simp: smutex_step_def)
qed

theorem shared_mutex_exclusive_witness:
  "cors (AwaitLock_begin True 1 (TryLockAwait True 1 (TryLockAwait True 0 (smutex_new 2)))) ! 1
     \<notin> {SWrite, SCalledW, SSlow, SRead, SCalledR}"
  by (rule shared_mutex_exclusive [OF lock_twice, where c = 0])
    (simp_all add: new_two TryLockAwait_def go_def kWriter_def AwaitLock_begin_def Let_def)

text \<open>
  The assertions of the shared mutex hold and its null pointers are never followed: a reader that takes the spinlock has a
  pass or a writer to wait for, the last reader that a writer waits for finds that writer waiting, and a writer that
  unlocks always finds whom to hand the lock to, with the passes it gives away not negative.
\<close>

lemma shared_mutex_defined:
  assumes "smutex_reach FIFO ReadersFIFO (smutex_new n) s" and "n < 2 ^ 31" and "c < n"
  shows "(cors s ! c = STrans \<and> \<not> locked s \<longrightarrow> AwaitLockShared ReadersFIFO c s \<noteq> None) \<and>
    (cors s ! c = SDec \<longrightarrow> UnlockHereShared_end c s \<noteq> None) \<and>
    (\<forall>old. cors s ! c = SSlow2 old \<longrightarrow> SlowUnlock_end FIFO c old s \<noteq> None)"
proof -
  note i = sinv_reach [OF assms(1,2)]
  have c: "c < length (cors s)" using reach_length [OF assms(1)] assms(3) by simp
  show ?thesis
    using sinv_AwaitLockShared [OF i c] sinv_UnlockHereShared_end [OF i c] sinv_SlowUnlock_end [OF i c] by blast
qed


text \<open>
  C27: Nobody waits for the shared mutex forever. When no coroutine makes a new call, every step makes a natural number smaller, so that there
  are finitely many of them, and when no step is left every coroutine has got and left the lock, and the lock is free.
\<close>

theorem shared_mutex_finishes:
  assumes "smutex_reach FIFO ReadersFIFO (smutex_new n) s" and "n < 2 ^ 31"
  shows "(\<forall>t. smutex_run FIFO ReadersFIFO s t \<longrightarrow> wsum effort t < wsum effort s) \<and>
    ((\<nexists>t. smutex_run FIFO ReadersFIFO s t) \<longrightarrow> cors s = replicate n SFree \<and> state s = 0)"
  using run_progress adv_less run_ends [OF sinv_reach [OF assms]] reach_length [OF assms(1)] unfolding progress_def by metis

theorem shared_mutex_finishes_witness:
  "\<exists>t. smutex_run True False (AwaitLock_begin True 1 (TryLockAwait True 1 (TryLockAwait True 0 (smutex_new 2)))) t"
proof -
  let ?s = "AwaitLock_begin True 1 (TryLockAwait True 1 (TryLockAwait True 0 (smutex_new 2)))"
  have "cors ?s ! 0 = SWrite"
    by (simp add: new_two TryLockAwait_def go_def kWriter_def AwaitLock_begin_def Let_def)
  then have "cors ?s \<noteq> replicate 2 SFree" by auto
  then show ?thesis using shared_mutex_finishes [OF lock_twice] by auto
qed

end
