(* ===== verification/Guards.thy ===== *)
theory Guards
  imports Prelude
begin

section \<open>Guards of coroutine mutexes\<close>

text \<open>
  \<open>coro/detail/guard_state.hpp\<close> and \<open>coro/guard.hpp\<close>. A guard is one word, the address of the mutex with the bit 0 set if the guard
  owns the lock; mutexes are aligned, so that the bit is free. The operations of a guard return the calls of the mutex that they
  make. Locking an owned guard, unlocking one that is not, and using a mutex through a guard that has none, which the
  code does not allow, have the value None.
\<close>

unbundle bit_operations_syntax

subsection \<open>The word of a guard\<close>

definition kMask :: u64 where "kMask = NOT 1"

definition GuardState_new :: "u64 \<Rightarrow> bool \<Rightarrow> u64" where
  "GuardState_new ptr owns = ptr OR of_bool owns"

text \<open>The new guard and what is left of the other.\<close>

definition GuardState_move :: "u64 \<Rightarrow> u64 \<times> u64" where
  "GuardState_move other = (other, other AND kMask)"

definition Ptr :: "u64 \<Rightarrow> u64" where "Ptr st = st AND kMask"

definition Owns :: "u64 \<Rightarrow> bool" where "Owns st \<longleftrightarrow> st AND 1 \<noteq> 0"

definition LockState :: "u64 \<Rightarrow> (u64 \<times> u64) option" where
  "LockState st = (if Owns st then None else let st = st OR 1 in Some (st, Ptr st))"

definition UnlockState :: "u64 \<Rightarrow> (u64 \<times> u64) option" where
  "UnlockState st = (if \<not> Owns st then None else let st = st AND kMask in Some (st, Ptr st))"

definition ReleaseState :: "u64 \<Rightarrow> u64 \<times> u64" where
  "ReleaseState st = (let was = Ptr st in (0, was))"

subsection \<open>Guards\<close>

text \<open>The functions of a mutex, of the shared kind for a \<open>SharedGuard\<close>; \<open>TryLock\<close> with its answer.\<close>

datatype mfun = MLock | MTryLock bool | MUnlock | MUnlockOn nat | MUnlockHere

type_synonym mcall = "bool \<times> mfun \<times> u64"

definition call :: "bool \<Rightarrow> mfun \<Rightarrow> u64 \<Rightarrow> mcall list option" where
  "call Shared f m = (if m = 0 then None else Some [(Shared, f, m)])"

definition Guard_try :: "bool \<Rightarrow> u64 \<Rightarrow> bool \<Rightarrow> (u64 \<times> mcall list) option" where
  "Guard_try Shared m ok = map_option (Pair (GuardState_new m ok)) (call Shared (MTryLock ok) m)"

definition Guard_Lock :: "bool \<Rightarrow> u64 \<Rightarrow> (u64 \<times> mcall list) option" where
  "Guard_Lock Shared st = Option.bind (LockState st) (\<lambda>(st, m). map_option (Pair st) (call Shared MLock m))"

definition Guard_TryLock :: "bool \<Rightarrow> bool \<Rightarrow> u64 \<Rightarrow> (u64 \<times> mcall list) option" where
  "Guard_TryLock Shared ok st =
     Option.bind (LockState st) (\<lambda>(st, m). Option.bind (call Shared (MTryLock ok) m) (\<lambda>cs.
       if ok then Some (st, cs) else map_option (\<lambda>(st, m). (st, cs)) (UnlockState st)))"

definition Guard_Unlock :: "bool \<Rightarrow> u64 \<Rightarrow> (u64 \<times> mcall list) option" where
  "Guard_Unlock Shared st = Option.bind (UnlockState st) (\<lambda>(st, m). map_option (Pair st) (call Shared MUnlock m))"

definition Guard_UnlockOn :: "bool \<Rightarrow> nat \<Rightarrow> u64 \<Rightarrow> (u64 \<times> mcall list) option" where
  "Guard_UnlockOn Shared e st = Option.bind (UnlockState st) (\<lambda>(st, m). map_option (Pair st) (call Shared (MUnlockOn e) m))"

definition Guard_UnlockHere :: "bool \<Rightarrow> u64 \<Rightarrow> (u64 \<times> mcall list) option" where
  "Guard_UnlockHere Shared st = Option.bind (UnlockState st) (\<lambda>(st, m). map_option (Pair st) (call Shared MUnlockHere m))"

definition Guard_dtor :: "bool \<Rightarrow> u64 \<Rightarrow> mcall list option" where
  "Guard_dtor Shared st = (if Owns st then map_option snd (Guard_UnlockHere Shared st) else Some [])"

subsection \<open>Programs\<close>

text \<open>
  A program makes and uses guards, which are numbers in the order of their construction, and may lock and unlock without
  a guard. \<open>outside m\<close> counts the locks of \<open>m\<close> that are held without a guard: \<open>GAdopt\<close> needs one, \<open>GRelease\<close> of
  an owned guard leaves one.
\<close>

datatype gop =
  GDefault | GDefer u64 | GTry u64 bool | GAdopt u64 | GMove nat | GDtor nat | GAssign nat nat
| GLock nat | GTryLock nat bool | GUnlock nat | GUnlockOn nat nat | GUnlockHere nat | GSwap nat nat | GRelease nat
| RawLock u64 | RawUnlock u64

record genv =
  guards :: "u64 option list"
  calls :: "mcall list"
  outside :: "u64 \<Rightarrow> nat"

definition genv_new :: genv where
  "genv_new = \<lparr>guards = [], calls = [], outside = (\<lambda>m. 0)\<rparr>"

definition alive :: "nat \<Rightarrow> genv \<Rightarrow> u64 option" where
  "alive g s = (if g < length (guards s) then guards s ! g else None)"

text \<open>Run a member function of the guard \<open>g\<close>.\<close>

definition on_guard :: "nat \<Rightarrow> (u64 \<Rightarrow> (u64 \<times> mcall list) option) \<Rightarrow> genv \<Rightarrow> genv option" where
  "on_guard g f s = Option.bind (alive g s) (\<lambda>st. map_option (\<lambda>(st, cs). s\<lparr>guards := (guards s)[g := Some st], calls := calls s @ cs\<rparr>) (f st))"

definition new_guard :: "u64 \<Rightarrow> mcall list \<Rightarrow> genv \<Rightarrow> genv" where
  "new_guard st cs s = s\<lparr>guards := guards s @ [Some st], calls := calls s @ cs\<rparr>"

definition Guard_Swap :: "nat \<Rightarrow> nat \<Rightarrow> genv \<Rightarrow> genv option" where
  "Guard_Swap g h s = Option.bind (alive g s) (\<lambda>a. Option.bind (alive h s) (\<lambda>b. Some (s\<lparr>guards := (guards s)[g := Some b, h := Some a]\<rparr>)))"

fun guard_op :: "bool \<Rightarrow> gop \<Rightarrow> genv \<Rightarrow> genv option" where
  "guard_op Shared GDefault s = Some (new_guard 0 [] s)"
| "guard_op Shared (GDefer m) s = Some (new_guard (GuardState_new m False) [] s)"
| "guard_op Shared (GTry m ok) s = map_option (\<lambda>(st, cs). new_guard st cs s) (Guard_try Shared m ok)"
| "guard_op Shared (GAdopt m) s =
     (if outside s m = 0 then None else Some (new_guard (GuardState_new m True) [] (s\<lparr>outside := (outside s)(m := outside s m - 1)\<rparr>)))"
| "guard_op Shared (GMove g) s = Option.bind (alive g s) (\<lambda>st.
     let (new, old) = GuardState_move st in Some (new_guard new [] (s\<lparr>guards := (guards s)[g := Some old]\<rparr>)))"
| "guard_op Shared (GDtor g) s = Option.bind (alive g s) (\<lambda>st.
     map_option (\<lambda>cs. s\<lparr>guards := (guards s)[g := None], calls := calls s @ cs\<rparr>) (Guard_dtor Shared st))"
| "guard_op Shared (GAssign g h) s = Guard_Swap g h s"
| "guard_op Shared (GLock g) s = on_guard g (Guard_Lock Shared) s"
| "guard_op Shared (GTryLock g ok) s = on_guard g (Guard_TryLock Shared ok) s"
| "guard_op Shared (GUnlock g) s = on_guard g (Guard_Unlock Shared) s"
| "guard_op Shared (GUnlockOn g e) s = on_guard g (Guard_UnlockOn Shared e) s"
| "guard_op Shared (GUnlockHere g) s = on_guard g (Guard_UnlockHere Shared) s"
| "guard_op Shared (GSwap g h) s = Guard_Swap g h s"
| "guard_op Shared (GRelease g) s = Option.bind (alive g s) (\<lambda>st.
     let (new, was) = ReleaseState st
     in Some (s\<lparr>guards := (guards s)[g := Some new], outside := (outside s)(was := outside s was + of_bool (Owns st))\<rparr>))"
| "guard_op Shared (RawLock m) s = map_option (\<lambda>cs. s\<lparr>calls := calls s @ cs, outside := (outside s)(m := outside s m + 1)\<rparr>) (call Shared MLock m)"
| "guard_op Shared (RawUnlock m) s =
     (if outside s m = 0 then None
      else map_option (\<lambda>cs. s\<lparr>calls := calls s @ cs, outside := (outside s)(m := outside s m - 1)\<rparr>) (call Shared MUnlockHere m))"

fun guard_run :: "bool \<Rightarrow> gop list \<Rightarrow> genv \<Rightarrow> genv option" where
  "guard_run Shared [] s = Some s"
| "guard_run Shared (p # ps) s = Option.bind (guard_op Shared p s) (guard_run Shared ps)"

subsection \<open>The free bit\<close>

lemma Owns_bit: "Owns st \<longleftrightarrow> bit st 0"
  by (simp add: Owns_def and_one_eq bit_0 odd_iff_mod_2_eq_one)

lemma guard_words [simp]:
  "Ptr (st AND kMask) = Ptr st" "\<not> Owns (st AND kMask)" "Ptr (st OR 1) = Ptr st" "Owns (st OR 1)" "Ptr 0 = 0" "\<not> Owns 0"
  unfolding Owns_bit Ptr_def kMask_def
  by (auto intro!: bit_eqI simp: bit_and_iff bit_or_iff bit_not_iff bit_1_iff)

lemma guard_round_trip:
  assumes "even p"
  shows "Ptr (GuardState_new p o') = p" "Owns (GuardState_new p o') = o'"
proof -
  have b: "\<not> bit p 0" using assms by (simp add: bit_0)
  have n: "bit p n \<Longrightarrow> n \<noteq> 0" for n using b by (cases n) auto
  show "Owns (GuardState_new p o') = o'" using b by (cases o') (simp_all add: Owns_bit GuardState_new_def bit_or_iff)
  have "bit (Ptr (GuardState_new p o')) n = bit p n" if "n < 64" for n
    using that n by (cases o') (auto simp: Ptr_def kMask_def GuardState_new_def bit_and_iff bit_or_iff bit_not_iff bit_1_iff)
  then show "Ptr (GuardState_new p o') = p" by (intro bit_word_eqI) simp
qed

subsection \<open>Every lock has one owner\<close>

fun delta :: "u64 \<Rightarrow> mcall \<Rightarrow> int" where
  "delta m (sh, f, p) = (if p \<noteq> m then 0 else case f of MLock \<Rightarrow> 1 | MTryLock ok \<Rightarrow> of_bool ok | _ \<Rightarrow> - 1)"

definition held :: "u64 \<Rightarrow> genv \<Rightarrow> int" where
  "held m s = sum_list (map (delta m) (calls s))"

definition own :: "u64 \<Rightarrow> u64 option \<Rightarrow> int" where
  "own m x = of_bool (\<exists>st. x = Some st \<and> Owns st \<and> Ptr st = m)"

definition balance :: "u64 \<Rightarrow> genv \<Rightarrow> bool" where
  "balance m s \<longleftrightarrow> held m s = sum_list (map (own m) (guards s)) + int (outside s m)"

lemma own_simps [simp]: "own m None = 0" "own m (Some st) = of_bool (Owns st \<and> Ptr st = m)"
  by (simp_all add: own_def)

lemma own_step: "g < length xs \<Longrightarrow> sum_list (map (own m) (xs[g := y])) = sum_list (map (own m) xs) + own m y - own m (xs ! g)"
  using sum_list_step [of g xs "own m" y] by simp

lemma alive_Some: "alive g s = Some st \<longleftrightarrow> g < length (guards s) \<and> guards s ! g = Some st"
  by (auto simp: alive_def)

lemma call_Some: "call Shared f m = Some cs \<longleftrightarrow> m \<noteq> 0 \<and> cs = [(Shared, f, m)]"
  by (auto simp: call_def)

text \<open>A member function moves the count of its mutex as it moves the bit of the guard.\<close>

definition fair :: "(u64 \<Rightarrow> (u64 \<times> mcall list) option) \<Rightarrow> bool" where
  "fair f \<longleftrightarrow> (\<forall>st st' cs m. f st = Some (st', cs) \<longrightarrow> sum_list (map (delta m) cs) = own m (Some st') - own m (Some st))"

lemma fair_members:
  "fair (Guard_Lock Shared)" "fair (Guard_TryLock Shared ok)" "fair (Guard_Unlock Shared)" "fair (Guard_UnlockOn Shared e)"
  "fair (Guard_UnlockHere Shared)"
  unfolding fair_def Guard_Lock_def Guard_TryLock_def Guard_Unlock_def Guard_UnlockOn_def Guard_UnlockHere_def LockState_def UnlockState_def Let_def
  by (auto simp: bind_eq_Some_conv call_Some split: if_splits)

lemma fair_dtor: "Guard_dtor Shared st = Some cs \<Longrightarrow> sum_list (map (delta m) cs) = - own m (Some st)"
  unfolding Guard_dtor_def Guard_UnlockHere_def UnlockState_def Let_def
  by (auto simp: bind_eq_Some_conv call_Some split: if_splits)

lemma balance_on_guard: "fair f \<Longrightarrow> on_guard g f s = Some t \<Longrightarrow> balance m s \<Longrightarrow> balance m t"
  unfolding on_guard_def balance_def held_def fair_def
  by (auto simp: bind_eq_Some_conv alive_Some own_step)

lemma balance_swap: "Guard_Swap g h s = Some t \<Longrightarrow> balance m s \<Longrightarrow> balance m t"
  unfolding Guard_Swap_def balance_def held_def
  by (cases "g = h") (auto simp: bind_eq_Some_conv alive_Some own_step)

fun ptrs_of :: "gop \<Rightarrow> u64 set" where
  "ptrs_of (GDefer m) = {m}" | "ptrs_of (GTry m ok) = {m}" | "ptrs_of (GAdopt m) = {m}" | "ptrs_of _ = {}"

lemma balance_op:
  assumes "guard_op Shared p s = Some t" "balance m s" "\<forall>x \<in> ptrs_of p. even x"
  shows "balance m t"
  using assms
proof (induction Shared p s rule: guard_op.induct)
  case (5 Shared g s)
  then show ?case by (auto simp: bind_eq_Some_conv alive_Some GuardState_move_def new_guard_def balance_def held_def own_step)
next
  case (6 Shared g s)
  then show ?case
    by (auto simp: bind_eq_Some_conv alive_Some balance_def held_def own_step fair_dtor [of Shared _ _ m])
next
  case (14 Shared g s)
  then show ?case
    by (auto simp: bind_eq_Some_conv alive_Some ReleaseState_def Let_def balance_def held_def own_step)
next
  case (1 Shared s)
  then show ?case
    by (auto simp: new_guard_def balance_def held_def guard_round_trip Guard_try_def call_Some split: if_splits)
next
  case (2 Shared x s)
  then show ?case
    by (auto simp: new_guard_def balance_def held_def guard_round_trip Guard_try_def call_Some split: if_splits)
next
  case (3 Shared x ok s)
  then show ?case
    by (auto simp: new_guard_def balance_def held_def guard_round_trip Guard_try_def call_Some split: if_splits)
next
  case (4 Shared x s)
  then show ?case
    by (auto simp: new_guard_def balance_def held_def guard_round_trip Guard_try_def call_Some split: if_splits)
next
  case (15 Shared x s)
  then show ?case
    by (auto simp: new_guard_def balance_def held_def guard_round_trip Guard_try_def call_Some split: if_splits)
next
  case (16 Shared x s)
  then show ?case
    by (auto simp: new_guard_def balance_def held_def guard_round_trip Guard_try_def call_Some split: if_splits)
qed (auto intro: balance_on_guard fair_members balance_swap)

lemma balance_run:
  "guard_run Shared ps s = Some t \<Longrightarrow> balance m s \<Longrightarrow> \<forall>p \<in> set ps. \<forall>x \<in> ptrs_of p. even x \<Longrightarrow> balance m t"
proof (induction ps arbitrary: s)
  case (Cons p ps)
  then obtain u where u: "guard_op Shared p s = Some u" "guard_run Shared ps u = Some t"
    by (auto simp: bind_eq_Some_conv)
  then have "balance m u" using Cons.prems balance_op by auto
  then show ?case using Cons u by auto
qed simp

text \<open>
  C28: Guards neither lose nor double a lock. In every program of guards that is defined, a mutex has been locked
  once more than it has been unlocked for each live guard that owns it and each lock kept without a guard; a guard that is built
  for a mutex gives that mutex back, with the ownership it was built with. So when every guard is destroyed and nothing is held outside, each
  lock has been followed by its unlock.
\<close>

theorem guards_balanced:
  assumes "guard_run Shared ps genv_new = Some s" and "\<forall>p \<in> set ps. \<forall>x \<in> ptrs_of p. even x" and "even m"
  shows "held m s = int (card {g. \<exists>st. alive g s = Some st \<and> Owns st \<and> Ptr st = m}) + int (outside s m) \<and>
    Ptr (GuardState_new m b) = m \<and> Owns (GuardState_new m b) = b"
proof -
  have "balance m s"
    using balance_run [OF assms(1)] assms(2) by (simp add: balance_def genv_new_def held_def)
  moreover have "sum_list (map (own m) xs) = int (length (filter (\<lambda>x. \<exists>st. x = Some st \<and> Owns st \<and> Ptr st = m) xs))" for xs
    by (induction xs) (auto simp: own_def)
  then have "sum_list (map (own m) (guards s)) = int (card {g. g < length (guards s) \<and> (\<exists>st. guards s ! g = Some st \<and> Owns st \<and> Ptr st = m)})"
    by (simp add: length_filter_conv_card)
  moreover have "{g. g < length (guards s) \<and> (\<exists>st. guards s ! g = Some st \<and> Owns st \<and> Ptr st = m)}
      = {g. \<exists>st. alive g s = Some st \<and> Owns st \<and> Ptr st = m}"
    by (auto simp: alive_Some)
  ultimately show ?thesis using guard_round_trip [OF assms(3)] by (simp add: balance_def)
qed

theorem guards_balanced_witness:
  "\<exists>s. guard_run False [GDefer 64, GLock 0, GMove 0, GDtor 0, GDtor 1] genv_new = Some s \<and> held 64 s = 0"
proof -
  have b: "Ptr 64 = 64" "\<not> Owns 64" "Owns 65" "Ptr 65 = 64" "Owns 64 = False" by (simp_all add: Ptr_def Owns_def kMask_def)
  then have "guard_run False [GDefer 64, GLock 0, GMove 0, GDtor 0, GDtor 1] genv_new =
      Some \<lparr>guards = [None, None], calls = [(False, MLock, 64), (False, MUnlockHere, 64)], outside = (\<lambda>m. 0)\<rparr>"
    by (simp add: genv_new_def new_guard_def GuardState_new_def on_guard_def alive_def Guard_Lock_def LockState_def
        call_def GuardState_move_def Guard_dtor_def Guard_UnlockHere_def UnlockState_def kMask_def)
  note this and guards_balanced [OF this, of 64 False]
  then show ?thesis by (simp add: alive_def less_Suc_eq nth_Cons')
qed

end
