(* ===== verification/Awaiters.thy ===== *)
theory Awaiters
  imports Prelude
begin

section \<open>Awaiting futures in coroutines\<close>

text \<open>
  The awaiters of \<open>include/yaclib/coro/detail/await_awaiter.hpp\<close>, \<open>await_on_awaiter.hpp\<close> and \<open>on_awaiter.hpp\<close>, the events
  and helpers of \<open>algo/detail/shared_event.hpp\<close>, \<open>coro/yield.hpp\<close>, and \<open>coro/detail/promise_type.hpp\<close>, which is the core of a
  coroutine. Cores are numbers: a plain core is completed by a promise, the others belong to coroutines. Any number of coroutines
  run, complete, and await futures of each other; a move is one atomic operation of an awaiter, a completion, the call of one callback,
  or a job that an executor runs or drops. \<open>SetCallback\<close> and \<open>SetResult\<close> are single moves, as \<open>CoreRace\<close> shows. Values are
  not modelled, except that a result is read only after it is there.

  A failed assertion, a null executor that is used, a result that is read before it is stored, an event that is used after its
  coroutine went on, and a coroutine that is resumed while it runs have the value None.
\<close>

subsection \<open>States\<close>

text \<open>What a coroutine awaits: \<open>co_await\<close> of a future or \<open>Await\<close> of one (the flag says that the awaiter reads the result),
  \<open>AwaitSticky\<close> and \<open>AwaitOn\<close> of one, \<open>Await\<close> and \<open>AwaitSticky\<close> of several (the flags: sticky; a range instead of a list of
  arguments), \<open>AwaitOn\<close> of several, a task, \<open>kYield\<close>, \<open>On\<close>.\<close>

datatype awop =
  AwAwait bool nat | AwSticky nat | AwOn nat nat | AwMulti bool bool "nat list" | AwMultiOn nat bool "nat list" | AwTask bool nat | AwYield | AwSwitch nat

text \<open>
  Where a coroutine is in an awaiter: before \<open>await_ready\<close>; in the loop of \<open>SetCallbacksStatic\<close> or \<open>SetCallbacksDynamic\<close>, with the index and
  \<open>wait_count\<close>; before \<open>fetch_sub\<close>; in \<open>await_suspend\<close>; there, before \<open>SubEqual\<close>; suspended.
\<close>

datatype stage = SReady | SSet nat nat | SSub nat | SSusp | SCount | SSuspended

text \<open>A core of no coroutine; a lazy coroutine; one that runs, is in an awaiter, is in the queue of an executor, has ended.\<close>

datatype cpc = Plain | Lazy | Go | At awop stage | Queued nat awop | Finished

text \<open>A callback is the promise of a coroutine, the event in its awaiter, or a helper of that event.\<close>

datatype acb = CbPromise nat | CbEvent nat | CbHelper nat nat

fun own :: "acb \<Rightarrow> nat" where
  "own (CbPromise c) = c"
| "own (CbEvent c) = c"
| "own (CbHelper c i) = c"

datatype aword = WEmpty | WCbs "acb list" | WResult

text \<open>\<open>pending\<close> has the callbacks that \<open>SetResult\<close> still calls, \<open>home\<close> the executor of a coroutine when it began to await.\<close>

record awst =
  word :: "nat \<Rightarrow> aword"
  pending :: "nat \<Rightarrow> acb list"
  executor :: "nat \<Rightarrow> nat option"
  is_shared :: "nat \<Rightarrow> bool"
  pc :: "nat \<Rightarrow> cpc"
  cnt :: "nat \<Rightarrow> nat"
  job :: "nat \<Rightarrow> bool"
  home :: "nat \<Rightarrow> nat option"

fun futs :: "awop \<Rightarrow> nat list" where
  "futs (AwAwait g f) = [f]"
| "futs (AwSticky f) = [f]"
| "futs (AwOn e f) = [f]"
| "futs (AwMulti st dyn fs) = fs"
| "futs (AwMultiOn e dyn fs) = fs"
| "futs (AwTask g t) = [t]"
| "futs AwYield = []"
| "futs (AwSwitch e) = []"

definition set_pc :: "nat \<Rightarrow> cpc \<Rightarrow> awst \<Rightarrow> awst" where
  "set_pc c p s = s\<lparr>pc := (pc s)(c := p)\<rparr>"

subsection \<open>Cores and the promise type\<close>

definition Empty :: "nat \<Rightarrow> awst \<Rightarrow> bool" where
  "Empty f s \<longleftrightarrow> word s f = WEmpty"

definition SetCallback :: "nat \<Rightarrow> acb \<Rightarrow> awst \<Rightarrow> bool \<times> awst" where
  "SetCallback f cb s =
     (case word s f of
        WEmpty \<Rightarrow> (True, s\<lparr>word := (word s)(f := WCbs [cb])\<rparr>)
      | WCbs l \<Rightarrow> if is_shared s f then (True, s\<lparr>word := (word s)(f := WCbs (cb # l))\<rparr>) else (False, s)
      | WResult \<Rightarrow> (False, s))"

text \<open>\<open>SetResult\<close> up to the calls of the callbacks.\<close>

definition SetResult :: "nat \<Rightarrow> awst \<Rightarrow> awst option" where
  "SetResult f s =
     (case word s f of
        WEmpty \<Rightarrow> Some (s\<lparr>word := (word s)(f := WResult)\<rparr>)
      | WCbs l \<Rightarrow> Some (s\<lparr>word := (word s)(f := WResult), pending := (pending s)(f := l)\<rparr>)
      | WResult \<Rightarrow> None)"

definition SubEqual :: "nat \<Rightarrow> awst \<Rightarrow> bool \<times> awst" where
  "SubEqual c s = (cnt s c = 1, s\<lparr>cnt := (cnt s)(c := cnt s c - 1)\<rparr>)"

definition PromiseType_Impl :: "nat \<Rightarrow> nat \<Rightarrow> awst \<Rightarrow> awst option" where
  "PromiseType_Impl c caller s =
     (case executor s caller of
        None \<Rightarrow> None
      | Some e \<Rightarrow> Some (s\<lparr>executor := (executor s)(caller := None, c := Some e)\<rparr>))"

text \<open>The coroutine goes on; two awaiters read the result first.\<close>

definition await_resume :: "nat \<Rightarrow> awop \<Rightarrow> awst \<Rightarrow> awst option" where
  "await_resume c op s =
     (case op of
        AwAwait g f \<Rightarrow> if g \<and> word s f \<noteq> WResult then None else Some (set_pc c Go s)
      | AwTask g t \<Rightarrow> if g \<and> word s t \<noteq> WResult then None else Some (set_pc c Go s)
      | _ \<Rightarrow> Some (set_pc c Go s))"

definition PromiseType_Call :: "nat \<Rightarrow> awst \<Rightarrow> awst option" where
  "PromiseType_Call c s =
     (case pc s c of
        Lazy \<Rightarrow> Some (set_pc c Go s)
      | At op SSuspended \<Rightarrow> await_resume c op s
      | Queued e op \<Rightarrow> await_resume c op s
      | _ \<Rightarrow> None)"

definition PromiseType_Here :: "nat \<Rightarrow> nat \<Rightarrow> awst \<Rightarrow> awst option" where
  "PromiseType_Here c caller s = Option.bind (PromiseType_Impl c caller s) (PromiseType_Call c)"

text \<open>\<open>co_return\<close> with the final suspend, and \<open>Drop\<close>, which stores a stop error.\<close>

definition PromiseType_finish :: "nat \<Rightarrow> awst \<Rightarrow> awst option" where
  "PromiseType_finish c s = SetResult c (set_pc c Finished s)"

definition PromiseType_Drop :: "nat \<Rightarrow> awst \<Rightarrow> awst option" where
  "PromiseType_Drop c s = SetResult c (set_pc c Finished s)"

definition Submit :: "nat \<Rightarrow> awop \<Rightarrow> awst \<Rightarrow> awst option" where
  "Submit c op s = (case executor s c of None \<Rightarrow> None | Some e \<Rightarrow> Some (set_pc c (Queued e op) s))"

subsection \<open>Events\<close>

definition AwaitEvent_Impl :: "bool \<Rightarrow> nat \<Rightarrow> nat \<Rightarrow> awop \<Rightarrow> awst \<Rightarrow> awst option" where
  "AwaitEvent_Impl Sticky c caller op s =
     (if cnt s c = 0 then None
      else let (last, s) = SubEqual c s in
        if last then
          if \<not> job s c \<or> pc s c \<noteq> At op SSuspended then None
          else if Sticky then Submit c op s
          else PromiseType_Here c caller s
        else Some s)"

definition AwaitOnEvent_Impl :: "nat \<Rightarrow> awop \<Rightarrow> awst \<Rightarrow> awst option" where
  "AwaitOnEvent_Impl c op s =
     (if cnt s c = 0 then None
      else let (last, s) = SubEqual c s in
        if last then if \<not> job s c \<or> pc s c \<noteq> At op SSuspended then None else Submit c op s
        else Some s)"

text \<open>\<open>Here\<close> of the event in the awaiter of a coroutine, directly or through a helper.\<close>

definition event_Here :: "nat \<Rightarrow> nat \<Rightarrow> awst \<Rightarrow> awst option" where
  "event_Here c caller s =
     (case pc s c of
        At op st \<Rightarrow>
          (case op of
             AwSticky f \<Rightarrow> if st = SSuspended then Submit c op s else None
           | AwOn e f \<Rightarrow> AwaitOnEvent_Impl c op s
           | AwMulti Sticky dyn fs \<Rightarrow> AwaitEvent_Impl Sticky c caller op s
           | AwMultiOn e dyn fs \<Rightarrow> AwaitOnEvent_Impl c op s
           | _ \<Rightarrow> None)
      | _ \<Rightarrow> None)"

definition call_callback :: "nat \<Rightarrow> awst \<Rightarrow> awst option" where
  "call_callback f s =
     (case pending s f of
        [] \<Rightarrow> None
      | cb # cbs \<Rightarrow>
          (let s = s\<lparr>pending := (pending s)(f := cbs)\<rparr> in
           case cb of CbPromise c \<Rightarrow> PromiseType_Here c f s | CbEvent c \<Rightarrow> event_Here c f s | CbHelper c i \<Rightarrow> event_Here c f s))"

text \<open>The callback object for the future at index \<open>i\<close>.\<close>

definition node :: "(nat \<Rightarrow> bool) \<Rightarrow> awop \<Rightarrow> nat \<Rightarrow> nat \<Rightarrow> acb" where
  "node sh op c i =
     (case op of
        AwAwait g f \<Rightarrow> CbPromise c
      | AwTask g t \<Rightarrow> CbPromise c
      | AwMulti st dyn fs \<Rightarrow> if sh (fs ! i) then CbHelper c (if dyn then i else length (filter sh (take i fs))) else CbEvent c
      | AwMultiOn e dyn fs \<Rightarrow> if sh (fs ! i) then CbHelper c (if dyn then i else length (filter sh (take i fs))) else CbEvent c
      | _ \<Rightarrow> CbEvent c)"

definition SetCallbacks_turn :: "nat \<Rightarrow> awop \<Rightarrow> nat \<Rightarrow> nat \<Rightarrow> awst \<Rightarrow> awst" where
  "SetCallbacks_turn c op i wait_count s =
     (if i = length (futs op) then set_pc c (At op (SSub wait_count)) s
      else let (ok, s) = SetCallback (futs op ! i) (node (is_shared s) op c i) s
           in set_pc c (At op (SSet (Suc i) (if ok then Suc wait_count else wait_count))) s)"

definition SetCallbacks_end :: "nat \<Rightarrow> awop \<Rightarrow> nat \<Rightarrow> awst \<Rightarrow> awst" where
  "SetCallbacks_end c op wait_count s =
     set_pc c (At op (case op of AwMulti st dyn fs \<Rightarrow> SReady | _ \<Rightarrow> SSusp)) (s\<lparr>cnt := (cnt s)(c := cnt s c - (length (futs op) - wait_count))\<rparr>)"

subsection \<open>Awaiters\<close>

definition AwaitSingleAwaiter :: "nat \<Rightarrow> awop \<Rightarrow> nat \<Rightarrow> stage \<Rightarrow> awst \<Rightarrow> awst option" where
  "AwaitSingleAwaiter c op f st s =
     (if st = SReady then if \<not> Empty f s then await_resume c op s else Some (set_pc c (At op SSusp) s)
      else if st = SSusp then
        (let (ok, s) = SetCallback f (node (is_shared s) op c 0) s
         in if ok then Some (set_pc c (At op SSuspended) s) else await_resume c op s)
      else None)"

definition AwaitOnAwaiter :: "nat \<Rightarrow> awop \<Rightarrow> nat \<Rightarrow> nat \<Rightarrow> stage \<Rightarrow> awst \<Rightarrow> awst option" where
  "AwaitOnAwaiter c op e f st s =
     (if st = SSusp then
        (let (ok, s) = SetCallback f (node (is_shared s) op c 0) (s\<lparr>executor := (executor s)(c := Some e), job := (job s)(c := True)\<rparr>)
         in if ok then Some (set_pc c (At op SSuspended) s) else Submit c op s)
      else None)"

definition MultiAwaitAwaiter :: "nat \<Rightarrow> awop \<Rightarrow> stage \<Rightarrow> awst \<Rightarrow> awst option" where
  "MultiAwaitAwaiter c op st s =
     (case st of
        SSet i w \<Rightarrow> Some (SetCallbacks_turn c op i w s)
      | SSub w \<Rightarrow> Some (SetCallbacks_end c op w s)
      | SReady \<Rightarrow> if cnt s c = 1 then await_resume c op s else Some (set_pc c (At op SSusp) s)
      | SSusp \<Rightarrow> Some (set_pc c (At op SCount) (s\<lparr>job := (job s)(c := True)\<rparr>))
      | SCount \<Rightarrow> (let (last, s) = SubEqual c s in if \<not> last then Some (set_pc c (At op SSuspended) s) else await_resume c op s)
      | SSuspended \<Rightarrow> None)"

definition MultiAwaitOnAwaiter :: "nat \<Rightarrow> awop \<Rightarrow> nat \<Rightarrow> stage \<Rightarrow> awst \<Rightarrow> awst option" where
  "MultiAwaitOnAwaiter c op e st s =
     (case st of
        SSet i w \<Rightarrow> Some (SetCallbacks_turn c op i w s)
      | SSub w \<Rightarrow> Some (SetCallbacks_end c op w s)
      | SSusp \<Rightarrow> Some (set_pc c (At op SCount) (s\<lparr>executor := (executor s)(c := Some e), job := (job s)(c := True)\<rparr>))
      | SCount \<Rightarrow> (let (last, s) = SubEqual c s in if last then Submit c op s else Some (set_pc c (At op SSuspended) s))
      | _ \<Rightarrow> None)"

text \<open>Only tasks that are one coroutine are awaited: such a task is its own head, and \<open>MoveToCaller\<close> is the identity on it.\<close>

definition TransferAwaiter :: "nat \<Rightarrow> awop \<Rightarrow> nat \<Rightarrow> stage \<Rightarrow> awst \<Rightarrow> awst option" where
  "TransferAwaiter c op t st s =
     (if st = SSusp \<and> Empty t s
      then PromiseType_Here t c (set_pc c (At op SSuspended) (s\<lparr>word := (word s)(t := WCbs [node (is_shared s) op c 0])\<rparr>))
      else None)"

definition await_turn :: "nat \<Rightarrow> awop \<Rightarrow> stage \<Rightarrow> awst \<Rightarrow> awst option" where
  "await_turn c op st s =
     (case op of
        AwAwait g f \<Rightarrow> AwaitSingleAwaiter c op f st s
      | AwSticky f \<Rightarrow> AwaitSingleAwaiter c op f st s
      | AwOn e f \<Rightarrow> AwaitOnAwaiter c op e f st s
      | AwMulti sticky dyn fs \<Rightarrow> MultiAwaitAwaiter c op st s
      | AwMultiOn e dyn fs \<Rightarrow> MultiAwaitOnAwaiter c op e st s
      | AwTask g t \<Rightarrow> TransferAwaiter c op t st s
      | AwYield \<Rightarrow> if st = SSusp then Submit c op s else None
      | AwSwitch e \<Rightarrow> if st = SSusp then Submit c op (s\<lparr>executor := (executor s)(c := Some e)\<rparr>) else None)"

text \<open>An awaiter is made; \<open>await_ready\<close> is a constant for some.\<close>

definition first_stage :: "awop \<Rightarrow> stage" where
  "first_stage op = (case op of AwAwait g f \<Rightarrow> SReady | AwSticky f \<Rightarrow> SReady | AwMulti st dyn fs \<Rightarrow> SSet 0 0 | AwMultiOn e dyn fs \<Rightarrow> SSet 0 0 | _ \<Rightarrow> SSusp)"

definition make_awaiter :: "nat \<Rightarrow> awop \<Rightarrow> awst \<Rightarrow> awst" where
  "make_awaiter c op s = set_pc c (At op (first_stage op))
     (s\<lparr>cnt := (cnt s)(c := (case op of AwOn e f \<Rightarrow> 1 | _ \<Rightarrow> length (futs op) + 1)), job := (job s)(c := False), home := (home s)(c := executor s c)\<rparr>)"

subsection \<open>Moves\<close>

datatype amove = Begin nat awop | Turn nat | Complete nat | Callback nat | RunJob nat | DropJob nat

definition aw_move :: "amove \<Rightarrow> awst \<Rightarrow> awst option" where
  "aw_move m s =
     (case m of
        Begin c op \<Rightarrow> Some (make_awaiter c op s)
      | Turn c \<Rightarrow> (case pc s c of At op st \<Rightarrow> await_turn c op st s | _ \<Rightarrow> None)
      | Complete f \<Rightarrow> PromiseType_finish f s
      | Callback f \<Rightarrow> call_callback f s
      | RunJob c \<Rightarrow> PromiseType_Call c s
      | DropJob c \<Rightarrow> PromiseType_Drop c s)"

definition in_op :: "awst \<Rightarrow> nat \<Rightarrow> awop \<Rightarrow> bool" where
  "in_op s c op \<longleftrightarrow> (\<exists>st. pc s c = At op st) \<or> (\<exists>e. pc s c = Queued e op)"

text \<open>
  Which awaits of one shared future go together: all but those that ask the core whether it is empty, and two that move its
  executor do not.
\<close>

definition compatible :: "awop \<Rightarrow> awop \<Rightarrow> bool" where
  "compatible p q \<longleftrightarrow>
     (case (p, q) of
        (AwMulti st dyn fs, AwMulti st' dyn' fs') \<Rightarrow> st \<or> st'
      | (AwMulti st dyn fs, AwOn e f) \<Rightarrow> True | (AwMulti st dyn fs, AwMultiOn e dyn' fs') \<Rightarrow> True
      | (AwOn e f, AwMulti st dyn fs) \<Rightarrow> True | (AwMultiOn e dyn' fs', AwMulti st dyn fs) \<Rightarrow> True
      | (AwOn e f, AwOn e' f') \<Rightarrow> True | (AwOn e f, AwMultiOn e' dyn fs) \<Rightarrow> True | (AwMultiOn e dyn fs, AwOn e' f) \<Rightarrow> True
      | (AwMultiOn e dyn fs, AwMultiOn e' dyn' fs') \<Rightarrow> True
      | _ \<Rightarrow> False)"

text \<open>The rules of the interface: unique futures have one user; with \<open>strict\<close>, shared futures have compatible ones.\<close>

definition begin_ok :: "bool \<Rightarrow> nat \<Rightarrow> awop \<Rightarrow> awst \<Rightarrow> bool" where
  "begin_ok strict c op s \<longleftrightarrow> pc s c = Go \<and> distinct (futs op) \<and> c \<notin> set (futs op) \<and>
     (\<forall>f \<in> set (futs op). (pc s f = Lazy \<longleftrightarrow> (\<exists>g. op = AwTask g f)) \<and> (pc s f = Lazy \<longrightarrow> \<not> is_shared s f) \<and>
        (\<forall>d p. d \<noteq> c \<and> in_op s d p \<and> f \<in> set (futs p) \<longrightarrow> is_shared s f \<and> (strict \<longrightarrow> compatible op p)))"

definition enabled :: "bool \<Rightarrow> amove \<Rightarrow> awst \<Rightarrow> bool" where
  "enabled strict m s \<longleftrightarrow>
     (case m of
        Begin c op \<Rightarrow> begin_ok strict c op s
      | Turn c \<Rightarrow> \<exists>op st. pc s c = At op st \<and> st \<noteq> SSuspended
      | Complete f \<Rightarrow> pc s f = Plain \<or> pc s f = Go
      | Callback f \<Rightarrow> pending s f \<noteq> []
      | RunJob c \<Rightarrow> \<exists>e op. pc s c = Queued e op
      | DropJob c \<Rightarrow> \<exists>e op. pc s c = Queued e op)"

definition aw_init :: "awst \<Rightarrow> bool" where
  "aw_init s \<longleftrightarrow> (\<forall>f. word s f = WEmpty \<and> pending s f = [] \<and> executor s f \<noteq> None \<and> (pc s f = Plain \<or> pc s f = Lazy \<or> pc s f = Go))"

inductive aw_reach :: "bool \<Rightarrow> awst \<Rightarrow> bool" for strict where
  start: "aw_init s \<Longrightarrow> aw_reach strict s"
| move: "aw_reach strict s \<Longrightarrow> enabled strict m s \<Longrightarrow> aw_move m s = Some t \<Longrightarrow> aw_reach strict t"

subsection \<open>The invariant\<close>

text \<open>The callbacks that a core has, in its word or still to call; the cores that have one of the coroutine \<open>c\<close>.\<close>

definition cbs :: "awst \<Rightarrow> nat \<Rightarrow> acb list" where
  "cbs s f = (case word s f of WCbs l \<Rightarrow> l | _ \<Rightarrow> []) @ pending s f"

definition out :: "awst \<Rightarrow> nat \<Rightarrow> nat set" where
  "out s c = {f. c \<in> own ` set (cbs s f)}"

definition at_op :: "awst \<Rightarrow> nat \<Rightarrow> awop option" where
  "at_op s c = (case pc s c of At op st \<Rightarrow> Some op | _ \<Rightarrow> None)"

definition rest_done :: "awst \<Rightarrow> nat \<Rightarrow> nat list \<Rightarrow> bool" where
  "rest_done s c fs \<longleftrightarrow> (\<forall>f \<in> set fs. f \<in> out s c \<or> word s f = WResult)"

definition single_ok :: "awst \<Rightarrow> nat \<Rightarrow> nat \<Rightarrow> stage \<Rightarrow> bool" where
  "single_ok s c f st \<longleftrightarrow> (st = SReady \<or> st = SSusp) \<and> out s c = {} \<or> st = SSuspended \<and> out s c = {f}"

definition multi_ok :: "awst \<Rightarrow> nat \<Rightarrow> nat list \<Rightarrow> stage \<Rightarrow> bool" where
  "multi_ok s c fs st \<longleftrightarrow> out s c \<subseteq> set fs \<and>
     (case st of
        SSet i w \<Rightarrow> i \<le> length fs \<and> out s c \<subseteq> set (take i fs) \<and> rest_done s c (take i fs) \<and> card (out s c) \<le> w \<and> w \<le> i \<and>
                    cnt s c + w = length fs + 1 + card (out s c)
      | SSub w \<Rightarrow> rest_done s c fs \<and> card (out s c) \<le> w \<and> w \<le> length fs \<and> cnt s c + w = length fs + 1 + card (out s c)
      | SReady \<Rightarrow> rest_done s c fs \<and> cnt s c = 1 + card (out s c)
      | SSusp \<Rightarrow> rest_done s c fs \<and> cnt s c = 1 + card (out s c)
      | SCount \<Rightarrow> rest_done s c fs \<and> cnt s c = 1 + card (out s c) \<and> job s c
      | SSuspended \<Rightarrow> rest_done s c fs \<and> cnt s c = card (out s c) \<and> out s c \<noteq> {} \<and> job s c)"

fun at_ok :: "awst \<Rightarrow> nat \<Rightarrow> awop \<Rightarrow> stage \<Rightarrow> bool" where
  "at_ok s c (AwAwait g f) st \<longleftrightarrow> single_ok s c f st"
| "at_ok s c (AwSticky f) st \<longleftrightarrow> single_ok s c f st \<and> executor s c = home s c"
| "at_ok s c (AwOn e f) st \<longleftrightarrow> st \<noteq> SReady \<and> single_ok s c f st \<and> cnt s c = 1 \<and> (st = SSuspended \<longrightarrow> job s c \<and> executor s c = Some e)"
| "at_ok s c (AwMulti sticky dyn fs) st \<longleftrightarrow> multi_ok s c fs st \<and> (sticky \<longrightarrow> executor s c = home s c)"
| "at_ok s c (AwMultiOn e dyn fs) st \<longleftrightarrow> st \<noteq> SReady \<and> multi_ok s c fs st \<and> (st = SCount \<or> st = SSuspended \<longrightarrow> executor s c = Some e)"
| "at_ok s c (AwTask g t) st \<longleftrightarrow> st \<noteq> SReady \<and> single_ok s c t st \<and> (st = SSusp \<longrightarrow> pc s t = Lazy)"
| "at_ok s c AwYield st \<longleftrightarrow> st = SSusp \<and> out s c = {} \<and> executor s c = home s c"
| "at_ok s c (AwSwitch e) st \<longleftrightarrow> st = SSusp \<and> out s c = {}"

text \<open>On which executor a coroutine goes on.\<close>

definition goes_to :: "awst \<Rightarrow> nat \<Rightarrow> awop \<Rightarrow> nat \<Rightarrow> bool" where
  "goes_to s c op e \<longleftrightarrow>
     (case op of
        AwOn e' f \<Rightarrow> e = e' | AwMultiOn e' dyn fs \<Rightarrow> e = e' | AwSwitch e' \<Rightarrow> e = e'
      | AwSticky f \<Rightarrow> home s c = Some e | AwMulti sticky dyn fs \<Rightarrow> sticky \<and> home s c = Some e | AwYield \<Rightarrow> home s c = Some e | _ \<Rightarrow> False)"

fun coro_ok :: "awst \<Rightarrow> nat \<Rightarrow> cpc \<Rightarrow> bool" where
  "coro_ok s c (At op st) \<longleftrightarrow> at_ok s c op st"
| "coro_ok s c (Queued e op) \<longleftrightarrow> out s c = {} \<and> executor s c = Some e \<and> (\<forall>f \<in> set (futs op). word s f = WResult) \<and> goes_to s c op e"
| "coro_ok s c p \<longleftrightarrow> out s c = {}"

definition exec_ok :: "awst \<Rightarrow> nat \<Rightarrow> bool" where
  "exec_ok s c \<longleftrightarrow> pc s c \<noteq> Finished \<and> (\<forall>g t. pc s c \<noteq> At (AwTask g t) SSuspended) \<longrightarrow> executor s c \<noteq> None"

definition cb_ok :: "awst \<Rightarrow> nat \<Rightarrow> acb \<Rightarrow> bool" where
  "cb_ok s f cb \<longleftrightarrow> (\<exists>op i. at_op s (own cb) = Some op \<and> i < length (futs op) \<and> futs op ! i = f \<and> cb = node (is_shared s) op (own cb) i)"

definition core_ok :: "awst \<Rightarrow> nat \<Rightarrow> bool" where
  "core_ok s f \<longleftrightarrow> distinct (map own (cbs s f)) \<and> word s f \<noteq> WCbs [] \<and> (pending s f \<noteq> [] \<longrightarrow> word s f = WResult) \<and>
     (word s f = WResult \<longleftrightarrow> pc s f = Finished) \<and> (\<forall>cb \<in> set (cbs s f). cb_ok s f cb)"

text \<open>Who takes the executor of the core that calls it.\<close>

definition mover :: "awop \<Rightarrow> bool" where
  "mover op \<longleftrightarrow> (case op of AwAwait g f \<Rightarrow> True | AwTask g t \<Rightarrow> True | AwMulti sticky dyn fs \<Rightarrow> \<not> sticky | _ \<Rightarrow> False)"

definition mover_ok :: "awst \<Rightarrow> nat \<Rightarrow> bool" where
  "mover_ok s f \<longleftrightarrow> executor s f = None \<longrightarrow> (\<forall>cb \<in> set (pending s f). \<forall>op. at_op s (own cb) = Some op \<longrightarrow> \<not> mover op)"

definition op_ok :: "awst \<Rightarrow> nat \<Rightarrow> bool" where
  "op_ok s c \<longleftrightarrow> (\<forall>op. in_op s c op \<longrightarrow> distinct (futs op) \<and> c \<notin> set (futs op) \<and>
     (\<forall>f \<in> set (futs op). pc s f = Lazy \<longrightarrow> (\<exists>g. op = AwTask g f) \<and> \<not> is_shared s f))"

definition users_ok :: "awst \<Rightarrow> bool" where
  "users_ok s \<longleftrightarrow> (\<forall>f c d p q. c \<noteq> d \<and> in_op s c p \<and> in_op s d q \<and> f \<in> set (futs p) \<and> f \<in> set (futs q) \<longrightarrow> is_shared s f \<and> compatible p q)"

definition aw_ok :: "awst \<Rightarrow> bool" where
  "aw_ok s \<longleftrightarrow> (\<forall>c. coro_ok s c (pc s c) \<and> exec_ok s c \<and> core_ok s c \<and> mover_ok s c \<and> op_ok s c) \<and> users_ok s"

lemma aw_okD:
  assumes "aw_ok s"
  shows "coro_ok s c (pc s c)" "exec_ok s c" "core_ok s c" "mover_ok s c" "op_ok s c" "users_ok s"
  using assms by (simp_all add: aw_ok_def)

lemma users_okD:
  assumes "aw_ok s" "in_op s c p" "in_op s d q" "f \<in> set (futs p)" "f \<in> set (futs q)" "d \<noteq> c"
  shows "is_shared s f" "compatible p q"
  using aw_okD(6) [OF assms(1), unfolded users_ok_def, THEN spec, THEN spec, THEN spec, THEN spec, THEN spec, of c d p q f] assms(2-6)
  by simp_all

lemma at_op_in: "at_op s c = Some op \<Longrightarrow> in_op s c op"
  by (auto simp: at_op_def in_op_def split: cpc.splits)

lemma cb_user: "cb_ok s f cb \<Longrightarrow> \<exists>op. at_op s (own cb) = Some op \<and> f \<in> set (futs op)"
  by (auto simp: cb_ok_def)

lemma coro_keep:
  assumes "coro_ok s d (pc s d)" "pc t d = pc s d" "executor t d = executor s d \<or> pc s d = Finished" "cnt t d = cnt s d" "job t d = job s d"
    "home t d = home s d" "out t d = out s d" "\<And>f. word s f = WResult \<Longrightarrow> word t f = WResult"
    "\<And>g f. pc s d = At (AwTask g f) SSusp \<Longrightarrow> pc s f = Lazy \<Longrightarrow> pc t f = Lazy"
  shows "coro_ok t d (pc t d)"
proof (cases "pc s d")
  case (At op st)
  have m: "multi_ok s d fs st \<Longrightarrow> multi_ok t d fs st" for fs
    using assms(4,5,7,8) by (auto simp: multi_ok_def rest_done_def split: stage.splits)
  have sg: "single_ok t d f st = single_ok s d f st" for f using assms(7) by (simp add: single_ok_def)
  have e: "executor t d = executor s d" using assms(3) At by simp
  have "at_ok s d op st" using assms(1) At by simp
  then have "at_ok t d op st"
    using m sg e assms(4-7) assms(9) At by (cases op) auto
  then show ?thesis using At assms(2) by simp
next
  case (Queued e op)
  then have "goes_to t d op e = goes_to s d op e" using assms(6) by (simp add: goes_to_def split: awop.splits)
  then show ?thesis using Queued assms(1-3,7,8) by simp
qed (use assms(1,2,7) in simp_all)

text \<open>A move of the coroutine \<open>c\<close> that leaves the others alone.\<close>

lemma ok_by_gen:
  assumes s: "aw_ok s"
    and o: "\<And>d. d \<noteq> c \<Longrightarrow> pc t d = pc s d" "\<And>d. d \<noteq> c \<Longrightarrow> cnt t d = cnt s d \<and> job t d = job s d \<and> home t d = home s d"
      "\<And>d. d \<noteq> c \<Longrightarrow> executor t d = executor s d \<or> pc s d = Finished" "is_shared t = is_shared s"
    and w: "\<And>f. word t f = WResult \<longleftrightarrow> word s f = WResult" "\<And>f. word t f \<noteq> WCbs []" "\<And>f. pending t f \<noteq> [] \<Longrightarrow> pending s f \<noteq> []"
    and b: "\<And>f. distinct (map own (cbs t f))" "\<And>f cb. own cb \<noteq> c \<Longrightarrow> cb \<in> set (cbs t f) \<longleftrightarrow> cb \<in> set (cbs s f)"
      "\<And>f cb. cb \<in> set (cbs t f) \<Longrightarrow> own cb = c \<Longrightarrow> cb_ok t f cb"
    and c: "pc s c \<noteq> Finished" "pc t c \<noteq> Finished" "pc s c \<noteq> Lazy" "pc t c \<noteq> Lazy" "coro_ok t c (pc t c)" "exec_ok t c"
    and u: "op_ok t c" "users_ok t"
    and m: "\<And>f. mover_ok t f"
  shows "aw_ok t"
proof -
  have lz: "pc t d = Lazy \<longleftrightarrow> pc s d = Lazy" "pc t d = Finished \<longleftrightarrow> pc s d = Finished" for d using o(1) c(1-4) by (cases "d = c"; simp)+
  have od: "out t d = out s d" if "d \<noteq> c" for d
  proof -
    have "d \<in> own ` set (cbs t f) \<longleftrightarrow> d \<in> own ` set (cbs s f)" for f
      using b(2) that by (auto simp: image_iff)
    then show ?thesis by (simp add: out_def)
  qed
  have "coro_ok t d (pc t d)" for d
  proof (cases "d = c")
    case False
    show ?thesis
      by (rule coro_keep [OF aw_okD(1) [OF s]]) (use o od [OF False] w(1) lz False in auto)
  qed (use c in simp)
  moreover have "exec_ok t d" for d
  proof (cases "d = c")
    case False
    then show ?thesis using aw_okD(2) [OF s, of d] o(1) [OF False] o(3) [OF False] by (auto simp: exec_ok_def)
  qed (use c in simp)
  moreover have "core_ok t f" for f
  proof -
    have k: "core_ok s f" using aw_okD(3) [OF s] .
    have "cb_ok t f cb" if "cb \<in> set (cbs t f)" for cb
    proof (cases "own cb = c")
      case False
      then have "cb_ok s f cb" using b(2) that k by (simp add: core_ok_def)
      moreover have "at_op t (own cb) = at_op s (own cb)" using o(1) [OF False] by (simp add: at_op_def)
      ultimately show ?thesis using o(4) by (simp add: cb_ok_def)
    qed (use b(3) that in blast)
    then show ?thesis using k w b(1) lz(2) by (auto simp: core_ok_def)
  qed
  moreover have "op_ok t d" for d
  proof (cases "d = c")
    case False
    then have "in_op t d p = in_op s d p" for p using o(1) by (simp add: in_op_def)
    then show ?thesis using aw_okD(5) [OF s, of d] lz o(4) by (simp add: op_ok_def)
  qed (use u in simp)
  ultimately show ?thesis using m u by (simp add: aw_ok_def)
qed

lemma ok_by:
  assumes s: "aw_ok s"
    and o: "\<And>d. d \<noteq> c \<Longrightarrow> pc t d = pc s d" "\<And>d. d \<noteq> c \<Longrightarrow> cnt t d = cnt s d \<and> job t d = job s d \<and> home t d = home s d"
      "\<And>d. d \<noteq> c \<Longrightarrow> executor t d = executor s d \<or> pc s d = Finished" "is_shared t = is_shared s"
    and w: "\<And>f. word t f = WResult \<longleftrightarrow> word s f = WResult" "\<And>f. word t f \<noteq> WCbs []" "\<And>f. pending t f \<noteq> [] \<Longrightarrow> pending s f \<noteq> []"
    and b: "\<And>f. distinct (map own (cbs t f))" "\<And>f cb. own cb \<noteq> c \<Longrightarrow> cb \<in> set (cbs t f) \<longleftrightarrow> cb \<in> set (cbs s f)"
      "\<And>f cb. cb \<in> set (cbs t f) \<Longrightarrow> own cb = c \<Longrightarrow> cb_ok t f cb"
    and c: "pc s c \<noteq> Finished" "pc t c \<noteq> Finished" "pc s c \<noteq> Lazy" "pc t c \<noteq> Lazy" "coro_ok t c (pc t c)" "exec_ok t c"
    and u: "\<And>p. in_op t c p \<Longrightarrow> in_op s c p"
    and m: "\<And>f. mover_ok t f"
  shows "aw_ok t"
proof (rule ok_by_gen [OF s o w b c _ _ m])
  have io: "in_op t d p \<Longrightarrow> in_op s d p" for d p using u o(1) by (cases "d = c") (auto simp: in_op_def)
  have lz: "pc t d = Lazy \<longleftrightarrow> pc s d = Lazy" for d using o(1) c(1-4) by (cases "d = c"; simp)
  show "op_ok t c"
    unfolding op_ok_def
  proof (intro allI impI)
    fix p
    assume "in_op t c p"
    then have "in_op s c p" by (rule io)
    then show "distinct (futs p) \<and> c \<notin> set (futs p) \<and> (\<forall>f \<in> set (futs p). pc t f = Lazy \<longrightarrow> (\<exists>g. p = AwTask g f) \<and> \<not> is_shared t f)"
      using aw_okD(5) [OF s, of c] lz o(4) by (simp add: op_ok_def)
  qed
  show "users_ok t"
    unfolding users_ok_def
  proof (intro allI impI, elim conjE)
    fix f d e p q
    assume "d \<noteq> e" "in_op t d p" "in_op t e q" "f \<in> set (futs p)" "f \<in> set (futs q)"
    then show "is_shared t f \<and> compatible p q" using users_okD [OF s io io, of d p e q f] o(4) by simp
  qed
qed

lemma pending_finished: "aw_ok s \<Longrightarrow> pc s f \<noteq> Finished \<Longrightarrow> pending s f = []"
  using aw_okD(3) [of s f] by (auto simp: core_ok_def)

lemma out_none: "out s c = {} \<Longrightarrow> cb \<in> set (cbs s f) \<Longrightarrow> own cb \<noteq> c"
  by (auto simp: out_def)

text \<open>A move within one awaiter, or out of it, that leaves the cores alone.\<close>

lemma ok_local:
  assumes s: "aw_ok s"
    and o: "\<And>d. d \<noteq> c \<Longrightarrow> pc t d = pc s d" "\<And>d. d \<noteq> c \<Longrightarrow> cnt t d = cnt s d \<and> job t d = job s d \<and> home t d = home s d"
      "\<And>d. d \<noteq> c \<Longrightarrow> executor t d = executor s d" "is_shared t = is_shared s" "word t = word s" "pending t = pending s"
    and c: "pc s c \<noteq> Finished" "pc t c \<noteq> Finished" "pc s c \<noteq> Lazy" "pc t c \<noteq> Lazy" "coro_ok t c (pc t c)" "exec_ok t c"
    and u: "\<And>p. in_op t c p \<Longrightarrow> in_op s c p"
    and a: "out s c = {} \<or> at_op t c = at_op s c"
  shows "aw_ok t"
proof (rule ok_by [OF s])
  have cb: "cbs t = cbs s" using o(5,6) by (simp add: cbs_def fun_eq_iff)
  have k: "core_ok s f" for f using aw_okD(3) [OF s] .
  show "cb_ok t f cb" if "cb \<in> set (cbs t f)" "own cb = c" for f cb
  proof -
    have "out s c \<noteq> {}" using that cb by (auto simp: out_def)
    then have "at_op t (own cb) = at_op s (own cb)" using a that(2) by simp
    moreover have "cb_ok s f cb" using k [of f] that(1) cb by (simp add: core_ok_def)
    ultimately show ?thesis using o(4) by (simp add: cb_ok_def)
  qed
  show "mover_ok t f" for f
  proof (cases "f = c")
    case True
    then have "pending t f = []" using pending_finished [OF s c(1)] o(6) by simp
    then show ?thesis by (simp add: mover_ok_def)
  next
    case False
    have "at_op t (own cb) = at_op s (own cb)" if p: "cb \<in> set (pending s f)" for cb
    proof (cases "own cb = c")
      case True
      then have "out s c \<noteq> {}" using p by (force simp: out_def cbs_def)
      then show ?thesis using a True by simp
    qed (use o(1) in \<open>simp add: at_op_def\<close>)
    then show ?thesis using aw_okD(4) [OF s, of f] o(3) [OF False] o(6) by (simp add: mover_ok_def)
  qed
  show "distinct (map own (cbs t f))" "word t f \<noteq> WCbs []" for f using k [of f] cb o(5) by (simp_all add: core_ok_def)
qed (use o c u in \<open>auto simp: cbs_def\<close>)

lemma set_pc_fields [simp]:
  "word (set_pc c p s) = word s" "pending (set_pc c p s) = pending s" "executor (set_pc c p s) = executor s"
  "is_shared (set_pc c p s) = is_shared s" "cnt (set_pc c p s) = cnt s" "job (set_pc c p s) = job s" "home (set_pc c p s) = home s"
  "pc (set_pc c p s) d = (if d = c then p else pc s d)" "cbs (set_pc c p s) = cbs s" "out (set_pc c p s) = out s"
  by (simp_all add: set_pc_def cbs_def out_def fun_eq_iff)

lemma out_cong: "word t = word s \<Longrightarrow> pending t = pending s \<Longrightarrow> out t = out s"
  by (simp add: out_def cbs_def fun_eq_iff)

lemma in_op_Go: "pc t c = Go \<Longrightarrow> \<not> in_op t c p"
  by (simp add: in_op_def)

lemma in_op_At: "pc t c = At op st \<Longrightarrow> in_op t c p \<longleftrightarrow> p = op" "pc t c = Queued e op \<Longrightarrow> in_op t c p \<longleftrightarrow> p = op"
  by (auto simp: in_op_def)

text \<open>The coroutine goes on by itself.\<close>

lemma ok_go:
  assumes s: "aw_ok s" and c: "in_op s c op" "out s c = {}" "executor s c \<noteq> None" "await_resume c op s' = Some t"
    and s': "s' = s\<lparr>cnt := (cnt s)(c := n)\<rparr>"
  shows "aw_ok t"
proof -
  have t: "t = set_pc c Go s'" using c(4) by (auto simp: await_resume_def split: awop.splits if_splits)
  have "out s' = out s" by (rule out_cong) (simp_all add: s')
  then have o: "out t c = {}" using c(2) t by simp
  show ?thesis
    by (rule ok_local [OF s, of c]) (use c(1-3) t s' o in \<open>auto simp: in_op_Go exec_ok_def in_op_def\<close>)
qed

lemma ok_submit:
  assumes s: "aw_ok s" and c: "pc s c = At op st" "out s c = {}" "Submit c op s' = Some t"
    and s': "s' = s\<lparr>cnt := (cnt s)(c := n), executor := (executor s)(c := x), job := (job s)(c := j)\<rparr>"
    and g: "\<And>e. x = Some e \<Longrightarrow> goes_to s c op e" "\<forall>f \<in> set (futs op). word s f = WResult"
  shows "aw_ok t"
proof -
  obtain e where e: "x = Some e" "t = set_pc c (Queued e op) s'" using c(3) s' by (auto simp: Submit_def split: option.splits)
  have "out s' = out s" by (rule out_cong) (simp_all add: s')
  moreover have "goes_to s' c op e = goes_to s c op e" by (simp add: goes_to_def s' split: awop.splits)
  ultimately have "coro_ok t c (Queued e op)"
    using c(2) e g s' by (simp add: goes_to_def split: awop.splits)
  then show ?thesis
    by (intro ok_local [OF s, of c]) (use c e s' in \<open>auto simp: exec_ok_def in_op_def\<close>)
qed

lemma cbs_user:
  assumes "aw_ok s" "cb \<in> set (cbs s f)"
  shows "\<exists>op. at_op s (own cb) = Some op \<and> in_op s (own cb) op \<and> f \<in> set (futs op)"
proof -
  have "cb_ok s f cb" using aw_okD(3) [OF assms(1), of f] assms(2) by (simp add: core_ok_def)
  then show ?thesis using cb_user at_op_in by blast
qed

text \<open>The coroutine moves within its awaiter.\<close>

lemma ok_stage:
  assumes s: "aw_ok s" and c: "pc s c = At op st" "at_ok t c op st'" "exec_ok t c"
    and t: "t = set_pc c (At op st') (s\<lparr>cnt := (cnt s)(c := n), executor := (executor s)(c := x), job := (job s)(c := j)\<rparr>)"
  shows "aw_ok t"
  by (rule ok_local [OF s, of c]) (use c t in \<open>auto simp: in_op_def at_op_def\<close>)

text \<open>The array of helpers is long enough, and no helper is in the lists of two cores.\<close>

lemma filter_take_less:
  assumes "i < length fs" "sh (fs ! i)" "i < j" "j \<le> length fs"
  shows "length (filter sh (take i fs)) < length (filter sh (take j fs))"
proof -
  have "take j fs = take i fs @ fs ! i # take (j - Suc i) (drop (Suc i) fs)"
    using assms id_take_nth_drop [of i "take j fs"] by (simp add: drop_take min_def)
  then show ?thesis using assms(2) by simp
qed

lemma helper_slots:
  assumes "op = AwMulti st dyn fs \<or> op = AwMultiOn e dyn fs" "i < length fs" "node sh op c i = CbHelper c k"
  shows "k < (if dyn then length fs else length (filter sh fs))"
    "j < length fs \<Longrightarrow> node sh op c j = CbHelper c k \<Longrightarrow> j = i"
proof -
  have i: "sh (fs ! i)" "k = (if dyn then i else length (filter sh (take i fs)))"
    using assms(1,3) by (auto simp: node_def split: if_splits)
  show "k < (if dyn then length fs else length (filter sh fs))"
    using filter_take_less [where sh = sh and j = "length fs", OF assms(2) i(1)] i(2) assms(2) by simp
  assume j: "j < length fs" "node sh op c j = CbHelper c k"
  have j': "sh (fs ! j)" "k = (if dyn then j else length (filter sh (take j fs)))"
    using assms(1) j(2) by (auto simp: node_def split: if_splits)
  show "j = i"
    using filter_take_less [where sh = sh and j = j, OF assms(2) i(1)] filter_take_less [where sh = sh and j = i, OF j(1) j'(1)] i(2) j'(2) assms(2) j(1)
    by (cases i j rule: linorder_cases) (auto split: if_splits)
qed

lemma SetCallback_True:
  assumes "SetCallback f cb s = (True, u)"
  shows "word s f \<noteq> WResult" "u = s\<lparr>word := word u\<rparr>" "\<exists>l. word u f = WCbs l \<and> l \<noteq> []" "\<And>g. g \<noteq> f \<Longrightarrow> word u g = word s g"
    "cbs u = (cbs s)(f := cb # cbs s f)"
  using assms by (auto simp: SetCallback_def cbs_def fun_eq_iff split: aword.splits if_splits)

lemma SetCallback_fields:
  "SetCallback f cb s = (b, u) \<Longrightarrow> executor u = executor s \<and> home u = home s \<and> cnt u = cnt s \<and> job u = job s \<and> pc u = pc s \<and> is_shared u = is_shared s"
  by (auto simp: SetCallback_def split: aword.splits if_splits)

lemma own_node [simp]: "own (node sh op c i) = c"
  by (auto simp: node_def split: awop.splits)

lemma attach_out:
  assumes "SetCallback f (node sh op c i) s = (True, u)"
  shows "out u c = insert f (out s c)" "\<And>d. d \<noteq> c \<Longrightarrow> out u d = out s d"
  using SetCallback_True(5) [OF assms] by (auto simp: out_def split: if_splits)

text \<open>No unique core has a callback already.\<close>

lemma SetCallback_False:
  assumes s: "aw_ok s" and c: "in_op s c op" "f \<in> set (futs op)" "f \<notin> out s c" and f: "SetCallback f cb s' = (False, u)"
    and s': "word s' = word s" "is_shared s' = is_shared s"
  shows "u = s' \<and> word s f = WResult"
proof -
  have False if l: "word s f = WCbs l" "\<not> is_shared s f" for l
  proof -
    have k: "core_ok s f" using aw_okD(3) [OF s] .
    then obtain cb where cb: "cb \<in> set (cbs s f)" using l(1) by (cases l) (auto simp: core_ok_def cbs_def)
    obtain op' where o: "in_op s (own cb) op'" "f \<in> set (futs op')" using cbs_user [OF s cb] by blast
    have "own cb \<noteq> c" using cb c(3) by (auto simp: out_def)
    then show False using users_okD(1) [OF s c(1) o(1) c(2) o(2)] l(2) by simp
  qed
  then show ?thesis using f s' by (auto simp: SetCallback_def split: aword.splits if_splits)
qed

text \<open>A core that is not empty is ready, for those that ask.\<close>

lemma looker_ready:
  assumes s: "aw_ok s" and c: "in_op s c op" "f \<in> set (futs op)" "out s c = {}" "\<And>q. \<not> compatible op q" and f: "\<not> Empty f s"
  shows "word s f = WResult"
proof (cases "word s f")
  case (WCbs l)
  have k: "core_ok s f" using aw_okD(3) [OF s] .
  then obtain cb where cb: "cb \<in> set (cbs s f)" using WCbs by (cases l) (auto simp: core_ok_def cbs_def)
  obtain op' where o: "in_op s (own cb) op'" "f \<in> set (futs op')" using cbs_user [OF s cb] by blast
  have "own cb \<noteq> c" using cb c(3) by (auto simp: out_def)
  then show ?thesis using users_okD(2) [OF s c(1) o(1) c(2) o(2)] c(4) by blast
qed (use f in \<open>auto simp: Empty_def\<close>)

text \<open>A callback is attached.\<close>

lemma ok_attach:
  assumes s: "aw_ok s" and c: "pc s c = At op st" "i < length (futs op)" "futs op ! i \<notin> out s c"
    and u: "SetCallback (futs op ! i) (node (is_shared s) op c i) (s\<lparr>executor := (executor s)(c := x), job := (job s)(c := j)\<rparr>) = (True, u)"
    and t: "t = set_pc c (At op st') u" and ok: "at_ok t c op st'" "exec_ok t c"
  shows "aw_ok t \<and> out t c = insert (futs op ! i) (out s c)"
proof -
  let ?f = "futs op ! i" and ?cb = "node (is_shared s) op c i" and ?s = "s\<lparr>executor := (executor s)(c := x), job := (job s)(c := j)\<rparr>"
  note U = SetCallback_True [OF u]
  have cs: "cbs ?s = cbs s" by (simp add: cbs_def fun_eq_iff)
  have ct: "cbs t = (cbs s)(?f := ?cb # cbs s ?f)" using U(5) t cs by simp
  have oc: "own ?cb = c" by (auto simp: node_def split: awop.splits)
  have fl: "pending t = pending s" "is_shared t = is_shared s" "cnt t = cnt s" "home t = home s" "executor t = (executor s)(c := x)"
    "job t = (job s)(c := j)"
    using arg_cong [OF U(2), of pending] arg_cong [OF U(2), of is_shared] arg_cong [OF U(2), of cnt] arg_cong [OF U(2), of home]
      arg_cong [OF U(2), of executor] arg_cong [OF U(2), of job] t by simp_all
  have p: "pc t = (pc s)(c := At op st')" using arg_cong [OF U(2), of pc] t by (simp add: fun_eq_iff)
  have k: "core_ok s g" for g using aw_okD(3) [OF s] .
  have ao: "at_op t d = at_op s d" for d using p c(1) by (simp add: at_op_def)
  have nr: "word s ?f \<noteq> WResult" using U(1) by simp
  have wt: "word t g = WResult \<longleftrightarrow> word s g = WResult" "word t g \<noteq> WCbs []" for g
    using U(3) U(4) [of g] nr k [of g] t by (cases "g = ?f"; auto simp: core_ok_def)+
  have "aw_ok t"
  proof (rule ok_by [OF s, of c])
    show "distinct (map own (cbs t g))" for g
      using ct oc c(3) k [of g] by (auto simp: core_ok_def out_def)
    show "cb_ok t g cb" if cb: "cb \<in> set (cbs t g)" "own cb = c" for g cb
    proof (cases "cb \<in> set (cbs s g)")
      case True
      then have "cb_ok s g cb" using k [of g] by (simp add: core_ok_def)
      then show ?thesis using ao fl by (simp add: cb_ok_def)
    next
      case False
      then have "g = ?f" "cb = ?cb" using cb(1) ct by (auto split: if_splits)
      then show ?thesis using c(1,2) ao fl oc by (auto simp: cb_ok_def at_op_def)
    qed
    show "mover_ok t g" for g
    proof (cases "g = c")
      case True
      then show ?thesis using pending_finished [OF s, of c] c(1) fl by (simp add: mover_ok_def)
    next
      case False
      then show ?thesis using aw_okD(4) [OF s, of g] fl ao by (simp add: mover_ok_def)
    qed
    show "cb \<in> set (cbs t g) \<longleftrightarrow> cb \<in> set (cbs s g)" if "own cb \<noteq> c" for g cb
      using that ct oc by auto
    show "in_op t c q \<Longrightarrow> in_op s c q" for q using c(1) p by (auto simp: in_op_def)
  qed (use fl p wt c(1) ok in auto)
  moreover have "out t c = insert ?f (out s c)" using ct oc by (auto simp: out_def)
  ultimately show ?thesis by blast
qed

text \<open>A core completes.\<close>

lemma ok_complete:
  assumes s: "aw_ok s" and p: "pc s f = Plain \<or> pc s f = Go \<or> (\<exists>e op. pc s f = Queued e op)" and t: "SetResult f (set_pc f Finished s) = Some t"
  shows "aw_ok t \<and> word t f = WResult \<and> pc t = (pc s)(f := Finished) \<and> executor t = executor s \<and> (\<forall>g. g \<noteq> f \<longrightarrow> word t g = word s g)"
proof -
  have nf: "pc s f \<noteq> Finished" "at_op s f = None" using p by (auto simp: at_op_def)
  have pe: "pending s f = []" using pending_finished [OF s] nf by simp
  have k: "core_ok s g" for g using aw_okD(3) [OF s] .
  have w: "word t f = WResult" "\<And>g. g \<noteq> f \<Longrightarrow> word t g = word s g" "\<And>g. g \<noteq> f \<Longrightarrow> pending t g = pending s g"
    "executor t = executor s" "is_shared t = is_shared s" "cnt t = cnt s" "job t = job s" "home t = home s" "pc t = (pc s)(f := Finished)"
    using t by (auto simp: SetResult_def fun_eq_iff split: aword.splits)
  have "cbs t g = cbs s g" for g
    using t pe by (cases "g = f") (auto simp: SetResult_def cbs_def split: aword.splits)
  then have cw: "cbs t = cbs s" by (simp add: fun_eq_iff)
  have nw: "word s f \<noteq> WResult" using k [of f] nf by (simp add: core_ok_def)
  have ou: "out t = out s" using cw by (simp add: out_def fun_eq_iff)
  have ao: "at_op t d = at_op s d" for d using w(9) nf(2) by (cases "d = f") (simp_all add: at_op_def)
  have io: "in_op t d q \<Longrightarrow> in_op s d q" for d q using w(9) by (cases "d = f") (auto simp: in_op_def)
  have os: "out s f = {}" using aw_okD(1) [OF s, of f] p by auto
  have "coro_ok t d (pc t d)" for d
  proof (cases "d = f")
    case False
    show ?thesis
    proof (rule coro_keep [OF aw_okD(1) [OF s]])
      show "word t g = WResult" if "word s g = WResult" for g using that w(1,2) by (cases "g = f") auto
      show "pc t g = Lazy" if "pc s g = Lazy" for g using that w(9) p by (cases "g = f") auto
    qed (use w ou False in auto)
  qed (use w(9) ou os in simp)
  moreover have "exec_ok t d" for d using aw_okD(2) [OF s, of d] w(4,9) by (cases "d = f") (auto simp: exec_ok_def)
  moreover have "core_ok t g" for g
  proof -
    have "cb_ok t g cb" if "cb \<in> set (cbs t g)" for cb
      using k [of g] that ao w(5) cw by (auto simp: core_ok_def cb_ok_def)
    then show ?thesis using k [of g] w cw by (cases "g = f") (auto simp: core_ok_def)
  qed
  moreover have "mover_ok t d" for d
  proof (cases "d = f")
    case True
    have "executor s f \<noteq> None" using aw_okD(2) [OF s, of f] p by (auto simp: exec_ok_def)
    then show ?thesis using w(4) True by (auto simp: mover_ok_def)
  next
    case False
    then show ?thesis using aw_okD(4) [OF s, of d] w(3,4) ao by (simp add: mover_ok_def)
  qed
  moreover have "op_ok t d" for d
  proof -
    have "pc s g = Lazy" if "pc t g = Lazy" for g using that w(9) by (simp split: if_splits)
    then show ?thesis using aw_okD(5) [OF s, of d] io w(5) by (auto simp: op_ok_def)
  qed
  moreover have "users_ok t"
    unfolding users_ok_def
  proof (intro allI impI, elim conjE)
    fix g d e p q
    assume "d \<noteq> e" "in_op t d p" "in_op t e q" "g \<in> set (futs p)" "g \<in> set (futs q)"
    then show "is_shared t g \<and> compatible p q" using users_okD [OF s io io, of d p e q g] w(5) by simp
  qed
  ultimately show ?thesis using w by (simp add: aw_ok_def)
qed

text \<open>An awaiter is made.\<close>

lemma begin_okD:
  assumes "begin_ok strict c op s" "f \<in> set (futs op)" "d \<noteq> c" "in_op s d p" "f \<in> set (futs p)"
  shows "is_shared s f \<and> (strict \<longrightarrow> compatible op p)"
proof -
  have "\<forall>d p. d \<noteq> c \<and> in_op s d p \<and> f \<in> set (futs p) \<longrightarrow> is_shared s f \<and> (strict \<longrightarrow> compatible op p)"
    using assms(1,2) unfolding begin_ok_def by (elim conjE) (drule bspec, assumption, elim conjE)
  then show ?thesis using assms(3-5) by simp
qed

lemma ok_begin:
  assumes s: "aw_ok s" and b: "begin_ok True c op s"
  shows "aw_ok (make_awaiter c op s)"
proof -
  let ?t = "make_awaiter c op s"
  have g: "pc s c = Go" "distinct (futs op)" "c \<notin> set (futs op)" using b by (simp_all add: begin_ok_def)
  have o: "out s c = {}" using aw_okD(1) [OF s, of c] g(1) by simp
  have cb: "cbs ?t = cbs s" by (simp add: make_awaiter_def cbs_def fun_eq_iff)
  then have ot: "out ?t c = {}" using o by (simp add: out_def)
  have k: "core_ok s f" for f using aw_okD(3) [OF s] .
  have f: "pc ?t = (pc s)(c := At op (first_stage op))" "executor ?t = executor s" "is_shared ?t = is_shared s" "word ?t = word s"
    "pending ?t = pending s" "home ?t c = executor s c"
    by (simp_all add: make_awaiter_def fun_eq_iff)
  show ?thesis
  proof (rule ok_by_gen [OF s, of c])
    show "coro_ok ?t c (pc ?t c)"
    proof -
      have "pc ?t f = Lazy" if "op = AwTask x f" for x f
        using b that g(3) f(1) by (auto simp: begin_ok_def)
      then have "at_ok ?t c op (first_stage op)"
        using ot f by (cases op) (auto simp: first_stage_def single_ok_def multi_ok_def rest_done_def make_awaiter_def)
      then show ?thesis using f(1) by simp
    qed
    show "exec_ok ?t c" using aw_okD(2) [OF s, of c] g(1) f by (simp add: exec_ok_def)
    show "op_ok ?t c" using b f by (auto simp: op_ok_def begin_ok_def in_op_def)
    have cp: "compatible q p = compatible p q" for p q by (cases p; cases q) (auto simp: compatible_def)
    show "users_ok ?t"
      unfolding users_ok_def
    proof (intro allI impI, elim conjE)
      fix h d e p q
      assume a: "d \<noteq> e" "in_op ?t d p" "in_op ?t e q" "h \<in> set (futs p)" "h \<in> set (futs q)"
      have i: "in_op ?t x r \<Longrightarrow> (x = c \<and> r = op) \<or> x \<noteq> c \<and> in_op s x r" for x r
        using f(1) by (cases "x = c") (auto simp: in_op_def)
      consider "d = c" "p = op" "e \<noteq> c" "in_op s e q" | "e = c" "q = op" "d \<noteq> c" "in_op s d p" | "in_op s d p" "in_op s e q"
        using i [OF a(2)] i [OF a(3)] a(1) by blast
      then show "is_shared ?t h \<and> compatible p q"
      proof cases
        case 1
        then show ?thesis using begin_okD [OF b, of h e q] a(4,5) f(3) by simp
      next
        case 2
        then have "is_shared s h \<and> compatible op p" using begin_okD [OF b, of h d p] a(4,5) by simp
        then show ?thesis using cp 2 f(3) by simp
      next
        case 3
        then show ?thesis using users_okD [OF s 3 a(4,5)] a(1) f(3) by simp
      qed
    qed
    show "mover_ok ?t h" for h
    proof -
      have "at_op ?t (own cb) = at_op s (own cb)" if "cb \<in> set (pending s h)" for cb
      proof -
        have "own cb \<noteq> c" using that o by (auto simp: out_def cbs_def)
        then show ?thesis using f(1) by (simp add: at_op_def)
      qed
      then show ?thesis using aw_okD(4) [OF s, of h] f by (simp add: mover_ok_def)
    qed
    show "cb_ok ?t h cb" if "cb \<in> set (cbs ?t h)" "own cb = c" for h cb
      using that o cb by (auto simp: out_def)
    show "distinct (map own (cbs ?t h))" "word ?t h \<noteq> WCbs []" for h using k [of h] cb f by (simp_all add: core_ok_def)
  qed (use f cb g(1) in \<open>auto simp: make_awaiter_def\<close>)
qed

subsection \<open>Turns of the awaiters\<close>

lemma out_fields [simp]:
  "out (s\<lparr>cnt := n\<rparr>) = out s" "out (s\<lparr>executor := x\<rparr>) = out s" "out (s\<lparr>job := j\<rparr>) = out s"
  by (simp_all add: out_def cbs_def fun_eq_iff)

text \<open>A turn is defined, keeps the invariant, and goes on only when what is awaited is there.\<close>

definition turn_ok :: "awst option \<Rightarrow> nat \<Rightarrow> awop \<Rightarrow> bool" where
  "turn_ok r c op \<longleftrightarrow> (\<exists>t. r = Some t \<and> aw_ok t \<and> (pc t c = Go \<longrightarrow> (\<forall>f \<in> set (futs op). word t f = WResult)))"

lemma turn_go:
  assumes s: "aw_ok s" and c: "pc s c = At op st" "out s c = {}" "\<And>g t. op \<noteq> AwTask g t" and d: "\<forall>f \<in> set (futs op). word s f = WResult"
  shows "turn_ok (await_resume c op (s\<lparr>cnt := (cnt s)(c := n)\<rparr>)) c op"
proof -
  have e: "executor s c \<noteq> None" using aw_okD(2) [OF s, of c] c by (auto simp: exec_ok_def)
  have r: "await_resume c op (s\<lparr>cnt := (cnt s)(c := n)\<rparr>) = Some (set_pc c Go (s\<lparr>cnt := (cnt s)(c := n)\<rparr>))"
    using c(3) d by (cases op) (auto simp: await_resume_def)
  have "aw_ok (set_pc c Go (s\<lparr>cnt := (cnt s)(c := n)\<rparr>))"
    by (rule ok_go [OF s _ c(2) e r refl]) (use c(1) in \<open>auto simp: in_op_def\<close>)
  then show ?thesis using r d by (simp add: turn_ok_def)
qed

lemma turn_go0:
  assumes "aw_ok s" "pc s c = At op st" "out s c = {}" "\<And>g t. op \<noteq> AwTask g t" "\<forall>f \<in> set (futs op). word s f = WResult"
  shows "turn_ok (await_resume c op s) c op"
  using turn_go [OF assms, of "cnt s c"] by simp

lemma turn_stage:
  assumes "aw_ok s" "pc s c = At op st" "at_ok t c op st'" "exec_ok t c"
    and "t = set_pc c (At op st') (s\<lparr>cnt := (cnt s)(c := n), executor := (executor s)(c := x), job := (job s)(c := j)\<rparr>)"
  shows "turn_ok (Some t) c op"
  using ok_stage [OF assms] assms(5) by (simp add: turn_ok_def)

lemma turn_submit:
  assumes s: "aw_ok s" and c: "pc s c = At op st" "out s c = {}"
    and s': "s' = s\<lparr>cnt := (cnt s)(c := n), executor := (executor s)(c := Some e), job := (job s)(c := j)\<rparr>"
    and g: "goes_to s c op e" "\<forall>f \<in> set (futs op). word s f = WResult"
  shows "turn_ok (Submit c op s') c op"
proof -
  have r: "Submit c op s' = Some (set_pc c (Queued e op) s')" by (simp add: Submit_def s')
  have "aw_ok (set_pc c (Queued e op) s')" by (rule ok_submit [OF s c r s']) (use g in auto)
  then show ?thesis using r by (simp add: turn_ok_def)
qed

lemma node_single: "op = AwAwait g f \<or> op = AwSticky f \<or> op = AwOn e f \<Longrightarrow> futs op = [f]"
  by auto

lemma turn_single:
  assumes s: "aw_ok s" and c: "pc s c = At op st" "st \<noteq> SSuspended" and op: "op = AwAwait g f \<or> op = AwSticky f"
  shows "turn_ok (AwaitSingleAwaiter c op f st s) c op"
proof -
  have a: "at_ok s c op st" using aw_okD(1) [OF s, of c] c(1) by simp
  then have st: "st = SReady \<or> st = SSusp" "out s c = {}" using op c(2) by (auto simp: single_ok_def)
  have f: "futs op = [f]" "\<And>g t. op \<noteq> AwTask g t" "\<And>q. \<not> compatible op q" using op by (auto simp: compatible_def)
  have i: "in_op s c op" using c(1) by (simp add: in_op_def)
  have ex: "executor s c \<noteq> None" using aw_okD(2) [OF s, of c] c(1) f(2) by (simp add: exec_ok_def)
  have h: "op = AwSticky f \<Longrightarrow> executor s c = home s c" using a by auto
  have same: "s = s\<lparr>cnt := (cnt s)(c := cnt s c), executor := (executor s)(c := executor s c), job := (job s)(c := job s c)\<rparr>" by simp
  show ?thesis
  proof (cases "st = SReady")
    case True
    show ?thesis
    proof (cases "Empty f s")
      case False
      have "word s f = WResult" by (rule looker_ready [OF s i _ st(2) f(3) False]) (simp add: f(1))
      then show ?thesis using turn_go0 [OF s c(1) st(2) f(2)] f(1) True False by (simp add: AwaitSingleAwaiter_def)
    next
      case E: True
      have "turn_ok (Some (set_pc c (At op SSusp) s)) c op"
      proof (rule turn_stage [OF s c(1)])
        show "at_ok (set_pc c (At op SSusp) s) c op SSusp" using st(2) op h by (auto simp: single_ok_def)
        show "exec_ok (set_pc c (At op SSusp) s) c" using ex by (simp add: exec_ok_def)
        show "set_pc c (At op SSusp) s = set_pc c (At op SSusp) (s\<lparr>cnt := (cnt s)(c := cnt s c), executor := (executor s)(c := executor s c), job := (job s)(c := job s c)\<rparr>)"
          by simp
      qed
      then show ?thesis using True E by (simp add: AwaitSingleAwaiter_def)
    qed
  next
    case False
    then have S: "st = SSusp" using st(1) by simp
    obtain ok u where u: "SetCallback f (node (is_shared s) op c 0) s = (ok, u)" by (cases "SetCallback f (node (is_shared s) op c 0) s")
    show ?thesis
    proof (cases ok)
      case True
      let ?t = "set_pc c (At op SSuspended) u"
      have fl: "executor u = executor s" "home u = home s" using SetCallback_fields [OF u] by simp_all
      have "out ?t c = {f}" using attach_out(1) [of f _ op c 0 s u] u True st(2) by simp
      then have "at_ok ?t c op SSuspended" using op h fl by (auto simp: single_ok_def)
      moreover have "exec_ok ?t c" using ex fl by (simp add: exec_ok_def)
      ultimately have "aw_ok ?t"
        using ok_attach [OF s c(1), where i = 0 and x = "executor s c" and j = "job s c" and u = u and t = ?t and st' = SSuspended] u True f(1) st(2) by simp
      then show ?thesis using u True S by (simp add: AwaitSingleAwaiter_def turn_ok_def)
    next
      case False
      have w: "u = s \<and> word s f = WResult"
        by (rule SetCallback_False [OF s i, of f]) (use u False f(1) st(2) in auto)
      then show ?thesis using turn_go0 [OF s c(1) st(2) f(2)] f(1) u False S by (simp add: AwaitSingleAwaiter_def)
    qed
  qed
qed

lemma turn_on:
  assumes s: "aw_ok s" and c: "pc s c = At op st" "st \<noteq> SSuspended" and op: "op = AwOn e f"
  shows "turn_ok (AwaitOnAwaiter c op e f st s) c op"
proof -
  have a: "at_ok s c op st" using aw_okD(1) [OF s, of c] c(1) by simp
  then have st: "st = SSusp" "out s c = {}" "cnt s c = 1" using op c(2) by (auto simp: single_ok_def)
  have i: "in_op s c op" using c(1) by (simp add: in_op_def)
  let ?s = "s\<lparr>executor := (executor s)(c := Some e), job := (job s)(c := True)\<rparr>"
  obtain ok u where u: "SetCallback f (node (is_shared s) op c 0) ?s = (ok, u)" by (cases "SetCallback f (node (is_shared s) op c 0) ?s")
  show ?thesis
  proof (cases ok)
    case True
    let ?t = "set_pc c (At op SSuspended) u"
    have fl: "executor u c = Some e" "job u c" "cnt u c = 1" using SetCallback_fields [OF u] st(3) by simp_all
    have "out ?t c = {f}" using attach_out(1) [of f _ op c 0 ?s u] u True st(2) by simp
    then have "at_ok ?t c op SSuspended" using op fl by (auto simp: single_ok_def)
    moreover have "exec_ok ?t c" using fl by (simp add: exec_ok_def)
    ultimately have "aw_ok ?t"
      using ok_attach [OF s c(1), where i = 0 and x = "Some e" and j = True and u = u and t = ?t and st' = SSuspended] u True op st(2) by simp
    then show ?thesis using u True st(1) by (simp add: AwaitOnAwaiter_def turn_ok_def)
  next
    case False
    have w: "u = ?s \<and> word s f = WResult"
      by (rule SetCallback_False [OF s i, of f]) (use u False op st(2) in auto)
    have "turn_ok (Submit c op ?s) c op"
      by (rule turn_submit [OF s c(1) st(2), where n = "cnt s c" and j = True and e = e]) (use op w in \<open>auto simp: goes_to_def\<close>)
    then show ?thesis using u w False st(1) by (simp add: AwaitOnAwaiter_def)
  qed
qed

text \<open>The loops that attach the callbacks, and what follows.\<close>

lemma multi_fs: "op = AwMulti sticky dyn fs \<or> op = AwMultiOn e dyn fs \<Longrightarrow> futs op = fs"
  by auto

lemma multi_at:
  assumes "at_ok s c op st" "op = AwMulti sticky dyn fs \<or> op = AwMultiOn e dyn fs"
  shows "multi_ok s c fs st"
  using assms by auto

text \<open>What else the invariant says in these stages.\<close>

definition multi_more :: "awst \<Rightarrow> nat \<Rightarrow> awop \<Rightarrow> stage \<Rightarrow> bool" where
  "multi_more s c op st \<longleftrightarrow>
     (case op of AwMulti sticky dyn fs \<Rightarrow> sticky \<longrightarrow> executor s c = home s c
      | AwMultiOn e dyn fs \<Rightarrow> st \<noteq> SReady \<and> (st = SCount \<or> st = SSuspended \<longrightarrow> executor s c = Some e) | _ \<Rightarrow> False)"

lemma at_multi: "op = AwMulti sticky dyn fs \<or> op = AwMultiOn e dyn fs \<Longrightarrow> at_ok s c op st \<longleftrightarrow> multi_ok s c fs st \<and> multi_more s c op st"
  by (auto simp: multi_more_def)

lemma multi_finite: "multi_ok s c fs st \<Longrightarrow> finite (out s c)"
  unfolding multi_ok_def using finite_subset by blast

lemma turn_SetCallbacks:
  assumes s: "aw_ok s" and c: "pc s c = At op (SSet i w)" and op: "op = AwMulti sticky dyn fs \<or> op = AwMultiOn e dyn fs"
  shows "turn_ok (Some (SetCallbacks_turn c op i w s)) c op"
proof -
  have a: "at_ok s c op (SSet i w)" using aw_okD(1) [OF s, of c] c by simp
  then have m: "multi_ok s c fs (SSet i w)" and mo: "multi_more s c op (SSet i w)" using at_multi [OF op] by auto
  have f: "futs op = fs" by (rule multi_fs [OF op])
  have ds: "distinct fs" using aw_okD(5) [OF s, of c] c f by (auto simp: op_ok_def in_op_def)
  have i: "in_op s c op" using c by (simp add: in_op_def)
  have ex: "executor s c \<noteq> None" using aw_okD(2) [OF s, of c] c by (auto simp: exec_ok_def)
  have stage: "turn_ok (Some (set_pc c (At op st') s)) c op" if "multi_ok s c fs st'" "multi_more s c op st'" for st'
  proof (rule turn_stage [OF s c])
    have "multi_ok (set_pc c (At op st') s) c fs st' \<and> multi_more (set_pc c (At op st') s) c op st'"
      using that by (simp add: multi_ok_def rest_done_def multi_more_def split: stage.splits awop.splits)
    then show "at_ok (set_pc c (At op st') s) c op st'" using at_multi [OF op] by blast
    show "exec_ok (set_pc c (At op st') s) c" using ex by (simp add: exec_ok_def)
    show "set_pc c (At op st') s = set_pc c (At op st') (s\<lparr>cnt := (cnt s)(c := cnt s c), executor := (executor s)(c := executor s c), job := (job s)(c := job s c)\<rparr>)"
      by simp
  qed
  have mo': "multi_more s c op (SSub w)" "multi_more s c op (SSet j v)" for j v
    using mo by (auto simp: multi_more_def split: awop.splits)
  show ?thesis
  proof (cases "i = length fs")
    case True
    then have "multi_ok s c fs (SSub w)" using m by (simp add: multi_ok_def)
    then show ?thesis using stage [OF _ mo'(1)] True f by (simp add: SetCallbacks_turn_def)
  next
    case False
    then have il: "i < length fs" using m by (simp add: multi_ok_def)
    let ?f = "fs ! i"
    have tk: "set (take (Suc i) fs) = insert ?f (set (take i fs))" using il by (simp add: take_Suc_conv_app_nth)
    have fn: "?f \<notin> out s c"
    proof -
      have "?f \<notin> set (take i fs)" using ds il by (metis distinct_take take_Suc_conv_app_nth distinct_append disjoint_iff list.set_intros(1))
      then show ?thesis using m by (auto simp: multi_ok_def)
    qed
    obtain ok u where u: "SetCallback ?f (node (is_shared s) op c i) s = (ok, u)" by (cases "SetCallback ?f (node (is_shared s) op c i) s")
    show ?thesis
    proof (cases ok)
      case True
      let ?st = "SSet (Suc i) (Suc w)"
      let ?t = "set_pc c (At op ?st) u"
      have fl: "executor u = executor s" "home u = home s" "cnt u = cnt s" using SetCallback_fields [OF u] by simp_all
      have ou: "out ?t c = insert ?f (out s c)" using attach_out(1) [of ?f _ op c i s u] u True by simp
      have ca: "card (out ?t c) = Suc (card (out s c))" using ou fn multi_finite [OF m] by simp
      have wr: "word ?t g = WResult" if "word s g = WResult" for g
        using SetCallback_True(1,4) [of ?f _ s u] u True that by (cases "g = ?f") auto
      have "multi_ok ?t c fs ?st"
        using m ou ca tk il wr fl by (auto simp: multi_ok_def rest_done_def)
      moreover have "multi_more ?t c op ?st" using mo' fl by (simp add: multi_more_def split: awop.splits)
      ultimately have "at_ok ?t c op ?st" using at_multi [OF op] by blast
      moreover have "exec_ok ?t c" using ex fl by (simp add: exec_ok_def)
      ultimately have "aw_ok ?t"
        using ok_attach [OF s c, where i = i and x = "executor s c" and j = "job s c" and u = u and t = ?t and st' = ?st] u True f il fn by simp
      then show ?thesis using u True f False by (simp add: SetCallbacks_turn_def turn_ok_def)
    next
      case no: False
      have w: "u = s \<and> word s ?f = WResult"
        by (rule SetCallback_False [OF s i, of ?f]) (use u no f il fn in auto)
      have "multi_ok s c fs (SSet (Suc i) w)" using m w tk il by (auto simp: multi_ok_def rest_done_def)
      then show ?thesis using stage [OF _ mo'(2)] u w no f False by (simp add: SetCallbacks_turn_def)
    qed
  qed
qed

lemma multi_updates:
  "multi_ok (set_pc c p s) c fs st = multi_ok s c fs st" "multi_more (set_pc c p s) c op st = multi_more s c op st"
  by (simp_all add: multi_ok_def rest_done_def multi_more_def split: stage.splits awop.splits)

text \<open>A stage of the multiple awaiters that changes the counter, the pointer and the executor only.\<close>

lemma turn_multi_stage:
  assumes s: "aw_ok s" "pc s c = At op st" and op: "op = AwMulti sticky dyn fs \<or> op = AwMultiOn e dyn fs"
    and t: "t = set_pc c (At op st') (s\<lparr>cnt := (cnt s)(c := n), executor := (executor s)(c := x), job := (job s)(c := j)\<rparr>)"
    and m: "multi_ok t c fs st'" "multi_more t c op st'" "x \<noteq> None"
  shows "turn_ok (Some t) c op"
proof (rule turn_stage [OF s _ _ t])
  show "at_ok t c op st'" using at_multi [OF op] m by blast
  show "exec_ok t c" using m(3) t by (auto simp: exec_ok_def)
qed

lemma turn_multi_done:
  assumes "multi_ok s c fs st" "st = SReady \<or> st = SSusp \<or> st = SCount" "cnt s c = 1"
  shows "out s c = {} \<and> (\<forall>f \<in> set fs. word s f = WResult)"
proof -
  have "card (out s c) = 0" using assms by (auto simp: multi_ok_def)
  then have "out s c = {}" using multi_finite [OF assms(1)] by simp
  then show ?thesis using assms(1,2) by (auto simp: multi_ok_def rest_done_def)
qed

lemma turn_multi_end:
  assumes s: "aw_ok s" and c: "pc s c = At op (SSub w)" and op: "op = AwMulti sticky dyn fs \<or> op = AwMultiOn e dyn fs"
  shows "turn_ok (Some (SetCallbacks_end c op w s)) c op"
proof -
  have a: "at_ok s c op (SSub w)" using aw_okD(1) [OF s, of c] c by simp
  then have m: "multi_ok s c fs (SSub w)" and mo: "multi_more s c op (SSub w)" using at_multi [OF op] by auto
  have ex: "executor s c \<noteq> None" using aw_okD(2) [OF s, of c] c by (auto simp: exec_ok_def)
  let ?st = "case op of AwMulti st dyn fs \<Rightarrow> SReady | _ \<Rightarrow> SSusp" and ?n = "cnt s c - (length (futs op) - w)"
  show ?thesis
  proof (rule turn_multi_stage [OF s c op, where st' = ?st and n = ?n and x = "executor s c" and j = "job s c"])
    have n: "?n = 1 + card (out s c)" using m multi_fs [OF op] by (auto simp: multi_ok_def)
    have "?st = SReady \<or> ?st = SSusp" using op by auto
    then show "multi_ok (SetCallbacks_end c op w s) c fs ?st"
      using m n by (auto simp: multi_ok_def rest_done_def SetCallbacks_end_def)
    show "multi_more (SetCallbacks_end c op w s) c op ?st"
      using mo op by (auto simp: multi_more_def SetCallbacks_end_def)
  qed (use ex in \<open>auto simp: SetCallbacks_end_def\<close>)
qed

lemma turn_multi:
  assumes s: "aw_ok s" and c: "pc s c = At op st" "st \<noteq> SSuspended" and op: "op = AwMulti sticky dyn fs"
  shows "turn_ok (MultiAwaitAwaiter c op st s) c op"
proof -
  have op': "op = AwMulti sticky dyn fs \<or> op = AwMultiOn undefined dyn fs" using op by simp
  have a: "at_ok s c op st" using aw_okD(1) [OF s, of c] c(1) by simp
  then have m: "multi_ok s c fs st" and mo: "sticky \<longrightarrow> executor s c = home s c" using op by auto
  have ex: "executor s c \<noteq> None" using aw_okD(2) [OF s, of c] c(1) op by (auto simp: exec_ok_def)
  have nt: "\<And>g t. op \<noteq> AwTask g t" using op by simp
  show ?thesis
  proof (cases st)
    case (SSet i w)
    then show ?thesis using turn_SetCallbacks [OF s _ op'] c(1) by (simp add: MultiAwaitAwaiter_def)
  next
    case (SSub w)
    then show ?thesis using turn_multi_end [OF s _ op'] c(1) by (simp add: MultiAwaitAwaiter_def)
  next
    case SReady
    show ?thesis
    proof (cases "cnt s c = 1")
      case True
      note d = turn_multi_done [OF m _ True]
      then show ?thesis using turn_go0 [OF s c(1) _ nt] SReady True op by (simp add: MultiAwaitAwaiter_def)
    next
      case False
      have "turn_ok (Some (set_pc c (At op SSusp) s)) c op"
      proof (rule turn_multi_stage [OF s c(1) op'])
        show "set_pc c (At op SSusp) s = set_pc c (At op SSusp) (s\<lparr>cnt := (cnt s)(c := cnt s c), executor := (executor s)(c := executor s c), job := (job s)(c := job s c)\<rparr>)"
          by simp
      qed (use m mo ex SReady op in \<open>auto simp: multi_ok_def multi_more_def rest_done_def\<close>)
      then show ?thesis using SReady False by (simp add: MultiAwaitAwaiter_def)
    qed
  next
    case SSusp
    have "turn_ok (Some (set_pc c (At op SCount) (s\<lparr>job := (job s)(c := True)\<rparr>))) c op"
    proof (rule turn_multi_stage [OF s c(1) op'])
      show "set_pc c (At op SCount) (s\<lparr>job := (job s)(c := True)\<rparr>) =
            set_pc c (At op SCount) (s\<lparr>cnt := (cnt s)(c := cnt s c), executor := (executor s)(c := executor s c), job := (job s)(c := True)\<rparr>)"
        by simp
    qed (use m mo ex SSusp op in \<open>auto simp: multi_ok_def multi_more_def rest_done_def\<close>)
    then show ?thesis using SSusp by (simp add: MultiAwaitAwaiter_def)
  next
    case SCount
    show ?thesis
    proof (cases "cnt s c = 1")
      case True
      note d = turn_multi_done [OF m _ True]
      then show ?thesis using turn_go [OF s c(1) _ nt, of "cnt s c - 1"] SCount True op by (simp add: MultiAwaitAwaiter_def SubEqual_def)
    next
      case False
      have "turn_ok (Some (set_pc c (At op SSuspended) (s\<lparr>cnt := (cnt s)(c := cnt s c - 1)\<rparr>))) c op"
      proof (rule turn_multi_stage [OF s c(1) op'])
        show "set_pc c (At op SSuspended) (s\<lparr>cnt := (cnt s)(c := cnt s c - 1)\<rparr>) =
              set_pc c (At op SSuspended) (s\<lparr>cnt := (cnt s)(c := cnt s c - 1), executor := (executor s)(c := executor s c), job := (job s)(c := job s c)\<rparr>)"
          by simp
      qed (use m mo ex SCount op False in \<open>auto simp: multi_ok_def multi_more_def rest_done_def\<close>)
      then show ?thesis using SCount False by (simp add: MultiAwaitAwaiter_def SubEqual_def)
    qed
  qed (use c in simp)
qed

lemma turn_multi_on:
  assumes s: "aw_ok s" and c: "pc s c = At op st" "st \<noteq> SSuspended" and op: "op = AwMultiOn e dyn fs"
  shows "turn_ok (MultiAwaitOnAwaiter c op e st s) c op"
proof -
  have op': "op = AwMulti undefined dyn fs \<or> op = AwMultiOn e dyn fs" using op by simp
  have a: "at_ok s c op st" using aw_okD(1) [OF s, of c] c(1) by simp
  then have m: "multi_ok s c fs st" and mo: "st \<noteq> SReady" "st = SCount \<longrightarrow> executor s c = Some e" using op by auto
  show ?thesis
  proof (cases st)
    case (SSet i w)
    then show ?thesis using turn_SetCallbacks [OF s _ op'] c(1) by (simp add: MultiAwaitOnAwaiter_def)
  next
    case (SSub w)
    then show ?thesis using turn_multi_end [OF s _ op'] c(1) by (simp add: MultiAwaitOnAwaiter_def)
  next
    case SSusp
    have "turn_ok (Some (set_pc c (At op SCount) (s\<lparr>executor := (executor s)(c := Some e), job := (job s)(c := True)\<rparr>))) c op"
    proof (rule turn_multi_stage [OF s c(1) op'])
      show "set_pc c (At op SCount) (s\<lparr>executor := (executor s)(c := Some e), job := (job s)(c := True)\<rparr>) =
            set_pc c (At op SCount) (s\<lparr>cnt := (cnt s)(c := cnt s c), executor := (executor s)(c := Some e), job := (job s)(c := True)\<rparr>)"
        by simp
    qed (use m SSusp op in \<open>auto simp: multi_ok_def multi_more_def rest_done_def\<close>)
    then show ?thesis using SSusp by (simp add: MultiAwaitOnAwaiter_def)
  next
    case SCount
    then have e: "executor s c = Some e" using mo by simp
    let ?s = "s\<lparr>cnt := (cnt s)(c := cnt s c - 1)\<rparr>"
    have se: "?s = s\<lparr>cnt := (cnt s)(c := cnt s c - 1), executor := (executor s)(c := Some e), job := (job s)(c := job s c)\<rparr>"
      using fun_upd_triv [of "executor s" c] e by simp
    show ?thesis
    proof (cases "cnt s c = 1")
      case True
      note d = turn_multi_done [OF m _ True]
      have "turn_ok (Submit c op ?s) c op"
        by (rule turn_submit [OF s c(1) _ se]) (use d SCount op in \<open>auto simp: goes_to_def\<close>)
      then show ?thesis using SCount True by (simp add: MultiAwaitOnAwaiter_def SubEqual_def)
    next
      case False
      have "turn_ok (Some (set_pc c (At op SSuspended) ?s)) c op"
      proof (rule turn_multi_stage [OF s c(1) op'])
        show "set_pc c (At op SSuspended) ?s =
              set_pc c (At op SSuspended) (s\<lparr>cnt := (cnt s)(c := cnt s c - 1), executor := (executor s)(c := executor s c), job := (job s)(c := job s c)\<rparr>)"
          by simp
      qed (use m e SCount op False in \<open>auto simp: multi_ok_def multi_more_def rest_done_def\<close>)
      then show ?thesis using SCount False by (simp add: MultiAwaitOnAwaiter_def SubEqual_def)
    qed
  qed (use c mo in simp_all)
qed

lemma turn_yield:
  assumes s: "aw_ok s" and c: "pc s c = At AwYield st"
  shows "turn_ok (if st = SSusp then Submit c AwYield s else None) c AwYield"
proof -
  have a: "st = SSusp" "out s c = {}" "executor s c = home s c" using aw_okD(1) [OF s, of c] c by simp_all
  obtain e where e: "executor s c = Some e" using aw_okD(2) [OF s, of c] c by (auto simp: exec_ok_def)
  have "turn_ok (Submit c AwYield s) c AwYield"
    by (rule turn_submit [OF s c a(2), where n = "cnt s c" and e = e and j = "job s c"])
      (use a e fun_upd_triv [of "executor s" c] in \<open>simp_all add: goes_to_def\<close>)
  then show ?thesis using a(1) by simp
qed

lemma turn_switch:
  assumes s: "aw_ok s" and c: "pc s c = At (AwSwitch e) st"
  shows "turn_ok (if st = SSusp then Submit c (AwSwitch e) (s\<lparr>executor := (executor s)(c := Some e)\<rparr>) else None) c (AwSwitch e)"
proof -
  have a: "st = SSusp" "out s c = {}" using aw_okD(1) [OF s, of c] c by simp_all
  have "turn_ok (Submit c (AwSwitch e) (s\<lparr>executor := (executor s)(c := Some e)\<rparr>)) c (AwSwitch e)"
    by (rule turn_submit [OF s c a(2), where n = "cnt s c" and e = e and j = "job s c"]) (simp_all add: goes_to_def)
  then show ?thesis using a(1) by simp
qed

subsection \<open>Callbacks\<close>

lemma mover_compatible: "mover p \<Longrightarrow> mover q \<Longrightarrow> \<not> compatible p q"
  by (cases p; cases q) (simp_all add: mover_def compatible_def)

text \<open>The callback of the coroutine \<open>c\<close> in the core \<open>f\<close> is called.\<close>

lemma ok_called:
  assumes s: "aw_ok s" and p: "pending s f = cb # rest" "own cb = c" "at_op s c = Some op"
    and t: "word t = word s" "pending t = (pending s)(f := rest)" "is_shared t = is_shared s"
      "\<And>d. d \<noteq> c \<Longrightarrow> pc t d = pc s d" "\<And>d. d \<noteq> c \<Longrightarrow> cnt t d = cnt s d \<and> job t d = job s d \<and> home t d = home s d"
      "\<And>d. d \<noteq> c \<Longrightarrow> d \<noteq> f \<Longrightarrow> executor t d = executor s d" "executor t f = executor s f \<or> mover op"
    and c: "(\<exists>st. pc t c = At op st) \<or> pc t c = Go \<or> (\<exists>e. pc t c = Queued e op)" "coro_ok t c (pc t c)" "exec_ok t c"
  shows "aw_ok t"
proof -
  have k: "core_ok s g" for g using aw_okD(3) [OF s] .
  have cin: "cb \<in> set (cbs s f)" using p(1) by (simp add: cbs_def)
  have fu: "f \<in> set (futs op)" using cbs_user [OF s cin] p(2,3) by auto
  have wf: "word s f = WResult" "pc s f = Finished" using k [of f] p(1) by (auto simp: core_ok_def)
  have cs: "cbs s f = cb # rest" using p(1) wf(1) by (simp add: cbs_def)
  have ct: "cbs t = (cbs s)(f := rest)" using t(1,2) wf(1) by (auto simp: cbs_def fun_eq_iff)
  have "c \<notin> own ` set rest" using k [of f] cs p(2) by (auto simp: core_ok_def)
  then have nr: "own cb' \<noteq> c" if "cb' \<in> set rest" for cb' using that by (metis imageI)
  have cA: "\<exists>st. pc s c = At op st" using p(3) by (auto simp: at_op_def split: cpc.splits)
  have cf: "c \<noteq> f" using cA wf(2) by auto
  have io: "in_op s c op" using at_op_in [OF p(3)] .
  show ?thesis
  proof (rule ok_by [OF s, of c])
    show "cb_ok t g cb'" if b: "cb' \<in> set (cbs t g)" "own cb' = c" for g cb'
    proof -
      have "out t c \<noteq> {}" using b by (auto simp: out_def)
      then have "\<exists>st. pc t c = At op st" using c(1,2) by auto
      then have "at_op t c = at_op s c" using p(3) by (auto simp: at_op_def)
      moreover have "g \<noteq> f" using b ct nr [of cb'] by auto
      then have "cb_ok s g cb'" using b(1) ct k [of g] by (simp add: core_ok_def)
      ultimately show ?thesis using b(2) t(3) by (simp add: cb_ok_def)
    qed
    show "mover_ok t g" for g
    proof (cases "g = f")
      case False
      have "at_op t (own cb') = at_op s (own cb') \<or> at_op t (own cb') = None" for cb'
        using c(1) p(3) t(4) [of "own cb'"] by (cases "own cb' = c") (auto simp: at_op_def)
      moreover have "pending s c = []" using pending_finished [OF s, of c] cA by auto
      ultimately show ?thesis using aw_okD(4) [OF s, of g] t(2) t(6) [of g] False
        by (cases "g = c") (auto simp: mover_ok_def, metis option.simps(3))
    next
      case True
      have ao: "at_op t (own cb') = at_op s (own cb')" if "cb' \<in> set rest" for cb'
        using t(4) [OF nr [OF that]] by (simp add: at_op_def)
      show ?thesis
      proof (cases "mover op")
        case False
        then have "executor t f = executor s f" using t(7) by simp
        then show ?thesis using aw_okD(4) [OF s, of f] True t(2) p(1) ao by (simp add: mover_ok_def)
      next
        case mo: True
        have "\<not> mover q" if b: "cb' \<in> set rest" "at_op s (own cb') = Some q" for cb' q
        proof -
          have "cb' \<in> set (cbs s f)" using b(1) cs by simp
          then have "f \<in> set (futs q)" using cbs_user [OF s] b(2) by fastforce
          then have "compatible op q" using users_okD(2) [OF s io at_op_in [OF b(2)] fu _ nr [OF b(1)]] by simp
          then show ?thesis using mover_compatible [OF mo] by blast
        qed
        then show ?thesis using True t(2) ao by (simp add: mover_ok_def)
      qed
    qed
    show "distinct (map own (cbs t g))" for g using ct k [of g] cs k [of f] by (auto simp: core_ok_def)
    show "cb' \<in> set (cbs t g) \<longleftrightarrow> cb' \<in> set (cbs s g)" if "own cb' \<noteq> c" for g cb'
      using that ct cs p(2) by auto
    show "executor t d = executor s d \<or> pc s d = Finished" if "d \<noteq> c" for d using that t(6) wf(2) by (cases "d = f") auto
    show "in_op t c q \<Longrightarrow> in_op s c q" for q using c(1) io by (auto simp: in_op_def)
    show "word t g \<noteq> WCbs []" for g using k [of g] t(1) by (simp add: core_ok_def)
    show "pending t g \<noteq> [] \<Longrightarrow> pending s g \<noteq> []" for g using t(2) p(1) by (auto split: if_splits)
  qed (use t c cA in auto)
qed

lemma out_called:
  assumes s: "aw_ok s" and p: "pending s f = cb # rest" "own cb = c"
  shows "f \<in> out s c" "out (s\<lparr>pending := (pending s)(f := rest)\<rparr>) c = out s c - {f}" "word s f = WResult"
proof -
  have k: "core_ok s f" using aw_okD(3) [OF s] .
  show wf: "word s f = WResult" using k p(1) by (auto simp: core_ok_def)
  have cs: "cbs s f = cb # rest" using p(1) wf by (simp add: cbs_def)
  show "f \<in> out s c" using cs p(2) by (simp add: out_def)
  have nr: "c \<notin> own ` set rest" using k cs p(2) by (auto simp: core_ok_def)
  have "cbs (s\<lparr>pending := (pending s)(f := rest)\<rparr>) = (cbs s)(f := rest)" using wf by (auto simp: cbs_def fun_eq_iff)
  then show "out (s\<lparr>pending := (pending s)(f := rest)\<rparr>) c = out s c - {f}" using nr by (auto simp: out_def)
qed

text \<open>The state after the callback is taken from the list; \<open>called\<close> says that what follows is fine.\<close>

lemma called_submit:
  assumes s: "aw_ok s" and p: "pending s f = cb # rest" "own cb = c" and c: "pc s c = At op SSuspended" "out s c = {f}" "executor s c = Some e"
    and g: "goes_to s c op e" "\<forall>g \<in> set (futs op). g = f \<or> word s g = WResult"
    and u: "u = s\<lparr>pending := (pending s)(f := rest), cnt := (cnt s)(c := n)\<rparr>"
  shows "turn_ok (Submit c op u) c op"
proof -
  let ?t = "set_pc c (Queued e op) u"
  note o = out_called [OF s p]
  have cu: "cbs u = cbs (s\<lparr>pending := (pending s)(f := rest)\<rparr>)" by (simp add: u cbs_def fun_eq_iff)
  have r: "Submit c op u = Some ?t" using c(3) u by (simp add: Submit_def)
  have d: "\<forall>g \<in> set (futs op). word s g = WResult" using g(2) o(3) by auto
  have ot: "out ?t c = {}" using o(2) c(2) cu by (simp add: out_def)
  have gt: "goes_to ?t c op e" using g(1) u by (auto simp: goes_to_def split: awop.splits)
  have "aw_ok ?t"
    by (rule ok_called [OF s p, of op]) (use c ot gt d u in \<open>auto simp: at_op_def exec_ok_def\<close>)
  then show ?thesis using r by (simp add: turn_ok_def)
qed

lemma called_here:
  assumes s: "aw_ok s" and p: "pending s f = cb # rest" "own cb = c" and c: "pc s c = At op SSuspended" "out s c = {f}" and m: "mover op"
    and g: "\<forall>g \<in> set (futs op). g = f \<or> word s g = WResult"
    and u: "u = s\<lparr>pending := (pending s)(f := rest), cnt := (cnt s)(c := n)\<rparr>"
  shows "turn_ok (PromiseType_Here c f u) c op"
proof -
  note o = out_called [OF s p]
  have cin: "cb \<in> set (pending s f)" using p(1) by simp
  have ao: "at_op s c = Some op" using c(1) by (simp add: at_op_def)
  have "executor s f \<noteq> None" using aw_okD(4) [OF s, of f] cin p(2) ao m by (auto simp: mover_ok_def)
  then obtain e where e: "executor s f = Some e" by blast
  let ?v = "u\<lparr>executor := (executor u)(f := None, c := Some e)\<rparr>"
  let ?t = "set_pc c Go ?v"
  have d: "\<forall>g \<in> set (futs op). word s g = WResult" using g o(3) by auto
  have "await_resume c op ?v = Some ?t" using d u by (cases op) (auto simp: await_resume_def)
  then have r: "PromiseType_Here c f u = Some ?t"
    using e c(1) u by (simp add: PromiseType_Here_def PromiseType_Impl_def PromiseType_Call_def)
  have cu: "cbs u = cbs (s\<lparr>pending := (pending s)(f := rest)\<rparr>)" by (simp add: u cbs_def fun_eq_iff)
  have ot: "out ?t c = {}" using o(2) c(2) cu by (simp add: out_def)
  have "aw_ok ?t"
    by (rule ok_called [OF s p ao]) (use c ot m u in \<open>auto simp: exec_ok_def\<close>)
  then show ?thesis using r d u by (simp add: turn_ok_def)
qed

text \<open>The counter of an event is only one when the coroutine is suspended and waits for this callback alone.\<close>

lemma multi_last:
  assumes m: "multi_ok s c fs st" and f: "f \<in> out s c"
  shows "cnt s c \<noteq> 0" "cnt s c = 1 \<Longrightarrow> st = SSuspended \<and> out s c = {f} \<and> job s c \<and> (\<forall>g \<in> set fs. g = f \<or> word s g = WResult)"
proof -
  have c: "0 < card (out s c)" using f multi_finite [OF m] by (auto simp: card_gt_0_iff)
  show "cnt s c \<noteq> 0" using m c by (cases st) (auto simp: multi_ok_def)
  show "st = SSuspended \<and> out s c = {f} \<and> job s c \<and> (\<forall>g \<in> set fs. g = f \<or> word s g = WResult)" if "cnt s c = 1"
  proof -
    have st: "st = SSuspended" using m c that by (cases st) (auto simp: multi_ok_def)
    then have "card (out s c) = 1" using m that by (simp add: multi_ok_def)
    then have "out s c = {f}" using f by (auto simp: card_1_singleton_iff)
    then show ?thesis using st m by (auto simp: multi_ok_def rest_done_def)
  qed
qed

lemma called_count:
  assumes s: "aw_ok s" and p: "pending s f = cb # rest" "own cb = c" and c: "pc s c = At op st" "cnt s c \<noteq> 1"
    and op: "op = AwMulti sticky dyn fs \<or> op = AwMultiOn e dyn fs"
    and u: "u = s\<lparr>pending := (pending s)(f := rest), cnt := (cnt s)(c := cnt s c - 1)\<rparr>"
  shows "turn_ok (Some u) c op"
proof -
  note o = out_called [OF s p]
  have "at_ok s c op st" using aw_okD(1) [OF s, of c] c(1) by simp
  then have m: "multi_ok s c fs st" and mo: "multi_more s c op st" using at_multi [OF op] by auto
  have cu: "cbs u = cbs (s\<lparr>pending := (pending s)(f := rest)\<rparr>)" by (simp add: u cbs_def fun_eq_iff)
  have ou: "out u c = out s c - {f}" using o(2) cu by (simp add: out_def)
  have ca: "card (out s c) = Suc (card (out u c))"
    using ou o(1) multi_finite [OF m] by (metis card.remove)
  have "out u c \<noteq> {}" if "st = SSuspended"
  proof -
    have "cnt s c = Suc (card (out u c))" using m ca that by (simp add: multi_ok_def)
    then have "card (out u c) \<noteq> 0" using c(2) by simp
    then show ?thesis by auto
  qed
  then have "multi_ok u c fs st"
    using m ou ca o(3) c(2) multi_last(1) [OF m o(1)] u by (cases st) (auto simp: multi_ok_def rest_done_def)
  moreover have "multi_more u c op st" using mo u by (simp add: multi_more_def split: awop.splits)
  ultimately have a: "at_ok u c op st" using at_multi [OF op] by blast
  have "exec_ok u c" using aw_okD(2) [OF s, of c] u by (simp add: exec_ok_def)
  then have "aw_ok u"
    by (intro ok_called [OF s p, of op]) (use c(1) a u in \<open>auto simp: at_op_def\<close>)
  then show ?thesis using c(1) u by (simp add: turn_ok_def)
qed

lemma turn_callback:
  assumes s: "aw_ok s" and p: "pending s f = cb # rest"
  shows "\<exists>op. at_op s (own cb) = Some op \<and> turn_ok (call_callback f s) (own cb) op"
proof -
  define c where "c = own cb"
  have oc: "own cb = c" by (simp add: c_def)
  have cin: "cb \<in> set (cbs s f)" using p by (simp add: cbs_def)
  have cok: "cb_ok s f cb" using aw_okD(3) [OF s, of f] cin by (simp add: core_ok_def)
  then obtain op i where op: "at_op s c = Some op" "i < length (futs op)" "futs op ! i = f" "cb = node (is_shared s) op c i"
    using oc by (auto simp: cb_ok_def)
  then obtain st where st: "pc s c = At op st" by (auto simp: at_op_def split: cpc.splits)
  have a: "at_ok s c op st" using aw_okD(1) [OF s, of c] st by simp
  have ex: "executor s c \<noteq> None" if "\<And>g t. op \<noteq> AwTask g t" using aw_okD(2) [OF s, of c] st that by (auto simp: exec_ok_def)
  note o = out_called [OF s p oc]
  let ?u = "s\<lparr>pending := (pending s)(f := rest)\<rparr>"
  have u0: "?u = s\<lparr>pending := (pending s)(f := rest), cnt := (cnt s)(c := cnt s c)\<rparr>" by simp
  let ?v = "?u\<lparr>cnt := (cnt s)(c := cnt s c - 1)\<rparr>"
  have "turn_ok (call_callback f s) c op"
  proof (cases op)
    case (AwAwait g f')
    then have "f' = f" "cb = CbPromise c" "st = SSuspended" using op a o(1) by (auto simp: node_def single_ok_def)
    then show ?thesis using called_here [OF s p oc, of op, OF _ _ _ _ u0] st a AwAwait p
      by (auto simp: call_callback_def mover_def single_ok_def)
  next
    case (AwTask g f')
    then have "f' = f" "cb = CbPromise c" "st = SSuspended" using op a o(1) by (auto simp: node_def single_ok_def)
    then show ?thesis using called_here [OF s p oc, of op, OF _ _ _ _ u0] st a AwTask p
      by (auto simp: call_callback_def mover_def single_ok_def)
  next
    case (AwSticky f')
    then have e: "f' = f" "cb = CbEvent c" "st = SSuspended" "executor s c = home s c" "out s c = {f}"
      using op a o(1) by (auto simp: node_def single_ok_def)
    obtain e' where e': "executor s c = Some e'" using ex AwSticky by auto
    have "turn_ok (Submit c op ?u) c op"
      by (rule called_submit [OF s p oc _ _ e' _ _ u0]) (use st e e' AwSticky in \<open>auto simp: goes_to_def\<close>)
    then show ?thesis using e AwSticky p st by (simp add: call_callback_def event_Here_def)
  next
    case (AwOn e f')
    then have e: "f' = f" "cb = CbEvent c" "st = SSuspended" "executor s c = Some e" "out s c = {f}" "cnt s c = 1" "job s c"
      using op a o(1) by (auto simp: node_def single_ok_def)
    have "turn_ok (Submit c op ?v) c op"
      by (rule called_submit [OF s p oc _ _ e(4), where n = "cnt s c - 1"]) (use st e AwOn in \<open>auto simp: goes_to_def\<close>)
    then show ?thesis using e AwOn p st by (simp add: call_callback_def event_Here_def AwaitOnEvent_Impl_def SubEqual_def)
  next
    case (AwMulti sticky dyn fs)
    then have m: "multi_ok s c fs st" and h: "sticky \<longrightarrow> executor s c = home s c" using a by simp_all
    have cb: "cb = CbEvent c \<or> (\<exists>j. cb = CbHelper c j)" using op(4) AwMulti by (auto simp: node_def)
    have r: "call_callback f s = AwaitEvent_Impl sticky c f op ?u"
      using cb p st AwMulti by (auto simp: call_callback_def event_Here_def)
    show ?thesis
    proof (cases "cnt s c = 1")
      case False
      have "turn_ok (Some ?v) c op" by (rule called_count [OF s p oc st False]) (use AwMulti in auto)
      then show ?thesis using r multi_last(1) [OF m o(1)] False by (simp add: AwaitEvent_Impl_def SubEqual_def)
    next
      case True
      note l = multi_last(2) [OF m o(1) True]
      have st': "pc s c = At op SSuspended" using st l by simp
      have fu: "futs op = fs" using AwMulti by simp
      show ?thesis
      proof (cases sticky)
        case True
        obtain e' where e': "executor s c = Some e'" using ex AwMulti by auto
        have "turn_ok (Submit c op ?v) c op"
          by (rule called_submit [OF s p oc st' _ e', where n = "cnt s c - 1"]) (use l e' h AwMulti True fu in \<open>auto simp: goes_to_def\<close>)
        then show ?thesis using r l st' True \<open>cnt s c = 1\<close> by (simp add: AwaitEvent_Impl_def SubEqual_def)
      next
        case False
        have "turn_ok (PromiseType_Here c f ?v) c op"
          by (rule called_here [OF s p oc st', where n = "cnt s c - 1"]) (use l AwMulti False fu in \<open>auto simp: mover_def\<close>)
        then show ?thesis using r l st' False \<open>cnt s c = 1\<close> by (simp add: AwaitEvent_Impl_def SubEqual_def)
      qed
    qed
  next
    case (AwMultiOn e dyn fs)
    then have m: "multi_ok s c fs st" and h: "st = SSuspended \<longrightarrow> executor s c = Some e" using a by simp_all
    have cb: "cb = CbEvent c \<or> (\<exists>j. cb = CbHelper c j)" using op(4) AwMultiOn by (auto simp: node_def)
    have r: "call_callback f s = AwaitOnEvent_Impl c op ?u"
      using cb p st AwMultiOn by (auto simp: call_callback_def event_Here_def)
    show ?thesis
    proof (cases "cnt s c = 1")
      case False
      have "turn_ok (Some ?v) c op" by (rule called_count [OF s p oc st False]) (use AwMultiOn in auto)
      then show ?thesis using r multi_last(1) [OF m o(1)] False by (simp add: AwaitOnEvent_Impl_def SubEqual_def)
    next
      case True
      note l = multi_last(2) [OF m o(1) True]
      have st': "pc s c = At op SSuspended" and e: "executor s c = Some e" using st l h by simp_all
      have "turn_ok (Submit c op ?v) c op"
        by (rule called_submit [OF s p oc st' _ e, where n = "cnt s c - 1"]) (use l AwMultiOn in \<open>auto simp: goes_to_def\<close>)
      then show ?thesis using r l st' True by (simp add: AwaitOnEvent_Impl_def SubEqual_def)
    qed
  qed (use op in simp_all)
  then show ?thesis using op(1) oc by auto
qed

subsection \<open>Tasks\<close>

text \<open>The awaited task is lazy, and nobody else has it.\<close>

lemma task_empty:
  assumes s: "aw_ok s" and c: "pc s c = At (AwTask g t) SSusp"
  shows "word s t = WEmpty" "pc s t = Lazy" "t \<noteq> c" "cbs s t = []" "\<not> is_shared s t"
proof -
  have i: "in_op s c (AwTask g t)" using c by (simp add: in_op_def)
  have a: "out s c = {}" "pc s t = Lazy" using aw_okD(1) [OF s, of c] c by (auto simp: single_ok_def)
  then show l: "pc s t = Lazy" by simp
  show "t \<noteq> c" using l c by auto
  show n: "\<not> is_shared s t" using aw_okD(5) [OF s, of c] i l by (auto simp: op_ok_def)
  have k: "core_ok s t" using aw_okD(3) [OF s] .
  have "cb \<notin> set (cbs s t)" for cb
  proof
    assume cb: "cb \<in> set (cbs s t)"
    obtain op where op: "in_op s (own cb) op" "t \<in> set (futs op)" using cbs_user [OF s cb] by blast
    have "own cb \<noteq> c" using cb a(1) by (auto simp: out_def)
    then show False using users_okD(1) [OF s i op(1) _ op(2)] n by simp
  qed
  then show "cbs s t = []" by (cases "cbs s t") auto
  then show "word s t = WEmpty" using k l by (cases "word s t") (auto simp: core_ok_def cbs_def)
qed

lemma turn_task:
  assumes s: "aw_ok s" and c: "pc s c = At op SSusp" and op: "op = AwTask g t"
  shows "turn_ok (TransferAwaiter c op t SSusp s) c op"
proof -
  note T = task_empty [OF s c [unfolded op]]
  have i: "in_op s c op" using c by (simp add: in_op_def)
  obtain e where e: "executor s c = Some e" using aw_okD(2) [OF s, of c] c by (auto simp: exec_ok_def)
  let ?v = "set_pc c (At op SSuspended) (s\<lparr>word := (word s)(t := WCbs [CbPromise c])\<rparr>)"
  let ?r = "set_pc t Go (?v\<lparr>executor := (executor ?v)(c := None, t := Some e)\<rparr>)"
  have r: "TransferAwaiter c op t SSusp s = Some ?r"
    using T e op by (simp add: TransferAwaiter_def Empty_def node_def PromiseType_Here_def PromiseType_Impl_def PromiseType_Call_def)
  define r where "r = ?r"
  have f: "pc ?r = (pc s)(c := At op SSuspended, t := Go)" "executor ?r = (executor s)(c := None, t := Some e)"
    "word ?r = (word s)(t := WCbs [CbPromise c])" "pending ?r = pending s" "is_shared ?r = is_shared s" "cnt ?r = cnt s" "job ?r = job s" "home ?r = home s"
    using T(3) by (simp_all add: fun_eq_iff)
  note f = f [folded r_def]
  have pt: "pending s t = []" using pending_finished [OF s, of t] T(2) by simp
  have cb: "cbs r = (cbs s)(t := [CbPromise c])" using f(3,4) pt by (simp add: cbs_def fun_eq_iff)
  have k: "core_ok s d" for d using aw_okD(3) [OF s] .
  have ou: "out r d = (if d = c then insert t (out s d) else out s d)" for d
    using T(4) unfolding out_def cb by auto
  have ao: "at_op r d = at_op s d" for d using f(1) c T(2,3) by (simp add: at_op_def)
  have io: "in_op r d q = in_op s d q" for d q using f(1) c T(2,3) by (simp add: in_op_def)
  have oc: "out s c = {}" using aw_okD(1) [OF s, of c] c op by (simp add: single_ok_def)
  have "coro_ok r d (pc r d)" for d
  proof -
    consider "d = c" | "d = t" | "d \<noteq> c" "d \<noteq> t" by blast
    then show ?thesis
    proof cases
      case 1
      have "at_ok r c op SSuspended" using op ou [of c] oc by (simp add: single_ok_def)
      then show ?thesis using f(1) T(3) 1 by simp
    next
      case 2
      then show ?thesis using f(1) ou [of t] T(2,3) aw_okD(1) [OF s, of t] by simp
    next
      case 3
      show ?thesis
      proof (rule coro_keep [OF aw_okD(1) [OF s]])
        show "pc r h = Lazy" if h: "pc s d = At (AwTask x h) SSusp" "pc s h = Lazy" for x h
        proof -
          have "in_op s d (AwTask x h)" using h(1) by (simp add: in_op_def)
          then have "h \<noteq> t" using users_okD(1) [OF s i, of d "AwTask x h" t] op T(5) 3(1) by auto
          then show ?thesis using f(1) h(2) c by auto
        qed
        show "out r d = out s d" using ou [of d] 3 by simp
        show "word r h = WResult" if "word s h = WResult" for h using that f(3) T(1) by auto
      qed (use f 3 in simp_all)
    qed
  qed
  moreover have "exec_ok r d" for d using aw_okD(2) [OF s, of d] f(1,2) op T(3) by (auto simp: exec_ok_def)
  moreover have "core_ok r h" for h
  proof (cases "h = t")
    case True
    have "cb_ok r t (CbPromise c)" using ao [of c] c op f(5) by (auto simp: cb_ok_def at_op_def node_def)
    then show ?thesis using True cb f pt by (simp add: core_ok_def)
  next
    case False
    have "cb_ok r h x" if "x \<in> set (cbs s h)" for x
      using k [of h] that ao f(5) by (simp add: core_ok_def cb_ok_def)
    then show ?thesis using k [of h] False cb f(1,3,4) c by (auto simp: core_ok_def)
  qed
  moreover have "mover_ok r h" for h
  proof (cases "h = c")
    case True
    then show ?thesis using pending_finished [OF s, of c] c f(4) by (simp add: mover_ok_def)
  next
    case False
    then show ?thesis using aw_okD(4) [OF s, of h] f(2,4) ao pt by (cases "h = t") (simp_all add: mover_ok_def)
  qed
  moreover have "op_ok r d" for d
  proof -
    have "pc s h = Lazy" if "pc r h = Lazy" for h using that f(1) by (simp split: if_splits)
    then show ?thesis using aw_okD(5) [OF s, of d] io f(5) by (simp add: op_ok_def)
  qed
  moreover have "users_ok r" using aw_okD(6) [OF s] io f(5) by (simp add: users_ok_def)
  ultimately have "aw_ok r" unfolding aw_ok_def by blast
  moreover have "pc r c \<noteq> Go" using f(1) T(3) by simp
  ultimately show ?thesis using r by (simp add: turn_ok_def r_def)
qed

lemma turn_await:
  assumes s: "aw_ok s" and c: "pc s c = At op st" "st \<noteq> SSuspended"
  shows "turn_ok (await_turn c op st s) c op"
proof (cases op)
  case (AwTask g t)
  have "at_ok s c op st" using aw_okD(1) [OF s, of c] c(1) by simp
  then have "st = SSusp" using AwTask c(2) by (auto simp: single_ok_def)
  then show ?thesis using turn_task [OF s _ AwTask] c(1) AwTask by (simp add: await_turn_def)
next
  case AwYield
  then show ?thesis using turn_yield [OF s, of c st] c(1) by (simp add: await_turn_def)
next
  case (AwSwitch e)
  then show ?thesis using turn_switch [OF s, of c e st] c(1) by (simp add: await_turn_def)
qed (use turn_single [OF s c] turn_on [OF s c] turn_multi [OF s c] turn_multi_on [OF s c] in \<open>auto simp: await_turn_def\<close>)

subsection \<open>All moves\<close>

lemma turn_run:
  assumes s: "aw_ok s" and c: "pc s c = Queued e op"
  shows "turn_ok (PromiseType_Call c s) c op"
proof -
  have q: "out s c = {}" "executor s c \<noteq> None" "\<forall>f \<in> set (futs op). word s f = WResult" "goes_to s c op e"
    using aw_okD(1) [OF s, of c] c by simp_all
  have r: "await_resume c op s = Some (set_pc c Go s)" using q(3) by (cases op) (auto simp: await_resume_def)
  have "aw_ok (set_pc c Go s)"
    by (rule ok_go [OF s _ q(1,2), where op = op and n = "cnt s c" and s' = s]) (use c r in \<open>auto simp: in_op_def\<close>)
  then show ?thesis using c r q(3) by (simp add: PromiseType_Call_def turn_ok_def)
qed

lemma complete_defined:
  assumes s: "aw_ok s" and p: "pc s f = Plain \<or> pc s f = Go \<or> (\<exists>e op. pc s f = Queued e op)"
  shows "\<exists>t. SetResult f (set_pc f Finished s) = Some t"
proof -
  have "word s f \<noteq> WResult" using aw_okD(3) [OF s, of f] p by (auto simp: core_ok_def)
  then show ?thesis by (auto simp: SetResult_def split: aword.splits)
qed

text \<open>The coroutine of a move.\<close>

definition actor :: "amove \<Rightarrow> awst \<Rightarrow> nat" where
  "actor m s = (case m of Begin c op \<Rightarrow> c | Turn c \<Rightarrow> c | Complete f \<Rightarrow> f | Callback f \<Rightarrow> own (hd (pending s f)) | RunJob c \<Rightarrow> c | DropJob c \<Rightarrow> c)"

lemma aw_step:
  assumes s: "aw_ok s" and m: "enabled True m s"
  shows "\<exists>t. aw_move m s = Some t \<and> aw_ok t \<and>
    (\<forall>op. in_op s (actor m s) op \<and> pc t (actor m s) = Go \<longrightarrow> (\<forall>f \<in> set (futs op). word t f = WResult))"
proof -
  have turn: "\<exists>t. r = Some t \<and> aw_ok t \<and> (\<forall>op. in_op s c op \<and> pc t c = Go \<longrightarrow> (\<forall>f \<in> set (futs op). word t f = WResult))"
    if "turn_ok r c p" "in_op s c p" for r c p
  proof -
    have "op = p" if "in_op s c op" for op using that \<open>in_op s c p\<close> by (auto simp: in_op_def)
    then show ?thesis using that(1) by (auto simp: turn_ok_def)
  qed
  have complete: "\<exists>t. SetResult f (set_pc f Finished s) = Some t \<and> aw_ok t \<and> (\<forall>op. in_op s f op \<and> pc t f = Go \<longrightarrow> (\<forall>h \<in> set (futs op). word t h = WResult))"
    if p: "pc s f = Plain \<or> pc s f = Go \<or> (\<exists>e op. pc s f = Queued e op)" for f
  proof -
    obtain t where t: "SetResult f (set_pc f Finished s) = Some t" using complete_defined [OF s p] by blast
    then show ?thesis using ok_complete [OF s p t] by auto
  qed
  show ?thesis
  proof (cases m)
    case (Begin c op)
    then have b: "begin_ok True c op s" using m by (simp add: enabled_def)
    then have "pc s c = Go" by (simp add: begin_ok_def)
    then show ?thesis using ok_begin [OF s b] Begin in_op_Go by (simp add: aw_move_def actor_def)
  next
    case (Turn c)
    then obtain op st where c: "pc s c = At op st" "st \<noteq> SSuspended" using m by (auto simp: enabled_def)
    then show ?thesis using turn [OF turn_await [OF s c]] Turn by (auto simp: aw_move_def actor_def in_op_def)
  next
    case (Complete f)
    then have "pc s f = Plain \<or> pc s f = Go \<or> (\<exists>e op. pc s f = Queued e op)" using m by (auto simp: enabled_def)
    from complete [OF this] show ?thesis using Complete by (simp add: aw_move_def actor_def PromiseType_finish_def)
  next
    case (Callback f)
    then obtain cb rest where p: "pending s f = cb # rest" using m by (cases "pending s f") (auto simp: enabled_def)
    obtain op where op: "at_op s (own cb) = Some op" "turn_ok (call_callback f s) (own cb) op" using turn_callback [OF s p] by blast
    show ?thesis using turn [OF op(2) at_op_in [OF op(1)]] Callback p by (simp add: aw_move_def actor_def)
  next
    case (RunJob c)
    then obtain e op where c: "pc s c = Queued e op" using m by (auto simp: enabled_def)
    then show ?thesis using turn [OF turn_run [OF s c]] RunJob by (auto simp: aw_move_def actor_def in_op_def)
  next
    case (DropJob c)
    then have "\<exists>e op. pc s c = Queued e op" using m by (simp add: enabled_def)
    then show ?thesis using complete [of c] DropJob by (simp add: aw_move_def actor_def PromiseType_Drop_def)
  qed
qed

lemma aw_init_ok: "aw_init s \<Longrightarrow> aw_ok s"
proof -
  assume i: "aw_init s"
  then have p: "pc s c = Plain \<or> pc s c = Lazy \<or> pc s c = Go" and w: "word s c = WEmpty" "pending s c = []" "executor s c \<noteq> None" for c
    by (auto simp: aw_init_def)
  have cb: "cbs s f = []" for f using w by (simp add: cbs_def)
  have o: "out s c = {}" for c using cb by (simp add: out_def)
  have n: "\<not> in_op s c op" for c op using p [of c] by (auto simp: in_op_def)
  have "coro_ok s c (pc s c)" for c using p [of c] o by auto
  moreover have "core_ok s c" for c using p [of c] w cb by (auto simp: core_ok_def)
  ultimately show ?thesis using w n by (simp add: aw_ok_def exec_ok_def mover_ok_def op_ok_def users_ok_def)
qed

lemma aw_reach_ok: "aw_reach True s \<Longrightarrow> aw_ok s"
proof (induction rule: aw_reach.induct)
  case (move s m t)
  then show ?case using aw_step [OF move.IH move.hyps(2)] by auto
qed (rule aw_init_ok)

text \<open>Only the coroutine of a move leaves an await.\<close>

lemma SetCallback_pc: "SetCallback f cb s = (b, u) \<Longrightarrow> pc u = pc s"
  using SetCallback_fields by blast

lemma move_frame:
  assumes "aw_move m s = Some t" "in_op s d op" "d \<noteq> actor m s" "aw_ok s"
  shows "pc t d = pc s d"
proof -
  note P = await_resume_def Submit_def PromiseType_Here_def PromiseType_Impl_def PromiseType_Call_def
  have sr: "pc u d = pc s d" if "SetResult f (set_pc f Finished s) = Some u" "d \<noteq> f" for f u
    using that by (auto simp: SetResult_def split: aword.splits)
  have ar: "pc u d = pc v d" if "await_resume c p v = Some u" "d \<noteq> c" for u v c p
    using that by (auto simp: await_resume_def split: awop.splits if_splits)
  have su: "pc u d = pc v d" if "Submit c p v = Some u" "d \<noteq> c" for u v c p
    using that by (auto simp: Submit_def split: option.splits)
  have pcl: "pc u d = pc v d" if "PromiseType_Call c v = Some u" "d \<noteq> c" for u v c
    using that ar by (auto simp: PromiseType_Call_def split: cpc.splits stage.splits)
  have he: "pc u d = pc v d" if h: "PromiseType_Here c f v = Some u" "d \<noteq> c" for u v c f
  proof -
    obtain e where "PromiseType_Call c (v\<lparr>executor := (executor v)(f := None, c := Some e)\<rparr>) = Some u"
      using h(1) by (auto simp: PromiseType_Here_def PromiseType_Impl_def split: option.splits)
    from pcl [OF this h(2)] show ?thesis by simp
  qed
  have ev: "pc u d = pc v d" if e: "event_Here c f v = Some u" "d \<noteq> c" for u v c f
    using e(1) su [OF _ e(2)] he [OF _ e(2)]
    by (auto simp: event_Here_def AwaitEvent_Impl_def AwaitOnEvent_Impl_def SubEqual_def Let_def split: cpc.splits awop.splits if_splits dest!: su [OF _ e(2)] he [OF _ e(2)])
  show ?thesis
  proof (cases m)
    case (Callback f)
    obtain cb rest where p: "pending s f = cb # rest" using assms(1) Callback by (cases "pending s f") (auto simp: aw_move_def call_callback_def)
    then have "d \<noteq> own cb" using assms(3) Callback by (simp add: actor_def)
    then show ?thesis using assms(1) Callback p by (cases cb) (auto simp: aw_move_def call_callback_def dest!: he ev)
  next
    case (Turn c)
    then have dc: "d \<noteq> c" using assms(3) by (simp add: actor_def)
    obtain p st where pc: "pc s c = At p st" and r: "await_turn c p st s = Some t"
      using assms(1) Turn by (auto simp: aw_move_def split: cpc.splits)
    show ?thesis
    proof (cases p)
      case (AwTask g x)
      then have st: "st = SSusp" and x: "PromiseType_Here x c (set_pc c (At p SSuspended) (s\<lparr>word := (word s)(x := WCbs [node (is_shared s) p c 0])\<rparr>)) = Some t"
        using r by (auto simp: await_turn_def TransferAwaiter_def split: if_splits)
      have "pc s x = Lazy" using task_empty(2) [OF assms(4), of c g x] pc st AwTask by simp
      then have "x \<noteq> d" using assms(2) by (auto simp: in_op_def)
      then show ?thesis using he [OF x] dc by simp
    qed (use r dc in \<open>auto simp: await_turn_def AwaitSingleAwaiter_def AwaitOnAwaiter_def MultiAwaitAwaiter_def MultiAwaitOnAwaiter_def
        SetCallbacks_turn_def SetCallbacks_end_def SubEqual_def Let_def split: prod.splits if_splits stage.splits dest!: ar su SetCallback_pc\<close>)
  qed (use assms(1,3) sr pcl in \<open>auto simp: aw_move_def actor_def make_awaiter_def PromiseType_finish_def PromiseType_Drop_def\<close>)
qed

subsection \<open>Properties\<close>

text \<open>A plain core 0, the other cores are coroutines that run.\<close>

definition aw_start :: "bool \<Rightarrow> awst" where
  "aw_start sh = \<lparr>word = \<lambda>f. WEmpty, pending = \<lambda>f. [], executor = \<lambda>f. Some 7, is_shared = \<lambda>f. sh, pc = (\<lambda>f. Go)(0 := Plain), cnt = \<lambda>c. 0,
     job = \<lambda>c. False, home = \<lambda>c. Some 7\<rparr>"

lemma aw_start_init: "aw_init (aw_start sh)"
  by (simp add: aw_init_def aw_start_def)

text \<open>Moves of the kinds that are enabled whenever they are defined.\<close>

lemma turn_enabled: "aw_move (Turn c) s = Some t \<Longrightarrow> enabled strict (Turn c) s"
  by (cases "pc s c")
    (auto simp: aw_move_def enabled_def await_turn_def AwaitSingleAwaiter_def AwaitOnAwaiter_def MultiAwaitAwaiter_def MultiAwaitOnAwaiter_def
      TransferAwaiter_def split: awop.splits)

lemma callback_enabled: "aw_move (Callback f) s = Some t \<Longrightarrow> enabled strict (Callback f) s"
  by (auto simp: aw_move_def enabled_def call_callback_def)

fun auto_move :: "amove \<Rightarrow> bool" where
  "auto_move (Turn c) = True" | "auto_move (Callback f) = True" | "auto_move m = False"

primrec aw_run :: "amove list \<Rightarrow> awst \<Rightarrow> awst option" where
  "aw_run [] s = Some s"
| "aw_run (m # ms) s = (case aw_move m s of None \<Rightarrow> None | Some t \<Rightarrow> aw_run ms t)"

lemma aw_run_reach: "aw_reach strict s \<Longrightarrow> aw_run ms s = Some t \<Longrightarrow> list_all auto_move ms \<Longrightarrow> aw_reach strict t"
proof (induction ms arbitrary: s)
  case (Cons m ms)
  obtain u where u: "aw_move m s = Some u" "aw_run ms u = Some t" using Cons.prems(2) by (auto split: option.splits)
  have "enabled strict m s" using u(1) Cons.prems(3) turn_enabled callback_enabled by (cases m) auto
  then show ?case using Cons.IH [OF aw_reach.move [OF Cons.prems(1) _ u(1)] u(2)] Cons.prems(3) by simp
qed simp

lemma begin_reach: "aw_reach strict s \<Longrightarrow> begin_ok strict c op s \<Longrightarrow> aw_reach strict (make_awaiter c op s)"
  by (rule aw_reach.move [where m = "Begin c op"]) (simp_all add: enabled_def aw_move_def)

lemmas aw_simps = aw_move_def await_turn_def AwaitSingleAwaiter_def MultiAwaitAwaiter_def SetCallbacks_turn_def SetCallbacks_end_def
  SubEqual_def SetCallback_def SetResult_def PromiseType_finish_def PromiseType_Here_def PromiseType_Impl_def PromiseType_Call_def await_resume_def
  call_callback_def event_Here_def AwaitEvent_Impl_def Submit_def node_def Empty_def make_awaiter_def first_stage_def set_pc_def

text \<open>Coroutine 1 awaits core 0 and is suspended; then it completes.\<close>

definition aw_ex3 :: awst where
  "aw_ex3 = the (aw_run [Turn 1, Turn 1] (make_awaiter 1 (AwAwait True 0) (aw_start False)))"

definition aw_ex4 :: awst where
  "aw_ex4 = the (aw_move (Complete 0) aw_ex3)"

lemma aw_ex3:
  "aw_reach True aw_ex3" "pc aw_ex3 = (\<lambda>c. if c = 1 then At (AwAwait True 0) SSuspended else if c = 0 then Plain else Go)"
  "word aw_ex3 = (\<lambda>f. if f = 0 then WCbs [CbPromise 1] else WEmpty)" "pending aw_ex3 = (\<lambda>f. [])" "executor aw_ex3 = (\<lambda>f. Some 7)"
proof -
  let ?s = "make_awaiter 1 (AwAwait True 0) (aw_start False)"
  have b: "begin_ok True 1 (AwAwait True 0) (aw_start False)"
    by (auto simp: begin_ok_def aw_start_def in_op_def)
  have e: "\<exists>t. aw_run [Turn 1, Turn 1] ?s = Some t \<and>
     pc t = (\<lambda>c. if c = 1 then At (AwAwait True 0) SSuspended else if c = 0 then Plain else Go) \<and>
     word t = (\<lambda>f. if f = 0 then WCbs [CbPromise 1] else WEmpty) \<and> pending t = (\<lambda>f. []) \<and> executor t = (\<lambda>f. Some 7)"
    by (simp add: aw_simps aw_start_def fun_eq_iff)
  then obtain t where t: "aw_run [Turn 1, Turn 1] ?s = Some t" "aw_ex3 = t" by (auto simp: aw_ex3_def)
  show "aw_reach True aw_ex3"
    using aw_run_reach [OF begin_reach [OF aw_reach.start [OF aw_start_init] b] t(1)] t(2) by simp
  show "pc aw_ex3 = (\<lambda>c. if c = 1 then At (AwAwait True 0) SSuspended else if c = 0 then Plain else Go)"
    "word aw_ex3 = (\<lambda>f. if f = 0 then WCbs [CbPromise 1] else WEmpty)" "pending aw_ex3 = (\<lambda>f. [])" "executor aw_ex3 = (\<lambda>f. Some 7)"
    using e t by auto
qed

lemma aw_ex4:
  "aw_reach True aw_ex4" "pc aw_ex4 = (\<lambda>c. if c = 1 then At (AwAwait True 0) SSuspended else if c = 0 then Finished else Go)"
  "word aw_ex4 = (\<lambda>f. if f = 0 then WResult else WEmpty)" "pending aw_ex4 = (\<lambda>f. if f = 0 then [CbPromise 1] else [])"
  "executor aw_ex4 = (\<lambda>f. Some 7)"
proof -
  have e: "\<exists>t. aw_move (Complete 0) aw_ex3 = Some t \<and>
     pc t = (\<lambda>c. if c = 1 then At (AwAwait True 0) SSuspended else if c = 0 then Finished else Go) \<and>
     word t = (\<lambda>f. if f = 0 then WResult else WEmpty) \<and> pending t = (\<lambda>f. if f = 0 then [CbPromise 1] else []) \<and> executor t = (\<lambda>f. Some 7)"
    by (simp add: aw_simps aw_ex3(2-5) fun_eq_iff)
  then obtain t where t: "aw_move (Complete 0) aw_ex3 = Some t" "aw_ex4 = t" by (auto simp: aw_ex4_def)
  show "aw_reach True aw_ex4"
    using aw_reach.move [OF aw_ex3(1) _ t(1)] t(2) by (simp add: enabled_def aw_ex3)
  show "pc aw_ex4 = (\<lambda>c. if c = 1 then At (AwAwait True 0) SSuspended else if c = 0 then Finished else Go)"
    "word aw_ex4 = (\<lambda>f. if f = 0 then WResult else WEmpty)" "pending aw_ex4 = (\<lambda>f. if f = 0 then [CbPromise 1] else [])"
    "executor aw_ex4 = (\<lambda>f. Some 7)"
    using e t by auto
qed

text \<open>
  C32: Coroutines that await futures of each other, tasks and promises in all the ways there are, never fail: in every state that
  moves lead to, each move that can be made is defined. No assertion fails, no null executor is used, no result is read before it
  is stored, no callback is called in an awaiter whose coroutine went on, no running coroutine is resumed. Shared futures have
  several users only of compatible kinds.
\<close>

theorem await_defined:
  assumes "aw_reach True s" "enabled True m s"
  shows "\<exists>t. aw_move m s = Some t"
  using aw_step [OF aw_reach_ok [OF assms(1)] assms(2)] by blast

theorem await_defined_witness: "\<exists>t. aw_move (Callback 0) aw_ex4 = Some t"
  by (rule await_defined [OF aw_ex4(1)]) (simp add: enabled_def aw_ex4)

text \<open>
  C33: A coroutine that goes on after it awaited finds everything done: whatever move makes it run, the awaiter itself, the last
  callback or the executor, the result of every future that it awaited is stored.
\<close>

theorem await_results:
  assumes "aw_reach True s" "enabled True m s" "aw_move m s = Some t" "in_op s c op" "pc t c = Go" "f \<in> set (futs op)"
  shows "word t f = WResult"
proof -
  note ok = aw_reach_ok [OF assms(1)]
  have "c = actor m s"
  proof (rule ccontr)
    assume "c \<noteq> actor m s"
    then have "pc s c = Go" using move_frame [OF assms(3,4) _ ok] assms(5) by simp
    then show False using assms(4) by (simp add: in_op_def)
  qed
  then show ?thesis using aw_step [OF ok assms(2)] assms(3-6) by auto
qed

theorem await_results_witness: "\<exists>t. aw_move (Callback 0) aw_ex4 = Some t \<and> pc t 1 = Go \<and> word t 0 = WResult"
proof -
  have m: "\<exists>t. aw_move (Callback 0) aw_ex4 = Some t \<and> pc t 1 = Go"
    by (simp add: aw_simps aw_ex4)
  then obtain t where t: "aw_move (Callback 0) aw_ex4 = Some t" "pc t 1 = Go" by blast
  have "word t 0 = WResult"
    by (rule await_results [OF aw_ex4(1) _ t(1), where c = 1 and op = "AwAwait True 0"]) (use t(2) in \<open>simp_all add: enabled_def in_op_def aw_ex4\<close>)
  then show ?thesis using t by blast
qed

text \<open>
  C34: No wake-up is lost: a suspended coroutine has its callback in the word of a core that it awaits and that is not complete, or
  in the list that the completion of such a core still calls. So when all it awaits is complete and all callbacks are called, it
  is not suspended.
\<close>

theorem await_no_lost:
  assumes "aw_reach True s" "pc s c = At op SSuspended"
  shows "\<exists>f \<in> set (futs op). (\<exists>l. word s f = WCbs l \<and> c \<in> own ` set l) \<or> c \<in> own ` set (pending s f)"
proof -
  note ok = aw_reach_ok [OF assms(1)]
  have a: "at_ok s c op SSuspended" using aw_okD(1) [OF ok, of c] assms(2) by simp
  have "\<exists>f \<in> set (futs op). f \<in> out s c"
    using a by (cases op) (auto simp: single_ok_def multi_ok_def)
  then obtain f where f: "f \<in> set (futs op)" "c \<in> own ` set (cbs s f)" by (auto simp: out_def)
  then show ?thesis by (cases "word s f") (auto simp: cbs_def)
qed

theorem await_no_lost_witness:
  "\<exists>f \<in> set (futs (AwAwait True 0)). (\<exists>l. word aw_ex3 f = WCbs l \<and> 1 \<in> own ` set l) \<or> 1 \<in> own ` set (pending aw_ex3 f)"
  by (rule await_no_lost [OF aw_ex3(1)]) (simp add: aw_ex3)

text \<open>
  A coroutine is scheduled where it asked to be: \<open>AwaitOn\<close> and \<open>On\<close> submit it to the given executor, \<open>AwaitSticky\<close> and
  \<open>kYield\<close> to the one it had when it began to await, no other await submits it, and all it awaited is complete.
\<close>

lemma await_executor:
  assumes "aw_reach True s" "pc s c = Queued e op"
  shows "executor s c = Some e \<and> goes_to s c op e \<and> (\<forall>f \<in> set (futs op). word s f = WResult)"
  using aw_okD(1) [OF aw_reach_ok [OF assms(1)], of c] assms(2) by simp


lemma shared_begin: "begin_ok False 1 (AwAwait True 0) (aw_start True)" "begin_ok False 1 (AwMulti False True [0]) (aw_start True)"
  by (auto simp: begin_ok_def aw_start_def in_op_def)

text \<open>The second awaiter of a shared future reads no result.\<close>

lemma shared_ready:
  "\<exists>s. aw_reach False s \<and> is_shared s 0 \<and> {op. \<exists>c. in_op s c op} = {AwAwait True 0} \<and> enabled False (Turn 2) s \<and>
      word s 0 = WCbs [CbPromise 1] \<and> aw_move (Turn 2) s = None"
proof -
  have "\<exists>t. aw_run [Turn 1, Turn 1] (make_awaiter 1 (AwAwait True 0) (aw_start True)) = Some t \<and> is_shared t 0 \<and>
     pc t = (\<lambda>c. if c = 1 then At (AwAwait True 0) SSuspended else if c = 0 then Plain else Go) \<and> word t 0 = WCbs [CbPromise 1]"
    by (simp add: aw_simps aw_start_def fun_eq_iff)
  then obtain t where t: "aw_run [Turn 1, Turn 1] (make_awaiter 1 (AwAwait True 0) (aw_start True)) = Some t" "is_shared t 0"
    "pc t = (\<lambda>c. if c = 1 then At (AwAwait True 0) SSuspended else if c = 0 then Plain else Go)" "word t 0 = WCbs [CbPromise 1]" by blast
  have "aw_reach False t" using aw_run_reach [OF begin_reach [OF aw_reach.start [OF aw_start_init] shared_begin(1)] t(1)] by simp
  moreover have "begin_ok False 2 (AwAwait True 0) t" using t(2,3) by (simp add: begin_ok_def)
  ultimately have "aw_reach False (make_awaiter 2 (AwAwait True 0) t)" by (rule begin_reach)
  moreover have "{op. \<exists>c. in_op (make_awaiter 2 (AwAwait True 0) t) c op} = {AwAwait True 0}"
    using t(3) by (auto simp: in_op_def make_awaiter_def first_stage_def split: if_splits)
  ultimately show ?thesis
    using t(2-4) by (intro exI [of _ "make_awaiter 2 (AwAwait True 0) t"]) (auto simp: enabled_def aw_simps)
qed

text \<open>The second coroutine that a shared core resumes gets no executor.\<close>

lemma shared_executor:
  "\<exists>s. aw_reach False s \<and> is_shared s 0 \<and> {op. \<exists>c. in_op s c op} = {AwMulti False True [0]} \<and> enabled False (Callback 0) s \<and>
      word s 0 = WResult \<and> executor s 0 = None \<and> aw_move (Callback 0) s = None"
proof -
  have "\<exists>t. aw_run (replicate 6 (Turn 1)) (make_awaiter 1 (AwMulti False True [0]) (aw_start True)) = Some t \<and> is_shared t 0 \<and>
     pc t = (\<lambda>c. if c = 1 then At (AwMulti False True [0]) SSuspended else if c = 0 then Plain else Go) \<and> word t 0 = WCbs [CbHelper 1 0] \<and> cnt t 1 = 1 \<and> job t 1 \<and>
     pending t = (\<lambda>f. []) \<and> executor t = (\<lambda>f. Some 7)"
    by (simp add: aw_simps aw_start_def fun_eq_iff eval_nat_numeral)
  then obtain t where t: "aw_run (replicate 6 (Turn 1)) (make_awaiter 1 (AwMulti False True [0]) (aw_start True)) = Some t" "is_shared t 0"
    "pc t = (\<lambda>c. if c = 1 then At (AwMulti False True [0]) SSuspended else if c = 0 then Plain else Go)" "word t 0 = WCbs [CbHelper 1 0]" "cnt t 1 = 1" "job t 1"
    "pending t = (\<lambda>f. [])" "executor t = (\<lambda>f. Some 7)" by blast
  have r: "aw_reach False t" using aw_run_reach [OF begin_reach [OF aw_reach.start [OF aw_start_init] shared_begin(2)] t(1)] by (simp add: list_all_iff)
  have b2: "begin_ok False 2 (AwMulti False True [0]) t" using t(2,3) by (simp add: begin_ok_def)
  have "\<exists>u. aw_run (replicate 6 (Turn 2)) (make_awaiter 2 (AwMulti False True [0]) t) = Some u \<and> is_shared u 0 \<and>
     pc u = (\<lambda>c. if c = 1 \<or> c = 2 then At (AwMulti False True [0]) SSuspended else if c = 0 then Plain else Go) \<and> word u 0 = WCbs [CbHelper 2 0, CbHelper 1 0] \<and>
     cnt u 1 = 1 \<and> job u 1 \<and> cnt u 2 = 1 \<and> job u 2 \<and> pending u = (\<lambda>f. []) \<and> executor u = (\<lambda>f. Some 7)"
    using t(2-8) by (simp add: aw_simps fun_eq_iff eval_nat_numeral)
  then obtain u where u: "aw_run (replicate 6 (Turn 2)) (make_awaiter 2 (AwMulti False True [0]) t) = Some u" "is_shared u 0"
    "pc u = (\<lambda>c. if c = 1 \<or> c = 2 then At (AwMulti False True [0]) SSuspended else if c = 0 then Plain else Go)" "word u 0 = WCbs [CbHelper 2 0, CbHelper 1 0]"
    "cnt u 1 = 1" "job u 1" "cnt u 2 = 1" "job u 2" "pending u = (\<lambda>f. [])" "executor u = (\<lambda>f. Some 7)" by blast
  have ru: "aw_reach False u" using aw_run_reach [OF begin_reach [OF r b2] u(1)] by (simp add: list_all_iff)
  have "\<exists>v. aw_move (Complete 0) u = Some v \<and> aw_reach False v" 
    using aw_reach.move [OF ru, of "Complete 0"] u(3,4) by (simp add: enabled_def aw_simps)
  then obtain v where v: "aw_move (Complete 0) u = Some v" "aw_reach False v" by blast
  have "\<exists>x. aw_run [Callback 0] v = Some x \<and> is_shared x 0 \<and> pc x = (\<lambda>c. if c = 2 then Go else if c = 1 then At (AwMulti False True [0]) SSuspended else if c = 0 then Finished else Go) \<and>
     cnt x 1 = 1 \<and> job x 1 \<and> pending x 0 = [CbHelper 1 0] \<and> executor x 0 = None \<and> word x 0 = WResult"
    using v(1) u(2-10) by (auto simp: aw_simps fun_eq_iff)
  then obtain x where x: "aw_run [Callback 0] v = Some x" "is_shared x 0" "pc x = (\<lambda>c. if c = 2 then Go else if c = 1 then At (AwMulti False True [0]) SSuspended else if c = 0 then Finished else Go)"
    "cnt x 1 = 1" "job x 1" "pending x 0 = [CbHelper 1 0]" "executor x 0 = None" "word x 0 = WResult" by blast
  have "aw_reach False x" using aw_run_reach [OF v(2) x(1)] by simp
  moreover have "{op. \<exists>c. in_op x c op} = {AwMulti False True [0]}" using x(3) by (auto simp: in_op_def split: if_splits)
  moreover have "aw_move (Callback 0) x = None" using x(3-8) by (simp add: aw_simps)
  ultimately show ?thesis
    using x(2,6-8) by (intro exI [of _ x]) (auto simp: enabled_def)
qed

text \<open>
  Two coroutines that await one shared future may fail, although each has a shared future of its own. Two that \<open>co_await\<close> it:
  the second finds the core not empty, because the callback of the first is there, does not suspend, and reads a result that is
  not stored. Two that \<open>Await\<close> a range with it: the first that is resumed takes the executor out of the core, and the second
  finds none.
\<close>

lemma await_shared:
  "(\<exists>s. aw_reach False s \<and> is_shared s 0 \<and> {op. \<exists>c. in_op s c op} = {AwAwait True 0} \<and> enabled False (Turn 2) s \<and>
        word s 0 = WCbs [CbPromise 1] \<and> aw_move (Turn 2) s = None) \<and>
   (\<exists>s. aw_reach False s \<and> is_shared s 0 \<and> {op. \<exists>c. in_op s c op} = {AwMulti False True [0]} \<and> enabled False (Callback 0) s \<and>
        word s 0 = WResult \<and> executor s 0 = None \<and> aw_move (Callback 0) s = None)"
  using shared_ready shared_executor by blast

end
