(* ===== verification/Whens.thy ===== *)
theory Whens
  imports Prelude
begin

section \<open>Combinators: WhenAll, WhenAny and Join\<close>

text \<open>
  \<open>async/when/when.hpp\<close> is the combinator: a reference counted object with a promise and a strategy, one
  reference for every input. One thread, in \<open>Set\<close>, gives each input core its callback, or consumes the core at
  once if its result is there; the producer of an input with a callback consumes it later. Each consumption ends
  with \<open>DecRef\<close>, and the last one runs the destructor of the strategy. The strategies are \<open>all.hpp\<close>,
  \<open>all_tuple.hpp\<close>, \<open>any.hpp\<close> and \<open>join.hpp\<close>. A step is one atomic operation with the private work around it.

  Inputs are numbered. The result of input \<open>i\<close> is \<open>res s ! i\<close>, an error or a value. An operation that the code forbids, like
  reading a core that was released, has the value None. The three combinators of \<open>when.hpp\<close> differ only in the object that
  is the callback of an input, and are one model. An input is a future or a shared future; the model has the reference of the combinator.
\<close>

subsection \<open>States\<close>

datatype fail_policy = FPNone | FirstFail | LastFail

datatype strategy = All fail_policy | AllTuple fail_policy | Any fail_policy | Join fail_policy

text \<open>The instances the code has.\<close>

fun supported :: "strategy \<Rightarrow> bool" where
  "supported (Any f) = True"
| "supported (All f) = (f \<noteq> LastFail)"
| "supported (AllTuple f) = (f \<noteq> LastFail)"
| "supported (Join f) = (f \<noteq> LastFail)"

datatype consume_policy = CPNone | Unordered | Static | Dynamic
datatype core_policy = Owned | Managed

fun kConsumePolicy :: "strategy \<Rightarrow> consume_policy" where
  "kConsumePolicy (All FPNone) = CPNone"
| "kConsumePolicy (All _) = Unordered"
| "kConsumePolicy (AllTuple _) = Static"
| "kConsumePolicy (Any _) = Unordered"
| "kConsumePolicy (Join FPNone) = CPNone"
| "kConsumePolicy (Join _) = Unordered"

fun kCorePolicy :: "strategy \<Rightarrow> core_policy" where
  "kCorePolicy (All _) = Owned"
| "kCorePolicy _ = Managed"

datatype ('v, 'e) answer =
  OResults "('e + 'v) list" | OValues "'v list" | OTuple "('e + 'v) option list" | OValue 'v | OError 'e | OUnit | OStop

text \<open>
  How far the consumption of an input is: not begun, at \<open>Consume\<close>, between its load and its read-modify-write, after winning it,
  at \<open>DecRef\<close>, at the destructor, over.
\<close>

datatype cph = CIdle | CStart | CTry | CWon | CRel | CDtor | CEnd

text \<open>The word of an input core: empty, with the callback, with the result. And where the thread in \<open>Set\<close> is.\<close>

datatype cw = WEmpty | WCallback | WResult
datatype rpc = RAt nat | RIn nat

record ('v, 'e) comb =
  res :: "('e + 'v) list"
  word :: u64
  cores :: "bool list"
  tuple :: "('e + 'v) option list"
  errslot :: "'e option"
  psets :: "('v, 'e) answer list"
  refs :: nat
  phs :: "cph list"
  words :: "cw list"
  reg :: rpc
  rel :: "bool list"
  dead :: bool
  tries :: "nat list"

text \<open>
  \<open>word\<close> is \<open>_done\<close> or \<open>_state\<close> of the strategy, \<open>cores\<close> says which entries of \<open>_cores\<close> are set, \<open>tuple\<close> is \<open>_tuple\<close>, \<open>errslot\<close>
  the union with the error; \<open>psets\<close> is what the promise was set to, \<open>rel\<close> which cores were released. Not in the code: \<open>tries\<close> is
  the order of the read-modify-write operations on \<open>word\<close>.
\<close>

definition initial_word :: "strategy \<Rightarrow> nat \<Rightarrow> u64" where
  "initial_word st n = (if st = Any LastFail then 2 * of_nat n else 0)"

definition When_new :: "strategy \<Rightarrow> ('e + 'v) list \<Rightarrow> ('v, 'e) comb" where
  "When_new st rs =
     (let n = length rs in
      \<lparr>res = rs, word = initial_word st n, cores = replicate n False, tuple = replicate n None, errslot = None, psets = [],
       refs = n, phs = replicate n CIdle, words = replicate n WEmpty, reg = RAt 0, rel = replicate n False,
       dead = False, tries = []\<rparr>)"

subsection \<open>Cores and the promise\<close>

definition Valid :: "('v, 'e) comb \<Rightarrow> bool" where
  "Valid s \<longleftrightarrow> psets s = []"

definition Set_promise :: "('v, 'e) answer \<Rightarrow> ('v, 'e) comb \<Rightarrow> ('v, 'e) comb" where
  "Set_promise x s = s\<lparr>psets := psets s @ [x]\<rparr>"

definition core_Get :: "nat \<Rightarrow> ('v, 'e) comb \<Rightarrow> ('e + 'v) option" where
  "core_Get i s = (if rel s ! i then None else Some (res s ! i))"

definition release_core :: "nat \<Rightarrow> ('v, 'e) comb \<Rightarrow> ('v, 'e) comb option" where
  "release_core i s = (if rel s ! i then None else Some (s\<lparr>rel := (rel s)[i := True]\<rparr>))"

definition Retire :: "nat \<Rightarrow> ('v, 'e) comb \<Rightarrow> (('e + 'v) \<times> ('v, 'e) comb) option" where
  "Retire i s = Option.bind (core_Get i s) (\<lambda>r. Option.bind (release_core i s) (\<lambda>s. Some (r, s)))"

definition Register :: "strategy \<Rightarrow> nat \<Rightarrow> ('v, 'e) comb \<Rightarrow> ('v, 'e) comb" where
  "Register st i s = (if kCorePolicy st = Owned then s\<lparr>cores := (cores s)[i := True]\<rparr> else s)"

fun to_answer :: "'e + 'v \<Rightarrow> ('v, 'e) answer" where
  "to_answer (Inl e) = OError e" | "to_answer (Inr v) = OValue v"

definition Ok :: "'e + 'v \<Rightarrow> bool" where
  "Ok r \<longleftrightarrow> \<not> isl r"

subsection \<open>The strategies\<close>

text \<open>
  \<open>Consume\<close> of each strategy, with the result of the input: its first part up to the load, the read-modify-write, and what
  the winner does.
\<close>

definition exchange_done :: "nat \<Rightarrow> ('v, 'e) comb \<Rightarrow> cph \<times> ('v, 'e) comb" where
  "exchange_done i s = (if word s = 0 then CWon else CRel, s\<lparr>word := 1, tries := tries s @ [i]\<rparr>)"

definition fetch_or :: "u64 \<Rightarrow> nat \<Rightarrow> ('v, 'e) comb \<Rightarrow> cph \<times> ('v, 'e) comb" where
  "fetch_or k i s = (if and (word s) k = 0 then CWon else CRel, s\<lparr>word := or (word s) k, tries := tries s @ [i]\<rparr>)"

definition All_FirstFail_Consume :: "cph \<Rightarrow> nat \<Rightarrow> 'e + 'v \<Rightarrow> ('v, 'e) comb \<Rightarrow> cph \<times> ('v, 'e) comb" where
  "All_FirstFail_Consume ph i result s =
     (case ph of
        CStart \<Rightarrow> (if \<not> Ok result \<and> word s = 0 then CTry else CRel, s)
      | CTry \<Rightarrow> exchange_done i s
      | _ \<Rightarrow> (CRel, Set_promise (to_answer result) s))"

definition Join_FirstFail_Consume :: "cph \<Rightarrow> nat \<Rightarrow> 'e + 'v \<Rightarrow> ('v, 'e) comb \<Rightarrow> cph \<times> ('v, 'e) comb" where
  "Join_FirstFail_Consume ph i result s =
     (case ph of
        CStart \<Rightarrow> (if \<not> Ok result \<and> word s = 0 then CTry else CRel, s)
      | CTry \<Rightarrow> exchange_done i s
      | _ \<Rightarrow> (CRel, Set_promise (to_answer result) s))"

definition AllTuple_None_Consume :: "nat \<Rightarrow> 'e + 'v \<Rightarrow> ('v, 'e) comb \<Rightarrow> cph \<times> ('v, 'e) comb" where
  "AllTuple_None_Consume i result s = (CRel, s\<lparr>tuple := (tuple s)[i := Some result]\<rparr>)"

definition AllTuple_FirstFail_Consume :: "cph \<Rightarrow> nat \<Rightarrow> 'e + 'v \<Rightarrow> ('v, 'e) comb \<Rightarrow> cph \<times> ('v, 'e) comb" where
  "AllTuple_FirstFail_Consume ph i result s =
     (case ph of
        CStart \<Rightarrow>
          if Ok result then (CRel, s\<lparr>tuple := (tuple s)[i := Some result]\<rparr>)
          else (if word s = 0 then CTry else CRel, s)
      | CTry \<Rightarrow> exchange_done i s
      | _ \<Rightarrow> (CRel, Set_promise (to_answer result) s))"

definition Any_None_Consume :: "cph \<Rightarrow> nat \<Rightarrow> 'e + 'v \<Rightarrow> ('v, 'e) comb \<Rightarrow> cph \<times> ('v, 'e) comb" where
  "Any_None_Consume ph i result s =
     (case ph of
        CStart \<Rightarrow> (if word s = 0 then CTry else CRel, s)
      | CTry \<Rightarrow> exchange_done i s
      | _ \<Rightarrow> (CRel, Set_promise (to_answer result) s))"

definition Any_FirstFail_Consume :: "cph \<Rightarrow> nat \<Rightarrow> 'e + 'v \<Rightarrow> ('v, 'e) comb \<Rightarrow> cph \<times> ('v, 'e) comb" where
  "Any_FirstFail_Consume ph i result s =
     (case result of
        Inr v \<Rightarrow>
          (case ph of
             CStart \<Rightarrow> (if and (word s) 1 = 0 then CTry else CRel, s)
           | CTry \<Rightarrow> fetch_or 1 i s
           | _ \<Rightarrow> (CRel, Set_promise (OValue v) s))
      | Inl e \<Rightarrow>
          (case ph of
             CStart \<Rightarrow> (if word s = 0 then CTry else CRel, s)
           | CTry \<Rightarrow> fetch_or 2 i s
           | _ \<Rightarrow> (CRel, s\<lparr>errslot := Some e\<rparr>)))"

definition DoneImpl :: "u64 \<Rightarrow> bool" where
  "DoneImpl w \<longleftrightarrow> and w 1 \<noteq> 0"

definition Any_LastFail_Consume :: "cph \<Rightarrow> nat \<Rightarrow> 'e + 'v \<Rightarrow> ('v, 'e) comb \<Rightarrow> cph \<times> ('v, 'e) comb" where
  "Any_LastFail_Consume ph i result s =
     (case ph of
        CStart \<Rightarrow> (if \<not> DoneImpl (word s) then CTry else CRel, s)
      | CTry \<Rightarrow>
          if Ok result then (if \<not> DoneImpl (word s) then CWon else CRel, s\<lparr>word := 1, tries := tries s @ [i]\<rparr>)
          else (if word s = 2 then CWon else CRel, s\<lparr>word := word s - 2, tries := tries s @ [i]\<rparr>)
      | _ \<Rightarrow> (CRel, Set_promise (to_answer result) s))"

fun st_Consume :: "strategy \<Rightarrow> cph \<Rightarrow> nat \<Rightarrow> 'e + 'v \<Rightarrow> ('v, 'e) comb \<Rightarrow> cph \<times> ('v, 'e) comb" where
  "st_Consume (All f) = All_FirstFail_Consume"
| "st_Consume (AllTuple f) = (if f = FPNone then (\<lambda>_. AllTuple_None_Consume) else AllTuple_FirstFail_Consume)"
| "st_Consume (Any FPNone) = Any_None_Consume"
| "st_Consume (Any FirstFail) = Any_FirstFail_Consume"
| "st_Consume (Any LastFail) = Any_LastFail_Consume"
| "st_Consume (Join f) = Join_FirstFail_Consume"

text \<open>\<open>ConsumeImpl\<close> and \<open>Consume\<close> of the combinator: a strategy gets the core, its result, or nothing.\<close>

definition ConsumeImpl :: "strategy \<Rightarrow> nat \<Rightarrow> ('v, 'e) comb \<Rightarrow> (cph \<times> ('v, 'e) comb) option" where
  "ConsumeImpl st i s =
     (if kCorePolicy st = Owned then map_option (\<lambda>r. st_Consume st CStart i r s) (core_Get i s)
      else map_option (\<lambda>(r, s). st_Consume st CStart i r s) (Retire i s))"

definition Consume :: "strategy \<Rightarrow> nat \<Rightarrow> ('v, 'e) comb \<Rightarrow> (cph \<times> ('v, 'e) comb) option" where
  "Consume st i s =
     (if kConsumePolicy st = CPNone then
        if kCorePolicy st = Managed then map_option (\<lambda>s. (CRel, s)) (release_core i s) else Some (CRel, s)
      else ConsumeImpl st i s)"

subsection \<open>The destructors\<close>

fun retire_all :: "nat list \<Rightarrow> ('v, 'e) comb \<Rightarrow> (('e + 'v) list \<times> ('v, 'e) comb) option" where
  "retire_all [] s = Some ([], s)"
| "retire_all (i # is) s =
     (if cores s ! i then
        Option.bind (Retire i s) (\<lambda>(r, s). map_option (\<lambda>(rs, s). (r # rs, s)) (retire_all is s))
      else None)"

fun decref_all :: "nat list \<Rightarrow> ('v, 'e) comb \<Rightarrow> ('v, 'e) comb option" where
  "decref_all [] s = Some s"
| "decref_all (i # is) s = (if cores s ! i then Option.bind (release_core i s) (decref_all is) else None)"

definition All_None_dtor :: "('v, 'e) comb \<Rightarrow> ('v, 'e) comb option" where
  "All_None_dtor s = map_option (\<lambda>(out, s). Set_promise (OResults out) s) (retire_all [0..<length (cores s)] s)"

text \<open>\<open>GetValue\<close> of a result that is an error is undefined.\<close>

definition All_FirstFail_dtor :: "('v, 'e) comb \<Rightarrow> ('v, 'e) comb option" where
  "All_FirstFail_dtor s =
     (if Valid s then
        Option.bind (retire_all [0..<length (cores s)] s) (\<lambda>(rs, s).
          if list_all Ok rs then Some (Set_promise (OValues (map projr rs)) s) else None)
      else decref_all [0..<length (cores s)] s)"

definition Join_None_dtor :: "('v, 'e) comb \<Rightarrow> ('v, 'e) comb option" where
  "Join_None_dtor s = Some (Set_promise OUnit s)"

definition Join_FirstFail_dtor :: "('v, 'e) comb \<Rightarrow> ('v, 'e) comb option" where
  "Join_FirstFail_dtor s = Some (if Valid s then Set_promise OUnit s else s)"

definition AllTuple_None_dtor :: "('v, 'e) comb \<Rightarrow> ('v, 'e) comb option" where
  "AllTuple_None_dtor s = Some (Set_promise (OTuple (tuple s)) s)"

definition AllTuple_FirstFail_dtor :: "('v, 'e) comb \<Rightarrow> ('v, 'e) comb option" where
  "AllTuple_FirstFail_dtor s = Some (if Valid s then Set_promise (OTuple (tuple s)) s else s)"

definition Any_FirstFail_dtor :: "('v, 'e) comb \<Rightarrow> ('v, 'e) comb option" where
  "Any_FirstFail_dtor s =
     (if Valid s then map_option (\<lambda>e. Set_promise (OError e) s) (if and (word s) 2 \<noteq> 0 then errslot s else None)
      else Some s)"

text \<open>The member \<open>_p\<close> is destroyed last: a promise that was not set is set to the stop tag.\<close>

definition dtor_promise :: "('v, 'e) comb \<Rightarrow> ('v, 'e) comb" where
  "dtor_promise s = (if Valid s then Set_promise OStop s else s)"

fun st_dtor :: "strategy \<Rightarrow> ('v, 'e) comb \<Rightarrow> ('v, 'e) comb option" where
  "st_dtor (All f) = (if f = FPNone then All_None_dtor else All_FirstFail_dtor)"
| "st_dtor (AllTuple f) = (if f = FPNone then AllTuple_None_dtor else AllTuple_FirstFail_dtor)"
| "st_dtor (Any f) = (if f = FirstFail then Any_FirstFail_dtor else Some)"
| "st_dtor (Join f) = (if f = FPNone then Join_None_dtor else Join_FirstFail_dtor)"

definition destroy :: "strategy \<Rightarrow> ('v, 'e) comb \<Rightarrow> ('v, 'e) comb option" where
  "destroy st s = map_option (\<lambda>s. (dtor_promise s)\<lparr>dead := True\<rparr>) (st_dtor st s)"

subsection \<open>Steps\<close>

text \<open>In \<open>Consume\<close> the result is a reference into the core, or a local object that was moved out of it.\<close>

definition held_result :: "strategy \<Rightarrow> nat \<Rightarrow> ('v, 'e) comb \<Rightarrow> ('e + 'v) option" where
  "held_result st i s = (if kCorePolicy st = Owned then core_Get i s else Some (res s ! i))"

text \<open>The next step of whoever consumes input \<open>i\<close>; on a destroyed combinator there is none.\<close>

definition consume_step :: "strategy \<Rightarrow> nat \<Rightarrow> ('v, 'e) comb \<Rightarrow> (cph \<times> ('v, 'e) comb) option" where
  "consume_step st i s =
     (if dead s then None else
      case phs s ! i of
        CStart \<Rightarrow> Consume st i s
      | CTry \<Rightarrow> map_option (\<lambda>r. st_Consume st CTry i r s) (held_result st i s)
      | CWon \<Rightarrow> map_option (\<lambda>r. st_Consume st CWon i r s) (held_result st i s)
      | CRel \<Rightarrow> Some (if refs s = 1 then CDtor else CEnd, s\<lparr>refs := refs s - 1\<rparr>)
      | CDtor \<Rightarrow> map_option (\<lambda>s. (CEnd, s)) (destroy st s)
      | _ \<Rightarrow> None)"

definition put_ph :: "nat \<Rightarrow> cph \<times> ('v, 'e) comb \<Rightarrow> ('v, 'e) comb" where
  "put_ph i r = (case r of (p, s) \<Rightarrow> s\<lparr>phs := (phs s)[i := p]\<rparr>)"

text \<open>One turn of the loop of \<open>Set\<close>, up to \<open>SetCallback\<close>.\<close>

definition Set_turn :: "strategy \<Rightarrow> nat \<Rightarrow> ('v, 'e) comb \<Rightarrow> ('v, 'e) comb" where
  "Set_turn st i s =
     (let s = Register st i s
      in if words s ! i = WResult then put_ph i (CStart, s\<lparr>reg := RIn i\<rparr>)
         else s\<lparr>words := (words s)[i := WCallback], reg := RAt (Suc i)\<rparr>)"

text \<open>The producer of an input stores the result; if there is a callback, it runs it.\<close>

definition produce_input :: "nat \<Rightarrow> ('v, 'e) comb \<Rightarrow> ('v, 'e) comb" where
  "produce_input i s =
     (let s' = s\<lparr>words := (words s)[i := WResult]\<rparr>
      in if words s ! i = WCallback then put_ph i (CStart, s') else s')"

inductive when_step :: "strategy \<Rightarrow> ('v, 'e) comb \<Rightarrow> ('v, 'e) comb \<Rightarrow> bool" for st where
  w_produce: "i < length (res s) \<Longrightarrow> words s ! i \<noteq> WResult \<Longrightarrow> when_step st s (produce_input i s)"
| w_set: "reg s = RAt i \<Longrightarrow> i < length (res s) \<Longrightarrow> \<not> dead s \<Longrightarrow> when_step st s (Set_turn st i s)"
| w_next: "reg s = RIn i \<Longrightarrow> phs s ! i = CEnd \<Longrightarrow> when_step st s (s\<lparr>reg := RAt (Suc i)\<rparr>)"
| w_consume: "i < length (res s) \<Longrightarrow> consume_step st i s = Some r \<Longrightarrow> when_step st s (put_ph i r)"

abbreviation when_reach :: "strategy \<Rightarrow> ('v, 'e) comb \<Rightarrow> ('v, 'e) comb \<Rightarrow> bool" where
  "when_reach st \<equiv> (when_step st)\<^sup>*\<^sup>*"

text \<open>The thread in \<open>Set\<close> has left the loop and every input was consumed.\<close>

definition complete :: "('v, 'e) comb \<Rightarrow> bool" where
  "complete s \<longleftrightarrow> reg s = RAt (length (res s)) \<and> (\<forall>p \<in> set (phs s). p = CEnd)"

subsection \<open>The life of the combinator\<close>

text \<open>Whether the thread in \<open>Set\<close> has passed input \<open>j\<close>.\<close>

fun passed :: "rpc \<Rightarrow> nat \<Rightarrow> bool" where
  "passed (RAt k) j = (j < k)" | "passed (RIn k) j = (j \<le> k)"

fun reg_ok :: "rpc \<Rightarrow> nat \<Rightarrow> bool" where
  "reg_ok (RAt k) n = (k \<le> n)" | "reg_ok (RIn k) n = (k < n)"

definition live :: "cph \<Rightarrow> nat" where
  "live p = (if p = CDtor \<or> p = CEnd then 0 else 1)"

definition dtors :: "cph \<Rightarrow> nat" where
  "dtors p = (if p = CDtor then 1 else 0)"

definition idx_ok :: "strategy \<Rightarrow> bool \<Rightarrow> cw \<Rightarrow> cph \<Rightarrow> bool \<Rightarrow> bool" where
  "idx_ok st was w p reged \<longleftrightarrow>
     (if was then w \<noteq> WEmpty \<and> (w = WCallback \<longleftrightarrow> p = CIdle) \<and> (kCorePolicy st = Owned \<longrightarrow> reged)
      else w \<noteq> WCallback \<and> p = CIdle)"

definition counts_ok :: "nat \<Rightarrow> bool \<Rightarrow> cph list \<Rightarrow> bool" where
  "counts_ok r d ps \<longleftrightarrow> r = sum_list (map live ps) \<and> sum_list (map dtors ps) = (if r = 0 \<and> \<not> d then 1 else 0) \<and> (d \<longrightarrow> r = 0)"

definition life_inv :: "strategy \<Rightarrow> ('v, 'e) comb \<Rightarrow> bool" where
  "life_inv st s \<longleftrightarrow>
     (let n = length (res s) in length (cores s) = n \<and> length (tuple s) = n \<and> length (phs s) = n \<and> length (words s) = n \<and>
        length (rel s) = n \<and> reg_ok (reg s) n \<and>
        (\<forall>j < n. idx_ok st (passed (reg s) j) (words s ! j) (phs s ! j) (cores s ! j)) \<and>
        counts_ok (refs s) (dead s) (phs s))"

lemma life_inv_new: "rs \<noteq> [] \<Longrightarrow> life_inv st (When_new st rs)"
proof -
  assume "rs \<noteq> []"
  moreover have "sum_list (map live (replicate n CIdle)) = n" for n
    by (induction n) (simp_all add: live_def)
  moreover have "sum_list (map dtors (replicate n CIdle)) = 0" for n
    by (rule sum_list_replicate_zero) (simp add: dtors_def)
  ultimately show ?thesis
    by (auto simp: life_inv_def When_new_def Let_def idx_ok_def counts_ok_def simp del: map_replicate sum_list_replicate)
qed

text \<open>The phases move only along these lines; only \<open>DecRef\<close> and the destructor change the count and the flag.\<close>

definition local_move :: "cph \<Rightarrow> cph \<Rightarrow> bool" where
  "local_move p q \<longleftrightarrow> (p, q) \<in> {(CStart, CTry), (CStart, CRel), (CTry, CWon), (CTry, CRel), (CWon, CRel)}"

definition frame :: "('v, 'e) comb \<Rightarrow> ('v, 'e) comb \<Rightarrow> bool" where
  "frame s t \<longleftrightarrow> res t = res s \<and> cores t = cores s \<and> phs t = phs s \<and> words t = words s \<and> reg t = reg s \<and>
     length (tuple t) = length (tuple s) \<and> length (rel t) = length (rel s) \<and> refs t = refs s \<and> dead t = dead s"

lemma frame_refl [simp]: "frame s s"
  by (simp add: frame_def)

lemma frame_trans: "frame s t \<Longrightarrow> frame t u \<Longrightarrow> frame s u"
  by (simp add: frame_def)

lemma Retire_Some: "Retire i s = Some (r, t) \<longleftrightarrow> \<not> rel s ! i \<and> r = res s ! i \<and> t = s\<lparr>rel := (rel s)[i := True]\<rparr>"
  by (auto simp: Retire_def core_Get_def release_core_def)

lemma release_Some: "release_core i s = Some t \<longleftrightarrow> \<not> rel s ! i \<and> t = s\<lparr>rel := (rel s)[i := True]\<rparr>"
  by (auto simp: release_core_def)

text \<open>The three parts of \<open>Consume\<close>, for all strategies at once.\<close>

fun skips :: "strategy \<Rightarrow> 'e + 'v \<Rightarrow> u64 \<Rightarrow> bool" where
  "skips (All f) r w = (Ok r \<or> w \<noteq> 0)"
| "skips (Join f) r w = (Ok r \<or> w \<noteq> 0)"
| "skips (AllTuple f) r w = (f = FPNone \<or> Ok r \<or> w \<noteq> 0)"
| "skips (Any FPNone) r w = (w \<noteq> 0)"
| "skips (Any FirstFail) r w = (if Ok r then and w 1 \<noteq> 0 else w \<noteq> 0)"
| "skips (Any LastFail) r w = DoneImpl w"

fun stores :: "strategy \<Rightarrow> 'e + 'v \<Rightarrow> bool" where
  "stores (AllTuple f) r = (f = FPNone \<or> Ok r)" | "stores _ r = False"

fun wins :: "strategy \<Rightarrow> 'e + 'v \<Rightarrow> u64 \<Rightarrow> bool" where
  "wins (Any FirstFail) r w = (if Ok r then and w 1 = 0 else and w 2 = 0)"
| "wins (Any LastFail) r w = (if Ok r then \<not> DoneImpl w else w = 2)"
| "wins _ r w = (w = 0)"

fun word_after :: "strategy \<Rightarrow> 'e + 'v \<Rightarrow> u64 \<Rightarrow> u64" where
  "word_after (Any FirstFail) r w = or w (if Ok r then 1 else 2)"
| "word_after (Any LastFail) r w = (if Ok r then 1 else w - 2)"
| "word_after _ r w = 1"

lemma start_effect:
  "st_Consume st CStart i r s =
     (if skips st r (word s) then CRel else CTry, if stores st r then s\<lparr>tuple := (tuple s)[i := Some r]\<rparr> else s)"
  by (cases st rule: st_Consume.cases)
     (simp_all add: All_FirstFail_Consume_def Join_FirstFail_Consume_def AllTuple_None_Consume_def
       AllTuple_FirstFail_Consume_def Any_None_Consume_def Any_FirstFail_Consume_def Any_LastFail_Consume_def Ok_def split: sum.splits)

lemma try_effect:
  "st \<noteq> AllTuple FPNone \<Longrightarrow> st_Consume st CTry i r s =
     (if wins st r (word s) then CWon else CRel, s\<lparr>word := word_after st r (word s), tries := tries s @ [i]\<rparr>)"
  by (cases st rule: st_Consume.cases)
     (simp_all add: All_FirstFail_Consume_def Join_FirstFail_Consume_def AllTuple_FirstFail_Consume_def
       Any_None_Consume_def Any_FirstFail_Consume_def Any_LastFail_Consume_def exchange_done_def fetch_or_def Ok_def split: sum.splits)

definition err_claim :: "strategy \<Rightarrow> 'e + 'v \<Rightarrow> bool" where
  "err_claim st r \<longleftrightarrow> st = Any FirstFail \<and> \<not> Ok r"

lemma won_effect:
  "st \<noteq> AllTuple FPNone \<Longrightarrow> st_Consume st CWon i r s =
     (CRel, if err_claim st r then s\<lparr>errslot := Some (projl r)\<rparr> else Set_promise (to_answer r) s)"
  by (cases st rule: st_Consume.cases)
     (simp_all add: All_FirstFail_Consume_def Join_FirstFail_Consume_def AllTuple_FirstFail_Consume_def
       Any_None_Consume_def Any_FirstFail_Consume_def Any_LastFail_Consume_def err_claim_def Ok_def split: sum.splits)

text \<open>Strategies whose \<open>Consume\<close> has a read-modify-write of \<open>word\<close>.\<close>

definition uses_word :: "strategy \<Rightarrow> bool" where
  "uses_word st \<longleftrightarrow> kConsumePolicy st \<noteq> CPNone \<and> st \<noteq> AllTuple FPNone"

definition started :: "strategy \<Rightarrow> nat \<Rightarrow> ('v, 'e) comb \<Rightarrow> ('v, 'e) comb" where
  "started st i s = s\<lparr>rel := (if kCorePolicy st = Managed then (rel s)[i := True] else rel s),
     tuple := (if stores st (res s ! i) then (tuple s)[i := Some (res s ! i)] else tuple s)\<rparr>"

lemma no_store: "kConsumePolicy st = CPNone \<Longrightarrow> \<not> stores st r"
  by (cases st rule: kConsumePolicy.cases) simp_all

lemma skip_unused: "skips (AllTuple FPNone) r w"
  by simp

lemma Consume_effect:
  "Consume st i s =
     (if st = All FPNone then Some (CRel, s)
      else if rel s ! i then None
      else Some (if uses_word st \<and> \<not> skips st (res s ! i) (word s) then CTry else CRel, started st i s))"
proof (cases "kConsumePolicy st = CPNone")
  case True
  then have "st = All FPNone \<or> st = Join FPNone" by (cases st rule: kConsumePolicy.cases) simp_all
  then show ?thesis by (auto simp: Consume_def release_core_def uses_word_def started_def)
next
  case False
  then have n: "st \<noteq> All FPNone" by auto
  have skip: "skips st (res s ! i) (word s) \<or> uses_word st" using False by (auto simp: uses_word_def)
  show ?thesis
  proof (cases "kCorePolicy st = Owned")
    case True
    then show ?thesis using False n skip
      by (cases st) (auto simp: Consume_def ConsumeImpl_def core_Get_def start_effect started_def simp del: st_Consume.simps)
  next
    case own: False
    then have "kCorePolicy st = Managed" by (cases "kCorePolicy st") auto
    then show ?thesis using False n skip
      by (auto simp: Consume_def ConsumeImpl_def Retire_def core_Get_def release_core_def start_effect started_def
          simp del: st_Consume.simps)
  qed
qed

lemma retire_all_only: "retire_all is s = Some (rs, t) \<Longrightarrow> \<exists>r. t = s\<lparr>rel := r\<rparr> \<and> length r = length (rel s)"
proof (induction "is" arbitrary: s rs)
  case (Cons i js)
  then obtain rs' where "retire_all js (s\<lparr>rel := (rel s)[i := True]\<rparr>) = Some (rs', t)"
    by (auto simp: bind_eq_Some_conv Retire_Some split: if_splits prod.splits)
  from Cons.IH [OF this] show ?case by simp
next
  case Nil
  then show ?case by (intro exI [of _ "rel s"]) simp
qed

lemma decref_all_only: "decref_all is s = Some t \<Longrightarrow> \<exists>r. t = s\<lparr>rel := r\<rparr> \<and> length r = length (rel s)"
proof (induction "is" arbitrary: s)
  case (Cons i js)
  then have "decref_all js (s\<lparr>rel := (rel s)[i := True]\<rparr>) = Some t"
    by (auto simp: bind_eq_Some_conv release_Some split: if_splits)
  from Cons.IH [OF this] show ?case by simp
next
  case Nil
  then show ?case by (intro exI [of _ "rel s"]) simp
qed

definition frame_dead :: "('v, 'e) comb \<Rightarrow> ('v, 'e) comb \<Rightarrow> bool" where
  "frame_dead s t \<longleftrightarrow> frame (s\<lparr>dead := True\<rparr>) t"

lemma destroy_frame:
  assumes "destroy st s = Some t"
  shows "frame_dead s t"
proof -
  have P: "frame s (dtor_promise s)" for s :: "('a, 'b) comb"
    by (simp add: frame_def dtor_promise_def Set_promise_def)
  have R: "frame s u" if "\<exists>r. u = s\<lparr>rel := r\<rparr> \<and> length r = length (rel s)" for u :: "('a, 'b) comb"
    using that by (auto simp: frame_def)
  have Q: "frame s (Set_promise x s)" for s :: "('a, 'b) comb" and x by (simp add: frame_def Set_promise_def)
  from assms obtain u where u: "st_dtor st s = Some u" and t: "t = (dtor_promise u)\<lparr>dead := True\<rparr>"
    by (auto simp: destroy_def)
  have "frame s u"
  proof (cases st)
    case (All f)
    then show ?thesis using u R Q
      by (auto simp: All_None_dtor_def All_FirstFail_dtor_def bind_eq_Some_conv split: if_splits
          dest!: retire_all_only decref_all_only intro: frame_trans)
  qed (use u Q in \<open>auto simp: Join_None_dtor_def Join_FirstFail_dtor_def AllTuple_None_dtor_def
      AllTuple_FirstFail_dtor_def Any_FirstFail_dtor_def split: if_splits\<close>)
  then show ?thesis using P [of u] unfolding t frame_dead_def by (simp add: frame_def)
qed

text \<open>What a step of a consumption does to the phases, the count and the flag.\<close>

lemma consume_step_frame:
  assumes "consume_step st i s = Some (q, t)" and "supported st"
  shows "local_move (phs s ! i) q \<and> frame s t \<or>
    phs s ! i = CRel \<and> q = (if refs s = 1 then CDtor else CEnd) \<and> t = s\<lparr>refs := refs s - 1\<rparr> \<or>
    phs s ! i = CDtor \<and> q = CEnd \<and> frame_dead s t"
proof (cases "phs s ! i")
  case CStart
  then have "Consume st i s = Some (q, t)" using assms by (simp add: consume_step_def split: if_splits)
  then show ?thesis using CStart
    by (auto simp: Consume_effect local_move_def frame_def started_def split: if_splits)
next
  case CTry
  show ?thesis
  proof (cases "st = AllTuple FPNone")
    case True
    then show ?thesis using assms CTry
      by (auto simp: consume_step_def local_move_def frame_def AllTuple_None_Consume_def split: if_splits)
  next
    case False
    then show ?thesis using assms CTry
      by (auto simp: consume_step_def local_move_def frame_def try_effect split: if_splits)
  qed
next
  case CWon
  show ?thesis
  proof (cases "st = AllTuple FPNone")
    case True
    then show ?thesis using assms CWon
      by (auto simp: consume_step_def local_move_def frame_def AllTuple_None_Consume_def split: if_splits)
  next
    case False
    then show ?thesis using assms CWon
      by (auto simp: consume_step_def local_move_def frame_def won_effect Set_promise_def split: if_splits)
  qed
next
  case CDtor
  then show ?thesis using assms destroy_frame [of st s] by (auto simp: consume_step_def split: if_splits)
qed (use assms in \<open>auto simp: consume_step_def split: if_splits\<close>)

text \<open>The life of the combinator is kept by every step.\<close>

lemma sums_move:
  assumes "i < length ps"
  shows "sum_list (map live (ps[i := q])) + live (ps ! i) = sum_list (map live ps) + live q"
    and "sum_list (map dtors (ps[i := q])) + dtors (ps ! i) = sum_list (map dtors ps) + dtors q"
  using assms by (simp_all add: sum_list_step)

lemma life_counts: "life_inv st s \<Longrightarrow> counts_ok (refs s) (dead s) (phs s)"
  by (simp add: life_inv_def Let_def)

lemma life_idx:
  "life_inv st s \<Longrightarrow> j < length (res s) \<Longrightarrow> idx_ok st (passed (reg s) j) (words s ! j) (phs s ! j) (cores s ! j)"
  by (simp add: life_inv_def Let_def)

lemma life_move:
  assumes I: "life_inv st s" and i: "i < length (res s)" "phs s ! i \<noteq> CIdle" "q \<noteq> CIdle"
    and t: "res t = res s" "cores t = cores s" "words t = words s" "reg t = reg s" "length (tuple t) = length (tuple s)"
      "length (rel t) = length (rel s)" "phs t = (phs s)[i := q]"
    and c: "counts_ok (refs t) (dead t) ((phs s)[i := q])"
  shows "life_inv st t"
proof -
  have "passed (reg s) i" using I i by (auto simp: life_inv_def Let_def idx_ok_def split: if_splits)
  then have "idx_ok st (passed (reg s) j) (words s ! j) ((phs s)[i := q] ! j) (cores s ! j)" if "j < length (res s)" for j
    using I i that by (cases "j = i") (auto simp: life_inv_def Let_def idx_ok_def)
  then show ?thesis using I t c by (simp add: life_inv_def Let_def)
qed

lemma life_consume:
  assumes I: "life_inv st s" and "supported st" and i: "i < length (res s)" and step: "consume_step st i s = Some (q, t)"
  shows "life_inv st (put_ph i (q, t))"
proof -
  have l: "i < length (phs s)" and nd: "\<not> dead s"
    using I i step by (auto simp: life_inv_def Let_def consume_step_def split: if_splits)
  note sums = sums_move [OF l, of q]
  consider (move) "local_move (phs s ! i) q" "frame s t"
    | (release) "phs s ! i = CRel" "q = (if refs s = 1 then CDtor else CEnd)" "t = s\<lparr>refs := refs s - 1\<rparr>"
    | (destroy) "phs s ! i = CDtor" "q = CEnd" "frame_dead s t"
    using consume_step_frame [OF step assms(2)] by blast
  then show ?thesis
  proof cases
    case move
    then have e: "live (phs s ! i) = live q" "dtors (phs s ! i) = dtors q" by (auto simp: local_move_def live_def dtors_def)
    show ?thesis
      by (rule life_move [OF I i, of q])
         (use move e sums life_counts [OF I] in \<open>auto simp: local_move_def frame_def put_ph_def counts_ok_def simp del: sum_list_eq_0_iff\<close>)
  next
    case release
    have "refs s \<noteq> 0" using life_counts [OF I] release(1) sum_list_entry_le [OF l, of live]
      by (auto simp: counts_ok_def live_def simp del: sum_list_eq_0_iff)
    then have "counts_ok (refs s - 1) (dead s) ((phs s)[i := q])"
      using life_counts [OF I] nd release sums by (auto simp: counts_ok_def live_def dtors_def simp del: sum_list_eq_0_iff)
    then show ?thesis by (intro life_move [OF I i, of q]) (use release in \<open>simp_all add: put_ph_def\<close>)
  next
    case destroy
    have "refs s = 0 \<and> sum_list (map dtors (phs s)) = 1" using life_counts [OF I] nd destroy(1) sum_list_entry_le [OF l, of dtors]
      by (auto simp: counts_ok_def dtors_def split: if_splits simp del: sum_list_eq_0_iff)
    then have "counts_ok 0 True ((phs s)[i := q])"
      using life_counts [OF I] nd destroy sums by (auto simp: counts_ok_def live_def dtors_def simp del: sum_list_eq_0_iff)
    moreover have "refs s = 0" using \<open>refs s = 0 \<and> _\<close> by blast
    ultimately show ?thesis
      by (intro life_move [OF I i, of q]) (use destroy in \<open>simp_all add: put_ph_def frame_dead_def frame_def\<close>)
  qed
qed

text \<open>A consumption begins: an idle input gets its phase.\<close>

lemma counts_start:
  "counts_ok r d ps \<Longrightarrow> i < length ps \<Longrightarrow> ps ! i = CIdle \<Longrightarrow> counts_ok r d (ps[i := CStart])"
  using sums_move [of i ps CStart] by (auto simp: counts_ok_def live_def dtors_def simp del: sum_list_eq_0_iff)

lemma life_produce:
  assumes I: "life_inv st s" and i: "i < length (res s)" "words s ! i \<noteq> WResult"
  shows "life_inv st (produce_input i s)"
proof (cases "words s ! i = WCallback")
  case True
  then have p: "phs s ! i = CIdle" "passed (reg s) i"
    using I i by (auto simp: life_inv_def Let_def idx_ok_def split: if_splits)
  then show ?thesis using I i True counts_start [OF life_counts [OF I], of i]
    by (auto simp: life_inv_def Let_def produce_input_def put_ph_def nth_list_update idx_ok_def)
next
  case False
  then have "words s ! i = WEmpty" using i by (cases "words s ! i") auto
  then show ?thesis using I i False
    by (auto simp: life_inv_def Let_def produce_input_def nth_list_update idx_ok_def split: if_splits)
qed

lemma life_Set:
  assumes I: "life_inv st s" and r: "reg s = RAt i" and i: "i < length (res s)"
  shows "life_inv st (Set_turn st i s)"
proof -
  have p: "phs s ! i = CIdle" "words s ! i \<noteq> WCallback"
    using I i r by (auto simp: life_inv_def Let_def idx_ok_def split: if_splits)
  show ?thesis
  proof (cases "words s ! i = WResult")
    case True
    then show ?thesis using I i r p counts_start [OF life_counts [OF I], of i]
      by (auto simp: life_inv_def Let_def Set_turn_def Register_def put_ph_def nth_list_update idx_ok_def)
  next
    case False
    then show ?thesis using I i r p
      by (auto simp: life_inv_def Let_def Set_turn_def Register_def nth_list_update idx_ok_def less_Suc_eq)
  qed
qed

lemma life_step: "when_step st s t \<Longrightarrow> supported st \<Longrightarrow> life_inv st s \<Longrightarrow> life_inv st t"
proof (induction rule: when_step.induct)
  case (w_next s i)
  then show ?case by (auto simp: life_inv_def Let_def idx_ok_def less_Suc_eq_le)
next
  case (w_consume i s r)
  then show ?case using life_consume by (cases r) simp
qed (simp_all add: life_produce life_Set)

subsection \<open>Who wins\<close>

text \<open>
  The word is determined by the read-modify-write operations so far, in their order, and so is the input whose result is the answer.
\<close>

definition oks :: "('e + 'v) list \<Rightarrow> nat list \<Rightarrow> nat list" where
  "oks rs ts = filter (\<lambda>i. Ok (rs ! i)) ts"

definition errs :: "('e + 'v) list \<Rightarrow> nat list \<Rightarrow> nat list" where
  "errs rs ts = filter (\<lambda>i. \<not> Ok (rs ! i)) ts"

text \<open>The two bits of \<open>Any\<close> with \<open>FirstFail\<close>.\<close>

definition two_bits :: "bool \<Rightarrow> bool \<Rightarrow> u64" where
  "two_bits a b = (if a then 0 else 1) + (if b then 0 else 2)"

lemma two_bits_facts [simp]:
  "and (two_bits a b) 1 = 0 \<longleftrightarrow> a" "and (two_bits a b) 2 = 0 \<longleftrightarrow> b" "two_bits a b = 0 \<longleftrightarrow> a \<and> b"
  "or (two_bits a b) 1 = two_bits False b" "or (two_bits a b) 2 = two_bits a False"
  by (cases a; cases b; simp add: two_bits_def)+

fun word_ok :: "strategy \<Rightarrow> ('e + 'v) list \<Rightarrow> nat list \<Rightarrow> u64 \<Rightarrow> bool" where
  "word_ok (Any FirstFail) rs ts w = (w = two_bits (oks rs ts = []) (errs rs ts = []))"
| "word_ok (Any LastFail) rs ts w =
     (if oks rs ts = [] then w = 2 * of_nat (length rs - length ts) else odd w)"
| "word_ok st rs ts w = (w = (if ts = [] then 0 else 1))"

definition first :: "'a list \<Rightarrow> 'a option" where
  "first xs = (case xs of [] \<Rightarrow> None | x # _ \<Rightarrow> Some x)"

fun winner :: "strategy \<Rightarrow> ('e + 'v) list \<Rightarrow> nat list \<Rightarrow> nat option" where
  "winner (Any FirstFail) rs ts = first (oks rs ts)"
| "winner (Any LastFail) rs ts =
     (if oks rs ts \<noteq> [] then first (oks rs ts)
      else if length ts = length rs \<and> ts \<noteq> [] then Some (last ts) else None)"
| "winner st rs ts = first ts"

definition errwinner :: "strategy \<Rightarrow> ('e + 'v) list \<Rightarrow> nat list \<Rightarrow> nat option" where
  "errwinner st rs ts = (if st = Any FirstFail then first (errs rs ts) else None)"

fun cand :: "strategy \<Rightarrow> 'e + 'v \<Rightarrow> bool" where
  "cand (Any f) r = True" | "cand _ r = (\<not> Ok r)"

fun claimed :: "strategy \<Rightarrow> ('e + 'v) list \<Rightarrow> nat list \<Rightarrow> 'e + 'v \<Rightarrow> bool" where
  "claimed (Any FirstFail) rs ts r = (if Ok r then oks rs ts \<noteq> [] else ts \<noteq> [])"
| "claimed (Any LastFail) rs ts r = (oks rs ts \<noteq> [])"
| "claimed st rs ts r = (ts \<noteq> [])"

lemma first_simps [simp]: "first [] = None" "first (x # xs) = Some x" "first xs = None \<longleftrightarrow> xs = []"
  "xs \<noteq> [] \<Longrightarrow> first (xs @ ys) = first xs"
  by (cases xs; simp add: first_def)+

lemma first_in: "first xs = Some x \<Longrightarrow> x \<in> set xs"
  by (cases xs) simp_all

lemma oks_Nil [simp]: "oks rs [] = []" "errs rs [] = []"
  by (simp_all add: oks_def errs_def)

lemma oks_snoc [simp]: "oks rs (ts @ [i]) = (if Ok (rs ! i) then oks rs ts @ [i] else oks rs ts)"
  "errs rs (ts @ [i]) = (if Ok (rs ! i) then errs rs ts else errs rs ts @ [i])"
  by (simp_all add: oks_def errs_def)

lemma oks_none: "oks rs ts = [] \<Longrightarrow> errs rs ts = ts"
  by (simp add: oks_def errs_def filter_empty_conv filter_id_conv)

lemma DoneImpl_odd: "DoneImpl w \<longleftrightarrow> odd w"
  by (simp add: DoneImpl_def and_one_eq odd_iff_mod_2_eq_one)

lemma odd_minus_two: "odd ((w :: u64) - 2) \<longleftrightarrow> odd w"
proof -
  have "w = (w - 2) + 2" by simp
  then have "even w \<longleftrightarrow> even (w - 2)" using even_add [of "w - 2" 2] by (metis even_numeral)
  then show ?thesis by simp
qed

lemma two_word: "m < 2 ^ 62 \<Longrightarrow> (2 * of_nat m = (2 :: u64)) \<longleftrightarrow> m = 1"
proof
  assume m: "m < 2 ^ 62" and e: "2 * of_nat m = (2 :: u64)"
  have b: "2 * m < 2 ^ 64" using m by simp
  have "unat (of_nat (2 * m) :: u64) = 2 * m mod 2 ^ 64" by (simp only: unat_of_nat) (simp add: take_bit_eq_mod)
  also have "\<dots> = 2 * m" by (rule mod_less [OF b])
  finally have "unat (of_nat (2 * m) :: u64) = 2 * m" .
  moreover have "(of_nat (2 * m) :: u64) = 2" using e by simp
  ultimately have "2 * m = unat (2 :: u64)" by (simp only:)
  then show "m = 1" by simp
qed simp

text \<open>What the load says: an input that skips has nothing to claim or finds its claim taken.\<close>

lemma load_facts:
  assumes "uses_word st" and "word_ok st rs ts w"
  shows "skips st r w \<Longrightarrow> cand st r \<Longrightarrow> claimed st rs ts r" and "\<not> skips st r w \<Longrightarrow> cand st r"
proof -
  have "(skips st r w \<longrightarrow> cand st r \<longrightarrow> claimed st rs ts r) \<and> (\<not> skips st r w \<longrightarrow> cand st r)"
  proof (cases st)
    case (Any f)
    then show ?thesis using assms oks_none [of rs ts]
      by (cases f) (auto simp: DoneImpl_odd split: if_splits)
  qed (use assms in \<open>auto simp: uses_word_def\<close>)
  then show "skips st r w \<Longrightarrow> cand st r \<Longrightarrow> claimed st rs ts r" and "\<not> skips st r w \<Longrightarrow> cand st r" by blast+
qed

text \<open>What a read-modify-write does: the word follows, and the operation wins exactly when it decides the answer (or the error).\<close>

lemma short_list:
  assumes "distinct ts" and "\<forall>j \<in> set ts. j < n" and "i < n" and "i \<notin> set ts"
  shows "length ts < n"
proof -
  have "length (i # ts) = card (set (i # ts))" using assms by (metis distinct.simps(2) distinct_card)
  also have "\<dots> \<le> card {..<n}" using assms by (intro card_mono) auto
  finally show ?thesis by simp
qed

lemma rmw_facts:
  assumes u: "uses_word st" and w: "word_ok st rs ts w" and len: "length ts < length rs" "length rs < 2 ^ 62"
    and c: "cand st (rs ! i)"
  shows "word_ok st rs (ts @ [i]) (word_after st (rs ! i) w) \<and>
    (if wins st (rs ! i) w then
       (if err_claim st (rs ! i) then errwinner st rs ts = None \<and> errwinner st rs (ts @ [i]) = Some i \<and> winner st rs (ts @ [i]) = winner st rs ts
        else winner st rs ts = None \<and> winner st rs (ts @ [i]) = Some i \<and> errwinner st rs (ts @ [i]) = errwinner st rs ts)
     else winner st rs (ts @ [i]) = winner st rs ts \<and> errwinner st rs (ts @ [i]) = errwinner st rs ts)"
proof (cases "\<exists>f. st = Any f")
  case True
  then obtain f where st: "st = Any f" by blast
  show ?thesis
  proof (cases f)
    case FPNone
    then show ?thesis using st w by (cases ts) (auto simp: errwinner_def err_claim_def)
  next
    case FirstFail
    then show ?thesis using st w
      by (cases "oks rs ts = []"; cases "errs rs ts = []") (simp_all add: errwinner_def err_claim_def)
  next
    case LastFail
    have m: "length rs - length ts < 2 ^ 62" "length rs - length ts \<noteq> 0" using len by auto
    have d: "length rs - length (ts @ [i]) = length rs - length ts - 1" by simp
    have "2 * of_nat (length rs - length ts) - 2 = (2 * of_nat (length rs - length ts - 1) :: u64)"
      using m(2) by (simp add: of_nat_diff algebra_simps)
    then show ?thesis using st w LastFail two_word [OF m(1)] m(2) len(1)
      by (auto simp: errwinner_def err_claim_def DoneImpl_odd odd_minus_two)
  qed
next
  case False
  then show ?thesis using w c by (cases st; cases ts) (auto simp: errwinner_def err_claim_def)
qed

subsection \<open>The data of the strategies\<close>

definition begun :: "cph \<Rightarrow> bool" where
  "begun p \<longleftrightarrow> p \<noteq> CIdle \<and> p \<noteq> CStart"

definition tried :: "cph \<Rightarrow> bool" where
  "tried p \<longleftrightarrow> begun p \<and> p \<noteq> CTry"

definition claimant :: "strategy \<Rightarrow> ('e + 'v) list \<Rightarrow> nat list \<Rightarrow> nat \<Rightarrow> bool" where
  "claimant st rs ts i \<longleftrightarrow> winner st rs ts = Some i \<or> errwinner st rs ts = Some i"

text \<open>What the destructor sets when nobody has claimed the answer.\<close>

fun final :: "strategy \<Rightarrow> ('e + 'v) list \<Rightarrow> nat list \<Rightarrow> ('v, 'e) answer" where
  "final (All f) rs ts = (if f = FPNone then OResults rs else OValues (map projr rs))"
| "final (AllTuple f) rs ts = OTuple (map Some rs)"
| "final (Join f) rs ts = OUnit"
| "final (Any f) rs ts = (case errwinner (Any f) rs ts of Some w \<Rightarrow> OError (projl (rs ! w)) | None \<Rightarrow> OStop)"

definition answers :: "strategy \<Rightarrow> ('v, 'e) comb \<Rightarrow> ('v, 'e) answer list" where
  "answers st s =
     (case winner st (res s) (tries s) of
        Some w \<Rightarrow> if phs s ! w = CWon then [] else [to_answer (res s ! w)]
      | None \<Rightarrow> if dead s then [final st (res s) (tries s)] else [])"

definition stored_error :: "strategy \<Rightarrow> ('v, 'e) comb \<Rightarrow> 'e option" where
  "stored_error st s =
     (case errwinner st (res s) (tries s) of
        Some w \<Rightarrow> if phs s ! w = CWon then None else Some (projl (res s ! w))
      | None \<Rightarrow> None)"

definition didx :: "strategy \<Rightarrow> ('e + 'v) list \<Rightarrow> nat list \<Rightarrow> bool \<Rightarrow> nat \<Rightarrow> cph \<Rightarrow> bool \<Rightarrow> ('e + 'v) option \<Rightarrow> bool" where
  "didx st rs ts d j p rl tp \<longleftrightarrow>
     (p = CTry \<longrightarrow> uses_word st \<and> cand st (rs ! j)) \<and>
     (p = CWon \<longrightarrow> uses_word st \<and> claimant st rs ts j) \<and>
     (uses_word st \<and> tried p \<and> cand st (rs ! j) \<longrightarrow> j \<in> set ts \<or> claimed st rs ts (rs ! j)) \<and>
     rl = (if kCorePolicy st = Owned then d else begun p) \<and>
     tp = (if begun p \<and> stores st (rs ! j) then Some (rs ! j) else None)"

definition tries_ok :: "strategy \<Rightarrow> ('v, 'e) comb \<Rightarrow> bool" where
  "tries_ok st s \<longleftrightarrow> word_ok st (res s) (tries s) (word s) \<and> distinct (tries s) \<and> (\<not> uses_word st \<longrightarrow> tries s = []) \<and>
     (\<forall>j \<in> set (tries s). j < length (res s) \<and> tried (phs s ! j) \<and> cand st (res s ! j))"

definition data_inv :: "strategy \<Rightarrow> ('v, 'e) comb \<Rightarrow> bool" where
  "data_inv st s \<longleftrightarrow> tries_ok st s \<and>
     (\<forall>j < length (res s). didx st (res s) (tries s) (dead s) j (phs s ! j) (rel s ! j) (tuple s ! j)) \<and>
     psets s = answers st s \<and> errslot s = stored_error st s"

lemma winner_in: "winner st rs ts = Some w \<Longrightarrow> w \<in> set ts"
  by (cases st rule: st_Consume.cases) (auto simp: oks_def dest!: first_in split: if_splits)

lemma errwinner_in: "errwinner st rs ts = Some w \<Longrightarrow> w \<in> set ts"
  by (auto simp: errwinner_def errs_def dest!: first_in split: if_splits)

lemma data_inv_new: "data_inv st (When_new st rs)"
proof -
  have "winner st rs [] = None" "errwinner st rs [] = None"
    by (cases st rule: st_Consume.cases; simp add: errwinner_def)+
  moreover have "word_ok st rs [] (initial_word st (length rs))"
    by (cases st rule: st_Consume.cases) (simp_all add: initial_word_def two_bits_def)
  ultimately show ?thesis
    by (simp add: data_inv_def tries_ok_def When_new_def Let_def didx_def begun_def tried_def answers_def stored_error_def)
qed

lemma stored_cong:
  assumes "res t = res s" "tries t = tries s"
    and "\<And>w. claimant st (res s) (tries s) w \<Longrightarrow> (phs t ! w = CWon) = (phs s ! w = CWon)"
  shows "stored_error st t = stored_error st s"
  using assms by (auto simp: stored_error_def claimant_def split: option.splits)

lemma answers_cong:
  assumes "res t = res s" "tries t = tries s" "dead t = dead s"
    and "\<And>w. claimant st (res s) (tries s) w \<Longrightarrow> (phs t ! w = CWon) = (phs s ! w = CWon)"
  shows "answers st t = answers st s" and "stored_error st t = stored_error st s"
  using assms by (auto simp: answers_def stored_error_def claimant_def split: option.splits)

lemma data_cong:
  assumes "data_inv st s" and "res t = res s" "word t = word s" "tuple t = tuple s" "errslot t = errslot s" "psets t = psets s" "rel t = rel s"
    "dead t = dead s" "tries t = tries s" "phs t = phs s"
  shows "data_inv st t"
proof -
  have "answers st t = answers st s" "stored_error st t = stored_error st s"
    using assms by (simp_all add: answers_cong [of t s])
  then show ?thesis using assms by (simp add: data_inv_def tries_ok_def)
qed

text \<open>A phase moves and nothing that the data depend on does.\<close>

lemma data_move:
  assumes D: "data_inv st s" and i: "i < length (res s)" "length (phs s) = length (res s)"
    and p: "phs s ! i \<noteq> CWon" "q \<noteq> CWon" "begun (phs s ! i) = begun q" "tried (phs s ! i) = tried q" "q = CTry \<longrightarrow> phs s ! i = CTry"
    and t: "res t = res s" "word t = word s" "tuple t = tuple s" "errslot t = errslot s" "psets t = psets s" "rel t = rel s"
      "dead t = dead s" "tries t = tries s" "phs t = (phs s)[i := q]"
  shows "data_inv st t"
proof -
  have "tries_ok st t" using D p t i by (auto simp: data_inv_def tries_ok_def nth_list_update)
  moreover have "didx st (res t) (tries t) (dead t) j (phs t ! j) (rel t ! j) (tuple t ! j)" if "j < length (res s)" for j
    using D p t i that by (cases "j = i") (auto simp: data_inv_def didx_def)
  moreover have "phs t ! w = CWon \<longleftrightarrow> phs s ! w = CWon" for w using p t i by (cases "w = i") simp_all
  then have "answers st t = answers st s" "stored_error st t = stored_error st s"
    using t by (simp_all add: answers_cong [of t s])
  ultimately show ?thesis using D t by (simp add: data_inv_def)
qed

text \<open>A consumption begins.\<close>

lemma data_start:
  assumes D: "data_inv st s" and i: "i < length (res s)" and ph: "phs s ! i = CStart"
    and len: "length (phs s) = length (res s)" "length (rel s) = length (res s)" "length (tuple s) = length (res s)"
    and step: "Consume st i s = Some (q, t)"
  shows "data_inv st (put_ph i (q, t))"
proof -
  have ts: "i \<notin> set (tries s)" using D ph by (auto simp: data_inv_def tries_ok_def tried_def begun_def)
  have q: "q = (if uses_word st \<and> \<not> skips st (res s ! i) (word s) then CTry else CRel)"
    and t: "res t = res s" "word t = word s" "errslot t = errslot s" "psets t = psets s" "dead t = dead s" "tries t = tries s" "phs t = phs s"
      "rel t = (if kCorePolicy st = Managed then (rel s)[i := True] else rel s)"
      "tuple t = (if stores st (res s ! i) then (tuple s)[i := Some (res s ! i)] else tuple s)"
    using step by (auto simp: Consume_effect started_def uses_word_def split: if_splits)
  let ?u = "put_ph i (q, t)"
  have u: "res ?u = res s" "word ?u = word s" "errslot ?u = errslot s" "psets ?u = psets s" "dead ?u = dead s" "tries ?u = tries s"
    "phs ?u = (phs s)[i := q]" "rel ?u = rel t" "tuple ?u = tuple t"
    by (simp_all add: put_ph_def t)
  have "(phs s)[i := q] ! j = phs s ! j" if "j \<in> set (tries s)" for j using that ts by (cases "j = i") auto
  then have "tries_ok st ?u" using D by (auto simp: data_inv_def tries_ok_def u)
  moreover have "didx st (res s) (tries s) (dead s) j ((phs s)[i := q] ! j) (rel t ! j) (tuple t ! j)" if j: "j < length (res s)" for j
  proof (cases "j = i")
    case True
    have c: "didx st (res s) (tries s) (dead s) i (phs s ! i) (rel s ! i) (tuple s ! i)" using D i by (simp add: data_inv_def)
    have w: "word_ok st (res s) (tries s) (word s)" using D by (simp add: data_inv_def tries_ok_def)
    have "kCorePolicy st = Owned \<or> kCorePolicy st = Managed" by (cases "kCorePolicy st") auto
    then show ?thesis using c True i len load_facts [OF _ w, of "res s ! i"] q t(8,9) ph
      by (auto simp: didx_def begun_def tried_def)
  next
    case False
    then show ?thesis using D j t by (simp add: data_inv_def)
  qed
  moreover have "i \<noteq> w" if "claimant st (res s) (tries s) w" for w
    using that winner_in errwinner_in ts by (metis claimant_def)
  then have "answers st ?u = answers st s" "stored_error st ?u = stored_error st s"
    by (simp_all add: answers_cong [of ?u s] u)
  ultimately show ?thesis using D by (simp add: data_inv_def u)
qed

lemma claimed_mono: "claimed st rs ts r \<Longrightarrow> claimed st rs (ts @ [i]) r"
  by (cases st rule: st_Consume.cases) (auto split: if_splits)

lemma data_didx:
  "data_inv st s \<Longrightarrow> j < length (res s) \<Longrightarrow> didx st (res s) (tries s) (dead s) j (phs s ! j) (rel s ! j) (tuple s ! j)"
  by (simp add: data_inv_def)

text \<open>The read-modify-write.\<close>

lemma data_try:
  assumes D: "data_inv st s" and i: "i < length (res s)" and ph: "phs s ! i = CTry" and n: "length (res s) < 2 ^ 62"
    and len: "length (phs s) = length (res s)" and nd: "\<not> dead s"
    and step: "st_Consume st CTry i (res s ! i) s = (q, t)"
  shows "data_inv st (put_ph i (q, t))"
proof -
  let ?r = "res s ! i" and ?ts = "tries s @ [i]"
  have d: "uses_word st" "cand st ?r" "rel s ! i = (if kCorePolicy st = Owned then dead s else True)"
    "tuple s ! i = (if stores st ?r then Some ?r else None)"
    using data_didx [OF D i] ph by (simp_all add: didx_def begun_def)
  have T: "word_ok st (res s) (tries s) (word s)" "distinct (tries s)" "\<forall>j \<in> set (tries s). j < length (res s) \<and> tried (phs s ! j) \<and> cand st (res s ! j)"
    using D by (simp_all add: data_inv_def tries_ok_def)
  have ts: "i \<notin> set (tries s)" using T(3) ph by (auto simp: tried_def)
  have "length (tries s) < length (res s)" using short_list [OF T(2) _ i ts] T(3) by blast
  note R = rmw_facts [OF d(1) T(1) this n d(2)]
  have "st \<noteq> AllTuple FPNone" using d(1) by (auto simp: uses_word_def)
  then have q: "q = (if wins st ?r (word s) then CWon else CRel)" and t: "t = s\<lparr>word := word_after st ?r (word s), tries := ?ts\<rparr>"
    using step by (simp_all add: try_effect)
  let ?u = "put_ph i (q, t)"
  have u: "res ?u = res s" "word ?u = word_after st ?r (word s)" "errslot ?u = errslot s" "psets ?u = psets s" "dead ?u = dead s"
    "tries ?u = ?ts" "phs ?u = (phs s)[i := q]" "rel ?u = rel s" "tuple ?u = tuple s"
    by (simp_all add: put_ph_def t)
  have tq: "tried q" using q by (simp add: tried_def begun_def)
  have keep: "(phs s)[i := q] ! j = phs s ! j" if "j \<in> set (tries s)" for j using that ts by (cases "j = i") auto
  have "tries_ok st ?u" using T R d i len ts tq keep by (auto simp: tries_ok_def u)
  moreover have "didx st (res s) ?ts (dead s) j ((phs s)[i := q] ! j) (rel s ! j) (tuple s ! j)" if j: "j < length (res s)" for j
  proof (cases "j = i")
    case True
    have "q = CWon \<Longrightarrow> claimant st (res s) ?ts i" using R q by (auto simp: claimant_def split: if_splits)
    then show ?thesis using True d i len tq q nd by (auto simp: didx_def tried_def)
  next
    case False
    have "claimant st (res s) (tries s) j \<Longrightarrow> claimant st (res s) ?ts j"
      using R by (auto simp: claimant_def split: if_splits)
    moreover have "claimed st (res s) (tries s) (res s ! j) \<Longrightarrow> claimed st (res s) ?ts (res s ! j)" by (rule claimed_mono)
    ultimately show ?thesis using data_didx [OF D j] False by (auto simp: didx_def)
  qed
  moreover have ne: "i \<noteq> w" if "winner st (res s) (tries s) = Some w \<or> errwinner st (res s) (tries s) = Some w" for w
    using that winner_in errwinner_in ts by metis
  have "answers st ?u = answers st s"
  proof (cases "winner st (res s) (tries s)")
    case None
    then have "winner st (res s) ?ts = None \<or> winner st (res s) ?ts = Some i \<and> q = CWon"
      using R q by (simp split: if_splits)
    then show ?thesis using None nd i len unfolding answers_def u by auto
  next
    case (Some w)
    then have "winner st (res s) ?ts = Some w" using R by (auto split: if_splits)
    then show ?thesis using Some ne [of w] by (simp add: answers_def u)
  qed
  moreover have "stored_error st ?u = stored_error st s"
  proof (cases "errwinner st (res s) (tries s)")
    case None
    then have "errwinner st (res s) ?ts = None \<or> errwinner st (res s) ?ts = Some i \<and> q = CWon"
      using R q by (simp split: if_splits)
    then show ?thesis using None i len unfolding stored_error_def u by auto
  next
    case (Some w)
    then have "errwinner st (res s) ?ts = Some w" using R by (auto split: if_splits)
    then show ?thesis using Some ne [of w] by (simp add: stored_error_def u)
  qed
  ultimately show ?thesis using D by (simp add: data_inv_def u)
qed

text \<open>The winner acts.\<close>

lemma winner_Ok: "errwinner st rs ts = Some i \<Longrightarrow> err_claim st (rs ! i)" "winner st rs ts = Some i \<Longrightarrow> \<not> err_claim st (rs ! i)"
  by (auto simp: errwinner_def err_claim_def errs_def oks_def dest!: first_in split: if_splits)

lemma data_won:
  assumes D: "data_inv st s" and i: "i < length (res s)" and ph: "phs s ! i = CWon"
    and len: "length (phs s) = length (res s)" and step: "st_Consume st CWon i (res s ! i) s = (q, t)"
  shows "data_inv st (put_ph i (q, t))"
proof -
  let ?r = "res s ! i"
  have d: "uses_word st" "claimant st (res s) (tries s) i"
    using data_didx [OF D i] ph by (simp_all add: didx_def)
  have "st \<noteq> AllTuple FPNone" using d(1) by (auto simp: uses_word_def)
  then have q: "q = CRel" and t: "t = (if err_claim st ?r then s\<lparr>errslot := Some (projl ?r)\<rparr> else Set_promise (to_answer ?r) s)"
    using step by (simp_all add: won_effect)
  let ?u = "put_ph i (q, t)"
  have u: "res ?u = res s" "word ?u = word s" "dead ?u = dead s" "tries ?u = tries s" "phs ?u = (phs s)[i := CRel]" "rel ?u = rel s" "tuple ?u = tuple s"
    "errslot ?u = (if err_claim st ?r then Some (projl ?r) else errslot s)" "psets ?u = (if err_claim st ?r then psets s else psets s @ [to_answer ?r])"
    by (simp_all add: put_ph_def t q Set_promise_def)
  have "tries_ok st ?u" using D i len by (auto simp: data_inv_def tries_ok_def u nth_list_update tried_def begun_def)
  moreover have "didx st (res s) (tries s) (dead s) j ((phs s)[i := CRel] ! j) (rel s ! j) (tuple s ! j)" if j: "j < length (res s)" for j
    using data_didx [OF D j] ph i len by (cases "j = i") (auto simp: didx_def tried_def begun_def)
  moreover have "answers st ?u = (if err_claim st ?r then answers st s else answers st s @ [to_answer ?r])"
    using d(2) ph i len winner_Ok [of st "res s" "tries s"]
    by (auto simp: answers_def claimant_def u nth_list_update split: option.splits)
  moreover have "stored_error st ?u = (if err_claim st ?r then Some (projl ?r) else stored_error st s)"
    using d(2) ph i len winner_Ok [of st "res s" "tries s"]
    by (auto simp: stored_error_def claimant_def u nth_list_update split: option.splits)
  ultimately show ?thesis using D by (simp add: data_inv_def u)
qed

subsection \<open>The destructor\<close>

lemma retire_all_total:
  "distinct is \<Longrightarrow> \<forall>i \<in> set is. cores s ! i \<and> \<not> rel s ! i \<and> i < length (rel s) \<Longrightarrow>
   \<exists>r. retire_all is s = Some (map ((!) (res s)) is, s\<lparr>rel := r\<rparr>) \<and> length r = length (rel s) \<and>
     (\<forall>j < length r. r ! j = (j \<in> set is \<or> rel s ! j))"
proof (induction "is" arbitrary: s)
  case Nil
  then show ?case by (intro exI [of _ "rel s"]) simp
next
  case (Cons i js)
  let ?s = "s\<lparr>rel := (rel s)[i := True]\<rparr>"
  have "\<forall>k \<in> set js. cores ?s ! k \<and> \<not> rel ?s ! k \<and> k < length (rel ?s)"
    using Cons.prems by (auto simp: nth_list_update)
  then obtain r where r: "retire_all js ?s = Some (map ((!) (res s)) js, s\<lparr>rel := r\<rparr>)" "length r = length (rel s)"
    "\<forall>j < length r. r ! j = (j \<in> set js \<or> (rel s)[i := True] ! j)"
    using Cons.IH [of ?s] Cons.prems(1) by auto
  then show ?case using Cons.prems
    by (intro exI [of _ r]) (auto simp: Retire_def core_Get_def release_core_def nth_list_update)
qed

lemma decref_all_total:
  "distinct is \<Longrightarrow> \<forall>i \<in> set is. cores s ! i \<and> \<not> rel s ! i \<and> i < length (rel s) \<Longrightarrow>
   \<exists>r. decref_all is s = Some (s\<lparr>rel := r\<rparr>) \<and> length r = length (rel s) \<and> (\<forall>j < length r. r ! j = (j \<in> set is \<or> rel s ! j))"
proof (induction "is" arbitrary: s)
  case Nil
  then show ?case by (intro exI [of _ "rel s"]) simp
next
  case (Cons i js)
  let ?s = "s\<lparr>rel := (rel s)[i := True]\<rparr>"
  have "\<forall>k \<in> set js. cores ?s ! k \<and> \<not> rel ?s ! k \<and> k < length (rel ?s)"
    using Cons.prems by (auto simp: nth_list_update)
  then obtain r where r: "decref_all js ?s = Some (s\<lparr>rel := r\<rparr>)" "length r = length (rel s)"
    "\<forall>j < length r. r ! j = (j \<in> set js \<or> (rel s)[i := True] ! j)"
    using Cons.IH [of ?s] Cons.prems(1) by auto
  then show ?case using Cons.prems by (intro exI [of _ r]) (auto simp: release_core_def nth_list_update)
qed

text \<open>The state in which the last reference is gone: every input was consumed.\<close>

definition all_consumed :: "strategy \<Rightarrow> ('v, 'e) comb \<Rightarrow> bool" where
  "all_consumed st s \<longleftrightarrow> res s \<noteq> [] \<and> \<not> dead s \<and> length (cores s) = length (res s) \<and> length (rel s) = length (res s) \<and>
     length (tuple s) = length (res s) \<and>
     psets s = (case winner st (res s) (tries s) of Some w \<Rightarrow> [to_answer (res s ! w)] | None \<Rightarrow> []) \<and>
     errslot s = (case errwinner st (res s) (tries s) of Some w \<Rightarrow> Some (projl (res s ! w)) | None \<Rightarrow> None) \<and>
     word_ok st (res s) (tries s) (word s) \<and> (\<not> uses_word st \<longrightarrow> tries s = []) \<and>
     (\<forall>j < length (res s). (kCorePolicy st = Owned \<longrightarrow> cores s ! j) \<and> rel s ! j = (kCorePolicy st \<noteq> Owned) \<and>
        tuple s ! j = (if stores st (res s ! j) then Some (res s ! j) else None) \<and>
        (uses_word st \<and> cand st (res s ! j) \<longrightarrow> j \<in> set (tries s) \<or> claimed st (res s) (tries s) (res s ! j)))"

lemma all_consumedI:
  assumes L: "life_inv st s" and D: "data_inv st s" and i: "i < length (res s)" and p: "phs s ! i = CDtor"
  shows "all_consumed st s" and "\<forall>j < length (res s). phs s ! j = CDtor \<or> phs s ! j = CEnd"
proof -
  have len: "length (phs s) = length (res s)" "length (cores s) = length (res s)" "length (rel s) = length (res s)" "length (tuple s) = length (res s)"
    using L by (simp_all add: life_inv_def Let_def)
  have "dtors (phs s ! i) \<le> sum_list (map dtors (phs s))" using i len by (intro sum_list_entry_le) simp
  then have r: "refs s = 0" "\<not> dead s"
    using life_counts [OF L] p by (auto simp: counts_ok_def dtors_def simp del: sum_list_eq_0_iff split: if_splits)
  then have z: "sum_list (map live (phs s)) = 0" using life_counts [OF L] by (simp add: counts_ok_def del: sum_list_eq_0_iff)
  show all: "\<forall>j < length (res s). phs s ! j = CDtor \<or> phs s ! j = CEnd"
  proof (intro allI impI)
    fix j assume "j < length (res s)"
    then have "live (phs s ! j) = 0" using z len sum_list_entry_le [of j "phs s" live] by simp
    then show "phs s ! j = CDtor \<or> phs s ! j = CEnd" by (simp add: live_def split: if_splits)
  qed
  have c: "kCorePolicy st = Owned \<longrightarrow> cores s ! j" if "j < length (res s)" for j
  proof -
    have "idx_ok st (passed (reg s) j) (words s ! j) (phs s ! j) (cores s ! j)" using life_idx [OF L that] .
    moreover have "phs s ! j \<noteq> CIdle" using all that by auto
    ultimately show ?thesis by (simp add: idx_ok_def split: if_splits)
  qed
  have T: "tries_ok st s" and ps: "psets s = answers st s" "errslot s = stored_error st s" using D by (simp_all add: data_inv_def)
  have nw: "phs s ! w \<noteq> CWon" if "claimant st (res s) (tries s) w" for w
  proof -
    have "w \<in> set (tries s)" using that by (auto simp: claimant_def dest: winner_in errwinner_in)
    then have "w < length (res s)" using T by (simp add: tries_ok_def)
    then show ?thesis using all by auto
  qed
  have "psets s = (case winner st (res s) (tries s) of Some w \<Rightarrow> [to_answer (res s ! w)] | None \<Rightarrow> [])"
    using ps(1) nw r by (auto simp: answers_def claimant_def split: option.splits)
  moreover have "errslot s = (case errwinner st (res s) (tries s) of Some w \<Rightarrow> Some (projl (res s ! w)) | None \<Rightarrow> None)"
    using ps(2) nw by (auto simp: stored_error_def claimant_def split: option.splits)
  moreover have "rel s ! j = (kCorePolicy st \<noteq> Owned) \<and> tuple s ! j = (if stores st (res s ! j) then Some (res s ! j) else None) \<and>
      (uses_word st \<and> cand st (res s ! j) \<longrightarrow> j \<in> set (tries s) \<or> claimed st (res s) (tries s) (res s ! j))"
    if j: "j < length (res s)" for j
    using data_didx [OF D j] all j r by (auto simp: didx_def begun_def tried_def)
  moreover have "res s \<noteq> []" using i by auto
  ultimately show "all_consumed st s" using T c len r by (simp add: all_consumed_def tries_ok_def)
qed

lemma list_all_range: "(\<forall>j < length xs. P (xs ! j)) \<longleftrightarrow> list_all P xs"
  by (auto simp: list_all_length)

lemma map_nth_all: "length ys = length xs \<Longrightarrow> \<forall>j < length xs. ys ! j = f (xs ! j) \<Longrightarrow> ys = map f xs"
  by (auto intro: nth_equalityI)

text \<open>
  When everything was consumed, the destructor is defined, the promise has its answer, and the cores of an owning
  strategy are released.
\<close>

definition destroyed :: "strategy \<Rightarrow> ('v, 'e) comb \<Rightarrow> ('v, 'e) comb \<Rightarrow> bool" where
  "destroyed st s t \<longleftrightarrow> (\<exists>r. t = s\<lparr>rel := r, psets := (case winner st (res s) (tries s) of Some w \<Rightarrow> [to_answer (res s ! w)]
       | None \<Rightarrow> [final st (res s) (tries s)]), dead := True\<rparr> \<and>
     length r = length (rel s) \<and> (\<forall>j < length r. r ! j))"

lemma destroyedI:
  assumes "st_dtor st s = Some u" and "\<exists>r. u = s\<lparr>rel := r, psets := ps\<rparr> \<and> length r = length (rel s) \<and> (\<forall>j < length r. r ! j)"
    and "(if ps = [] then [OStop] else ps) = (case winner st (res s) (tries s) of Some w \<Rightarrow> [to_answer (res s ! w)]
       | None \<Rightarrow> [final st (res s) (tries s)])"
  shows "\<exists>t. destroy st s = Some t \<and> destroyed st s t"
  using assms by (cases "ps = []") (auto simp: destroy_def destroyed_def dtor_promise_def Valid_def Set_promise_def)

lemma all_consumedD:
  assumes "all_consumed st s"
  shows "res s \<noteq> []" "length (cores s) = length (res s)" "length (rel s) = length (res s)" "length (tuple s) = length (res s)"
    and "psets s = (case winner st (res s) (tries s) of Some w \<Rightarrow> [to_answer (res s ! w)] | None \<Rightarrow> [])"
    and "errslot s = (case errwinner st (res s) (tries s) of Some w \<Rightarrow> Some (projl (res s ! w)) | None \<Rightarrow> None)"
    and "word_ok st (res s) (tries s) (word s)" and "\<not> uses_word st \<Longrightarrow> tries s = []"
    and "\<And>j. j < length (res s) \<Longrightarrow> kCorePolicy st = Owned \<Longrightarrow> cores s ! j"
    and "\<And>j. j < length (res s) \<Longrightarrow> rel s ! j = (kCorePolicy st \<noteq> Owned)"
    and "\<And>j. j < length (res s) \<Longrightarrow> tuple s ! j = (if stores st (res s ! j) then Some (res s ! j) else None)"
    and "\<And>j. uses_word st \<Longrightarrow> j < length (res s) \<Longrightarrow> cand st (res s ! j) \<Longrightarrow> j \<in> set (tries s) \<or> claimed st (res s) (tries s) (res s ! j)"
  using assms unfolding all_consumed_def by blast+

text \<open>Without a read-modify-write, the inputs of the strategies that only claim errors were all values.\<close>

lemma no_claim_Ok:
  assumes A: "all_consumed st s" and "tries s = []" and "uses_word st" and "\<And>j. cand st (res s ! j) \<longleftrightarrow> \<not> Ok (res s ! j)"
    and "\<And>j. \<not> claimed st (res s) [] (res s ! j)"
  shows "list_all Ok (res s)"
  unfolding list_all_length
proof (intro allI impI)
  fix n assume "n < length (res s)"
  then show "Ok (res s ! n)" using all_consumedD(12) [OF A assms(3), of n] assms(2,4,5) by auto
qed

lemma dtor_managed:
  assumes A: "all_consumed st s" and "kCorePolicy st \<noteq> Owned" and "st_dtor st s = Some (s\<lparr>psets := ps\<rparr>)"
    and "(if ps = [] then [OStop] else ps) = (case winner st (res s) (tries s) of Some w \<Rightarrow> [to_answer (res s ! w)]
       | None \<Rightarrow> [final st (res s) (tries s)])"
  shows "\<exists>t. destroy st s = Some t \<and> destroyed st s t"
proof (rule destroyedI [OF assms(3) _ assms(4)])
  show "\<exists>r. s\<lparr>psets := ps\<rparr> = s\<lparr>rel := r, psets := ps\<rparr> \<and> length r = length (rel s) \<and> (\<forall>j < length r. r ! j)"
    using all_consumedD(3,10) [OF A] assms(2) by (intro exI [of _ "rel s"]) simp
qed

lemma dtor_All:
  assumes A: "all_consumed (All f) s"
  shows "\<exists>t. destroy (All f) s = Some t \<and> destroyed (All f) s t"
proof -
  note D = all_consumedD [OF A]
  let ?is = "[0..<length (cores s)]"
  have own: "distinct ?is" "\<forall>i \<in> set ?is. cores s ! i \<and> \<not> rel s ! i \<and> i < length (rel s)" using D(2,3,9,10) by simp_all
  have m: "map ((!) (res s)) ?is = res s" using D(2) by (simp add: map_nth)
  obtain r where r: "retire_all ?is s = Some (res s, s\<lparr>rel := r\<rparr>)" "length r = length (rel s)" "\<forall>j < length r. r ! j"
    using retire_all_total [OF own] D(2,3) unfolding m by auto
  obtain r' where r': "decref_all ?is s = Some (s\<lparr>rel := r'\<rparr>)" "length r' = length (rel s)" "\<forall>j < length r'. r' ! j"
    using decref_all_total [OF own] D(2,3) by auto
  show ?thesis
  proof (cases "tries s")
    case Nil
    have p: "psets s = []" using D(5) Nil by simp
    have ok: "list_all Ok (res s)" if "f \<noteq> FPNone"
      by (rule no_claim_Ok [OF A Nil]) (use that in \<open>cases f; simp add: uses_word_def\<close>)+
    have "st_dtor (All f) s = Some (s\<lparr>rel := r, psets := [final (All f) (res s) []]\<rparr>)"
      using r(1) ok p by (auto simp: All_None_dtor_def All_FirstFail_dtor_def Set_promise_def Valid_def)
    then show ?thesis by (rule destroyedI) (use r(2,3) Nil in \<open>auto simp del: final.simps\<close>)
  next
    case (Cons w ts)
    have p: "psets s = [to_answer (res s ! w)]" using D(5) Cons by simp
    have "f \<noteq> FPNone" using D(8) Cons by (auto simp: uses_word_def)
    then have "st_dtor (All f) s = Some (s\<lparr>rel := r', psets := psets s\<rparr>)"
      using r'(1) p by (simp add: All_FirstFail_dtor_def Valid_def)
    then show ?thesis by (rule destroyedI) (use r'(2,3) p Cons in auto)
  qed
qed

lemma dtor_AllTuple:
  assumes A: "all_consumed (AllTuple f) s"
  shows "\<exists>t. destroy (AllTuple f) s = Some t \<and> destroyed (AllTuple f) s t"
proof -
  note D = all_consumedD [OF A]
  have full: "tuple s = map Some (res s)" if "f = FPNone \<or> list_all Ok (res s)"
    using that D(4,11) by (intro map_nth_all) (auto simp: list_all_length)
  show ?thesis
  proof (cases "tries s")
    case Nil
    have p: "psets s = []" using D(5) Nil by simp
    have ok: "list_all Ok (res s)" if "f \<noteq> FPNone"
      by (rule no_claim_Ok [OF A Nil]) (use that in \<open>cases f; simp add: uses_word_def\<close>)+
    have "st_dtor (AllTuple f) s = Some (s\<lparr>psets := [OTuple (map Some (res s))]\<rparr>)"
      using full ok p by (auto simp: AllTuple_None_dtor_def AllTuple_FirstFail_dtor_def Set_promise_def Valid_def)
    then show ?thesis by (rule dtor_managed [OF A, rotated]) (use Nil in auto)
  next
    case (Cons w ts)
    have p: "psets s = [to_answer (res s ! w)]" using D(5) Cons by simp
    have "f \<noteq> FPNone" using D(8) Cons by (auto simp: uses_word_def)
    then have "st_dtor (AllTuple f) s = Some (s\<lparr>psets := psets s\<rparr>)" using p by (simp add: AllTuple_FirstFail_dtor_def Valid_def)
    then show ?thesis by (rule dtor_managed [OF A, rotated]) (use p Cons in auto)
  qed
qed

lemma dtor_Join:
  assumes A: "all_consumed (Join f) s"
  shows "\<exists>t. destroy (Join f) s = Some t \<and> destroyed (Join f) s t"
proof -
  note D = all_consumedD [OF A]
  show ?thesis
  proof (cases "tries s")
    case Nil
    have "psets s = []" using D(5) Nil by simp
    then have "st_dtor (Join f) s = Some (s\<lparr>psets := [OUnit]\<rparr>)"
      by (simp add: Join_None_dtor_def Join_FirstFail_dtor_def Set_promise_def Valid_def)
    then show ?thesis by (rule dtor_managed [OF A, rotated]) (use Nil in auto)
  next
    case (Cons w ts)
    have p: "psets s = [to_answer (res s ! w)]" using D(5) Cons by simp
    have "f \<noteq> FPNone" using D(8) Cons by (auto simp: uses_word_def)
    then have "st_dtor (Join f) s = Some (s\<lparr>psets := psets s\<rparr>)" using p by (simp add: Join_FirstFail_dtor_def Valid_def)
    then show ?thesis by (rule dtor_managed [OF A, rotated]) (use p Cons in auto)
  qed
qed

text \<open>\<open>Any\<close> with \<open>FirstFail\<close>: without a value there is an error, and it was stored.\<close>

lemma any_error:
  assumes A: "all_consumed (Any FirstFail) s" and "winner (Any FirstFail) (res s) (tries s) = None"
  shows "\<exists>w. errwinner (Any FirstFail) (res s) (tries s) = Some w \<and> errslot s = Some (projl (res s ! w)) \<and> and (word s) 2 \<noteq> 0"
proof -
  note D = all_consumedD [OF A]
  have o: "oks (res s) (tries s) = []" using assms(2) by simp
  have "0 < length (res s)" using D(1) by simp
  then have "tries s \<noteq> []" using D(12) [of 0] o by (auto simp: uses_word_def split: if_splits)
  then have e: "errs (res s) (tries s) \<noteq> []" using oks_none [OF o] by simp
  then obtain w where w: "errwinner (Any FirstFail) (res s) (tries s) = Some w"
    by (cases "errs (res s) (tries s)") (auto simp: errwinner_def)
  then show ?thesis using D(6,7) e by simp
qed

lemma dtor_Any:
  assumes A: "all_consumed (Any f) s"
  shows "\<exists>t. destroy (Any f) s = Some t \<and> destroyed (Any f) s t"
proof (cases "winner (Any f) (res s) (tries s)")
  note D = all_consumedD [OF A]
  case (Some w)
  have p: "psets s = [to_answer (res s ! w)]" using D(5) Some by simp
  then have "st_dtor (Any f) s = Some (s\<lparr>psets := psets s\<rparr>)" by (simp add: Any_FirstFail_dtor_def Valid_def)
  then show ?thesis by (rule dtor_managed [OF A, rotated]) (use p Some in auto)
next
  note D = all_consumedD [OF A]
  case None
  have p: "psets s = []" using D(5) None by simp
  show ?thesis
  proof (cases "f = FirstFail")
    case False
    then have "st_dtor (Any f) s = Some (s\<lparr>psets := []\<rparr>)" using p by simp
    then show ?thesis by (rule dtor_managed [OF A, rotated]) (use None False in \<open>auto simp: errwinner_def\<close>)
  next
    case True
    then obtain w where w: "errwinner (Any f) (res s) (tries s) = Some w" "errslot s = Some (projl (res s ! w))" "and (word s) 2 \<noteq> 0"
      using any_error A None by blast
    then have "st_dtor (Any f) s = Some (s\<lparr>psets := [OError (projl (res s ! w))]\<rparr>)"
      using p True by (simp add: Any_FirstFail_dtor_def Valid_def Set_promise_def)
    then show ?thesis by (rule dtor_managed [OF A, rotated]) (use None w in auto)
  qed
qed

lemma destroy_total: "all_consumed st s \<Longrightarrow> \<exists>t. destroy st s = Some t \<and> destroyed st s t"
  by (cases st) (simp_all only: dtor_All dtor_AllTuple dtor_Join dtor_Any)

text \<open>The destruction keeps the data.\<close>

lemma data_destroy:
  assumes L: "life_inv st s" and D: "data_inv st s" and i: "i < length (res s)" and p: "phs s ! i = CDtor" and t: "destroyed st s t"
  shows "data_inv st (put_ph i (CEnd, t))"
proof -
  note all = all_consumedI [OF L D i p]
  have len: "length (phs s) = length (res s)" "length (rel s) = length (res s)" using L by (simp_all add: life_inv_def Let_def)
  obtain r where r: "t = s\<lparr>rel := r, psets := (case winner st (res s) (tries s) of Some w \<Rightarrow> [to_answer (res s ! w)]
       | None \<Rightarrow> [final st (res s) (tries s)]), dead := True\<rparr>" "length r = length (rel s)" "\<forall>j < length r. r ! j"
    using t unfolding destroyed_def by blast
  let ?u = "put_ph i (CEnd, t)"
  have u: "res ?u = res s" "word ?u = word s" "errslot ?u = errslot s" "dead ?u = True" "tries ?u = tries s" "tuple ?u = tuple s"
    "phs ?u = (phs s)[i := CEnd]" "rel ?u = r" "psets ?u = psets t"
    by (simp_all add: put_ph_def r(1))
  have ended: "(phs s)[i := CEnd] ! j = CDtor \<or> (phs s)[i := CEnd] ! j = CEnd" if "j < length (res s)" for j
    using all(2) that len by (cases "j = i") auto
  have T: "tries_ok st s" using D by (simp add: data_inv_def)
  have cw: "w < length (res s)" if "claimant st (res s) (tries s) w" for w
    using that T by (auto simp: claimant_def tries_ok_def dest: winner_in errwinner_in)
  have "tried ((phs s)[i := CEnd] ! j)" if "j < length (res s)" for j using ended [OF that] by (auto simp: tried_def begun_def)
  then have "tries_ok st ?u" using T by (auto simp: tries_ok_def u)
  moreover have "didx st (res s) (tries s) True j ((phs s)[i := CEnd] ! j) (r ! j) (tuple s ! j)" if j: "j < length (res s)" for j
  proof -
    have e: "p = CDtor \<or> p = CEnd \<Longrightarrow> begun p \<and> tried p \<and> p \<noteq> CTry \<and> p \<noteq> CWon" for p by (auto simp: begun_def tried_def)
    have "phs s ! j = CDtor \<or> phs s ! j = CEnd" using all(2) j by blast
    moreover have "r ! j" using r(2,3) len j by simp
    ultimately show ?thesis using data_didx [OF D j] e [of "phs s ! j"] e [OF ended [OF j]] by (simp add: didx_def)
  qed
  moreover have nw: "(phs s)[i := CEnd] ! w \<noteq> CWon" if "claimant st (res s) (tries s) w" for w
    using ended [OF cw [OF that]] by auto
  have a: "answers st ?u = (case winner st (res s) (tries s) of
      Some w \<Rightarrow> if (phs s)[i := CEnd] ! w = CWon then [] else [to_answer (res s ! w)] | None \<Rightarrow> [final st (res s) (tries s)])"
    unfolding answers_def u by simp
  have b: "psets t = (case winner st (res s) (tries s) of Some w \<Rightarrow> [to_answer (res s ! w)] | None \<Rightarrow> [final st (res s) (tries s)])"
    by (simp add: r(1))
  have "psets t = answers st ?u"
  proof (cases "winner st (res s) (tries s)")
    case None
    then show ?thesis unfolding a b by simp
  next
    case (Some w)
    then show ?thesis using nw [of w] unfolding a b by (simp add: claimant_def)
  qed
  moreover have "stored_error st ?u = stored_error st s"
  proof (rule stored_cong)
    fix w assume "claimant st (res s) (tries s) w"
    then have "phs s ! w = CDtor \<or> phs s ! w = CEnd" using all(2) cw by blast
    then have "phs s ! w \<noteq> CWon" by auto
    then show "(phs ?u ! w = CWon) = (phs s ! w = CWon)" using nw [OF \<open>claimant _ _ _ w\<close>] by (simp add: u)
  qed (simp_all add: u)
  ultimately show ?thesis using D by (simp add: data_inv_def u)
qed

subsection \<open>Every step keeps the invariant\<close>

definition when_inv :: "strategy \<Rightarrow> ('v, 'e) comb \<Rightarrow> bool" where
  "when_inv st s \<longleftrightarrow> life_inv st s \<and> data_inv st s"

lemma lens: "life_inv st s \<Longrightarrow> length (phs s) = length (res s) \<and> length (rel s) = length (res s) \<and> length (tuple s) = length (res s) \<and>
  length (words s) = length (res s) \<and> length (cores s) = length (res s)"
  by (simp add: life_inv_def Let_def)

lemma CTry_uses: "data_inv st s \<Longrightarrow> i < length (res s) \<Longrightarrow> phs s ! i = CTry \<or> phs s ! i = CWon \<Longrightarrow> uses_word st"
  using data_didx [of st s i] by (auto simp: didx_def)

text \<open>A consumption that is not over and not idle can take its next step, and that step keeps the data.\<close>

lemma consume_progress:
  assumes L: "life_inv st s" and D: "data_inv st s" and i: "i < length (res s)" and n: "length (res s) < 2 ^ 62"
    and p: "phs s ! i \<noteq> CIdle" "phs s ! i \<noteq> CEnd"
  shows "\<exists>r. consume_step st i s = Some r \<and> data_inv st (put_ph i r)"
proof -
  note len = lens [OF L]
  have "0 < live (phs s ! i) + dtors (phs s ! i)" using p by (auto simp: live_def dtors_def)
  then have "0 < sum_list (map live (phs s)) \<or> 0 < sum_list (map dtors (phs s))"
    using i len sum_list_entry_le [of i "phs s" live] sum_list_entry_le [of i "phs s" dtors] by linarith
  then have nd: "\<not> dead s" using life_counts [OF L] by (auto simp: counts_ok_def simp del: sum_list_eq_0_iff)
  have rl: "rel s ! i = (kCorePolicy st \<noteq> Owned \<and> begun (phs s ! i))"
    using data_didx [OF D i] nd by (auto simp: didx_def)
  then have held: "held_result st i s = Some (res s ! i)" by (simp add: held_result_def core_Get_def)
  show ?thesis
  proof (cases "phs s ! i")
    case CStart
    then have "\<not> rel s ! i" using rl by (simp add: begun_def)
    then obtain q t where c: "Consume st i s = Some (q, t)" by (cases "st = All FPNone") (simp_all add: Consume_effect)
    then show ?thesis using data_start [OF D i CStart _ _ _ c] len nd CStart by (simp add: consume_step_def)
  next
    case CTry
    obtain q t where c: "st_Consume st CTry i (res s ! i) s = (q, t)" by (cases "st_Consume st CTry i (res s ! i) s")
    then show ?thesis using data_try [OF D i CTry n _ nd c] len nd CTry held by (simp add: consume_step_def)
  next
    case CWon
    obtain q t where c: "st_Consume st CWon i (res s ! i) s = (q, t)" by (cases "st_Consume st CWon i (res s ! i) s")
    then show ?thesis using data_won [OF D i CWon _ c] len nd CWon held by (simp add: consume_step_def)
  next
    case CRel
    have "data_inv st (put_ph i (if refs s = 1 then CDtor else CEnd, s\<lparr>refs := refs s - 1\<rparr>))"
      by (rule data_move [OF D i, of "if refs s = 1 then CDtor else CEnd"])
         (use CRel len in \<open>auto simp: begun_def tried_def put_ph_def\<close>)
    then show ?thesis using CRel nd by (simp add: consume_step_def)
  next
    case CDtor
    obtain t where "destroy st s = Some t" "destroyed st s t"
      using destroy_total [OF all_consumedI(1) [OF L D i CDtor]] by blast
    then show ?thesis using data_destroy [OF L D i CDtor] CDtor nd by (simp add: consume_step_def)
  qed (use p in simp_all)
qed

lemma data_produce:
  assumes L: "life_inv st s" and D: "data_inv st s" and i: "i < length (res s)" and w: "words s ! i \<noteq> WResult"
  shows "data_inv st (produce_input i s)"
proof (cases "words s ! i = WCallback")
  case True
  then have "phs s ! i = CIdle" using life_idx [OF L i] by (simp add: idx_ok_def split: if_splits)
  then show ?thesis
    by (intro data_move [OF D i, of CStart]) (use lens [OF L] True in \<open>auto simp: produce_input_def put_ph_def begun_def tried_def\<close>)
next
  case False
  have "data_inv st (s\<lparr>words := ws\<rparr>)" for ws by (rule data_cong [OF D]) simp_all
  then show ?thesis using False by (simp add: produce_input_def)
qed

lemma data_Set:
  assumes L: "life_inv st s" and D: "data_inv st s" and i: "i < length (res s)" and r: "reg s = RAt i"
  shows "data_inv st (Set_turn st i s)"
proof -
  have p: "phs s ! i = CIdle" using life_idx [OF L i] r by (simp add: idx_ok_def)
  have keep: "data_inv st (s\<lparr>cores := c, words := w, reg := g\<rparr>)" for c w g
    by (rule data_cong [OF D]) simp_all
  show ?thesis
  proof (cases "words s ! i = WResult")
    case True
    then show ?thesis
      by (intro data_move [OF D i, of CStart])
         (use lens [OF L] p in \<open>auto simp: Set_turn_def Register_def put_ph_def begun_def tried_def\<close>)
  next
    case False
    then show ?thesis using keep [where c = "cores s" and w = "(words s)[i := WCallback]" and g = "RAt (Suc i)"]
        keep [where c = "(cores s)[i := True]" and w = "(words s)[i := WCallback]" and g = "RAt (Suc i)"]
      by (simp add: Set_turn_def Register_def Let_def)
  qed
qed

lemma consume_moving: "consume_step st i s = Some r \<Longrightarrow> phs s ! i \<noteq> CIdle \<and> phs s ! i \<noteq> CEnd"
  by (auto simp: consume_step_def split: if_splits)

lemma when_step_inv:
  assumes "when_step st s t" and "supported st" and "length (res s) < 2 ^ 62" and I: "when_inv st s"
  shows "when_inv st t"
proof -
  have L: "life_inv st s" and D: "data_inv st s" using I by (simp_all add: when_inv_def)
  have "data_inv st t"
    using assms(1)
  proof cases
    case (w_next i)
    then show ?thesis by (intro data_cong [OF D]) simp_all
  next
    case (w_consume i r)
    then show ?thesis using consume_progress [OF L D w_consume(2) assms(3)] consume_moving [OF w_consume(3)] by auto
  qed (simp_all add: data_produce [OF L D] data_Set [OF L D])
  then show ?thesis using life_step [OF assms(1,2) L] by (simp add: when_inv_def)
qed

lemma when_step_res: "when_step st s t \<Longrightarrow> supported st \<Longrightarrow> res t = res s"
proof (induction rule: when_step.induct)
  case (w_consume i s r)
  then show ?case using consume_step_frame [of st i s "fst r" "snd r"]
    by (cases r) (auto simp: put_ph_def frame_def frame_dead_def)
qed (simp_all add: produce_input_def Set_turn_def Register_def put_ph_def Let_def)

lemma when_reach_inv:
  assumes "when_reach st (When_new st rs) s" and "supported st" and "rs \<noteq> []" and "length rs < 2 ^ 62"
  shows "when_inv st s \<and> res s = rs"
  using assms(1)
proof (induction rule: rtranclp_induct)
  case base
  then show ?case using life_inv_new [OF assms(3)] data_inv_new by (simp add: when_inv_def When_new_def Let_def)
next
  case (step s t)
  then show ?case using when_step_inv [of st s t] when_step_res [of st s t] assms by simp
qed

subsection \<open>Answers\<close>

text \<open>What each combinator promises, without its word or the order of operations.\<close>

definition an_error :: "('e + 'v) list \<Rightarrow> ('v, 'e) answer \<Rightarrow> bool" where
  "an_error rs x \<longleftrightarrow> (\<exists>i < length rs. \<not> Ok (rs ! i) \<and> x = to_answer (rs ! i))"

fun right_answer :: "strategy \<Rightarrow> ('e + 'v) list \<Rightarrow> ('v, 'e) answer \<Rightarrow> bool" where
  "right_answer (All f) rs x =
     (if f = FPNone then x = OResults rs else if list_all Ok rs then x = OValues (map projr rs) else an_error rs x)"
| "right_answer (AllTuple f) rs x =
     (if f = FPNone \<or> list_all Ok rs then x = OTuple (map Some rs) else an_error rs x)"
| "right_answer (Join f) rs x = (if f = FPNone \<or> list_all Ok rs then x = OUnit else an_error rs x)"
| "right_answer (Any f) rs x =
     (\<exists>i < length rs. x = to_answer (rs ! i) \<and> (f = FPNone \<or> Ok (rs ! i) \<or> list_all (\<lambda>r. \<not> Ok r) rs))"

lemma dead_ended:
  assumes L: "life_inv st s" and "dead s" and i: "i < length (res s)"
  shows "phs s ! i = CEnd"
proof -
  have z: "sum_list (map live (phs s)) = 0" "sum_list (map dtors (phs s)) = 0"
    using life_counts [OF L] assms(2) by (auto simp: counts_ok_def simp del: sum_list_eq_0_iff)
  have "live (phs s ! i) = 0" "dtors (phs s ! i) = 0"
    using sum_list_entry_le [of i "phs s" live] sum_list_entry_le [of i "phs s" dtors] z lens [OF L] i
    by (auto simp del: sum_list_eq_0_iff)
  then show ?thesis by (auto simp: live_def dtors_def split: if_splits)
qed

lemma full_length: "distinct ts \<Longrightarrow> set ts = {..<n} \<Longrightarrow> length ts = n"
  by (metis card_lessThan distinct_card)

text \<open>Everyone who could claim did, or found the claim taken.\<close>

lemma right_winner:
  assumes T: "tries_ok st s" and w: "winner st (res s) (tries s) = Some w"
  shows "right_answer st (res s) (to_answer (res s ! w))"
proof -
  have i: "w \<in> set (tries s)" by (rule winner_in [OF w])
  then have l: "w < length (res s)" and c: "cand st (res s ! w)" and u: "uses_word st"
    using T by (auto simp: tries_ok_def)
  have e: "an_error (res s) (to_answer (res s ! w)) \<and> \<not> list_all Ok (res s)" if "\<not> Ok (res s ! w)"
    using that l by (auto simp: an_error_def list_all_length)
  show ?thesis
  proof (cases st)
    case (Any f)
    have "f = FPNone \<or> Ok (res s ! w) \<or> list_all (\<lambda>r. \<not> Ok r) (res s)"
    proof (cases "f = LastFail \<and> oks (res s) (tries s) = []")
      case True
      then have len: "length (tries s) = length (res s)" using w Any by (simp split: if_splits)
      have "\<not> Ok (res s ! j)" if "j < length (res s)" for j
      proof -
        have "card (set (tries s)) = card {..<length (res s)}" using T len by (simp add: tries_ok_def distinct_card)
        moreover have "set (tries s) \<subseteq> {..<length (res s)}" using T by (auto simp: tries_ok_def)
        ultimately have "set (tries s) = {..<length (res s)}" by (intro card_subset_eq) auto
        then have "j \<in> set (tries s)" using that by simp
        then show ?thesis using True by (auto simp: oks_def filter_empty_conv)
      qed
      then show ?thesis by (simp add: list_all_length)
    next
      case False
      show ?thesis
      proof (cases f)
        case FPNone
        then show ?thesis by simp
      qed (use w Any False in \<open>auto simp: oks_def dest!: first_in split: if_splits\<close>)
    qed
    then show ?thesis using l Any by auto
  qed (use e c u in \<open>auto simp: uses_word_def\<close>)
qed

lemma right_final:
  assumes T: "tries_ok st s" and n: "res s \<noteq> []" and w: "winner st (res s) (tries s) = None"
    and c: "\<And>j. j < length (res s) \<Longrightarrow> uses_word st \<Longrightarrow> cand st (res s ! j) \<Longrightarrow> j \<in> set (tries s) \<or> claimed st (res s) (tries s) (res s ! j)"
  shows "right_answer st (res s) (final st (res s) (tries s))"
proof (cases st)
  case (Any f)
  have u: "uses_word st" using Any by (cases f) (simp_all add: uses_word_def)
  have c': "j \<in> set (tries s) \<or> claimed st (res s) (tries s) (res s ! j)" if "j < length (res s)" for j
    using c [OF that u] Any by simp
  have n0: "0 < length (res s)" using n by simp
  have ne: "tries s \<noteq> []" using c' [OF n0] Any by (cases f) (auto split: if_splits)
  have f: "f \<noteq> FPNone" using w ne Any by auto
  have o: "oks (res s) (tries s) = []" using w f Any by (cases f) (auto split: if_splits)
  have all: "\<not> Ok (res s ! j)" if "j < length (res s)" for j
    using c' [OF that] o Any f by (cases f) (auto simp: oks_def filter_empty_conv)
  have "f \<noteq> LastFail"
  proof
    assume l: "f = LastFail"
    have "set (tries s) = {..<length (res s)}"
      using T c' o l Any by (auto simp: tries_ok_def)
    then have "length (tries s) = length (res s)" using T by (intro full_length) (simp_all add: tries_ok_def)
    then show False using w ne o l Any by simp
  qed
  then have f: "f = FirstFail" using f by (cases f) auto
  obtain w where w: "errwinner st (res s) (tries s) = Some w" "w < length (res s)"
    using oks_none [OF o] ne f Any T by (cases "tries s") (auto simp: errwinner_def tries_ok_def)
  have "to_answer (res s ! w) = OError (projl (res s ! w))"
    using all [OF w(2)] by (cases "res s ! w") (auto simp: Ok_def)
  then show ?thesis using w all Any f by (auto simp: list_all_length intro!: exI [of _ w])
next
  case (All f)
  then have "list_all Ok (res s)" if "f \<noteq> FPNone"
    using that c w by (cases f; cases "tries s") (auto simp: list_all_length uses_word_def)
  then show ?thesis using All by auto
next
  case (AllTuple f)
  then have "list_all Ok (res s)" if "f \<noteq> FPNone"
    using that c w by (cases f; cases "tries s") (auto simp: list_all_length uses_word_def)
  then show ?thesis using AllTuple by auto
next
  case (Join f)
  then have "list_all Ok (res s)" if "f \<noteq> FPNone"
    using that c w by (cases f; cases "tries s") (auto simp: list_all_length uses_word_def)
  then show ?thesis using Join by auto
qed

lemma complete_dead:
  assumes L: "life_inv st s" and "complete s"
  shows "dead s"
proof -
  have e: "p = CEnd" if "p \<in> set (phs s)" for p using assms(2) that by (simp add: complete_def)
  have "sum_list (map live (phs s)) = 0" by (rule sum_list_all_zero) (use e in \<open>auto simp: live_def\<close>)
  moreover have "sum_list (map dtors (phs s)) = 0" by (rule sum_list_all_zero) (use e in \<open>auto simp: dtors_def\<close>)
  ultimately show ?thesis using life_counts [OF L]
    by (auto simp: counts_ok_def simp del: sum_list_eq_0_iff split: if_splits)
qed

lemma answers_right:
  assumes I: "when_inv st s" and n: "res s \<noteq> []"
  shows "length (psets s) \<le> 1" and "x \<in> set (psets s) \<Longrightarrow> right_answer st (res s) x" and "dead s \<Longrightarrow> psets s \<noteq> []"
proof -
  have L: "life_inv st s" and D: "data_inv st s" using I by (simp_all add: when_inv_def)
  have T: "tries_ok st s" and p: "psets s = answers st s" using D by (simp_all add: data_inv_def)
  show "length (psets s) \<le> 1" unfolding p answers_def by (simp split: option.splits)
  have c: "j \<in> set (tries s) \<or> claimed st (res s) (tries s) (res s ! j)"
    if "dead s" "j < length (res s)" "uses_word st" "cand st (res s ! j)" for j
    using data_didx [OF D that(2)] dead_ended [OF L that(1,2)] that(3,4) by (simp add: didx_def tried_def begun_def)
  show "right_answer st (res s) x" if x: "x \<in> set (psets s)"
  proof (cases "winner st (res s) (tries s)")
    case None
    then have d: "dead s" and "x = final st (res s) (tries s)" using x unfolding p answers_def by (auto split: if_splits)
    then show ?thesis using right_final [OF T n None c [OF d]] by blast
  next
    case (Some w)
    then have "x = to_answer (res s ! w)" using x unfolding p answers_def by (auto split: if_splits)
    then show ?thesis using right_winner [OF T Some] by simp
  qed
  show "psets s \<noteq> []" if d: "dead s"
  proof (cases "winner st (res s) (tries s)")
    case None
    then show ?thesis using d unfolding p answers_def by simp
  next
    case (Some w)
    then have "w < length (res s)" using winner_in [OF Some] T by (simp add: tries_ok_def)
    then show ?thesis using dead_ended [OF L d] Some unfolding p answers_def by simp
  qed
qed

subsection \<open>Progress\<close>

fun ph_rank :: "cph \<Rightarrow> nat" where
  "ph_rank CIdle = 6" | "ph_rank CStart = 5" | "ph_rank CTry = 4" | "ph_rank CWon = 3" | "ph_rank CRel = 2"
| "ph_rank CDtor = 1" | "ph_rank CEnd = 0"

fun cw_rank :: "cw \<Rightarrow> nat" where
  "cw_rank WEmpty = 2" | "cw_rank WCallback = 1" | "cw_rank WResult = 0"

fun reg_rank :: "nat \<Rightarrow> rpc \<Rightarrow> nat" where
  "reg_rank n (RAt i) = 2 * (n - i)" | "reg_rank n (RIn i) = 2 * (n - i) - 1"

definition work :: "('v, 'e) comb \<Rightarrow> nat" where
  "work s = sum_list (map ph_rank (phs s)) + sum_list (map cw_rank (words s)) + reg_rank (length (res s)) (reg s)"

lemma rank_move:
  "i < length ps \<Longrightarrow> sum_list (map ph_rank (ps[i := q])) + ph_rank (ps ! i) = sum_list (map ph_rank ps) + ph_rank q"
  "i < length ws \<Longrightarrow> sum_list (map cw_rank (ws[i := w])) + cw_rank (ws ! i) = sum_list (map cw_rank ws) + cw_rank w"
  by (simp_all add: sum_list_step)

lemma consume_rank:
  assumes "consume_step st i s = Some (q, t)" and "supported st"
  shows "ph_rank q < ph_rank (phs s ! i)" and "phs t = phs s" "words t = words s" "reg t = reg s" "res t = res s"
  using consume_step_frame [OF assms] by (auto simp: local_move_def frame_def frame_dead_def)

lemma work_less:
  assumes step: "when_step st s t" and S: "supported st" and L: "life_inv st s"
  shows "work t < work s"
  using step
proof cases
  case (w_produce i)
  note len = lens [OF L]
  have w: "cw_rank (words s ! i) > 0" using w_produce(3) by (cases "words s ! i") auto
  have ws: "sum_list (map cw_rank ((words s)[i := WResult])) + cw_rank (words s ! i) = sum_list (map cw_rank (words s))"
    using rank_move(2) [of i "words s" WResult] len w_produce(2) by simp
  show ?thesis
  proof (cases "words s ! i = WCallback")
    case True
    then have "phs s ! i = CIdle" using life_idx [OF L w_produce(2)] by (simp add: idx_ok_def split: if_splits)
    then have "sum_list (map ph_rank ((phs s)[i := CStart])) < sum_list (map ph_rank (phs s))"
      using rank_move(1) [of i "phs s" CStart] len w_produce(2) by simp
    then show ?thesis using ws w True unfolding w_produce(1) by (simp add: work_def produce_input_def put_ph_def)
  next
    case False
    then show ?thesis using ws w unfolding w_produce(1) by (simp add: work_def produce_input_def)
  qed
next
  case (w_set i)
  note len = lens [OF L]
  have p: "phs s ! i = CIdle" "words s ! i \<noteq> WCallback" using life_idx [OF L w_set(3)] w_set(2) by (simp_all add: idx_ok_def)
  show ?thesis
  proof (cases "words s ! i = WResult")
    case True
    have "sum_list (map ph_rank ((phs s)[i := CStart])) < sum_list (map ph_rank (phs s))"
      using rank_move(1) [of i "phs s" CStart] len w_set(3) p by simp
    then show ?thesis using True w_set unfolding w_set(1)
      by (simp add: work_def Set_turn_def Register_def put_ph_def Let_def)
  next
    case False
    then have "words s ! i = WEmpty" using p by (cases "words s ! i") auto
    then have "sum_list (map cw_rank ((words s)[i := WCallback])) < sum_list (map cw_rank (words s))"
      using rank_move(2) [of i "words s" WCallback] len w_set(3) by simp
    then show ?thesis using False w_set unfolding w_set(1) by (simp add: work_def Set_turn_def Register_def Let_def)
  qed
next
  case (w_next i)
  then show ?thesis using L by (auto simp: work_def life_inv_def Let_def)
next
  case (w_consume i r)
  obtain q u where r: "r = (q, u)" by (cases r)
  note c = consume_rank [OF w_consume(3) [unfolded r] S]
  have "sum_list (map ph_rank ((phs s)[i := q])) < sum_list (map ph_rank (phs s))"
    using rank_move(1) [of i "phs s" q] c(1) lens [OF L] w_consume(2) by simp
  then show ?thesis using c unfolding w_consume(1) r by (simp add: work_def put_ph_def)
qed

lemma can_step:
  assumes I: "when_inv st s" and n: "length (res s) < 2 ^ 62" and nc: "\<not> complete s"
  shows "\<exists>t. when_step st s t"
proof -
  have L: "life_inv st s" and D: "data_inv st s" using I by (simp_all add: when_inv_def)
  note len = lens [OF L]
  consider (word) i where "i < length (res s)" "words s ! i \<noteq> WResult"
    | (run) i where "i < length (res s)" "phs s ! i \<noteq> CIdle" "phs s ! i \<noteq> CEnd"
    | (quiet) "\<forall>i < length (res s). words s ! i = WResult \<and> (phs s ! i = CIdle \<or> phs s ! i = CEnd)" by blast
  then show ?thesis
  proof cases
    case word
    then show ?thesis using w_produce by blast
  next
    case run
    then show ?thesis using consume_progress [OF L D run(1) n run(2,3)] w_consume by blast
  next
    case quiet
    have e: "phs s ! i = (if passed (reg s) i then CEnd else CIdle)" if "i < length (res s)" for i
      using life_idx [OF L that] quiet that by (auto simp: idx_ok_def)
    show ?thesis
    proof (cases "reg s")
      case (RIn i)
      then have "i < length (res s)" using L by (simp add: life_inv_def Let_def)
      then show ?thesis using e [of i] RIn w_next by fastforce
    next
      case (RAt i)
      show ?thesis
      proof (cases "i < length (res s)")
        case True
        then have "\<not> dead s" using dead_ended [OF L _ True] e [OF True] RAt by auto
        then show ?thesis using w_set [OF RAt True] by blast
      next
        case False
        then have "reg s = RAt (length (res s))" using L RAt by (simp add: life_inv_def Let_def)
        moreover have "p = CEnd" if "p \<in> set (phs s)" for p using that e len calculation by (auto simp: in_set_conv_nth)
        ultimately have "complete s" by (simp add: complete_def)
        then show ?thesis using nc by blast
      qed
    qed
  qed
qed

lemma reach_complete:
  assumes "when_inv st s" and "supported st" and "length (res s) < 2 ^ 62"
  shows "\<exists>t. when_reach st s t \<and> complete t"
  using assms
proof (induction "work s" arbitrary: s rule: less_induct)
  case less
  show ?case
  proof (cases "complete s")
    case True
    then show ?thesis by blast
  next
    case False
    then obtain t where t: "when_step st s t" using can_step [OF less.prems(1,3)] by blast
    have "when_inv st t" and "res t = res s"
      using when_step_inv [OF t less.prems(2,3,1)] when_step_res [OF t less.prems(2)] by simp_all
    moreover have "work t < work s" using work_less [OF t less.prems(2)] less.prems(1) by (simp add: when_inv_def)
    ultimately obtain u where "when_reach st t u" "complete u" using less.hyps [of t] less.prems(2,3) by auto
    then show ?thesis using t by (meson converse_rtranclp_into_rtranclp)
  qed
qed

subsection \<open>Properties\<close>

text \<open>
  C23: The answer of a combinator. For every strategy, every number of inputs and every interleaving of the thread that sets
  callbacks with the producers, the promise is set at most once, and only to an answer that the strategy
  promises: \<open>WhenAll\<close> gives all results or values in the order of the inputs, or the error of an input; \<open>WhenAny\<close> a value
  if there is one (except with \<open>FailPolicy::None\<close>, the result of any input); \<open>Join\<close> nothing or an error. When the work is complete it was set.
  The input that decides is the first, or for \<open>LastFail\<close> without a value the last, in the order of the operations on the word of the strategy.
\<close>

theorem when_answer:
  assumes "when_reach st (When_new st rs) s" and "supported st" and "rs \<noteq> []" and "length rs < 2 ^ 62"
  shows "length (psets s) \<le> 1 \<and> (\<forall>x \<in> set (psets s). right_answer st rs x) \<and> (complete s \<longrightarrow> length (psets s) = 1) \<and>
    (\<forall>x w. psets s = [x] \<and> winner st rs (tries s) = Some w \<longrightarrow> x = to_answer (rs ! w))"
proof -
  have I: "when_inv st s" and r: "res s = rs" using when_reach_inv [OF assms] by simp_all
  note A = answers_right [OF I, unfolded r, OF assms(3)]
  have "length (psets s) = 1" if "complete s"
  proof -
    have "life_inv st s" using I by (simp add: when_inv_def)
    then have "psets s \<noteq> []" using A(3) complete_dead [OF _ that] by blast
    then show ?thesis using A(1) by (cases "psets s") simp_all
  qed
  moreover have "x = to_answer (rs ! w)" if "psets s = [x]" "winner st rs (tries s) = Some w" for x w
    using I that r by (auto simp: when_inv_def data_inv_def answers_def split: if_splits)
  ultimately show ?thesis using A(1,2) by blast
qed

theorem when_answer_witness:
  "\<exists>s. when_reach (Any LastFail) (When_new (Any LastFail) [Inl (1 :: nat), Inr (2 :: nat)]) s \<and> complete s \<and> psets s = [OValue 2]"
proof -
  let ?st = "Any LastFail" and ?rs = "[Inl (1 :: nat), Inr (2 :: nat)]"
  have "when_inv ?st (When_new ?st ?rs)" by (simp add: when_inv_def life_inv_new data_inv_new)
  moreover have "length (res (When_new ?st ?rs)) < 2 ^ 62" by (simp add: When_new_def)
  ultimately obtain s where s: "when_reach ?st (When_new ?st ?rs) s" "complete s" using reach_complete [of ?st] by fastforce
  have a: "\<forall>x \<in> set (psets s). right_answer ?st ?rs x" "length (psets s) = 1" using when_answer [OF s(1)] s(2) by simp_all
  then obtain x where x: "psets s = [x]" by (cases "psets s") auto
  have "x = OValue 2" using a(1) x by (auto simp: Ok_def less_Suc_eq)
  then show ?thesis using s x by blast
qed

text \<open>
  C24: Memory safety. In every reachable state whoever consumes an input can take the next step: the combinator is
  alive, the core was not released, no assertion fails and no value is read from an error. The thread that sets callbacks
  also never meets a destroyed combinator. When the work is complete the combinator is gone and the reference of every input core was
  given up, which happens at most once.
\<close>

theorem when_memory_safe:
  assumes "when_reach st (When_new st rs) s" and "supported st" and "rs \<noteq> []" and "length rs < 2 ^ 62"
  shows "(\<forall>i < length rs. phs s ! i \<noteq> CIdle \<and> phs s ! i \<noteq> CEnd \<longrightarrow> consume_step st i s \<noteq> None) \<and>
    (\<forall>i < length rs. reg s = RAt i \<longrightarrow> \<not> dead s) \<and>
    (complete s \<longrightarrow> dead s \<and> refs s = 0 \<and> (\<forall>i < length rs. rel s ! i))"
proof -
  have I: "when_inv st s" and r: "res s = rs" using when_reach_inv [OF assms] by simp_all
  have L: "life_inv st s" and D: "data_inv st s" using I by (simp_all add: when_inv_def)
  have n: "length (res s) < 2 ^ 62" using assms(4) r by simp
  have "consume_step st i s \<noteq> None" if "i < length rs" "phs s ! i \<noteq> CIdle" "phs s ! i \<noteq> CEnd" for i
    using consume_progress [OF L D _ n that(2,3)] that(1) r by auto
  moreover have "\<not> dead s" if "i < length rs" "reg s = RAt i" for i
    using dead_ended [OF L, of i] life_idx [OF L, of i] that r by (auto simp: idx_ok_def)
  moreover have "refs s = 0 \<and> (\<forall>i < length rs. rel s ! i)" if "complete s"
  proof -
    have d: "dead s" by (rule complete_dead [OF L that])
    then have "rel s ! i" if "i < length rs" for i
      using data_didx [OF D, of i] dead_ended [OF L d, of i] that r by (auto simp: didx_def begun_def)
    then show ?thesis using life_counts [OF L] d by (auto simp: counts_ok_def)
  qed
  ultimately show ?thesis using complete_dead [OF L] by blast
qed

theorem when_memory_safe_witness:
  "\<exists>s. when_reach (All FirstFail) (When_new (All FirstFail) [Inl (1 :: nat), Inr (2 :: nat)]) s \<and> complete s \<and> dead s \<and> refs s = 0 \<and>
    rel s ! 0 \<and> rel s ! 1"
proof -
  let ?st = "All FirstFail" and ?rs = "[Inl (1 :: nat), Inr (2 :: nat)]"
  have "when_inv ?st (When_new ?st ?rs)" by (simp add: when_inv_def life_inv_new data_inv_new)
  moreover have "length (res (When_new ?st ?rs)) < 2 ^ 62" by (simp add: When_new_def)
  ultimately obtain s where s: "when_reach ?st (When_new ?st ?rs) s" "complete s" using reach_complete [of ?st] by fastforce
  then show ?thesis using when_memory_safe [OF s(1)] by (intro exI [of _ s]) auto
qed

text \<open>
  C25: Combinators finish. As long as the work is not complete some thread can go on, an input that has no
  result yet included, and every step makes a natural number smaller: no interleaving is infinite, and each one that cannot go on is complete.
\<close>

theorem when_terminates:
  assumes "when_reach st (When_new st rs) s" and "supported st" and "rs \<noteq> []" and "length rs < 2 ^ 62"
  shows "(\<not> complete s \<longrightarrow> (\<exists>t. when_step st s t)) \<and> (\<forall>t. when_step st s t \<longrightarrow> work t < work s)"
proof -
  have I: "when_inv st s" and r: "res s = rs" using when_reach_inv [OF assms] by simp_all
  then show ?thesis using can_step [OF I] work_less [OF _ assms(2)] assms(4) by (auto simp: when_inv_def)
qed

theorem when_terminates_witness:
  "\<exists>t. when_step (Join FirstFail) (When_new (Join FirstFail) [Inr (1 :: nat), Inl (2 :: nat)]) t \<and>
    work t < work (When_new (Join FirstFail) [Inr (1 :: nat), Inl (2 :: nat)])"
proof -
  let ?s = "When_new (Join FirstFail) [Inr (1 :: nat), Inl (2 :: nat)]"
  have "\<not> complete ?s" by (simp add: complete_def When_new_def Let_def)
  then show ?thesis using when_terminates [OF rtranclp.rtrancl_refl, of "Join FirstFail" "[Inr (1 :: nat), Inl (2 :: nat)]"] by auto
qed

end
