(* ===== verification/BiLists.thy ===== *)
theory BiLists
  imports Prelude "HOL-Library.Monad_Syntax"
begin

section \<open>The bidirectional intrusive list of the fibers\<close>

text \<open>
  \<open>src/fault/fiber/bidirectional_intrusive_list.cpp\<close>, at pointer level: a circular list through a head node, which the
  scheduler and the queues of waiting fibers keep, and the random choice of \<open>src/fault/fiber/scheduler.cpp\<close>. A null pointer that
  is followed, and a node that is pushed while it is in a list, have the value None.
\<close>

subsection \<open>Operations\<close>

record binodes =
  pv :: "nat \<Rightarrow> nat option"
  nx :: "nat \<Rightarrow> nat option"

text \<open>A new node points to itself.\<close>

definition Node_new :: "nat \<Rightarrow> binodes \<Rightarrow> binodes" where
  "Node_new n m = m\<lparr>pv := (pv m)(n := Some n), nx := (nx m)(n := Some n)\<rparr>"

definition Node_Erase :: "nat \<Rightarrow> binodes \<Rightarrow> bool \<times> binodes" where
  "Node_Erase n m =
     (case (pv m n, nx m n) of
        (Some prev_node, Some next_node) \<Rightarrow>
          let m = m\<lparr>nx := (nx m)(prev_node := Some next_node)\<rparr>;
              m = m\<lparr>pv := (pv m)(next_node := Some prev_node)\<rparr>
          in (True, m\<lparr>nx := (nx m)(n := None), pv := (pv m)(n := None)\<rparr>)
      | _ \<Rightarrow> (False, m))"

definition BiList_PushBack :: "nat \<Rightarrow> nat \<Rightarrow> binodes \<Rightarrow> binodes option" where
  "BiList_PushBack h n m =
     (if pv m n \<noteq> None \<and> pv m n \<noteq> Some n then None
      else do {
        let m = m\<lparr>nx := (nx m)(n := Some h)\<rparr>;
        p \<leftarrow> pv m h;
        let m = m\<lparr>nx := (nx m)(p := Some n)\<rparr>;
        let m = m\<lparr>pv := (pv m)(n := pv m h)\<rparr>;
        Some (m\<lparr>pv := (pv m)(h := Some n)\<rparr>) })"

definition BiList_Empty :: "nat \<Rightarrow> binodes \<Rightarrow> bool" where
  "BiList_Empty h m \<longleftrightarrow> nx m h = Some h"

definition BiList_assign :: "nat \<Rightarrow> nat \<Rightarrow> binodes \<Rightarrow> binodes option" where
  "BiList_assign h other m =
     (if h = other then Some m
      else if BiList_Empty other m then Some (m\<lparr>nx := (nx m)(h := Some h), pv := (pv m)(h := Some h)\<rparr>)
      else do {
        let m = m\<lparr>nx := (nx m)(h := nx m other, other := Some other)\<rparr>;
        let m = m\<lparr>pv := (pv m)(h := pv m other, other := Some other)\<rparr>;
        first \<leftarrow> nx m h;
        let m = m\<lparr>pv := (pv m)(first := Some h)\<rparr>;
        last \<leftarrow> pv m h;
        Some (m\<lparr>nx := (nx m)(last := Some h)\<rparr>) })"

text \<open>The move constructor, with the initializers of the new head.\<close>

definition BiList_move :: "nat \<Rightarrow> nat \<Rightarrow> binodes \<Rightarrow> binodes option" where
  "BiList_move h other m =
     (let m = Node_new h m in if h = other \<or> BiList_Empty other m then Some m else BiList_assign h other m)"

definition BiList_PopBack :: "nat \<Rightarrow> binodes \<Rightarrow> (nat \<times> binodes) option" where
  "BiList_PopBack h m = do { elem \<leftarrow> pv m h; Some (elem, snd (Node_Erase elem m)) }"

definition BiList_PushAll :: "nat \<Rightarrow> nat \<Rightarrow> binodes \<Rightarrow> binodes option" where
  "BiList_PushAll h other m =
     (if h = other \<or> BiList_Empty other m then Some m
      else do {
        last \<leftarrow> pv m h;
        let m = m\<lparr>nx := (nx m)(last := nx m other, other := Some other)\<rparr>;
        first \<leftarrow> nx m last;
        let m = m\<lparr>pv := (pv m)(first := pv m h)\<rparr>;
        let m = m\<lparr>pv := (pv m)(h := pv m other, other := Some other)\<rparr>;
        last \<leftarrow> pv m h;
        Some (m\<lparr>nx := (nx m)(last := Some h)\<rparr>) })"

text \<open>The three loops of \<open>GetElement\<close>: the first stops at the index or at the head, the others go a number of nodes on.\<close>

function get_walk :: "(nat \<Rightarrow> nat option) \<Rightarrow> nat \<Rightarrow> nat \<Rightarrow> nat \<Rightarrow> nat \<Rightarrow> (nat \<times> nat) option" where
  "get_walk go_on h ind i node =
     (if i = ind \<or> node = h \<or> i > ind then Some (i, node)
      else Option.bind (go_on node) (\<lambda>node. get_walk go_on h ind (Suc i) node))"
  by pat_completeness auto
termination by (relation "measure (\<lambda>(f, h, ind, i, node). ind - i)") auto

declare get_walk.simps [simp del]

primrec follow :: "nat \<Rightarrow> (nat \<Rightarrow> nat option) \<Rightarrow> nat \<Rightarrow> nat option" where
  "follow 0 go_on node = Some node"
| "follow (Suc k) go_on node = Option.bind (go_on node) (follow k go_on)"

text \<open>The inner option is the pointer that is returned.\<close>

definition BiList_GetElement :: "nat \<Rightarrow> nat \<Rightarrow> bool \<Rightarrow> binodes \<Rightarrow> nat option option" where
  "BiList_GetElement h ind reversed m = do {
     node \<leftarrow> (if reversed then pv m h else nx m h);
     (i, node) \<leftarrow> get_walk (if reversed then pv m else nx m) h ind 0 node;
     if i = ind \<and> node \<noteq> h then Some (Some node)
     else if i = 0 then Some None
     else
       let sz = i; i = (if reversed then (sz - ind mod sz) mod sz else ind mod sz)
       in if i < sz div 2 then do { node \<leftarrow> nx m h; map_option Some (follow i (nx m) node) }
          else do { node \<leftarrow> pv m h; map_option Some (follow (sz - 1 - i) (pv m) node) } }"

text \<open>\<open>rand_pos\<close> is the random number below \<open>2 * sRandomListPick\<close>.\<close>

definition PollRandomElementFromList :: "nat \<Rightarrow> nat \<Rightarrow> nat \<Rightarrow> binodes \<Rightarrow> (nat \<times> binodes) option" where
  "PollRandomElementFromList sRandomListPick rand_pos h m = do {
     let reversed = (rand_pos \<ge> sRandomListPick);
     let rand_pos = (if reversed then rand_pos - sRandomListPick else rand_pos);
     p \<leftarrow> BiList_GetElement h rand_pos reversed m;
     n \<leftarrow> p;
     Some (n, snd (Node_Erase n m)) }"

subsection \<open>Lists as sequences\<close>

primrec dchain :: "binodes \<Rightarrow> nat \<Rightarrow> nat list \<Rightarrow> nat \<Rightarrow> bool" where
  "dchain m a [] b \<longleftrightarrow> nx m a = Some b \<and> pv m b = Some a"
| "dchain m a (x # xs) b \<longleftrightarrow> nx m a = Some x \<and> pv m x = Some a \<and> dchain m x xs b"

definition bilist :: "binodes \<Rightarrow> nat \<Rightarrow> nat list \<Rightarrow> bool" where
  "bilist m h xs \<longleftrightarrow> distinct (h # xs) \<and> dchain m h xs h"

text \<open>A node that is in no list.\<close>

definition loose :: "binodes \<Rightarrow> nat \<Rightarrow> bool" where
  "loose m n \<longleftrightarrow> (pv m n = None \<and> nx m n = None) \<or> (pv m n = Some n \<and> nx m n = Some n)"

definition agree :: "nat set \<Rightarrow> binodes \<Rightarrow> binodes \<Rightarrow> bool" where
  "agree S m m' \<longleftrightarrow> (\<forall>a. a \<notin> S \<longrightarrow> pv m' a = pv m a \<and> nx m' a = nx m a)"

lemma dchain_append:
  "dchain m a (xs @ y # ys) b \<longleftrightarrow> dchain m a xs y \<and> dchain m y ys b"
  by (induction xs arbitrary: a) auto

lemma dchain_cong:
  "dchain m a xs b \<Longrightarrow> (\<And>x. x \<in> set (a # xs) \<Longrightarrow> nx m' x = nx m x) \<Longrightarrow> (\<And>x. x \<in> set (xs @ [b]) \<Longrightarrow> pv m' x = pv m x) \<Longrightarrow>
    dchain m' a xs b"
  by (induction xs arbitrary: a) auto

lemma dchain_last: "dchain m a xs b \<Longrightarrow> pv m b = Some (if xs = [] then a else last xs)"
  by (induction xs arbitrary: a) auto

lemma dchain_first: "dchain m a xs b \<Longrightarrow> nx m a = Some (if xs = [] then b else hd xs)"
  by (cases xs) auto

lemma dchain_split_last: "dchain m a xs b \<longleftrightarrow> (if xs = [] then nx m a = Some b \<and> pv m b = Some a
    else dchain m a (butlast xs) (last xs) \<and> nx m (last xs) = Some b \<and> pv m b = Some (last xs))"
proof (cases xs rule: rev_cases)
  case (snoc ys y)
  then show ?thesis using dchain_append [of m a ys y "[]" b] by simp
qed simp

lemma bilist_frame:
  assumes "bilist m k ys" "agree S m m'" "set (k # ys) \<inter> S = {}"
  shows "bilist m' k ys"
proof -
  have "pv m' x = pv m x \<and> nx m' x = nx m x" if "x \<in> set (k # ys)" for x
    using assms(2,3) that unfolding agree_def by blast
  then show ?thesis using assms(1) unfolding bilist_def by (auto intro!: dchain_cong [of m])
qed

lemma loose_frame: "loose m n \<Longrightarrow> agree S m m' \<Longrightarrow> n \<notin> S \<Longrightarrow> loose m' n"
  unfolding loose_def agree_def by simp

lemma bilist_Empty: "bilist m h xs \<Longrightarrow> BiList_Empty h m \<longleftrightarrow> xs = []"
  unfolding bilist_def BiList_Empty_def by (cases xs) auto

lemma bilist_new: "bilist (Node_new h m) h [] \<and> agree {h} m (Node_new h m)"
  by (simp add: bilist_def Node_new_def agree_def)

lemma bilist_PushBack:
  assumes "bilist m h xs" "n \<notin> set (h # xs)" "loose m n"
  shows "\<exists>m'. BiList_PushBack h n m = Some m' \<and> bilist m' h (xs @ [n]) \<and> agree (set (h # n # xs)) m m'"
proof -
  define p where "p = (if xs = [] then h else last xs)"
  have pv: "pv m h = Some p" using dchain_last [of m h xs h] assms(1) by (simp add: bilist_def p_def)
  have pin: "p \<in> set (h # xs)" by (simp add: p_def)
  have pn: "p \<noteq> n" using pin assms(2) by auto
  define m' where "m' = \<lparr>pv = (pv m)(n := Some p, h := Some n), nx = (nx m)(n := Some h, p := Some n)\<rparr>"
  have "BiList_PushBack h n m = Some m'"
    using assms(2,3) pv pn by (auto simp: BiList_PushBack_def loose_def m'_def)
  moreover have "dchain m' h xs n"
  proof (cases xs rule: rev_cases)
    case Nil
    then show ?thesis using pn by (simp add: m'_def p_def)
  next
    case (snoc ys y)
    have "dchain m h ys y" using assms(1) by (simp add: bilist_def snoc dchain_append)
    then have "dchain m' h ys y"
      using assms(1,2) by (rule_tac dchain_cong) (auto simp: m'_def p_def snoc bilist_def)
    then show ?thesis using assms(1,2) pn by (simp add: snoc dchain_append m'_def p_def bilist_def)
  qed
  then have "bilist m' h (xs @ [n])"
    using assms(1,2) pn by (simp add: bilist_def dchain_append m'_def)
  moreover have "agree (set (h # n # xs)) m m'" using pin by (auto simp: agree_def m'_def)
  ultimately show ?thesis by blast
qed

lemma bilist_Erase:
  assumes "bilist m h (xs @ n # ys)"
  shows "\<exists>m'. Node_Erase n m = (True, m') \<and> bilist m' h (xs @ ys) \<and> loose m' n \<and> pv m' n = None \<and> agree (set (h # xs @ n # ys)) m m'"
proof -
  define a where "a = (if xs = [] then h else last xs)"
  define b where "b = (if ys = [] then h else hd ys)"
  have c: "dchain m h xs n" "dchain m n ys h" and d: "distinct (h # xs @ n # ys)"
    using assms by (simp_all add: bilist_def dchain_append)
  have f: "pv m n = Some a" "nx m n = Some b" using dchain_last [OF c(1)] dchain_first [OF c(2)] by (simp_all add: a_def b_def)
  have ain: "a \<in> set (h # xs)" and bin: "b \<in> set (ys @ [h])" by (auto simp: a_def b_def)
  then have an: "a \<noteq> n" "b \<noteq> n" using d by auto
  define m' where "m' = \<lparr>pv = (pv m)(b := Some a, n := None), nx = (nx m)(a := Some b, n := None)\<rparr>"
  have e: "Node_Erase n m = (True, m')" using f an by (auto simp: Node_Erase_def m'_def Let_def fun_upd_twist)
  have "dchain m' h (xs @ ys) h"
  proof (cases ys)
    case Nil
    show ?thesis
    proof (cases xs rule: rev_cases)
      case Nil
      then show ?thesis using \<open>ys = []\<close> an by (simp add: m'_def a_def b_def)
    next
      case (snoc zs z)
      then have "dchain m h zs z" using c(1) by (simp add: dchain_append)
      then have "dchain m' h zs z" by (rule dchain_cong) (use d snoc \<open>ys = []\<close> in \<open>auto simp: m'_def a_def b_def\<close>)
      then show ?thesis using snoc \<open>ys = []\<close> an by (simp add: dchain_append m'_def a_def b_def)
    qed
  next
    case (Cons y zs)
    then have "dchain m y zs h" using c(2) by simp
    then have q: "dchain m' y zs h" by (rule dchain_cong) (use d Cons ain in \<open>auto simp: m'_def b_def\<close>)
    have "dchain m' h xs y"
    proof (cases xs rule: rev_cases)
      case Nil
      then show ?thesis using Cons an by (simp add: m'_def a_def b_def)
    next
      case (snoc ws w)
      then have "dchain m h ws w" using c(1) by (simp add: dchain_append)
      then have "dchain m' h ws w" by (rule dchain_cong) (use d snoc Cons in \<open>auto simp: m'_def a_def b_def\<close>)
      then show ?thesis using snoc Cons an by (simp add: dchain_append m'_def a_def b_def)
    qed
    then show ?thesis using q Cons by (simp add: dchain_append)
  qed
  then have "bilist m' h (xs @ ys)" using d by (simp add: bilist_def)
  moreover have "loose m' n" "pv m' n = None" by (simp_all add: loose_def m'_def)
  moreover have "agree (set (h # xs @ n # ys)) m m'" using ain bin by (auto simp: agree_def m'_def)
  ultimately show ?thesis using e by blast
qed

lemma bilist_PopBack:
  assumes "bilist m h (xs @ [n])"
  shows "\<exists>m'. BiList_PopBack h m = Some (n, m') \<and> bilist m' h xs \<and> loose m' n \<and> agree (set (h # xs @ [n])) m m'"
proof -
  have "pv m h = Some n" using assms dchain_last [of m h "xs @ [n]" h] by (simp add: bilist_def)
  then show ?thesis using bilist_Erase [OF assms] by (auto simp: BiList_PopBack_def)
qed

text \<open>The elements of the other list with the new head.\<close>

lemma dchain_new_head:
  assumes "dchain m k ys k" "ys \<noteq> []" "distinct ys" "h \<notin> set ys" "k \<notin> set ys"
    and "nx m' h = Some (hd ys)" "pv m' h = Some (last ys)"
    and "\<And>x. x \<in> set ys \<Longrightarrow> nx m' x = (if x = last ys then Some h else nx m x)"
    and "\<And>x. x \<in> set ys \<Longrightarrow> pv m' x = (if x = hd ys then Some h else pv m x)"
  shows "dchain m' h ys h"
proof -
  obtain y zs where ys: "ys = y # zs" using assms(2) by (cases ys) auto
  have c: "dchain m y zs k" using assms(1) ys by simp
  have "dchain m' y zs h"
  proof (cases zs rule: rev_cases)
    case Nil
    then show ?thesis using assms ys by simp
  next
    case (snoc ws w)
    have "dchain m y ws w" using c snoc by (simp add: dchain_append)
    then have "dchain m' y ws w" by (rule dchain_cong) (use assms(3,8,9) ys snoc in auto)
    then show ?thesis using assms(7,8) ys snoc by (simp add: dchain_append)
  qed
  then show ?thesis using assms(6,9) ys by simp
qed

lemma bilist_assign:
  assumes "bilist m k ys" "h \<notin> set (k # ys)"
  shows "\<exists>m'. BiList_assign h k m = Some m' \<and> bilist m' h ys \<and> bilist m' k [] \<and> agree (set (h # k # ys)) m m'"
proof (cases "ys = []")
  case True
  then show ?thesis using assms bilist_Empty [OF assms(1)]
    by (auto simp: BiList_assign_def bilist_def agree_def)
next
  case False
  have c: "dchain m k ys k" and d: "distinct ys" "k \<notin> set ys" using assms(1) by (simp_all add: bilist_def)
  have f: "nx m k = Some (hd ys)" "pv m k = Some (last ys)"
    using dchain_first [OF c] dchain_last [OF c] False by simp_all
  have n: "hd ys \<noteq> h" "hd ys \<noteq> k" "last ys \<noteq> h" "last ys \<noteq> k" using False assms(2) d by auto
  define m' where "m' = \<lparr>pv = (pv m)(h := Some (last ys), k := Some k, hd ys := Some h),
      nx = (nx m)(h := Some (hd ys), k := Some k, last ys := Some h)\<rparr>"
  have "BiList_assign h k m = Some m'"
    using assms(2) False bilist_Empty [OF assms(1)] f n by (auto simp: BiList_assign_def m'_def)
  moreover have "dchain m' h ys h"
    by (rule dchain_new_head [OF c False d(1)]) (use assms(2) d n in \<open>auto simp: m'_def\<close>)
  moreover have "bilist m' k []" using n assms(2) by (auto simp: bilist_def m'_def)
  moreover have "hd ys \<in> set ys" "last ys \<in> set ys" using False by simp_all
  then have "agree (set (h # k # ys)) m m'" by (auto simp: agree_def m'_def)
  ultimately show ?thesis using assms(2) d by (auto simp: bilist_def)
qed

lemma agree_trans: "agree S m m' \<Longrightarrow> agree T m' m'' \<Longrightarrow> S \<subseteq> U \<Longrightarrow> T \<subseteq> U \<Longrightarrow> agree U m m''"
  unfolding agree_def by (metis subsetD)

lemma bilist_move:
  assumes "bilist m k ys" "h \<notin> set (k # ys)"
  shows "\<exists>m'. BiList_move h k m = Some m' \<and> bilist m' h ys \<and> bilist m' k [] \<and> agree (set (h # k # ys)) m m'"
proof -
  let ?m = "Node_new h m"
  have k: "bilist ?m k ys" using bilist_frame [OF assms(1) conjunct2 [OF bilist_new]] assms(2) by auto
  show ?thesis
  proof (cases "ys = []")
    case True
    then have "BiList_move h k m = Some ?m" using bilist_Empty [OF k] by (simp add: BiList_move_def)
    then show ?thesis using True k bilist_new [of h m] by (auto simp: agree_def)
  next
    case False
    then have "BiList_move h k m = BiList_assign h k ?m" using bilist_Empty [OF k] assms(2) by (auto simp: BiList_move_def)
    then show ?thesis
      using bilist_assign [OF k assms(2)] agree_trans [OF conjunct2 [OF bilist_new [of h m]], where U = "set (h # k # ys)"] by fastforce
  qed
qed

lemma bilist_PushAll:
  assumes "bilist m h xs" "bilist m k ys" "set (h # xs) \<inter> set (k # ys) = {}"
  shows "\<exists>m'. BiList_PushAll h k m = Some m' \<and> bilist m' h (xs @ ys) \<and> bilist m' k [] \<and> agree (set (h # xs @ k # ys)) m m'"
proof (cases "ys = []")
  case True
  then show ?thesis using assms bilist_Empty [OF assms(2)] by (auto simp: BiList_PushAll_def agree_def)
next
  case False
  have c: "dchain m k ys k" and d: "distinct ys" "k \<notin> set ys" using assms(2) by (simp_all add: bilist_def)
  have c': "dchain m h xs h" and d': "distinct xs" "h \<notin> set xs" using assms(1) by (simp_all add: bilist_def)
  define p where "p = (if xs = [] then h else last xs)"
  have f: "nx m k = Some (hd ys)" "pv m k = Some (last ys)" "pv m h = Some p"
    using dchain_first [OF c] dchain_last [OF c] dchain_last [OF c'] False by (simp_all add: p_def)
  have pin: "p \<in> set (h # xs)" by (simp add: p_def)
  have mem: "hd ys \<in> set ys" "last ys \<in> set ys" using False by simp_all
  have n: "hd ys \<noteq> k" "last ys \<noteq> k" "hd ys \<noteq> h" "last ys \<noteq> h" "hd ys \<noteq> p" "last ys \<noteq> p" "p \<noteq> k" "h \<noteq> k"
    using mem pin assms(3) d by auto
  define m' where "m' = \<lparr>pv = (pv m)(hd ys := Some p, h := Some (last ys), k := Some k),
      nx = (nx m)(p := Some (hd ys), k := Some k, last ys := Some h)\<rparr>"
  have "BiList_PushAll h k m = Some m'"
    using False bilist_Empty [OF assms(2)] f n by (auto simp: BiList_PushAll_def m'_def fun_upd_twist)
  moreover have "dchain m' h (xs @ ys) h"
  proof -
    obtain y zs where ys: "ys = y # zs" using False by (cases ys) auto
    have "dchain m y zs k" using c ys by simp
    then have q: "dchain m' y zs h"
    proof (cases zs rule: rev_cases)
      case Nil
      then show ?thesis using ys n by (simp add: m'_def)
    next
      case (snoc ws w)
      have "dchain m y ws w" using \<open>dchain m y zs k\<close> snoc by (simp add: dchain_append)
      then have "dchain m' y ws w"
        by (rule dchain_cong) (use assms(3) d n ys snoc pin in \<open>auto simp: m'_def\<close>)
      then show ?thesis using ys snoc n d by (simp add: dchain_append m'_def)
    qed
    have "dchain m' h xs y"
    proof (cases xs rule: rev_cases)
      case Nil
      then show ?thesis using ys n by (simp add: m'_def p_def)
    next
      case (snoc ws w)
      have "dchain m h ws w" using c' snoc by (simp add: dchain_append)
      then have "dchain m' h ws w"
        by (rule dchain_cong) (use assms(3) d' mem snoc in \<open>auto simp: m'_def p_def\<close>)
      then show ?thesis using ys snoc n by (simp add: dchain_append m'_def p_def)
    qed
    then show ?thesis using q ys by (simp add: dchain_append)
  qed
  moreover have "bilist m' k []" using n by (simp add: bilist_def m'_def)
  moreover have "agree (set (h # xs @ k # ys)) m m'" using pin mem by (auto simp: agree_def m'_def)
  ultimately show ?thesis using assms(3) d d' by (auto simp: bilist_def)
qed

subsection \<open>The element at an index\<close>

lemma dchain_chains:
  "dchain m a xs b \<Longrightarrow> chain (nx m) (nx m a) xs (Some b)"
  "dchain m a xs b \<Longrightarrow> chain (pv m) (pv m b) (rev xs) (Some a)"
  by (induction xs arbitrary: a) auto

lemma get_walk_chain:
  "chain f (Some node) zs (Some h) \<Longrightarrow> h \<notin> set zs \<Longrightarrow> i \<le> ind \<Longrightarrow>
    get_walk f h ind i node = Some (if ind - i < length zs then (ind, zs ! (ind - i)) else (i + length zs, h))"
proof (induction zs arbitrary: node i)
  case Nil
  then show ?case by (subst get_walk.simps) simp
next
  case (Cons z zs)
  show ?case
  proof (cases "i = ind")
    case True
    then show ?thesis using Cons.prems by (subst get_walk.simps) simp
  next
    case False
    then obtain n where n: "f z = Some n" "chain f (Some n) zs (Some h)" "node = z"
      using Cons.prems by (cases zs) auto
    have "get_walk f h ind i node = get_walk f h ind (Suc i) n"
      using False Cons.prems n by (subst get_walk.simps) auto
    moreover have "ind - i = Suc (ind - Suc i)" using False Cons.prems(3) by simp
    ultimately show ?thesis using Cons.IH [OF n(2), of "Suc i"] Cons.prems False by auto
  qed
qed

lemma follow_chain: "chain f (Some node) zs q \<Longrightarrow> k < length zs \<Longrightarrow> follow k f node = Some (zs ! k)"
proof (induction zs arbitrary: node k)
  case (Cons z zs)
  show ?case
  proof (cases k)
    case (Suc j)
    then obtain n where "f z = Some n" "chain f (Some n) zs q" "node = z" using Cons.prems by (cases zs) auto
    then show ?thesis using Suc Cons by simp
  qed (use Cons in simp)
qed simp

text \<open>Which element \<open>GetElement\<close> returns: past the end a reversed index is not the one a reversed reading would give.\<close>

definition get_index :: "nat \<Rightarrow> bool \<Rightarrow> nat \<Rightarrow> nat" where
  "get_index ind reversed len =
     (if ind < len then (if reversed then len - 1 - ind else ind)
      else if reversed then (len - ind mod len) mod len else ind mod len)"

lemma get_index_less: "0 < len \<Longrightarrow> get_index ind reversed len < len"
  by (simp add: get_index_def)

lemma bilist_GetElement:
  assumes "bilist m h xs"
  shows "BiList_GetElement h ind reversed m = Some (if xs = [] then None else Some (xs ! get_index ind reversed (length xs)))"
proof -
  define f where "f = (if reversed then pv m else nx m)"
  define zs where "zs = (if reversed then rev xs else xs)"
  have c: "chain (nx m) (nx m h) xs (Some h)" "chain (pv m) (pv m h) (rev xs) (Some h)" and hn: "h \<notin> set xs"
    using assms dchain_chains by (auto simp: bilist_def)
  have cz: "chain f (f h) zs (Some h)" "h \<notin> set zs" "length zs = length xs" using c hn by (auto simp: f_def zs_def)
  then obtain node where n: "f h = Some node" "chain f (Some node) zs (Some h)" by (cases zs) auto
  have w: "get_walk f h ind 0 node = Some (if ind < length xs then (ind, zs ! ind) else (length xs, h))"
    using get_walk_chain [OF n(2) cz(2), of 0 ind] cz(3) by simp
  have first: "(if reversed then pv m h else nx m h) = Some node" "(if reversed then pv m else nx m) = f"
    using n(1) by (auto simp: f_def split: if_splits)
  show ?thesis
  proof (cases "ind < length xs")
    case True
    have "zs ! ind \<in> set zs" using True cz(3) by simp
    then have "zs ! ind \<noteq> h" using cz(2) by auto
    moreover have "zs ! ind = xs ! get_index ind reversed (length xs)"
      using True by (simp add: zs_def get_index_def rev_nth)
    ultimately show ?thesis using True w by (auto simp: BiList_GetElement_def first Let_def)
  next
    case False
    show ?thesis
    proof (cases "xs = []")
      case True
      then show ?thesis using False w by (auto simp: BiList_GetElement_def first Let_def)
    next
      case ne: False
      let ?i = "if reversed then (length xs - ind mod length xs) mod length xs else ind mod length xs"
      have i: "?i < length xs" "?i = get_index ind reversed (length xs)" using ne False by (simp_all add: get_index_def)
      obtain a where a: "nx m h = Some a" "chain (nx m) (Some a) xs (Some h)" using c(1) by (cases xs) auto
      obtain b where b: "pv m h = Some b" "chain (pv m) (Some b) (rev xs) (Some h)" using c(2) by (cases "rev xs") auto
      have "follow ?i (nx m) a = Some (xs ! ?i)" using follow_chain [OF a(2) i(1)] .
      moreover have "follow (length xs - 1 - ?i) (pv m) b = Some (rev xs ! (length xs - 1 - ?i))"
        using follow_chain [OF b(2), of "length xs - 1 - ?i"] i(1) by simp
      then have "follow (length xs - 1 - ?i) (pv m) b = Some (xs ! ?i)" using i(1) by (simp add: rev_nth)
      moreover have "BiList_GetElement h ind reversed m =
        (if ?i < length xs div 2 then map_option Some (follow ?i (nx m) a) else map_option Some (follow (length xs - 1 - ?i) (pv m) b))"
        using False ne w a(1) b(1) unfolding BiList_GetElement_def first by (simp add: Let_def)
      ultimately show ?thesis using ne i(2) by simp
    qed
  qed
qed

lemma bilist_Poll:
  assumes "bilist m h xs" "xs \<noteq> []"
  shows "\<exists>n m'. PollRandomElementFromList pick rand_pos h m = Some (n, m') \<and> n \<in> set xs \<and>
    bilist m' h (remove1 n xs) \<and> loose m' n \<and> agree (set (h # xs)) m m'"
proof -
  define r where "r = (if rand_pos \<ge> pick then rand_pos - pick else rand_pos)"
  define n where "n = xs ! get_index r (rand_pos \<ge> pick) (length xs)"
  have nin: "n \<in> set xs" using assms(2) get_index_less [of "length xs"] by (simp add: n_def)
  then obtain as bs where xs: "xs = as @ n # bs" "n \<notin> set as" using split_list_first by fastforce
  obtain m' where m': "Node_Erase n m = (True, m')" "bilist m' h (as @ bs)" "loose m' n" "agree (set (h # xs)) m m'"
    using bilist_Erase [of m h as n bs] assms(1) xs by auto
  have "PollRandomElementFromList pick rand_pos h m = Some (n, m')"
    using bilist_GetElement [OF assms(1)] assms(2) m'(1) by (simp add: PollRandomElementFromList_def Let_def n_def r_def)
  then show ?thesis using nin m' xs by (auto simp: remove1_append)
qed

subsection \<open>The contract of a queue with a random choice\<close>

text \<open>
  What the scheduler and the queues of waiting fibers rely on: nodes of \<open>U\<close> are pushed, and a poll takes one of those
  that are there, whichever the random number says.
\<close>

fun push_list :: "('a \<Rightarrow> 's \<Rightarrow> 's option) \<Rightarrow> 'a list \<Rightarrow> 's \<Rightarrow> 's option" where
  "push_list push [] s = Some s"
| "push_list push (x # xs) s = Option.bind (push x s) (push_list push xs)"

fun poll_list :: "(nat \<Rightarrow> 's \<Rightarrow> ('a \<times> 's) option) \<Rightarrow> nat list \<Rightarrow> 's \<Rightarrow> ('a list \<times> 's) option" where
  "poll_list poll [] s = Some ([], s)"
| "poll_list poll (r # rs) s = do { (x, s) \<leftarrow> poll r s; (xs, s) \<leftarrow> poll_list poll rs s; Some (x # xs, s) }"

locale poll_queue =
  fixes push :: "'a \<Rightarrow> 's \<Rightarrow> 's option"
    and poll :: "nat \<Rightarrow> 's \<Rightarrow> ('a \<times> 's) option"
    and emp :: "'s \<Rightarrow> bool"
    and rep :: "'s \<Rightarrow> 'a list \<Rightarrow> bool"
    and U :: "'a set"
  assumes push_rep: "rep s xs \<Longrightarrow> x \<in> U \<Longrightarrow> x \<notin> set xs \<Longrightarrow> \<exists>s'. push x s = Some s' \<and> rep s' (xs @ [x])"
    and poll_rep: "rep s xs \<Longrightarrow> xs \<noteq> [] \<Longrightarrow> \<exists>x s'. poll r s = Some (x, s') \<and> x \<in> set xs \<and> rep s' (remove1 x xs)"
    and emp_rep: "rep s xs \<Longrightarrow> emp s \<longleftrightarrow> xs = []"
begin

lemma push_list_rep:
  "rep s ys \<Longrightarrow> distinct (ys @ xs) \<Longrightarrow> set xs \<subseteq> U \<Longrightarrow> \<exists>s'. push_list push xs s = Some s' \<and> rep s' (ys @ xs)"
proof (induction xs arbitrary: s ys)
  case (Cons x xs)
  then obtain s' where "push x s = Some s'" "rep s' (ys @ [x])" using push_rep [of s ys x] by auto
  then show ?case using Cons.IH [of s' "ys @ [x]"] Cons.prems by auto
qed simp

lemma poll_list_rep:
  "rep s xs \<Longrightarrow> length rs \<le> length xs \<Longrightarrow>
    \<exists>ys s' zs. poll_list poll rs s = Some (ys, s') \<and> rep s' zs \<and> mset ys + mset zs = mset xs \<and> length ys = length rs"
proof (induction rs arbitrary: s xs)
  case (Cons r rs)
  then obtain x s' where x: "poll r s = Some (x, s')" "x \<in> set xs" "rep s' (remove1 x xs)"
    using poll_rep [of s xs r] by (cases xs) auto
  moreover have "length rs \<le> length (remove1 x xs)" using Cons.prems x(2) by (simp add: length_remove1)
  ultimately obtain ys s'' zs where "poll_list poll rs s' = Some (ys, s'')" "rep s'' zs"
      "mset ys + mset zs = mset (remove1 x xs)" "length ys = length rs"
    using Cons.IH by blast
  then show ?case using x by (intro exI [of _ "x # ys"] exI [of _ s''] exI [of _ zs]) auto
qed auto

lemma push_poll:
  assumes "rep s []" "distinct xs" "set xs \<subseteq> U" "length rs = length xs"
  shows "\<exists>s' ys s''. push_list push xs s = Some s' \<and> poll_list poll rs s' = Some (ys, s'') \<and> mset ys = mset xs \<and> emp s''"
proof -
  obtain s' where s': "push_list push xs s = Some s'" "rep s' xs" using push_list_rep [of s "[]" xs] assms by auto
  then obtain ys s'' zs where *: "poll_list poll rs s' = Some (ys, s'')" "rep s'' zs" "mset ys + mset zs = mset xs" "length ys = length rs"
    using poll_list_rep [of s' xs rs] assms(4) by auto
  have "size (mset ys + mset zs) = size (mset xs)" using *(3) by simp
  then have "zs = []" using *(4) assms(4) by simp
  then show ?thesis using s' * emp_rep by auto
qed

end

definition bi_rep :: "nat \<Rightarrow> nat set \<Rightarrow> binodes \<Rightarrow> nat list \<Rightarrow> bool" where
  "bi_rep h U m xs \<longleftrightarrow> bilist m h xs \<and> h \<notin> U \<and> set xs \<subseteq> U \<and> (\<forall>n \<in> U - set xs. loose m n)"

interpretation biq: poll_queue "BiList_PushBack h" "\<lambda>r. PollRandomElementFromList pick r h" "BiList_Empty h" "bi_rep h U" U
  for h U pick
proof unfold_locales
  fix m xs n
  assume a: "bi_rep h U m xs" "n \<in> U" "n \<notin> set xs"
  then obtain m' where m': "BiList_PushBack h n m = Some m'" "bilist m' h (xs @ [n])" "agree (set (h # n # xs)) m m'"
    using bilist_PushBack [of m h xs n] unfolding bi_rep_def by auto
  then have "bi_rep h U m' (xs @ [n])" using a loose_frame [OF _ m'(3)] unfolding bi_rep_def by auto
  then show "\<exists>m'. BiList_PushBack h n m = Some m' \<and> bi_rep h U m' (xs @ [n])" using m'(1) by blast
next
  fix m xs r
  assume a: "bi_rep h U m xs" "xs \<noteq> []"
  then obtain n m' where m': "PollRandomElementFromList pick r h m = Some (n, m')" "n \<in> set xs" "bilist m' h (remove1 n xs)"
      "loose m' n" "agree (set (h # xs)) m m'"
    using bilist_Poll [of m h xs pick r] unfolding bi_rep_def by auto
  have "distinct xs" using a(1) by (simp add: bi_rep_def bilist_def)
  then have "bi_rep h U m' (remove1 n xs)"
    using a m'(2-4) loose_frame [OF _ m'(5)] unfolding bi_rep_def by auto
  then show "\<exists>n m'. PollRandomElementFromList pick r h m = Some (n, m') \<and> n \<in> set xs \<and> bi_rep h U m' (remove1 n xs)"
    using m' by blast
qed (simp add: bi_rep_def bilist_Empty)

definition demo_nodes :: binodes where
  "demo_nodes = Node_new 0 (Node_new 1 (Node_new 2 \<lparr>pv = (\<lambda>_. None), nx = (\<lambda>_. None)\<rparr>))"

lemma demo_nodes: "bilist demo_nodes 0 []" "loose demo_nodes 1" "loose demo_nodes 2"
  using bilist_new by (simp_all add: demo_nodes_def) (simp_all add: Node_new_def loose_def)

text \<open>
  The random choice of the scheduler loses no fiber. Any distinct new nodes are pushed, none of the polls follows a null
  pointer, and whatever the random numbers, and whatever \<open>sRandomListPick\<close>, the polls return each node exactly once, after which the list is empty.
\<close>

lemma poll_permutation:
  assumes "bilist m h []" and "distinct xs" and "\<forall>x \<in> set xs. x \<noteq> h \<and> loose m x" and "length rs = length xs"
  shows "\<exists>m' ys m''. push_list (BiList_PushBack h) xs m = Some m' \<and>
    poll_list (\<lambda>r. PollRandomElementFromList pick r h) rs m' = Some (ys, m'') \<and> mset ys = mset xs \<and> BiList_Empty h m''"
  using biq.push_poll [of h "set xs" m xs rs pick] assms by (auto simp: bi_rep_def)


text \<open>
  Which element \<open>GetElement\<close> returns: the element at the index, from the front or from the back; past the end the index
  is taken modulo the size, but a reversed one is then one element off the element that a reversed walk of that many steps
  would reach; on an empty list it returns no element.
\<close>

lemma get_element:
  assumes "bilist m h xs"
  shows "BiList_GetElement h ind reversed m =
    Some (if xs = [] then None
          else if ind < length xs then Some ((if reversed then rev xs else xs) ! ind)
          else Some (xs ! (if reversed then (length xs - ind mod length xs) mod length xs else ind mod length xs)))"
  using bilist_GetElement [OF assms, of ind reversed] by (auto simp: get_index_def rev_nth)


end
