(* ===== verification/Fibers.thy ===== *)
theory Fibers
  imports Prelude "HOL-Library.Monad_Syntax"
begin

section \<open>Fibers and their scheduler\<close>

text \<open>
  The deterministic threads of the fault build: \<open>src/fault/fiber/scheduler.cpp\<close>, \<open>queue.cpp\<close>, \<open>fiber_base.cpp\<close>, \<open>thread.cpp\<close>,
  \<open>mutex.cpp\<close> and \<open>condition_variable.cpp\<close>. One fiber runs at a time, until it suspends; then \<open>RunLoop\<close> picks the next. The
  code of a fiber between two calls of the library is any code; the calls in progress of a suspended fiber are a stack of
  frames, which say what a call still has to do when the fiber is resumed.

  A command is one such piece: a turn of \<open>RunLoop\<close>, a frame, or a call, with the random choice it makes. A fiber is a number, never used twice;
  lists of fibers stand for the intrusive lists. Times are \<open>std::uint64_t\<close> numbers of nanoseconds, whose additions wrap; time points are
  signed numbers, which are converted. The functions of fibers do not throw (\<open>Resume\<close> would throw it into \<open>RunLoop\<close>). A freed fiber that is used, an iterator at the end that
  is followed, and a fiber that is pushed into a list while it is in one have the value None.
\<close>

subsection \<open>States\<close>

datatype fstate = Running | Suspended | Waiting | Completed

text \<open>The queues of mutexes and of condition variables.\<close>

datatype qid = MQ nat | CQ nat

text \<open>
  After \<open>Suspend\<close> in \<open>FiberQueue::Wait\<close> and in \<open>Sleep\<close>; the rest of \<open>SleepPreemptive\<close> and of a wait with a time limit; the loop of
  \<open>Mutex::lock\<close>; \<open>lock.lock()\<close> and \<open>return status\<close> of \<open>WaitImpl\<close>; the loop of \<open>Thread::join\<close>. The time in \<open>KSleep\<close> and
  \<open>KTimed\<close> is for the statements only; in \<open>KTimed\<close> it is the time point and the random number added up without wrapping.
\<close>

type_synonym time = "64 word"

datatype frame = KWait qid | KSleep time | KPre time | KTimed qid int | KLock nat | KRelock nat | KRet bool | KJoin nat

record fiber =
  status :: fstate
  joining :: "nat option"
  thread_alive :: bool
  frames :: "frame list"
  ready :: bool

record sched =
  squeue :: "nat list"
  sleep_list :: "(time \<times> nat list) list"
  clock :: time
  cur :: "nat option"
  fib :: "nat \<Rightarrow> fiber option"
  waiting :: "(qid \<times> nat) list"
  occupied :: "nat \<Rightarrow> bool"
  holder :: "nat \<Rightarrow> nat option"
  handles :: "nat list"
  deleted :: "nat list"
  wrapped :: bool

definition scheduled :: "sched \<Rightarrow> nat list" where
  "scheduled s = squeue s @ concat (map snd (sleep_list s))"

definition upd :: "nat \<Rightarrow> (fiber \<Rightarrow> fiber) \<Rightarrow> sched \<Rightarrow> sched" where
  "upd f g s = s\<lparr>fib := (fib s)(f := map_option g (fib s f))\<rparr>"

definition FiberBase_new :: fiber where
  "FiberBase_new = \<lparr>status = Suspended, joining = None, thread_alive = True, frames = [], ready = True\<rparr>"

definition push_frame :: "nat \<Rightarrow> frame \<Rightarrow> sched \<Rightarrow> sched" where
  "push_frame f k = upd f (\<lambda>x. x\<lparr>frames := k # frames x\<rparr>)"

subsection \<open>The scheduler\<close>

definition Suspend :: "nat \<Rightarrow> sched \<Rightarrow> sched" where
  "Suspend f s = upd f (\<lambda>x. x\<lparr>status := Suspended\<rparr>) (s\<lparr>cur := None\<rparr>)"

definition Schedule :: "nat \<Rightarrow> sched \<Rightarrow> sched option" where
  "Schedule f s =
     (if f \<in> set (scheduled s) \<or> fib s f = None then None
      else Some ((upd f (\<lambda>x. x\<lparr>status := Waiting\<rparr>) s)\<lparr>squeue := squeue s @ [f]\<rparr>))"

definition RescheduleCurrent :: "sched \<Rightarrow> sched option" where
  "RescheduleCurrent s =
     (case cur s of
        None \<Rightarrow> Some s
      | Some f \<Rightarrow> if f \<in> set (scheduled s) then None else Some (Suspend f (s\<lparr>squeue := squeue s @ [f]\<rparr>)))"

text \<open>\<open>wrapped\<close> says whether the clock has wrapped; it is not in the code.\<close>

definition TickTime :: "32 word \<Rightarrow> sched \<Rightarrow> sched" where
  "TickTime sTickLength s = s\<lparr>clock := clock s + ucast sTickLength,
     wrapped := wrapped s \<or> 2 ^ 64 \<le> unat (clock s) + unat (ucast sTickLength :: time)\<rparr>"

definition AdvanceTime :: "sched \<Rightarrow> sched option" where
  "AdvanceTime s =
     (case sleep_list s of
        [] \<Rightarrow> None
      | (t, fs) # sl \<Rightarrow> Some (if t \<ge> clock s then s\<lparr>clock := clock s + (t - clock s)\<rparr> else s))"

definition WakeUpNeeded :: "sched \<Rightarrow> sched" where
  "WakeUpNeeded s =
     s\<lparr>squeue := squeue s @ concat (map snd (takeWhile (\<lambda>(t, fs). \<not> t > clock s) (sleep_list s))),
       sleep_list := dropWhile (\<lambda>(t, fs). \<not> t > clock s) (sleep_list s)\<rparr>"

text \<open>\<open>FiberBase::Resume\<close>, up to the switch of contexts.\<close>

definition Resume :: "nat \<Rightarrow> sched \<Rightarrow> sched option" where
  "Resume f s =
     (case fib s f of
        None \<Rightarrow> None
      | Some x \<Rightarrow> Some (if status x = Completed then s else upd f (\<lambda>x. x\<lparr>status := Running\<rparr>) (s\<lparr>cur := Some f\<rparr>)))"

text \<open>One turn of \<open>RunLoop\<close>; \<open>GetNext\<close> picks the fiber \<open>f\<close>.\<close>

definition RunLoop_wake :: "sched \<Rightarrow> sched option" where
  "RunLoop_wake s =
     (if squeue s = [] \<and> sleep_list s = [] then None
      else do { s \<leftarrow> (if squeue s = [] then AdvanceTime s else Some s); Some (WakeUpNeeded s) })"

definition RunLoop_turn :: "32 word \<Rightarrow> nat \<Rightarrow> sched \<Rightarrow> sched option" where
  "RunLoop_turn sTickLength f s = do {
     s \<leftarrow> RunLoop_wake s;
     if f \<in> set (squeue s) then Resume f (TickTime sTickLength (s\<lparr>squeue := remove1 f (squeue s)\<rparr>)) else None }"

fun sleep_insert :: "time \<Rightarrow> nat \<Rightarrow> (time \<times> nat list) list \<Rightarrow> (time \<times> nat list) list" where
  "sleep_insert ns f [] = [(ns, [f])]"
| "sleep_insert ns f ((t, fs) # sl) =
     (if ns < t then (ns, [f]) # (t, fs) # sl
      else if ns = t then (t, fs @ [f]) # sl
      else (t, fs) # sleep_insert ns f sl)"

definition Sleep :: "time \<Rightarrow> nat \<Rightarrow> sched \<Rightarrow> sched option" where
  "Sleep ns f s =
     (if ns \<le> clock s then Some s
      else if f \<in> set (scheduled s) then None
      else Some (Suspend f (push_frame f (KSleep ns) (s\<lparr>sleep_list := sleep_insert ns f (sleep_list s)\<rparr>))))"

text \<open>\<open>this_thread::sleep_until\<close>: the count of the time point is converted.\<close>

definition sleep_until :: "int \<Rightarrow> nat \<Rightarrow> sched \<Rightarrow> sched option" where
  [simp]: "sleep_until ns f s = Sleep (word_of_int ns) f s"

text \<open>\<open>r\<close> is the random number that \<open>SleepPreemptive\<close> adds.\<close>

definition SleepPreemptive :: "time \<Rightarrow> time \<Rightarrow> nat \<Rightarrow> sched \<Rightarrow> sched option" where
  "SleepPreemptive ns r f s = (let ns = ns + r in Sleep ns f (push_frame f (KPre ns) s))"

definition SleepPreemptive_end :: "time \<Rightarrow> sched \<Rightarrow> sched option" where
  "SleepPreemptive_end ns s =
     (if clock s \<le> ns then
        (case map_of (sleep_list s) ns of
           None \<Rightarrow> None
         | Some fs \<Rightarrow> Some (if fs = [] then s\<lparr>sleep_list := filter (\<lambda>(t, fs). t \<noteq> ns) (sleep_list s)\<rparr> else s))
      else Some s)"

subsection \<open>Queues of waiting fibers\<close>

text \<open>
  \<open>waiting\<close> has the fibers of all these queues, each with its queue: the node of a fiber is in one queue at most.
\<close>

definition waitq :: "sched \<Rightarrow> qid \<Rightarrow> nat list" where
  "waitq s q = map snd (filter (\<lambda>(k, f). k = q) (waiting s))"

definition push_wait :: "qid \<Rightarrow> nat \<Rightarrow> sched \<Rightarrow> sched option" where
  "push_wait q f s =
     (if f \<in> snd ` set (waiting s) then None else Some (s\<lparr>waiting := waiting s @ [(q, f)]\<rparr>))"

definition Queue_Wait :: "qid \<Rightarrow> nat \<Rightarrow> sched \<Rightarrow> sched option" where
  "Queue_Wait q f s = map_option (\<lambda>s. Suspend f (push_frame f (KWait q) s)) (push_wait q f s)"

text \<open>\<open>ns\<close> is the count of the time point, which may be before the epoch.\<close>

definition Queue_Wait_until :: "qid \<Rightarrow> int \<Rightarrow> time \<Rightarrow> nat \<Rightarrow> sched \<Rightarrow> sched option" where
  "Queue_Wait_until q ns r f s = Option.bind (push_wait q f s) (\<lambda>s.
     SleepPreemptive (word_of_int ns) r f (push_frame f (KTimed q (ns + uint r)) s))"

definition Queue_Wait_until_end :: "qid \<Rightarrow> nat \<Rightarrow> sched \<Rightarrow> sched" where
  "Queue_Wait_until_end q f s =
     (let res = f \<in> set (waitq s q)
      in upd f (\<lambda>x. x\<lparr>ready := \<not> res\<rparr>) (s\<lparr>waiting := remove1 (q, f) (waiting s)\<rparr>))"

text \<open>\<open>Erase\<close> of the node for the scheduler, in whichever list it is.\<close>

definition unlink :: "nat \<Rightarrow> sched \<Rightarrow> sched" where
  "unlink f s = s\<lparr>squeue := remove1 f (squeue s), sleep_list := map (\<lambda>(t, fs). (t, remove1 f fs)) (sleep_list s)\<rparr>"

definition ScheduleAndRemove :: "nat \<Rightarrow> sched \<Rightarrow> sched option" where
  "ScheduleAndRemove f s =
     (case fib s f of
        None \<Rightarrow> None
      | Some x \<Rightarrow> if status x \<noteq> Waiting then Schedule f (unlink f s) else Some s)"

text \<open>The fiber \<open>f\<close> is the random choice.\<close>

definition NotifyOne :: "qid \<Rightarrow> nat \<Rightarrow> sched \<Rightarrow> sched option" where
  "NotifyOne q f s =
     (if waitq s q = [] then Some s
      else if f \<in> set (waitq s q) then ScheduleAndRemove f (s\<lparr>waiting := remove1 (q, f) (waiting s)\<rparr>)
      else None)"

primrec schedule_all :: "nat list \<Rightarrow> sched \<Rightarrow> sched option" where
  "schedule_all [] s = Some s"
| "schedule_all (f # fs) s = Option.bind (ScheduleAndRemove f s) (schedule_all fs)"

definition NotifyAll :: "qid \<Rightarrow> sched \<Rightarrow> sched option" where
  "NotifyAll q s = schedule_all (rev (waitq s q)) (s\<lparr>waiting := filter (\<lambda>(k, f). k \<noteq> q) (waiting s)\<rparr>)"

subsection \<open>Mutexes, condition variables and threads\<close>

text \<open>\<open>holder\<close> is who has the mutex; it is not in the code.\<close>

definition Mutex_lock :: "nat \<Rightarrow> nat \<Rightarrow> sched \<Rightarrow> sched option" where
  "Mutex_lock m f s =
     (if occupied s m then Queue_Wait (MQ m) f (push_frame f (KLock m) s)
      else Some (s\<lparr>occupied := (occupied s)(m := True), holder := (holder s)(m := Some f)\<rparr>))"

definition Mutex_try_lock :: "nat \<Rightarrow> nat \<Rightarrow> sched \<Rightarrow> bool \<times> sched" where
  "Mutex_try_lock m f s =
     (if occupied s m then (False, s) else (True, s\<lparr>occupied := (occupied s)(m := True), holder := (holder s)(m := Some f)\<rparr>))"

definition Mutex_unlock :: "nat \<Rightarrow> nat \<Rightarrow> sched \<Rightarrow> sched option" where
  "Mutex_unlock m g s = NotifyOne (MQ m) g (s\<lparr>occupied := (occupied s)(m := False), holder := (holder s)(m := None)\<rparr>)"

definition Cv_wait :: "nat \<Rightarrow> nat \<Rightarrow> nat \<Rightarrow> nat \<Rightarrow> sched \<Rightarrow> sched option" where
  "Cv_wait c m g f s = Option.bind (Mutex_unlock m g s) (\<lambda>s. Queue_Wait (CQ c) f (push_frame f (KRelock m) s))"

definition Cv_wait_until :: "nat \<Rightarrow> nat \<Rightarrow> nat \<Rightarrow> int \<Rightarrow> time \<Rightarrow> nat \<Rightarrow> sched \<Rightarrow> sched option" where
  "Cv_wait_until c m g ns r f s = Option.bind (Mutex_unlock m g s) (\<lambda>s. Queue_Wait_until (CQ c) ns r f (push_frame f (KRelock m) s))"

definition Thread_new :: "nat \<Rightarrow> sched \<Rightarrow> sched option" where
  "Thread_new t s =
     (if fib s t \<noteq> None \<or> t \<in> set (deleted s) then None
      else Schedule t (s\<lparr>fib := (fib s)(t := Some FiberBase_new), handles := t # handles s\<rparr>))"

definition delete_fiber :: "nat \<Rightarrow> sched \<Rightarrow> sched" where
  "delete_fiber t s = s\<lparr>fib := (fib s)(t := None), deleted := t # deleted s\<rparr>"

definition AfterJoinOrDetach :: "nat \<Rightarrow> sched \<Rightarrow> sched option" where
  "AfterJoinOrDetach t s =
     (case fib s t of
        None \<Rightarrow> None
      | Some x \<Rightarrow> Some (if status x = Completed then delete_fiber t s else upd t (\<lambda>x. x\<lparr>thread_alive := False\<rparr>) s))"

definition Thread_join :: "nat \<Rightarrow> nat \<Rightarrow> sched \<Rightarrow> sched option" where
  "Thread_join t f s =
     (case fib s t of
        None \<Rightarrow> None
      | Some x \<Rightarrow>
          if status x \<noteq> Completed then Some (Suspend f (push_frame f (KJoin t) (upd t (\<lambda>x. x\<lparr>joining := Some f\<rparr>) s)))
          else AfterJoinOrDetach t s)"

text \<open>\<open>FiberBase::Exit\<close> and what \<open>RunLoop\<close> does after the fiber has left for the last time.\<close>

definition FiberBase_Exit :: "nat \<Rightarrow> sched \<Rightarrow> sched option" where
  "FiberBase_Exit f s =
     (case fib s f of
        None \<Rightarrow> None
      | Some x \<Rightarrow> do {
          let s = upd f (\<lambda>x. x\<lparr>status := Completed\<rparr>) (s\<lparr>cur := None\<rparr>);
          s \<leftarrow> (case joining x of Some j \<Rightarrow> if thread_alive x then Schedule j s else Some s | None \<Rightarrow> Some s);
          Some (if \<not> thread_alive x then delete_fiber f s else s) })"

subsection \<open>Commands\<close>

definition pop_frame :: "nat \<Rightarrow> sched \<Rightarrow> sched" where
  "pop_frame f = upd f (\<lambda>x. x\<lparr>frames := tl (frames x)\<rparr>)"

definition exec_frame :: "nat \<Rightarrow> frame \<Rightarrow> bool \<Rightarrow> sched \<Rightarrow> sched option" where
  "exec_frame f k r s =
     (case k of
        KWait q \<Rightarrow> Some (upd f (\<lambda>x. x\<lparr>ready := True\<rparr>) s)
      | KSleep ns \<Rightarrow> Some s
      | KPre ns \<Rightarrow> SleepPreemptive_end ns s
      | KTimed q ns \<Rightarrow> Some (Queue_Wait_until_end q f s)
      | KLock m \<Rightarrow> Mutex_lock m f s
      | KRelock m \<Rightarrow> Mutex_lock m f (push_frame f (KRet r) s)
      | KRet r \<Rightarrow> Some (upd f (\<lambda>x. x\<lparr>ready := r\<rparr>) s)
      | KJoin t \<Rightarrow> Thread_join t f s)"

datatype cmd =
  Loop nat | Frame | Yield | SleepUntil int | Lock nat | TryLock nat | Unlock nat nat
| Wait nat nat nat | WaitUntil nat nat nat int time | CvOne nat nat | CvAll nat | Spawn nat | Join nat | Detach nat | Exit

text \<open>
  Calls need a running fiber with no frame. The rules of the interfaces are kept: who unlocks or waits has the mutex, a
  thread object is joined or detached once and not by itself.
\<close>

fun do_cmd :: "32 word \<Rightarrow> cmd \<Rightarrow> sched \<Rightarrow> sched option" where
  "do_cmd tick (Loop f) s = (if cur s = None then RunLoop_turn tick f s else None)"
| "do_cmd tick c s =
     (case cur s of
        None \<Rightarrow> None
      | Some f \<Rightarrow>
          (case fib s f of
             None \<Rightarrow> None
           | Some x \<Rightarrow>
               (case frames x of
                  k # ks \<Rightarrow> if c = Frame then exec_frame f k (ready x) (pop_frame f s) else None
                | [] \<Rightarrow>
                    (case c of
                       Yield \<Rightarrow> RescheduleCurrent s
                     | SleepUntil ns \<Rightarrow> sleep_until ns f s
                     | Lock m \<Rightarrow> Mutex_lock m f s
                     | TryLock m \<Rightarrow> Some (snd (Mutex_try_lock m f s))
                     | Unlock m g \<Rightarrow> if holder s m = Some f then Mutex_unlock m g s else None
                     | Wait cv m g \<Rightarrow> if holder s m = Some f then Cv_wait cv m g f s else None
                     | WaitUntil cv m g ns r \<Rightarrow> if holder s m = Some f then Cv_wait_until cv m g ns r f s else None
                     | CvOne cv g \<Rightarrow> NotifyOne (CQ cv) g s
                     | CvAll cv \<Rightarrow> NotifyAll (CQ cv) s
                     | Spawn t \<Rightarrow> Thread_new t s
                     | Join t \<Rightarrow> if t \<in> set (handles s) \<and> t \<noteq> f then Thread_join t f (s\<lparr>handles := remove1 t (handles s)\<rparr>) else None
                     | Detach t \<Rightarrow> if t \<in> set (handles s) \<and> t \<noteq> f then AfterJoinOrDetach t (s\<lparr>handles := remove1 t (handles s)\<rparr>) else None
                     | Exit \<Rightarrow> FiberBase_Exit f s
                     | _ \<Rightarrow> None))))"

fun do_cmds :: "32 word \<Rightarrow> cmd list \<Rightarrow> sched \<Rightarrow> sched option" where
  "do_cmds tick [] s = Some s"
| "do_cmds tick (c # cs) s = Option.bind (do_cmd tick c s) (do_cmds tick cs)"

text \<open>The first fiber is scheduled from outside, which starts \<open>RunLoop\<close>.\<close>

definition sched_new :: sched where
  "sched_new = \<lparr>squeue = [0], sleep_list = [], clock = 0, cur = None, fib = (\<lambda>f. None)(0 := Some (FiberBase_new\<lparr>status := Waiting\<rparr>)),
     waiting = [], occupied = (\<lambda>m. False), holder = (\<lambda>m. None), handles = [], deleted = [], wrapped = False\<rparr>"

subsection \<open>Where fibers are\<close>

lemma fib_upd [simp]: "fib (upd f g s) h = (if h = f then map_option g (fib s f) else fib s h)"
  by (simp add: upd_def)

lemma upd_fields [simp]:
  "squeue (upd f g s) = squeue s" "sleep_list (upd f g s) = sleep_list s" "clock (upd f g s) = clock s" "cur (upd f g s) = cur s"
  "waiting (upd f g s) = waiting s" "occupied (upd f g s) = occupied s" "holder (upd f g s) = holder s" "handles (upd f g s) = handles s"
  "deleted (upd f g s) = deleted s" "wrapped (upd f g s) = wrapped s" "scheduled (upd f g s) = scheduled s"
  by (simp_all add: upd_def scheduled_def)

definition join_link :: "sched \<Rightarrow> nat \<Rightarrow> nat \<Rightarrow> bool" where
  "join_link s t f \<longleftrightarrow> (\<exists>y. fib s t = Some y \<and> status y \<noteq> Completed \<and> joining y = Some f)"

definition joined :: "sched \<Rightarrow> nat \<Rightarrow> nat \<Rightarrow> bool" where
  "joined s t f \<longleftrightarrow> (\<exists>y. fib s t = Some y \<and> joining y = Some f)"

definition awaits :: "sched \<Rightarrow> nat \<Rightarrow> nat \<Rightarrow> bool" where
  "awaits s j f \<longleftrightarrow> j \<notin> set (scheduled s) \<and> (\<exists>y ks. fib s j = Some y \<and> status y = Suspended \<and> frames y = KJoin f # ks)"

text \<open>Why a suspended fiber that is not scheduled does not run: the reason is its first frame.\<close>

definition blocked :: "sched \<Rightarrow> nat \<Rightarrow> fiber \<Rightarrow> bool" where
  "blocked s f x \<longleftrightarrow> (\<exists>q ks. frames x = KWait q # ks \<and> (q, f) \<in> set (waiting s)) \<or> (\<exists>t ks. frames x = KJoin t # ks \<and> join_link s t f)"

definition timed_on :: "qid \<Rightarrow> fiber \<Rightarrow> bool" where
  "timed_on q x \<longleftrightarrow> (\<exists>n. KTimed q n \<in> set (frames x))"

definition waits_ok :: "sched \<Rightarrow> nat \<Rightarrow> fiber \<Rightarrow> bool" where
  "waits_ok s f x \<longleftrightarrow> (\<forall>q. (q, f) \<in> set (waiting s) \<longrightarrow> status x \<noteq> Completed \<and> status x \<noteq> Waiting \<and>
     (timed_on q x \<or> (\<exists>ks. frames x = KWait q # ks) \<and> f \<notin> set (scheduled s) \<and> status x = Suspended))"

text \<open>The calls that a fiber can be in.\<close>

fun frames_ok :: "frame list \<Rightarrow> bool" where
  "frames_ok [] \<longleftrightarrow> True"
| "frames_ok (KRet r # ks) \<longleftrightarrow> ks = []"
| "frames_ok (KLock m # ks) \<longleftrightarrow> ks = [] \<or> (\<exists>r. ks = [KRet r])"
| "frames_ok (KRelock m # ks) \<longleftrightarrow> ks = []"
| "frames_ok (KWait q # ks) \<longleftrightarrow> frames_ok ks \<and> (case q of MQ m \<Rightarrow> \<exists>ks'. ks = KLock m # ks' | CQ c \<Rightarrow> \<exists>m. ks = [KRelock m])"
| "frames_ok (KTimed q n # ks) \<longleftrightarrow> (\<exists>c m. q = CQ c \<and> ks = [KRelock m])"
| "frames_ok (KPre n # ks) \<longleftrightarrow> frames_ok ks \<and> (\<exists>q k ks'. ks = KTimed q k # ks' \<and> n = word_of_int k)"
| "frames_ok (KSleep n # ks) \<longleftrightarrow> ks = [] \<or> frames_ok ks \<and> (\<exists>ks'. ks = KPre n # ks')"
| "frames_ok (KJoin t # ks) \<longleftrightarrow> ks = []"

text \<open>The time \<open>n\<close> has come, or the fiber sleeps until then, as long as the clock has not wrapped.\<close>

definition asleep :: "(time \<times> nat list) list \<Rightarrow> time \<Rightarrow> nat \<Rightarrow> bool" where
  "asleep sl n h \<longleftrightarrow> (\<exists>fs. (n, fs) \<in> set sl \<and> h \<in> set fs)"

definition due :: "sched \<Rightarrow> time \<Rightarrow> nat \<Rightarrow> bool" where
  "due s n h \<longleftrightarrow> wrapped s \<or> n \<le> clock s \<or> asleep (sleep_list s) n h"

definition deadline :: "sched \<Rightarrow> nat \<Rightarrow> fiber \<Rightarrow> time \<Rightarrow> bool" where
  "deadline s f x n \<longleftrightarrow>
     frames x = [KSleep n] \<or> (\<exists>q k. (q, f) \<in> set (waiting s) \<and> KTimed q k \<in> set (frames x) \<and> n = word_of_int k)"

definition stack_ok :: "sched \<Rightarrow> nat \<Rightarrow> fiber \<Rightarrow> bool" where
  "stack_ok s f x \<longleftrightarrow> frames_ok (frames x) \<and> (status x = Completed \<longrightarrow> frames x = []) \<and>
     (\<forall>t. frames x = [KJoin t] \<longrightarrow> joined s t f) \<and> (\<forall>n. deadline s f x n \<longrightarrow> due s n f)"

definition joins_ok :: "sched \<Rightarrow> nat \<Rightarrow> fiber \<Rightarrow> bool" where
  "joins_ok s f x \<longleftrightarrow> (\<forall>j. joining x = Some j \<longrightarrow> f \<notin> set (handles s) \<and> thread_alive x \<and> (status x \<noteq> Completed \<longrightarrow> awaits s j f)) \<and>
     (f \<in> set (handles s) \<longrightarrow> thread_alive x)"

fun fiber_ok :: "sched \<Rightarrow> nat \<Rightarrow> fiber option \<Rightarrow> bool" where
  "fiber_ok s f None \<longleftrightarrow> f \<notin> set (scheduled s) \<and> f \<notin> snd ` set (waiting s) \<and> cur s \<noteq> Some f \<and> f \<notin> set (handles s)"
| "fiber_ok s f (Some x) \<longleftrightarrow>
     (status x = Running \<longleftrightarrow> cur s = Some f) \<and>
     (status x = Waiting \<longrightarrow> f \<in> set (scheduled s)) \<and>
     (f \<in> set (scheduled s) \<longrightarrow> status x = Suspended \<or> status x = Waiting) \<and>
     (status x = Suspended \<and> f \<notin> set (scheduled s) \<longrightarrow> blocked s f x) \<and>
     waits_ok s f x \<and> joins_ok s f x \<and> stack_ok s f x"

definition lists_distinct :: "sched \<Rightarrow> bool" where
  "lists_distinct s \<longleftrightarrow> distinct (scheduled s) \<and> distinct (map snd (waiting s)) \<and> distinct (handles s) \<and>
     sorted_wrt (<) (map fst (sleep_list s))"

definition sched_ok :: "sched \<Rightarrow> bool" where
  "sched_ok s \<longleftrightarrow> lists_distinct s \<and> (\<forall>f. fiber_ok s f (fib s f))"

text \<open>A change of the fibers \<open>F\<close> only, which keeps what the others rely on.\<close>

definition same_at :: "nat \<Rightarrow> sched \<Rightarrow> sched \<Rightarrow> bool" where
  "same_at h s t \<longleftrightarrow> fib t h = fib s h \<and> (h \<in> set (scheduled t) \<longleftrightarrow> h \<in> set (scheduled s)) \<and>
     (\<forall>q. (q, h) \<in> set (waiting t) \<longleftrightarrow> (q, h) \<in> set (waiting s)) \<and> (cur t = Some h \<longleftrightarrow> cur s = Some h) \<and>
     (h \<in> set (handles t) \<longleftrightarrow> h \<in> set (handles s)) \<and> (\<forall>n. due s n h \<longrightarrow> due t n h)"

lemma fiber_ok_same:
  assumes "fiber_ok s h (fib s h)" "same_at h s t"
    and "\<And>k. join_link s k h \<Longrightarrow> join_link t k h" "\<And>j. awaits s j h \<Longrightarrow> awaits t j h" "\<And>k. joined s k h \<Longrightarrow> joined t k h"
  shows "fiber_ok t h (fib t h)"
proof (cases "fib s h")
  case None
  then show ?thesis using assms(1,2) by (auto simp: same_at_def image_iff)
next
  case (Some x)
  have "blocked s h x \<Longrightarrow> blocked t h x" using assms(2,3) unfolding blocked_def same_at_def by blast
  moreover have "waits_ok s h x \<Longrightarrow> waits_ok t h x" using assms(2) unfolding waits_ok_def same_at_def by simp
  moreover have "joins_ok s h x \<Longrightarrow> joins_ok t h x" using assms(2,4) unfolding joins_ok_def same_at_def by simp
  moreover have "stack_ok s h x \<Longrightarrow> stack_ok t h x"
    using assms(2,5) unfolding stack_ok_def same_at_def deadline_def by auto
  ultimately show ?thesis using assms(1,2) Some by (simp add: same_at_def)
qed

lemma ok_frame:
  assumes s: "sched_ok s" and F: "\<And>h. h \<notin> F \<Longrightarrow> same_at h s t" and d: "lists_distinct t"
    and join: "\<And>h k. h \<notin> F \<Longrightarrow> k \<in> F \<Longrightarrow> join_link s k h \<Longrightarrow> join_link t k h"
    and aw: "\<And>h j. h \<notin> F \<Longrightarrow> j \<in> F \<Longrightarrow> awaits s j h \<Longrightarrow> awaits t j h"
    and jd: "\<And>h k. h \<notin> F \<Longrightarrow> k \<in> F \<Longrightarrow> joined s k h \<Longrightarrow> joined t k h"
    and f: "\<And>f. f \<in> F \<Longrightarrow> fiber_ok t f (fib t f)"
  shows "sched_ok t"
proof -
  have "fiber_ok t h (fib t h)" for h
  proof (cases "h \<in> F")
    case False
    have "join_link t k h" if l: "join_link s k h" for k
    proof (cases "k \<in> F")
      case False
      then have "fib t k = fib s k" using F by (simp add: same_at_def)
      then show ?thesis using l by (simp add: join_link_def)
    qed (rule join [OF False _ l])
    moreover have "awaits t j h" if l: "awaits s j h" for j
    proof (cases "j \<in> F")
      case False
      then have "fib t j = fib s j" "j \<in> set (scheduled t) \<longleftrightarrow> j \<in> set (scheduled s)" using F by (simp_all add: same_at_def)
      then show ?thesis using l by (simp add: awaits_def)
    qed (rule aw [OF False _ l])
    moreover have "joined t k h" if l: "joined s k h" for k
    proof (cases "k \<in> F")
      case False
      then have "fib t k = fib s k" using F by (simp add: same_at_def)
      then show ?thesis using l by (simp add: joined_def)
    qed (rule jd [OF False _ l])
    moreover have "fiber_ok s h (fib s h)" using s by (simp add: sched_ok_def)
    ultimately show ?thesis by (rule fiber_ok_same [OF _ F [OF False], rotated 1])
  qed (use f in simp)
  then show ?thesis using d by (simp add: sched_ok_def)
qed

lemma sched_okD:
  assumes "sched_ok s"
  shows "fiber_ok s f (fib s f)" "lists_distinct s"
  using assms by (simp_all add: sched_ok_def)

text \<open>The change of one fiber that neither completes nor joins.\<close>

lemma ok_one:
  assumes s: "sched_ok s" and x: "fib s f = Some x" and y: "fib t = (fib s)(f := Some y)"
    and o: "\<And>h. h \<noteq> f \<Longrightarrow> same_at h s t" and d: "lists_distinct t"
    and j: "joining y = joining x" "status y = Completed \<Longrightarrow> status x = Completed" and n: "\<And>h. \<not> awaits s f h"
    and ok: "fiber_ok t f (Some y)"
  shows "sched_ok t"
proof (rule ok_frame [OF s, where F = "{f}"])
  show "join_link t k h" if "h \<notin> {f}" "k \<in> {f}" "join_link s k h" for h k
    using that x y j by (auto simp: join_link_def)
  show "joined t k h" if "h \<notin> {f}" "k \<in> {f}" "joined s k h" for h k
    using that x y j by (auto simp: joined_def)
qed (use o d n y ok in auto)

lemma running_awaits: "sched_ok s \<Longrightarrow> cur s = Some f \<Longrightarrow> \<not> awaits s f h"
  using sched_okD(1) [of s f] by (auto simp: awaits_def)

lemma running_ok:
  assumes "sched_ok s" "cur s = Some f"
  shows "\<exists>x. fib s f = Some x \<and> status x = Running \<and> f \<notin> set (scheduled s) \<and> waits_ok s f x \<and> joins_ok s f x \<and> stack_ok s f x"
  using sched_okD(1) [OF assms(1), of f] assms(2) by (cases "fib s f") auto

text \<open>A running fiber goes on.\<close>

lemma ok_goes_on:
  assumes s: "sched_ok s" "cur s = Some f" "fib s f = Some x" and y: "fib t = (fib s)(f := Some y)"
    and o: "scheduled t = scheduled s" "cur t = cur s" "handles t = handles s"
    and w: "\<And>q h. h \<noteq> f \<Longrightarrow> (q, h) \<in> set (waiting t) \<longleftrightarrow> (q, h) \<in> set (waiting s)"
      "distinct (map snd (waiting t))"
    and sl: "sorted_wrt (<) (map fst (sleep_list t))" "\<And>n h. due s n h \<Longrightarrow> due t n h"
    and j: "joining y = joining x" "thread_alive y = thread_alive x" "status y = Running" "stack_ok t f y"
    and ok: "\<And>q. (q, f) \<in> set (waiting t) \<Longrightarrow> timed_on q y"
  shows "sched_ok t"
proof (rule ok_one [OF s(1,3) y])
  have x: "status x = Running" "f \<notin> set (scheduled s)" "joins_ok s f x" using running_ok [OF s(1,2)] s(3) by auto
  have "awaits t g f" if "awaits s g f" for g
    using that o(1) y s(2) running_awaits [OF s(1,2)] by (auto simp: awaits_def)
  then have "joins_ok t f y" using x j o by (auto simp: joins_ok_def)
  moreover have "waits_ok t f y" using ok j by (simp add: waits_ok_def)
  ultimately show "fiber_ok t f (Some y)" using x j o s(2) by simp
  show "lists_distinct t" using sched_okD(2) [OF s(1)] o w sl by (simp add: lists_distinct_def)
  show "same_at h s t" if "h \<noteq> f" for h using that y o w sl by (auto simp: same_at_def)
qed (use j running_awaits [OF s(1,2)] in auto)

text \<open>A running fiber suspends.\<close>

lemma ok_suspends:
  assumes s: "sched_ok s" "cur s = Some f" "fib s f = Some x" and y: "fib t = (fib s)(f := Some y)"
    and o: "set (scheduled t) - {f} = set (scheduled s)" "cur t = None" "handles t = handles s" "\<And>n h. due s n h \<Longrightarrow> due t n h"
    and w: "\<And>q h. h \<noteq> f \<Longrightarrow> (q, h) \<in> set (waiting t) \<longleftrightarrow> (q, h) \<in> set (waiting s)"
    and d: "lists_distinct t"
    and j: "joining y = joining x" "thread_alive y = thread_alive x" "status y = Suspended"
    and ok: "f \<notin> set (scheduled t) \<Longrightarrow> blocked t f y" "waits_ok t f y" "stack_ok t f y"
  shows "sched_ok t"
proof (rule ok_one [OF s(1,3) y])
  have x: "status x = Running" "f \<notin> set (scheduled s)" "joins_ok s f x" using running_ok [OF s(1,2)] s(3) by auto
  have "awaits t g f" if a: "awaits s g f" for g
  proof -
    have "g \<noteq> f" using a running_awaits [OF s(1,2), of f] by auto
    then show ?thesis using a o(1) y by (auto simp: awaits_def)
  qed
  then have "joins_ok t f y" using x j o by (auto simp: joins_ok_def)
  then show "fiber_ok t f (Some y)" using x j o s(2) ok by simp
  have m: "h \<in> set (scheduled t) \<longleftrightarrow> h \<in> set (scheduled s)" if "h \<noteq> f" for h using that o(1) by blast
  show "same_at h s t" if "h \<noteq> f" for h using that y o(2,3,4) s(2) w m by (auto simp: same_at_def)
qed (use j d running_awaits [OF s(1,2)] in auto)

lemma sleep_insert_set: "mset (concat (map snd (sleep_insert ns f sl))) = add_mset f (mset (concat (map snd sl)))"
  by (induction ns f sl rule: sleep_insert.induct) auto

lemma sleep_insert_keys: "set (map fst (sleep_insert ns f sl)) = insert ns (set (map fst sl))"
  by (induction ns f sl rule: sleep_insert.induct) auto

lemma sleep_insert_sorted: "sorted_wrt (<) (map fst sl) \<Longrightarrow> sorted_wrt (<) (map fst (sleep_insert ns f sl))"
proof (induction ns f sl rule: sleep_insert.induct)
  case (2 ns f t fs sl)
  then show ?case using sleep_insert_keys [of ns f sl] by auto
qed simp

lemma asleep_simps [simp]: "\<not> asleep [] n h" "asleep ((k, fs) # sl) n h \<longleftrightarrow> n = k \<and> h \<in> set fs \<or> asleep sl n h"
  by (auto simp: asleep_def)

lemma sleep_insert_asleep: "asleep (sleep_insert ns f sl) n h \<longleftrightarrow> n = ns \<and> h = f \<or> asleep sl n h"
  by (induction ns f sl rule: sleep_insert.induct) auto

lemma due_cong: "sleep_list t = sleep_list s \<Longrightarrow> clock t = clock s \<Longrightarrow> wrapped t = wrapped s \<Longrightarrow> due t = due s"
  by (simp add: due_def fun_eq_iff)

lemma frames_ok_timed:
  "frames_ok (KSleep n # ks) \<Longrightarrow> KTimed q k \<in> set ks \<Longrightarrow> word_of_int k = n"
  "frames_ok (KPre n # ks) \<Longrightarrow> KTimed q k \<in> set ks \<Longrightarrow> word_of_int k = n"
  "frames_ok (KWait q' # ks) \<Longrightarrow> KTimed q k \<notin> set ks"
  "frames_ok (KTimed q' j # ks) \<Longrightarrow> KTimed q k \<notin> set ks"
  by (auto split: qid.splits)

lemma frames_ok_tl: "frames_ok (k # ks) \<Longrightarrow> frames_ok ks \<and> (\<forall>t. ks \<noteq> [KJoin t]) \<and> (\<forall>n. ks \<noteq> [KSleep n])"
  by (cases k) (auto split: qid.splits)

lemma running_timed:
  assumes "sched_ok s" "cur s = Some f" "fib s f = Some x" "(q, f) \<in> set (waiting s)"
  shows "timed_on q x"
  using running_ok [OF assms(1,2)] assms(3,4) by (auto simp: waits_ok_def)

lemma running_not_waiting:
  assumes "sched_ok s" "cur s = Some f" "fib s f = Some x" "\<And>q. \<not> timed_on q x"
  shows "f \<notin> snd ` set (waiting s)"
  using running_timed [OF assms(1-3)] assms(4) by auto

lemma timed_on_simps [simp]:
  "\<not> timed_on q (x\<lparr>frames := []\<rparr>)" "frames x = [] \<Longrightarrow> \<not> timed_on q x"
  by (simp_all add: timed_on_def)

lemma ok_Yield:
  assumes "sched_ok s" "cur s = Some f" "fib s f = Some x" "frames x = []" "RescheduleCurrent s = Some t"
  shows "sched_ok t"
proof -
  have t: "t = Suspend f (s\<lparr>squeue := squeue s @ [f]\<rparr>)" "f \<notin> set (scheduled s)"
    using assms by (auto simp: RescheduleCurrent_def split: if_splits)
  have w: "f \<notin> snd ` set (waiting s)" using running_not_waiting [OF assms(1-3)] assms(4) by simp
  show ?thesis
    by (rule ok_suspends [OF assms(1-3), of _ "x\<lparr>status := Suspended\<rparr>"])
      (use t w assms(3,4) sched_okD(2) [OF assms(1)] in
        \<open>auto simp: Suspend_def upd_def scheduled_def lists_distinct_def waits_ok_def stack_ok_def deadline_def due_def image_iff\<close>)
qed

text \<open>A running fiber goes to sleep, maybe in a queue.\<close>

lemma ok_sleeps:
  assumes s: "sched_ok s" "cur s = Some f" "fib s f = Some x" and n: "f \<notin> set (scheduled s)"
    and fib: "fib t = (fib s)(f := Some (x\<lparr>status := Suspended, frames := ks\<rparr>))" and ks: "frames_ok ks" "ks = KSleep ns # ks'"
    and t: "squeue t = squeue s" "sleep_list t = sleep_insert ns f (sleep_list s)" "clock t = clock s" "cur t = None" "handles t = handles s"
      "wrapped t = wrapped s"
    and w: "\<And>q h. h \<noteq> f \<Longrightarrow> (q, h) \<in> set (waiting t) \<longleftrightarrow> (q, h) \<in> set (waiting s)" "distinct (map snd (waiting t))"
      "\<And>q. (q, f) \<in> set (waiting t) \<Longrightarrow> \<exists>n. KTimed q n \<in> set ks"
  shows "sched_ok t"
proof -
  have m: "mset (scheduled t) = add_mset f (mset (scheduled s))"
    by (simp add: t scheduled_def sleep_insert_set)
  then have st: "set (scheduled t) = insert f (set (scheduled s))" by (metis set_mset_add_mset_insert set_mset_mset)
  have "distinct (scheduled t)"
    using m n sched_okD(2) [OF s(1)] mset_eq_imp_distinct_iff [of "scheduled t" "f # scheduled s"]
    by (simp add: lists_distinct_def)
  then have d: "lists_distinct t"
    using sched_okD(2) [OF s(1)] sleep_insert_sorted [of "sleep_list s" ns f] w(2)
    by (simp add: lists_distinct_def t)
  show ?thesis
  proof (rule ok_suspends [OF s fib])
    show "due t n h" if "due s n h" for n h using that by (simp add: due_def t sleep_insert_asleep) blast
    have "due t n f" if "ks = [KSleep n] \<or> (\<exists>q k. KTimed q k \<in> set ks \<and> n = word_of_int k)" for n
      using that ks frames_ok_timed(1) [of ns ks'] by (auto simp: due_def t sleep_insert_asleep)
    then show "stack_ok t f (x\<lparr>status := Suspended, frames := ks\<rparr>)"
      using ks by (auto simp: stack_ok_def deadline_def)
    show "waits_ok t f (x\<lparr>status := Suspended, frames := ks\<rparr>)" using w(3) by (auto simp: waits_ok_def timed_on_def)
  qed (use st d t w n in auto)
qed

lemma ok_Sleep:
  assumes "sched_ok s" "cur s = Some f" "fib s f = Some x" "frames x = []" "Sleep ns f s = Some t"
  shows "sched_ok t"
proof (cases "ns \<le> clock s")
  case True
  then show ?thesis using assms by (simp add: Sleep_def)
next
  case False
  then have t: "t = Suspend f (push_frame f (KSleep ns) (s\<lparr>sleep_list := sleep_insert ns f (sleep_list s)\<rparr>))" "f \<notin> set (scheduled s)"
    using assms(5) by (auto simp: Sleep_def split: if_splits)
  have w: "f \<notin> snd ` set (waiting s)" using running_not_waiting [OF assms(1-3)] assms(4) by simp
  have d: "distinct (map snd (waiting s))" using sched_okD(2) [OF assms(1)] by (simp add: lists_distinct_def)
  show ?thesis
    by (rule ok_sleeps [OF assms(1-3) t(2), where ks = "[KSleep ns]" and ns = ns])
      (use t w d assms(3,4) in \<open>auto simp: Suspend_def push_frame_def upd_def image_iff\<close>)
qed

lemma ok_Queue_Wait:
  assumes "sched_ok s" "cur s = Some f" "fib s f = Some x" "frames_ok (KWait q # frames x)" "Queue_Wait q f s = Some t"
  shows "sched_ok t"
proof -
  have w: "f \<notin> snd ` set (waiting s)"
    and t: "t = Suspend f (push_frame f (KWait q) (s\<lparr>waiting := waiting s @ [(q, f)]\<rparr>))"
    using assms(5) by (auto simp: Queue_Wait_def push_wait_def split: if_splits)
  have n: "f \<notin> set (scheduled s)" using running_ok [OF assms(1,2)] by blast
  let ?y = "x\<lparr>status := Suspended, frames := KWait q # frames x\<rparr>"
  have so: "stack_ok t f ?y"
    using frames_ok_timed(3) [OF assms(4)] assms(4) by (simp add: stack_ok_def deadline_def del: frames_ok.simps)
  show ?thesis
    by (rule ok_suspends [OF assms(1-3), of _ ?y])
      (use t w n so assms(3) sched_okD(2) [OF assms(1)] in
        \<open>auto simp: Suspend_def push_frame_def upd_def scheduled_def lists_distinct_def waits_ok_def blocked_def due_def image_iff\<close>)
qed

text \<open>The frames of a running fiber change.\<close>

lemma ok_frames:
  assumes "sched_ok s" "cur s = Some f" "fib s f = Some x"
    and "fib t = (fib s)(f := Some (x\<lparr>frames := ks, ready := r\<rparr>))"
    and "squeue t = squeue s" "sleep_list t = sleep_list s" "clock t = clock s" "cur t = cur s" "handles t = handles s" "waiting t = waiting s"
      "wrapped t = wrapped s"
    and "\<And>q n. KTimed q n \<in> set (frames x) \<longleftrightarrow> KTimed q n \<in> set ks" "frames_ok ks" "\<And>t. ks \<noteq> [KJoin t]" "\<And>n. ks \<noteq> [KSleep n]"
  shows "sched_ok t"
proof (rule ok_goes_on [OF assms(1-4)])
  have x: "status x = Running" "stack_ok s f x" using running_ok [OF assms(1,2)] assms(3) by auto
  show "timed_on q (x\<lparr>frames := ks, ready := r\<rparr>)" if "(q, f) \<in> set (waiting t)" for q
    using running_timed [OF assms(1-3), of q] that assms(10,12) by (simp add: timed_on_def)
  show "stack_ok t f (x\<lparr>frames := ks, ready := r\<rparr>)"
    using x assms(6,7,10-15) by (auto simp: stack_ok_def deadline_def due_def)
qed (use assms running_ok [OF assms(1,2)] sched_okD(2) [OF assms(1)] in \<open>auto simp: scheduled_def lists_distinct_def due_def\<close>)

lemma ok_lock_flags:
  "sched_ok (s\<lparr>occupied := a, holder := b\<rparr>) = sched_ok s"
  "lists_distinct (s\<lparr>occupied := a, holder := b\<rparr>) = lists_distinct s"
proof -
  have "fiber_ok (s\<lparr>occupied := a, holder := b\<rparr>) f y = fiber_ok s f y" for f y
    by (cases y) (simp_all add: scheduled_def blocked_def join_link_def waits_ok_def joins_ok_def awaits_def joined_def stack_ok_def
      deadline_def due_def)
  moreover show "lists_distinct (s\<lparr>occupied := a, holder := b\<rparr>) = lists_distinct s"
    by (simp add: lists_distinct_def scheduled_def)
  ultimately show "sched_ok (s\<lparr>occupied := a, holder := b\<rparr>) = sched_ok s" by (simp add: sched_ok_def)
qed

lemma ok_Mutex_lock:
  assumes "sched_ok s" "cur s = Some f" "fib s f = Some x" "frames_ok (KLock m # frames x)" "Mutex_lock m f s = Some t"
  shows "sched_ok t"
proof (cases "occupied s m")
  case False
  then show ?thesis using assms(1,5) by (auto simp: Mutex_lock_def ok_lock_flags)
next
  case True
  let ?s = "push_frame f (KLock m) s"
  have "sched_ok ?s"
    by (rule ok_frames [OF assms(1-3), where ks = "KLock m # frames x" and r = "ready x"])
      (use assms(3,4) in \<open>auto simp: push_frame_def upd_def\<close>)
  then show ?thesis
    by (rule ok_Queue_Wait) (use True assms in \<open>auto simp: Mutex_lock_def push_frame_def\<close>)
qed

text \<open>A waiting fiber is woken.\<close>

lemma unlink_scheduled:
  assumes "distinct (scheduled s)"
  shows "scheduled (unlink g s) = remove1 g (scheduled s)" "g \<notin> set (scheduled (unlink g s))"
proof -
  have e: "concat (map snd (map (\<lambda>(t, fs). (t, remove1 g fs)) sl)) = remove1 g (concat (map snd sl))"
    if "distinct (concat (map snd sl))" for sl :: "(time \<times> nat list) list"
    using that by (induction sl) (auto simp: remove1_append remove1_idem disjoint_iff)
  have "scheduled (unlink g s) = remove1 g (squeue s) @ remove1 g (concat (map snd (sleep_list s)))"
    using assms e [of "sleep_list s"] by (simp add: scheduled_def unlink_def)
  then show "scheduled (unlink g s) = remove1 g (scheduled s)"
    using assms by (auto simp: scheduled_def remove1_append remove1_idem disjoint_iff)
  then show "g \<notin> set (scheduled (unlink g s))" using assms by simp
qed

lemma unlink_fields [simp]:
  "fib (unlink g s) = fib s" "cur (unlink g s) = cur s" "waiting (unlink g s) = waiting s" "handles (unlink g s) = handles s"
  "clock (unlink g s) = clock s" "occupied (unlink g s) = occupied s" "map fst (sleep_list (unlink g s)) = map fst (sleep_list s)"
  by (simp_all add: unlink_def case_prod_beta comp_def)

lemma wait_once:
  assumes "distinct (map snd w)" "(q, g) \<in> set w"
  shows "(k, g) \<notin> set (remove1 (q, g) w)"
proof
  assume a: "(k, g) \<in> set (remove1 (q, g) w)"
  have d: "distinct w" "inj_on snd (set w)" using assms(1) by (simp_all add: distinct_map)
  then have k: "(k, g) \<in> set w" "(k, g) \<noteq> (q, g)" using a by simp_all
  have "(k, g) = (q, g)" by (rule inj_onD [OF d(2) _ k(1) assms(2)]) simp
  then show False using k(2) by blast
qed

lemma distinct_map_remove1: "distinct (map f xs) \<Longrightarrow> distinct (map f (remove1 x xs))"
  by (induction xs) (auto dest: subsetD [OF set_remove1_subset])

lemma ok_wake:
  assumes s: "sched_ok s" and g: "(q, g) \<in> set (waiting s)" "cur s \<noteq> Some g"
    and t: "ScheduleAndRemove g (s\<lparr>waiting := remove1 (q, g) (waiting s)\<rparr>) = Some t"
  shows "sched_ok t \<and> cur t = cur s \<and> waiting t = remove1 (q, g) (waiting s) \<and> fib t = (fib s)(g := map_option (\<lambda>x. x\<lparr>status := Waiting\<rparr>) (fib s g))"
proof -
  let ?s = "s\<lparr>waiting := remove1 (q, g) (waiting s)\<rparr>"
  obtain x where x: "fib s g = Some x" "waits_ok s g x" "status x \<noteq> Running" "joins_ok s g x"
    "stack_ok s g x"
    using sched_okD(1) [OF s, of g] g by (cases "fib s g") (auto simp: image_iff)
  then have sx: "status x = Suspended" "\<And>k ks. frames x \<noteq> KJoin k # ks" "\<And>n. frames x \<noteq> [KSleep n]"
    using g(1) by (auto simp: waits_ok_def timed_on_def stack_ok_def intro: fstate.exhaust [of "status x"])
  have ld: "lists_distinct s" using sched_okD(2) [OF s] .
  then have u: "scheduled (unlink g ?s) = remove1 g (scheduled s)" "g \<notin> set (scheduled (unlink g ?s))"
    using unlink_scheduled [of ?s g] by (simp_all add: lists_distinct_def scheduled_def)
  have te: "t = (upd g (\<lambda>x. x\<lparr>status := Waiting\<rparr>) (unlink g ?s))\<lparr>squeue := squeue (unlink g ?s) @ [g]\<rparr>"
    using t x(1) sx(1) u(2) by (auto simp: ScheduleAndRemove_def Schedule_def split: if_splits)
  then have sc: "mset (scheduled t) = add_mset g (mset (remove1 g (scheduled s)))"
  proof -
    have "mset (scheduled t) = add_mset g (mset (scheduled (unlink g ?s)))" by (simp add: te scheduled_def)
    then show ?thesis using u(1) by simp
  qed
  then have st: "set (scheduled t) = insert g (set (remove1 g (scheduled s)))" by (metis set_mset_add_mset_insert set_mset_mset)
  have dm: "distinct (scheduled s)" "distinct (map snd (waiting s))" using ld by (simp_all add: lists_distinct_def)
  have "distinct (scheduled t)"
    using sc dm(1) mset_eq_imp_distinct_iff [of "scheduled t" "g # remove1 g (scheduled s)"] by simp
  moreover have "distinct (map snd (remove1 (q, g) (waiting s)))" using dm(2) by (rule distinct_map_remove1)
  ultimately have d: "lists_distinct t" using ld unlink_fields(7) [of g ?s] by (simp add: lists_distinct_def te)
  have wn: "(k, g) \<notin> set (remove1 (q, g) (waiting s))" for k
    using dm(2) g(1) by (rule wait_once)
  have m: "h \<in> set (scheduled t) \<longleftrightarrow> h \<in> set (scheduled s)" if "h \<noteq> g" for h using that st dm(1) by auto
  have du: "due t n h" if "due s n h" "h \<noteq> g" for n h
  proof -
    have "asleep (map (\<lambda>(t, fs). (t, remove1 g fs)) sl) n h" if "asleep sl n h" for sl
      using that \<open>h \<noteq> g\<close> by (induction sl) auto
    then show ?thesis using that(1) by (auto simp: due_def te unlink_def)
  qed
  have "sched_ok t"
  proof (rule ok_one [OF s x(1), of t "x\<lparr>status := Waiting\<rparr>"])
    show "fib t = (fib s)(g := Some (x\<lparr>status := Waiting\<rparr>))" using x(1) by (simp add: te upd_def)
    show "same_at h s t" if "h \<noteq> g" for h
      using that m [OF that] du [OF _ that] by (auto simp: same_at_def te)
    show "\<not> awaits s g h" for h using sx x(1) by (auto simp: awaits_def)
    have "awaits t j g" if a: "awaits s j g" for j
    proof -
      have "j \<noteq> g" using a sx x(1) by (auto simp: awaits_def)
      then show ?thesis using a m [of j] by (auto simp: awaits_def te)
    qed
    then show "fiber_ok t g (Some (x\<lparr>status := Waiting\<rparr>))"
      using x(4,5) sx g(2) st wn by (auto simp: waits_ok_def joins_ok_def stack_ok_def deadline_def te)
  qed (use d in auto)
  then show ?thesis using x(1) by (simp add: te upd_def)
qed

lemma waitq_mem: "g \<in> set (waitq s q) \<longleftrightarrow> (q, g) \<in> set (waiting s)"
  by (force simp: waitq_def)

text \<open>A running fiber that calls is in no queue.\<close>

definition calls :: "nat \<Rightarrow> fiber \<Rightarrow> sched \<Rightarrow> bool" where
  "calls f x s \<longleftrightarrow> sched_ok s \<and> cur s = Some f \<and> fib s f = Some x \<and> f \<notin> snd ` set (waiting s)"

lemma callsD: "calls f x s \<Longrightarrow> sched_ok s" "calls f x s \<Longrightarrow> cur s = Some f" "calls f x s \<Longrightarrow> fib s f = Some x"
    "calls f x s \<Longrightarrow> f \<notin> snd ` set (waiting s)"
  by (simp_all add: calls_def)

lemma calls_wake:
  assumes "calls f x s" "(q, g) \<in> set (waiting s)" "ScheduleAndRemove g (s\<lparr>waiting := remove1 (q, g) (waiting s)\<rparr>) = Some t"
  shows "calls f x t \<and> waiting t = remove1 (q, g) (waiting s)"
proof -
  have "g \<noteq> f" using assms(1,2) by (force simp: calls_def)
  moreover have "cur s \<noteq> Some g" using assms(1) calculation by (simp add: calls_def)
  note ok_wake [OF callsD(1) [OF assms(1)] assms(2) this assms(3)]
  ultimately show ?thesis using assms(1) set_remove1_subset [of "(q, g)" "waiting s"] by (auto simp: calls_def)
qed

lemma calls_NotifyOne:
  assumes "calls f x s" "NotifyOne q g s = Some t"
  shows "calls f x t"
proof (cases "waitq s q = []")
  case True
  then show ?thesis using assms by (simp add: NotifyOne_def)
next
  case False
  then have g: "(q, g) \<in> set (waiting s)" "ScheduleAndRemove g (s\<lparr>waiting := remove1 (q, g) (waiting s)\<rparr>) = Some t"
    using assms(2) by (simp_all add: NotifyOne_def waitq_mem split: if_splits)
  show ?thesis using calls_wake [OF assms(1) g] by blast
qed

lemma ScheduleAndRemove_waiting:
  fixes w :: "(qid \<times> nat) list"
  shows "ScheduleAndRemove g (s\<lparr>waiting := w\<rparr>) = map_option (\<lambda>t. t\<lparr>waiting := w\<rparr>) (ScheduleAndRemove g s)"
  by (auto simp: ScheduleAndRemove_def Schedule_def unlink_def upd_def scheduled_def split: option.splits)

lemma filter_remove1_other: "fst x = q \<Longrightarrow> filter (\<lambda>(k, f). k \<noteq> q) (remove1 x w) = filter (\<lambda>(k, f). k \<noteq> q) w"
  by (induction w) auto

lemma calls_schedule_all:
  assumes "calls f x s" "distinct gs" "set gs = {g. (q, g) \<in> set (waiting s)}"
    and "schedule_all gs (s\<lparr>waiting := filter (\<lambda>(k, f). k \<noteq> q) (waiting s)\<rparr>) = Some t"
  shows "calls f x t"
  using assms
proof (induction gs arbitrary: s)
  case Nil
  then have "filter (\<lambda>(k, f). k \<noteq> q) (waiting s) = waiting s" by (intro filter_True) auto
  then show ?case using Nil by simp
next
  case (Cons g gs)
  let ?w = "filter (\<lambda>(k, f). k \<noteq> q) (waiting s)" and ?r = "remove1 (q, g) (waiting s)"
  have g: "(q, g) \<in> set (waiting s)" using Cons.prems(3) by auto
  have d: "distinct (map snd (waiting s))"
    using sched_okD(2) [OF callsD(1) [OF Cons.prems(1)]] by (simp add: lists_distinct_def)
  obtain u where u: "ScheduleAndRemove g (s\<lparr>waiting := ?w\<rparr>) = Some u" "schedule_all gs u = Some t"
    using Cons.prems(4) by (auto simp: bind_eq_Some_conv)
  obtain v where v: "ScheduleAndRemove g s = Some v" "u = v\<lparr>waiting := ?w\<rparr>"
    using u(1) ScheduleAndRemove_waiting [of g ?w s] by auto
  have "ScheduleAndRemove g (s\<lparr>waiting := ?r\<rparr>) = Some (v\<lparr>waiting := ?r\<rparr>)"
    using v(1) ScheduleAndRemove_waiting [of g ?r s] by simp
  then have c: "calls f x (v\<lparr>waiting := ?r\<rparr>)" using calls_wake [OF Cons.prems(1) g] by blast
  have "set gs = {h. (q, h) \<in> set ?r}"
  proof -
    have "(q, h) \<in> set ?r \<longleftrightarrow> (q, h) \<in> set (waiting s) \<and> h \<noteq> g" for h
      using d by (auto simp: distinct_map)
    then show ?thesis using Cons.prems(2,3) by auto
  qed
  moreover have "schedule_all gs (v\<lparr>waiting := ?r, waiting := filter (\<lambda>(k, f). k \<noteq> q) ?r\<rparr>) = Some t"
    using u(2) v(2) by (simp add: filter_remove1_other)
  ultimately show ?case using Cons.IH [OF c] Cons.prems(2) by simp
qed

lemma calls_NotifyAll:
  assumes "calls f x s" "NotifyAll q s = Some t"
  shows "calls f x t"
proof (rule calls_schedule_all [OF assms(1)])
  have d: "distinct (map snd (waiting s))"
    using sched_okD(2) [OF callsD(1) [OF assms(1)]] by (simp add: lists_distinct_def)
  then show "distinct (rev (waitq s q))" by (simp add: waitq_def distinct_map_filter)
qed (use assms(2) in \<open>auto simp: NotifyAll_def waitq_mem [symmetric]\<close>)

lemma calls_lock_flags: "calls f x (s\<lparr>occupied := a, holder := b\<rparr>) = calls f x s"
  by (simp add: calls_def ok_lock_flags)

lemma calls_Mutex_unlock: "calls f x s \<Longrightarrow> Mutex_unlock m g s = Some t \<Longrightarrow> calls f x t"
  unfolding Mutex_unlock_def using calls_NotifyOne calls_lock_flags by blast

lemma calls_push_frame:
  assumes "calls f x s" "frames_ok (k # frames x)" "\<And>t. k \<noteq> KJoin t" "\<And>n. k \<noteq> KSleep n" "\<And>q n. k \<noteq> KTimed q n"
  shows "calls f (x\<lparr>frames := k # frames x\<rparr>) (push_frame f k s)"
proof -
  have "sched_ok (push_frame f k s)"
    by (rule ok_frames [OF callsD(1-3) [OF assms(1)], where ks = "k # frames x" and r = "ready x"])
      (use assms in \<open>auto simp: push_frame_def upd_def calls_def image_iff simp del: frames_ok.simps\<close>)
  then show ?thesis using assms(1) by (simp add: calls_def push_frame_def)
qed

lemma ok_Cv_wait:
  assumes "calls f x s" "frames x = []" "Cv_wait c m g f s = Some t"
  shows "sched_ok t"
proof -
  obtain u where u: "Mutex_unlock m g s = Some u" "Queue_Wait (CQ c) f (push_frame f (KRelock m) u) = Some t"
    using assms(3) by (auto simp: Cv_wait_def bind_eq_Some_conv)
  have c: "calls f (x\<lparr>frames := KRelock m # frames x\<rparr>) (push_frame f (KRelock m) u)"
    by (rule calls_push_frame [OF calls_Mutex_unlock [OF assms(1) u(1)]]) (use assms(2) in auto)
  show ?thesis by (rule ok_Queue_Wait [OF callsD(1-3) [OF c] _ u(2)]) (simp add: assms(2))
qed

text \<open>A wait with a time limit that has not passed puts the fiber into two lists.\<close>

lemma ok_Wait_until:
  assumes "calls f x s" "frames x = [KRelock m]" "Queue_Wait_until (CQ c) ns r f s = Some t"
  shows "sched_ok t"
proof -
  let ?k = "ns + uint r" and ?n = "word_of_int ns + r" and ?q = "CQ c"
  let ?x = "x\<lparr>frames := KPre ?n # KTimed ?q ?k # frames x\<rparr>"
  let ?s = "push_frame f (KPre ?n) (push_frame f (KTimed ?q ?k) (s\<lparr>waiting := waiting s @ [(?q, f)]\<rparr>))"
  have kn: "?n = word_of_int ?k" by simp
  have t: "Sleep ?n f ?s = Some t"
    using assms callsD(4) [OF assms(1)] by (auto simp: Queue_Wait_until_def push_wait_def SleepPreemptive_def Let_def split: if_splits)
  note c = callsD [OF assms(1)]
  have fs: "fib ?s = (fib s)(f := Some ?x)" using c by (auto simp: push_frame_def upd_def)
  have k: "k = ?q" if "(k, f) \<in> set (waiting ?s)" for k
    using that c(4) by (force simp: push_frame_def)
  have d: "distinct (map snd (waiting ?s))"
    using sched_okD(2) [OF c(1)] c(4) by (auto simp: lists_distinct_def push_frame_def)
  have n: "f \<notin> set (scheduled s)" using running_ok [OF c(1,2)] by blast
  show ?thesis
  proof (cases "?n \<le> clock s")
    case True
    then have e: "t = ?s" using t by (simp add: Sleep_def push_frame_def)
    show ?thesis
      unfolding e
    proof (rule ok_goes_on [OF c(1-3) fs])
      have du: "due ?s ?n f" using True by (simp add: due_def push_frame_def)
      then show "stack_ok ?s f ?x" using assms(2) running_ok [OF c(1,2)] c(3) by (auto simp: stack_ok_def deadline_def)
      show "timed_on k ?x" if "(k, f) \<in> set (waiting ?s)" for k using k [OF that] by (auto simp: timed_on_def)
    qed (use c running_ok [OF c(1,2)] sched_okD(2) [OF c(1)] d in \<open>auto simp: push_frame_def scheduled_def lists_distinct_def due_def\<close>)
  next
    case False
    then have e: "t = Suspend f (push_frame f (KSleep ?n) (?s\<lparr>sleep_list := sleep_insert ?n f (sleep_list s)\<rparr>))"
      using t n by (simp add: Sleep_def push_frame_def scheduled_def)
    have ft: "fib t = (fib s)(f := Some (x\<lparr>status := Suspended, frames := KSleep ?n # frames ?x\<rparr>))"
      using c by (auto simp: e Suspend_def push_frame_def upd_def)
    show ?thesis
    proof (rule ok_sleeps [OF c(1-3) n ft])
      show "\<exists>n. KTimed k n \<in> set (KSleep ?n # frames ?x)" if "(k, f) \<in> set (waiting t)" for k
      proof -
        have "k = ?q" using that k [of k] by (simp add: e Suspend_def push_frame_def)
        then show ?thesis by auto
      qed
    qed (use d assms(2) in \<open>auto simp: e Suspend_def push_frame_def\<close>)
  qed
qed

lemma ok_Cv_wait_until:
  assumes "calls f x s" "frames x = []" "Cv_wait_until c m g ns r f s = Some t"
  shows "sched_ok t"
proof -
  obtain u where u: "Mutex_unlock m g s = Some u" "Queue_Wait_until (CQ c) ns r f (push_frame f (KRelock m) u) = Some t"
    using assms(3) by (auto simp: Cv_wait_until_def bind_eq_Some_conv)
  have "calls f (x\<lparr>frames := KRelock m # frames x\<rparr>) (push_frame f (KRelock m) u)"
    by (rule calls_push_frame [OF calls_Mutex_unlock [OF assms(1) u(1)]]) (use assms(2) in auto)
  then show ?thesis by (rule ok_Wait_until [OF _ _ u(2)]) (simp add: assms(2))
qed

text \<open>The rest of \<open>SleepPreemptive\<close> only erases an empty list.\<close>

lemma SleepPreemptive_end_fields:
  assumes "SleepPreemptive_end ns s = Some t" "sorted_wrt (<) (map fst (sleep_list s))"
  shows "scheduled t = scheduled s" "asleep (sleep_list t) = asleep (sleep_list s)" "sorted_wrt (<) (map fst (sleep_list t))"
    "cur t = cur s" "fib t = fib s" "handles t = handles s" "waiting t = waiting s" "clock t = clock s" "occupied t = occupied s"
    "holder t = holder s" "wrapped t = wrapped s"
proof -
  have c: "concat (map snd (filter (\<lambda>(t, fs). t \<noteq> ns) sl)) = concat (map snd sl)"
    "asleep (filter (\<lambda>(t, fs). t \<noteq> ns) sl) n h \<longleftrightarrow> asleep sl n h" "sorted_wrt (<) (map fst (filter (\<lambda>(t, fs). t \<noteq> ns) sl))"
    if "map_of sl ns = Some []" "sorted_wrt (<) (map fst sl)" for sl :: "(time \<times> nat list) list" and n h
  proof -
    have "\<forall>(t, fs) \<in> set sl. t = ns \<longrightarrow> fs = []"
      using that strict_sorted_imp_sorted [of "map fst sl"] map_of_is_SomeI [of sl ns]
      by (auto simp: strict_sorted_iff)
    then show "concat (map snd (filter (\<lambda>(t, fs). t \<noteq> ns) sl)) = concat (map snd sl)"
      "asleep (filter (\<lambda>(t, fs). t \<noteq> ns) sl) n h \<longleftrightarrow> asleep sl n h" by (induction sl) auto
    show "sorted_wrt (<) (map fst (filter (\<lambda>(t, fs). t \<noteq> ns) sl))"
      using that(2) by (induction sl) auto
  qed
  show "scheduled t = scheduled s" "asleep (sleep_list t) = asleep (sleep_list s)" "sorted_wrt (<) (map fst (sleep_list t))"
    "cur t = cur s" "fib t = fib s" "handles t = handles s" "waiting t = waiting s" "clock t = clock s" "occupied t = occupied s"
    "holder t = holder s" "wrapped t = wrapped s"
    using assms c [of "sleep_list s"] by (auto simp: SleepPreemptive_end_def scheduled_def fun_eq_iff split: if_splits option.splits)
qed

lemma fib_pop: "fib s f = Some x \<Longrightarrow> fib (pop_frame f s) = (fib s)(f := Some (x\<lparr>frames := tl (frames x)\<rparr>))"
  by (simp add: pop_frame_def upd_def)

lemma pop_fields [simp]:
  "squeue (pop_frame f s) = squeue s" "sleep_list (pop_frame f s) = sleep_list s" "clock (pop_frame f s) = clock s"
  "cur (pop_frame f s) = cur s" "waiting (pop_frame f s) = waiting s" "occupied (pop_frame f s) = occupied s"
  "holder (pop_frame f s) = holder s" "handles (pop_frame f s) = handles s" "wrapped (pop_frame f s) = wrapped s" "scheduled (pop_frame f s) = scheduled s"
  by (simp_all add: pop_frame_def)

text \<open>A frame without a time limit is left.\<close>

lemma ok_pop:
  assumes "sched_ok s" "cur s = Some f" "fib s f = Some x" "frames x = k # ks" "\<And>q n. k \<noteq> KTimed q n"
  shows "sched_ok (pop_frame f s)"
proof (rule ok_frames [OF assms(1-3), where ks = ks and r = "ready x"])
  have "frames_ok (k # ks)" using running_ok [OF assms(1,2)] assms(3,4) by (auto simp: stack_ok_def)
  note t = frames_ok_tl [OF this]
  then show "frames_ok ks" "ks \<noteq> [KJoin t]" "ks \<noteq> [KSleep n]" for t n by auto
qed (use assms fib_pop [OF assms(3)] in auto)

lemma upd_ready:
  assumes "sched_ok s" "cur s = Some f" "fib s f = Some x" "\<And>t. frames x \<noteq> [KJoin t]" "\<And>n. frames x \<noteq> [KSleep n]"
  shows "sched_ok (upd f (\<lambda>x. x\<lparr>ready := r\<rparr>) s)"
  by (rule ok_frames [OF assms(1-3), where ks = "frames x" and r = r])
    (use assms running_ok [OF assms(1,2)] in \<open>auto simp: upd_def stack_ok_def\<close>)

lemma ok_KTimed:
  assumes "sched_ok s" "cur s = Some f" "fib s f = Some x" "frames x = KTimed q n # ks"
  shows "sched_ok (Queue_Wait_until_end q f (pop_frame f s))"
proof -
  let ?t = "Queue_Wait_until_end q f (pop_frame f s)"
  have fo: "frames_ok (KTimed q n # ks)" and ru: "status x = Running" using running_ok [OF assms(1,2)] assms(3,4) by (auto simp: stack_ok_def)
  have dw: "distinct (map snd (waiting s))" using sched_okD(2) [OF assms(1)] by (simp add: lists_distinct_def)
  have nw: "(k, f) \<notin> set (remove1 (q, f) (waiting s))" for k
  proof (cases "(q, f) \<in> set (waiting s)")
    case True
    then show ?thesis by (rule wait_once [OF dw])
  next
    case False
    have "k = q" if "(k, f) \<in> set (waiting s)" using running_timed [OF assms(1-3) that] assms(4) fo by (auto simp: timed_on_def)
    then show ?thesis using False set_remove1_subset [of "(q, f)" "waiting s"] by (auto simp: remove1_idem)
  qed
  show ?thesis
  proof (rule ok_goes_on [OF assms(1-3), where y = "x\<lparr>frames := ks, ready := (q, f) \<notin> set (waiting s)\<rparr>"])
    show "fib ?t = (fib s)(f := Some (x\<lparr>frames := ks, ready := (q, f) \<notin> set (waiting s)\<rparr>))"
      using assms(3,4) fib_pop [OF assms(3)] by (auto simp: Queue_Wait_until_end_def Let_def upd_def waitq_mem waitq_def image_iff)
    show "(k, h) \<in> set (waiting ?t) \<longleftrightarrow> (k, h) \<in> set (waiting s)" if "h \<noteq> f" for k h
      using that by (simp add: Queue_Wait_until_end_def Let_def)
    show "distinct (map snd (waiting ?t))" using distinct_map_remove1 [OF dw] by (simp add: Queue_Wait_until_end_def Let_def)
    show "stack_ok ?t f (x\<lparr>frames := ks, ready := (q, f) \<notin> set (waiting s)\<rparr>)"
      using fo nw ru by (auto simp: stack_ok_def deadline_def Queue_Wait_until_end_def Let_def)
  qed (use nw ru sched_okD(2) [OF assms(1)] in \<open>auto simp: Queue_Wait_until_end_def Let_def scheduled_def lists_distinct_def due_def\<close>)
qed

lemma ok_KPre:
  assumes "sched_ok s" "cur s = Some f" "fib s f = Some x" "frames x = KPre n # ks" "SleepPreemptive_end n (pop_frame f s) = Some t"
  shows "sched_ok t"
proof -
  have p: "sched_ok (pop_frame f s)" by (rule ok_pop [OF assms(1-4)]) simp
  have so: "sorted_wrt (<) (map fst (sleep_list (pop_frame f s)))" using sched_okD(2) [OF p] by (simp add: lists_distinct_def)
  note e = SleepPreemptive_end_fields [OF assms(5) so]
  have d: "due t = due (pop_frame f s)" using e by (simp add: due_def fun_eq_iff)
  let ?y = "x\<lparr>frames := ks\<rparr>"
  have y: "fib (pop_frame f s) f = Some ?y" "cur (pop_frame f s) = Some f" using assms(2,3,4) fib_pop [OF assms(3)] by auto
  have "stack_ok (pop_frame f s) f ?y" using running_ok [OF p y(2)] y(1) by auto
  then have "stack_ok t f ?y" using e d by (auto simp: stack_ok_def deadline_def joined_def)
  then show ?thesis
    by (intro ok_goes_on [OF p y(2,1)])
      (use e d y running_ok [OF p y(2)] running_timed [OF p y(2,1)] sched_okD(2) [OF p] in \<open>auto simp: lists_distinct_def\<close>)
qed

text \<open>A thread object lets a fiber go.\<close>

lemma ok_handles:
  assumes "sched_ok s" "t \<in> set (handles s)"
  shows "sched_ok (s\<lparr>handles := remove1 t (handles s)\<rparr>)"
    "fib s t = Some y \<Longrightarrow> joining y = None" "t \<notin> set (remove1 t (handles s))" "fib s t \<noteq> None"
proof -
  have d: "distinct (handles s)" using sched_okD(2) [OF assms(1)] by (simp add: lists_distinct_def)
  then show "t \<notin> set (remove1 t (handles s))" by simp
  have k: "fiber_ok s t (fib s t)" using sched_okD(1) [OF assms(1)] .
  then show "fib s t \<noteq> None" using assms(2) by (cases "fib s t") auto
  show "joining y = None" if "fib s t = Some y" using k assms(2) that by (cases "joining y") (auto simp: joins_ok_def)
  let ?t = "s\<lparr>handles := remove1 t (handles s)\<rparr>"
  have eq: "scheduled ?t = scheduled s" "join_link ?t = join_link s" "awaits ?t = awaits s" "joined ?t = joined s" "due ?t = due s"
    by (simp_all add: scheduled_def join_link_def awaits_def joined_def due_def fun_eq_iff)
  have "fiber_ok ?t f z" if "fiber_ok s f z" for f z
    using that d eq by (cases z) (auto simp: blocked_def waits_ok_def joins_ok_def stack_ok_def deadline_def)
  then show "sched_ok ?t" using assms(1) d eq(1) by (simp add: sched_ok_def lists_distinct_def)
qed

lemma ok_delete:
  assumes s: "sched_ok s" and x: "fib s t = Some x" "status x = Completed" "t \<notin> set (handles s)"
    and n: "\<And>h. joining x = Some h \<Longrightarrow> \<exists>y. fib s h = Some y \<and> frames y \<noteq> [KJoin t] \<and> h \<noteq> t"
  shows "sched_ok (delete_fiber t s)"
proof -
  let ?t = "delete_fiber t s"
  have k: "t \<notin> set (scheduled s)" "t \<notin> snd ` set (waiting s)" "cur s \<noteq> Some t"
    using sched_okD(1) [OF s, of t] x(1,2) by (auto simp: waits_ok_def)
  have eq: "scheduled ?t = scheduled s" "waiting ?t = waiting s" "cur ?t = cur s" "handles ?t = handles s" "due ?t = due s"
    "fib ?t = (fib s)(t := None)"
    by (simp_all add: delete_fiber_def scheduled_def due_def fun_eq_iff)
  have j: "join_link ?t k h" if "join_link s k h" for k h using that x(1,2) eq(6) by (auto simp: join_link_def)
  have a: "awaits ?t k h" if "awaits s k h" for k h using that x(1,2) eq(1,6) by (auto simp: awaits_def)
  have d: "lists_distinct ?t" using sched_okD(2) [OF s] eq by (simp add: lists_distinct_def delete_fiber_def)
  have "fiber_ok ?t h (fib ?t h)" for h
  proof (cases "h = t")
    case True
    then show ?thesis using k x(3) eq by simp
  next
    case False
    then have f: "fib ?t h = fib s h" using eq(6) by simp
    show ?thesis
    proof (cases "fib s h")
      case None
      then show ?thesis using sched_okD(1) [OF s, of h] f eq by simp
    next
      case (Some y)
      have o: "fiber_ok s h (Some y)" using sched_okD(1) [OF s, of h] Some by simp
      have "joined ?t k h" if "frames y = [KJoin k]" for k
      proof -
        have "joined s k h" using o that by (simp add: stack_ok_def)
        then show ?thesis using n [of h] x(1) that Some eq(6) by (auto simp: joined_def)
      qed
      then have "stack_ok ?t h y" using o eq by (simp add: stack_ok_def deadline_def)
      moreover have "blocked ?t h y" if "blocked s h y" using that j eq(2) by (auto simp: blocked_def)
      moreover have "joins_ok ?t h y" using o a eq by (auto simp: joins_ok_def)
      moreover have "waits_ok ?t h y" using o eq by (simp add: waits_ok_def)
      ultimately show ?thesis using o f Some eq by simp
    qed
  qed
  then show ?thesis using d by (simp add: sched_ok_def)
qed

text \<open>A fiber changes in its link to a joining fiber only.\<close>

lemma ok_thread:
  assumes s: "sched_ok s" and x: "fib s t = Some x" "t \<notin> set (handles s)" "joining x = None"
  shows "sched_ok (upd t (\<lambda>x. x\<lparr>thread_alive := False\<rparr>) s)"
proof -
  let ?t = "upd t (\<lambda>x. x\<lparr>thread_alive := False\<rparr>) s" and ?y = "x\<lparr>thread_alive := False\<rparr>"
  have e: "fib ?t = (fib s)(t := Some ?y)" "due ?t = due s" using x(1) by (simp_all add: upd_def due_def fun_eq_iff)
  have eq: "join_link ?t = join_link s" "awaits ?t = awaits s" "joined ?t = joined s"
    using x(1) e(1) by (auto simp: join_link_def awaits_def joined_def fun_eq_iff)
  have l: "squeue ?t = squeue s" "waiting ?t = waiting s" "cur ?t = cur s" "handles ?t = handles s" "scheduled ?t = scheduled s"
    by simp_all
  show ?thesis
  proof (rule ok_frame [OF s, where F = "{t}"])
    have "fiber_ok s t (Some x)" using sched_okD(1) [OF s, of t] x(1) by simp
    then have "fiber_ok ?t t (Some ?y)"
      using x(2,3) l e(2) eq by (simp add: blocked_def waits_ok_def joins_ok_def stack_ok_def deadline_def timed_on_def)
    then show "fiber_ok ?t f (fib ?t f)" if "f \<in> {t}" for f using that e(1) by simp
    show "same_at h s ?t" if "h \<notin> {t}" for h using that e l by (simp add: same_at_def)
    show "lists_distinct ?t" using sched_okD(2) [OF s] l by (simp add: lists_distinct_def)
  qed (simp_all add: eq)
qed

lemma ok_Detach:
  assumes "sched_ok s" "t \<in> set (handles s)" "AfterJoinOrDetach t (s\<lparr>handles := remove1 t (handles s)\<rparr>) = Some u"
  shows "sched_ok u"
proof -
  let ?s = "s\<lparr>handles := remove1 t (handles s)\<rparr>"
  obtain x where x: "fib s t = Some x" using ok_handles(4) [OF assms(1,2)] by blast
  note h = ok_handles(1) [OF assms(1,2)] ok_handles(2) [OF assms(1,2) x] ok_handles(3) [OF assms(1,2)]
  show ?thesis
  proof (cases "status x = Completed")
    case True
    then have "u = delete_fiber t ?s" using assms(3) x by (simp add: AfterJoinOrDetach_def)
    then show ?thesis using ok_delete [OF h(1) _ True] h x by simp
  next
    case False
    then have "u = upd t (\<lambda>x. x\<lparr>thread_alive := False\<rparr>) ?s" using assms(3) x by (simp add: AfterJoinOrDetach_def)
    then show ?thesis using ok_thread [OF h(1) _ _ h(2)] h x by simp
  qed
qed

text \<open>Another fiber waits for \<open>t\<close>.\<close>

lemma ok_join_suspend:
  assumes s: "sched_ok s" "cur s = Some f" "fib s f = Some x" "frames x = []" "fib s t = Some y" "t \<noteq> f"
    and y: "status y \<noteq> Completed" "joining y = None \<or> joining y = Some f" "thread_alive y" "t \<notin> set (handles s)"
  shows "sched_ok (Suspend f (push_frame f (KJoin t) (upd t (\<lambda>x. x\<lparr>joining := Some f\<rparr>) s)))" (is "sched_ok ?t")
proof -
  let ?x = "x\<lparr>frames := [KJoin t], status := Suspended\<rparr>" and ?y = "y\<lparr>joining := Some f\<rparr>"
  have e: "fib ?t = (fib s)(t := Some ?y, f := Some ?x)" using s(3-6) by (simp add: Suspend_def push_frame_def upd_def fun_upd_twist)
  have l: "waiting ?t = waiting s" "cur ?t = None" "handles ?t = handles s" "scheduled ?t = scheduled s" "due ?t = due s"
    "sleep_list ?t = sleep_list s"
    by (simp_all add: Suspend_def push_frame_def scheduled_def due_def fun_eq_iff)
  have r: "status x = Running" "f \<notin> set (scheduled s)" "joins_ok s f x" using running_ok [OF s(1,2)] s(3) by auto
  have w: "f \<notin> snd ` set (waiting s)" using running_not_waiting [OF s(1-3)] s(4) by simp
  have oy: "fiber_ok s t (Some y)" using sched_okD(1) [OF s(1), of t] s(5) by simp
  have aw: "awaits ?t j h" if "awaits s j h" for j h
  proof -
    have "j \<noteq> f" using that running_awaits [OF s(1,2), of h] by auto
    moreover have "j \<noteq> t \<Longrightarrow> awaits ?t j h" using that e l calculation by (simp add: awaits_def)
    moreover have "j = t \<Longrightarrow> awaits ?t j h" using that e l s(5,6) by (auto simp: awaits_def)
    ultimately show ?thesis by blast
  qed
  have jl: "join_link ?t k h" if "join_link s k h" "h \<noteq> f" for k h
    using that y(2) s(3,5,6) e r by (auto simp: join_link_def)
  have jd: "joined ?t k h" if "joined s k h" "h \<noteq> f" for k h
    using that y(2) s(3,5,6) e r by (auto simp: joined_def)
  have tf: "join_link ?t t f" "joined ?t t f" using y(1) s(6) e by (simp_all add: join_link_def joined_def)
  have af: "awaits ?t f t" using r e l by (simp add: awaits_def)
  show ?thesis
  proof (rule ok_frame [OF s(1), where F = "{f, t}"])
    have "joins_ok ?t f ?x" using r(1,3) aw l by (auto simp: joins_ok_def)
    then have F: "fiber_ok ?t f (Some ?x)"
      using w l tf r(2) by (auto simp: blocked_def waits_ok_def stack_ok_def deadline_def image_iff)
    have "blocked ?t t ?y" if b: "blocked s t y"
    proof -
      have "join_link ?t k t" if "join_link s k t" for k using jl [OF that s(6)] .
      then show ?thesis using b l by (auto simp: blocked_def)
    qed
    moreover have "stack_ok ?t t ?y" using oy l jd [OF _ s(6)] by (auto simp: stack_ok_def deadline_def)
    moreover have "joins_ok ?t t ?y" using y l af by (simp add: joins_ok_def)
    moreover have "waits_ok ?t t ?y" using oy l by (simp add: waits_ok_def timed_on_def)
    moreover have "status y \<noteq> Running" using oy s(2,6) by auto
    ultimately have "fiber_ok ?t t (Some ?y)" using oy l by simp
    then show "fiber_ok ?t g (fib ?t g)" if "g \<in> {f, t}" for g using that F e s(6) by auto
    show "same_at h s ?t" if "h \<notin> {f, t}" for h using that e l s(2) by (auto simp: same_at_def)
    show "lists_distinct ?t" using sched_okD(2) [OF s(1)] l by (simp add: lists_distinct_def)
  qed (use aw jl jd in auto)
qed

lemma ok_Join:
  assumes "sched_ok s" "cur s = Some f" "fib s f = Some x" "frames x = []" "t \<in> set (handles s)" "t \<noteq> f"
    and "Thread_join t f (s\<lparr>handles := remove1 t (handles s)\<rparr>) = Some u"
  shows "sched_ok u"
proof -
  let ?s = "s\<lparr>handles := remove1 t (handles s)\<rparr>"
  obtain y where y: "fib s t = Some y" using ok_handles(4) [OF assms(1,5)] by blast
  have j: "joining y = None" by (rule ok_handles(2) [OF assms(1,5) y])
  have al: "thread_alive y" using sched_okD(1) [OF assms(1), of t] y assms(5) by (simp add: joins_ok_def)
  show ?thesis
  proof (cases "status y = Completed")
    case True
    then show ?thesis using assms(7) y ok_Detach [OF assms(1,5)] by (simp add: Thread_join_def)
  next
    case False
    then have u: "u = Suspend f (push_frame f (KJoin t) (upd t (\<lambda>x. x\<lparr>joining := Some f\<rparr>) ?s))"
      using assms(7) y by (simp add: Thread_join_def)
    show ?thesis
      unfolding u
      by (rule ok_join_suspend [OF ok_handles(1) [OF assms(1,5)] _ _ assms(4) _ assms(6) False])
        (use assms y j al ok_handles(3) [OF assms(1,5)] in auto)
  qed
qed

lemma ok_KJoin:
  assumes "sched_ok s" "cur s = Some f" "fib s f = Some x" "frames x = [KJoin t]" "Thread_join t f (pop_frame f s) = Some u"
  shows "sched_ok u"
proof -
  have p: "sched_ok (pop_frame f s)" by (rule ok_pop [OF assms(1-4)]) simp
  have j: "joined s t f" using running_ok [OF assms(1,2)] assms(3,4) by (auto simp: stack_ok_def)
  then obtain y where y: "fib s t = Some y" "joining y = Some f" by (auto simp: joined_def)
  have jo: "t \<notin> set (handles s)" "thread_alive y"
    using sched_okD(1) [OF assms(1), of t] y by (auto simp: joins_ok_def)
  have tf: "t \<noteq> f"
  proof
    assume "t = f"
    then have "awaits s f f" using sched_okD(1) [OF assms(1), of f] y assms(2) by (auto simp: joins_ok_def)
    then show False using running_awaits [OF assms(1,2)] by blast
  qed
  have fs: "fib (pop_frame f s) f = Some (x\<lparr>frames := []\<rparr>)" "fib (pop_frame f s) t = Some y" "cur (pop_frame f s) = Some f"
    using assms(2,3,4) y tf fib_pop [OF assms(3)] by auto
  show ?thesis
  proof (cases "status y = Completed")
    case True
    then have u: "u = delete_fiber t (pop_frame f s)" using assms(5) fs by (simp add: Thread_join_def AfterJoinOrDetach_def)
    show ?thesis unfolding u by (rule ok_delete [OF p fs(2) True]) (use jo y fs tf in auto)
  next
    case False
    then have u: "u = Suspend f (push_frame f (KJoin t) (upd t (\<lambda>x. x\<lparr>joining := Some f\<rparr>) (pop_frame f s)))"
      using assms(5) fs by (simp add: Thread_join_def)
    show ?thesis unfolding u by (rule ok_join_suspend [OF p fs(3,1) _ fs(2) tf False]) (use y jo in auto)
  qed
qed

lemma ok_Spawn:
  assumes "sched_ok s" "Thread_new t s = Some u"
  shows "sched_ok u"
proof -
  have n: "fib s t = None" using assms(2) by (auto simp: Thread_new_def split: if_splits)
  have k: "t \<notin> set (scheduled s)" "t \<notin> snd ` set (waiting s)" "cur s \<noteq> Some t" "t \<notin> set (handles s)"
    using sched_okD(1) [OF assms(1), of t] n by simp_all
  let ?x = "FiberBase_new\<lparr>status := Waiting\<rparr>"
  have u: "fib u = (fib s)(t := Some ?x)" "squeue u = squeue s @ [t]" "sleep_list u = sleep_list s" "clock u = clock s"
    "cur u = cur s" "waiting u = waiting s" "handles u = t # handles s" "wrapped u = wrapped s"
    using assms(2) by (auto simp: Thread_new_def Schedule_def upd_def scheduled_def split: if_splits)
  have m: "set (scheduled u) = insert t (set (scheduled s))" "distinct (scheduled u) \<longleftrightarrow> distinct (scheduled s)"
    using u(2,3) k(1) by (auto simp: scheduled_def)
  show ?thesis
  proof (rule ok_frame [OF assms(1), where F = "{t}"])
    have "fiber_ok u t (Some ?x)"
      using u m k by (auto simp: FiberBase_new_def waits_ok_def joins_ok_def stack_ok_def deadline_def image_iff)
    then show "fiber_ok u f (fib u f)" if "f \<in> {t}" for f using that u(1) by simp
    show "same_at h s u" if "h \<notin> {t}" for h using that u m by (auto simp: same_at_def due_def)
    show "lists_distinct u" using sched_okD(2) [OF assms(1)] u m k by (simp add: lists_distinct_def)
  qed (use n in \<open>auto simp: join_link_def awaits_def joined_def\<close>)
qed

lemma Schedule_spec:
  assumes "Schedule f s = Some t"
  shows "f \<notin> set (scheduled s)" "set (scheduled t) = insert f (set (scheduled s))" "distinct (scheduled t) \<longleftrightarrow> distinct (scheduled s)"
    "fib t = (fib s)(f := map_option (\<lambda>x. x\<lparr>status := Waiting\<rparr>) (fib s f))" "sleep_list t = sleep_list s" "clock t = clock s"
    "cur t = cur s" "waiting t = waiting s" "handles t = handles s" "occupied t = occupied s" "holder t = holder s"
    "wrapped t = wrapped s"
proof -
  have t: "f \<notin> set (scheduled s)" "t = (upd f (\<lambda>x. x\<lparr>status := Waiting\<rparr>) s)\<lparr>squeue := squeue s @ [f]\<rparr>"
    using assms by (auto simp: Schedule_def split: if_splits)
  then have m: "mset (scheduled t) = mset (f # scheduled s)" by (simp add: scheduled_def)
  show "set (scheduled t) = insert f (set (scheduled s))" using arg_cong [OF m, of set_mset] by simp
  show "distinct (scheduled t) \<longleftrightarrow> distinct (scheduled s)" using mset_eq_imp_distinct_iff [OF m] t(1) by simp
qed (use assms in \<open>auto simp: Schedule_def upd_def split: if_splits\<close>)

text \<open>A fiber ends: the state where it is completed, and a fiber that joins it is scheduled.\<close>

lemma ok_completed:
  assumes s: "sched_ok s" "cur s = Some f" "fib s f = Some x" "frames x = []"
    and u: "fib u = (fib s)(f := Some (x\<lparr>status := Completed\<rparr>))" "squeue u = squeue s" "sleep_list u = sleep_list s"
      "clock u = clock s" "cur u = None" "waiting u = waiting s" "handles u = handles s" "wrapped u = wrapped s"
    and v: "joining x = None \<and> v = u \<or> (\<exists>j. joining x = Some j \<and> Schedule j u = Some v)"
  shows "sched_ok v \<and> fib v f = Some (x\<lparr>status := Completed\<rparr>)"
proof -
  let ?x = "x\<lparr>status := Completed\<rparr>" and ?F = "{f} \<union> set_option (joining x)"
  have r: "status x = Running" "f \<notin> set (scheduled s)" "joins_ok s f x" "f \<notin> snd ` set (waiting s)"
    using running_ok [OF s(1,2)] s(3) running_not_waiting [OF s(1-3)] s(4) by auto
  have su: "scheduled u = scheduled s" using u by (simp add: scheduled_def)
  have j: "awaits s j f \<and> j \<noteq> f" if "joining x = Some j" for j
    using r(1,3) that running_awaits [OF s(1,2)] by (auto simp: joins_ok_def)
  have vf: "fib v = (\<lambda>h. if joining x = Some h then map_option (\<lambda>y. y\<lparr>status := Waiting\<rparr>) (fib s h) else fib u h)"
    "sleep_list v = sleep_list s" "clock v = clock s" "cur v = None" "waiting v = waiting s" "handles v = handles s"
    "wrapped v = wrapped s"
    using v u j Schedule_spec(4-9,12) [of _ u v] by (auto simp: fun_eq_iff)
  have sv: "set (scheduled v) = set (scheduled s) \<union> set_option (joining x)" "distinct (scheduled v)"
    using v su Schedule_spec(2,3) [of _ u v] sched_okD(2) [OF s(1)] by (auto simp: lists_distinct_def)
  have jn: "joined v k h" if "joined s k h" for k h
    using that u(1) s(3) vf(1) by (auto simp: joined_def)
  have "sched_ok v"
  proof (rule ok_frame [OF s(1), where F = ?F])
    show "lists_distinct v" using sched_okD(2) [OF s(1)] sv(2) vf by (simp add: lists_distinct_def)
    show "same_at h s v" if "h \<notin> ?F" for h
      using that vf u sv s(2) by (auto simp: same_at_def due_def)
    show "joined v k h" if "joined s k h" for k h using jn [OF that] .
    show "join_link v k h" if "h \<notin> ?F" "k \<in> ?F" "join_link s k h" for h k
    proof (cases "k = f")
      case True
      then show ?thesis using that s(3) by (auto simp: join_link_def)
    next
      case False
      then show ?thesis using that vf(1) u(1) by (auto simp: join_link_def)
    qed
    show "awaits v k h" if "h \<notin> ?F" "k \<in> ?F" "awaits s k h" for h k
    proof (cases "k = f")
      case True
      then show ?thesis using that running_awaits [OF s(1,2)] by simp
    next
      case False
      then have "joining x = Some k" using that(2) by auto
      then have "awaits s k f" using j by blast
      then show ?thesis using that by (auto simp: awaits_def)
    qed
    have f: "fiber_ok v f (fib v f)"
    proof -
      have "fib v f = Some ?x" using vf(1) u(1) j by auto
      moreover have "f \<notin> set (scheduled v)" using r(2) sv(1) j by auto
      ultimately show ?thesis using r(3,4) s(4) vf
        by (auto simp: waits_ok_def joins_ok_def stack_ok_def deadline_def image_iff)
    qed
    have g: "fiber_ok v g (fib v g)" if e: "joining x = Some g" for g
    proof -
      have a: "awaits s g f" "g \<noteq> f" using j [OF e] by auto
      then obtain y where y: "fib s g = Some y" "status y = Suspended" "frames y = [KJoin f]" "g \<notin> set (scheduled s)"
        using sched_okD(1) [OF s(1), of g] by (auto simp: awaits_def stack_ok_def)
      have oy: "fiber_ok s g (Some y)" using sched_okD(1) [OF s(1), of g] y(1) by simp
      have "awaits v k g" if "awaits s k g" for k
      proof -
        have "k \<noteq> f" using that running_awaits [OF s(1,2)] by auto
        moreover have "k \<noteq> g" using that a by (auto simp: awaits_def)
        ultimately show ?thesis using that e vf(1) u(1) sv(1) by (auto simp: awaits_def)
      qed
      then have "joins_ok v g (y\<lparr>status := Waiting\<rparr>)" using oy y(2) vf by (auto simp: joins_ok_def)
      moreover have "(q, g) \<notin> set (waiting v)" for q using oy y(3) vf by (auto simp: waits_ok_def timed_on_def)
      moreover have "stack_ok v g (y\<lparr>status := Waiting\<rparr>)" using oy y(3) jn by (auto simp: stack_ok_def deadline_def)
      ultimately show ?thesis using e y(1) vf sv(1) by (auto simp: waits_ok_def)
    qed
    show "fiber_ok v h (fib v h)" if "h \<in> ?F" for h using that f g by auto
  qed
  then show ?thesis using vf(1) u(1) j by auto
qed

lemma ok_Exit:
  assumes s: "sched_ok s" "cur s = Some f" "fib s f = Some x" "frames x = []" and t: "FiberBase_Exit f s = Some t"
  shows "sched_ok t"
proof -
  define u where "u = upd f (\<lambda>x. x\<lparr>status := Completed\<rparr>) (s\<lparr>cur := None\<rparr>)"
  have uf: "fib u = (fib s)(f := Some (x\<lparr>status := Completed\<rparr>))" "squeue u = squeue s" "sleep_list u = sleep_list s"
    "clock u = clock s" "cur u = None" "waiting u = waiting s" "handles u = handles s" "wrapped u = wrapped s"
    using s(3) by (simp_all add: u_def upd_def)
  have jo: "joins_ok s f x" using running_ok [OF s(1,2)] s(3) by auto
  then have al: "joining x = Some j \<Longrightarrow> thread_alive x" for j by (simp add: joins_ok_def)
  obtain v where v: "joining x = None \<and> v = u \<or> (\<exists>j. joining x = Some j \<and> Schedule j u = Some v)"
    and tv: "t = (if \<not> thread_alive x then delete_fiber f v else v)"
    using t s(3) al by (auto simp: FiberBase_Exit_def u_def [symmetric] Let_def bind_eq_Some_conv split: option.splits if_splits)
  note k = ok_completed [OF s uf v]
  show ?thesis
  proof (cases "thread_alive x")
    case True
    then show ?thesis using k tv by simp
  next
    case False
    have n: "joining x = None" using False al by (cases "joining x") auto
    then have "f \<notin> set (handles v)" using v uf(7) jo False by (auto simp: joins_ok_def)
    then show ?thesis using ok_delete [of v f "x\<lparr>status := Completed\<rparr>"] k n tv False by simp
  qed
qed

text \<open>\<open>RunLoop\<close> advances the time, wakes who has slept enough and resumes a scheduled fiber.\<close>

lemma TickTime_clock:
  "wrapped (TickTime k s) \<or> clock s \<le> clock (TickTime k s)" "wrapped s \<Longrightarrow> wrapped (TickTime k s)"
proof -
  have "unat (clock s + ucast k) = unat (clock s) + unat (ucast k :: time)"
    if "unat (clock s) + unat (ucast k :: time) < 2 ^ 64"
    using that by (subst unat_plus_if') simp
  then show "wrapped (TickTime k s) \<or> clock s \<le> clock (TickTime k s)"
    by (cases "unat (clock s) + unat (ucast k :: time) < 2 ^ 64") (auto simp: TickTime_def word_le_nat_alt)
qed (simp add: TickTime_def)

lemma RunLoop_wake_spec:
  assumes "RunLoop_wake s = Some t"
  shows "scheduled t = scheduled s" "clock s \<le> clock t" "due s n h \<Longrightarrow> due t n h"
    "sorted_wrt (<) (map fst (sleep_list s)) \<Longrightarrow> sorted_wrt (<) (map fst (sleep_list t))"
    "fib t = fib s" "cur t = cur s" "waiting t = waiting s" "handles t = handles s" "occupied t = occupied s" "holder t = holder s"
    "wrapped t = wrapped s"
proof -
  obtain u where u: "t = WakeUpNeeded u" "clock s \<le> clock u" "sleep_list u = sleep_list s" "squeue u = squeue s"
    "fib u = fib s" "cur u = cur s" "waiting u = waiting s" "handles u = handles s" "occupied u = occupied s" "holder u = holder s"
    "wrapped u = wrapped s"
    using assms by (auto simp: RunLoop_wake_def AdvanceTime_def bind_eq_Some_conv split: if_splits list.splits)
  let ?P = "\<lambda>(k, fs). \<not> k > clock u"
  have c: "concat (map snd (takeWhile ?P sl)) @ concat (map snd (dropWhile ?P sl)) = concat (map snd sl)" for sl :: "(time \<times> nat list) list"
    by (metis concat_append map_append takeWhile_dropWhile_id)
  show "scheduled t = scheduled s" using c [of "sleep_list s"] u by (simp add: scheduled_def WakeUpNeeded_def)
  show "clock s \<le> clock t" "fib t = fib s" "cur t = cur s" "waiting t = waiting s" "handles t = handles s" "occupied t = occupied s"
    "holder t = holder s" "wrapped t = wrapped s"
    using u by (simp_all add: WakeUpNeeded_def)
  have "n \<le> clock u \<or> asleep (dropWhile ?P sl) n h" if "asleep sl n h" for sl
    using that by (induction sl) auto
  then show "due s n h \<Longrightarrow> due t n h" using u by (auto simp: due_def WakeUpNeeded_def)
  have "sorted_wrt (<) (map fst (dropWhile ?P sl))" if "sorted_wrt (<) (map fst sl)" for sl :: "(time \<times> nat list) list"
    using that by (induction sl) auto
  then show "sorted_wrt (<) (map fst (sleep_list s)) \<Longrightarrow> sorted_wrt (<) (map fst (sleep_list t))"
    using u by (simp add: WakeUpNeeded_def)
qed

lemma ok_Loop:
  assumes s: "sched_ok s" "cur s = None" and t: "RunLoop_turn tick f s = Some t"
  shows "sched_ok t"
proof -
  obtain u where w: "RunLoop_wake s = Some u" and f: "f \<in> set (squeue u)"
    and r: "Resume f (TickTime tick (u\<lparr>squeue := remove1 f (squeue u)\<rparr>)) = Some t"
    using t by (auto simp: RunLoop_turn_def bind_eq_Some_conv split: if_splits)
  note W = RunLoop_wake_spec [OF w]
  have d: "distinct (scheduled u)" using sched_okD(2) [OF s(1)] W(1) by (simp add: lists_distinct_def)
  have "f \<in> set (scheduled u)" using f by (simp add: scheduled_def)
  then have fs: "f \<in> set (scheduled s)" using W(1) by simp
  have o: "fiber_ok s f (fib s f)" using sched_okD(1) [OF s(1)] .
  then obtain x where x: "fib s f = Some x" "status x = Suspended \<or> status x = Waiting" "waits_ok s f x" "joins_ok s f x" "stack_ok s f x"
    using fs by (cases "fib s f") auto
  let ?y = "x\<lparr>status := Running\<rparr>"
  have te: "fib t = (fib s)(f := Some ?y)" "squeue t = remove1 f (squeue u)" "sleep_list t = sleep_list u" "cur t = Some f"
    "waiting t = waiting s" "handles t = handles s"
    using r x W by (auto simp: Resume_def TickTime_def upd_def split: if_splits)
  have tc: "wrapped t \<or> clock u \<le> clock t" "wrapped u \<Longrightarrow> wrapped t"
  proof -
    let ?u = "TickTime tick (u\<lparr>squeue := remove1 f (squeue u)\<rparr>)"
    have "fib ?u f = Some x" using x(1) W(5) by (simp add: TickTime_def)
    then have "clock t = clock ?u" "wrapped t = wrapped ?u" using r x(2) by (auto simp: Resume_def)
    then show "wrapped t \<or> clock u \<le> clock t" "wrapped u \<Longrightarrow> wrapped t"
      using TickTime_clock [where k = tick and s = "u\<lparr>squeue := remove1 f (squeue u)\<rparr>"] by simp_all
  qed
  have "scheduled t = remove1 f (scheduled u)" using te(2,3) f by (simp add: scheduled_def remove1_append)
  then have m: "scheduled t = remove1 f (scheduled s)" using W(1) by simp
  have n: "h \<in> set (scheduled t) \<longleftrightarrow> h \<in> set (scheduled s) \<and> h \<noteq> f" for h using m d(1) W(1) by auto
  have du: "due s n h \<Longrightarrow> due t n h" for n h using W(3) [of n h] te(3) tc by (auto simp: due_def)
  show ?thesis
  proof (rule ok_one [OF s(1) x(1) te(1)])
    show "lists_distinct t" using sched_okD(2) [OF s(1)] W(4) te m by (simp add: lists_distinct_def)
    show "same_at h s t" if "h \<noteq> f" for h using that te n du s(2) by (auto simp: same_at_def)
    show "\<not> awaits s f h" for h using fs by (simp add: awaits_def)
    have "awaits t j f" if "awaits s j f" for j
      using that fs te(1) n [of j] by (cases "j = f") (auto simp: awaits_def)
    then have "joins_ok t f ?y" using x(2,4) te(6) by (auto simp: joins_ok_def)
    moreover have "waits_ok t f ?y" using x(3) fs te(5) by (auto simp: waits_ok_def timed_on_def)
    moreover have "joined t k f" if "joined s k f" for k
      using that te(1) x(1) by (auto simp: joined_def)
    then have "stack_ok t f ?y" using x(5) te(5) du by (auto simp: stack_ok_def deadline_def)
    ultimately show "fiber_ok t f (Some ?y)" using te(4) n [of f] by simp
  qed simp_all
qed

lemma ok_frame_step:
  assumes s: "sched_ok s" "cur s = Some f" "fib s f = Some x" "frames x = k # ks"
    and t: "exec_frame f k r (pop_frame f s) = Some t"
  shows "sched_ok t"
proof (cases k)
  case (KTimed q n)
  then show ?thesis using ok_KTimed [OF s(1-3), of q n ks] s(4) t by (simp add: exec_frame_def)
next
  case (KPre n)
  then show ?thesis using ok_KPre [OF s(1-3), of n ks t] s(4) t by (simp add: exec_frame_def)
next
  case (KJoin j)
  have "ks = []" using running_ok [OF s(1,2)] s(3,4) KJoin by (auto simp: stack_ok_def)
  then show ?thesis using ok_KJoin [OF s(1-3), of j t] s(4) t KJoin by (simp add: exec_frame_def)
next
  case (KRelock m)
  have p: "sched_ok (pop_frame f s)" by (rule ok_pop [OF s]) (simp add: KRelock)
  have ks: "ks = []" using running_ok [OF s(1,2)] s(3,4) KRelock by (auto simp: stack_ok_def)
  have y: "fib (pop_frame f s) f = Some (x\<lparr>frames := []\<rparr>)" "cur (pop_frame f s) = Some f"
    using s fib_pop [OF s(3)] ks by auto
  let ?s = "push_frame f (KRet r) (pop_frame f s)"
  have "sched_ok ?s"
    by (rule ok_frames [OF p y(2,1), where ks = "[KRet r]" and r = "ready x"]) (use y in \<open>auto simp: push_frame_def upd_def\<close>)
  then show ?thesis
    by (rule ok_Mutex_lock [where x = "x\<lparr>frames := [KRet r]\<rparr>" and m = m])
      (use t y KRelock in \<open>auto simp: exec_frame_def push_frame_def\<close>)
next
  case (KLock m)
  have p: "sched_ok (pop_frame f s)" by (rule ok_pop [OF s]) (simp add: KLock)
  have "frames_ok (KLock m # ks)" using running_ok [OF s(1,2)] s(3,4) KLock by (auto simp: stack_ok_def)
  then show ?thesis
    by (intro ok_Mutex_lock [OF p, where x = "x\<lparr>frames := ks\<rparr>" and m = m])
      (use t s fib_pop [OF s(3)] KLock in \<open>auto simp: exec_frame_def\<close>)
next
  case (KSleep n)
  then show ?thesis using ok_pop [OF s] t by (simp add: exec_frame_def)
next
  case (KWait q)
  have p: "sched_ok (pop_frame f s)" by (rule ok_pop [OF s]) (simp add: KWait)
  have "frames_ok (k # ks)" using running_ok [OF s(1,2)] s(3,4) by (auto simp: stack_ok_def)
  note fo = frames_ok_tl [OF this]
  have "sched_ok (upd f (\<lambda>x. x\<lparr>ready := True\<rparr>) (pop_frame f s))"
    by (rule upd_ready [OF p, where x = "x\<lparr>frames := ks\<rparr>"]) (use s fib_pop [OF s(3)] fo in auto)
  then show ?thesis using t KWait by (simp add: exec_frame_def)
next
  case (KRet b)
  have p: "sched_ok (pop_frame f s)" by (rule ok_pop [OF s]) (simp add: KRet)
  have "frames_ok (k # ks)" using running_ok [OF s(1,2)] s(3,4) by (auto simp: stack_ok_def)
  note fo = frames_ok_tl [OF this]
  have "sched_ok (upd f (\<lambda>x. x\<lparr>ready := b\<rparr>) (pop_frame f s))"
    by (rule upd_ready [OF p, where x = "x\<lparr>frames := ks\<rparr>"]) (use s fib_pop [OF s(3)] fo in auto)
  then show ?thesis using t KRet by (simp add: exec_frame_def)
qed

lemma ok_calls: "sched_ok s \<Longrightarrow> cur s = Some f \<Longrightarrow> fib s f = Some x \<Longrightarrow> frames x = [] \<Longrightarrow> calls f x s"
  using running_not_waiting [of s f x] by (simp add: calls_def)

lemma do_cmd_ok:
  assumes "sched_ok s" "do_cmd tick c s = Some t"
  shows "sched_ok t"
proof (cases "\<exists>f. c = Loop f")
  case True
  then show ?thesis using assms ok_Loop by (auto split: if_splits)
next
  case False
  then obtain f x where f: "cur s = Some f" "fib s f = Some x"
    using assms(2) by (cases c) (auto split: option.splits)
  show ?thesis
  proof (cases "frames x")
    case (Cons k ks)
    then have "exec_frame f k (ready x) (pop_frame f s) = Some t"
      using assms(2) f False by (cases c) (auto split: if_splits)
    then show ?thesis by (rule ok_frame_step [OF assms(1) f Cons])
  next
    case Nil
    note k = ok_calls [OF assms(1) f Nil]
    show ?thesis
    proof (cases c)
      case (Lock m)
      then show ?thesis using ok_Mutex_lock [OF assms(1) f, of m t] assms(2) f Nil by simp
    next
      case (TryLock m)
      then show ?thesis using assms f Nil by (auto simp: Mutex_try_lock_def ok_lock_flags)
    next
      case (Unlock m g)
      then show ?thesis using callsD(1) [OF calls_Mutex_unlock [OF k, of m g t]] assms(2) f Nil by (simp split: if_splits)
    next
      case (CvOne cv g)
      then show ?thesis using callsD(1) [OF calls_NotifyOne [OF k, of "CQ cv" g t]] assms(2) f Nil by simp
    next
      case (CvAll cv)
      then show ?thesis using callsD(1) [OF calls_NotifyAll [OF k, of "CQ cv" t]] assms(2) f Nil by simp
    qed (use assms f Nil False ok_Yield [OF assms(1) f Nil] ok_Sleep [OF assms(1) f Nil] ok_Cv_wait [OF k Nil] ok_Cv_wait_until [OF k Nil]
        ok_Spawn [OF assms(1)] ok_Join [OF assms(1) f Nil] ok_Detach [OF assms(1)] ok_Exit [OF assms(1) f Nil] in \<open>auto split: if_splits\<close>)
  qed
qed

lemma sched_new_ok: "sched_ok sched_new"
proof -
  have "fiber_ok sched_new f (fib sched_new f)" for f
    by (cases "f = 0") (simp_all add: sched_new_def FiberBase_new_def scheduled_def waits_ok_def joins_ok_def stack_ok_def deadline_def)
  then show ?thesis by (simp add: sched_ok_def lists_distinct_def) (simp add: sched_new_def scheduled_def)
qed

lemma do_cmds_ok: "sched_ok s \<Longrightarrow> do_cmds tick cs s = Some t \<Longrightarrow> sched_ok t"
  by (induction cs arbitrary: s) (auto simp: bind_eq_Some_conv dest: do_cmd_ok)

subsection \<open>Who waits for a mutex\<close>

definition frame_of :: "sched \<Rightarrow> nat \<Rightarrow> frame list" where
  "frame_of s g = (case fib s g of None \<Rightarrow> [] | Some y \<Rightarrow> frames y)"

text \<open>\<open>g\<close> will try to take the mutex \<open>m\<close> when it runs.\<close>

definition coming :: "sched \<Rightarrow> nat \<Rightarrow> nat \<Rightarrow> bool" where
  "coming s m g \<longleftrightarrow> KLock m \<in> set (frame_of s g) \<and> g \<notin> snd ` set (waiting s)"

definition locks_ok :: "sched \<Rightarrow> bool" where
  "locks_ok s \<longleftrightarrow> (\<forall>m. occupied s m \<longleftrightarrow> holder s m \<noteq> None) \<and>
     (\<forall>m f. (MQ m, f) \<in> set (waiting s) \<and> \<not> occupied s m \<longrightarrow> (\<exists>g. coming s m g))"

definition neutral :: "sched \<Rightarrow> sched \<Rightarrow> bool" where
  "neutral s t \<longleftrightarrow> occupied t = occupied s \<and> holder t = holder s \<and>
     (\<forall>m f. (MQ m, f) \<in> set (waiting t) \<longrightarrow> (MQ m, f) \<in> set (waiting s)) \<and> (\<forall>m g. coming s m g \<longrightarrow> coming t m g)"

lemma neutral_locks: "neutral s t \<Longrightarrow> locks_ok s \<Longrightarrow> locks_ok t"
  unfolding neutral_def locks_ok_def by metis

lemma neutral_trans: "neutral s t \<Longrightarrow> neutral t u \<Longrightarrow> neutral s u"
  by (auto simp: neutral_def)

lemma neutral_holder: "neutral s t \<Longrightarrow> holder t = holder s"
  by (simp add: neutral_def)

lemma neutral_sub:
  assumes "occupied t = occupied s" "holder t = holder s" "set (waiting t) \<subseteq> set (waiting s)"
    "\<And>m g. KLock m \<in> set (frame_of s g) \<Longrightarrow> KLock m \<in> set (frame_of t g)"
  shows "neutral s t"
  using assms by (auto simp: neutral_def coming_def)

lemma frame_of_fields [simp]:
  "frame_of (s\<lparr>squeue := a\<rparr>) = frame_of s" "frame_of (s\<lparr>sleep_list := b\<rparr>) = frame_of s" "frame_of (s\<lparr>cur := c\<rparr>) = frame_of s"
  "frame_of (s\<lparr>waiting := w\<rparr>) = frame_of s" "frame_of (s\<lparr>handles := h\<rparr>) = frame_of s" "frame_of (s\<lparr>clock := n\<rparr>) = frame_of s"
  "frame_of (s\<lparr>wrapped := w'\<rparr>) = frame_of s"
  "frame_of (s\<lparr>occupied := o1\<rparr>) = frame_of s" "frame_of (s\<lparr>holder := o2\<rparr>) = frame_of s"
  "frame_of (unlink g s) = frame_of s"
  by (simp_all add: frame_of_def fun_eq_iff)

lemma frame_of_upd [simp]:
  "frame_of (upd f (\<lambda>x. x\<lparr>status := v\<rparr>) s) = frame_of s" "frame_of (upd f (\<lambda>x. x\<lparr>ready := r\<rparr>) s) = frame_of s"
  "frame_of (upd f (\<lambda>x. x\<lparr>joining := j\<rparr>) s) = frame_of s" "frame_of (upd f (\<lambda>x. x\<lparr>thread_alive := b\<rparr>) s) = frame_of s"
  "frame_of (Suspend f s) = frame_of s"
  by (auto simp: frame_of_def upd_def Suspend_def fun_eq_iff split: option.splits)

lemma frame_of_push: "fib s f \<noteq> None \<Longrightarrow> frame_of (push_frame f k s) = (frame_of s)(f := k # frame_of s f)"
  by (auto simp: frame_of_def push_frame_def upd_def fun_eq_iff)

lemma frame_of_pop: "frame_of (pop_frame f s) = (frame_of s)(f := tl (frame_of s f))"
  by (auto simp: frame_of_def pop_frame_def upd_def fun_eq_iff split: option.splits)

lemma lock_fields [simp]:
  "occupied (Suspend f s) = occupied s" "holder (Suspend f s) = holder s" "waiting (Suspend f s) = waiting s" "fib (Suspend f s) h = None \<longleftrightarrow> fib s h = None"
  "occupied (push_frame f k s) = occupied s" "holder (push_frame f k s) = holder s" "waiting (push_frame f k s) = waiting s"
  "holder (unlink g s) = holder s" "fib (push_frame f k s) h = None \<longleftrightarrow> fib s h = None"
  by (simp_all add: Suspend_def push_frame_def unlink_def)

lemma Schedule_neutral: "Schedule f s = Some t \<Longrightarrow> frame_of t = frame_of s"
  by (auto simp: Schedule_def split: if_splits)

lemma ScheduleAndRemove_neutral:
  "ScheduleAndRemove g s = Some t \<Longrightarrow> frame_of t = frame_of s \<and> waiting t = waiting s \<and> occupied t = occupied s \<and> holder t = holder s"
  by (auto simp: ScheduleAndRemove_def Schedule_neutral Schedule_spec split: option.splits if_splits)

lemma schedule_all_neutral:
  "schedule_all fs s = Some t \<Longrightarrow> frame_of t = frame_of s \<and> waiting t = waiting s \<and> occupied t = occupied s \<and> holder t = holder s"
  by (induction fs arbitrary: s) (auto simp: bind_eq_Some_conv dest!: ScheduleAndRemove_neutral)

lemma NotifyOne_neutral: "NotifyOne q g s = Some t \<Longrightarrow> neutral s t"
  using set_remove1_subset [of "(q, g)" "waiting s"]
  by (intro neutral_sub) (auto simp: NotifyOne_def dest!: ScheduleAndRemove_neutral split: if_splits)

lemma NotifyAll_neutral: "NotifyAll q s = Some t \<Longrightarrow> neutral s t"
  by (intro neutral_sub) (auto simp: NotifyAll_def dest!: schedule_all_neutral)

lemma mq_waiter:
  assumes "sched_ok s" "(MQ m, g) \<in> set (waiting s)"
  shows "KLock m \<in> set (frame_of s g)"
proof -
  obtain x where x: "fib s g = Some x" "waits_ok s g x" "stack_ok s g x"
    using sched_okD(1) [OF assms(1), of g] assms(2) by (cases "fib s g") (auto simp: image_iff)
  have fo: "frames_ok (frames x)" using x(3) by (simp add: stack_ok_def)
  have nt: "KTimed (MQ m) n \<notin> set ks" if "frames_ok ks" for n ks
    using that by (induction ks rule: frames_ok.induct) (auto split: qid.splits)
  then have "\<exists>ks. frames x = KWait (MQ m) # ks" using x(2) assms(2) fo by (auto simp: waits_ok_def timed_on_def)
  then show ?thesis using fo x(1) by (auto simp: frame_of_def)
qed

lemma locks_unlock:
  assumes s: "sched_ok s" "locks_ok s" and t: "Mutex_unlock m g s = Some t"
  shows "locks_ok t \<and> holder t = (holder s)(m := None)"
proof -
  let ?s = "s\<lparr>occupied := (occupied s)(m := False), holder := (holder s)(m := None)\<rparr>"
  have n: "NotifyOne (MQ m) g ?s = Some t" using t by (simp add: Mutex_unlock_def)
  have u: "neutral ?s t" by (rule NotifyOne_neutral [OF n])
  have o: "(occupied t k \<longleftrightarrow> holder t k \<noteq> None)" for k using u s(2) by (auto simp: neutral_def locks_ok_def)
  have k: "\<exists>h. coming t k h" if w: "(MQ k, f) \<in> set (waiting t)" "\<not> occupied t k" for k f
  proof (cases "k = m")
    case False
    have "(MQ k, f) \<in> set (waiting s)" "\<not> occupied s k" using w u False by (auto simp: neutral_def)
    then obtain h where "coming s k h" using s(2) by (auto simp: locks_ok_def)
    then have "coming ?s k h" by (simp add: coming_def)
    then show ?thesis using u unfolding neutral_def by blast
  next
    case True
    have f: "(MQ m, f) \<in> set (waiting s)" using w(1) u True by (auto simp: neutral_def)
    then have ne: "waitq ?s (MQ m) \<noteq> []" using waitq_mem [of f ?s "MQ m"] by auto
    then have g: "(MQ m, g) \<in> set (waiting s)" "waiting t = remove1 (MQ m, g) (waiting s)" "frame_of t = frame_of s"
      using n waitq_mem [of g ?s "MQ m"] by (auto simp: NotifyOne_def dest!: ScheduleAndRemove_neutral split: if_splits)
    have d: "distinct (map snd (waiting s))" using sched_okD(2) [OF s(1)] by (simp add: lists_distinct_def)
    have "g \<notin> snd ` set (waiting t)" using wait_once [OF d g(1)] g(2) by auto
    then have "coming t m g" using mq_waiter [OF s(1) g(1)] g(3) by (simp add: coming_def)
    then show ?thesis using True by blast
  qed
  then show ?thesis using o u by (auto simp: locks_ok_def neutral_def)
qed

lemma locks_except:
  assumes "locks_ok s" "\<And>k. k \<noteq> m \<Longrightarrow> occupied t k = occupied s k \<and> holder t k = holder s k" "occupied t m" "holder t m \<noteq> None"
    and "\<And>k g. k \<noteq> m \<Longrightarrow> (MQ k, g) \<in> set (waiting t) \<Longrightarrow> (MQ k, g) \<in> set (waiting s)"
    and "\<And>k g. k \<noteq> m \<Longrightarrow> coming s k g \<Longrightarrow> coming t k g"
  shows "locks_ok t"
proof -
  have "occupied t k \<longleftrightarrow> holder t k \<noteq> None" for k using assms(1-4) by (cases "k = m") (auto simp: locks_ok_def)
  moreover have "\<exists>h. coming t k h" if w: "(MQ k, f) \<in> set (waiting t)" "\<not> occupied t k" for k f
  proof -
    have "k \<noteq> m" using w(2) assms(3) by auto
    moreover obtain h where "coming s k h" using assms(1) assms(2,5) [OF calculation] w unfolding locks_ok_def by blast
    ultimately show ?thesis using assms(6) by blast
  qed
  ultimately show ?thesis unfolding locks_ok_def by blast
qed

text \<open>A fiber takes a mutex or waits for it.\<close>

lemma locks_lock:
  assumes s: "locks_ok s'" "occupied s' = occupied s" "holder s' = holder s" "waiting s' = waiting s"
    and x: "fib s f = Some x" and o: "\<And>g. g \<noteq> f \<Longrightarrow> frame_of s' g = frame_of s g" "\<And>k. KLock k \<in> set (frame_of s' f) \<Longrightarrow> k = m"
    and t: "Mutex_lock m f s = Some t"
  shows "locks_ok t \<and> (holder t = holder s \<or> occupied s m = False \<and> holder t = (holder s)(m := Some f))"
proof (cases "occupied s m")
  case False
  then have t: "t = s\<lparr>occupied := (occupied s)(m := True), holder := (holder s)(m := Some f)\<rparr>" using t by (simp add: Mutex_lock_def)
  have "coming t k g" if "coming s' k g" "k \<noteq> m" for k g
    using that o s(4) t by (cases "g = f") (auto simp: coming_def)
  then have "locks_ok t" by (intro locks_except [OF s(1), of m]) (use s t in auto)
  then show ?thesis using t False by simp
next
  case True
  then have w: "waiting t = waiting s @ [(MQ m, f)]" "frame_of t = (frame_of s)(f := KWait (MQ m) # KLock m # frame_of s f)"
    "occupied t = occupied s" "holder t = holder s"
    using t x by (auto simp: Mutex_lock_def Queue_Wait_def push_wait_def frame_of_push split: if_splits)
  have "coming t k g" if "coming s' k g" "k \<noteq> m" for k g
    using that o s(4) w by (cases "g = f") (auto simp: coming_def)
  moreover have "holder s m \<noteq> None" using s True by (simp add: locks_ok_def)
  ultimately have "locks_ok t" by (intro locks_except [OF s(1), of m]) (use s w True in auto)
  then show ?thesis using w by simp
qed

lemma locks_lock_holder:
  assumes "locks_ok t \<and> (holder t = holder s \<or> occupied s m = False \<and> holder t = (holder s)(m := Some f))"
    and "occupied s m \<longleftrightarrow> holder s m \<noteq> None"
  shows "locks_ok t \<and> (\<forall>k g. holder s k = Some g \<longrightarrow> holder t k = Some g)"
  using assms(1)
proof (elim conjE disjE)
  assume "locks_ok t" "holder t = (holder s)(m := Some f)" "occupied s m = False"
  moreover have "holder s m = None" using assms(2) calculation(3) by simp
  ultimately show ?thesis by (metis fun_upd_apply option.simps(3))
qed simp

text \<open>A fiber without a lock to take waits in a queue of a condition variable.\<close>

lemma neutral_wait:
  assumes "\<And>m. KLock m \<notin> set (frame_of s f)" "occupied t = occupied s" "holder t = holder s"
    and "\<And>g. g \<noteq> f \<Longrightarrow> frame_of t g = frame_of s g" "waiting t = waiting s \<or> waiting t = waiting s @ [(CQ c, f)]"
  shows "neutral s t"
proof -
  have "coming t m g" if "coming s m g" for m g
  proof -
    have "g \<noteq> f" using that assms(1) by (auto simp: coming_def)
    then show ?thesis using that assms(4,5) by (auto simp: coming_def)
  qed
  then show ?thesis using assms by (auto simp: neutral_def)
qed

lemma Queue_Wait_neutral:
  assumes "Queue_Wait (CQ c) f s = Some t" "\<And>m. KLock m \<notin> set (frame_of s f)" "fib s f \<noteq> None"
  shows "neutral s t"
  by (rule neutral_wait [OF assms(2), where c = c])
    (use assms in \<open>auto simp: Queue_Wait_def push_wait_def frame_of_push split: if_splits\<close>)

lemma Sleep_neutral:
  assumes "Sleep n f s = Some t" "fib s f \<noteq> None"
  shows "occupied t = occupied s \<and> holder t = holder s \<and> waiting t = waiting s \<and> (\<forall>g. g \<noteq> f \<longrightarrow> frame_of t g = frame_of s g)"
  using assms by (auto simp: Sleep_def frame_of_push split: if_splits)

lemma Queue_Wait_until_neutral:
  assumes "Queue_Wait_until (CQ c) ns r f s = Some t" "\<And>m. KLock m \<notin> set (frame_of s f)" "fib s f \<noteq> None"
  shows "neutral s t"
proof (rule neutral_wait [OF assms(2), where c = c])
  obtain u where u: "push_wait (CQ c) f s = Some u"
    and t: "Sleep (word_of_int ns + r) f (push_frame f (KPre (word_of_int ns + r)) (push_frame f (KTimed (CQ c) (ns + uint r)) u)) = Some t"
    using assms(1) by (auto simp: Queue_Wait_until_def SleepPreemptive_def Let_def bind_eq_Some_conv)
  have uf: "u = s\<lparr>waiting := waiting s @ [(CQ c, f)]\<rparr>" using u by (auto simp: push_wait_def split: if_splits)
  have "fib u f \<noteq> None" using uf assms(3) by simp
  then show "occupied t = occupied s" "holder t = holder s" "waiting t = waiting s \<or> waiting t = waiting s @ [(CQ c, f)]"
    "g \<noteq> f \<Longrightarrow> frame_of t g = frame_of s g" for g
    using Sleep_neutral [OF t] uf assms(3) by (simp_all add: frame_of_push)
qed

lemma delete_neutral: "frame_of s t = [] \<Longrightarrow> neutral s (delete_fiber t s)"
  by (intro neutral_sub) (auto simp: delete_fiber_def frame_of_def split: if_splits option.splits)

lemma AfterJoinOrDetach_neutral:
  assumes "AfterJoinOrDetach t s = Some u" "sched_ok s"
  shows "neutral s u"
proof -
  obtain x where x: "fib s t = Some x" using assms(1) by (auto simp: AfterJoinOrDetach_def split: option.splits)
  have "stack_ok s t x" using sched_okD(1) [OF assms(2), of t] x by simp
  then have "status x = Completed \<Longrightarrow> frame_of s t = []" using x by (simp add: stack_ok_def frame_of_def)
  moreover have "neutral s (upd t (\<lambda>x. x\<lparr>thread_alive := False\<rparr>) s)" by (rule neutral_sub) auto
  ultimately show ?thesis using assms(1) x delete_neutral [of s t] by (auto simp: AfterJoinOrDetach_def)
qed

lemma Thread_join_neutral:
  assumes "Thread_join t f s = Some u" "sched_ok s" "fib s f \<noteq> None"
  shows "neutral s u"
proof -
  obtain x where x: "fib s t = Some x" using assms(1) by (auto simp: Thread_join_def split: option.splits)
  let ?s = "upd t (\<lambda>x. x\<lparr>joining := Some f\<rparr>) s"
  have "fib ?s f \<noteq> None" using assms(3) by auto
  then have "neutral s (Suspend f (push_frame f (KJoin t) ?s))"
    by (intro neutral_sub) (auto simp: frame_of_push)
  then show ?thesis using assms(1,2) x AfterJoinOrDetach_neutral [of t s u] by (auto simp: Thread_join_def split: if_splits)
qed

lemma Exit_neutral:
  assumes "FiberBase_Exit f s = Some t" "frame_of s f = []"
  shows "neutral s t"
proof -
  let ?u = "upd f (\<lambda>x. x\<lparr>status := Completed\<rparr>) (s\<lparr>cur := None\<rparr>)"
  obtain x u where "fib s f = Some x" and u: "u = ?u \<or> (\<exists>j. Schedule j ?u = Some u)"
    and t: "t = (if \<not> thread_alive x then delete_fiber f u else u)"
    using assms(1) by (force simp: FiberBase_Exit_def Let_def bind_eq_Some_conv split: option.splits if_splits)
  have x: "frame_of u = frame_of s" "waiting u = waiting s" "occupied u = occupied s" "holder u = holder s"
    using u Schedule_neutral [of _ ?u u] Schedule_spec(8,10,11) [of _ ?u u] by auto
  have "neutral s u" by (rule neutral_sub) (use x in auto)
  then show ?thesis using neutral_trans [OF _ delete_neutral [of u f]] x t assms(2) by auto
qed

lemma Spawn_neutral:
  assumes "Thread_new t s = Some u"
  shows "neutral s u"
proof -
  let ?s = "s\<lparr>fib := (fib s)(t := Some FiberBase_new), handles := t # handles s\<rparr>"
  have n: "fib s t = None" "Schedule t ?s = Some u" using assms by (auto simp: Thread_new_def split: if_splits)
  have "frame_of ?s = frame_of s" using n(1) by (auto simp: frame_of_def FiberBase_new_def fun_eq_iff)
  then show ?thesis by (intro neutral_sub) (use Schedule_neutral [OF n(2)] Schedule_spec [OF n(2)] in auto)
qed

lemma Loop_neutral:
  assumes "RunLoop_turn tick f s = Some t"
  shows "neutral s t"
proof -
  obtain u where w: "RunLoop_wake s = Some u" and r: "Resume f (TickTime tick (u\<lparr>squeue := remove1 f (squeue u)\<rparr>)) = Some t"
    using assms by (auto simp: RunLoop_turn_def bind_eq_Some_conv split: if_splits)
  note W = RunLoop_wake_spec [OF w]
  have "frame_of u = frame_of s" using W by (simp add: frame_of_def fun_eq_iff)
  then show ?thesis by (intro neutral_sub) (use r W in \<open>auto simp: Resume_def TickTime_def split: option.splits if_splits\<close>)
qed

lemma pop_neutral:
  assumes "frame_of s f = k # ks" "\<And>m. k \<noteq> KLock m"
  shows "neutral s (pop_frame f s)"
proof (rule neutral_sub)
  show "KLock m \<in> set (frame_of (pop_frame f s) g)" if "KLock m \<in> set (frame_of s g)" for m g
    using that assms(1) assms(2) [of m] by (auto simp: frame_of_pop)
qed simp_all

lemma frame_locks:
  assumes s: "sched_ok s" "locks_ok s" "cur s = Some f" "fib s f = Some x" "frames x = k # ks"
    and t: "exec_frame f k r (pop_frame f s) = Some t"
  shows "locks_ok t \<and> (\<forall>m g. holder s m = Some g \<longrightarrow> holder t m = Some g)"
proof -
  have so: "frames_ok (k # ks)" using running_ok [OF s(1,3)] s(4,5) by (auto simp: stack_ok_def)
  have fo: "frame_of s f = k # ks" using s(4,5) by (simp add: frame_of_def)
  have pf: "fib (pop_frame f s) f \<noteq> None" using fib_pop [OF s(4)] by simp
  let ?p = "pop_frame f s"
  have fin: ?thesis if "neutral s t" using neutral_locks [OF that s(2)] neutral_holder [OF that] by simp
  have lock: ?thesis
    if u: "fib u f \<noteq> None" "occupied u = occupied s" "holder u = holder s" "waiting u = waiting s" "\<And>g. g \<noteq> f \<Longrightarrow> frame_of u g = frame_of s g"
      and m: "Mutex_lock m f u = Some t" "\<And>j. KLock j \<in> set (k # ks) \<Longrightarrow> j = m" for u m
  proof -
    obtain y where y: "fib u f = Some y" using u(1) by blast
    have "locks_ok t \<and> (holder t = holder u \<or> occupied u m = False \<and> holder t = (holder u)(m := Some f))"
    proof (rule locks_lock [OF s(2) u(2-4) [symmetric] y _ _ m(1)])
      show "j = m" if "KLock j \<in> set (frame_of s f)" for j using that m(2) [of j] fo by simp
      show "frame_of s g = frame_of u g" if "g \<noteq> f" for g using u(5) [OF that] by simp
    qed
    moreover have "occupied u m \<longleftrightarrow> holder u m \<noteq> None" using s(2) unfolding u(2,3) locks_ok_def by blast
    ultimately show ?thesis using locks_lock_holder [of t u m f] unfolding u(3) by blast
  qed
  have p: "neutral s ?p" if "\<And>m. k \<noteq> KLock m" by (rule pop_neutral [OF fo that])
  show ?thesis
  proof (cases k)
    case (KLock m)
    show ?thesis
    proof (rule lock [OF pf, of m])
      show "Mutex_lock m f ?p = Some t" using t KLock by (simp add: exec_frame_def)
      show "j = m" if "KLock j \<in> set (k # ks)" for j using that so KLock by auto
    qed (simp_all add: frame_of_pop)
  next
    case (KRelock m)
    have "fib (push_frame f (KRet r) ?p) f \<noteq> None" using pf by (simp add: push_frame_def)
    then show ?thesis
    proof (rule lock [of _ m])
      show "Mutex_lock m f (push_frame f (KRet r) ?p) = Some t" using t KRelock by (simp add: exec_frame_def)
      show "j = m" if "KLock j \<in> set (k # ks)" for j using that so KRelock by simp
      show "frame_of (push_frame f (KRet r) ?p) g = frame_of s g" if "g \<noteq> f" for g
        using that pf by (simp add: frame_of_push frame_of_pop)
    qed simp_all
  next
    case (KTimed q n)
    have "neutral ?p t"
      by (rule neutral_sub) (use t KTimed in \<open>auto simp: exec_frame_def Queue_Wait_until_end_def Let_def dest: subsetD [OF set_remove1_subset]\<close>)
    then show ?thesis using fin neutral_trans [OF p] KTimed by simp
  next
    case (KPre n)
    have "sorted_wrt (<) (map fst (sleep_list ?p))" using sched_okD(2) [OF s(1)] by (simp add: lists_distinct_def)
    note e = SleepPreemptive_end_fields [OF _ this, of n t]
    have "neutral ?p t"
      by (rule neutral_sub) (use t KPre e in \<open>auto simp: exec_frame_def frame_of_def\<close>)
    then show ?thesis using fin neutral_trans [OF p] KPre by simp
  next
    case (KJoin j)
    have "sched_ok ?p" by (rule ok_pop [OF s(1,3-5)]) (simp add: KJoin)
    then have "neutral ?p t" using Thread_join_neutral [of j f ?p t] t KJoin pf by (simp add: exec_frame_def)
    then show ?thesis using fin neutral_trans [OF p] KJoin by simp
  next
    case (KSleep n)
    then show ?thesis using fin p t by (simp add: exec_frame_def)
  next
    case (KWait q)
    have "neutral ?p t" by (rule neutral_sub) (use t KWait in \<open>auto simp: exec_frame_def\<close>)
    then show ?thesis using fin neutral_trans [OF p] KWait by simp
  next
    case (KRet b)
    have "neutral ?p t" by (rule neutral_sub) (use t KRet in \<open>auto simp: exec_frame_def\<close>)
    then show ?thesis using fin neutral_trans [OF p] KRet by simp
  qed
qed

text \<open>The commands by which the holder of a mutex gives it back.\<close>

definition releases :: "cmd \<Rightarrow> nat \<Rightarrow> bool" where
  "releases c m \<longleftrightarrow> (case c of Unlock k g \<Rightarrow> k = m | Wait cv k g \<Rightarrow> k = m | WaitUntil cv k g ns r \<Rightarrow> k = m | _ \<Rightarrow> False)"

lemma do_cmd_locks:
  assumes s: "sched_ok s" "locks_ok s" and t: "do_cmd tick c s = Some t"
  shows "locks_ok t \<and> (\<forall>m g. holder s m = Some g \<longrightarrow> holder t m = Some g \<or> cur s = Some g \<and> releases c m)"
proof -
  have fin: ?thesis if "neutral s t" using neutral_locks [OF that s(2)] neutral_holder [OF that] by simp
  show ?thesis
  proof (cases "\<exists>f. c = Loop f")
    case True
    then show ?thesis using fin t Loop_neutral by (auto split: if_splits)
  next
    case False
    then obtain f x where f: "cur s = Some f" "fib s f = Some x"
      using t by (cases c) (auto split: option.splits)
    show ?thesis
    proof (cases "frames x")
      case (Cons k ks)
      then have "exec_frame f k (ready x) (pop_frame f s) = Some t"
        using t f False by (cases c) (auto split: if_splits)
      then show ?thesis using frame_locks [OF s f Cons] by blast
    next
      case Nil
      have fo: "frame_of s f = []" using f Nil by (simp add: frame_of_def)
      have nf: "fib s f \<noteq> None" using f by simp
      have cv: ?thesis
        if "holder s m = Some f" "Mutex_unlock m g s = Some u" "neutral (push_frame f (KRelock m) u) t" "releases c m" for m g u
      proof -
        note l = locks_unlock [OF s that(2)]
        have "fib u f \<noteq> None" using callsD(3) [OF calls_Mutex_unlock [OF ok_calls [OF s(1) f Nil] that(2)]] by simp
        then have "neutral u (push_frame f (KRelock m) u)" by (intro neutral_sub) (auto simp: frame_of_push)
        note n = neutral_trans [OF this that(3)]
        show ?thesis using neutral_locks [OF n] neutral_holder [OF n] l that(1,4) f(1) by auto
      qed
      have fr: "frame_of (push_frame f (KRelock m) u) f = [KRelock m] \<and> fib (push_frame f (KRelock m) u) f \<noteq> None"
        if "Mutex_unlock m g s = Some u" for m g u
      proof -
        have "fib u f = Some x" using callsD(3) [OF calls_Mutex_unlock [OF ok_calls [OF s(1) f Nil] that]] .
        then show ?thesis using Nil by (simp add: frame_of_def push_frame_def)
      qed
      show ?thesis
      proof (cases c)
        case (Lock m)
        have "locks_ok t \<and> (holder t = holder s \<or> occupied s m = False \<and> holder t = (holder s)(m := Some f))"
          by (rule locks_lock [OF s(2) _ _ _ f(2)]) (use t f Nil Lock fo in auto)
        moreover have "occupied s m \<longleftrightarrow> holder s m \<noteq> None" using s(2) by (simp add: locks_ok_def)
        ultimately show ?thesis using locks_lock_holder [of t s m f] by blast
      next
        case (TryLock m)
        then have e: "t = snd (Mutex_try_lock m f s)" using t f Nil by simp
        show ?thesis
        proof (cases "occupied s m")
          case True
          then show ?thesis using e s(2) by (simp add: Mutex_try_lock_def)
        next
          case False
          then have "Mutex_lock m f s = Some t" using e by (simp add: Mutex_lock_def Mutex_try_lock_def)
          then have "locks_ok t \<and> (holder t = holder s \<or> occupied s m = False \<and> holder t = (holder s)(m := Some f))"
            by (rule locks_lock [OF s(2) _ _ _ f(2), rotated -1]) (use fo in auto)
          moreover have "occupied s m \<longleftrightarrow> holder s m \<noteq> None" using s(2) by (simp add: locks_ok_def)
          ultimately show ?thesis using locks_lock_holder [of t s m f] by blast
        qed
      next
        case (Unlock m g)
        then show ?thesis using locks_unlock [OF s, of m g t] t f Nil by (auto simp: releases_def split: if_splits)
      next
        case (Wait c' m g)
        then obtain u where u: "holder s m = Some f" "Mutex_unlock m g s = Some u" "Queue_Wait (CQ c') f (push_frame f (KRelock m) u) = Some t"
          using t f Nil by (auto simp: Cv_wait_def bind_eq_Some_conv split: if_splits)
        show ?thesis
          by (rule cv [OF u(1,2) Queue_Wait_neutral [OF u(3)]]) (use fr [OF u(2)] Wait in \<open>auto simp: releases_def\<close>)
      next
        case (WaitUntil c' m g ns r)
        then obtain u where u: "holder s m = Some f" "Mutex_unlock m g s = Some u"
          "Queue_Wait_until (CQ c') ns r f (push_frame f (KRelock m) u) = Some t"
          using t f Nil by (auto simp: Cv_wait_until_def bind_eq_Some_conv split: if_splits)
        show ?thesis
          by (rule cv [OF u(1,2) Queue_Wait_until_neutral [OF u(3)]]) (use fr [OF u(2)] WaitUntil in \<open>auto simp: releases_def\<close>)
      next
        case (SleepUntil n)
        have e: "Sleep (word_of_int n) f s = Some t" using t f Nil SleepUntil by simp
        have "neutral s t"
          by (rule neutral_wait [where f = f]) (use Sleep_neutral [OF e nf] fo in auto)
        then show ?thesis by (rule fin)
      next
        case (Join j)
        then have h: "j \<in> set (handles s)" "Thread_join j f (s\<lparr>handles := remove1 j (handles s)\<rparr>) = Some t"
          using t f Nil by (auto split: if_splits)
        have "neutral s (s\<lparr>handles := remove1 j (handles s)\<rparr>)" by (rule neutral_sub) auto
        then show ?thesis using fin neutral_trans Thread_join_neutral [OF h(2) ok_handles(1) [OF s(1) h(1)]] nf by simp
      next
        case (Detach j)
        then have h: "j \<in> set (handles s)" "AfterJoinOrDetach j (s\<lparr>handles := remove1 j (handles s)\<rparr>) = Some t"
          using t f Nil by (auto split: if_splits)
        have "neutral s (s\<lparr>handles := remove1 j (handles s)\<rparr>)" by (rule neutral_sub) auto
        then show ?thesis using fin neutral_trans AfterJoinOrDetach_neutral [OF h(2) ok_handles(1) [OF s(1) h(1)]] by simp
      next
        case Yield
        then have "RescheduleCurrent s = Some t" using t f Nil by simp
        then have "neutral s t" by (intro neutral_sub) (auto simp: RescheduleCurrent_def split: option.splits if_splits)
        then show ?thesis by (rule fin)
      qed (use fin t f Nil False fo NotifyOne_neutral NotifyAll_neutral Spawn_neutral Exit_neutral in \<open>auto split: if_splits\<close>)
    qed
  qed
qed

lemma do_cmds_locks: "sched_ok s \<Longrightarrow> locks_ok s \<Longrightarrow> do_cmds tick cs s = Some t \<Longrightarrow> locks_ok t"
  by (induction cs arbitrary: s) (auto simp: bind_eq_Some_conv dest: do_cmd_ok do_cmd_locks)

lemma sched_new_locks: "locks_ok sched_new"
  by (simp add: locks_ok_def sched_new_def)

lemma reach_ok: "do_cmds tick cs sched_new = Some s \<Longrightarrow> sched_ok s \<and> locks_ok s"
  using do_cmds_ok [OF sched_new_ok] do_cmds_locks [OF sched_new_ok sched_new_locks] by blast

subsection \<open>Calls that never fail\<close>

lemma wake_defined:
  assumes "sched_ok s" "(q, g) \<in> set (waiting s)"
  shows "ScheduleAndRemove g (s\<lparr>waiting := w\<rparr>) \<noteq> None"
proof -
  have "fib s g \<noteq> None" using sched_okD(1) [OF assms(1), of g] assms(2) by (cases "fib s g") (auto simp: image_iff)
  moreover have "distinct (scheduled (s\<lparr>waiting := w\<rparr>))"
    using sched_okD(2) [OF assms(1)] by (simp add: lists_distinct_def scheduled_def)
  note unlink_scheduled(2) [OF this, of g]
  ultimately show ?thesis by (auto simp: ScheduleAndRemove_def Schedule_def split: option.splits)
qed

lemma NotifyOne_defined:
  assumes "sched_ok s" "waitq s q = [] \<or> g \<in> set (waitq s q)"
  shows "NotifyOne q g s \<noteq> None"
  using assms(2) wake_defined [OF assms(1), of q g] by (auto simp: NotifyOne_def waitq_mem)

lemma schedule_all_defined:
  assumes "calls f x s" "distinct gs" "set gs = {g. (q, g) \<in> set (waiting s)}"
  shows "schedule_all gs (s\<lparr>waiting := filter (\<lambda>(k, f). k \<noteq> q) (waiting s)\<rparr>) \<noteq> None"
  using assms
proof (induction gs arbitrary: s)
  case (Cons g gs)
  let ?w = "filter (\<lambda>(k, f). k \<noteq> q) (waiting s)" and ?r = "remove1 (q, g) (waiting s)"
  have g: "(q, g) \<in> set (waiting s)" using Cons.prems(3) by auto
  have d: "distinct (map snd (waiting s))"
    using sched_okD(2) [OF callsD(1) [OF Cons.prems(1)]] by (simp add: lists_distinct_def)
  obtain v where v: "ScheduleAndRemove g s = Some v"
    using wake_defined [OF callsD(1) [OF Cons.prems(1)] g, of "waiting s"] by auto
  have "ScheduleAndRemove g (s\<lparr>waiting := ?r\<rparr>) = Some (v\<lparr>waiting := ?r\<rparr>)"
    using v ScheduleAndRemove_waiting [of g ?r s] by simp
  then have c: "calls f x (v\<lparr>waiting := ?r\<rparr>)" using calls_wake [OF Cons.prems(1) g] by blast
  have "set gs = {h. (q, h) \<in> set ?r}"
  proof -
    have "(q, h) \<in> set ?r \<longleftrightarrow> (q, h) \<in> set (waiting s) \<and> h \<noteq> g" for h
      using d by (auto simp: distinct_map)
    then show ?thesis using Cons.prems(2,3) by auto
  qed
  then have "schedule_all gs (v\<lparr>waiting := ?r, waiting := filter (\<lambda>(k, f). k \<noteq> q) ?r\<rparr>) \<noteq> None"
    using Cons.IH [OF c] Cons.prems(2) by simp
  then show ?case using v ScheduleAndRemove_waiting [of g ?w s] by (simp add: filter_remove1_other)
qed simp

lemma NotifyAll_defined:
  assumes "calls f x s"
  shows "NotifyAll q s \<noteq> None"
  unfolding NotifyAll_def
proof (rule schedule_all_defined [OF assms])
  have d: "distinct (map snd (waiting s))"
    using sched_okD(2) [OF callsD(1) [OF assms]] by (simp add: lists_distinct_def)
  then show "distinct (rev (waitq s q))" by (simp add: waitq_def distinct_map_filter)
qed (auto simp: waitq_mem [symmetric])

lemma Mutex_lock_defined:
  assumes "f \<notin> snd ` set (waiting s)"
  shows "Mutex_lock m f s \<noteq> None"
  using assms by (simp add: Mutex_lock_def Queue_Wait_def push_wait_def)

lemma Exit_defined:
  assumes "sched_ok s" "cur s = Some f"
  shows "FiberBase_Exit f s \<noteq> None"
proof -
  obtain x where x: "fib s f = Some x" "joins_ok s f x" "status x = Running" using running_ok [OF assms] by blast
  let ?u = "upd f (\<lambda>x. x\<lparr>status := Completed\<rparr>) (s\<lparr>cur := None\<rparr>)"
  have "Schedule j ?u \<noteq> None" if "joining x = Some j" for j
  proof -
    have "awaits s j f" using x that by (auto simp: joins_ok_def)
    then have "j \<notin> set (scheduled ?u)" "fib ?u j \<noteq> None" by (auto simp: awaits_def scheduled_def)
    then show ?thesis by (simp add: Schedule_def)
  qed
  then show ?thesis using x(1) by (auto simp: FiberBase_Exit_def Let_def split: option.splits)
qed

lemma frame_defined:
  assumes s: "sched_ok s" "cur s = Some f" "fib s f = Some x" "frames x = k # ks" and k: "\<And>n. k \<noteq> KPre n"
  shows "exec_frame f k r (pop_frame f s) \<noteq> None"
proof -
  have so: "frames_ok (k # ks)" "\<And>t. k = KJoin t \<Longrightarrow> joined s t f"
    using running_ok [OF s(1,2)] s(3,4) by (auto simp: stack_ok_def)
  have w: "f \<notin> snd ` set (waiting s)" if "\<And>q n. KTimed q n \<notin> set (k # ks)"
    by (rule running_not_waiting [OF s(1-3)]) (use that s(4) in \<open>auto simp: timed_on_def\<close>)
  show ?thesis
  proof (cases k)
    case (KLock m)
    then show ?thesis using Mutex_lock_defined w so(1) by (auto simp: exec_frame_def)
  next
    case (KRelock m)
    then show ?thesis using Mutex_lock_defined w so(1) by (simp add: exec_frame_def)
  next
    case (KJoin t)
    then obtain y where "fib s t = Some y" using so(2) by (auto simp: joined_def)
    then have "fib (pop_frame f s) t \<noteq> None" by (auto simp: pop_frame_def)
    then show ?thesis using KJoin by (auto simp: exec_frame_def Thread_join_def AfterJoinOrDetach_def)
  qed (use k in \<open>auto simp: exec_frame_def\<close>)
qed

subsection \<open>Properties\<close>

text \<open>A fiber that has not ended runs, will run, waits in a queue, or waits for a fiber that has not ended.\<close>

lemma fiber_somewhere:
  assumes "sched_ok s" "fib s f = Some x" "status x \<noteq> Completed" "cur s \<noteq> Some f" "f \<notin> set (scheduled s)"
  shows "(\<exists>q. (q, f) \<in> set (waiting s)) \<or> (\<exists>t. join_link s t f)"
  using sched_okD(1) [OF assms(1), of f] assms(2-5) by (cases "status x") (auto simp: blocked_def)

lemma loop_defined:
  assumes ok: "sched_ok s" and c: "cur s = None"
  shows "squeue s \<noteq> [] \<or> (\<exists>n fs sl. sleep_list s = (n, fs) # sl \<and> fs \<noteq> []) \<Longrightarrow> \<exists>u. RunLoop_wake s = Some u \<and> squeue u \<noteq> []"
    and "RunLoop_wake s = Some u \<Longrightarrow> f \<in> set (squeue u) \<Longrightarrow> do_cmd tick (Loop f) s \<noteq> None"
proof -
  show "\<exists>u. RunLoop_wake s = Some u \<and> squeue u \<noteq> []"
    if q: "squeue s \<noteq> [] \<or> (\<exists>n fs sl. sleep_list s = (n, fs) # sl \<and> fs \<noteq> [])"
  proof (cases "squeue s = []")
    case False
    then show ?thesis by (simp add: RunLoop_wake_def WakeUpNeeded_def)
  next
    case True
    then obtain n fs sl where sl: "sleep_list s = (n, fs) # sl" "fs \<noteq> []" using q by blast
    have "\<not> clock s < n" if "\<not> clock s \<le> n" using that by simp
    then show ?thesis using True sl by (cases "clock s \<le> n") (simp_all add: RunLoop_wake_def AdvanceTime_def WakeUpNeeded_def)
  qed
  show "do_cmd tick (Loop f) s \<noteq> None" if u: "RunLoop_wake s = Some u" "f \<in> set (squeue u)"
  proof -
    note W = RunLoop_wake_spec [OF u(1)]
    have "f \<in> set (scheduled s)" using W(1) u(2) by (metis Un_iff scheduled_def set_append)
    then have "fib s f \<noteq> None" using sched_okD(1) [OF ok, of f] by (cases "fib s f") auto
    then have "RunLoop_turn tick f s \<noteq> None"
      using u W(5) by (auto simp: RunLoop_turn_def Resume_def TickTime_def split: option.splits)
    then show ?thesis using c by simp
  qed
qed

text \<open>
  What the interfaces ask for: the fiber that unlocks, or waits, has the mutex, a new fiber has a new number, a thread object is
  joined or detached once and not by the fiber itself. A random choice is one of the fibers of the queue.
\<close>

definition choice :: "sched \<Rightarrow> qid \<Rightarrow> nat \<Rightarrow> bool" where
  "choice s q g \<longleftrightarrow> waitq s q = [] \<or> g \<in> set (waitq s q)"

fun may_call :: "sched \<Rightarrow> nat \<Rightarrow> cmd \<Rightarrow> bool" where
  "may_call s f (Loop g) \<longleftrightarrow> False"
| "may_call s f Frame \<longleftrightarrow> False"
| "may_call s f (Unlock m g) \<longleftrightarrow> holder s m = Some f \<and> choice s (MQ m) g"
| "may_call s f (Wait cv m g) \<longleftrightarrow> holder s m = Some f \<and> choice s (MQ m) g"
| "may_call s f (WaitUntil cv m g ns r) \<longleftrightarrow> holder s m = Some f \<and> choice s (MQ m) g"
| "may_call s f (CvOne cv g) \<longleftrightarrow> choice s (CQ cv) g"
| "may_call s f (Spawn t) \<longleftrightarrow> fib s t = None \<and> t \<notin> set (deleted s)"
| "may_call s f (Join t) \<longleftrightarrow> t \<in> set (handles s) \<and> t \<noteq> f"
| "may_call s f (Detach t) \<longleftrightarrow> t \<in> set (handles s) \<and> t \<noteq> f"
| "may_call s f c \<longleftrightarrow> True"

lemma Mutex_unlock_defined:
  assumes ok: "sched_ok s" and g: "choice s (MQ m) g"
  shows "Mutex_unlock m g s \<noteq> None"
proof -
  let ?s = "s\<lparr>occupied := (occupied s)(m := False), holder := (holder s)(m := None)\<rparr>"
  have "sched_ok ?s" using ok by (simp add: ok_lock_flags)
  moreover have "choice ?s (MQ m) g" using g by (simp add: choice_def waitq_def)
  ultimately show ?thesis using NotifyOne_defined [of ?s "MQ m" g] by (simp add: Mutex_unlock_def choice_def)
qed

lemma Cv_wait_defined:
  assumes k: "calls f x s" and g: "choice s (MQ m) g"
  shows "Cv_wait c m g f s \<noteq> None" "Cv_wait_until c m g ns r f s \<noteq> None"
proof -
  obtain u where u: "Mutex_unlock m g s = Some u" using Mutex_unlock_defined [OF callsD(1) [OF k] g] by blast
  note C = callsD [OF calls_Mutex_unlock [OF k u]]
  have "f \<notin> snd ` set (waiting u)" by (rule C(4))
  moreover have "f \<notin> set (scheduled u)" using running_ok [OF C(1,2)] by blast
  ultimately show "Cv_wait c m g f s \<noteq> None" "Cv_wait_until c m g ns r f s \<noteq> None"
    by (simp_all add: Cv_wait_def Cv_wait_until_def u Queue_Wait_def Queue_Wait_until_def SleepPreemptive_def Sleep_def push_wait_def
        push_frame_def scheduled_def Let_def)
qed

lemma handles_defined:
  assumes ok: "sched_ok s" and t: "t \<in> set (handles s)"
  shows "Thread_join t f (s\<lparr>handles := hs\<rparr>) \<noteq> None" "AfterJoinOrDetach t (s\<lparr>handles := hs\<rparr>) \<noteq> None"
proof -
  obtain y where "fib s t = Some y" using sched_okD(1) [OF ok, of t] t by (cases "fib s t") auto
  then show "Thread_join t f (s\<lparr>handles := hs\<rparr>) \<noteq> None" "AfterJoinOrDetach t (s\<lparr>handles := hs\<rparr>) \<noteq> None"
    by (simp_all add: Thread_join_def AfterJoinOrDetach_def)
qed

lemma call_defined:
  assumes ok: "sched_ok s" and f: "cur s = Some f" "fib s f = Some x" "frames x = []" and c: "may_call s f c"
  shows "do_cmd tick c s \<noteq> None"
proof -
  note k = ok_calls [OF ok f]
  have n: "f \<notin> set (scheduled s)" using running_ok [OF ok f(1)] by blast
  have sp: "t \<notin> set (scheduled s)" if "fib s t = None" for t using sched_okD(1) [OF ok, of t] that by simp
  show ?thesis
  proof (cases c)
    case (Unlock m g)
    then show ?thesis using c f Mutex_unlock_defined [OF ok, of m g] by simp
  next
    case (Wait cv m g)
    then show ?thesis using c f Cv_wait_defined(1) [OF k, of m g cv] by simp
  next
    case (WaitUntil cv m g ns r)
    then show ?thesis using c f Cv_wait_defined(2) [OF k, of m g cv ns r] by simp
  next
    case (CvOne cv g)
    then show ?thesis using c f NotifyOne_defined [OF ok, of "CQ cv" g] by (simp add: choice_def)
  next
    case (Spawn t)
    then show ?thesis using c f sp [of t] by (simp add: Thread_new_def Schedule_def scheduled_def)
  next
    case (Join t)
    then show ?thesis using c f handles_defined(1) [OF ok, of t] by simp
  next
    case (Detach t)
    then show ?thesis using c f handles_defined(2) [OF ok, of t] by simp
  qed (use c f n Mutex_lock_defined [OF callsD(4) [OF k]] NotifyAll_defined [OF k] Exit_defined [OF ok f(1)]
      in \<open>simp_all add: RescheduleCurrent_def Sleep_def Let_def\<close>)
qed

text \<open>
  C29: When \<open>RunLoop\<close> ends, each fiber that has not ended is in the queue of a mutex that a
  fiber holds, in the queue of a condition variable, or waits for a fiber that has not ended: no wake-up of a mutex is lost.
\<close>

theorem fiber_loop_ends:
  assumes "do_cmds tick cs sched_new = Some s" "cur s = None" "squeue s = []" "sleep_list s = []" "fib s f = Some x"
    and "status x \<noteq> Completed"
  shows "(\<exists>m g. f \<in> set (waitq s (MQ m)) \<and> occupied s m \<and> holder s m = Some g) \<or> (\<exists>c. f \<in> set (waitq s (CQ c))) \<or>
         (\<exists>t y. fib s t = Some y \<and> joining y = Some f \<and> status y \<noteq> Completed)"
proof -
  have ok: "sched_ok s" "locks_ok s" using reach_ok [OF assms(1)] by simp_all
  have e: "scheduled s = []" using assms(3,4) by (simp add: scheduled_def)
  have nc: "\<not> coming s m g" for m g
  proof
    assume c: "coming s m g"
    then obtain y where y: "fib s g = Some y" "KLock m \<in> set (frames y)" by (cases "fib s g") (auto simp: coming_def frame_of_def)
    have o: "stack_ok s g y" using sched_okD(1) [OF ok(1), of g] y(1) by simp
    then have "status y \<noteq> Completed" using y(2) by (auto simp: stack_ok_def)
    then have b: "status y = Suspended" "blocked s g y"
      using sched_okD(1) [OF ok(1), of g] y(1) assms(2) e by (cases "status y"; simp)+
    moreover have "frames y \<noteq> KJoin t # ks" for t ks using o y(2) by (auto simp: stack_ok_def)
    ultimately show False using c by (force simp: blocked_def coming_def)
  qed
  have "\<exists>g. occupied s m \<and> holder s m = Some g" if "(MQ m, f) \<in> set (waiting s)" for m
    using ok(2) that nc unfolding locks_ok_def by (metis not_None_eq)
  moreover have "(\<exists>q. (q, f) \<in> set (waiting s)) \<or> (\<exists>t. join_link s t f)"
    by (rule fiber_somewhere [OF ok(1) assms(5,6)]) (use assms(2) e in auto)
  ultimately show ?thesis unfolding join_link_def waitq_mem by (metis qid.exhaust)
qed

definition demo_deadlock :: "cmd list" where
  "demo_deadlock = [Loop 0, Spawn 1, Lock 0, Wait 0 0 0, Loop 1, Lock 0, Exit]"

lemmas fiber_eval = demo_deadlock_def sched_new_def FiberBase_new_def RunLoop_turn_def RunLoop_wake_def AdvanceTime_def WakeUpNeeded_def
  TickTime_def Resume_def upd_def Thread_new_def Schedule_def scheduled_def Mutex_lock_def Mutex_unlock_def Cv_wait_def
  Cv_wait_until_def Queue_Wait_def Queue_Wait_until_def SleepPreemptive_def SleepPreemptive_end_def Queue_Wait_until_end_def Sleep_def
  push_wait_def push_frame_def pop_frame_def Suspend_def NotifyOne_def NotifyAll_def ScheduleAndRemove_def unlink_def waitq_def
  exec_frame_def FiberBase_Exit_def delete_fiber_def AfterJoinOrDetach_def Let_def

lemma demo_deadlock_end:
  "\<exists>s. do_cmds 10 demo_deadlock sched_new = Some s \<and> cur s = None \<and> squeue s = [] \<and> sleep_list s = [] \<and>
       (\<exists>x. fib s 0 = Some x \<and> status x \<noteq> Completed)"
  by (simp add: fiber_eval)

theorem fiber_loop_ends_witness:
  "\<exists>s. do_cmds 10 demo_deadlock sched_new = Some s \<and>
    ((\<exists>m g. 0 \<in> set (waitq s (MQ m)) \<and> occupied s m \<and> holder s m = Some g) \<or> (\<exists>c. 0 \<in> set (waitq s (CQ c))) \<or>
         (\<exists>t y. fib s t = Some y \<and> joining y = Some 0 \<and> status y \<noteq> Completed))"
  using demo_deadlock_end fiber_loop_ends [of 10 demo_deadlock _ 0] by blast

text \<open>
  A fiber takes a mutex only when nobody holds it, and the holder keeps it until it unlocks it or waits on a condition
  variable with it.
\<close>

lemma fiber_mutex:
  assumes "do_cmds tick cs sched_new = Some s" "do_cmd tick c s = Some t" "holder s m = Some g"
  shows "occupied s m \<and> (holder t m = Some g \<or> cur s = Some g \<and> releases c m)"
proof -
  have ok: "sched_ok s" "locks_ok s" using reach_ok [OF assms(1)] by simp_all
  have "occupied s m" using ok(2) assms(3) by (simp add: locks_ok_def)
  then show ?thesis using do_cmd_locks [OF ok assms(2)] assms(3) by blast
qed


text \<open>
  C30: As long as the clock has not wrapped, a call of \<open>Sleep\<close> returns when its time has come, and a wait with a time limit reports a
  timeout only when its time point and the random number that \<open>SleepPreemptive\<close> adds have passed, if the time point is not so long before
  the epoch, or so late, that their sum is out of the range of \<open>std::uint64_t\<close>.
\<close>

theorem fiber_deadline:
  assumes "do_cmds tick cs sched_new = Some s" "\<not> wrapped s" "cur s = Some f" "fib s f = Some x" "0 \<le> n" "n < 2 ^ 64"
    and "frames x = [KSleep (word_of_int n)] \<or>
      (\<exists>q ks t y. frames x = KTimed q n # ks \<and> do_cmd tick Frame s = Some t \<and> fib t f = Some y \<and> \<not> ready y)"
  shows "n \<le> uint (clock s)"
proof -
  have ok: "sched_ok s" using reach_ok [OF assms(1)] by simp
  have r: "f \<notin> set (scheduled s)" "stack_ok s f x" using running_ok [OF ok assms(3)] assms(4) by auto
  let ?n = "word_of_int n :: time"
  have "deadline s f x ?n"
    using assms(7)
  proof (elim disjE exE conjE)
    fix q ks t y
    assume k: "frames x = KTimed q n # ks" "do_cmd tick Frame s = Some t" "fib t f = Some y" "\<not> ready y"
    then have "f \<in> set (waitq s q)"
      using assms(3,4) by (auto simp: exec_frame_def Queue_Wait_until_end_def Let_def waitq_def)
    then have "(q, f) \<in> set (waiting s)" by (simp add: waitq_mem)
    moreover have "KTimed q n \<in> set (frames x)" using k(1) by simp
    ultimately show ?thesis unfolding deadline_def by blast
  qed (simp add: deadline_def)
  then have "due s ?n f" using r(2) by (simp add: stack_ok_def)
  moreover have "\<not> asleep (sleep_list s) ?n f" using r(1) by (auto simp: scheduled_def asleep_def)
  ultimately have "uint ?n \<le> uint (clock s)" using assms(2) by (simp add: due_def word_le_def)
  moreover have "uint ?n = n" using assms(5,6) by (simp add: unsigned_of_int take_bit_int_eq_self)
  ultimately show ?thesis by simp
qed

lemma demo_sleep:
  "\<exists>s. do_cmds 10 [Loop 0, SleepUntil 50, Loop 0] sched_new = Some s \<and> \<not> wrapped s \<and> cur s = Some 0 \<and>
    (\<exists>x. fib s 0 = Some x \<and> frames x = [KSleep (word_of_int 50)])"
  by (simp add: fiber_eval)

theorem fiber_deadline_witness:
  "\<exists>s. do_cmds 10 [Loop 0, SleepUntil 50, Loop 0] sched_new = Some s \<and> 50 \<le> uint (clock s)"
  using demo_sleep fiber_deadline [of 10 "[Loop 0, SleepUntil 50, Loop 0]" _ 0 _ 50] by force

text \<open>
  C31: No freed fiber is used and no fiber is pushed into a list twice, whatever the fibers do and whatever the random choices are.
  When the queue or the first list of sleepers has a fiber, \<open>RunLoop\<close> finds one, and it can resume each that it may choose; a running
  fiber exists; each call whose preconditions hold is defined for each random choice, and so is the rest of each call. The only exception is
  the rest of \<open>SleepPreemptive\<close>, which fails if and only if its time has not passed and the list of that time is gone.
\<close>

theorem fiber_defined:
  assumes "do_cmds tick cs sched_new = Some s"
  shows "(cur s = None \<longrightarrow>
      (squeue s \<noteq> [] \<or> (\<exists>n fs sl. sleep_list s = (n, fs) # sl \<and> fs \<noteq> []) \<longrightarrow> (\<exists>u. RunLoop_wake s = Some u \<and> squeue u \<noteq> [])) \<and>
      (\<forall>u f. RunLoop_wake s = Some u \<and> f \<in> set (squeue u) \<longrightarrow> do_cmd tick (Loop f) s \<noteq> None)) \<and>
    (\<forall>f. cur s = Some f \<longrightarrow> (\<exists>x. fib s f = Some x \<and>
      (case frames x of
         KPre n # ks \<Rightarrow> do_cmd tick Frame s = None \<longleftrightarrow> clock s \<le> n \<and> n \<notin> fst ` set (sleep_list s)
       | k # ks \<Rightarrow> do_cmd tick Frame s \<noteq> None
       | [] \<Rightarrow> \<forall>c. may_call s f c \<longrightarrow> do_cmd tick c s \<noteq> None)))"
proof -
  have ok: "sched_ok s" using reach_ok [OF assms] by simp
  have "\<exists>x. fib s f = Some x \<and>
      (case frames x of
         KPre n # ks \<Rightarrow> do_cmd tick Frame s = None \<longleftrightarrow> clock s \<le> n \<and> n \<notin> fst ` set (sleep_list s)
       | k # ks \<Rightarrow> do_cmd tick Frame s \<noteq> None
       | [] \<Rightarrow> \<forall>c. may_call s f c \<longrightarrow> do_cmd tick c s \<noteq> None)"
    if f: "cur s = Some f" for f
  proof -
    obtain x where x: "fib s f = Some x" using running_ok [OF ok f] by blast
    show ?thesis
    proof (cases "frames x")
      case Nil
      then show ?thesis using x call_defined [OF ok f x Nil] by simp
    next
      case (Cons k ks)
      show ?thesis
      proof (cases "\<exists>n. k = KPre n")
        case True
        then obtain n where n: "k = KPre n" by blast
        have "do_cmd tick Frame s = None \<longleftrightarrow> clock s \<le> n \<and> n \<notin> fst ` set (sleep_list s)"
          using f x Cons n by (auto simp: exec_frame_def SleepPreemptive_end_def map_of_eq_None_iff [symmetric] split: option.splits)
        then show ?thesis using x Cons n by (simp del: do_cmd.simps)
      next
        case False
        then have "do_cmd tick Frame s \<noteq> None" using frame_defined [OF ok f x Cons] f x Cons by simp
        then show ?thesis using x Cons False by (cases k) (simp_all del: do_cmd.simps)
      qed
    qed
  qed
  then show ?thesis using loop_defined [OF ok] by blast
qed

lemma demo_locked:
  "\<exists>s. do_cmds 10 [Loop 0, Spawn 1, Lock 3] sched_new = Some s \<and> cur s = Some 0 \<and> (\<exists>x. fib s 0 = Some x \<and> frames x = []) \<and>
    holder s 3 = Some 0 \<and> waitq s (MQ 3) = [] \<and> handles s = [1]"
  by (simp add: fiber_eval)

theorem fiber_defined_witness:
  "\<exists>s. do_cmds 10 [Loop 0, Spawn 1, Lock 3] sched_new = Some s \<and> do_cmd 10 (Join 1) s \<noteq> None \<and> do_cmd 10 (WaitUntil 5 3 0 100 7) s \<noteq> None"
proof -
  obtain s x where s: "do_cmds 10 [Loop 0, Spawn 1, Lock 3] sched_new = Some s"
    and f: "cur s = Some 0" "fib s 0 = Some x" "frames x = []" "holder s 3 = Some 0" "waitq s (MQ 3) = []" "handles s = [1]"
    using demo_locked by blast
  have "\<forall>c. may_call s 0 c \<longrightarrow> do_cmd 10 c s \<noteq> None"
    using conjunct2 [OF fiber_defined [OF s]] f(1-3) by (auto simp del: do_cmd.simps)
  moreover have "may_call s 0 (Join 1)" "may_call s 0 (WaitUntil 5 3 0 100 7)" using f(4-6) by (simp_all add: choice_def)
  ultimately show ?thesis using s by blast
qed

text \<open>
  Two ways in which \<open>SleepPreemptive\<close> breaks the list of sleepers. A fiber that is notified before its time leaves an empty
  list behind when the time passes before it runs on, and \<open>RunLoop\<close> then takes a fiber from an empty queue. When two fibers with
  the same time are notified, the first erases the list, and the second follows the end iterator.
\<close>

lemma fiber_sleep_lists:
  "(\<exists>s. do_cmds 10 [Loop 0, Spawn 1, Detach 1, Lock 0, WaitUntil 0 0 0 25 0, Loop 1, CvOne 0 0, Exit, Loop 0, Frame, Frame, Frame, Frame,
       Frame, Unlock 0 0, Exit] sched_new = Some s \<and>
     cur s = None \<and> squeue s = [] \<and> sleep_list s = [(25, [])] \<and> (\<forall>f. do_cmd 10 (Loop f) s = None)) \<and>
   (\<exists>s. do_cmds 10 [Loop 0, Spawn 1, Spawn 2, Lock 0, WaitUntil 0 0 0 100 0, Loop 1, Lock 0, WaitUntil 0 0 0 100 0, Loop 2, CvAll 0, Exit,
       Loop 0, Frame, Frame, Frame, Frame, Frame, Unlock 0 0, Exit, Loop 1, Frame] sched_new = Some s \<and>
     (\<exists>x. cur s = Some 1 \<and> fib s 1 = Some x \<and> hd (frames x) = KPre 100) \<and> do_cmd 10 Frame s = None)"
  by (intro conjI) (simp_all add: fiber_eval)

text \<open>
  A time point before the epoch, which a negative duration gives near the start of the clock, is converted to a time in the far future:
  the fiber sleeps until then, and when no other fiber runs the clock is advanced there and wraps.
\<close>

lemma fiber_past_sleep:
  "\<exists>s. do_cmds 10 [Loop 0, SleepUntil (- 5)] sched_new = Some s \<and> clock s = 10 \<and> cur s = None \<and> sleep_list s = [(2 ^ 64 - 5, [0])] \<and>
     (\<exists>t. do_cmd 10 (Loop 0) s = Some t \<and> wrapped t)"
  by (simp add: fiber_eval)

end
