(* ===== verification/FiberLocks.thy ===== *)
theory FiberLocks
  imports Prelude
begin

section \<open>Recursive, shared and timed locks of fibers\<close>

text \<open>
  The locks of \<open>src/fault/fiber/recursive_mutex.cpp\<close>, \<open>shared_mutex.cpp\<close> and \<open>fault/detail/fiber/timed_mutex.hpp\<close>,
  \<open>recursive_timed_mutex.hpp\<close>, \<open>shared_timed_mutex.hpp\<close>. Fibers switch only where one waits in a queue or a call ended, so a step is a
  call up to its end or up to \<open>Wait\<close>, what a call does after \<open>Wait\<close>, or the end of a time limit. The queues are those of \<open>Fibers\<close>: \<open>NotifyOne\<close>
  takes any fiber of the queue, which runs at some later time.

  Each class is a record of its operations, and one step relation runs the fibers on it. Its state remembers who holds the lock. A fiber calls \<open>unlock\<close>
  only when it holds the lock.
\<close>

subsection \<open>Fibers and a lock\<close>

text \<open>\<open>lock\<close>, \<open>try_lock\<close>, \<open>try_lock_for\<close>, and the same of the shared mode.\<close>

datatype lop = OLock | OTry | OTimed | OShared | OTryShared | OTimedShared

fun shared_op :: "lop \<Rightarrow> bool" where
  "shared_op OShared = True" | "shared_op OTryShared = True" | "shared_op OTimedShared = True" | "shared_op x = False"

fun timed_op :: "lop \<Rightarrow> bool" where
  "timed_op OTimed = True" | "timed_op OTimedShared = True" | "timed_op x = False"

text \<open>A call returns with the lock, or without it, or waits in a queue.\<close>

datatype 'l res = Got 'l | Fails 'l | Waits 'l

text \<open>\<open>resumed\<close> is what a call does after a notification, \<open>expired\<close> what it does at the end of the time; \<open>release\<close> also
  gives the fibers that it notifies, for a random number and a random choice in the queue.\<close>

record 'l lock_ops =
  enter :: "lop \<Rightarrow> nat \<Rightarrow> 'l \<Rightarrow> 'l res"
  resumed :: "lop \<Rightarrow> nat \<Rightarrow> 'l \<Rightarrow> 'l res"
  expired :: "nat \<Rightarrow> 'l \<Rightarrow> 'l"
  release :: "bool \<Rightarrow> nat \<Rightarrow> nat \<Rightarrow> 'l \<Rightarrow> 'l \<times> nat list"

record 'l lsys =
  lck :: 'l
  waits :: "nat \<Rightarrow> lop option"
  woken :: "nat \<Rightarrow> lop option"
  writers :: "nat list"
  readers :: "nat list"

definition idle :: "nat \<Rightarrow> 'l lsys \<Rightarrow> bool" where
  "idle f s \<longleftrightarrow> waits s f = None \<and> woken s f = None"

text \<open>A call or what follows a wait ends, or waits.\<close>

definition outcome :: "lop \<Rightarrow> nat \<Rightarrow> 'l res \<Rightarrow> 'l lsys \<Rightarrow> 'l lsys" where
  "outcome x f r s =
     (case r of
        Got l \<Rightarrow> if shared_op x then s\<lparr>lck := l, readers := f # readers s\<rparr> else s\<lparr>lck := l, writers := f # writers s\<rparr>
      | Fails l \<Rightarrow> s\<lparr>lck := l\<rparr>
      | Waits l \<Rightarrow> s\<lparr>lck := l, waits := (waits s)(f := Some x)\<rparr>)"

definition notified :: "nat list \<Rightarrow> 'l lsys \<Rightarrow> 'l lsys" where
  "notified gs s = s\<lparr>waits := (\<lambda>f. if f \<in> set gs then None else waits s f), woken := (\<lambda>f. if f \<in> set gs then waits s f else woken s f)\<rparr>"

definition do_release :: "'l lock_ops \<Rightarrow> bool \<Rightarrow> nat \<Rightarrow> nat \<Rightarrow> nat \<Rightarrow> 'l lsys \<Rightarrow> 'l lsys" where
  "do_release ops sh f r g s =
     (let (l, gs) = release ops sh r g (lck s) in
      notified gs (if sh then s\<lparr>lck := l, readers := remove1 f (readers s)\<rparr> else s\<lparr>lck := l, writers := remove1 f (writers s)\<rparr>))"

text \<open>
  Fibers call the operations of \<open>A\<close>. With \<open>calm\<close>, a notified fiber runs before another one calls the lock. The locks count in 32
  bits: there are fewer holds than that.
\<close>

inductive lstep :: "bool \<Rightarrow> lop set \<Rightarrow> 'l lock_ops \<Rightarrow> 'l lsys \<Rightarrow> 'l lsys \<Rightarrow> bool" for calm A ops where
  l_call: "idle f s \<Longrightarrow> x \<in> A \<Longrightarrow> calm \<longrightarrow> (\<forall>h. woken s h = None) \<Longrightarrow> length (writers s) + length (readers s) < 2 ^ 32 - 1 \<Longrightarrow>
     lstep calm A ops s (outcome x f (enter ops x f (lck s)) s)"
| l_resume: "woken s f = Some x \<Longrightarrow> length (writers s) + length (readers s) < 2 ^ 32 - 1 \<Longrightarrow>
     lstep calm A ops s (outcome x f (resumed ops x f (lck s)) (s\<lparr>woken := (woken s)(f := None)\<rparr>))"
| l_expire: "waits s f = Some x \<Longrightarrow> timed_op x \<Longrightarrow>
     lstep calm A ops s (s\<lparr>lck := expired ops f (lck s), waits := (waits s)(f := None)\<rparr>)"
| l_unlock: "idle f s \<Longrightarrow> f \<in> set (writers s) \<Longrightarrow> calm \<longrightarrow> (\<forall>h. woken s h = None) \<Longrightarrow> lstep calm A ops s (do_release ops False f r g s)"
| l_unlock_shared: "idle f s \<Longrightarrow> f \<in> set (readers s) \<Longrightarrow> calm \<longrightarrow> (\<forall>h. woken s h = None) \<Longrightarrow> lstep calm A ops s (do_release ops True f r g s)"

inductive lreach :: "bool \<Rightarrow> lop set \<Rightarrow> 'l lock_ops \<Rightarrow> 'l lsys \<Rightarrow> 'l lsys \<Rightarrow> bool" for calm A ops s where
  l_start: "lreach calm A ops s s"
| l_next: "lreach calm A ops s t \<Longrightarrow> lstep calm A ops t u \<Longrightarrow> lreach calm A ops s u"

definition lsys_new :: "'l \<Rightarrow> 'l lsys" where
  "lsys_new l = \<lparr>lck = l, waits = \<lambda>f. None, woken = \<lambda>f. None, writers = [], readers = []\<rparr>"

definition pick :: "nat \<Rightarrow> nat list \<Rightarrow> nat list \<times> nat list" where
  "pick g q = (if q = [] then ([], []) else let h = (if g \<in> set q then g else hd q) in ([h], remove1 h q))"

subsection \<open>Recursive locks\<close>

record rmutex =
  rqueue :: "nat list"
  owner_id :: nat
  occupied_count :: "32 word"

definition rmutex_new :: rmutex where
  "rmutex_new = \<lparr>rqueue = [], owner_id = 0, occupied_count = 0\<rparr>"

definition Recursive_LockHelper :: "nat \<Rightarrow> rmutex \<Rightarrow> rmutex" where
  "Recursive_LockHelper f l = l\<lparr>occupied_count := occupied_count l + 1, owner_id := f\<rparr>"

definition Recursive_lock :: "nat \<Rightarrow> rmutex \<Rightarrow> rmutex res" where
  "Recursive_lock f l =
     (if occupied_count l \<noteq> 0 \<and> owner_id l \<noteq> f then Waits (l\<lparr>rqueue := rqueue l @ [f]\<rparr>) else Got (Recursive_LockHelper f l))"

definition Recursive_try_lock :: "nat \<Rightarrow> rmutex \<Rightarrow> rmutex res" where
  "Recursive_try_lock f l = (if occupied_count l \<noteq> 0 \<and> owner_id l \<noteq> f then Fails l else Got (Recursive_LockHelper f l))"

definition Recursive_unlock :: "rmutex \<Rightarrow> rmutex" where
  "Recursive_unlock l =
     (let l = l\<lparr>occupied_count := occupied_count l - 1\<rparr> in if occupied_count l = 0 then l\<lparr>owner_id := 0\<rparr> else l)"

text \<open>The helper of \<open>try_lock_for\<close> waits where \<open>lock\<close> does, and locks when it was notified.\<close>

definition Recursive_TimedWaitHelper :: "nat \<Rightarrow> rmutex \<Rightarrow> rmutex res" where
  "Recursive_TimedWaitHelper f l =
     (if occupied_count l \<noteq> 0 \<and> owner_id l \<noteq> f then Waits (l\<lparr>rqueue := rqueue l @ [f]\<rparr>) else Got (Recursive_LockHelper f l))"

definition Recursive_ops :: "rmutex lock_ops" where
  "Recursive_ops =
     \<lparr>enter = (\<lambda>x f l. case x of OLock \<Rightarrow> Recursive_lock f l | OTry \<Rightarrow> Recursive_try_lock f l | OTimed \<Rightarrow> Recursive_TimedWaitHelper f l | _ \<Rightarrow> Fails l),
      resumed = (\<lambda>x f l. Got (Recursive_LockHelper f l)),
      expired = (\<lambda>f l. l\<lparr>rqueue := remove1 f (rqueue l)\<rparr>),
      release = (\<lambda>sh r g l. (Recursive_unlock l, []))\<rparr>"

subsection \<open>The timed lock\<close>

record tmutex =
  tqueue :: "nat list"
  toccupied :: bool

definition tmutex_new :: tmutex where
  "tmutex_new = \<lparr>tqueue = [], toccupied = False\<rparr>"

text \<open>\<open>lock\<close> of the base class tests again when it is notified.\<close>

definition Timed_lock :: "nat \<Rightarrow> tmutex \<Rightarrow> tmutex res" where
  "Timed_lock f l = (if toccupied l then Waits (l\<lparr>tqueue := tqueue l @ [f]\<rparr>) else Got (l\<lparr>toccupied := True\<rparr>))"

definition Timed_try_lock :: "tmutex \<Rightarrow> tmutex res" where
  "Timed_try_lock l = (if toccupied l then Fails l else Got (l\<lparr>toccupied := True\<rparr>))"

definition Timed_TimedWaitHelper :: "nat \<Rightarrow> tmutex \<Rightarrow> tmutex res" where
  "Timed_TimedWaitHelper f l = (if toccupied l then Waits (l\<lparr>tqueue := tqueue l @ [f]\<rparr>) else Got (l\<lparr>toccupied := True\<rparr>))"

definition Timed_TimedWaitHelper_end :: "tmutex \<Rightarrow> tmutex" where
  "Timed_TimedWaitHelper_end l = l\<lparr>toccupied := True\<rparr>"

definition Timed_unlock :: "nat \<Rightarrow> tmutex \<Rightarrow> tmutex \<times> nat list" where
  "Timed_unlock g l = (let (gs, q) = pick g (tqueue l) in (l\<lparr>toccupied := False, tqueue := q\<rparr>, gs))"

definition Timed_ops :: "tmutex lock_ops" where
  "Timed_ops =
     \<lparr>enter = (\<lambda>x f l. case x of OLock \<Rightarrow> Timed_lock f l | OTry \<Rightarrow> Timed_try_lock l | OTimed \<Rightarrow> Timed_TimedWaitHelper f l | _ \<Rightarrow> Fails l),
      resumed = (\<lambda>x f l. case x of OTimed \<Rightarrow> Got (Timed_TimedWaitHelper_end l) | _ \<Rightarrow> Timed_lock f l),
      expired = (\<lambda>f l. l\<lparr>tqueue := remove1 f (tqueue l)\<rparr>),
      release = (\<lambda>sh r g l. Timed_unlock g l)\<rparr>"

subsection \<open>The shared lock\<close>

record fsmutex =
  shared_queue :: "nat list"
  exclusive_queue :: "nat list"
  shared_owners_count :: "32 word"
  soccupied :: bool
  exclusive_mode :: bool

definition fsmutex_new :: fsmutex where
  "fsmutex_new = \<lparr>shared_queue = [], exclusive_queue = [], shared_owners_count = 0, soccupied = False, exclusive_mode = False\<rparr>"

definition Shared_LockHelper :: "fsmutex \<Rightarrow> fsmutex" where
  "Shared_LockHelper l = l\<lparr>soccupied := True, exclusive_mode := True\<rparr>"

definition Shared_SharedLockHelper :: "fsmutex \<Rightarrow> fsmutex" where
  "Shared_SharedLockHelper l = l\<lparr>soccupied := True, exclusive_mode := False, shared_owners_count := shared_owners_count l + 1\<rparr>"

definition Shared_lock :: "nat \<Rightarrow> fsmutex \<Rightarrow> fsmutex res" where
  "Shared_lock f l = (if soccupied l then Waits (l\<lparr>exclusive_queue := exclusive_queue l @ [f]\<rparr>) else Got (Shared_LockHelper l))"

definition Shared_try_lock :: "fsmutex \<Rightarrow> fsmutex res" where
  "Shared_try_lock l = (if soccupied l then Fails l else Got (Shared_LockHelper l))"

definition Shared_lock_shared :: "nat \<Rightarrow> fsmutex \<Rightarrow> fsmutex res" where
  "Shared_lock_shared f l =
     (if soccupied l \<and> exclusive_mode l then Waits (l\<lparr>exclusive_queue := exclusive_queue l @ [f]\<rparr>) else Got (Shared_SharedLockHelper l))"

definition Shared_try_lock_shared :: "fsmutex \<Rightarrow> fsmutex res" where
  "Shared_try_lock_shared l = (if soccupied l \<and> exclusive_mode l then Fails l else Got (Shared_SharedLockHelper l))"

definition Shared_unlock :: "nat \<Rightarrow> nat \<Rightarrow> fsmutex \<Rightarrow> fsmutex \<times> nat list" where
  "Shared_unlock r g l =
     (let unlock_shared = shared_queue l \<noteq> [] \<and> (exclusive_queue l = [] \<or> r mod 2 = 0); l = l\<lparr>soccupied := False\<rparr>
      in if unlock_shared then (l\<lparr>shared_queue := []\<rparr>, rev (shared_queue l))
         else let (gs, q) = pick g (exclusive_queue l) in (l\<lparr>exclusive_queue := q\<rparr>, gs))"

definition Shared_unlock_shared :: "nat \<Rightarrow> fsmutex \<Rightarrow> fsmutex \<times> nat list" where
  "Shared_unlock_shared g l =
     (let l = l\<lparr>shared_owners_count := shared_owners_count l - 1\<rparr> in
      if shared_owners_count l = 0 then let (gs, q) = pick g (exclusive_queue l) in (l\<lparr>soccupied := False, exclusive_queue := q\<rparr>, gs)
      else (l, []))"

definition Shared_TimedWaitHelper :: "bool \<Rightarrow> nat \<Rightarrow> fsmutex \<Rightarrow> fsmutex res" where
  "Shared_TimedWaitHelper exclusive f l =
     (if soccupied l \<and> (exclusive \<or> exclusive_mode l) then
        if exclusive then Waits (l\<lparr>exclusive_queue := exclusive_queue l @ [f]\<rparr>) else Waits (l\<lparr>shared_queue := shared_queue l @ [f]\<rparr>)
      else Got (Shared_SharedLockHelper l))"

definition Shared_ops :: "fsmutex lock_ops" where
  "Shared_ops =
     \<lparr>enter = (\<lambda>x f l. case x of OLock \<Rightarrow> Shared_lock f l | OTry \<Rightarrow> Shared_try_lock l | OTimed \<Rightarrow> Shared_TimedWaitHelper True f l
        | OShared \<Rightarrow> Shared_lock_shared f l | OTryShared \<Rightarrow> Shared_try_lock_shared l | OTimedShared \<Rightarrow> Shared_TimedWaitHelper False f l),
      resumed = (\<lambda>x f l. case x of OLock \<Rightarrow> Got (Shared_LockHelper l) | _ \<Rightarrow> Got (Shared_SharedLockHelper l)),
      expired = (\<lambda>f l. l\<lparr>exclusive_queue := remove1 f (exclusive_queue l), shared_queue := remove1 f (shared_queue l)\<rparr>),
      release = (\<lambda>sh r g l. if sh then Shared_unlock_shared g l else Shared_unlock r g l)\<rparr>"

subsection \<open>Facts about the steps\<close>

lemma outcome_fields [simp]:
  "lck (outcome x f (Got l) s) = l" "lck (outcome x f (Fails l) s) = l" "lck (outcome x f (Waits l) s) = l"
  "woken (outcome x f r s) = woken s"
  "waits (outcome x f (Got l) s) = waits s" "waits (outcome x f (Fails l) s) = waits s" "waits (outcome x f (Waits l) s) = (waits s)(f := Some x)"
  "writers (outcome x f (Got l) s) = (if shared_op x then writers s else f # writers s)"
  "readers (outcome x f (Got l) s) = (if shared_op x then f # readers s else readers s)"
  "writers (outcome x f (Fails l) s) = writers s" "readers (outcome x f (Fails l) s) = readers s"
  "writers (outcome x f (Waits l) s) = writers s" "readers (outcome x f (Waits l) s) = readers s"
  by (auto simp: outcome_def split: res.splits)

lemma notified_fields [simp]:
  "lck (notified gs s) = lck s" "writers (notified gs s) = writers s" "readers (notified gs s) = readers s"
  "waits (notified gs s) f = (if f \<in> set gs then None else waits s f)" "woken (notified gs s) f = (if f \<in> set gs then waits s f else woken s f)"
  by (simp_all add: notified_def)

lemma lsys_new_fields [simp]:
  "lck (lsys_new l) = l" "waits (lsys_new l) = (\<lambda>f. None)" "woken (lsys_new l) = (\<lambda>f. None)" "writers (lsys_new l) = []" "readers (lsys_new l) = []"
  by (simp_all add: lsys_new_def)

lemma lreach_keeps:
  assumes "lreach calm A ops s t" "P s" "\<And>t u. P t \<Longrightarrow> lstep calm A ops t u \<Longrightarrow> P u"
  shows "P t"
  using assms(1) by induction (use assms(2,3) in auto)

lemma pick_cases: "pick g q = ([], []) \<and> q = [] \<or> (\<exists>h \<in> set q. pick g q = ([h], remove1 h q))"
  by (cases q) (auto simp: pick_def)

lemma count_zero: "n < 2 ^ 32 \<Longrightarrow> (word_of_nat n :: 32 word) = 0 \<longleftrightarrow> n = 0"
  by (auto simp: word_of_nat_eq_0_iff dest: nat_dvd_not_less)

lemma remove_length: "f \<in> set xs \<Longrightarrow> length xs = Suc (length (remove1 f xs))"
  by (induction xs) auto

lemma count_less:
  assumes "f \<in> set xs"
  shows "(word_of_nat (length xs) :: 32 word) - 1 = word_of_nat (length (remove1 f xs))"
  using remove_length [OF assms] by simp

subsection \<open>The recursive lock has one owner\<close>

definition rinv :: "rmutex lsys \<Rightarrow> bool" where
  "rinv s \<longleftrightarrow> occupied_count (lck s) = word_of_nat (length (writers s)) \<and> (\<forall>f \<in> set (writers s). owner_id (lck s) = f) \<and>
     (\<forall>f. woken s f = None) \<and> readers s = [] \<and> length (writers s) < 2 ^ 32"

lemma Recursive_unlock_fields:
  "occupied_count (Recursive_unlock l) = occupied_count l - 1"
  "occupied_count l - 1 \<noteq> 0 \<Longrightarrow> owner_id (Recursive_unlock l) = owner_id l"
  by (simp_all add: Recursive_unlock_def Let_def)

lemma rinv_step:
  assumes "rinv s" "lstep calm A Recursive_ops s t"
  shows "rinv t"
  using assms(2)
proof cases
  case (l_call f x)
  have c: "occupied_count (lck s) = 0 \<longleftrightarrow> writers s = []" using assms(1) count_zero by (simp add: rinv_def)
  have "rinv (outcome x f (Got (Recursive_LockHelper f (lck s))) s)" if "\<not> shared_op x" "occupied_count (lck s) = 0 \<or> owner_id (lck s) = f"
    using assms(1) that c l_call(5) by (auto simp: rinv_def Recursive_LockHelper_def)
  moreover have "rinv (outcome x f (Fails (lck s)) s)" "rinv (outcome x f (Waits (lck s\<lparr>rqueue := q\<rparr>)) s)" for q
    using assms(1) by (simp_all add: rinv_def)
  ultimately show ?thesis
    using l_call(1) by (cases x) (auto simp: Recursive_ops_def Recursive_lock_def Recursive_try_lock_def Recursive_TimedWaitHelper_def)
next
  case (l_resume f x)
  then show ?thesis using assms(1) by (simp add: rinv_def)
next
  case (l_expire f x)
  then show ?thesis using assms(1) by (simp add: rinv_def Recursive_ops_def)
next
  case (l_unlock f r g)
  have k: "word_of_nat (length (writers s)) - 1 = (word_of_nat (length (remove1 f (writers s))) :: 32 word)" using count_less l_unlock(3) .
  have z: "(word_of_nat (length (remove1 f (writers s))) :: 32 word) = 0 \<longleftrightarrow> remove1 f (writers s) = []"
    using count_zero [of "length (remove1 f (writers s))"] assms(1) remove_length [OF l_unlock(3)] by (simp add: rinv_def)
  have o: "owner_id (lck s) = h" if "h \<in> set (remove1 f (writers s))" for h
    using that set_remove1_subset [of f "writers s"] assms(1) by (auto simp only: rinv_def)
  have c: "occupied_count (lck s) - 1 = word_of_nat (length (remove1 f (writers s)))" using assms(1) k by (simp only: rinv_def)
  have "length (remove1 f (writers s)) < 2 ^ 32" using assms(1) remove_length [OF l_unlock(3)] by (simp add: rinv_def)
  moreover have "t = notified [] (s\<lparr>lck := Recursive_unlock (lck s), writers := remove1 f (writers s)\<rparr>)"
    using l_unlock(1) by (simp add: do_release_def Recursive_ops_def)
  moreover have "occupied_count (Recursive_unlock (lck s)) = word_of_nat (length (remove1 f (writers s)))"
    "remove1 f (writers s) \<noteq> [] \<Longrightarrow> owner_id (Recursive_unlock (lck s)) = owner_id (lck s)"
    using c z Recursive_unlock_fields [of "lck s"] by (simp_all only: not_False_eq_True simp_thms True_implies_equals)
  ultimately show ?thesis using assms(1) o unfolding rinv_def by (cases "remove1 f (writers s) = []") auto
next
  case (l_unlock_shared f r g)
  then show ?thesis using assms(1) by (simp add: rinv_def)
qed

lemma recursive_owner:
  assumes "lreach calm A Recursive_ops (lsys_new rmutex_new) s" "f \<in> set (writers s)"
  shows "set (writers s) = {f}" "owner_id (lck s) = f" "unat (occupied_count (lck s)) = length (writers s)"
proof -
  have i: "rinv s"
    by (rule lreach_keeps [OF assms(1) _ rinv_step]) (simp_all add: rinv_def rmutex_new_def)
  then have o: "owner_id (lck s) = h" if "h \<in> set (writers s)" for h using that by (simp add: rinv_def)
  show "owner_id (lck s) = f" using o [OF assms(2)] .
  then show "set (writers s) = {f}" using o assms(2) by blast
  show "unat (occupied_count (lck s)) = length (writers s)" using i by (simp add: rinv_def unat_of_nat take_bit_nat_eq_self)
qed

text \<open>A fiber that waits in \<open>lock\<close> waits for ever.\<close>

lemma recursive_stuck:
  assumes "lreach calm A Recursive_ops s t" "waits s f = Some OLock"
  shows "waits t f = Some OLock"
proof (rule lreach_keeps [OF assms(1), where P = "\<lambda>t. waits t f = Some OLock"])
  fix t u assume t: "waits t f = Some OLock" and "lstep calm A Recursive_ops t u"
  from this(2) show "waits u f = Some OLock"
  proof cases
    case (l_call h x)
    then have "h \<noteq> f" using t by (auto simp: idle_def)
    then show ?thesis using t l_call(1) by (cases "enter Recursive_ops x h (lck t)") simp_all
  next
    case (l_resume h x)
    then show ?thesis using t by (simp add: Recursive_ops_def outcome_def)
  next
    case (l_expire h x)
    then show ?thesis using t by auto
  qed (use t in \<open>simp_all add: do_release_def Recursive_ops_def\<close>)
qed (rule assms(2))

subsection \<open>The timed lock\<close>

definition calm_ok :: "'l lsys \<Rightarrow> bool" where
  "calm_ok s \<longleftrightarrow> (\<forall>f g. woken s f \<noteq> None \<and> woken s g \<noteq> None \<longrightarrow> f = g)"

lemma calm_okD: "calm_ok s \<Longrightarrow> woken s f = Some x \<Longrightarrow> woken s g = Some y \<Longrightarrow> f = g"
  by (auto simp: calm_ok_def)

definition tinv :: "tmutex lsys \<Rightarrow> bool" where
  "tinv s \<longleftrightarrow> (toccupied (lck s) \<longleftrightarrow> writers s \<noteq> []) \<and> length (writers s) \<le> 1 \<and> readers s = [] \<and> calm_ok s \<and>
     (\<forall>f x. waits s f = Some x \<or> woken s f = Some x \<longrightarrow> \<not> shared_op x) \<and> (\<forall>f x. woken s f = Some x \<longrightarrow> writers s = [])"

lemma tinv_step:
  assumes s: "tinv s" "lstep True A Timed_ops s t"
  shows "tinv t"
  using s(2)
proof cases
  case (l_call f x)
  have "tinv (outcome x f (Fails (lck s)) s)" using s(1) by (simp add: tinv_def calm_ok_def)
  moreover have "tinv (outcome x f (Waits (lck s\<lparr>tqueue := q\<rparr>)) s)" if "\<not> shared_op x" for q
    using s(1) that by (auto simp: tinv_def calm_ok_def)
  moreover have "tinv (outcome x f (Got (lck s\<lparr>toccupied := True\<rparr>)) s)" if "\<not> shared_op x" "\<not> toccupied (lck s)"
    using s(1) that l_call(4) by (auto simp: tinv_def calm_ok_def)
  ultimately show ?thesis
    using l_call(1) by (cases x) (auto simp: Timed_ops_def Timed_lock_def Timed_try_lock_def Timed_TimedWaitHelper_def)
next
  case (l_resume f x)
  have n: "\<not> shared_op x" "writers s = []" "\<not> toccupied (lck s)" using s(1) l_resume(2) by (auto simp: tinv_def)
  have "\<And>g. g \<noteq> f \<Longrightarrow> woken s g = None" using s(1) l_resume(2) calm_okD [of s f x] by (fastforce simp: tinv_def)
  then have "tinv (outcome x f (Got (lck s\<lparr>toccupied := True\<rparr>)) (s\<lparr>woken := (woken s)(f := None)\<rparr>))"
    using s(1) n by (auto simp: tinv_def calm_ok_def)
  then show ?thesis using l_resume(1) n by (cases x) (simp_all add: Timed_ops_def Timed_lock_def Timed_TimedWaitHelper_end_def)
next
  case (l_expire f x)
  then show ?thesis using s(1) by (auto simp: tinv_def Timed_ops_def calm_ok_def)
next
  case (l_unlock f r g)
  then have w: "writers s = [f]" using s(1) by (cases "writers s") (auto simp: tinv_def)
  obtain gs q where p: "pick g (tqueue (lck s)) = (gs, q)" by fastforce
  then have gs: "gs = [] \<or> (\<exists>h. gs = [h])" using pick_cases [of g "tqueue (lck s)"] by auto
  have t: "t = notified gs (s\<lparr>lck := lck s\<lparr>toccupied := False, tqueue := q\<rparr>, writers := []\<rparr>)"
    using l_unlock(1) w p by (simp add: do_release_def Timed_ops_def Timed_unlock_def)
  have n: "woken s h = None" for h using l_unlock(4) by simp
  have "calm_ok t" using gs n t by (auto simp: calm_ok_def split: if_splits)
  then show ?thesis using s(1) n t by (simp add: tinv_def)
next
  case (l_unlock_shared f r g)
  then show ?thesis using s(1) by (simp add: tinv_def)
qed

lemma timed_exclusive:
  assumes "lreach True A Timed_ops (lsys_new tmutex_new) s"
  shows "length (writers s) \<le> 1" "toccupied (lck s) \<longleftrightarrow> writers s \<noteq> []"
proof -
  have "tinv s"
    by (rule lreach_keeps [OF assms _ tinv_step]) (simp_all add: tinv_def tmutex_new_def calm_ok_def)
  then show "length (writers s) \<le> 1" "toccupied (lck s) \<longleftrightarrow> writers s \<noteq> []" by (auto simp: tinv_def)
qed

subsection \<open>The shared lock\<close>

text \<open>Who waits in which queue, and for what.\<close>

definition queues_ok :: "fsmutex lsys \<Rightarrow> bool" where
  "queues_ok s \<longleftrightarrow> distinct (shared_queue (lck s)) \<and> distinct (exclusive_queue (lck s)) \<and>
     (\<forall>f \<in> set (shared_queue (lck s)). waits s f = Some OTimedShared) \<and>
     (\<forall>f \<in> set (exclusive_queue (lck s)). waits s f = Some OLock \<or> waits s f = Some OShared) \<and>
     (\<forall>f x. waits s f = Some x \<or> woken s f = Some x \<longrightarrow> x = OLock \<or> x = OShared \<or> x = OTimedShared)"

text \<open>The words of the lock.\<close>

definition mode_ok :: "fsmutex lsys \<Rightarrow> bool" where
  "mode_ok s \<longleftrightarrow> length (writers s) \<le> 1 \<and> (soccupied (lck s) \<longleftrightarrow> writers s \<noteq> [] \<or> readers s \<noteq> []) \<and>
     (writers s \<noteq> [] \<longrightarrow> readers s = [] \<and> exclusive_mode (lck s)) \<and> (readers s \<noteq> [] \<longrightarrow> \<not> exclusive_mode (lck s)) \<and>
     shared_owners_count (lck s) = word_of_nat (length (readers s)) \<and> length (readers s) < 2 ^ 32"

definition woken_ok :: "fsmutex lsys \<Rightarrow> bool" where
  "woken_ok s \<longleftrightarrow> (\<forall>f. woken s f = None) \<or>
     writers s = [] \<and> ((\<forall>f x. woken s f = Some x \<longrightarrow> shared_op x) \<or> calm_ok s \<and> readers s = [])"

definition finv :: "fsmutex lsys \<Rightarrow> bool" where
  "finv s \<longleftrightarrow> queues_ok s \<and> mode_ok s \<and> woken_ok s"

lemma finvI: "queues_ok s \<Longrightarrow> mode_ok s \<Longrightarrow> woken_ok s \<Longrightarrow> finv s"
  by (simp add: finv_def)

lemma mode_LockHelper:
  assumes "mode_ok s" "\<not> soccupied (lck s)" "\<not> shared_op x"
  shows "mode_ok (outcome x f (Got (Shared_LockHelper (lck s))) (s\<lparr>woken := w\<rparr>))"
  using assms by (simp add: mode_ok_def Shared_LockHelper_def)

lemma mode_SharedLockHelper:
  assumes "mode_ok s" "writers s = []" "shared_op x" "length (writers s) + length (readers s) < 2 ^ 32 - 1"
  shows "mode_ok (outcome x f (Got (Shared_SharedLockHelper (lck s))) (s\<lparr>woken := w\<rparr>))"
  using assms by (simp add: mode_ok_def Shared_SharedLockHelper_def)

lemma queues_got:
  assumes "queues_ok s" "shared_queue l = shared_queue (lck s)" "exclusive_queue l = exclusive_queue (lck s)"
    "\<And>h. w h = None \<or> w h = woken s h"
  shows "queues_ok (outcome x f (Got l) (s\<lparr>woken := w\<rparr>))"
proof -
  have "y = OLock \<or> y = OShared \<or> y = OTimedShared" if "w h = Some y" for h y
    using assms(4) [of h] that assms(1) by (auto simp: queues_ok_def)
  then show ?thesis using assms(1-3) by (simp add: queues_ok_def)
qed

lemma not_queued: "queues_ok s \<Longrightarrow> waits s f = None \<Longrightarrow> f \<notin> set (shared_queue (lck s)) \<and> f \<notin> set (exclusive_queue (lck s))"
  by (auto simp: queues_ok_def)

lemma finv_wait_exclusive:
  assumes s: "finv s" "idle f s" "x = OLock \<or> x = OShared"
  shows "finv (outcome x f (Waits (lck s\<lparr>exclusive_queue := exclusive_queue (lck s) @ [f]\<rparr>)) s)"
proof (rule finvI)
  have "queues_ok s" "waits s f = None" using s by (simp_all add: finv_def idle_def)
  then show "queues_ok (outcome x f (Waits (lck s\<lparr>exclusive_queue := exclusive_queue (lck s) @ [f]\<rparr>)) s)"
    using not_queued [of s f] s(3) by (auto simp: queues_ok_def)
qed (use s(1) in \<open>simp_all add: finv_def mode_ok_def woken_ok_def calm_ok_def\<close>)

lemma finv_wait_shared:
  assumes s: "finv s" "idle f s"
  shows "finv (outcome OTimedShared f (Waits (lck s\<lparr>shared_queue := shared_queue (lck s) @ [f]\<rparr>)) s)"
proof (rule finvI)
  have "queues_ok s" "waits s f = None" using s by (simp_all add: finv_def idle_def)
  then show "queues_ok (outcome OTimedShared f (Waits (lck s\<lparr>shared_queue := shared_queue (lck s) @ [f]\<rparr>)) s)"
    using not_queued [of s f] by (auto simp: queues_ok_def)
qed (use s(1) in \<open>simp_all add: finv_def mode_ok_def woken_ok_def calm_ok_def\<close>)

lemma finv_got:
  assumes s: "finv s" "idle f s" "\<forall>h. woken s h = None" and l: "length (writers s) + length (readers s) < 2 ^ 32 - 1"
  shows "\<not> shared_op x \<Longrightarrow> \<not> soccupied (lck s) \<Longrightarrow> finv (outcome x f (Got (Shared_LockHelper (lck s))) s)"
    and "shared_op x \<Longrightarrow> \<not> (soccupied (lck s) \<and> exclusive_mode (lck s)) \<Longrightarrow> finv (outcome x f (Got (Shared_SharedLockHelper (lck s))) s)"
proof -
  have q: "queues_ok s" and m: "mode_ok s" using s(1) by (simp_all add: finv_def)
  have e: "s\<lparr>woken := woken s\<rparr> = s" by simp
  show "finv (outcome x f (Got (Shared_LockHelper (lck s))) s)" if "\<not> shared_op x" "\<not> soccupied (lck s)"
    using mode_LockHelper [OF m that(2,1), of f "woken s"] queues_got [OF q, of "Shared_LockHelper (lck s)" "woken s" x f] s(3) e
    by (simp add: finv_def Shared_LockHelper_def woken_ok_def)
  show "finv (outcome x f (Got (Shared_SharedLockHelper (lck s))) s)" if "shared_op x" "\<not> (soccupied (lck s) \<and> exclusive_mode (lck s))"
  proof -
    have "writers s = []" using m that(2) by (auto simp: mode_ok_def)
    from mode_SharedLockHelper [OF m this that(1) l, of f "woken s"] queues_got [OF q, of "Shared_SharedLockHelper (lck s)" "woken s" x f] s(3) e
    show ?thesis by (simp add: finv_def Shared_SharedLockHelper_def woken_ok_def)
  qed
qed

lemma finv_call:
  assumes s: "finv s" "idle f s" "\<forall>h. woken s h = None" and l: "length (writers s) + length (readers s) < 2 ^ 32 - 1" and x: "x \<noteq> OTimed"
  shows "finv (outcome x f (enter Shared_ops x f (lck s)) s)"
proof -
  note D = Shared_ops_def Shared_lock_def Shared_try_lock_def Shared_lock_shared_def Shared_try_lock_shared_def Shared_TimedWaitHelper_def
  have f: "finv (outcome x f (Fails (lck s)) s)" using s(1) by (simp add: finv_def queues_ok_def mode_ok_def woken_ok_def calm_ok_def)
  note G = finv_got [OF s l, of x]
  show ?thesis
    using x f G finv_wait_exclusive [OF s(1,2), of x] finv_wait_shared [OF s(1,2)] by (cases x) (simp_all add: D)
qed

lemma finv_resume:
  assumes s: "finv s" "woken s f = Some x" and l: "length (writers s) + length (readers s) < 2 ^ 32 - 1"
  shows "finv (outcome x f (resumed Shared_ops x f (lck s)) (s\<lparr>woken := (woken s)(f := None)\<rparr>))"
proof -
  let ?w = "(woken s)(f := None)"
  have q: "queues_ok s" and m: "mode_ok s" and w: "woken_ok s" using s(1) by (simp_all add: finv_def)
  have x: "x = OLock \<or> x = OShared \<or> x = OTimedShared" using q s(2) by (auto simp: queues_ok_def)
  have wr: "writers s = []" using w s(2) by (auto simp: woken_ok_def)
  have alone: "woken s g = None" if "calm_ok s" "g \<noteq> f" for g
    using calm_okD [OF that(1) s(2), of g] that(2) by (cases "woken s g") auto
  show ?thesis
  proof (cases "shared_op x")
    case True
    have "(\<forall>g y. ?w g = Some y \<longrightarrow> shared_op y)" using w s(2) alone by (auto simp: woken_ok_def)
    then have "woken_ok (outcome x f (Got (Shared_SharedLockHelper (lck s))) (s\<lparr>woken := ?w\<rparr>))"
      using wr True by (simp add: woken_ok_def)
    then have "finv (outcome x f (Got (Shared_SharedLockHelper (lck s))) (s\<lparr>woken := ?w\<rparr>))"
      using mode_SharedLockHelper [OF m wr True l, of f ?w] queues_got [OF q, of "Shared_SharedLockHelper (lck s)" ?w x f]
      by (simp add: finv_def Shared_SharedLockHelper_def)
    then show ?thesis using x True by (auto simp: Shared_ops_def)
  next
    case False
    then have c: "calm_ok s" "readers s = []" using w s(2) by (auto simp: woken_ok_def)
    then have o: "\<not> soccupied (lck s)" using m wr by (simp add: mode_ok_def)
    have "woken_ok (outcome x f (Got (Shared_LockHelper (lck s))) (s\<lparr>woken := ?w\<rparr>))"
      using alone [OF c(1)] by (simp add: woken_ok_def)
    then have "finv (outcome x f (Got (Shared_LockHelper (lck s))) (s\<lparr>woken := ?w\<rparr>))"
      using mode_LockHelper [OF m o False, of f ?w] queues_got [OF q, of "Shared_LockHelper (lck s)" ?w x f]
      by (simp add: finv_def Shared_LockHelper_def)
    then show ?thesis using x False by (auto simp: Shared_ops_def)
  qed
qed

text \<open>Fibers are notified while none is.\<close>

lemma queues_notified:
  assumes q: "queues_ok s" and w: "\<forall>h. woken s h = None"
    and l: "set (shared_queue (lck t)) = set (shared_queue (lck s)) - set gs" "set (exclusive_queue (lck t)) = set (exclusive_queue (lck s)) - set gs"
      "distinct (shared_queue (lck t))" "distinct (exclusive_queue (lck t))" and t: "waits t = waits s" "woken t = woken s"
  shows "queues_ok (notified gs t)"
  using q w l(3,4) t unfolding queues_ok_def notified_fields l(1,2) by auto

lemma queues_disjoint: "queues_ok s \<Longrightarrow> f \<in> set (exclusive_queue (lck s)) \<Longrightarrow> f \<notin> set (shared_queue (lck s))"
  by (auto simp: queues_ok_def)

lemma finv_notify_one:
  assumes q: "queues_ok s" and w: "\<forall>h. woken s h = None" and p: "pick g (exclusive_queue (lck s)) = (gs, r)"
    and t: "waits t = waits s" "woken t = woken s" "writers t = []" "readers t = []" "exclusive_queue (lck t) = r"
      "shared_queue (lck t) = shared_queue (lck s)" and m: "mode_ok t"
  shows "finv (notified gs t)"
proof (rule finvI)
  have d: "distinct (exclusive_queue (lck s))" "distinct (shared_queue (lck s))" using q by (simp_all add: queues_ok_def)
  have g: "gs = [] \<and> r = exclusive_queue (lck s) \<or> (\<exists>h \<in> set (exclusive_queue (lck s)). gs = [h] \<and> r = remove1 h (exclusive_queue (lck s)))"
    using pick_cases [of g "exclusive_queue (lck s)"] p by auto
  show "queues_ok (notified gs t)"
    by (rule queues_notified [OF q w]) (use g d t queues_disjoint [OF q] in auto)
  show "mode_ok (notified gs t)" using m by (simp add: mode_ok_def)
  have "calm_ok (notified gs t)" using g w t by (auto simp: calm_ok_def)
  then show "woken_ok (notified gs t)" using t by (simp add: woken_ok_def)
qed

lemma finv_unlock:
  assumes s: "finv s" "f \<in> set (writers s)" "\<forall>h. woken s h = None"
  shows "finv (do_release Shared_ops False f r g s)"
proof -
  have q: "queues_ok s" and m: "mode_ok s" using s(1) by (simp_all add: finv_def)
  have wr: "writers s = [f]" "readers s = []" using m s(2) by (cases "writers s"; auto simp: mode_ok_def)+
  obtain gs qe where p: "pick g (exclusive_queue (lck s)) = (gs, qe)" by fastforce
  show ?thesis
  proof (cases "shared_queue (lck s) \<noteq> [] \<and> (exclusive_queue (lck s) = [] \<or> r mod 2 = 0)")
    case True
    let ?t = "s\<lparr>lck := lck s\<lparr>soccupied := False, shared_queue := []\<rparr>, writers := []\<rparr>"
    have "finv (notified (rev (shared_queue (lck s))) ?t)"
    proof (rule finvI)
      show "queues_ok (notified (rev (shared_queue (lck s))) ?t)"
        by (rule queues_notified [OF q s(3)]) (use q queues_disjoint [OF q] in \<open>auto simp: queues_ok_def\<close>)
      show "mode_ok (notified (rev (shared_queue (lck s))) ?t)" using m wr by (simp add: mode_ok_def)
      show "woken_ok (notified (rev (shared_queue (lck s))) ?t)" using q s(3) by (auto simp: woken_ok_def queues_ok_def)
    qed
    then show ?thesis using True wr by (simp add: do_release_def Shared_ops_def Shared_unlock_def)
  next
    case False
    let ?t = "s\<lparr>lck := lck s\<lparr>soccupied := False, exclusive_queue := qe\<rparr>, writers := []\<rparr>"
    have "finv (notified gs ?t)"
      by (rule finv_notify_one [OF q s(3) p]) (use m wr in \<open>simp_all add: mode_ok_def\<close>)
    then show ?thesis using False wr p by (auto simp: do_release_def Shared_ops_def Shared_unlock_def Let_def)
  qed
qed

lemma finv_unlock_shared:
  assumes s: "finv s" "f \<in> set (readers s)" "\<forall>h. woken s h = None"
  shows "finv (do_release Shared_ops True f r g s)"
proof -
  have q: "queues_ok s" and m: "mode_ok s" using s(1) by (simp_all add: finv_def)
  have wr: "writers s = []" using m s(2) by (auto simp: mode_ok_def)
  obtain gs qe where p: "pick g (exclusive_queue (lck s)) = (gs, qe)" by fastforce
  let ?rs = "remove1 f (readers s)" and ?c = "shared_owners_count (lck s) - 1"
  have le: "length ?rs < 2 ^ 32" using m remove_length [OF s(2)] by (simp add: mode_ok_def)
  have c: "?c = word_of_nat (length ?rs)" using m count_less [OF s(2)] by (simp only: mode_ok_def)
  have z: "?c = 0 \<longleftrightarrow> ?rs = []" using count_zero [OF le] c by (simp only: length_0_conv)
  show ?thesis
  proof (cases "?rs = []")
    case True
    let ?t = "s\<lparr>lck := lck s\<lparr>shared_owners_count := ?c, soccupied := False, exclusive_queue := qe\<rparr>, readers := []\<rparr>"
    have c0: "?c = 0" using z True by simp
    have "finv (notified gs ?t)"
      by (rule finv_notify_one [OF q s(3) p]) (use m wr c0 in \<open>simp_all add: mode_ok_def\<close>)
    then show ?thesis using True c0 p by (simp add: do_release_def Shared_ops_def Shared_unlock_shared_def)
  next
    case False
    let ?t = "s\<lparr>lck := lck s\<lparr>shared_owners_count := ?c\<rparr>, readers := ?rs\<rparr>"
    have nz: "?c \<noteq> 0" using z False by simp
    have "readers s \<noteq> []" using s(2) by auto
    then have "mode_ok ?t" using m wr c le False by (simp add: mode_ok_def del: length_remove1)
    then have "finv (notified [] ?t)" using q s(3) by (simp add: finv_def queues_ok_def woken_ok_def mode_ok_def del: length_remove1)
    then show ?thesis using nz by (simp add: do_release_def Shared_ops_def Shared_unlock_shared_def)
  qed
qed

lemma finv_step:
  assumes s: "finv s" "lstep True A Shared_ops s t" and A: "OTimed \<notin> A"
  shows "finv t"
  using s(2)
proof cases
  case (l_call f x)
  then show ?thesis using finv_call [OF s(1), of f x] A by auto
next
  case (l_resume f x)
  then show ?thesis using finv_resume [OF s(1)] by simp
next
  case (l_expire f x)
  then have "t = s\<lparr>lck := lck s\<lparr>exclusive_queue := remove1 f (exclusive_queue (lck s)), shared_queue := remove1 f (shared_queue (lck s))\<rparr>,
      waits := (waits s)(f := None)\<rparr>" by (simp add: Shared_ops_def)
  moreover have "queues_ok s" "mode_ok s" "woken_ok s" using s(1) by (simp_all add: finv_def)
  ultimately show ?thesis by (auto simp: finv_def queues_ok_def mode_ok_def woken_ok_def calm_ok_def)
next
  case (l_unlock f r g)
  then show ?thesis using finv_unlock [OF s(1)] by simp
next
  case (l_unlock_shared f r g)
  then show ?thesis using finv_unlock_shared [OF s(1)] by simp
qed

lemma shared_exclusive_inv:
  assumes "lreach True A Shared_ops (lsys_new fsmutex_new) s" "OTimed \<notin> A"
  shows "finv s"
  by (rule lreach_keeps [OF assms(1) _ finv_step [OF _ _ assms(2)]])
    (simp_all add: finv_def queues_ok_def mode_ok_def woken_ok_def fsmutex_new_def)

subsection \<open>Properties\<close>

lemma lreach_call:
  assumes "lreach calm A ops a s" "idle f s" "x \<in> A" "calm \<longrightarrow> (\<forall>h. woken s h = None)" "length (writers s) + length (readers s) < 2 ^ 32 - 1"
    and "enter ops x f (lck s) = r" "t = outcome x f r s"
  shows "lreach calm A ops a t"
  using l_next [OF assms(1) l_call [OF assms(2-5)]] assms(6,7) by simp

lemma lreach_unlock:
  assumes "lreach calm A ops a s" "idle f s" "f \<in> set (writers s)" "calm \<longrightarrow> (\<forall>h. woken s h = None)" "t = do_release ops False f r g s"
  shows "lreach calm A ops a t"
  using l_next [OF assms(1) l_unlock [OF assms(2-4)]] assms(5) by simp

lemma lreach_resume:
  assumes "lreach calm A ops a s" "woken s f = Some x" "length (writers s) + length (readers s) < 2 ^ 32 - 1"
    and "resumed ops x f (lck s) = r" "t = outcome x f r (s\<lparr>woken := (woken s)(f := None)\<rparr>)"
  shows "lreach calm A ops a t"
  using l_next [OF assms(1) l_resume [OF assms(2,3)]] assms(4,5) by simp

text \<open>Fiber 1 locks, fiber 2 waits, fiber 1 unlocks and locks again, fiber 2 goes on.\<close>

definition contended :: "'l lock_ops \<Rightarrow> lop \<Rightarrow> 'l lsys \<Rightarrow> 'l lsys" where
  "contended ops x s =
     (let s = outcome OLock 1 (enter ops OLock 1 (lck s)) s;
          s = outcome x 2 (enter ops x 2 (lck s)) s;
          s = do_release ops False 1 0 2 s;
          s = outcome OLock 1 (enter ops OLock 1 (lck s)) s
      in outcome x 2 (resumed ops x 2 (lck s)) (s\<lparr>woken := (woken s)(2 := None)\<rparr>))"

lemma contended_reach:
  assumes "OLock \<in> A" "x \<in> A"
    and s1: "enter ops OLock 1 l0 = Got l1" and s2: "enter ops x 2 l1 = Waits l2" and s3: "release ops False 0 2 l2 = (l3, [2])"
    and s4: "enter ops OLock 1 l3 = Got l4" and x: "\<not> shared_op x"
  shows "lreach False A ops (lsys_new l0) (contended ops x (lsys_new l0))"
proof -
  let ?t1 = "outcome OLock 1 (enter ops OLock 1 l0) (lsys_new l0)"
  let ?t2 = "outcome x 2 (enter ops x 2 (lck ?t1)) ?t1"
  let ?t3 = "do_release ops False 1 0 2 ?t2"
  let ?t4 = "outcome OLock 1 (enter ops OLock 1 (lck ?t3)) ?t3"
  have r1: "lreach False A ops (lsys_new l0) ?t1"
    by (rule lreach_call [OF l_start, where f = 1 and x = OLock]) (simp_all add: idle_def assms(1) del: One_nat_def)
  have r2: "lreach False A ops (lsys_new l0) ?t2"
    by (rule lreach_call [OF r1, where f = 2 and x = x]) (simp_all add: idle_def assms del: One_nat_def)
  have r3: "lreach False A ops (lsys_new l0) ?t3"
    by (rule lreach_unlock [OF r2, where f = 1]) (simp_all add: idle_def assms del: One_nat_def)
  have r4: "lreach False A ops (lsys_new l0) ?t4"
    by (rule lreach_call [OF r3, where f = 1 and x = OLock]) (simp_all add: idle_def do_release_def assms del: One_nat_def)
  have w: "woken ?t4 2 = Some x" by (simp add: do_release_def assms del: One_nat_def)
  have "lreach False A ops (lsys_new l0) (outcome x 2 (resumed ops x 2 (lck ?t4)) (?t4\<lparr>woken := (woken ?t4)(2 := None)\<rparr>))"
    by (rule lreach_resume [OF r4 w]) (simp_all add: do_release_def assms del: One_nat_def)
  then show ?thesis unfolding contended_def Let_def lsys_new_fields .
qed

text \<open>
  C37: The shared lock of the fibers excludes: when the fibers that are notified run before another fiber calls the lock, and nobody
  uses the timed exclusive lock, there is at most one writer, no reader beside a writer, and the words of the lock say who is inside;
  for any number of fibers, with blocking, trying and timed shared calls, in any order.
\<close>

theorem fiber_shared_exclusive:
  assumes "lreach True A Shared_ops (lsys_new fsmutex_new) s" "OTimed \<notin> A"
  shows "length (writers s) \<le> 1 \<and> (writers s \<noteq> [] \<longrightarrow> readers s = []) \<and>
    (soccupied (lck s) \<longleftrightarrow> writers s \<noteq> [] \<or> readers s \<noteq> []) \<and> unat (shared_owners_count (lck s)) = length (readers s)"
proof -
  have "mode_ok s" using shared_exclusive_inv [OF assms] by (simp add: finv_def)
  then show ?thesis by (auto simp: mode_ok_def unat_of_nat take_bit_nat_eq_self)
qed

theorem fiber_shared_exclusive_witness:
  "\<exists>s. lreach True {OLock} Shared_ops (lsys_new fsmutex_new) s \<and> writers s = [1] \<and> readers s = [] \<and> soccupied (lck s)"
proof -
  let ?s = "outcome OLock 1 (Got (Shared_LockHelper fsmutex_new)) (lsys_new fsmutex_new)"
  have r: "lreach True {OLock} Shared_ops (lsys_new fsmutex_new) ?s"
    by (rule lreach_call [OF l_start, where f = 1 and x = OLock]) (simp_all add: idle_def Shared_ops_def Shared_lock_def fsmutex_new_def)
  have "writers ?s = [1]" by simp
  then show ?thesis using fiber_shared_exclusive [OF r] r by (intro exI [of _ ?s]) simp
qed

text \<open>
  The locks of the fibers do not exclude when a fiber calls the lock before a notified one runs. Fiber 1 holds the lock, fiber 2
  waits in \<open>lock\<close> of the shared lock or \<open>try_lock_for\<close> of the timed lock; fiber 1 unlocks and locks again; fiber 2 does not test the lock
  a second time and both hold it. And \<open>try_lock_for\<close> of the shared lock takes it shared, so a reader comes in beside the writer.
\<close>

lemma fiber_locks_double:
  "lreach False {OLock} Shared_ops (lsys_new fsmutex_new) (contended Shared_ops OLock (lsys_new fsmutex_new)) \<and>
   writers (contended Shared_ops OLock (lsys_new fsmutex_new)) = [2, 1] \<and>
   lreach False {OLock, OTimed} Timed_ops (lsys_new tmutex_new) (contended Timed_ops OTimed (lsys_new tmutex_new)) \<and>
   writers (contended Timed_ops OTimed (lsys_new tmutex_new)) = [2, 1] \<and>
   (\<exists>s. lreach True {OTimed, OTryShared} Shared_ops (lsys_new fsmutex_new) s \<and> writers s = [1] \<and> readers s = [2])"
proof (intro conjI)
  show "lreach False {OLock} Shared_ops (lsys_new fsmutex_new) (contended Shared_ops OLock (lsys_new fsmutex_new))"
    by (rule contended_reach [where ?l1.0 = "Shared_LockHelper fsmutex_new" and ?l2.0 = "Shared_LockHelper fsmutex_new\<lparr>exclusive_queue := [2]\<rparr>"
          and ?l3.0 = "Shared_LockHelper fsmutex_new\<lparr>soccupied := False\<rparr>" and ?l4.0 = "Shared_LockHelper fsmutex_new"])
      (simp_all add: Shared_ops_def Shared_lock_def Shared_LockHelper_def Shared_unlock_def pick_def fsmutex_new_def Let_def)
  show "lreach False {OLock, OTimed} Timed_ops (lsys_new tmutex_new) (contended Timed_ops OTimed (lsys_new tmutex_new))"
    by (rule contended_reach [where ?l1.0 = "tmutex_new\<lparr>toccupied := True\<rparr>" and ?l2.0 = "\<lparr>tqueue = [2], toccupied = True\<rparr>"
          and ?l3.0 = tmutex_new and ?l4.0 = "tmutex_new\<lparr>toccupied := True\<rparr>"])
      (simp_all add: Timed_ops_def Timed_lock_def Timed_TimedWaitHelper_def Timed_unlock_def pick_def tmutex_new_def Let_def)
  show "writers (contended Shared_ops OLock (lsys_new fsmutex_new)) = [2, 1]"
    by (simp add: contended_def do_release_def Shared_ops_def Shared_lock_def Shared_LockHelper_def Shared_unlock_def pick_def fsmutex_new_def Let_def)
  show "writers (contended Timed_ops OTimed (lsys_new tmutex_new)) = [2, 1]"
    by (simp add: contended_def do_release_def Timed_ops_def Timed_lock_def Timed_TimedWaitHelper_def Timed_TimedWaitHelper_end_def Timed_unlock_def
        pick_def tmutex_new_def Let_def)
  show "\<exists>s. lreach True {OTimed, OTryShared} Shared_ops (lsys_new fsmutex_new) s \<and> writers s = [1] \<and> readers s = [2]"
  proof -
    let ?s = "outcome OTimed 1 (enter Shared_ops OTimed 1 fsmutex_new) (lsys_new fsmutex_new)"
    let ?t = "outcome OTryShared 2 (enter Shared_ops OTryShared 2 (lck ?s)) ?s"
    note D = Shared_ops_def Shared_TimedWaitHelper_def Shared_try_lock_shared_def Shared_SharedLockHelper_def fsmutex_new_def idle_def
    have r: "lreach True {OTimed, OTryShared} Shared_ops (lsys_new fsmutex_new) ?s"
      by (rule lreach_call [OF l_start, where f = 1 and x = OTimed]) (simp_all add: idle_def)
    have "lreach True {OTimed, OTryShared} Shared_ops (lsys_new fsmutex_new) ?t"
      by (rule lreach_call [OF r, where f = 2 and x = OTryShared]) (simp_all add: D)
    moreover have "writers ?t = [1] \<and> readers ?t = [2]" by (simp add: D)
    ultimately show ?thesis by blast
  qed
qed

end
