(* ===== verification/ThreadLocals.thy ===== *)
theory ThreadLocals
  imports Prelude
begin

section \<open>Thread local pointers of fibers\<close>

text \<open>
  \<open>ThreadLocalPtrProxy\<close> of \<open>include/yaclib/fault/detail/fiber/thread_local_proxy.hpp\<close> with \<open>src/fault/fiber/thread_local_proxy.cpp\<close> and the
  two functions of \<open>FiberBase\<close> it calls. In the fault build a \<open>thread_local\<close> pointer is an index; each fiber maps indices to values, and
  a map that all fibers share has the values of those that did not assign. The counter of the next index is a static member of the class
  template: there is one for each type of pointer, while the maps are shared by all types. Pointers are 64 bit words, null is 0; types,
  proxies and fibers are numbers. An operation of a thread that is no fiber fails an assertion and has the value None.
\<close>

subsection \<open>Values\<close>

type_synonym ptr = "64 word"

record tls_state =
  tls :: "nat \<Rightarrow> 64 word \<Rightarrow> ptr option"
  sDefaults :: "64 word \<Rightarrow> ptr option"
  sNextFreeIndex :: "nat \<Rightarrow> 64 word"
  proxy :: "nat \<Rightarrow> 64 word option"
  current :: "nat option"

text \<open>\<open>defaults[id]\<close> inserts null when there is no value.\<close>

definition GetTLS :: "nat \<Rightarrow> 64 word \<Rightarrow> tls_state \<Rightarrow> ptr \<times> tls_state" where
  "GetTLS f i s =
     (case tls s f i of
        Some v \<Rightarrow> (v, s)
      | None \<Rightarrow> (case sDefaults s i of Some v \<Rightarrow> (v, s) | None \<Rightarrow> (0, s\<lparr>sDefaults := (sDefaults s)(i \<mapsto> 0)\<rparr>)))"

definition SetTLS :: "nat \<Rightarrow> 64 word \<Rightarrow> ptr \<Rightarrow> tls_state \<Rightarrow> tls_state" where
  "SetTLS f i v s = s\<lparr>tls := (tls s)(f := (tls s f)(i \<mapsto> v))\<rparr>"

definition GetImpl :: "64 word \<Rightarrow> tls_state \<Rightarrow> (ptr \<times> tls_state) option" where
  "GetImpl i s = (case current s of None \<Rightarrow> None | Some f \<Rightarrow> Some (GetTLS f i s))"

definition Set_value :: "ptr \<Rightarrow> 64 word \<Rightarrow> tls_state \<Rightarrow> tls_state option" where
  "Set_value v i s = (case current s of None \<Rightarrow> None | Some f \<Rightarrow> Some (SetTLS f i v s))"

definition SetDefault :: "ptr \<Rightarrow> 64 word \<Rightarrow> tls_state \<Rightarrow> tls_state" where
  "SetDefault v i s = s\<lparr>sDefaults := (sDefaults s)(i \<mapsto> v)\<rparr>"

subsection \<open>Proxies\<close>

text \<open>The constructors of a proxy \<open>p\<close> of the type \<open>T\<close>.\<close>

definition Proxy_new :: "nat \<Rightarrow> nat \<Rightarrow> tls_state \<Rightarrow> tls_state" where
  "Proxy_new T p s = s\<lparr>proxy := (proxy s)(p \<mapsto> sNextFreeIndex s T),
     sNextFreeIndex := (sNextFreeIndex s)(T := sNextFreeIndex s T + 1)\<rparr>"

definition Proxy_value :: "nat \<Rightarrow> nat \<Rightarrow> ptr \<Rightarrow> tls_state \<Rightarrow> tls_state" where
  "Proxy_value T p v s = (let i = sNextFreeIndex s T; s = Proxy_new T p s in if v \<noteq> 0 then SetDefault v i s else s)"

definition Proxy_move :: "nat \<Rightarrow> nat \<Rightarrow> tls_state \<Rightarrow> tls_state option" where
  "Proxy_move p other s = (case proxy s other of None \<Rightarrow> None | Some j \<Rightarrow> Some (s\<lparr>proxy := (proxy s)(p \<mapsto> j)\<rparr>))"

definition Proxy_copy :: "nat \<Rightarrow> nat \<Rightarrow> nat \<Rightarrow> tls_state \<Rightarrow> tls_state option" where
  "Proxy_copy T p other s =
     (case proxy s other of
        None \<Rightarrow> None
      | Some j \<Rightarrow> let i = sNextFreeIndex s T in map_option (\<lambda>(v, s). SetDefault v i s) (GetImpl j (Proxy_new T p s)))"

definition Proxy_Get :: "nat \<Rightarrow> tls_state \<Rightarrow> (ptr \<times> tls_state) option" where
  "Proxy_Get p s = (case proxy s p of None \<Rightarrow> None | Some i \<Rightarrow> GetImpl i s)"

definition Proxy_assign :: "nat \<Rightarrow> ptr \<Rightarrow> tls_state \<Rightarrow> tls_state option" where
  "Proxy_assign p v s = (case proxy s p of None \<Rightarrow> None | Some i \<Rightarrow> Set_value v i s)"

definition Proxy_assign_move :: "nat \<Rightarrow> nat \<Rightarrow> tls_state \<Rightarrow> tls_state option" where
  "Proxy_assign_move p other s =
     (case (proxy s p, proxy s other) of (Some i, Some j) \<Rightarrow> Some (s\<lparr>proxy := (proxy s)(p \<mapsto> j)\<rparr>) | _ \<Rightarrow> None)"

text \<open>The assignment of a proxy of another type does not compare first.\<close>

definition Proxy_assign_conv :: "nat \<Rightarrow> nat \<Rightarrow> tls_state \<Rightarrow> tls_state option" where
  "Proxy_assign_conv p other s =
     (case (proxy s p, proxy s other) of (Some i, Some j) \<Rightarrow> map_option (\<lambda>(v, s). SetDefault v i s) (GetImpl j s) | _ \<Rightarrow> None)"

definition Proxy_assign_copy :: "nat \<Rightarrow> nat \<Rightarrow> tls_state \<Rightarrow> tls_state option" where
  "Proxy_assign_copy p other s =
     Option.bind (Proxy_Get p s) (\<lambda>(v, s). Option.bind (Proxy_Get other s) (\<lambda>(w, s).
       if v = w then Some s else Proxy_assign_conv p other s))"

definition Proxy_bool :: "nat \<Rightarrow> tls_state \<Rightarrow> (bool \<times> tls_state) option" where
  "Proxy_bool p s = map_option (\<lambda>(v, s). (v \<noteq> 0, s)) (Proxy_Get p s)"

text \<open>The address of an element of the given size.\<close>

definition Proxy_index :: "nat \<Rightarrow> 64 word \<Rightarrow> 64 word \<Rightarrow> tls_state \<Rightarrow> (ptr \<times> tls_state) option" where
  "Proxy_index p i size_of s = map_option (\<lambda>(v, s). (v + i * size_of, s)) (Proxy_Get p s)"

text \<open>The comparisons: six operators, on a proxy, a pointer or null at each side.\<close>

datatype cmp_op = CEq | CNe | CLt | CGt | CLe | CGe

datatype operand = OProxy nat | OPtr ptr | ONull

fun cmp_ptr :: "cmp_op \<Rightarrow> ptr \<Rightarrow> ptr \<Rightarrow> bool" where
  "cmp_ptr CEq a b = (a = b)"
| "cmp_ptr CNe a b = (a \<noteq> b)"
| "cmp_ptr CLt a b = (a < b)"
| "cmp_ptr CGt a b = (b < a)"
| "cmp_ptr CLe a b = (a \<le> b)"
| "cmp_ptr CGe a b = (b \<le> a)"

fun operand_Get :: "operand \<Rightarrow> tls_state \<Rightarrow> (ptr \<times> tls_state) option" where
  "operand_Get (OProxy p) s = Proxy_Get p s"
| "operand_Get (OPtr v) s = Some (v, s)"
| "operand_Get ONull s = Some (0, s)"

definition Proxy_compare :: "cmp_op \<Rightarrow> operand \<Rightarrow> operand \<Rightarrow> tls_state \<Rightarrow> (bool \<times> tls_state) option" where
  "Proxy_compare c a b s =
     Option.bind (operand_Get a s) (\<lambda>(v, s). map_option (\<lambda>(w, s). (cmp_ptr c v w, s)) (operand_Get b s))"

subsection \<open>Programs of several fibers\<close>

text \<open>A program declares variables, and its fibers assign, read and compare them in any order.\<close>

datatype tcmd = TSwitch nat | TDeclare nat nat ptr | TAssign nat ptr | TRead nat | TTest nat | TElem nat "64 word" "64 word" | TCompare cmp_op operand operand

datatype tout = OutPtr ptr | OutBool bool

fun tls_step :: "tcmd \<Rightarrow> tls_state \<Rightarrow> (tout list \<times> tls_state) option" where
  "tls_step (TSwitch f) s = Some ([], s\<lparr>current := Some f\<rparr>)"
| "tls_step (TDeclare T p v) s = Some ([], Proxy_value T p v s)"
| "tls_step (TAssign p v) s = map_option (\<lambda>s. ([], s)) (Proxy_assign p v s)"
| "tls_step (TRead p) s = map_option (\<lambda>(v, s). ([OutPtr v], s)) (Proxy_Get p s)"
| "tls_step (TTest p) s = map_option (\<lambda>(b, s). ([OutBool b], s)) (Proxy_bool p s)"
| "tls_step (TElem p i n) s = map_option (\<lambda>(v, s). ([OutPtr v], s)) (Proxy_index p i n s)"
| "tls_step (TCompare c a b) s = map_option (\<lambda>(r, s). ([OutBool r], s)) (Proxy_compare c a b s)"

primrec tls_run :: "tcmd list \<Rightarrow> tls_state \<Rightarrow> tout list option" where
  "tls_run [] s = Some []"
| "tls_run (c # cs) s = Option.bind (tls_step c s) (\<lambda>(os, s). map_option (\<lambda>rest. os @ rest) (tls_run cs s))"

definition tls_new :: "nat \<Rightarrow> tls_state" where
  "tls_new f = \<lparr>tls = \<lambda>f i. None, sDefaults = \<lambda>i. None, sNextFreeIndex = \<lambda>T. 0, proxy = \<lambda>p. None, current = Some f\<rparr>"

text \<open>What \<open>thread_local\<close> means: each fiber has its own variable, which begins with the initial value.\<close>

record spec_state =
  initial :: "nat \<Rightarrow> ptr"
  own_value :: "nat \<Rightarrow> nat \<Rightarrow> ptr option"
  who :: nat

definition spec_value :: "spec_state \<Rightarrow> nat \<Rightarrow> ptr" where
  "spec_value s p = (case own_value s (who s) p of Some v \<Rightarrow> v | None \<Rightarrow> initial s p)"

fun spec_operand :: "spec_state \<Rightarrow> operand \<Rightarrow> ptr" where
  "spec_operand s (OProxy p) = spec_value s p"
| "spec_operand s (OPtr v) = v"
| "spec_operand s ONull = 0"

fun spec_step :: "tcmd \<Rightarrow> spec_state \<Rightarrow> tout list \<times> spec_state" where
  "spec_step (TSwitch f) s = ([], s\<lparr>who := f\<rparr>)"
| "spec_step (TDeclare T p v) s = ([], s\<lparr>initial := (initial s)(p := v)\<rparr>)"
| "spec_step (TAssign p v) s = ([], s\<lparr>own_value := (own_value s)(who s := (own_value s (who s))(p \<mapsto> v))\<rparr>)"
| "spec_step (TRead p) s = ([OutPtr (spec_value s p)], s)"
| "spec_step (TTest p) s = ([OutBool (spec_value s p \<noteq> 0)], s)"
| "spec_step (TElem p i n) s = ([OutPtr (spec_value s p + i * n)], s)"
| "spec_step (TCompare c a b) s = ([OutBool (cmp_ptr c (spec_operand s a) (spec_operand s b))], s)"

primrec spec_run :: "tcmd list \<Rightarrow> spec_state \<Rightarrow> tout list" where
  "spec_run [] s = []"
| "spec_run (c # cs) s = (let (os, s) = spec_step c s in os @ spec_run cs s)"

definition spec_new :: "nat \<Rightarrow> spec_state" where
  "spec_new f = \<lparr>initial = \<lambda>p. 0, own_value = \<lambda>f p. None, who = f\<rparr>"

text \<open>Each variable is declared once, before it is used.\<close>

fun operand_known :: "nat set \<Rightarrow> operand \<Rightarrow> bool" where
  "operand_known D (OProxy p) \<longleftrightarrow> p \<in> D"
| "operand_known D x \<longleftrightarrow> True"

fun cmd_known :: "nat set \<Rightarrow> tcmd \<Rightarrow> bool" where
  "cmd_known D (TSwitch f) \<longleftrightarrow> True"
| "cmd_known D (TDeclare T p v) \<longleftrightarrow> p \<notin> D"
| "cmd_known D (TAssign p v) \<longleftrightarrow> p \<in> D"
| "cmd_known D (TRead p) \<longleftrightarrow> p \<in> D"
| "cmd_known D (TTest p) \<longleftrightarrow> p \<in> D"
| "cmd_known D (TElem p i n) \<longleftrightarrow> p \<in> D"
| "cmd_known D (TCompare c a b) \<longleftrightarrow> operand_known D a \<and> operand_known D b"

fun declares :: "tcmd \<Rightarrow> nat set" where
  "declares (TDeclare T p v) = {p}"
| "declares c = {}"

text \<open>The variables of the program have the type \<open>T\<close>.\<close>

fun of_type :: "nat \<Rightarrow> tcmd \<Rightarrow> bool" where
  "of_type T (TDeclare U p v) \<longleftrightarrow> U = T"
| "of_type T c \<longleftrightarrow> True"

primrec prog_ok :: "nat set \<Rightarrow> tcmd list \<Rightarrow> bool" where
  "prog_ok D [] \<longleftrightarrow> True"
| "prog_ok D (c # cs) \<longleftrightarrow> cmd_known D c \<and> prog_ok (D \<union> declares c) cs"

subsection \<open>The simulation\<close>

definition default_value :: "tls_state \<Rightarrow> 64 word \<Rightarrow> ptr" where
  "default_value s i = (case sDefaults s i of Some v \<Rightarrow> v | None \<Rightarrow> 0)"

definition sim :: "nat \<Rightarrow> nat set \<Rightarrow> nat \<Rightarrow> tls_state \<Rightarrow> spec_state \<Rightarrow> bool" where
  "sim T D n s a \<longleftrightarrow> dom (proxy s) = D \<and> inj_on (proxy s) D \<and> unat (sNextFreeIndex s T) = n \<and> n < 2 ^ 64 \<and> current s = Some (who a) \<and>
     (\<forall>p i. proxy s p = Some i \<longrightarrow> unat i < n \<and> default_value s i = initial a p \<and> (\<forall>f. tls s f i = own_value a f p)) \<and>
     (\<forall>i. n \<le> unat i \<longrightarrow> default_value s i = 0 \<and> (\<forall>f. tls s f i = None)) \<and> (\<forall>f p. p \<notin> D \<longrightarrow> own_value a f p = None)"

lemma GetTLS_value:
  "fst (GetTLS f i s) = (case tls s f i of Some v \<Rightarrow> v | None \<Rightarrow> default_value s i)"
  "tls (snd (GetTLS f i s)) = tls s" "proxy (snd (GetTLS f i s)) = proxy s" "current (snd (GetTLS f i s)) = current s"
  "sNextFreeIndex (snd (GetTLS f i s)) = sNextFreeIndex s" "default_value (snd (GetTLS f i s)) = default_value s"
  by (auto simp: GetTLS_def default_value_def fun_eq_iff split: option.splits)

lemma sim_cong:
  assumes "sim T D n s a" "tls t = tls s" "proxy t = proxy s" "current t = current s" "sNextFreeIndex t = sNextFreeIndex s"
    "default_value t = default_value s"
  shows "sim T D n t a"
  using assms by (simp add: sim_def)

lemma sim_Get:
  assumes s: "sim T D n s a" and p: "p \<in> D"
  shows "\<exists>t. Proxy_Get p s = Some (spec_value a p, t) \<and> sim T D n t a"
proof -
  obtain i where i: "proxy s p = Some i" using s p by (auto simp: sim_def dom_def)
  then have v: "default_value s i = initial a p" "tls s (who a) i = own_value a (who a) p" and c: "current s = Some (who a)"
    using s by (auto simp: sim_def)
  have r: "Proxy_Get p s = Some (GetTLS (who a) i s)" using i c by (simp add: Proxy_Get_def GetImpl_def)
  have "fst (GetTLS (who a) i s) = spec_value a p" using v by (simp add: GetTLS_value spec_value_def split: option.splits)
  moreover have "sim T D n (snd (GetTLS (who a) i s)) a" by (rule sim_cong [OF s]) (simp_all add: GetTLS_value)
  ultimately show ?thesis using r by (metis prod.collapse)
qed

lemma sim_operand:
  assumes "sim T D n s a" "operand_known D x"
  shows "\<exists>t. operand_Get x s = Some (spec_operand a x, t) \<and> sim T D n t a"
  using assms sim_Get by (cases x) auto

lemma sim_assign:
  assumes s: "sim T D n s a" and p: "p \<in> D"
  shows "\<exists>t. Proxy_assign p v s = Some t \<and> sim T D n t (snd (spec_step (TAssign p v) a))"
proof -
  obtain i where i: "proxy s p = Some i" using s p by (auto simp: sim_def dom_def)
  have c: "current s = Some (who a)" and il: "unat i < n" using s i by (auto simp: sim_def)
  have other: "j \<noteq> i" if "proxy s q = Some j" "q \<noteq> p" for q j
    using s i that p by (auto simp: sim_def inj_on_def dom_def)
  let ?t = "SetTLS (who a) i v s"
  have d: "default_value ?t = default_value s" by (simp add: SetTLS_def default_value_def fun_eq_iff)
  have o: "n \<le> unat j \<Longrightarrow> j \<noteq> i" for j using il by auto
  have f: "proxy ?t = proxy s" "sNextFreeIndex ?t = sNextFreeIndex s" "current ?t = current s"
    "tls ?t g j = (if g = who a \<and> j = i then Some v else tls s g j)" for g j
    by (simp_all add: SetTLS_def)
  have "tls ?t g j = own_value (snd (spec_step (TAssign p v) a)) g q" if "proxy s q = Some j" for g j q
  proof -
    have "tls s g j = own_value a g q" using s that by (simp add: sim_def)
    then show ?thesis using f(4) other [OF that] i that by (cases "q = p") auto
  qed
  then have "sim T D n ?t (snd (spec_step (TAssign p v) a))"
    using s p d f o unfolding sim_def by auto
  then show ?thesis using i c by (simp add: Proxy_assign_def Set_value_def)
qed

lemma sim_declare:
  assumes s: "sim T D n s a" and p: "p \<notin> D" and n: "Suc n < 2 ^ 64"
  shows "sim T (insert p D) (Suc n) (Proxy_value T p v s) (snd (spec_step (TDeclare T p v) a))"
proof -
  let ?i = "sNextFreeIndex s T" and ?t = "Proxy_value T p v s"
  have ui: "unat ?i = n" using s by (simp add: sim_def)
  have nx: "unat (?i + 1) = Suc n" using n ui by (simp add: unat_word_ariths(1))
  have f: "tls ?t = tls s" "current ?t = current s" "proxy ?t = (proxy s)(p \<mapsto> ?i)" "sNextFreeIndex ?t T = ?i + 1"
    by (simp_all add: Proxy_value_def Proxy_new_def SetDefault_def Let_def)
  have fr: "default_value s ?i = 0" "tls s f ?i = None" for f using s ui by (auto simp: sim_def)
  have d: "default_value ?t = (default_value s)(?i := v)"
    using fr(1) by (auto simp: Proxy_value_def Proxy_new_def SetDefault_def Let_def default_value_def fun_eq_iff split: option.splits)
  have old: "unat j < n" "j \<noteq> ?i" if "proxy s q = Some j" for q j using s that ui by (auto simp: sim_def)
  have nn: "proxy s q \<noteq> Some ?i" for q using old(2) by blast
  have "inj_on (proxy s) D" "p \<notin> dom (proxy s)" "dom (proxy s) = D" using s p by (auto simp: sim_def)
  then have "inj_on (proxy ?t) (insert p D)"
    using nn nn [symmetric] unfolding inj_on_def f by simp
  moreover have "dom (proxy ?t) = insert p D" using s f by (auto simp: sim_def)
  moreover have "unat j < Suc n \<and> default_value ?t j = initial (snd (spec_step (TDeclare T p v) a)) q \<and>
      (\<forall>g. tls ?t g j = own_value (snd (spec_step (TDeclare T p v) a)) g q)" if q: "proxy ?t q = Some j" for q j
  proof (cases "q = p")
    case True
    then have "j = ?i" using q f(3) by simp
    then show ?thesis using True ui d f(1) fr(2) s p by (simp add: sim_def)
  next
    case False
    then have "proxy s q = Some j" using q f(3) by simp
    then show ?thesis using False s d f(1) old [of q j] by (simp add: sim_def less_SucI)
  qed
  moreover have "default_value ?t j = 0 \<and> (\<forall>g. tls ?t g j = None)" if "Suc n \<le> unat j" for j
  proof -
    have "j \<noteq> ?i" using that ui by auto
    then show ?thesis using s that d f(1) by (simp add: sim_def)
  qed
  moreover have "current ?t = Some (who a)" "\<forall>g q. q \<notin> insert p D \<longrightarrow> own_value a g q = None" using s f(2) by (auto simp: sim_def)
  ultimately show ?thesis using f(4) nx n unfolding sim_def by simp
qed

lemma sim_step:
  assumes s: "sim T D n s a" and c: "cmd_known D c" "of_type T c" and n: "Suc n < 2 ^ 64"
  shows "\<exists>t k. tls_step c s = Some (fst (spec_step c a), t) \<and> sim T (D \<union> declares c) k t (snd (spec_step c a)) \<and> k \<le> Suc n"
proof (cases c)
  case (TSwitch f)
  have "sim T D n (s\<lparr>current := Some f\<rparr>) (a\<lparr>who := f\<rparr>)" using s by (simp add: sim_def default_value_def)
  then show ?thesis using TSwitch by (auto intro: exI [of _ n])
next
  case (TDeclare U p v)
  then have "U = T" using c(2) by simp
  then show ?thesis using TDeclare sim_declare [OF s _ n, of p v] c(1) by auto
next
  case (TAssign p v)
  then obtain t where "Proxy_assign p v s = Some t" "sim T D n t (snd (spec_step (TAssign p v) a))" using sim_assign [OF s] c(1) by auto
  then show ?thesis using TAssign by (auto intro: exI [of _ n])
next
  case (TRead p)
  then obtain t where "Proxy_Get p s = Some (spec_value a p, t)" "sim T D n t a" using sim_Get [OF s] c(1) by auto
  then show ?thesis using TRead by (auto intro: exI [of _ n])
next
  case (TTest p)
  then obtain t where "Proxy_Get p s = Some (spec_value a p, t)" "sim T D n t a" using sim_Get [OF s] c(1) by auto
  then show ?thesis using TTest by (auto simp: Proxy_bool_def intro: exI [of _ n])
next
  case (TElem p i z)
  then obtain t where "Proxy_Get p s = Some (spec_value a p, t)" "sim T D n t a" using sim_Get [OF s] c(1) by auto
  then show ?thesis using TElem by (auto simp: Proxy_index_def intro: exI [of _ n])
next
  case (TCompare o1 x y)
  then obtain t where t: "operand_Get x s = Some (spec_operand a x, t)" "sim T D n t a" using sim_operand [OF s] c(1) by auto
  then obtain u where "operand_Get y t = Some (spec_operand a y, u)" "sim T D n u a" using sim_operand [OF t(2)] c(1) TCompare by auto
  then show ?thesis using TCompare t by (auto simp: Proxy_compare_def intro: exI [of _ n])
qed

lemma sim_run:
  assumes "sim T D n s a" "prog_ok D cs" "list_all (of_type T) cs" "n + length cs < 2 ^ 64"
  shows "tls_run cs s = Some (spec_run cs a)"
  using assms
proof (induction cs arbitrary: D n s a)
  case (Cons c cs)
  obtain t k where t: "tls_step c s = Some (fst (spec_step c a), t)" "sim T (D \<union> declares c) k t (snd (spec_step c a))" "k \<le> Suc n"
    using sim_step [OF Cons.prems(1)] Cons.prems(2-4) by fastforce
  have "tls_run cs t = Some (spec_run cs (snd (spec_step c a)))"
    by (rule Cons.IH [OF t(2)]) (use Cons.prems(2-4) t(3) in auto)
  then show ?case using t(1) by (simp add: case_prod_beta)
qed simp

subsection \<open>Properties\<close>

text \<open>
  C36: The pointer proxies of the fault build are thread local variables: for every program that declares fewer than \<open>2 ^ 64\<close>
  variables once each, all of one type, with a value or without, and whose fibers assign, read, index and compare them in any order, every value read
  and every comparison is the one of variables of which each fiber has its own copy.
\<close>

theorem thread_local_refines:
  assumes "prog_ok {} cs" "list_all (of_type T) cs" "length cs < 2 ^ 64"
  shows "tls_run cs (tls_new f) = Some (spec_run cs (spec_new f))"
proof (rule sim_run [OF _ assms(1,2)])
  show "sim T {} 0 (tls_new f) (spec_new f)"
    by (simp add: sim_def tls_new_def spec_new_def default_value_def)
qed (use assms(3) in simp)

theorem thread_local_refines_witness:
  "tls_run [TDeclare 7 0 5, TAssign 0 6, TSwitch 2, TRead 0, TSwitch 1, TRead 0, TCompare CLt (OProxy 0) ONull] (tls_new 1) =
     Some [OutPtr 5, OutPtr 6, OutBool False]"
  using thread_local_refines [of "[TDeclare 7 0 5, TAssign 0 6, TSwitch 2, TRead 0, TSwitch 1, TRead 0, TCompare CLt (OProxy 0) ONull]" 7 1]
  by (simp add: spec_new_def spec_value_def)

text \<open>
  Variables of different types are not separate: the first of each type has the index 0, so that each of them reads and
  overwrites what was stored in the others.
\<close>

lemma thread_local_types_alias:
  assumes "T \<noteq> U" "v \<noteq> 0"
  shows "tls_run [TDeclare T 0 0, TDeclare U 1 0, TAssign 0 v, TRead 1] (tls_new f) = Some [OutPtr v]"
    and "spec_run [TDeclare T 0 0, TDeclare U 1 0, TAssign 0 v, TRead 1] (spec_new f) = [OutPtr 0]"
  using assms
  by (simp_all add: tls_new_def spec_new_def spec_value_def Proxy_value_def Proxy_new_def Let_def Proxy_assign_def Set_value_def
      SetTLS_def Proxy_Get_def GetImpl_def GetTLS_def)

text \<open>
  The assignment of one proxy to another is not that of thread local variables: it changes the value that other fibers begin
  with and not the value of the fiber that assigns. A fiber that assigned a pointer to \<open>p\<close> before still reads that pointer after \<open>p = q\<close>,
  and every other fiber that did not assign to \<open>p\<close> reads the value of \<open>q\<close>.
\<close>

lemma thread_local_copy:
  assumes "proxy s p = Some i" "proxy s q = Some j" "current s = Some f" "tls s f i = Some u" "tls s f j = Some w" "u \<noteq> w"
    and "g \<noteq> f" "tls s g i = None"
  shows "\<exists>t. Proxy_assign_copy p q s = Some t \<and> map_option fst (Proxy_Get p t) = Some u \<and>
    map_option fst (Proxy_Get p (t\<lparr>current := Some g\<rparr>)) = Some w"
  using assms by (simp add: Proxy_assign_copy_def Proxy_assign_conv_def Proxy_Get_def GetImpl_def GetTLS_def SetDefault_def)


end
