(* ===== verification/Executors.thy ===== *)
theory Executors
  imports Prelude "HOL-Library.Multiset"
begin

section \<open>Jobs, inline executors and the manual executor\<close>

text \<open>
  \<open>Submit\<close> of a function (\<open>exe/submit.hpp\<close>) on the executors of \<open>src/exe/inline.cpp\<close> and \<open>src/exe/manual.cpp\<close>: the job that it allocates
  (\<open>exe/detail/unique_job.hpp\<close>), the call that swallows exceptions (\<open>util/detail/safe_call.hpp\<close>), and \<open>Drain\<close>. Functions are user code:
  a function may submit others, drain the manual executor and throw, in any order. A stack of frames has the calls that are active;
  a job that is used after it was deleted makes the step undefined.
\<close>

subsection \<open>States\<close>

text \<open>\<open>MakeInline()\<close>, \<open>MakeInline(StopTag)\<close>, and a manual executor.\<close>

datatype exe = EInline | EStopped | EManual

datatype act = ASubmit exe nat | ADrain | AThrow

text \<open>What is left of the body of a function; the \<open>Drop\<close> after a call of a job; the loop of \<open>Drain\<close> with \<open>done\<close>.\<close>

datatype jframe = FFunc "act list" | FDelete nat | FDrain nat

text \<open>Jobs are numbered as they are made; \<open>job_func\<close> is the heap. The last three fields log what happened.\<close>

record jstate =
  job_func :: "nat \<Rightarrow> nat option"
  made :: nat
  tasks :: "nat list"
  stack :: "jframe list"
  called :: "nat list"
  dropped :: "nat list"
  pushed :: "nat list"
  drained :: "nat list"

definition jobs_new :: "act list \<Rightarrow> jstate" where
  "jobs_new as = \<lparr>job_func = \<lambda>j. None, made = 0, tasks = [], stack = [FFunc as], called = [], dropped = [], pushed = [], drained = []\<rparr>"

subsection \<open>Operations\<close>

definition UniqueJob_Drop :: "nat \<Rightarrow> jstate \<Rightarrow> jstate option" where
  "UniqueJob_Drop j s = (case job_func s j of None \<Rightarrow> None | Some f \<Rightarrow> Some (s\<lparr>job_func := (job_func s)(j := None)\<rparr>))"

text \<open>The call of the function begins; \<open>Drop\<close> follows.\<close>

definition UniqueJob_Call :: "(nat \<Rightarrow> act list) \<Rightarrow> nat \<Rightarrow> jstate \<Rightarrow> jstate option" where
  "UniqueJob_Call code j s =
     (case job_func s j of
        None \<Rightarrow> None
      | Some f \<Rightarrow> Some (s\<lparr>stack := FFunc (code f) # FDelete j # stack s, called := called s @ [j]\<rparr>))"

definition Inline_Submit :: "(nat \<Rightarrow> act list) \<Rightarrow> bool \<Rightarrow> nat \<Rightarrow> jstate \<Rightarrow> jstate option" where
  "Inline_Submit code Stopped j s =
     (if Stopped then UniqueJob_Drop j (s\<lparr>dropped := dropped s @ [j]\<rparr>) else UniqueJob_Call code j s)"

definition Manual_Submit :: "nat \<Rightarrow> jstate \<Rightarrow> jstate" where
  "Manual_Submit j s = s\<lparr>tasks := tasks s @ [j], pushed := pushed s @ [j]\<rparr>"

definition MakeUniqueJob :: "nat \<Rightarrow> jstate \<Rightarrow> nat \<times> jstate" where
  "MakeUniqueJob f s = (made s, s\<lparr>job_func := (job_func s)(made s \<mapsto> f), made := Suc (made s)\<rparr>)"

definition Submit_func :: "(nat \<Rightarrow> act list) \<Rightarrow> exe \<Rightarrow> nat \<Rightarrow> jstate \<Rightarrow> jstate option" where
  "Submit_func code e f s =
     (let (j, s) = MakeUniqueJob f s in
      case e of EInline \<Rightarrow> Inline_Submit code False j s | EStopped \<Rightarrow> Inline_Submit code True j s | EManual \<Rightarrow> Some (Manual_Submit j s))"

definition Drain_turn :: "(nat \<Rightarrow> act list) \<Rightarrow> nat \<Rightarrow> jstate \<Rightarrow> jstate option" where
  "Drain_turn code n s =
     (case tasks s of
        [] \<Rightarrow> Some s
      | j # js \<Rightarrow> UniqueJob_Call code j (s\<lparr>tasks := js, stack := FDrain (Suc n) # stack s, drained := drained s @ [j]\<rparr>))"

text \<open>The body of a function ends when it throws: \<open>SafeCall\<close> catches.\<close>

definition SafeCall_step :: "(nat \<Rightarrow> act list) \<Rightarrow> act list \<Rightarrow> jstate \<Rightarrow> jstate option" where
  "SafeCall_step code as s =
     (case as of
        [] \<Rightarrow> Some s
      | AThrow # as \<Rightarrow> Some s
      | ADrain # as \<Rightarrow> Some (s\<lparr>stack := FDrain 0 # FFunc as # stack s\<rparr>)
      | ASubmit e f # as \<Rightarrow> Submit_func code e f (s\<lparr>stack := FFunc as # stack s\<rparr>))"

definition job_step :: "(nat \<Rightarrow> act list) \<Rightarrow> jstate \<Rightarrow> jstate option" where
  "job_step code s =
     (case stack s of
        [] \<Rightarrow> Some s
      | FFunc as # fs \<Rightarrow> SafeCall_step code as (s\<lparr>stack := fs\<rparr>)
      | FDelete j # fs \<Rightarrow> UniqueJob_Drop j (s\<lparr>stack := fs\<rparr>)
      | FDrain n # fs \<Rightarrow> Drain_turn code n (s\<lparr>stack := fs\<rparr>))"

primrec job_steps :: "(nat \<Rightarrow> act list) \<Rightarrow> nat \<Rightarrow> jstate \<Rightarrow> jstate option" where
  "job_steps code 0 s = Some s"
| "job_steps code (Suc k) s = Option.bind (job_step code s) (job_steps code k)"

subsection \<open>Who has a job\<close>

fun deletes :: "jframe \<Rightarrow> nat list" where
  "deletes (FDelete j) = [j]"
| "deletes x = []"

definition pending_deletes :: "jstate \<Rightarrow> nat list" where
  "pending_deletes s = concat (map deletes (stack s))"

text \<open>A job is in hand, in the queue, or a frame deletes it later, or it is gone; it is called or dropped once when it leaves the queue.\<close>

definition jobs_hold :: "nat list \<Rightarrow> jstate \<Rightarrow> bool" where
  "jobs_hold X s \<longleftrightarrow> distinct (X @ tasks s @ pending_deletes s) \<and>
     (\<forall>j. job_func s j \<noteq> None \<longleftrightarrow> j \<in> set (X @ tasks s @ pending_deletes s)) \<and>
     mset (called s @ dropped s @ X @ tasks s) = mset [0..<made s] \<and> set (pending_deletes s) \<subseteq> set (called s) \<and> pushed s = drained s @ tasks s"

lemma hold_new: "jobs_hold [] (jobs_new as)"
  by (simp add: jobs_hold_def jobs_new_def pending_deletes_def)

lemma hold_known:
  assumes "jobs_hold X s" "j \<in> set (X @ tasks s @ pending_deletes s) \<or> j \<in> set (called s @ dropped s)"
  shows "j < made s"
proof -
  have k: "mset (called s @ dropped s @ X @ tasks s) = mset [0..<made s]" using assms(1) by (simp add: jobs_hold_def)
  have "set (called s @ dropped s @ X @ tasks s) = {0..<made s}" using mset_eq_setD [OF k] by simp
  moreover have "set (pending_deletes s) \<subseteq> set (called s)" using assms(1) by (simp add: jobs_hold_def)
  ultimately show ?thesis using assms(2) by auto
qed

lemma pending_simps [simp]:
  "pending_deletes (s\<lparr>stack := x # fs\<rparr>) = deletes x @ pending_deletes (s\<lparr>stack := fs\<rparr>)"
  "pending_deletes (s\<lparr>job_func := m\<rparr>) = pending_deletes s" "pending_deletes (s\<lparr>made := n\<rparr>) = pending_deletes s"
  "pending_deletes (s\<lparr>tasks := q\<rparr>) = pending_deletes s" "pending_deletes (s\<lparr>called := l\<rparr>) = pending_deletes s"
  "pending_deletes (s\<lparr>dropped := l\<rparr>) = pending_deletes s" "pending_deletes (s\<lparr>pushed := l\<rparr>) = pending_deletes s"
  "pending_deletes (s\<lparr>drained := l\<rparr>) = pending_deletes s" "pending_deletes (s\<lparr>stack := stack s\<rparr>) = pending_deletes s"
  by (simp_all add: pending_deletes_def)

lemma hold_alive: "jobs_hold X s \<Longrightarrow> j \<in> set (X @ tasks s @ pending_deletes s) \<Longrightarrow> \<exists>f. job_func s j = Some f"
  unfolding jobs_hold_def by (metis not_None_eq)

lemma hold_make:
  assumes "jobs_hold [] s" "MakeUniqueJob f s = (j, t)"
  shows "jobs_hold [j] t"
proof -
  have t: "j = made s" "t = s\<lparr>job_func := (job_func s)(made s \<mapsto> f), made := Suc (made s)\<rparr>"
    using assms(2) by (auto simp: MakeUniqueJob_def)
  have "made s \<notin> set (tasks s @ pending_deletes s)" using hold_known [OF assms(1), of "made s"] by auto
  then show ?thesis using assms(1) t by (auto simp: jobs_hold_def)
qed

lemma hold_call:
  assumes "jobs_hold [j] s"
  shows "\<exists>t f. UniqueJob_Call code j s = Some t \<and> jobs_hold [] t \<and> job_func s j = Some f \<and> stack t = FFunc (code f) # FDelete j # stack s \<and>
    tasks t = tasks s \<and> job_func t = job_func s"
proof -
  obtain f where f: "job_func s j = Some f" using hold_alive [OF assms, of j] by auto
  have p: "pending_deletes (s\<lparr>stack := FFunc (code f) # FDelete j # stack s, called := called s @ [j]\<rparr>) = j # pending_deletes s"
    by (simp add: pending_deletes_def)
  have "jobs_hold [] (s\<lparr>stack := FFunc (code f) # FDelete j # stack s, called := called s @ [j]\<rparr>)"
    using assms p by (auto simp: jobs_hold_def)
  then show ?thesis using f by (simp add: UniqueJob_Call_def)
qed

lemma hold_drop:
  assumes "jobs_hold [j] s"
  shows "\<exists>t. UniqueJob_Drop j (s\<lparr>dropped := dropped s @ [j]\<rparr>) = Some t \<and> jobs_hold [] t \<and> stack t = stack s \<and> tasks t = tasks s \<and>
    job_func t = (job_func s)(j := None)"
proof -
  obtain f where f: "job_func s j = Some f" using hold_alive [OF assms, of j] by auto
  have "jobs_hold [] (s\<lparr>dropped := dropped s @ [j], job_func := (job_func s)(j := None)\<rparr>)"
    using assms by (auto simp: jobs_hold_def)
  then show ?thesis using f by (simp add: UniqueJob_Drop_def)
qed

lemma hold_push: "jobs_hold [j] s \<Longrightarrow> jobs_hold [] (Manual_Submit j s)"
  by (auto simp: jobs_hold_def Manual_Submit_def)

text \<open>A frame that deletes a job is done.\<close>

lemma hold_delete:
  assumes "jobs_hold [] s" "stack s = FDelete j # fs"
  shows "\<exists>t. UniqueJob_Drop j (s\<lparr>stack := fs\<rparr>) = Some t \<and> jobs_hold [] t \<and> stack t = fs \<and> tasks t = tasks s \<and> job_func t = (job_func s)(j := None)"
proof -
  have p: "pending_deletes s = j # pending_deletes (s\<lparr>stack := fs\<rparr>)" using assms(2) by (simp add: pending_deletes_def)
  have "j \<in> set (pending_deletes s)" using p by simp
  then obtain f where f: "job_func s j = Some f" using hold_alive [OF assms(1), of j] by auto
  have "jobs_hold [] (s\<lparr>stack := fs, job_func := (job_func s)(j := None)\<rparr>)"
    using assms(1) p by (auto simp: jobs_hold_def)
  then show ?thesis using f by (simp add: UniqueJob_Drop_def)
qed

lemma hold_stack:
  assumes "jobs_hold X s" "pending_deletes (s\<lparr>stack := fs\<rparr>) = pending_deletes s"
  shows "jobs_hold X (s\<lparr>stack := fs\<rparr>)"
  using assms by (simp add: jobs_hold_def)

lemma hold_pop:
  assumes "jobs_hold [] s" "tasks s = j # js"
  shows "jobs_hold [j] (s\<lparr>tasks := js, drained := drained s @ [j]\<rparr>)"
  using assms by (auto simp: jobs_hold_def)

subsection \<open>Every step is defined, and the work ends\<close>

text \<open>The cost of what is left to do, for weights of the functions.\<close>

fun act_cost :: "(nat \<Rightarrow> nat) \<Rightarrow> act \<Rightarrow> nat" where
  "act_cost w (ASubmit e f) = w f + 4"
| "act_cost w ADrain = 3"
| "act_cost w AThrow = 1"

definition body_cost :: "(nat \<Rightarrow> nat) \<Rightarrow> act list \<Rightarrow> nat" where
  "body_cost w as = (\<Sum>a\<leftarrow>as. act_cost w a)"

fun frame_cost :: "(nat \<Rightarrow> nat) \<Rightarrow> jframe \<Rightarrow> nat" where
  "frame_cost w (FFunc as) = 1 + body_cost w as"
| "frame_cost w (FDelete j) = 1"
| "frame_cost w (FDrain n) = 1"

definition task_cost :: "(nat \<Rightarrow> nat) \<Rightarrow> (nat \<Rightarrow> nat option) \<Rightarrow> nat \<Rightarrow> nat" where
  "task_cost w m j = (case m j of None \<Rightarrow> 0 | Some f \<Rightarrow> w f + 2)"

definition job_cost :: "(nat \<Rightarrow> nat) \<Rightarrow> jstate \<Rightarrow> nat" where
  "job_cost w s = (\<Sum>x\<leftarrow>stack s. frame_cost w x) + (\<Sum>j\<leftarrow>tasks s. task_cost w (job_func s) j)"

text \<open>The weight of a function is more than the cost of its body.\<close>

definition weights_ok :: "(nat \<Rightarrow> act list) \<Rightarrow> (nat \<Rightarrow> nat) \<Rightarrow> bool" where
  "weights_ok code w \<longleftrightarrow> (\<forall>f. body_cost w (code f) < w f)"

lemma body_cost_simps [simp]: "body_cost w [] = 0" "body_cost w (a # as) = act_cost w a + body_cost w as"
  by (simp_all add: body_cost_def)

lemma task_cost_upd:
  assumes "j \<notin> set q"
  shows "(\<Sum>i\<leftarrow>q. task_cost w (m(j := x)) i) = (\<Sum>i\<leftarrow>q. task_cost w m i)"
proof -
  have "map (task_cost w (m(j := x))) q = map (task_cost w m) q" using assms by (simp add: task_cost_def)
  then show ?thesis by (rule arg_cong)
qed

text \<open>A step is fine: it is defined, keeps the jobs, and costs less when the weights are right.\<close>

definition step_fine :: "(nat \<Rightarrow> act list) \<Rightarrow> nat \<Rightarrow> (nat \<Rightarrow> nat) \<Rightarrow> jstate option \<Rightarrow> bool" where
  "step_fine code n w r \<longleftrightarrow> (\<exists>t. r = Some t \<and> jobs_hold [] t \<and> (weights_ok code w \<longrightarrow> job_cost w t < n))"

lemma fine_submit:
  assumes s: "jobs_hold [] s" and n: "n = job_cost w s + w f + 4"
  shows "step_fine code n w (Submit_func code e f s)"
proof -
  let ?s = "s\<lparr>job_func := (job_func s)(made s \<mapsto> f), made := Suc (made s)\<rparr>"
  have m: "MakeUniqueJob f s = (made s, ?s)" by (simp add: MakeUniqueJob_def)
  have h: "jobs_hold [made s] ?s" by (rule hold_make [OF s m])
  have "made s \<notin> set (tasks s)" using hold_known [OF s, of "made s"] by auto
  note c = task_cost_upd [OF this, of w "job_func s"]
  show ?thesis
  proof (cases e)
    case EInline
    obtain t where t: "UniqueJob_Call code (made s) ?s = Some t" "jobs_hold [] t" "stack t = FFunc (code f) # FDelete (made s) # stack s"
      "tasks t = tasks s" "job_func t = job_func ?s"
      using hold_call [OF h, of code] by auto
    have "weights_ok code w \<Longrightarrow> job_cost w t < n" using t(3-5) n c by (simp add: job_cost_def weights_ok_def less_SucI)
    then show ?thesis using t EInline m by (simp add: step_fine_def Submit_func_def Inline_Submit_def)
  next
    case EStopped
    obtain t where t: "UniqueJob_Drop (made s) (?s\<lparr>dropped := dropped ?s @ [made s]\<rparr>) = Some t" "jobs_hold [] t" "stack t = stack s"
      "tasks t = tasks s" "job_func t = (job_func ?s)(made s := None)"
      using hold_drop [OF h] by auto
    have "job_cost w t < n" using t(3-5) n c by (simp add: job_cost_def)
    then show ?thesis using t EStopped m by (simp add: step_fine_def Submit_func_def Inline_Submit_def)
  next
    case EManual
    have "job_cost w (Manual_Submit (made s) ?s) < n" using n c by (simp add: job_cost_def Manual_Submit_def task_cost_def)
    then show ?thesis using hold_push [OF h] EManual m by (simp add: step_fine_def Submit_func_def)
  qed
qed

lemma fine_drain:
  assumes s: "jobs_hold [] s" and n: "n = job_cost w s + 1"
  shows "step_fine code n w (Drain_turn code k s)"
proof (cases "tasks s")
  case Nil
  then show ?thesis using s n by (simp add: step_fine_def Drain_turn_def)
next
  case (Cons j js)
  let ?s = "s\<lparr>tasks := js, stack := FDrain (Suc k) # stack s, drained := drained s @ [j]\<rparr>"
  have "jobs_hold [j] (s\<lparr>tasks := js, drained := drained s @ [j]\<rparr>)" by (rule hold_pop [OF s Cons])
  then have h: "jobs_hold [j] ?s"
    by (simp add: jobs_hold_def)
  obtain t f where t: "UniqueJob_Call code j ?s = Some t" "jobs_hold [] t" "job_func s j = Some f" "stack t = FFunc (code f) # FDelete j # stack ?s"
    "tasks t = js" "job_func t = job_func s"
    using hold_call [OF h, of code] by auto
  have "weights_ok code w \<Longrightarrow> job_cost w t < n" using t(3-6) n Cons by (simp add: job_cost_def weights_ok_def task_cost_def)
  then show ?thesis using t Cons by (simp add: step_fine_def Drain_turn_def)
qed

lemma fine_step:
  assumes s: "jobs_hold [] s" and n: "stack s \<noteq> []"
  shows "step_fine code (job_cost w s) w (job_step code s)"
proof (cases "stack s")
  case (Cons x fs)
  show ?thesis
  proof (cases x)
    case (FDelete j)
    obtain t where t: "UniqueJob_Drop j (s\<lparr>stack := fs\<rparr>) = Some t" "jobs_hold [] t" "stack t = fs" "tasks t = tasks s" "job_func t = (job_func s)(j := None)"
      using hold_delete [OF s] Cons FDelete by auto
    have "j \<in> set (pending_deletes s)" using Cons FDelete by (simp add: pending_deletes_def)
    then have "j \<notin> set (tasks s)" using s by (auto simp: jobs_hold_def)
    then have "job_cost w t < job_cost w s" using t(3-5) Cons FDelete task_cost_upd by (simp add: job_cost_def)
    then show ?thesis using t Cons FDelete by (simp add: step_fine_def job_step_def)
  next
    case (FDrain k)
    have "jobs_hold [] (s\<lparr>stack := fs\<rparr>)" by (rule hold_stack [OF s]) (simp add: Cons FDrain pending_deletes_def)
    from fine_drain [OF this refl, of code w k] show ?thesis using Cons FDrain by (simp add: job_step_def job_cost_def)
  next
    case (FFunc as)
    have h: "jobs_hold [] (s\<lparr>stack := fs\<rparr>)" by (rule hold_stack [OF s]) (simp add: Cons FFunc pending_deletes_def)
    have p: "jobs_hold [] (s\<lparr>stack := gs\<rparr>)" if "concat (map deletes gs) = concat (map deletes fs)" for gs
      using hold_stack [OF h, of gs] that by (simp add: pending_deletes_def)
    show ?thesis
    proof (cases as)
      case Nil
      then show ?thesis using h Cons FFunc by (simp add: step_fine_def job_step_def SafeCall_step_def job_cost_def)
    next
      case as: (Cons a bs)
      show ?thesis
      proof (cases a)
        case (ASubmit e f)
        have "step_fine code (job_cost w (s\<lparr>stack := FFunc bs # fs\<rparr>) + w f + 4) w (Submit_func code e f (s\<lparr>stack := FFunc bs # fs\<rparr>))"
          by (rule fine_submit [OF p refl]) simp
        then show ?thesis using Cons FFunc as ASubmit by (simp add: job_step_def SafeCall_step_def job_cost_def ac_simps)
      next
        case ADrain
        then show ?thesis using p [of "FDrain 0 # FFunc bs # fs"] Cons FFunc as
          by (simp add: step_fine_def job_step_def SafeCall_step_def job_cost_def)
      next
        case AThrow
        then show ?thesis using h Cons FFunc as by (simp add: step_fine_def job_step_def SafeCall_step_def job_cost_def)
      qed
    qed
  qed
qed (use n in simp)

text \<open>Whatever the functions do, no job is used after it is deleted, every job is called or dropped once or still in the queue.\<close>

lemma executor_jobs:
  assumes "jobs_hold [] s"
  shows "\<exists>t. job_steps code k s = Some t \<and> jobs_hold [] t"
  using assms
proof (induction k arbitrary: s)
  case (Suc k)
  have "\<exists>t. job_step code s = Some t \<and> jobs_hold [] t"
    using fine_step [OF Suc.prems, of code "\<lambda>f. 0"] Suc.prems by (cases "stack s = []") (auto simp: step_fine_def job_step_def)
  then show ?case using Suc.IH by auto
qed simp

lemma executor_ends:
  assumes "weights_ok code w" "jobs_hold [] s"
  shows "\<exists>k t. job_steps code k s = Some t \<and> stack t = [] \<and> jobs_hold [] t"
  using assms(2)
proof (induction "job_cost w s" arbitrary: s rule: less_induct)
  case less
  show ?case
  proof (cases "stack s = []")
    case True
    then show ?thesis using less.prems by (intro exI [of _ 0] exI [of _ s]) simp
  next
    case False
    then obtain t where t: "job_step code s = Some t" "jobs_hold [] t" "job_cost w t < job_cost w s"
      using fine_step [OF less.prems False, of code w] assms(1) by (auto simp: step_fine_def)
    obtain k u where "job_steps code k t = Some u" "stack u = []" "jobs_hold [] u" using less.hyps [OF t(3,2)] by blast
    then show ?thesis using t(1) by (intro exI [of _ "Suc k"] exI [of _ u]) simp
  qed
qed

subsection \<open>The property\<close>

text \<open>
  C38: Functions that are submitted to inline, stopped and manual executors, that submit others, drain the manual executor and throw,
  run to the end when no function submits itself again for ever (a function has a weight above the sum of what it submits). At the
  end every job was called or dropped exactly once, or is still in the manual executor; the manual executor called its jobs in the
  order in which they were submitted; and exactly the jobs still in it are not deleted. On the way no deleted job is used.
\<close>

theorem executor_calls_once:
  assumes "weights_ok code w"
  shows "\<exists>k t. job_steps code k (jobs_new as) = Some t \<and> stack t = [] \<and> mset (called t @ dropped t @ tasks t) = mset [0..<made t] \<and>
    pushed t = drained t @ tasks t \<and> {j. job_func t j \<noteq> None} = set (tasks t)"
proof -
  obtain k t where t: "job_steps code k (jobs_new as) = Some t" "stack t = []" "jobs_hold [] t"
    using executor_ends [OF assms hold_new] by blast
  moreover have "pending_deletes t = []" using t(2) by (simp add: pending_deletes_def)
  ultimately show ?thesis by (intro exI [of _ k] exI [of _ t]) (auto simp: jobs_hold_def)
qed

theorem executor_calls_once_witness:
  "\<exists>k t. job_steps (\<lambda>f. if f = 0 then [ASubmit EManual 1, ADrain, AThrow, ASubmit EInline 1] else []) k (jobs_new [ASubmit EInline 0, ASubmit EStopped 1]) = Some t \<and>
     stack t = [] \<and> pushed t = drained t @ tasks t"
proof -
  have w: "weights_ok (\<lambda>f. if f = 0 then [ASubmit EManual 1, ADrain, AThrow, ASubmit EInline 1] else []) (\<lambda>f. if f = 0 then 30 else 1)"
    by (simp add: weights_ok_def)
  show ?thesis using executor_calls_once [OF w, of "[ASubmit EInline 0, ASubmit EStopped 1]"] by blast
qed

end
