(* ===== verification/Stacks.thy ===== *)
theory Stacks
  imports Prelude
begin

section \<open>Stacks of fibers\<close>

text \<open>
  The stack allocator of \<open>src/fault/fiber/context/default_allocator.cpp\<close>, which keeps released stacks in a pool, and \<open>Stack\<close> of
  \<open>fault/detail/fiber/stack.hpp\<close>, whose constructor allocates and whose destructor releases. \<open>mmap\<close> and \<open>munmap\<close> are the operating system's: the
  state has the regions that are mapped; \<open>mmap\<close> gives an address that is not mapped and not null, or fails with \<open>MAP_FAILED\<close>, which it
  always does when the length is 0; \<open>munmap\<close> of \<open>MAP_FAILED\<close>, which is no address of a page, fails. The allocator only logs such a failure
  and goes on; that the first page is protected leaves the regions as they are. Null is 0; \<open>Stack\<close> objects are numbers. What the standard
  leaves undefined, and \<open>munmap\<close> of a region that is not mapped, have the value None.
\<close>

subsection \<open>The allocator\<close>

type_synonym allocation = "nat \<times> 64 word"

record stacks =
  pool :: "allocation list"
  stack_size_pages :: "64 word"
  gCacheSize :: "32 word"
  mapped :: "nat \<Rightarrow> 64 word option"
  stack_of :: "nat \<Rightarrow> allocation option"
  failures :: nat

definition stacks_new :: stacks where
  "stacks_new = \<lparr>pool = [], stack_size_pages = 8, gCacheSize = 100, mapped = \<lambda>a. None, stack_of = \<lambda>x. None, failures = 0\<rparr>"

definition MAP_FAILED :: nat where
  "MAP_FAILED = 2 ^ 64 - 1"

text \<open>The answer of the system is an address, or a failure; \<open>failures\<close> counts the calls that failed and is not in the code.\<close>

definition mmap :: "nat option \<Rightarrow> 64 word \<Rightarrow> stacks \<Rightarrow> nat \<times> stacks" where
  "mmap answer n s =
     (case answer of
        Some a \<Rightarrow> if n \<noteq> 0 \<and> a \<noteq> 0 \<and> a \<noteq> MAP_FAILED \<and> mapped s a = None
          then (a, s\<lparr>mapped := (mapped s)(a \<mapsto> n)\<rparr>) else (MAP_FAILED, s\<lparr>failures := failures s + 1\<rparr>)
      | None \<Rightarrow> (MAP_FAILED, s\<lparr>failures := failures s + 1\<rparr>))"

definition munmap :: "nat \<Rightarrow> 64 word \<Rightarrow> stacks \<Rightarrow> stacks option" where
  "munmap a n s =
     (if mapped s a = Some n then Some (s\<lparr>mapped := (mapped s)(a := None)\<rparr>) else if a = MAP_FAILED then Some s else None)"

definition Allocate :: "64 word \<Rightarrow> nat option \<Rightarrow> stacks \<Rightarrow> allocation \<times> stacks" where
  "Allocate kPageSize answer s =
     (if pool s \<noteq> [] then (last (pool s), s\<lparr>pool := butlast (pool s)\<rparr>)
      else let size = stack_size_pages s * kPageSize; (start, s) = mmap answer size s in ((start, size), s))"

definition Release_stack :: "allocation \<Rightarrow> stacks \<Rightarrow> stacks option" where
  "Release_stack al s =
     (if length (pool s) < unat (gCacheSize s) then Some (s\<lparr>pool := pool s @ [al]\<rparr>)
      else if fst al = 0 then Some s else munmap (fst al) (snd al) s)"

text \<open>The loop over the pool: \<open>push_back\<close> invalidates the end iterator of the loop.\<close>

fun release_all :: "allocation list \<Rightarrow> stacks \<Rightarrow> stacks option" where
  "release_all [] s = Some s"
| "release_all (al # als) s =
     (case Release_stack al s of
        None \<Rightarrow> None
      | Some t \<Rightarrow> if length (pool t) > length (pool s) then None else release_all als t)"

definition SetMinStackSize :: "64 word \<Rightarrow> stacks \<Rightarrow> stacks option" where
  "SetMinStackSize pages s =
     (if pages > stack_size_pages s
      then map_option (\<lambda>s. s\<lparr>pool := [], stack_size_pages := pages + 1\<rparr>) (release_all (pool s) s)
      else Some s)"

definition SetCacheSize :: "32 word \<Rightarrow> stacks \<Rightarrow> stacks" where
  "SetCacheSize n s = s\<lparr>gCacheSize := n\<rparr>"

subsection \<open>Stacks\<close>

definition Stack_new :: "64 word \<Rightarrow> nat \<Rightarrow> nat option \<Rightarrow> stacks \<Rightarrow> stacks option" where
  "Stack_new kPageSize x answer s =
     (if stack_of s x \<noteq> None then None
      else let (al, s) = Allocate kPageSize answer s in Some (s\<lparr>stack_of := (stack_of s)(x \<mapsto> al)\<rparr>))"

definition Stack_dtor :: "nat \<Rightarrow> stacks \<Rightarrow> stacks option" where
  "Stack_dtor x s =
     (case stack_of s x of None \<Rightarrow> None | Some al \<Rightarrow> map_option (\<lambda>s. s\<lparr>stack_of := (stack_of s)(x := None)\<rparr>) (Release_stack al s))"

text \<open>The move constructor is the default one: it copies the pointer.\<close>

definition Stack_move :: "nat \<Rightarrow> nat \<Rightarrow> stacks \<Rightarrow> stacks option" where
  "Stack_move x y s =
     (case (stack_of s x, stack_of s y) of (None, Some al) \<Rightarrow> Some (s\<lparr>stack_of := (stack_of s)(x \<mapsto> al)\<rparr>) | _ \<Rightarrow> None)"

definition Stack_assign :: "nat \<Rightarrow> nat \<Rightarrow> stacks \<Rightarrow> stacks option" where
  "Stack_assign x y s =
     (case (stack_of s x, stack_of s y) of
        (Some al, Some other) \<Rightarrow>
          map_option (\<lambda>s. s\<lparr>stack_of := ((stack_of s)(x \<mapsto> other))(y \<mapsto> (0, 0))\<rparr>) (Release_stack al s)
      | _ \<Rightarrow> None)"

subsection \<open>Programs\<close>

datatype stack_cmd = SNew nat "nat option" | SDtor nat | SCache "32 word" | SMin "64 word"

fun stack_step :: "64 word \<Rightarrow> stack_cmd \<Rightarrow> stacks \<Rightarrow> stacks option" where
  "stack_step pg (SNew x answer) s = Stack_new pg x answer s"
| "stack_step pg (SDtor x) s = Stack_dtor x s"
| "stack_step pg (SCache n) s = Some (SetCacheSize n s)"
| "stack_step pg (SMin n) s = SetMinStackSize n s"

text \<open>Fibers are made once and destroyed once; the system may answer as it likes.\<close>

fun cmd_ok :: "stack_cmd \<Rightarrow> stacks \<Rightarrow> bool" where
  "cmd_ok (SNew x answer) s \<longleftrightarrow> stack_of s x = None"
| "cmd_ok (SDtor x) s \<longleftrightarrow> stack_of s x \<noteq> None"
| "cmd_ok c s \<longleftrightarrow> True"

text \<open>The call that the code cannot do.\<close>

fun resizes_cached :: "stack_cmd \<Rightarrow> stacks \<Rightarrow> bool" where
  "resizes_cached (SMin n) s \<longleftrightarrow> n > stack_size_pages s \<and> pool s \<noteq> [] \<and> length (pool s) < unat (gCacheSize s)"
| "resizes_cached c s \<longleftrightarrow> False"

inductive stack_reach :: "64 word \<Rightarrow> stacks \<Rightarrow> bool" for pg where
  k_start: "stack_reach pg stacks_new"
| k_step: "stack_reach pg s \<Longrightarrow> cmd_ok c s \<Longrightarrow> stack_step pg c s = Some t \<Longrightarrow> stack_reach pg t"

text \<open>Every mapped region is the stack of one fiber or once in the pool.\<close>

definition pool_ok :: "stacks \<Rightarrow> bool" where
  "pool_ok s \<longleftrightarrow> distinct (map fst (pool s)) \<and> (\<forall>al \<in> set (pool s). fst al \<noteq> 0 \<and> mapped s (fst al) = Some (snd al))"

definition live_ok :: "stacks \<Rightarrow> bool" where
  "live_ok s \<longleftrightarrow> (\<forall>x al. stack_of s x = Some al \<longrightarrow> fst al \<noteq> 0 \<and> mapped s (fst al) = Some (snd al) \<and> fst al \<notin> fst ` set (pool s)) \<and>
     (\<forall>x y al bl. stack_of s x = Some al \<and> stack_of s y = Some bl \<and> fst al = fst bl \<longrightarrow> x = y)"

definition no_leak :: "stacks \<Rightarrow> bool" where
  "no_leak s \<longleftrightarrow> (\<forall>a. mapped s a \<noteq> None \<longrightarrow> a \<in> fst ` set (pool s) \<or> (\<exists>x n. stack_of s x = Some (a, n)))"

definition stacks_ok :: "stacks \<Rightarrow> bool" where
  "stacks_ok s \<longleftrightarrow> pool_ok s \<and> live_ok s \<and> no_leak s"

lemma live_okI:
  assumes "\<And>x al. stack_of s x = Some al \<Longrightarrow> fst al \<noteq> 0 \<and> mapped s (fst al) = Some (snd al) \<and> fst al \<notin> fst ` set (pool s)"
    and "\<And>x y al bl. stack_of s x = Some al \<Longrightarrow> stack_of s y = Some bl \<Longrightarrow> fst al = fst bl \<Longrightarrow> x = y"
  shows "live_ok s"
  using assms unfolding live_ok_def by blast

lemma live_okD:
  assumes "live_ok s" "stack_of s x = Some al"
  shows "fst al \<noteq> 0" "mapped s (fst al) = Some (snd al)" "fst al \<notin> fst ` set (pool s)" "stack_of s y = Some bl \<Longrightarrow> fst al = fst bl \<Longrightarrow> x = y"
  using assms unfolding live_ok_def by blast+

lemma ok_new_mapped:
  assumes s: "stacks_ok s" and a: "a \<noteq> 0" "mapped s a = None" and p: "pool s = []" and x: "stack_of s x = None"
  shows "stacks_ok (s\<lparr>mapped := (mapped s)(a \<mapsto> n), stack_of := (stack_of s)(x \<mapsto> (a, n))\<rparr>)" (is "stacks_ok ?t")
proof -
  have l: "live_ok s" "no_leak s" using s by (simp_all add: stacks_ok_def)
  have u: "fst al \<noteq> a" if "stack_of s y = Some al" for y al using live_okD(2) [OF l(1) that] a by auto
  have "live_ok ?t"
  proof (rule live_okI)
    fix y al assume "stack_of ?t y = Some al"
    then show "fst al \<noteq> 0 \<and> mapped ?t (fst al) = Some (snd al) \<and> fst al \<notin> fst ` set (pool ?t)"
      using a p u [of y al] live_okD(1,2) [OF l(1), of y al] by (cases "y = x") auto
  next
    fix y z al bl assume "stack_of ?t y = Some al" "stack_of ?t z = Some bl" "fst al = fst bl"
    then show "y = z"
      using u [of y al] u [of z bl] live_okD(4) [OF l(1), of y al z bl] by (cases "y = x"; cases "z = x") auto
  qed
  moreover have "no_leak ?t"
    unfolding no_leak_def
  proof (intro allI impI)
    fix b assume b: "mapped ?t b \<noteq> None"
    show "b \<in> fst ` set (pool ?t) \<or> (\<exists>y m. stack_of ?t y = Some (b, m))"
    proof (cases "b = a")
      case False
      then obtain y m where "stack_of s y = Some (b, m)" using b l(2) p by (auto simp: no_leak_def)
      moreover from this have "y \<noteq> x" using x by auto
      ultimately show ?thesis by auto
    qed auto
  qed
  ultimately show ?thesis using p by (simp add: stacks_ok_def pool_ok_def)
qed

text \<open>A stack goes from the pool to a fiber, or back.\<close>

lemma ok_from_pool:
  assumes s: "stacks_ok s" and p: "pool s = q @ [al]" and x: "stack_of s x = None"
  shows "stacks_ok (s\<lparr>pool := q, stack_of := (stack_of s)(x \<mapsto> al)\<rparr>)" (is "stacks_ok ?t")
proof -
  have l: "live_ok s" "no_leak s" "pool_ok s" using s by (simp_all add: stacks_ok_def)
  have a: "fst al \<noteq> 0" "mapped s (fst al) = Some (snd al)" "fst al \<notin> fst ` set q" using l(3) p by (auto simp: pool_ok_def)
  have u: "fst bl \<noteq> fst al" "fst bl \<notin> fst ` set q" if "stack_of s y = Some bl" for y bl using live_okD(3) [OF l(1) that] p by auto
  have "live_ok ?t"
  proof (rule live_okI)
    fix y bl assume "stack_of ?t y = Some bl"
    then show "fst bl \<noteq> 0 \<and> mapped ?t (fst bl) = Some (snd bl) \<and> fst bl \<notin> fst ` set (pool ?t)"
      using a u(2) [of y bl] live_okD(1,2) [OF l(1), of y bl] by (cases "y = x") auto
  next
    fix y z bl cl assume "stack_of ?t y = Some bl" "stack_of ?t z = Some cl" "fst bl = fst cl"
    then show "y = z"
      using u(1) [of y bl] u(1) [of z cl] live_okD(4) [OF l(1), of y bl z cl] by (cases "y = x"; cases "z = x") auto
  qed
  moreover have "no_leak ?t"
    unfolding no_leak_def
  proof (intro allI impI)
    fix b assume "mapped ?t b \<noteq> None"
    then have "b \<in> fst ` set (q @ [al]) \<or> (\<exists>y n. stack_of s y = Some (b, n))" using l(2) p by (auto simp: no_leak_def)
    then consider "b \<in> fst ` set q" | "b = fst al" | y n where "stack_of s y = Some (b, n)" by auto
    then show "b \<in> fst ` set (pool ?t) \<or> (\<exists>y n. stack_of ?t y = Some (b, n))"
    proof cases
      case 2
      then have "stack_of ?t x = Some (b, snd al)" by simp
      then show ?thesis by blast
    next
      case (3 y n)
      then have "stack_of ?t y = Some (b, n)" using x by auto
      then show ?thesis by blast
    qed simp
  qed
  ultimately show ?thesis using l(3) p by (auto simp: stacks_ok_def pool_ok_def)
qed

lemma ok_to_pool:
  assumes s: "stacks_ok s" and x: "stack_of s x = Some al"
  shows "stacks_ok (s\<lparr>pool := pool s @ [al], stack_of := (stack_of s)(x := None)\<rparr>)" (is "stacks_ok ?t")
proof -
  have l: "live_ok s" "no_leak s" "pool_ok s" using s by (simp_all add: stacks_ok_def)
  note X = live_okD [OF l(1) x]
  have "live_ok ?t"
  proof (rule live_okI)
    fix y bl assume y: "stack_of ?t y = Some bl"
    then have y': "stack_of s y = Some bl" "y \<noteq> x" by (auto split: if_splits)
    then have "fst bl \<noteq> fst al" using X(4) [OF y'(1)] by auto
    then show "fst bl \<noteq> 0 \<and> mapped ?t (fst bl) = Some (snd bl) \<and> fst bl \<notin> fst ` set (pool ?t)"
      using live_okD(1-3) [OF l(1) y'(1)] by auto
  next
    fix y z bl cl assume "stack_of ?t y = Some bl" "stack_of ?t z = Some cl" "fst bl = fst cl"
    then show "y = z" using live_okD(4) [OF l(1), of y bl z cl] by (auto split: if_splits)
  qed
  moreover have "no_leak ?t"
    unfolding no_leak_def
  proof (intro allI impI)
    fix b assume "mapped ?t b \<noteq> None"
    then have "b \<in> fst ` set (pool s) \<or> (\<exists>y n. stack_of s y = Some (b, n))" using l(2) by (auto simp: no_leak_def)
    then consider "b \<in> fst ` set (pool s)" | y n where "stack_of s y = Some (b, n)" by auto
    then show "b \<in> fst ` set (pool ?t) \<or> (\<exists>y n. stack_of ?t y = Some (b, n))"
    proof cases
      case (2 y n)
      then show ?thesis using x by (cases "y = x") auto
    qed simp
  qed
  moreover have "pool_ok ?t" using l(3) X(1-3) by (auto simp: pool_ok_def)
  ultimately show ?thesis by (simp add: stacks_ok_def)
qed

lemma ok_unmap:
  assumes s: "stacks_ok s" and x: "stack_of s x = Some al"
  shows "stacks_ok (s\<lparr>mapped := (mapped s)(fst al := None), stack_of := (stack_of s)(x := None)\<rparr>)" (is "stacks_ok ?t")
proof -
  have l: "live_ok s" "no_leak s" "pool_ok s" using s by (simp_all add: stacks_ok_def)
  note X = live_okD [OF l(1) x]
  have "live_ok ?t"
  proof (rule live_okI)
    fix y bl assume y: "stack_of ?t y = Some bl"
    then have y': "stack_of s y = Some bl" "y \<noteq> x" by (auto split: if_splits)
    then have "fst bl \<noteq> fst al" using X(4) [OF y'(1)] by auto
    then show "fst bl \<noteq> 0 \<and> mapped ?t (fst bl) = Some (snd bl) \<and> fst bl \<notin> fst ` set (pool ?t)"
      using live_okD(1-3) [OF l(1) y'(1)] by auto
  next
    fix y z bl cl assume "stack_of ?t y = Some bl" "stack_of ?t z = Some cl" "fst bl = fst cl"
    then show "y = z" using live_okD(4) [OF l(1), of y bl z cl] by (auto split: if_splits)
  qed
  moreover have "no_leak ?t"
    unfolding no_leak_def
  proof (intro allI impI)
    fix b assume b: "mapped ?t b \<noteq> None"
    then have nb: "b \<noteq> fst al" by auto
    then have "b \<in> fst ` set (pool s) \<or> (\<exists>y n. stack_of s y = Some (b, n))" using l(2) b by (auto simp: no_leak_def)
    then consider "b \<in> fst ` set (pool s)" | y n where "stack_of s y = Some (b, n)" by auto
    then show "b \<in> fst ` set (pool ?t) \<or> (\<exists>y n. stack_of ?t y = Some (b, n))"
    proof cases
      case (2 y n)
      then show ?thesis using x nb by (cases "y = x") auto
    qed simp
  qed
  moreover have "pool_ok ?t" using l(3) X(3) by (auto simp: pool_ok_def image_iff)
  ultimately show ?thesis by (simp add: stacks_ok_def)
qed

text \<open>The allocations for which \<open>mmap\<close> succeeded, and the state without the others.\<close>

definition succeeded :: "allocation \<Rightarrow> bool" where
  "succeeded al \<longleftrightarrow> fst al \<noteq> MAP_FAILED"

definition real_stack :: "(nat \<Rightarrow> allocation option) \<Rightarrow> nat \<Rightarrow> allocation option" where
  "real_stack m x = (case m x of Some al \<Rightarrow> if succeeded al then Some al else None | None \<Rightarrow> None)"

definition real_part :: "stacks \<Rightarrow> stacks" where
  "real_part s = s\<lparr>pool := filter succeeded (pool s), stack_of := real_stack (stack_of s)\<rparr>"

definition stacks_inv :: "stacks \<Rightarrow> bool" where
  "stacks_inv s \<longleftrightarrow> stacks_ok (real_part s) \<and>
     (failures s = 0 \<longrightarrow> (\<forall>al \<in> set (pool s). succeeded al) \<and> (\<forall>x al. stack_of s x = Some al \<longrightarrow> succeeded al))"

lemma real_stack_None [simp]: "m x = None \<Longrightarrow> real_stack m x = None"
  by (simp add: real_stack_def)

lemma real_stack_upd [simp]:
  "real_stack (m(x := None)) = (real_stack m)(x := None)"
  "succeeded al \<Longrightarrow> real_stack (m(x \<mapsto> al)) = (real_stack m)(x \<mapsto> al)"
  "\<not> succeeded al \<Longrightarrow> real_stack (m(x \<mapsto> al)) = (real_stack m)(x := None)"
  by (auto simp: real_stack_def fun_eq_iff)

lemma real_part_fields [simp]: "pool (real_part s) = filter succeeded (pool s)" "mapped (real_part s) = mapped s"
  "stack_of (real_part s) = real_stack (stack_of s)" "gCacheSize (real_part s) = gCacheSize s"
  by (simp_all add: real_part_def)

lemma stacks_ok_cong:
  assumes "stacks_ok s" "pool t = pool s" "mapped t = mapped s" "stack_of t = stack_of s"
  shows "stacks_ok t"
  using assms by (simp add: stacks_ok_def pool_ok_def live_ok_def no_leak_def)

lemma never_mapped:
  assumes "stacks_inv s"
  shows "mapped s MAP_FAILED = None"
proof (rule ccontr)
  assume "mapped s MAP_FAILED \<noteq> None"
  then have "MAP_FAILED \<in> fst ` set (filter succeeded (pool s)) \<or> (\<exists>x n. real_stack (stack_of s) x = Some (MAP_FAILED, n))"
    using assms by (simp add: stacks_inv_def stacks_ok_def no_leak_def)
  then show False by (auto simp: succeeded_def real_stack_def split: option.splits if_splits)
qed

lemma inv_new:
  assumes s: "stacks_inv s" and x: "stack_of s x = None"
  shows "\<exists>t. Stack_new pg x answer s = Some t \<and> stacks_inv t"
proof -
  have ok: "stacks_ok (real_part s)" using s by (simp add: stacks_inv_def)
  obtain al t where at: "Allocate pg answer s = (al, t)" by (cases "Allocate pg answer s")
  let ?t = "t\<lparr>stack_of := (stack_of t)(x \<mapsto> al)\<rparr>"
  have r: "Stack_new pg x answer s = Some ?t" using x at by (simp add: Stack_new_def)
  have "stacks_ok (real_part ?t)"
  proof (cases "pool s" rule: rev_cases)
    case (snoc q bl)
    then have t: "al = bl" "t = s\<lparr>pool := q\<rparr>" using at by (simp_all add: Allocate_def)
    show ?thesis
    proof (cases "succeeded al")
      case True
      show ?thesis
        by (rule stacks_ok_cong [OF ok_from_pool [OF ok, of "filter succeeded q" al x]]) (use True snoc t x in simp_all)
    next
      case False
      show ?thesis by (rule stacks_ok_cong [OF ok]) (use False snoc t x in \<open>simp_all add: fun_upd_idem\<close>)
    qed
  next
    case Nil
    let ?n = "stack_size_pages s * pg"
    have m: "al = (fst (mmap answer ?n s), ?n)" "t = snd (mmap answer ?n s)"
      using at Nil by (auto simp: Allocate_def Let_def split: prod.splits)
    show ?thesis
    proof (cases "succeeded al")
      case True
      then obtain a where a: "answer = Some a" "a \<noteq> 0" "mapped s a = None" "fst al = a" "t = s\<lparr>mapped := (mapped s)(a \<mapsto> ?n)\<rparr>"
        using m by (auto simp: mmap_def succeeded_def split: option.splits if_splits)
      then have al: "al = (a, ?n)" using m by (metis fst_conv)
      show ?thesis
        by (rule stacks_ok_cong [OF ok_new_mapped [OF ok, of a x ?n]]) (use True Nil a al x in simp_all)
    next
      case False
      then have "t = s\<lparr>failures := failures s + 1\<rparr>"
        using m by (auto simp: mmap_def succeeded_def split: option.splits if_splits)
      then show ?thesis by (intro stacks_ok_cong [OF ok]) (use False Nil x in \<open>simp_all add: fun_upd_idem\<close>)
    qed
  qed
  moreover have "(\<forall>bl \<in> set (pool ?t). succeeded bl) \<and> (\<forall>y bl. stack_of ?t y = Some bl \<longrightarrow> succeeded bl)" if "failures ?t = 0"
  proof -
    have t: "set (pool t) \<subseteq> set (pool s)" "stack_of t = stack_of s" "failures s = 0" "succeeded al \<or> al \<in> set (pool s)"
      using at that
      by (auto simp: Allocate_def Let_def mmap_def succeeded_def split: prod.splits option.splits if_splits dest: in_set_butlastD)
    then show ?thesis using s by (auto simp: stacks_inv_def)
  qed
  ultimately show ?thesis using r by (auto simp: stacks_inv_def)
qed

lemma inv_dtor:
  assumes s: "stacks_inv s" and x: "stack_of s x = Some al"
  shows "\<exists>t. Stack_dtor x s = Some t \<and> stacks_inv t"
proof -
  have ok: "stacks_ok (real_part s)" and f: "failures s = 0 \<Longrightarrow> succeeded al"
      "failures s = 0 \<longrightarrow> (\<forall>al \<in> set (pool s). succeeded al) \<and> (\<forall>x al. stack_of s x = Some al \<longrightarrow> succeeded al)"
    using s x unfolding stacks_inv_def by blast+
  have l: "live_ok (real_part s)" using ok by (simp add: stacks_ok_def)
  let ?c = "s\<lparr>pool := pool s @ [al], stack_of := (stack_of s)(x := None)\<rparr>"
  let ?u = "s\<lparr>mapped := (mapped s)(fst al := None), stack_of := (stack_of s)(x := None)\<rparr>"
  let ?v = "s\<lparr>stack_of := (stack_of s)(x := None)\<rparr>"
  show ?thesis
  proof (cases "succeeded al")
    case True
    then have x': "stack_of (real_part s) x = Some al" using x by (simp add: real_stack_def)
    note X = live_okD [OF l x']
    show ?thesis
    proof (cases "length (pool s) < unat (gCacheSize s)")
      case c: True
      have "stacks_ok (real_part ?c)" by (rule stacks_ok_cong [OF ok_to_pool [OF ok x']]) (use True in simp_all)
      then have "stacks_inv ?c" using f(2) True by (auto simp: stacks_inv_def)
      then show ?thesis using c x by (simp add: Stack_dtor_def Release_stack_def)
    next
      case c: False
      have "stacks_ok (real_part ?u)" by (rule stacks_ok_cong [OF ok_unmap [OF ok x']]) simp_all
      then have "stacks_inv ?u" using f(2) by (auto simp: stacks_inv_def)
      then show ?thesis using c x X(1,2) by (simp add: Stack_dtor_def Release_stack_def munmap_def)
    qed
  next
    case False
    then have n: "real_stack (stack_of s) x = None" using x by (simp add: real_stack_def)
    then have "stacks_ok (real_part ?c)" "stacks_ok (real_part ?v)"
      by (intro stacks_ok_cong [OF ok]; use False in \<open>simp add: fun_upd_idem\<close>)+
    then have "stacks_inv ?c" "stacks_inv ?v" using f False by (auto simp: stacks_inv_def)
    moreover have "fst al = MAP_FAILED" "fst al \<noteq> 0" using False by (simp_all add: succeeded_def MAP_FAILED_def)
    ultimately show ?thesis using x never_mapped [OF s] by (simp add: Stack_dtor_def Release_stack_def munmap_def)
  qed
qed

text \<open>The loop of \<open>SetMinStackSize\<close> unmaps the pool when the pool is not smaller than the cache, and it is undefined otherwise.\<close>

definition unmap_all :: "allocation list \<Rightarrow> (nat \<Rightarrow> 64 word option) \<Rightarrow> nat \<Rightarrow> 64 word option" where
  "unmap_all als m = (\<lambda>a. if a \<in> fst ` set als then None else m a)"

lemma release_all_full:
  assumes "\<not> length (pool s) < unat (gCacheSize s)" "distinct (map fst (filter succeeded als))" "mapped s MAP_FAILED = None"
    "\<forall>al \<in> set als. succeeded al \<longrightarrow> fst al \<noteq> 0 \<and> mapped s (fst al) = Some (snd al)"
  shows "release_all als s = Some (s\<lparr>mapped := unmap_all (filter succeeded als) (mapped s)\<rparr>)"
  using assms
proof (induction als arbitrary: s)
  case Nil
  then show ?case by (simp add: unmap_all_def)
next
  case (Cons al als)
  show ?case
  proof (cases "succeeded al")
    case False
    then have "Release_stack al s = Some s" using Cons.prems by (simp add: Release_stack_def munmap_def succeeded_def)
    then show ?thesis using Cons.IH [of s] Cons.prems False by simp
  next
    case True
    let ?s = "s\<lparr>mapped := (mapped s)(fst al := None)\<rparr>"
    have d: "fst al \<notin> fst ` set (filter succeeded als)" using Cons.prems(2) True by (simp del: set_filter)
    have r: "Release_stack al s = Some ?s" using Cons.prems True by (simp add: Release_stack_def munmap_def)
    have "release_all als ?s = Some (?s\<lparr>mapped := unmap_all (filter succeeded als) (mapped ?s)\<rparr>)"
    proof (rule Cons.IH)
      have "fst bl \<noteq> fst al" if "bl \<in> set als" "succeeded bl" for bl
      proof -
        have "bl \<in> set (filter succeeded als)" using that by simp
        then show ?thesis using d by (metis imageI)
      qed
      then show "\<forall>bl \<in> set als. succeeded bl \<longrightarrow> fst bl \<noteq> 0 \<and> mapped ?s (fst bl) = Some (snd bl)" using Cons.prems(4) by simp
    qed (use Cons.prems True in simp_all)
    moreover have "unmap_all (filter succeeded als) (mapped ?s) = unmap_all (filter succeeded (al # als)) (mapped s)"
      using True by (auto simp: unmap_all_def fun_eq_iff)
    ultimately show ?thesis using r by simp
  qed
qed

lemma release_all_cached: "als \<noteq> [] \<Longrightarrow> length (pool s) < unat (gCacheSize s) \<Longrightarrow> release_all als s = None"
  by (cases als) (simp_all add: Release_stack_def)

lemma ok_clear:
  assumes s: "stacks_ok s"
  shows "stacks_ok (s\<lparr>mapped := unmap_all (pool s) (mapped s), pool := []\<rparr>)" (is "stacks_ok ?t")
proof -
  have l: "live_ok s" "no_leak s" using s by (simp_all add: stacks_ok_def)
  have "live_ok ?t"
  proof (rule live_okI)
    fix x al assume "stack_of ?t x = Some al"
    then show "fst al \<noteq> 0 \<and> mapped ?t (fst al) = Some (snd al) \<and> fst al \<notin> fst ` set (pool ?t)"
      using live_okD(1-3) [OF l(1), of x al] by (simp add: unmap_all_def)
  next
    fix y z bl cl assume "stack_of ?t y = Some bl" "stack_of ?t z = Some cl" "fst bl = fst cl"
    then show "y = z" using live_okD(4) [OF l(1), of y bl z cl] by simp
  qed
  moreover have "no_leak ?t" using l(2) by (auto simp: no_leak_def unmap_all_def)
  ultimately show ?thesis by (simp add: stacks_ok_def pool_ok_def)
qed

lemma inv_resize:
  assumes s: "stacks_inv s"
  shows "if resizes_cached (SMin n) s then SetMinStackSize n s = None else \<exists>t. SetMinStackSize n s = Some t \<and> stacks_inv t"
proof (cases "n > stack_size_pages s \<and> \<not> resizes_cached (SMin n) s")
  case False
  then show ?thesis using s release_all_cached by (auto simp: SetMinStackSize_def)
next
  case True
  have ok: "stacks_ok (real_part s)" using s by (simp add: stacks_inv_def)
  then have l: "pool_ok (real_part s)" by (simp add: stacks_ok_def)
  let ?u = "s\<lparr>mapped := unmap_all (filter succeeded (pool s)) (mapped s)\<rparr>"
  let ?t = "?u\<lparr>pool := [], stack_size_pages := n + 1\<rparr>"
  have "release_all (pool s) s = Some ?u"
  proof (cases "pool s = []")
    case True
    then show ?thesis by (simp add: unmap_all_def)
  next
    case False
    then have "\<not> length (pool s) < unat (gCacheSize s)" using True by auto
    then show ?thesis
      by (rule release_all_full) (use l never_mapped [OF s] in \<open>auto simp: pool_ok_def\<close>)
  qed
  then have r: "SetMinStackSize n s = Some ?t" using True by (simp add: SetMinStackSize_def)
  have "stacks_ok (real_part ?t)" by (rule stacks_ok_cong [OF ok_clear [OF ok]]) simp_all
  then have "stacks_inv ?t" using s by (simp add: stacks_inv_def)
  then show ?thesis using r True by auto
qed

lemma inv_step:
  assumes s: "stacks_inv s" and c: "cmd_ok c s"
  shows "if resizes_cached c s then stack_step pg c s = None else \<exists>t. stack_step pg c s = Some t \<and> stacks_inv t"
proof (cases c)
  case (SNew x answer)
  then show ?thesis using inv_new [OF s] c by simp
next
  case (SDtor x)
  then show ?thesis using inv_dtor [OF s, of x] c by auto
next
  case (SCache n)
  have "stacks_ok (real_part (SetCacheSize n s))"
    by (rule stacks_ok_cong [of "real_part s"]) (use s in \<open>simp_all add: stacks_inv_def SetCacheSize_def\<close>)
  then show ?thesis using s SCache by (simp add: SetCacheSize_def stacks_inv_def)
next
  case (SMin n)
  then show ?thesis using inv_resize [OF s, of n] by simp
qed

subsection \<open>Properties\<close>

text \<open>
  C39: The stacks of fibers are exact: whatever fibers are made and destroyed, however the sizes are set and whichever calls of \<open>mmap\<close>
  fail, two fibers never share a stack, no fiber has one that is in the pool, every stack is mapped, and every mapped region is a stack or
  in the pool; all this but for \<open>MAP_FAILED\<close>, which the allocator gives to a fiber as a stack when \<open>mmap\<close> fails, and only then. The only
  call that the code cannot do is \<open>SetMinStackSize\<close> while the pool has stacks and room: its loop releases each stack into the vector that
  it iterates over.
\<close>

theorem stacks_exact:
  assumes "stack_reach pg s" "cmd_ok c s"
  shows "distinct (map fst (filter succeeded (pool s))) \<and>
    {a. mapped s a \<noteq> None} = fst ` set (pool s) \<union> {a. \<exists>x n. stack_of s x = Some (a, n)} - {MAP_FAILED} \<and>
    fst ` set (pool s) \<inter> {a. \<exists>x n. stack_of s x = Some (a, n)} \<subseteq> {MAP_FAILED} \<and>
    (\<forall>x y a n m. stack_of s x = Some (a, n) \<and> stack_of s y = Some (a, m) \<and> a \<noteq> MAP_FAILED \<longrightarrow> x = y) \<and>
    (failures s = 0 \<longrightarrow> MAP_FAILED \<notin> fst ` set (pool s) \<union> {a. \<exists>x n. stack_of s x = Some (a, n)}) \<and>
    (stack_step pg c s = None \<longleftrightarrow> resizes_cached c s)"
proof -
  have inv: "stacks_inv s"
    using assms(1)
  proof induction
    case k_start
    then show ?case
      by (simp add: stacks_inv_def real_part_def stacks_new_def stacks_ok_def pool_ok_def live_ok_def no_leak_def)
  next
    case (k_step s c t)
    then show ?case using inv_step [OF k_step.IH k_step.hyps(2), of pg] by (simp split: if_splits)
  qed
  then have "stacks_ok (real_part s)" by (simp add: stacks_inv_def)
  then have l: "live_ok (real_part s)" "no_leak (real_part s)" "pool_ok (real_part s)" by (simp_all add: stacks_ok_def)
  have rs: "real_stack (stack_of s) x = Some (a, n) \<longleftrightarrow> stack_of s x = Some (a, n) \<and> a \<noteq> MAP_FAILED" for x a n
    by (auto simp: real_stack_def succeeded_def split: option.splits)
  note L = live_okD [OF l(1), unfolded real_part_fields, of _ "(a, n)" for a n, unfolded rs fst_conv snd_conv]
  have "stack_step pg c s = None \<longleftrightarrow> resizes_cached c s" using inv_step [OF inv assms(2), of pg] by (auto split: if_splits)
  moreover have "{a. mapped s a \<noteq> None} = fst ` set (pool s) \<union> {a. \<exists>x n. stack_of s x = Some (a, n)} - {MAP_FAILED}"
  proof
    show "{a. mapped s a \<noteq> None} \<subseteq> fst ` set (pool s) \<union> {a. \<exists>x n. stack_of s x = Some (a, n)} - {MAP_FAILED}"
      using l(2) never_mapped [OF inv] unfolding no_leak_def real_part_fields rs by auto
    have "mapped s a \<noteq> None" if "a \<in> fst ` set (pool s)" "a \<noteq> MAP_FAILED" for a
      using l(3) that by (auto simp: pool_ok_def succeeded_def)
    moreover have "mapped s a \<noteq> None" if "stack_of s x = Some (a, n)" "a \<noteq> MAP_FAILED" for x a n
      using L(2) that by auto
    ultimately show "fst ` set (pool s) \<union> {a. \<exists>x n. stack_of s x = Some (a, n)} - {MAP_FAILED} \<subseteq> {a. mapped s a \<noteq> None}" by blast
  qed
  moreover have "fst ` set (pool s) \<inter> {a. \<exists>x n. stack_of s x = Some (a, n)} \<subseteq> {MAP_FAILED}"
  proof -
    have "a \<notin> fst ` set (pool s)" if "stack_of s x = Some (a, n)" "a \<noteq> MAP_FAILED" for x a n
      using L(3) [of x a n] that by (auto simp: succeeded_def)
    then show ?thesis by blast
  qed
  moreover have "\<forall>x y a n m. stack_of s x = Some (a, n) \<and> stack_of s y = Some (a, m) \<and> a \<noteq> MAP_FAILED \<longrightarrow> x = y"
  proof (intro allI impI, elim conjE)
    fix x y a n m assume "stack_of s x = Some (a, n)" "stack_of s y = Some (a, m)" "a \<noteq> MAP_FAILED"
    then show "x = y" using L(4) [of x a n y "(a, m)"] rs by simp
  qed
  moreover have "distinct (map fst (filter succeeded (pool s)))" using l(3) by (simp add: pool_ok_def)
  moreover have "failures s = 0 \<longrightarrow> MAP_FAILED \<notin> fst ` set (pool s) \<union> {a. \<exists>x n. stack_of s x = Some (a, n)}"
    using inv by (force simp: stacks_inv_def succeeded_def)
  ultimately show ?thesis by blast
qed

text \<open>
  After \<open>SetMinStackSize\<close> with the greatest size the number of pages has wrapped to 0, every \<open>mmap\<close> fails, and the fibers share
  \<open>MAP_FAILED\<close>.
\<close>

lemma failed_shared:
  "\<exists>s. stack_reach pg s \<and> stack_of s 0 = Some (MAP_FAILED, 0) \<and> stack_of s 1 = Some (MAP_FAILED, 0)"
proof -
  let ?s = "stacks_new\<lparr>stack_size_pages := 0\<rparr>"
  have "stack_step pg (SMin 18446744073709551615) stacks_new = Some ?s"
    by (simp add: stacks_new_def SetMinStackSize_def)
  then have s: "stack_reach pg ?s" by (rule k_step [OF k_start, rotated]) simp
  let ?t = "?s\<lparr>failures := 1, stack_of := [0 \<mapsto> (MAP_FAILED, 0)]\<rparr>"
  have "stack_step pg (SNew 0 (Some 7)) ?s = Some ?t"
    by (simp add: stacks_new_def Stack_new_def Allocate_def mmap_def)
  then have t: "stack_reach pg ?t" by (rule k_step [OF s, rotated]) (simp add: stacks_new_def)
  let ?u = "?t\<lparr>failures := 2, stack_of := [0 \<mapsto> (MAP_FAILED, 0), 1 \<mapsto> (MAP_FAILED, 0)]\<rparr>"
  have "stack_step pg (SNew 1 (Some 8)) ?t = Some ?u"
    by (simp add: stacks_new_def Stack_new_def Allocate_def mmap_def numeral_2_eq_2)
  then have "stack_reach pg ?u" by (rule k_step [OF t, rotated]) simp
  then show ?thesis by (intro exI [of _ ?u]) simp
qed

text \<open>Fiber 0 ends and leaves its stack in the pool.\<close>

lemma stack_cached:
  "\<exists>s. stack_reach 4096 s \<and> pool s = [(7, 8 * 4096)] \<and> stack_size_pages s = 8 \<and> gCacheSize s = 100"
proof -
  let ?s = "stacks_new\<lparr>mapped := [7 \<mapsto> 8 * 4096], stack_of := [0 \<mapsto> (7, 8 * 4096)]\<rparr>"
  have a: "stack_step 4096 (SNew 0 (Some 7)) stacks_new = Some ?s"
    by (simp add: stacks_new_def Stack_new_def Allocate_def mmap_def MAP_FAILED_def)
  have s: "stack_reach 4096 ?s"
    by (rule k_step [OF k_start _ a]) (simp add: stacks_new_def)
  let ?t = "?s\<lparr>pool := [(7, 8 * 4096)], stack_of := (stack_of ?s)(0 := None)\<rparr>"
  have b: "stack_step 4096 (SDtor 0) ?s = Some ?t"
    by (simp add: stacks_new_def Stack_dtor_def Release_stack_def)
  have "stack_reach 4096 ?t" by (rule k_step [OF s _ b]) simp
  then show ?thesis by (intro exI [of _ ?t]) (simp add: stacks_new_def)
qed

theorem stacks_exact_witness: "\<exists>s. stack_reach 4096 s \<and> pool s \<noteq> [] \<and> stack_step 4096 (SMin 16) s = None"
proof -
  obtain s where s: "stack_reach 4096 s" "pool s = [(7, 8 * 4096)]" "stack_size_pages s = 8" "gCacheSize s = 100" using stack_cached by blast
  have "stack_step 4096 (SMin 16) s = None \<longleftrightarrow> resizes_cached (SMin 16) s" using stacks_exact [OF s(1), of "SMin 16"] by simp
  then show ?thesis using s by auto
qed

text \<open>A stack that was moved from is released as null: the next fiber gets no stack.\<close>

lemma moved_stack_null:
  assumes "stack_of s x = Some al" "stack_of s y = Some bl" "x \<noteq> y" "Suc (length (pool s)) < unat (gCacheSize s)" "stack_of s z = None" "z \<noteq> x" "z \<noteq> y"
  shows "\<exists>t u v. Stack_assign x y s = Some t \<and> Stack_dtor y t = Some u \<and> Stack_new pg z a u = Some v \<and> stack_of v z = Some (0, 0)"
  using assms by (simp add: Stack_assign_def Stack_dtor_def Release_stack_def Stack_new_def Allocate_def)

text \<open>A stack from before \<open>SetMinStackSize\<close> comes back to the pool and is given to a fiber, although it is smaller than the minimum.\<close>

lemma small_stack_reused:
  "\<exists>s t. stack_reach 4096 s \<and> stack_size_pages s = 17 \<and> stack_step 4096 (SNew 1 (Some 9)) s = Some t \<and> stack_of t 1 = Some (7, 8 * 4096)"
proof -
  let ?s = "stacks_new\<lparr>mapped := [7 \<mapsto> 8 * 4096], stack_of := [0 \<mapsto> (7, 8 * 4096)]\<rparr>"
  have a: "stack_step 4096 (SNew 0 (Some 7)) stacks_new = Some ?s"
    by (simp add: stacks_new_def Stack_new_def Allocate_def mmap_def MAP_FAILED_def)
  have s: "stack_reach 4096 ?s"
    by (rule k_step [OF k_start _ a]) (simp add: stacks_new_def)
  let ?t = "?s\<lparr>stack_size_pages := 17\<rparr>"
  have b: "stack_step 4096 (SMin 16) ?s = Some ?t"
    by (simp add: stacks_new_def SetMinStackSize_def)
  have t: "stack_reach 4096 ?t" by (rule k_step [OF s _ b]) simp
  let ?u = "?t\<lparr>pool := [(7, 8 * 4096)], stack_of := (stack_of ?t)(0 := None)\<rparr>"
  have c: "stack_step 4096 (SDtor 0) ?t = Some ?u"
    by (simp add: stacks_new_def Stack_dtor_def Release_stack_def)
  have "stack_reach 4096 ?u" by (rule k_step [OF t _ c]) simp
  moreover have "\<exists>v. stack_step 4096 (SNew 1 (Some 9)) ?u = Some v \<and> stack_of v 1 = Some (7, 8 * 4096)"
    by (simp add: stacks_new_def Stack_new_def Allocate_def)
  moreover have "stack_size_pages ?u = 17" by simp
  ultimately show ?thesis by blast
qed

end
