(* ===== verification/EventAwaits.thy ===== *)
theory EventAwaits
  imports Prelude
begin

section \<open>Awaiting an event in coroutines\<close>

text \<open>
  The awaiters of \<open>OneShotEvent\<close> in \<open>include/yaclib/algo/one_shot_event.hpp\<close> for any number of coroutines: \<open>AwaitInline\<close>, \<open>AwaitSticky\<close>
  and \<open>AwaitOn\<close>. \<open>TryAdd\<close> is a single move, as \<open>OneShot\<close> shows; \<open>Call\<close> and \<open>Set\<close> take the list in one move and call its jobs one by one. The event is
  the word with its jobs, each named by its coroutine, and \<open>rest\<close>, the jobs that \<open>SetImpl\<close> still has to call. A coroutine that is resumed while
  it runs, and a list that is taken from an event that was set, have the value None.
\<close>

subsection \<open>States\<close>

datatype ekind = AwInline | AwSticky | AwOn nat

text \<open>Before \<open>await_ready\<close>, in \<open>await_suspend\<close>.\<close>

datatype estage = EReady | ESusp

datatype epc = EGo | EAt ekind estage | EWaiting ekind | EQueued nat ekind | EDropped

datatype eword = EJobs "nat list" | EAllDone

record evst =
  ehead :: eword
  rest :: "nat list"
  epc :: "nat \<Rightarrow> epc"
  eexec :: "nat \<Rightarrow> nat"
  ehome :: "nat \<Rightarrow> nat"

definition go_to :: "nat \<Rightarrow> epc \<Rightarrow> evst \<Rightarrow> evst" where
  "go_to c p s = s\<lparr>epc := (epc s)(c := p)\<rparr>"

subsection \<open>The event\<close>

definition Ready :: "evst \<Rightarrow> bool" where
  "Ready s \<longleftrightarrow> ehead s = EAllDone"

definition TryAdd :: "nat \<Rightarrow> evst \<Rightarrow> bool \<times> evst" where
  "TryAdd c s = (case ehead s of EAllDone \<Rightarrow> (False, s) | EJobs l \<Rightarrow> (True, s\<lparr>ehead := EJobs (c # l)\<rparr>))"

text \<open>\<open>Call\<close> of the awaiter of a coroutine.\<close>

definition ExtendedAwaiter_Call :: "nat \<Rightarrow> ekind \<Rightarrow> evst \<Rightarrow> evst" where
  "ExtendedAwaiter_Call c k s = go_to c (EQueued (eexec s c) k) s"

definition job_Call :: "nat \<Rightarrow> evst \<Rightarrow> evst option" where
  "job_Call c s =
     (case epc s c of
        EWaiting k \<Rightarrow> Some (case k of AwInline \<Rightarrow> go_to c EGo s | _ \<Rightarrow> ExtendedAwaiter_Call c k s)
      | _ \<Rightarrow> None)"

definition SetImpl_take :: "eword \<Rightarrow> evst \<Rightarrow> evst option" where
  "SetImpl_take v s = (case ehead s of EAllDone \<Rightarrow> None | EJobs l \<Rightarrow> Some (s\<lparr>ehead := v, rest := l\<rparr>))"

definition SetImpl_call :: "evst \<Rightarrow> evst option" where
  "SetImpl_call s = (case rest s of [] \<Rightarrow> None | c # cs \<Rightarrow> job_Call c (s\<lparr>rest := cs\<rparr>))"

definition Event_Reset :: "evst \<Rightarrow> evst option" where
  "Event_Reset s = (if ehead s = EJobs [] \<or> ehead s = EAllDone then Some (s\<lparr>ehead := EJobs []\<rparr>) else None)"

subsection \<open>Awaiters\<close>

definition InlineAwaiter :: "nat \<Rightarrow> estage \<Rightarrow> evst \<Rightarrow> evst" where
  "InlineAwaiter c st s =
     (case st of
        EReady \<Rightarrow> if Ready s then go_to c EGo s else go_to c (EAt AwInline ESusp) s
      | ESusp \<Rightarrow> (let (ok, s) = TryAdd c s in if ok then go_to c (EWaiting AwInline) s else go_to c EGo s))"

definition StickyAwaiter :: "nat \<Rightarrow> estage \<Rightarrow> evst \<Rightarrow> evst" where
  "StickyAwaiter c st s =
     (case st of
        EReady \<Rightarrow> if Ready s then go_to c EGo s else go_to c (EAt AwSticky ESusp) s
      | ESusp \<Rightarrow> (let (ok, s) = TryAdd c s in if ok then go_to c (EWaiting AwSticky) s else go_to c EGo s))"

definition OnAwaiter :: "nat \<Rightarrow> nat \<Rightarrow> evst \<Rightarrow> evst" where
  "OnAwaiter e c s =
     (let s = s\<lparr>eexec := (eexec s)(c := e)\<rparr>; (ok, s) = TryAdd c s
      in if ok then go_to c (EWaiting (AwOn e)) s else ExtendedAwaiter_Call c (AwOn e) s)"

definition event_turn :: "nat \<Rightarrow> ekind \<Rightarrow> estage \<Rightarrow> evst \<Rightarrow> evst" where
  "event_turn c k st s = (case k of AwInline \<Rightarrow> InlineAwaiter c st s | AwSticky \<Rightarrow> StickyAwaiter c st s | AwOn e \<Rightarrow> OnAwaiter e c s)"

definition event_await :: "nat \<Rightarrow> ekind \<Rightarrow> evst \<Rightarrow> evst" where
  "event_await c k s = go_to c (EAt k (case k of AwOn e \<Rightarrow> ESusp | _ \<Rightarrow> EReady)) (s\<lparr>ehome := (ehome s)(c := eexec s c)\<rparr>)"

subsection \<open>Moves\<close>

datatype emove = EAwait nat ekind | ETurn nat | ECall | ESet | EVisit | EReset | ERun nat | EDrop nat

definition ev_move :: "emove \<Rightarrow> evst \<Rightarrow> evst option" where
  "ev_move m s =
     (case m of
        EAwait c k \<Rightarrow> Some (event_await c k s)
      | ETurn c \<Rightarrow> (case epc s c of EAt k st \<Rightarrow> Some (event_turn c k st s) | _ \<Rightarrow> None)
      | ECall \<Rightarrow> SetImpl_take (EJobs []) s
      | ESet \<Rightarrow> SetImpl_take EAllDone s
      | EVisit \<Rightarrow> SetImpl_call s
      | EReset \<Rightarrow> Event_Reset s
      | ERun c \<Rightarrow> (case epc s c of EQueued e k \<Rightarrow> Some (go_to c EGo s) | _ \<Rightarrow> None)
      | EDrop c \<Rightarrow> (case epc s c of EQueued e k \<Rightarrow> Some (go_to c EDropped s) | _ \<Rightarrow> None))"

text \<open>One thread calls \<open>Call\<close> and \<open>Set\<close>, and \<open>Reset\<close> before it uses the event again after \<open>Set\<close>.\<close>

definition ev_enabled :: "emove \<Rightarrow> evst \<Rightarrow> bool" where
  "ev_enabled m s \<longleftrightarrow>
     (case m of
        EAwait c k \<Rightarrow> epc s c = EGo
      | ETurn c \<Rightarrow> \<exists>k st. epc s c = EAt k st
      | ECall \<Rightarrow> rest s = [] \<and> ehead s \<noteq> EAllDone
      | ESet \<Rightarrow> rest s = [] \<and> ehead s \<noteq> EAllDone
      | EVisit \<Rightarrow> rest s \<noteq> []
      | EReset \<Rightarrow> rest s = [] \<and> (ehead s = EJobs [] \<or> ehead s = EAllDone)
      | ERun c \<Rightarrow> \<exists>e k. epc s c = EQueued e k
      | EDrop c \<Rightarrow> \<exists>e k. epc s c = EQueued e k)"

definition ev_new :: "(nat \<Rightarrow> nat) \<Rightarrow> evst" where
  "ev_new e = \<lparr>ehead = EJobs [], rest = [], epc = \<lambda>c. EGo, eexec = e, ehome = e\<rparr>"

inductive ev_reach :: "evst \<Rightarrow> bool" where
  ev_start: "ev_reach (ev_new e)"
| ev_next: "ev_reach s \<Longrightarrow> ev_enabled m s \<Longrightarrow> ev_move m s = Some t \<Longrightarrow> ev_reach t"

subsection \<open>The invariant\<close>

definition jobs :: "evst \<Rightarrow> nat list" where
  "jobs s = (case ehead s of EJobs l \<Rightarrow> l | EAllDone \<Rightarrow> []) @ rest s"

text \<open>The executor on which a coroutine of the kind goes on.\<close>

fun right_exec :: "ekind \<Rightarrow> nat \<Rightarrow> nat \<Rightarrow> bool" where
  "right_exec (AwOn e) x h \<longleftrightarrow> x = e"
| "right_exec k x h \<longleftrightarrow> x = h"

fun pc_right :: "epc \<Rightarrow> nat \<Rightarrow> nat \<Rightarrow> bool" where
  "pc_right (EWaiting k) x h \<longleftrightarrow> right_exec k x h"
| "pc_right (EQueued e k) x h \<longleftrightarrow> e = x \<and> right_exec k x h \<and> k \<noteq> AwInline"
| "pc_right (EAt k st) x h \<longleftrightarrow> x = h"
| "pc_right p x h \<longleftrightarrow> True"

definition ev_ok :: "evst \<Rightarrow> bool" where
  "ev_ok s \<longleftrightarrow> distinct (jobs s) \<and> (\<forall>c. c \<in> set (jobs s) \<longleftrightarrow> (\<exists>k. epc s c = EWaiting k)) \<and> (\<forall>c. pc_right (epc s c) (eexec s c) (ehome s c))"

lemma go_to_fields [simp]:
  "ehead (go_to c p s) = ehead s" "rest (go_to c p s) = rest s" "eexec (go_to c p s) = eexec s" "ehome (go_to c p s) = ehome s"
  "epc (go_to c p s) = (epc s)(c := p)" "jobs (go_to c p s) = jobs s"
  by (simp_all add: go_to_def jobs_def)

text \<open>A move of a coroutine that is in no list and enters none.\<close>

lemma ok_go_to:
  assumes s: "ev_ok s" and c: "c \<notin> set (jobs s)" "\<And>k. p \<noteq> EWaiting k" "pc_right p (eexec t c) (ehome t c)"
    and t: "jobs t = jobs s" "epc t = (epc s)(c := p)" "\<And>d. d \<noteq> c \<Longrightarrow> eexec t d = eexec s d" "\<And>d. d \<noteq> c \<Longrightarrow> ehome t d = ehome s d"
  shows "ev_ok t"
  using assms unfolding ev_ok_def by auto

lemma ok_add:
  assumes s: "ev_ok s" and c: "c \<notin> set (jobs s)" "right_exec k (eexec t c) (ehome t c)"
    and t: "jobs t = c # jobs s" "epc t = (epc s)(c := EWaiting k)" "\<And>d. d \<noteq> c \<Longrightarrow> eexec t d = eexec s d" "\<And>d. d \<noteq> c \<Longrightarrow> ehome t d = ehome s d"
  shows "ev_ok t"
  using assms unfolding ev_ok_def by auto

lemma TryAdd_cases:
  "TryAdd c s = (True, s\<lparr>ehead := EJobs (c # l)\<rparr>) \<and> ehead s = EJobs l \<and> jobs (s\<lparr>ehead := EJobs (c # l)\<rparr>) = c # jobs s
   \<or> TryAdd c s = (False, s) \<and> ehead s = EAllDone" if "l = (case ehead s of EJobs l \<Rightarrow> l | EAllDone \<Rightarrow> [])"
  using that by (auto simp: TryAdd_def jobs_def split: eword.splits)

lemma ok_event_turn:
  assumes s: "ev_ok s" and c: "epc s c = EAt k st"
  shows "ev_ok (event_turn c k st s)"
proof -
  have n: "c \<notin> set (jobs s)" and h: "eexec s c = ehome s c"
    using s c by (auto simp: ev_ok_def dest: spec [of _ c])
  define l where "l = (case ehead s of EJobs l \<Rightarrow> l | EAllDone \<Rightarrow> [])"
  note A = TryAdd_cases [OF l_def, of c]
  have on: "ev_ok (OnAwaiter e c s)" for e
  proof -
    let ?s = "s\<lparr>eexec := (eexec s)(c := e)\<rparr>"
    have "jobs ?s = jobs s" by (simp add: jobs_def)
    moreover from this have "TryAdd c ?s = (True, ?s\<lparr>ehead := EJobs (c # l)\<rparr>) \<and> jobs (?s\<lparr>ehead := EJobs (c # l)\<rparr>) = c # jobs s \<or> TryAdd c ?s = (False, ?s)"
      using TryAdd_cases [of l ?s c] l_def by auto
    ultimately show ?thesis
      using ok_add [OF s n, of "AwOn e" "go_to c (EWaiting (AwOn e)) (?s\<lparr>ehead := EJobs (c # l)\<rparr>)"]
        ok_go_to [OF s n, of "EQueued e (AwOn e)" "go_to c (EQueued e (AwOn e)) ?s"]
      by (auto simp: OnAwaiter_def ExtendedAwaiter_Call_def)
  qed
  have one: "ev_ok (go_to c EGo s)" "\<And>k st. ev_ok (go_to c (EAt k st) s)"
    by (rule ok_go_to [OF s n], use h in simp_all)+
  have wait: "ev_ok (go_to c (EWaiting k) (s\<lparr>ehead := EJobs (c # l)\<rparr>))" if "right_exec k (eexec s c) (ehome s c)" "jobs (s\<lparr>ehead := EJobs (c # l)\<rparr>) = c # jobs s" for k
    by (rule ok_add [OF s n]) (use that in simp_all)
  show ?thesis
    using A on one wait h by (cases k; cases st) (auto simp: event_turn_def InlineAwaiter_def StickyAwaiter_def)
qed

lemma ok_call:
  assumes s: "ev_ok s" and r: "rest s = c # cs"
  shows "\<exists>t. SetImpl_call s = Some t \<and> ev_ok t"
proof -
  have j: "jobs s = (case ehead s of EJobs l \<Rightarrow> l | EAllDone \<Rightarrow> []) @ c # cs" using r by (simp add: jobs_def)
  then have "c \<in> set (jobs s)" by simp
  then obtain k where k: "epc s c = EWaiting k" using s unfolding ev_ok_def by blast
  have e: "right_exec k (eexec s c) (ehome s c)" using s k by (auto simp: ev_ok_def dest: spec [of _ c])
  let ?s = "s\<lparr>rest := cs\<rparr>"
  define p where "p = (case k of AwInline \<Rightarrow> EGo | _ \<Rightarrow> EQueued (eexec s c) k)"
  have t: "SetImpl_call s = Some (go_to c p ?s)"
    using r k by (cases k) (simp_all add: SetImpl_call_def job_Call_def ExtendedAwaiter_Call_def p_def)
  have jt: "jobs ?s = (case ehead s of EJobs l \<Rightarrow> l | EAllDone \<Rightarrow> []) @ cs" by (simp add: jobs_def)
  have "set (jobs ?s) = set (jobs s) - {c}" "distinct (jobs ?s)" using s j jt by (auto simp: ev_ok_def)
  moreover have "pc_right p (eexec s c) (ehome s c)" "\<And>k. p \<noteq> EWaiting k" using e by (cases k; simp add: p_def)+
  ultimately have "ev_ok (go_to c p ?s)" using s by (auto simp: ev_ok_def)
  then show ?thesis using t by blast
qed

lemma ev_step:
  assumes s: "ev_ok s" and m: "ev_enabled m s"
  shows "\<exists>t. ev_move m s = Some t \<and> ev_ok t"
proof (cases m)
  case (EAwait c k)
  then have g: "epc s c = EGo" using m by (simp add: ev_enabled_def)
  have n: "c \<notin> set (jobs s)" using s g by (auto simp: ev_ok_def dest: spec [of _ c])
  have "ev_ok (event_await c k s)"
    unfolding event_await_def by (rule ok_go_to [OF s n]) (simp_all add: jobs_def)
  then show ?thesis using EAwait by (simp add: ev_move_def)
next
  case (ETurn c)
  then obtain k st where "epc s c = EAt k st" using m by (auto simp: ev_enabled_def)
  then show ?thesis using ok_event_turn [OF s] ETurn by (simp add: ev_move_def)
next
  case EVisit
  then obtain c cs where "rest s = c # cs" using m by (cases "rest s") (auto simp: ev_enabled_def)
  then show ?thesis using ok_call [OF s] EVisit by (simp add: ev_move_def)
next
  case (ERun c)
  then obtain e k where g: "epc s c = EQueued e k" using m by (auto simp: ev_enabled_def)
  have n: "c \<notin> set (jobs s)" using s g by (auto simp: ev_ok_def dest: spec [of _ c])
  have "ev_ok (go_to c EGo s)" by (rule ok_go_to [OF s n]) simp_all
  then show ?thesis using ERun g by (simp add: ev_move_def)
next
  case (EDrop c)
  then obtain e k where g: "epc s c = EQueued e k" using m by (auto simp: ev_enabled_def)
  have n: "c \<notin> set (jobs s)" using s g by (auto simp: ev_ok_def dest: spec [of _ c])
  have "ev_ok (go_to c EDropped s)" by (rule ok_go_to [OF s n]) simp_all
  then show ?thesis using EDrop g by (simp add: ev_move_def)
qed (use s m in \<open>auto simp: ev_move_def ev_enabled_def SetImpl_take_def Event_Reset_def ev_ok_def jobs_def split: eword.splits\<close>)

lemma ev_reach_ok: "ev_reach s \<Longrightarrow> ev_ok s"
proof (induction rule: ev_reach.induct)
  case (ev_start e)
  then show ?case by (simp add: ev_ok_def ev_new_def jobs_def)
next
  case (ev_next s m t)
  then show ?case using ev_step [OF ev_next.IH ev_next.hyps(2)] by auto
qed

subsection \<open>Properties\<close>

text \<open>
  C40: Coroutines that await an event are woken: every move is defined, a waiting coroutine is exactly once among the jobs of the event or
  those that \<open>Call\<close> or \<open>Set\<close> still has to call, so that none waits once an event is set and its jobs are called; and a coroutine is queued
  on the executor it asked for, its own with \<open>AwaitSticky\<close>, the given one with \<open>AwaitOn\<close>.
\<close>

theorem event_await_wakes:
  assumes "ev_reach s" "ev_enabled m s"
  shows "(\<exists>t. ev_move m s = Some t) \<and> distinct (jobs s) \<and> {c. \<exists>k. epc s c = EWaiting k} = set (jobs s) \<and>
    (\<forall>c e k. epc s c = EQueued e k \<longrightarrow> right_exec k e (ehome s c) \<and> k \<noteq> AwInline)"
proof -
  have ok: "ev_ok s" by (rule ev_reach_ok [OF assms(1)])
  have "right_exec k e (ehome s c) \<and> k \<noteq> AwInline" if "epc s c = EQueued e k" for c e k
    using ok that by (auto simp: ev_ok_def dest: spec [of _ c])
  then show ?thesis using ev_step [OF ok assms(2)] ok by (auto simp: ev_ok_def)
qed

theorem event_await_wakes_witness:
  "\<exists>s. ev_reach s \<and> epc s 1 = EWaiting (AwOn 5) \<and> (\<exists>t. ev_move ESet s = Some t) \<and> jobs s = [1]"
proof -
  let ?s = "event_await 1 (AwOn 5) (ev_new (\<lambda>c. 3))"
  let ?t = "event_turn 1 (AwOn 5) ESusp ?s"
  note D = event_await_def ev_new_def event_turn_def OnAwaiter_def TryAdd_def ev_move_def ev_enabled_def
  have s: "ev_reach ?s" by (rule ev_next [OF ev_start [of "\<lambda>c. 3"], where m = "EAwait 1 (AwOn 5)"]) (simp_all add: D)
  have t: "ev_reach ?t" by (rule ev_next [OF s, where m = "ETurn 1"]) (simp_all add: D)
  have j: "jobs ?t = [1]" "epc ?t 1 = EWaiting (AwOn 5)" by (simp_all add: D jobs_def)
  have "\<exists>u. ev_move ESet ?t = Some u" using event_await_wakes [OF t, of ESet] by (simp add: D)
  then show ?thesis using t j by blast
qed

end
