(* ===== verification/Spec2Isabelle.thy ===== *)
theory Spec2Isabelle
  imports Prelude Intrusive Results Refcount Strand FairPool Cores Pipeline Futures Unwrap Tasks CoreRace
    OneShot Events Waiting WaitGroups Faults CoroMutex SharedMutexes Guards Awaiters Whens
    BiLists Fibers FiberLocks ThreadLocals Executors
    Stacks EventAwaits
begin

text \<open>
  This development models YACLib, a C++ library of futures, executors and synchronisation
  primitives (\<open>include/yaclib/\<close> and \<open>src/\<close> of the repository), and proves what its parts promise.

  Data and containers. \<open>Prelude\<close> has the words of the library (a pointer that may be one of two
  marks), chains of intrusive nodes and the two loops over them. \<open>Intrusive\<close> is
  \<open>util/detail/intrusive_list.hpp\<close>, \<open>intrusive_stack.hpp\<close> at pointer level, behind the locale
  \<open>node_container\<close>; \<open>Results\<close> is \<open>util/result.hpp\<close> with the lifetime of the union member; \<open>Refcount\<close>
  is \<open>util/helper.hpp\<close>, the two counters and \<open>IntrusivePtr\<close>.

  Executors. \<open>Strand\<close> is \<open>src/exe/strand.cpp\<close> and \<open>FairPool\<close> is \<open>src/runtime/fair_thread_pool.cpp\<close>:
  step relations whose steps are the atomic operations, or the critical sections, of the code, for
  any number of threads; the invariants hold in every reachable state. \<open>Executors\<close> is the inline, stopped and manual executors of
  \<open>src/exe/\<close> with the jobs that \<open>exe/submit.hpp\<close> makes of functions.

  Futures. \<open>Cores\<close> is the machine of \<open>algo/detail/\<close>: a heap of cores, each with its callback word,
  its executor, its storage, its functor and its count, and one definition per member function; a
  stack of frames stands for the calls of \<open>Loop\<close> and \<open>Submit\<close>. An operation that the code forbids
  (a failed assertion, a null pointer, a freed core) has the value None. \<open>Pipeline\<close> and \<open>Futures\<close> are
  \<open>async/\<close> and \<open>lazy/\<close> on top of it, with the abstract meaning of a chain of continuations;
  \<open>Unwrap\<close> is continuations that return futures, \<open>Tasks\<close> is \<open>Task\<close>. \<open>CoreRace\<close> is the callback word
  again, now with interleaved atomic operations of a producer and its consumers.

  Waiting. \<open>OneShot\<close> is \<open>algo/one_shot_event.hpp\<close> and \<open>src/algo/one_shot_event.cpp\<close> with its three
  kinds of waiters; \<open>Events\<close> is the two events a thread blocks on, \<open>Waiting\<close> is \<open>async/wait.hpp\<close> and its variants with a time
  limit, \<open>WaitGroups\<close> is \<open>algo/wait_group.hpp\<close>. \<open>Whens\<close> is \<open>async/when/\<close>: the combinators, their states, and each strategy
  for \<open>WhenAll\<close>, \<open>WhenAny\<close> and \<open>Join\<close>, with the inputs completing in any order and one atomic operation a step.

  Coroutines. \<open>CoroMutex\<close> is \<open>coro/mutex.hpp\<close> with its awaiters, the guard that remembers its executor and \<open>On\<close>;
  \<open>SharedMutexes\<close> is \<open>coro/shared_mutex.hpp\<close>, \<open>Guards\<close> is \<open>coro/guard.hpp\<close> on \<open>coro/detail/guard_state.hpp\<close>.
  \<open>Awaiters\<close> is \<open>co_await\<close> of futures and tasks: the awaiters and events of \<open>coro/detail/\<close> and the promise type, for any number
  of coroutines that await each other, one atomic operation a move; \<open>EventAwaits\<close> is \<open>co_await\<close> of a \<open>OneShotEvent\<close>.

  Fault build. \<open>Faults\<close> is \<open>fault/\<close>: the atomics of the fibers and of the fault layer around any atomics, the injector of
  yields and the random numbers it may replay. \<open>BiLists\<close> is the doubly linked list of \<open>src/fault/fiber/\<close> at pointer level; \<open>Fibers\<close>
  is its scheduler with the queues, threads, mutexes and condition variables on top of it: a fiber between two calls may do
  anything, and the calls it is in are a stack of frames. \<open>FiberLocks\<close> is the recursive, shared and timed locks of the fibers,
  \<open>ThreadLocals\<close> their \<open>thread_local\<close> pointers, \<open>Stacks\<close> the pool of stacks.

  Each step relation has one rule per atomic operation or critical section of the code, and the definitions it calls are the member
  functions; \<open>PROJECT.json\<close> gives the lines each definition translates.

  What is shown. \<open>Intrusive\<close>: order and memory safety of both containers, through one locale.
  \<open>Results\<close>: refinement to sums. \<open>Refcount\<close>: counts are exact. \<open>Strand\<close>, \<open>FairPool\<close>: seriality, order,
  exactly once, no lost job or wake-up, the counter does not wrap below \<open>2 ^ 62\<close> jobs. \<open>Futures\<close>,
  \<open>Unwrap\<close>, \<open>Tasks\<close>: the machine computes the composition of the stages and the heap ends as it
  began, for every length of chain and every executor. \<open>CoreRace\<close>: callbacks run exactly once and a
  result is moved out only when nobody else can read it.
  \<open>OneShot\<close>: every waiter is called once and its memory is not used after it is freed. \<open>Waiting\<close>: waiting uses no freed
  event, returns when the futures are ready and only then, and gives back every callback that it could take back. \<open>WaitGroups\<close>: the
  64-bit count is exact as long as no addition wraps it, and a consumed future is freed once. \<open>Whens\<close>: the answer of each strategy, as a function of the results in their order
  of completion; each input and each result is freed once; every run ends. \<open>Faults\<close>: both layers of atomics are the standard ones
  up to spurious failures, the injector keeps its bounds, a run with the recorded numbers is the same run. \<open>CoroMutex\<close>: mutual
  exclusion, no lost waiter, the order of the waiters, and the executor on which a coroutine comes back. \<open>SharedMutexes\<close>: a writer is alone, no assertion fails, and without new calls everybody
  gets and leaves the lock in finitely many steps, for fewer than \<open>2 ^ 31\<close> coroutines. \<open>Guards\<close>: every lock has one owner.
  \<open>Awaiters\<close>: no assertion fails and no wake-up is lost, a coroutine goes on when all it awaited is complete and on the executor
  it asked for; and two ways in which several coroutines on one shared future break this. \<open>EventAwaits\<close>: every coroutine that waits is woken once.
  \<open>BiLists\<close>: which element the random choice takes, also past the end. \<open>Fibers\<close>: no freed fiber is used, no wake-up of a mutex is lost, mutual
  exclusion, nobody wakes up before its time as long as the 64-bit clock has not wrapped, every call is defined for every random choice;
  and ways in which waiting with a time limit, or sleeping until a time before the epoch, breaks the scheduler. \<open>FiberLocks\<close>: the recursive lock has one owner, the shared
  lock excludes when notified fibers run first, and what happens when they do not. \<open>ThreadLocals\<close>: the proxies of one type refine one
  variable a fiber, those of different types share their values. \<open>Stacks\<close>: no stack that \<open>mmap\<close> gave is shared or lost, whichever calls of
  \<open>mmap\<close> fail, and the one call that breaks this. \<open>Executors\<close>: every job is called or dropped once and deleted, in order, and the work ends.

  Bounds. Loops that the code ends by a null pointer are partial functions with a lemma that they
  return; no property has fuel. Memory orders are not modelled: atomic operations are interleaved.
  Object addresses and cores are natural numbers chosen by the caller of an allocation, which has to
  be fresh. User code is a parameter: a callback is a function from its argument to an outcome. Counters at their width
  have a bound on what they count in the properties that need it (\<open>2 ^ 62\<close> jobs, the inputs of a combinator), or a mark in the state
  that says whether they have wrapped (\<open>WaitGroups\<close>, the clock of \<open>Fibers\<close>). The atomics of \<open>Faults\<close> are of unsigned types, the functions
  of fibers do not throw, a task that a coroutine of \<open>Awaiters\<close> awaits is one coroutine, and the rvalue \<open>Touch\<close> of a shared future is
  called when the result is there.

  Not modelled. Context switches, which are the operating system's; the conversions of \<open>std::chrono\<close> and the random device, which are the standard library's; logging; type traits, which compute on types; adaptors to third-party results.
\<close>

end
